(* ===== verification/Prelude.thy ===== *)
theory Prelude
  imports Main "HOL-Library.Word"
begin

unbundle bit_operations_syntax

text \<open>
  Shared vocabulary of the development: the widths of the C integer types, counting loops over
  unsigned words, and the generic facts about words, lists and options that the component
  theories rest on. The kernel is compiled for x86-64, so \<open>uint64_t\<close>, \<open>size_t\<close>, \<open>uintptr_t\<close>
  and every pointer are 64-bit words and \<open>NULL\<close> is the word 0.
\<close>

section \<open>Machine integers\<close>

type_synonym u8 = "8 word"
type_synonym u16 = "16 word"
type_synonym u32 = "32 word"
type_synonym u64 = "64 word"

named_theorems u64_simps \<open>normal forms of word arithmetic as natural number arithmetic\<close>

lemma unat_lt_2p64: "unat (x :: u64) < 18446744073709551616"
  using unsigned_less [of x] by simp

lemma nat_below_u64: "n < unat (b :: u64) \<Longrightarrow> n < 18446744073709551616"
  by (rule less_trans [OF _ unat_lt_2p64])

lemma unat_of_nat_u64: "n < 18446744073709551616 \<Longrightarrow> unat (of_nat n :: u64) = n"
  by (simp add: unat_of_nat)

lemma unat_plus_no_wrap:
  "unat (a :: u64) + unat b < 18446744073709551616 \<Longrightarrow> unat (a + b) = unat a + unat b"
  by (simp add: unat_word_ariths)

lemma unat_plus_one:
  "(x :: u64) < y \<Longrightarrow> unat (x + 1) = unat x + 1"
proof -
  assume "x < y"
  then have "unat x < unat y" by (simp add: word_less_nat_alt)
  then have "unat x + 1 < 18446744073709551616" using unat_lt_2p64 [of y] by linarith
  then show ?thesis by (simp add: unat_word_ariths)
qed

lemma unat_minus_le:
  "b \<le> (a :: u64) \<Longrightarrow> unat (a - b) = unat a - unat b"
  by (simp add: unat_sub word_le_nat_alt)

lemma unat_div_u64 [u64_simps]: "unat ((a :: u64) div b) = unat a div unat b"
  by (simp add: unat_div_distrib)

lemma unat_mod_u64 [u64_simps]: "unat ((a :: u64) mod b) = unat a mod unat b"
  by (simp add: unat_mod_distrib)

lemma unat_mult_no_wrap:
  "unat (a :: u64) * unat b < 18446744073709551616 \<Longrightarrow> unat (a * b) = unat a * unat b"
  by (simp add: unat_word_ariths)

lemma u64_eq_iff_unat: "(a :: u64) = b \<longleftrightarrow> unat a = unat b"
  by (simp add: word_unat_eq_iff)

text \<open>The conversion \<open>(int)x\<close> of an unsigned 64-bit value below \<open>2 ^ 31\<close>.\<close>

lemma sint_ucast_small:
  assumes "unat (x :: 64 word) < 2 ^ 31"
  shows "sint (ucast x :: 32 word) = int (unat x)"
proof -
  have x: "uint x = int (unat x)" by simp
  have "unat x < 2147483648" using assms by simp
  then have "int (unat x) < int 2147483648" by (simp only: of_nat_less_iff)
  then have u: "uint x < 2147483648" by simp
  have "uint (ucast x :: 32 word) = take_bit 32 (uint x)" by (simp add: unsigned_ucast_eq)
  also have "\<dots> = uint x" by (rule take_bit_int_eq_self) (use u in simp_all)
  finally have e: "uint (ucast x :: 32 word) = uint x" .
  have "sint (ucast x :: 32 word) = signed_take_bit 31 (uint (ucast x :: 32 word))"
    unfolding sint_uint by simp
  also have "\<dots> = signed_take_bit 31 (uint x)" by (simp only: e)
  also have "\<dots> = uint x"
    by (rule signed_take_bit_int_eq_self) (use u order_trans [OF _ unsigned_greater_eq [of x], of "- 2147483648 :: int"] in simp_all)
  finally show ?thesis by (simp only: x)
qed

section \<open>Counting loops\<close>

text \<open>
  The loop \<open>for (uint64_t i = a; i < b; i++)\<close>, whose bound does not change, runs its body on the
  words from \<open>a\<close> up to but excluding \<open>b\<close>: since \<open>i < b\<close> holds before every increment the counter
  never wraps, and the loop always ends.
\<close>

definition u64_range :: "u64 \<Rightarrow> u64 \<Rightarrow> u64 list" where
  "u64_range a b = map of_nat [unat a..<unat b]"

lemma set_u64_range [simp]: "set (u64_range a b) = {a..<b}"
proof (rule set_eqI)
  fix x :: u64
  have "x \<in> set (u64_range a b) \<longleftrightarrow> (\<exists>n. unat a \<le> n \<and> n < unat b \<and> x = of_nat n)"
    by (auto simp: u64_range_def)
  also have "\<dots> \<longleftrightarrow> unat a \<le> unat x \<and> unat x < unat b"
  proof
    assume "\<exists>n. unat a \<le> n \<and> n < unat b \<and> x = of_nat n"
    then obtain n where n: "unat a \<le> n" "n < unat b" "x = of_nat n" by blast
    from n have "unat x = n" by (auto intro: unat_of_nat_u64 nat_below_u64)
    then show "unat a \<le> unat x \<and> unat x < unat b" using n by simp
  next
    assume "unat a \<le> unat x \<and> unat x < unat b"
    then show "\<exists>n. unat a \<le> n \<and> n < unat b \<and> x = of_nat n"
      by (intro exI [of _ "unat x"]) simp
  qed
  also have "\<dots> \<longleftrightarrow> x \<in> {a..<b}"
    by (simp add: word_le_nat_alt word_less_nat_alt)
  finally show "x \<in> set (u64_range a b) \<longleftrightarrow> x \<in> {a..<b}" .
qed

lemma distinct_u64_range [simp]: "distinct (u64_range a b)"
proof -
  have "inj_on (of_nat :: nat \<Rightarrow> u64) {unat a..<unat b}"
  proof (rule inj_onI)
    fix x y :: nat
    assume x: "x \<in> {unat a..<unat b}" and y: "y \<in> {unat a..<unat b}"
      and eq: "(of_nat x :: u64) = of_nat y"
    from x have "unat (of_nat x :: u64) = x" by (auto intro: unat_of_nat_u64 nat_below_u64)
    moreover from y have "unat (of_nat y :: u64) = y" by (auto intro: unat_of_nat_u64 nat_below_u64)
    ultimately show "x = y" using eq by metis
  qed
  then show ?thesis by (simp add: u64_range_def distinct_map)
qed

definition for_u64 :: "u64 \<Rightarrow> u64 \<Rightarrow> (u64 \<Rightarrow> 's \<Rightarrow> 's) \<Rightarrow> 's \<Rightarrow> 's" where
  "for_u64 a b body s = fold body (u64_range a b) s"

lemma fold_invariant:
  assumes "I s" and "\<And>x s. x \<in> set xs \<Longrightarrow> I s \<Longrightarrow> I (f x s)"
  shows "I (fold f xs s)"
  using assms by (induction xs arbitrary: s) auto

lemma for_u64_invariant:
  assumes "I s" and "\<And>i s. a \<le> i \<Longrightarrow> i < b \<Longrightarrow> I s \<Longrightarrow> I (body i s)"
  shows "I (for_u64 a b body s)"
  unfolding for_u64_def by (rule fold_invariant [where I = I]) (use assms in auto)

lemma find_Some_mem: "find P xs = Some x \<Longrightarrow> P x \<and> x \<in> set xs"
  by (induction xs) (auto split: if_splits)

lemma option_eqI: "(\<And>i. x = Some i \<longleftrightarrow> y = Some i) \<Longrightarrow> x = y"
  by (cases x; cases y) auto

end
