(* ===== verification/Bitmap.thy ===== *)
theory Bitmap
  imports Prelude
begin

text \<open>
  The page bitmap of \<open>mm/bitmap.c\<close>: the static byte buffer and the number of bits in use, with
  \<open>bitmap_init\<close>, \<open>bitmap_set\<close>, \<open>bitmap_clear\<close> and \<open>bitmap_test\<close>. The byte array is a function of the
  byte index; that every access stays inside the buffer is a theorem. The locale \<open>bitset\<close> is the
  contract the physical memory manager relies on, and the byte-level code is shown to meet it.
\<close>

section \<open>The bitmap and its operations\<close>

record bitmap =
  bitmap_bytes :: "nat \<Rightarrow> u8"
  bitmap_bits :: u64

definition bitmap_init :: "(nat \<Rightarrow> u8) \<Rightarrow> u64 \<Rightarrow> bitmap" where
  "bitmap_init buffer bits =
     \<lparr>bitmap_bytes = fold (\<lambda>i m. m(unat i := 0xFF)) (u64_range 0 ((bits + 7) div 8)) buffer,
      bitmap_bits = bits\<rparr>"

definition bitmap_set :: "u64 \<Rightarrow> bitmap \<Rightarrow> bitmap" where
  "bitmap_set n b =
     (if n \<ge> bitmap_bits b then b
      else let i = unat (n div 8) in
        b\<lparr>bitmap_bytes := (bitmap_bytes b)(i :=
           ucast ((ucast (bitmap_bytes b i) :: u32) OR push_bit (unat (n mod 8)) 1))\<rparr>)"

definition bitmap_clear :: "u64 \<Rightarrow> bitmap \<Rightarrow> bitmap" where
  "bitmap_clear n b =
     (if n \<ge> bitmap_bits b then b
      else let i = unat (n div 8) in
        b\<lparr>bitmap_bytes := (bitmap_bytes b)(i :=
           ucast ((ucast (bitmap_bytes b i) :: u32) AND NOT (push_bit (unat (n mod 8)) 1)))\<rparr>)"

definition bitmap_test :: "u64 \<Rightarrow> bitmap \<Rightarrow> bool" where
  "bitmap_test n b =
     (if n \<ge> bitmap_bits b then True
      else (ucast (bitmap_bytes b (unat (n div 8))) :: u32) AND push_bit (unat (n mod 8)) 1 \<noteq> 0)"

section \<open>Bit-level meaning\<close>

lemma u32_and_single_bit:
  "k < 8 \<Longrightarrow> (ucast (x :: u8) :: u32) AND 2 ^ k = 0 \<longleftrightarrow> \<not> bit x k"
  by (simp add: and_exp_eq_0_iff_not_bit bit_simps)

lemma bit_or_single:
  "j < 8 \<Longrightarrow> k < 8 \<Longrightarrow>
   bit (ucast ((ucast (x :: u8) :: u32) OR 2 ^ k) :: u8) j \<longleftrightarrow> j = k \<or> bit x j"
  by (auto simp: bit_simps)

lemma bit_and_not_single:
  "j < 8 \<Longrightarrow> k < 8 \<Longrightarrow>
   bit (ucast ((ucast (x :: u8) :: u32) AND NOT (2 ^ k)) :: u8) j \<longleftrightarrow> j \<noteq> k \<and> bit x j"
  by (auto simp: bit_simps)

lemma bitmap_test_iff:
  "bitmap_test n b \<longleftrightarrow>
     (n < bitmap_bits b \<longrightarrow> bit (bitmap_bytes b (unat n div 8)) (unat n mod 8))"
  by (auto simp: bitmap_test_def u32_and_single_bit unat_div_u64 unat_mod_u64 not_le)

lemma bitmap_test_out: "bitmap_bits b \<le> n \<Longrightarrow> bitmap_test n b"
  by (simp add: bitmap_test_def)

lemma bitmap_bits_set [simp]: "bitmap_bits (bitmap_set n b) = bitmap_bits b"
  by (simp add: bitmap_set_def Let_def)

lemma bitmap_bits_clear [simp]: "bitmap_bits (bitmap_clear n b) = bitmap_bits b"
  by (simp add: bitmap_clear_def Let_def)

lemma bitmap_bits_init [simp]: "bitmap_bits (bitmap_init buf n) = n"
  by (simp add: bitmap_init_def)

lemma u64_split_by_8:
  "unat (m :: u64) div 8 = unat n div 8 \<Longrightarrow> unat m mod 8 = unat n mod 8 \<Longrightarrow> m = n"
  by (metis div_mult_mod_eq u64_eq_iff_unat)

lemma bitmap_test_set:
  assumes "n < bitmap_bits b"
  shows "bitmap_test m (bitmap_set n b) \<longleftrightarrow> m = n \<or> bitmap_test m b"
proof (cases "unat m div 8 = unat n div 8")
  case True
  with assms show ?thesis
    using u64_split_by_8 [of m n]
    by (auto simp: bitmap_test_iff bitmap_set_def Let_def bit_or_single unat_div_u64 unat_mod_u64)
next
  case False
  with assms show ?thesis
    by (auto simp: bitmap_test_iff bitmap_set_def Let_def unat_div_u64)
qed

lemma bitmap_test_clear:
  assumes "n < bitmap_bits b"
  shows "bitmap_test m (bitmap_clear n b) \<longleftrightarrow> m \<noteq> n \<and> bitmap_test m b"
proof (cases "unat m div 8 = unat n div 8")
  case True
  with assms show ?thesis
    using u64_split_by_8 [of m n]
    by (auto simp: bitmap_test_iff bitmap_clear_def Let_def bit_and_not_single unat_div_u64 unat_mod_u64)
next
  case False
  with assms show ?thesis
    by (auto simp: bitmap_test_iff bitmap_clear_def Let_def unat_div_u64)
qed

lemma bitmap_init_bytes:
  "bitmap_bytes (bitmap_init buf bits) i =
     (if i < unat ((bits + 7) div 8) then 0xFF else buf i)"
proof -
  have gen: "fold (\<lambda>j m. m(unat j := v)) xs f i = (if i \<in> unat ` set xs then v else f i)"
    for xs :: "u64 list" and v :: u8 and f
    by (induction xs arbitrary: f) auto
  have "i \<in> unat ` {0..<k} \<longleftrightarrow> i < unat k" for k :: u64
  proof
    assume "i < unat k"
    then have "unat (of_nat i :: u64) = i" by (auto intro: unat_of_nat_u64 nat_below_u64)
    with \<open>i < unat k\<close> show "i \<in> unat ` {0..<k}"
      by (intro image_eqI [of _ _ "of_nat i"]) (auto simp: word_less_nat_alt)
  qed (auto simp: word_less_nat_alt)
  then show ?thesis by (simp add: bitmap_init_def gen)
qed

lemma bitmap_test_init:
  assumes "unat bits + 7 < 18446744073709551616"
  shows "bitmap_test n (bitmap_init buf bits)"
proof -
  have "unat (bits + 7) = unat bits + 7" using assms by (simp add: unat_word_ariths)
  then have "unat n < unat bits \<Longrightarrow> unat n div 8 < unat ((bits + 7) div 8)"
    by (simp add: unat_div_u64)
  moreover have "bit (0xFF :: u8) (k mod 8)" for k :: nat
  proof -
    have "bit (mask 8 :: u8) (k mod 8)" unfolding bit_mask_iff by simp
    then show ?thesis by (simp add: mask_eq_exp_minus_1)
  qed
  ultimately show ?thesis
    by (simp add: bitmap_test_iff bitmap_init_bytes word_less_nat_alt)
qed

text \<open>Outside the \<open>(bits + 7) / 8\<close> bytes the bitmap was set up with nothing is written.\<close>

lemma bitmap_set_frame:
  "(unat (bitmap_bits b) + 7) div 8 \<le> i \<Longrightarrow> bitmap_bytes (bitmap_set n b) i = bitmap_bytes b i"
  by (auto simp: bitmap_set_def Let_def unat_div_u64 word_less_nat_alt not_le)

lemma bitmap_clear_frame:
  "(unat (bitmap_bits b) + 7) div 8 \<le> i \<Longrightarrow> bitmap_bytes (bitmap_clear n b) i = bitmap_bytes b i"
  by (auto simp: bitmap_clear_def Let_def unat_div_u64 word_less_nat_alt not_le)

section \<open>The contract of a bit set\<close>

text \<open>
  What the physical memory manager needs of the bitmap: \<open>set\<close> and \<open>clear\<close> change the one bit they
  name, and a bit outside the range reads as set. The lemmas on the set of clear bits below a
  bound are proved from that contract alone.
\<close>

locale bitset =
  fixes bits :: "'b \<Rightarrow> u64"
    and test :: "u64 \<Rightarrow> 'b \<Rightarrow> bool"
    and set_bit_at :: "u64 \<Rightarrow> 'b \<Rightarrow> 'b"
    and clear_bit_at :: "u64 \<Rightarrow> 'b \<Rightarrow> 'b"
  assumes bits_set: "bits (set_bit_at n b) = bits b"
    and bits_clear: "bits (clear_bit_at n b) = bits b"
    and test_out: "bits b \<le> n \<Longrightarrow> test n b"
    and test_set: "n < bits b \<Longrightarrow> test m (set_bit_at n b) \<longleftrightarrow> m = n \<or> test m b"
    and test_clear: "n < bits b \<Longrightarrow> test m (clear_bit_at n b) \<longleftrightarrow> m \<noteq> n \<and> test m b"
begin

definition clear_below :: "u64 \<Rightarrow> 'b \<Rightarrow> u64 set" where
  "clear_below t b = {n. n < t \<and> \<not> test n b}"

lemma clear_below_set:
  "n < bits b \<Longrightarrow> clear_below t (set_bit_at n b) = clear_below t b - {n}"
  by (auto simp: clear_below_def test_set)

lemma clear_below_clear:
  "n < bits b \<Longrightarrow> n < t \<Longrightarrow> clear_below t (clear_bit_at n b) = insert n (clear_below t b)"
  by (auto simp: clear_below_def test_clear)

lemma card_clear_below_set:
  assumes "n < bits b" "n < t" "\<not> test n b"
  shows "card (clear_below t b) = Suc (card (clear_below t (set_bit_at n b)))"
proof -
  have "n \<in> clear_below t b" using assms by (simp add: clear_below_def)
  then show ?thesis using assms card.remove [of "clear_below t b" n]
    by (simp add: clear_below_set)
qed

lemma card_clear_below_clear:
  assumes "n < bits b" "n < t" "test n b"
  shows "card (clear_below t (clear_bit_at n b)) = Suc (card (clear_below t b))"
proof -
  have "n \<notin> clear_below t b" using assms by (simp add: clear_below_def)
  then show ?thesis using assms by (simp add: clear_below_clear)
qed

lemma set_clear_id:
  "n < bits b \<Longrightarrow> test n b \<Longrightarrow> test m (set_bit_at n (clear_bit_at n b)) \<longleftrightarrow> test m b"
  by (auto simp: test_set test_clear bits_clear)

end

interpretation bm: bitset bitmap_bits bitmap_test bitmap_set bitmap_clear
  by unfold_locales (simp_all add: bitmap_test_set bitmap_test_clear bitmap_test_out)

end
