(* ===== verification/Pmm.thy ===== *)
theory Pmm
  imports Bitmap
begin

text \<open>
  The physical memory manager of \<open>mm/pmm.c\<close>: its file-level counters and bitmap are the record
  \<open>pmm_state\<close>, and every function of the file is a definition on it. The bootloader's memory map
  (the Limine response) and the linker symbols \<open>_kernel_start\<close>, \<open>_kernel_end\<close> are arguments of
  \<open>pmm_init\<close>. Output through \<open>kprintf\<close> does not touch this state and is left out. The theorems are
  about the set of free pages: which pages \<open>pmm_init\<close> makes available, that an allocation
  hands out a free page and a null pointer only when there is none, and that every operation keeps
  the page count equal to the number of clear bits.
\<close>

section \<open>State\<close>

definition PMM_PAGE_SIZE :: u64 where "PMM_PAGE_SIZE = 4096"

definition PMM_BITMAP_MAX_SIZE :: u64 where "PMM_BITMAP_MAX_SIZE = 128 * 1024"

definition PMM_BITMAP_MAX_BITS :: u64 where "PMM_BITMAP_MAX_BITS = PMM_BITMAP_MAX_SIZE * 8"

record pmm_state =
  total_memory :: u64
  usable_memory :: u64
  reserved_memory :: u64
  highest_address :: u64
  highest_physical_address :: u64
  bitmap_size :: u64
  total_pages :: u64
  free_pages :: u64
  used_pages :: u64
  next_free_page :: u64
  pmm_bitmap :: bitmap

text \<open>The Limine memory map: the entry types the source tells apart, and the entries.\<close>

datatype memmap_type =
    MEMMAP_USABLE
  | MEMMAP_BOOTLOADER_RECLAIMABLE
  | MEMMAP_EXECUTABLE_AND_MODULES
  | MEMMAP_FRAMEBUFFER
  | MEMMAP_OTHER u64

record memmap_entry =
  entry_base :: u64
  entry_length :: u64
  entry_type :: memmap_type

section \<open>Operations\<close>

definition pmm_address_to_page :: "u64 \<Rightarrow> u64" where
  "pmm_address_to_page address = address div PMM_PAGE_SIZE"

definition pmm_region_page_count :: "u64 \<Rightarrow> u64" where
  "pmm_region_page_count len =
     (if len = 0 then 0 else (len + PMM_PAGE_SIZE - 1) div PMM_PAGE_SIZE)"

definition pmm_clamp_page_count :: "pmm_state \<Rightarrow> u64 \<Rightarrow> u64 \<Rightarrow> u64" where
  "pmm_clamp_page_count s start_page page_count =
     (if start_page \<ge> total_pages s then 0
      else let remaining = total_pages s - start_page in
        if page_count > remaining then remaining else page_count)"

definition pmm_mark_page_used :: "u64 \<Rightarrow> pmm_state \<Rightarrow> pmm_state" where
  "pmm_mark_page_used page s =
     (if page \<ge> total_pages s then s
      else if bitmap_test page (pmm_bitmap s) then s
      else s\<lparr>pmm_bitmap := bitmap_set page (pmm_bitmap s),
             free_pages := (if free_pages s > 0 then free_pages s - 1 else free_pages s),
             used_pages := used_pages s + 1\<rparr>)"

definition pmm_mark_page_free :: "u64 \<Rightarrow> pmm_state \<Rightarrow> pmm_state" where
  "pmm_mark_page_free page s =
     (if page = 0 \<or> page \<ge> total_pages s then s
      else if \<not> bitmap_test page (pmm_bitmap s) then s
      else s\<lparr>pmm_bitmap := bitmap_clear page (pmm_bitmap s),
             free_pages := free_pages s + 1,
             used_pages := (if used_pages s > 0 then used_pages s - 1 else used_pages s),
             next_free_page := (if page < next_free_page s then page else next_free_page s)\<rparr>)"

definition pmm_reserve_region :: "u64 \<Rightarrow> u64 \<Rightarrow> pmm_state \<Rightarrow> pmm_state" where
  "pmm_reserve_region base len s =
     (let start_page = base div PMM_PAGE_SIZE;
          page_count = pmm_clamp_page_count s start_page (pmm_region_page_count len)
      in for_u64 start_page (start_page + page_count) pmm_mark_page_used s)"

definition pmm_unreserve_region :: "u64 \<Rightarrow> u64 \<Rightarrow> pmm_state \<Rightarrow> pmm_state" where
  "pmm_unreserve_region base len s =
     (let start_page = base div PMM_PAGE_SIZE;
          page_count = pmm_clamp_page_count s start_page (pmm_region_page_count len)
      in for_u64 start_page (start_page + page_count) pmm_mark_page_free s)"

definition pmm_reserve_memmap_type ::
  "memmap_entry list \<Rightarrow> memmap_type \<Rightarrow> pmm_state \<Rightarrow> pmm_state" where
  "pmm_reserve_memmap_type entries ty s =
     fold (\<lambda>e s. if entry_type e \<noteq> ty then s
                 else pmm_reserve_region (entry_base e) (entry_length e) s) entries s"

definition pmm_mark_usable :: "memmap_entry list \<Rightarrow> pmm_state \<Rightarrow> pmm_state" where
  "pmm_mark_usable entries s =
     fold (\<lambda>e s. if entry_type e \<noteq> MEMMAP_USABLE then s
                 else let start_page = entry_base e div PMM_PAGE_SIZE;
                          page_count = pmm_clamp_page_count s start_page
                                         (pmm_region_page_count (entry_length e))
                      in for_u64 start_page (start_page + page_count) pmm_mark_page_free s)
       entries s"

function seek_free :: "bitmap \<Rightarrow> u64 \<Rightarrow> u64 \<Rightarrow> u64" where
  "seek_free b limit n =
     (if n < limit \<and> bitmap_test n b then seek_free b limit (n + 1) else n)"
  by pat_completeness auto
termination
  by (relation "measure (\<lambda>(b, limit, n). unat limit - unat n)")
    (auto simp: unat_plus_one word_less_nat_alt)

declare seek_free.simps [simp del]

definition pmm_seek_next_free_page :: "pmm_state \<Rightarrow> pmm_state" where
  "pmm_seek_next_free_page s =
     s\<lparr>next_free_page := seek_free (pmm_bitmap s) (total_pages s) (next_free_page s)\<rparr>"

definition pmm_lock_page :: "u64 \<Rightarrow> pmm_state \<Rightarrow> pmm_state" where
  "pmm_lock_page address s = pmm_mark_page_used (pmm_address_to_page address) s"

definition pmm_unlock_page :: "u64 \<Rightarrow> pmm_state \<Rightarrow> pmm_state" where
  "pmm_unlock_page address s = pmm_mark_page_free (pmm_address_to_page address) s"

definition pmm_unlock_pages :: "u64 \<Rightarrow> u64 \<Rightarrow> pmm_state \<Rightarrow> pmm_state" where
  "pmm_unlock_pages address count s =
     (let page = pmm_address_to_page address;
          page_count = pmm_clamp_page_count s page count
      in for_u64 0 page_count (\<lambda>i. pmm_mark_page_free (page + i)) s)"

definition pmm_lock_pages :: "u64 \<Rightarrow> u64 \<Rightarrow> pmm_state \<Rightarrow> pmm_state" where
  "pmm_lock_pages address count s =
     (let page = pmm_address_to_page address;
          page_count = pmm_clamp_page_count s page count
      in for_u64 0 page_count (\<lambda>i. pmm_mark_page_used (page + i)) s)"

definition pmm_reserve_page :: "u64 \<Rightarrow> pmm_state \<Rightarrow> pmm_state" where
  "pmm_reserve_page address s = pmm_lock_page address s"

definition pmm_unreserve_page :: "u64 \<Rightarrow> pmm_state \<Rightarrow> pmm_state" where
  "pmm_unreserve_page address s = pmm_unlock_page address s"

text \<open>
  The two passes of the allocator's search: from the hint to the end, then from 0 to the hint.
  Each pass stops at the first page whose bit is clear.
\<close>

definition pmm_find_page :: "pmm_state \<Rightarrow> u64 option" where
  "pmm_find_page s =
     (let start_page = next_free_page s;
          pass = (\<lambda>first last. find (\<lambda>page. \<not> bitmap_test page (pmm_bitmap s)) (u64_range first last))
      in case pass start_page (total_pages s) of
           Some page \<Rightarrow> Some page
         | None \<Rightarrow> pass 0 start_page)"

definition pmm_take_page :: "u64 \<Rightarrow> pmm_state \<Rightarrow> pmm_state" where
  "pmm_take_page page s =
     (let s = pmm_mark_page_used page s;
          s = s\<lparr>next_free_page := page + 1\<rparr>;
          s = (if next_free_page s \<ge> total_pages s then s\<lparr>next_free_page := 0\<rparr> else s)
      in pmm_seek_next_free_page s)"

text \<open>The result 0 is the null pointer.\<close>

definition pmm_alloc_page :: "pmm_state \<Rightarrow> u64 \<times> pmm_state" where
  "pmm_alloc_page s =
     (if free_pages s = 0 then (0, s)
      else case pmm_find_page s of
             Some page \<Rightarrow> (page * PMM_PAGE_SIZE, pmm_take_page page s)
           | None \<Rightarrow> (0, s))"

definition pmm_free_page :: "u64 \<Rightarrow> pmm_state \<Rightarrow> pmm_state" where
  "pmm_free_page address s = pmm_unlock_page address s"

definition pmm_get_free_pages :: "pmm_state \<Rightarrow> u64" where
  "pmm_get_free_pages s = free_pages s"

definition pmm_get_used_pages :: "pmm_state \<Rightarrow> u64" where
  "pmm_get_used_pages s = used_pages s"

definition pmm_get_total_pages :: "pmm_state \<Rightarrow> u64" where
  "pmm_get_total_pages s = total_pages s"

text \<open>The first loop of \<open>pmm_init\<close>: totals and highest addresses over the memory map.\<close>

definition pmm_scan_entry :: "memmap_entry \<Rightarrow> pmm_state \<Rightarrow> pmm_state" where
  "pmm_scan_entry e s =
     (let end = entry_base e + entry_length e;
          s = s\<lparr>total_memory := total_memory s + entry_length e\<rparr>;
          s = (if end > highest_physical_address s then s\<lparr>highest_physical_address := end\<rparr> else s)
      in if entry_type e = MEMMAP_USABLE
         then let s = s\<lparr>usable_memory := usable_memory s + entry_length e\<rparr>
              in (if end > highest_address s then s\<lparr>highest_address := end\<rparr> else s)
         else s\<lparr>reserved_memory := reserved_memory s + entry_length e\<rparr>)"

definition pmm_init ::
  "memmap_entry list \<Rightarrow> u64 option \<Rightarrow> u64 \<Rightarrow> u64 \<Rightarrow> pmm_state \<Rightarrow> pmm_state" where
  "pmm_init response executable_response kernel_start kernel_end s0 =
     (let s = s0\<lparr>total_memory := 0, usable_memory := 0, reserved_memory := 0, highest_address := 0,
                highest_physical_address := 0, free_pages := 0, used_pages := 0,
                next_free_page := 0\<rparr>;
          s = fold pmm_scan_entry response s;
          s = s\<lparr>total_pages := (highest_address s + PMM_PAGE_SIZE - 1) div PMM_PAGE_SIZE\<rparr>;
          s = s\<lparr>bitmap_size := (total_pages s + 7) div 8\<rparr>
      in if bitmap_size s > PMM_BITMAP_MAX_SIZE \<or> total_pages s > PMM_BITMAP_MAX_BITS then s
         else
           let s = s\<lparr>pmm_bitmap := bitmap_init (bitmap_bytes (pmm_bitmap s)) (total_pages s)\<rparr>;
               s = pmm_mark_usable response s;
               s = pmm_reserve_region 0 PMM_PAGE_SIZE s;
               s = (case executable_response of
                      None \<Rightarrow> s
                    | Some kernel_physical_base \<Rightarrow>
                        pmm_reserve_region kernel_physical_base (kernel_end - kernel_start) s);
               s = pmm_reserve_memmap_type response MEMMAP_BOOTLOADER_RECLAIMABLE s;
               s = pmm_reserve_memmap_type response MEMMAP_EXECUTABLE_AND_MODULES s;
               s = pmm_reserve_memmap_type response MEMMAP_FRAMEBUFFER s
           in pmm_seek_next_free_page s)"

text \<open>The state before boot: the static variables are zero.\<close>

definition pmm_boot :: pmm_state where
  "pmm_boot = \<lparr>total_memory = 0, usable_memory = 0, reserved_memory = 0, highest_address = 0,
     highest_physical_address = 0, bitmap_size = 0, total_pages = 0, free_pages = 0,
     used_pages = 0, next_free_page = 0,
     pmm_bitmap = \<lparr>bitmap_bytes = (\<lambda>_. 0), bitmap_bits = 0\<rparr>\<rparr>"

section \<open>The set of free pages and the invariant\<close>

text \<open>
  Abstractly the manager holds a set of free page numbers. The invariant ties the concrete state to
  it: the counter is its size, the hint is in range, the bitmap fits the static buffer, and page 0
  is never free, so that an allocated address is never the null pointer.
\<close>

definition free_set :: "pmm_state \<Rightarrow> u64 set" where
  "free_set s = bm.clear_below (total_pages s) (pmm_bitmap s)"

definition pmm_inv :: "pmm_state \<Rightarrow> bool" where
  "pmm_inv s \<longleftrightarrow>
     bitmap_bits (pmm_bitmap s) = total_pages s \<and>
     total_pages s \<le> PMM_BITMAP_MAX_BITS \<and>
     unat (free_pages s) = card (free_set s) \<and>
     next_free_page s \<le> total_pages s \<and>
     0 \<notin> free_set s"

lemma free_set_iff: "p \<in> free_set s \<longleftrightarrow> p < total_pages s \<and> \<not> bitmap_test p (pmm_bitmap s)"
  by (simp add: free_set_def bm.clear_below_def)

lemma pmm_inv_total: "pmm_inv s \<Longrightarrow> unat (total_pages s) \<le> 1048576"
  by (simp add: pmm_inv_def PMM_BITMAP_MAX_BITS_def PMM_BITMAP_MAX_SIZE_def word_le_nat_alt)

lemma card_free_set_le:
  assumes "pmm_inv s" shows "card (free_set s) \<le> 1048576"
proof -
  have "free_set s \<subseteq> {0..<total_pages s}" by (auto simp: free_set_iff)
  then have "card (free_set s) \<le> card (set (u64_range 0 (total_pages s)))"
    by (simp add: card_mono)
  also have "\<dots> \<le> unat (total_pages s)"
    by (rule order_trans [OF card_length]) (simp add: u64_range_def)
  also have "\<dots> \<le> 1048576" by (rule pmm_inv_total [OF assms])
  finally show ?thesis .
qed

named_theorems pmm_frame \<open>fields an operation leaves alone\<close>

lemma mark_used_total [pmm_frame]: "total_pages (pmm_mark_page_used p s) = total_pages s"
  by (simp add: pmm_mark_page_used_def)

lemma mark_free_total [pmm_frame]: "total_pages (pmm_mark_page_free p s) = total_pages s"
  by (simp add: pmm_mark_page_free_def)

lemma mark_used_skip: "p \<notin> free_set s \<Longrightarrow> pmm_mark_page_used p s = s"
  by (auto simp: pmm_mark_page_used_def free_set_iff not_le)

lemma mark_used_step:
  "p \<in> free_set s \<Longrightarrow> pmm_mark_page_used p s =
     s\<lparr>pmm_bitmap := bitmap_set p (pmm_bitmap s),
       free_pages := (if free_pages s > 0 then free_pages s - 1 else free_pages s),
       used_pages := used_pages s + 1\<rparr>"
  by (simp add: pmm_mark_page_used_def free_set_iff flip: not_less)

lemma mark_free_skip:
  "p = 0 \<or> total_pages s \<le> p \<or> p \<in> free_set s \<Longrightarrow> pmm_mark_page_free p s = s"
  by (auto simp: pmm_mark_page_free_def free_set_iff not_le)

lemma mark_free_step:
  "p \<noteq> 0 \<Longrightarrow> p < total_pages s \<Longrightarrow> p \<notin> free_set s \<Longrightarrow> pmm_mark_page_free p s =
     s\<lparr>pmm_bitmap := bitmap_clear p (pmm_bitmap s),
       free_pages := free_pages s + 1,
       used_pages := (if used_pages s > 0 then used_pages s - 1 else used_pages s),
       next_free_page := (if p < next_free_page s then p else next_free_page s)\<rparr>"
  by (simp add: pmm_mark_page_free_def free_set_iff flip: not_less)

lemma free_set_mark_used:
  assumes "pmm_inv s"
  shows "free_set (pmm_mark_page_used p s) = free_set s - {p}"
proof (cases "p \<in> free_set s")
  case True
  with assms have "p < bitmap_bits (pmm_bitmap s)" by (simp add: pmm_inv_def free_set_iff)
  then show ?thesis
    by (simp add: mark_used_step [OF True] bm.clear_below_set free_set_def)
next
  case False
  then show ?thesis by (simp add: mark_used_skip)
qed

lemma free_set_mark_free:
  assumes "pmm_inv s"
  shows "free_set (pmm_mark_page_free p s) =
           (if p = 0 \<or> total_pages s \<le> p then free_set s else insert p (free_set s))"
proof (cases "p = 0 \<or> total_pages s \<le> p \<or> p \<in> free_set s")
  case True
  then show ?thesis by (auto simp: mark_free_skip)
next
  case False
  then have p: "p \<noteq> 0" "p < total_pages s" "p \<notin> free_set s" by auto
  with assms have "p < bitmap_bits (pmm_bitmap s)" by (simp add: pmm_inv_def)
  then show ?thesis using p(1,2)
    by (simp add: mark_free_step [OF p] bm.clear_below_clear free_set_def flip: not_less)
qed

lemma pmm_inv_mark_used:
  assumes inv: "pmm_inv s"
  shows "pmm_inv (pmm_mark_page_used p s)"
proof (cases "p \<in> free_set s")
  case False
  then show ?thesis using inv by (simp add: mark_used_skip)
next
  case True
  then have "card (free_set s) \<noteq> 0" by auto
  with inv have nz: "free_pages s \<noteq> 0" by (auto simp: pmm_inv_def)
  then have "unat (free_pages s - 1) = unat (free_pages s) - 1" by (simp add: unat_minus_one)
  moreover have "card (free_set s - {p}) = card (free_set s) - 1" using True by simp
  moreover have "free_pages (pmm_mark_page_used p s) = free_pages s - 1"
    using nz by (simp add: mark_used_step [OF True] word_greater_zero_iff)
  moreover have "bitmap_bits (pmm_bitmap (pmm_mark_page_used p s)) = bitmap_bits (pmm_bitmap s)"
    "next_free_page (pmm_mark_page_used p s) = next_free_page s"
    by (simp_all add: mark_used_step [OF True])
  ultimately show ?thesis
    using inv by (simp add: pmm_inv_def mark_used_total free_set_mark_used)
qed

lemma pmm_inv_mark_free:
  assumes inv: "pmm_inv s"
  shows "pmm_inv (pmm_mark_page_free p s)"
proof (cases "p = 0 \<or> total_pages s \<le> p \<or> p \<in> free_set s")
  case True
  then show ?thesis using inv by (simp add: mark_free_skip)
next
  case False
  then have p: "p \<noteq> 0" "p < total_pages s" "p \<notin> free_set s" by auto
  have "unat (free_pages s) \<le> 1048576" using inv card_free_set_le [OF inv] by (simp add: pmm_inv_def)
  then have "unat (free_pages s + 1) = Suc (unat (free_pages s))" by (simp add: unat_word_ariths)
  moreover have "card (insert p (free_set s)) = Suc (card (free_set s))" using p by simp
  moreover have "bitmap_bits (pmm_bitmap (pmm_mark_page_free p s)) = bitmap_bits (pmm_bitmap s)"
    "free_pages (pmm_mark_page_free p s) = free_pages s + 1"
    "next_free_page (pmm_mark_page_free p s) \<le> total_pages s"
    using inv p by (simp_all add: mark_free_step [OF p] pmm_inv_def less_imp_le)
  ultimately show ?thesis
    using inv p by (simp add: pmm_inv_def mark_free_total free_set_mark_free flip: not_less)
qed

section \<open>Loops over page ranges\<close>

lemma fold_mark_used:
  assumes "pmm_inv s"
  shows "pmm_inv (fold pmm_mark_page_used ps s)"
    and "total_pages (fold pmm_mark_page_used ps s) = total_pages s"
    and "free_set (fold pmm_mark_page_used ps s) = free_set s - set ps"
  using assms
  by (induction ps arbitrary: s)
    (auto simp: pmm_inv_mark_used mark_used_total free_set_mark_used)

lemma fold_mark_free:
  assumes "pmm_inv s"
  shows "pmm_inv (fold pmm_mark_page_free ps s)"
    and "total_pages (fold pmm_mark_page_free ps s) = total_pages s"
    and "free_set (fold pmm_mark_page_free ps s) =
           free_set s \<union> {p \<in> set ps. p \<noteq> 0 \<and> p < total_pages s}"
  using assms
  by (induction ps arbitrary: s)
    (auto simp: pmm_inv_mark_free mark_free_total free_set_mark_free not_le)

text \<open>The pages of a byte region as the code computes them, cut off at the number of pages.\<close>

definition region_pages :: "u64 \<Rightarrow> u64 \<Rightarrow> u64 \<Rightarrow> u64 set" where
  "region_pages limit base len =
     {p. p < limit \<and> unat base div 4096 \<le> unat p \<and>
         unat p < unat base div 4096 + unat (pmm_region_page_count len)}"

lemma clamp_range:
  "{start..<start + pmm_clamp_page_count s start count} =
     {p. p < total_pages s \<and> unat start \<le> unat p \<and> unat p < unat start + unat count}"
proof (cases "total_pages s \<le> start")
  case True
  then show ?thesis by (auto simp: pmm_clamp_page_count_def word_le_nat_alt word_less_nat_alt)
next
  case False
  then have lt: "unat start < unat (total_pages s)" by (simp add: word_le_nat_alt)
  have rem: "unat (total_pages s - start) = unat (total_pages s) - unat start"
    using lt by (simp add: unat_minus_le word_le_nat_alt)
  let ?c = "pmm_clamp_page_count s start count"
  have c: "unat ?c = min (unat count) (unat (total_pages s) - unat start)"
    using False rem by (auto simp: pmm_clamp_page_count_def Let_def word_less_nat_alt)
  have "unat start + unat ?c \<le> unat (total_pages s)" using c lt by auto
  then have "unat start + unat ?c < 18446744073709551616"
    by (rule le_less_trans) (rule unat_lt_2p64)
  then have "unat (start + ?c) = unat start + unat ?c" by (rule unat_plus_no_wrap)
  then show ?thesis
    using c lt by (auto simp: word_le_nat_alt word_less_nat_alt)
qed

lemma region_range:
  "{base div PMM_PAGE_SIZE..<base div PMM_PAGE_SIZE +
      pmm_clamp_page_count s (base div PMM_PAGE_SIZE) (pmm_region_page_count len)} =
   region_pages (total_pages s) base len"
  by (simp add: clamp_range region_pages_def unat_div_u64 PMM_PAGE_SIZE_def)

lemma reserve_region:
  assumes "pmm_inv s"
  shows "pmm_inv (pmm_reserve_region base len s)"
    and "total_pages (pmm_reserve_region base len s) = total_pages s"
    and "free_set (pmm_reserve_region base len s) =
           free_set s - region_pages (total_pages s) base len"
  using fold_mark_used [OF assms] region_range [of base s len]
  by (simp_all add: pmm_reserve_region_def for_u64_def Let_def)

lemma unreserve_region:
  assumes "pmm_inv s"
  shows "pmm_inv (pmm_unreserve_region base len s)"
    and "total_pages (pmm_unreserve_region base len s) = total_pages s"
    and "free_set (pmm_unreserve_region base len s) =
           free_set s \<union> (region_pages (total_pages s) base len - {0})"
proof -
  have "{p \<in> region_pages (total_pages s) base len. p \<noteq> 0 \<and> p < total_pages s} =
        region_pages (total_pages s) base len - {0}"
    by (auto simp: region_pages_def)
  then show "pmm_inv (pmm_unreserve_region base len s)"
    "total_pages (pmm_unreserve_region base len s) = total_pages s"
    "free_set (pmm_unreserve_region base len s) =
       free_set s \<union> (region_pages (total_pages s) base len - {0})"
    using fold_mark_free [OF assms] region_range [of base s len]
    by (simp_all add: pmm_unreserve_region_def for_u64_def Let_def)
qed

text \<open>The pages of all entries of one type of the memory map.\<close>

definition memmap_pages :: "u64 \<Rightarrow> memmap_type \<Rightarrow> memmap_entry list \<Rightarrow> u64 set" where
  "memmap_pages limit ty entries =
     (\<Union>e \<in> {e \<in> set entries. entry_type e = ty}. region_pages limit (entry_base e) (entry_length e))"

lemma memmap_pages_Nil [simp]: "memmap_pages limit ty [] = {}"
  by (simp add: memmap_pages_def)

lemma memmap_pages_Cons [simp]:
  "memmap_pages limit ty (e # es) =
     (if entry_type e = ty then region_pages limit (entry_base e) (entry_length e) else {}) \<union>
     memmap_pages limit ty es"
  by (auto simp: memmap_pages_def)

lemma reserve_memmap_type:
  assumes "pmm_inv s"
  shows "pmm_inv (pmm_reserve_memmap_type es ty s)"
    and "total_pages (pmm_reserve_memmap_type es ty s) = total_pages s"
    and "free_set (pmm_reserve_memmap_type es ty s) =
           free_set s - memmap_pages (total_pages s) ty es"
  using assms unfolding pmm_reserve_memmap_type_def
  by (induction es arbitrary: s) (auto simp: reserve_region)

lemma mark_usable_alt:
  "pmm_mark_usable es =
     fold (\<lambda>e s. if entry_type e \<noteq> MEMMAP_USABLE then s
                 else pmm_unreserve_region (entry_base e) (entry_length e) s) es"
  by (rule ext) (simp only: pmm_mark_usable_def pmm_unreserve_region_def)

lemma mark_usable:
  assumes "pmm_inv s"
  shows "pmm_inv (pmm_mark_usable es s)"
    and "total_pages (pmm_mark_usable es s) = total_pages s"
    and "free_set (pmm_mark_usable es s) =
           free_set s \<union> (memmap_pages (total_pages s) MEMMAP_USABLE es - {0})"
  using assms unfolding mark_usable_alt
  by (induction es arbitrary: s) (auto simp: unreserve_region)

section \<open>Allocation\<close>

lemma seek_free_bounds:
  "n \<le> seek_free b limit n \<and> (n \<le> limit \<longrightarrow> seek_free b limit n \<le> limit)"
proof (induction b limit n rule: seek_free.induct)
  case (1 b limit n)
  show ?case
  proof (cases "n < limit \<and> bitmap_test n b")
    case True
    then have "n \<le> n + 1" "n + 1 \<le> limit"
      by (simp_all add: word_le_nat_alt unat_plus_one [of n limit]) (simp add: word_less_nat_alt)
    with 1 True show ?thesis by (auto simp: seek_free.simps [of b limit n])
  next
    case False
    then show ?thesis by (simp only: seek_free.simps [of b limit n] if_not_P) simp
  qed
qed

lemma pmm_seek:
  assumes "pmm_inv s"
  shows "pmm_inv (pmm_seek_next_free_page s)"
    and "total_pages (pmm_seek_next_free_page s) = total_pages s"
    and "free_set (pmm_seek_next_free_page s) = free_set s"
  using assms seek_free_bounds [of "next_free_page s" "pmm_bitmap s" "total_pages s"]
  by (simp_all add: pmm_seek_next_free_page_def pmm_inv_def free_set_def)

lemma set_next_free_page:
  assumes "pmm_inv s" "n \<le> total_pages s"
  shows "pmm_inv (s\<lparr>next_free_page := n\<rparr>)" and "free_set (s\<lparr>next_free_page := n\<rparr>) = free_set s"
  using assms by (simp_all add: pmm_inv_def free_set_def)

lemma pmm_find_page_Some:
  assumes "pmm_inv s" "pmm_find_page s = Some p"
  shows "p \<in> free_set s"
proof -
  from assms have n: "next_free_page s \<le> total_pages s" by (simp add: pmm_inv_def)
  from assms(2) have "\<not> bitmap_test p (pmm_bitmap s) \<and>
      (p \<in> {next_free_page s..<total_pages s} \<or> p \<in> {0..<next_free_page s})"
    by (auto simp: pmm_find_page_def Let_def split: option.splits dest: find_Some_mem)
  with n show ?thesis by (auto simp: free_set_iff)
qed

lemma pmm_find_page_None:
  assumes "pmm_find_page s = None"
  shows "free_set s = {}"
proof -
  from assms have "\<forall>p \<in> {next_free_page s..<total_pages s} \<union> {0..<next_free_page s}.
      bitmap_test p (pmm_bitmap s)"
    by (auto simp: pmm_find_page_def Let_def find_None_iff split: option.splits)
  then show ?thesis by (fastforce simp: free_set_iff)
qed

lemma pmm_take_page:
  assumes inv: "pmm_inv s" and p: "p \<in> free_set s"
  shows "pmm_inv (pmm_take_page p s)"
    and "total_pages (pmm_take_page p s) = total_pages s"
    and "free_set (pmm_take_page p s) = free_set s - {p}"
proof -
  let ?s1 = "pmm_mark_page_used p s"
  define n where "n = (if p + 1 \<ge> total_pages s then 0 else p + 1)"
  have inv1: "pmm_inv ?s1" by (rule pmm_inv_mark_used [OF inv])
  have tp: "total_pages ?s1 = total_pages s" by (rule mark_used_total)
  have n: "n \<le> total_pages ?s1" by (auto simp: n_def tp not_le)
  have eq: "pmm_take_page p s = pmm_seek_next_free_page (?s1\<lparr>next_free_page := n\<rparr>)"
    by (simp add: pmm_take_page_def Let_def n_def tp)
  note step = set_next_free_page [OF inv1 n]
  show "pmm_inv (pmm_take_page p s)" unfolding eq by (rule pmm_seek(1) [OF step(1)])
  show "total_pages (pmm_take_page p s) = total_pages s"
    unfolding eq by (simp add: pmm_seek(2) [OF step(1)] tp)
  show "free_set (pmm_take_page p s) = free_set s - {p}"
    unfolding eq by (simp add: pmm_seek(3) [OF step(1)] step(2) free_set_mark_used [OF inv])
qed

text \<open>The complete behaviour of \<open>pmm_alloc_page\<close> under the invariant.\<close>

lemma pmm_alloc_None:
  assumes "pmm_inv s" "free_set s = {}"
  shows "pmm_alloc_page s = (0, s)"
proof -
  from assms have "unat (free_pages s) = 0" by (simp add: pmm_inv_def)
  then show ?thesis by (simp add: pmm_alloc_page_def unat_eq_0)
qed

lemma pmm_alloc_Some:
  assumes inv: "pmm_inv s" and ne: "free_set s \<noteq> {}"
  obtains p where "p \<in> free_set s"
    and "pmm_alloc_page s = (p * PMM_PAGE_SIZE, pmm_take_page p s)"
    and "unat (p * PMM_PAGE_SIZE) = unat p * 4096"
    and "p * PMM_PAGE_SIZE \<noteq> 0"
proof -
  from inv ne have nz: "free_pages s \<noteq> 0"
    by (auto simp: pmm_inv_def card_gt_0_iff)
  obtain p where fp: "pmm_find_page s = Some p"
    using pmm_find_page_None [of s] ne by (cases "pmm_find_page s") auto
  have p: "p \<in> free_set s" by (rule pmm_find_page_Some [OF inv fp])
  then have lt: "unat p < 1048576"
    using pmm_inv_total [OF inv] by (simp add: free_set_iff word_less_nat_alt)
  then have un: "unat (p * PMM_PAGE_SIZE) = unat p * 4096"
    by (simp add: PMM_PAGE_SIZE_def unat_mult_no_wrap)
  moreover have "p \<noteq> 0" using p inv by (auto simp: pmm_inv_def)
  ultimately have "p * PMM_PAGE_SIZE \<noteq> 0" by (auto simp: u64_eq_iff_unat)
  with that [OF p _ un] nz fp show thesis by (simp add: pmm_alloc_page_def)
qed

lemma pmm_address_to_page_of_page:
  "unat p < 1048576 \<Longrightarrow> pmm_address_to_page (p * PMM_PAGE_SIZE) = p"
  by (simp add: pmm_address_to_page_def u64_eq_iff_unat unat_div_u64 PMM_PAGE_SIZE_def
      unat_mult_no_wrap)

lemma pmm_free_page:
  assumes "pmm_inv s"
  shows "pmm_inv (pmm_free_page a s)"
    and "total_pages (pmm_free_page a s) = total_pages s"
    and "free_set (pmm_free_page a s) =
           (if pmm_address_to_page a = 0 \<or> total_pages s \<le> pmm_address_to_page a
            then free_set s else insert (pmm_address_to_page a) (free_set s))"
  using assms
  by (simp_all add: pmm_free_page_def pmm_unlock_page_def pmm_inv_mark_free mark_free_total
      free_set_mark_free)

section \<open>Initialisation\<close>

lemma scan_entry_frame [pmm_frame]:
  "pmm_bitmap (pmm_scan_entry e s) = pmm_bitmap s"
  "free_pages (pmm_scan_entry e s) = free_pages s"
  "used_pages (pmm_scan_entry e s) = used_pages s"
  "next_free_page (pmm_scan_entry e s) = next_free_page s"
  by (simp_all add: pmm_scan_entry_def Let_def)

lemma scan_total_pages [pmm_frame]:
  "pmm_bitmap (fold pmm_scan_entry es s) = pmm_bitmap s"
  "free_pages (fold pmm_scan_entry es s) = free_pages s"
  "used_pages (fold pmm_scan_entry es s) = used_pages s"
  "next_free_page (fold pmm_scan_entry es s) = next_free_page s"
  by (induction es arbitrary: s) (simp_all add: scan_entry_frame)

text \<open>The pages that stay reserved after \<open>pmm_init\<close>.\<close>

definition reserved_pages :: "memmap_entry list \<Rightarrow> u64 option \<Rightarrow> u64 \<Rightarrow> u64 \<Rightarrow> u64 \<Rightarrow> u64 set" where
  "reserved_pages response executable_response kernel_start kernel_end limit =
     region_pages limit 0 PMM_PAGE_SIZE \<union>
     (case executable_response of
        None \<Rightarrow> {}
      | Some base \<Rightarrow> region_pages limit base (kernel_end - kernel_start)) \<union>
     memmap_pages limit MEMMAP_BOOTLOADER_RECLAIMABLE response \<union>
     memmap_pages limit MEMMAP_EXECUTABLE_AND_MODULES response \<union>
     memmap_pages limit MEMMAP_FRAMEBUFFER response"

text \<open>Whether the memory map fits the static bitmap.\<close>

definition pmm_total_pages_of :: "memmap_entry list \<Rightarrow> u64" where
  "pmm_total_pages_of response =
     (highest_address (fold pmm_scan_entry response pmm_boot) + PMM_PAGE_SIZE - 1) div PMM_PAGE_SIZE"

lemma scan_highest:
  "highest_address s = highest_address t \<Longrightarrow>
   highest_address (fold pmm_scan_entry es s) = highest_address (fold pmm_scan_entry es t)"
proof (induction es arbitrary: s t)
  case (Cons e es)
  have "highest_address (pmm_scan_entry e s) = highest_address (pmm_scan_entry e t)"
    using Cons.prems by (simp add: pmm_scan_entry_def Let_def)
  from Cons.IH [OF this] show ?case by simp
qed simp

lemma pmm_init_fits:
  assumes fits: "pmm_total_pages_of response \<le> PMM_BITMAP_MAX_BITS"
  defines "n \<equiv> pmm_total_pages_of response"
  shows "pmm_inv (pmm_init response ex ks ke s0)"
    and "total_pages (pmm_init response ex ks ke s0) = n"
    and "free_set (pmm_init response ex ks ke s0) =
           memmap_pages n MEMMAP_USABLE response - reserved_pages response ex ks ke n"
proof -
  define s1 where "s1 = fold pmm_scan_entry response
     (s0\<lparr>total_memory := 0, usable_memory := 0, reserved_memory := 0, highest_address := 0,
         highest_physical_address := 0, free_pages := 0, used_pages := 0, next_free_page := 0\<rparr>)"
  have "highest_address s1 = highest_address (fold pmm_scan_entry response pmm_boot)"
    unfolding s1_def by (rule scan_highest) (simp add: pmm_boot_def)
  then have n: "(highest_address s1 + PMM_PAGE_SIZE - 1) div PMM_PAGE_SIZE = n"
    by (simp add: n_def pmm_total_pages_of_def)
  have nle: "unat n \<le> 1048576"
    using fits by (simp add: n_def PMM_BITMAP_MAX_BITS_def PMM_BITMAP_MAX_SIZE_def word_le_nat_alt)
  then have "unat (n + 7) = unat n + 7" by (simp add: unat_word_ariths)
  with nle have bs: "(n + 7) div 8 \<le> PMM_BITMAP_MAX_SIZE"
    by (simp add: word_le_nat_alt unat_div_u64 PMM_BITMAP_MAX_SIZE_def)
  define s2 where "s2 = s1\<lparr>total_pages := n, bitmap_size := (n + 7) div 8,
       pmm_bitmap := bitmap_init (bitmap_bytes (pmm_bitmap s1)) n\<rparr>"
  have "free_set s2 = {}"
    using nle by (auto simp: free_set_iff s2_def bitmap_test_init)
  then have inv2: "pmm_inv s2"
    using fits by (simp add: pmm_inv_def s2_def scan_total_pages s1_def n_def)
  define s3 where "s3 = pmm_reserve_region 0 PMM_PAGE_SIZE (pmm_mark_usable response s2)"
  define s4 where "s4 = (case ex of None \<Rightarrow> s3 | Some b \<Rightarrow> pmm_reserve_region b (ke - ks) s3)"
  have init: "pmm_init response ex ks ke s0 =
     pmm_seek_next_free_page (pmm_reserve_memmap_type response MEMMAP_FRAMEBUFFER
       (pmm_reserve_memmap_type response MEMMAP_EXECUTABLE_AND_MODULES
         (pmm_reserve_memmap_type response MEMMAP_BOOTLOADER_RECLAIMABLE s4)))"
    using fits bs n
    by (cases ex) (simp_all add: pmm_init_def Let_def s4_def s3_def s2_def s1_def n_def not_less)
  have t2: "total_pages s2 = n" by (simp add: s2_def)
  have inv3: "pmm_inv s3" "total_pages s3 = n"
    and f3: "free_set s3 = memmap_pages n MEMMAP_USABLE response - {0} - region_pages n 0 PMM_PAGE_SIZE"
    using inv2 t2 \<open>free_set s2 = {}\<close> by (simp_all add: s3_def reserve_region mark_usable)
  have inv4: "pmm_inv s4" "total_pages s4 = n"
    and f4: "free_set s4 = free_set s3 -
       (case ex of None \<Rightarrow> {} | Some b \<Rightarrow> region_pages n b (ke - ks))"
    using inv3 by (auto simp: s4_def reserve_region split: option.splits)
  have zero: "memmap_pages n MEMMAP_USABLE response - {0} - region_pages n 0 PMM_PAGE_SIZE =
      memmap_pages n MEMMAP_USABLE response - region_pages n 0 PMM_PAGE_SIZE"
    by (auto simp: memmap_pages_def region_pages_def PMM_PAGE_SIZE_def pmm_region_page_count_def
        unat_div_u64)
  show "pmm_inv (pmm_init response ex ks ke s0)"
    "total_pages (pmm_init response ex ks ke s0) = n"
    "free_set (pmm_init response ex ks ke s0) =
       memmap_pages n MEMMAP_USABLE response - reserved_pages response ex ks ke n"
    unfolding init using inv4 f4 f3
    by (auto simp: pmm_seek reserve_memmap_type reserved_pages_def zero)
qed

section \<open>The contract of a page allocator\<close>

text \<open>
  What the page tables, the heap and the process loader rely on. \<open>frames\<close> is the set of free page
  numbers; an address handed out is 4096 times the number of a page that was free and no longer
  is. Inside the locale, a client is a sequence of requests: it may allocate, and it may free an
  address it holds.
\<close>

datatype page_request = Alloc_request | Free_request u64

locale page_allocator =
  fixes alloc :: "'s \<Rightarrow> u64 \<times> 's"
    and free :: "u64 \<Rightarrow> 's \<Rightarrow> 's"
    and inv :: "'s \<Rightarrow> bool"
    and frames :: "'s \<Rightarrow> u64 set"
    and limit :: "'s \<Rightarrow> u64"
  assumes alloc_empty: "inv s \<Longrightarrow> frames s = {} \<Longrightarrow> alloc s = (0, s)"
    and alloc_frame: "inv s \<Longrightarrow> frames s \<noteq> {} \<Longrightarrow> alloc s = (a, s') \<Longrightarrow>
           inv s' \<and> limit s' = limit s \<and>
           (\<exists>p. p \<in> frames s \<and> unat a = unat p * 4096 \<and> a \<noteq> 0 \<and> frames s' = frames s - {p})"
    and frames_limit: "inv s \<Longrightarrow> p \<in> frames s \<Longrightarrow> p < limit s"
    and free_frame: "inv s \<Longrightarrow> unat a = unat p * 4096 \<Longrightarrow> p \<noteq> 0 \<Longrightarrow> p < limit s \<Longrightarrow>
           inv (free a s) \<and> limit (free a s) = limit s \<and> frames (free a s) = insert p (frames s)"
begin

definition request :: "page_request \<Rightarrow> 's \<times> u64 list \<Rightarrow> 's \<times> u64 list" where
  "request r st = (case st of (s, held) \<Rightarrow>
     (case r of
        Alloc_request \<Rightarrow> (case alloc s of (a, s') \<Rightarrow> (s', if a = 0 then held else a # held))
      | Free_request a \<Rightarrow> if a \<in> set held then (free a s, remove1 a held) else (s, held)))"

definition held_ok :: "'s \<times> u64 list \<Rightarrow> bool" where
  "held_ok st \<longleftrightarrow> inv (fst st) \<and> distinct (snd st) \<and>
     (\<forall>a \<in> set (snd st). \<exists>p. unat a = unat p * 4096 \<and> p \<noteq> 0 \<and> p < limit (fst st) \<and> p \<notin> frames (fst st))"

lemma same_page: "unat a = unat (p :: u64) * 4096 \<Longrightarrow> unat a = unat q * 4096 \<Longrightarrow> p = q"
  by (simp add: u64_eq_iff_unat)

lemma request_alloc:
  assumes ok: "held_ok (s, held)" and al: "alloc s = (a, s')" and nz: "a \<noteq> 0"
  shows "held_ok (s', a # held) \<and> Suc (card (frames s')) = card (frames s) \<and> limit s' = limit s"
proof -
  have inv: "inv s" using ok by (simp add: held_ok_def)
  have ne: "frames s \<noteq> {}" using alloc_empty [OF inv] al nz by auto
  obtain p where p: "p \<in> frames s" "unat a = unat p * 4096" "frames s' = frames s - {p}"
    and inv': "inv s'" and lim: "limit s' = limit s"
    using alloc_frame [OF inv ne al] by blast
  have p0: "p \<noteq> 0" using p(2) nz by (auto simp: u64_eq_iff_unat)
  have "a \<notin> set held"
  proof
    assume "a \<in> set held"
    then obtain q where "unat a = unat q * 4096" "q \<notin> frames s" using ok by (auto simp: held_ok_def)
    with p same_page show False by metis
  qed
  moreover have "\<exists>q. unat b = unat q * 4096 \<and> q \<noteq> 0 \<and> q < limit s' \<and> q \<notin> frames s'"
    if "b \<in> set held" for b
    using ok that p(3) lim by (fastforce simp: held_ok_def)
  ultimately have "held_ok (s', a # held)"
    using ok inv' p p0 lim frames_limit [OF inv p(1)] by (auto simp: held_ok_def)
  moreover have "Suc (card (frames s')) = card (frames s)"
    using p by (metis card_Suc_Diff1 finite)
  ultimately show ?thesis using lim by simp
qed

lemma request_free:
  assumes ok: "held_ok (s, held)" and a: "a \<in> set held"
  shows "held_ok (free a s, remove1 a held) \<and> card (frames (free a s)) = Suc (card (frames s)) \<and>
         limit (free a s) = limit s"
proof -
  obtain p where p: "unat a = unat p * 4096" "p \<noteq> 0" "p < limit s" "p \<notin> frames s"
    using ok a by (auto simp: held_ok_def)
  have f: "inv (free a s)" "limit (free a s) = limit s" "frames (free a s) = insert p (frames s)"
    using free_frame [OF _ p(1-3)] ok by (simp_all add: held_ok_def)
  have "\<exists>q. unat b = unat q * 4096 \<and> q \<noteq> 0 \<and> q < limit s \<and> q \<notin> insert p (frames s)"
    if b: "b \<in> set (remove1 a held)" for b
  proof -
    have bh: "b \<in> set held" using b set_remove1_subset [of a held] by blast
    have "b \<noteq> a" using b ok by (auto simp: held_ok_def)
    obtain q where q: "unat b = unat q * 4096" "q \<noteq> 0" "q < limit s" "q \<notin> frames s"
      using ok bh by (auto simp: held_ok_def)
    have "q \<noteq> p" using \<open>b \<noteq> a\<close> q(1) p(1) by (auto simp: u64_eq_iff_unat)
    with q show ?thesis by blast
  qed
  then show ?thesis using f ok p(4) by (simp add: held_ok_def distinct_remove1)
qed

lemma request_step:
  assumes "held_ok st"
  shows "held_ok (request r st) \<and>
         card (frames (fst (request r st))) + length (snd (request r st)) =
           card (frames (fst st)) + length (snd st) \<and>
         limit (fst (request r st)) = limit (fst st)"
proof -
  obtain s held where st: "st = (s, held)" by (cases st)
  show ?thesis
  proof (cases r)
    case Alloc_request
    obtain a s' where al: "alloc s = (a, s')" by (cases "alloc s")
    show ?thesis
    proof (cases "a = 0")
      case True
      have inv: "inv s" using assms st by (simp add: held_ok_def)
      have "s' = s"
        using alloc_frame [OF inv _ al] alloc_empty [OF inv] al True by fastforce
      then show ?thesis using assms st Alloc_request al True by (simp add: request_def)
    next
      case False
      then show ?thesis
        using request_alloc [of s held a s'] assms st Alloc_request al by (simp add: request_def)
    qed
  next
    case (Free_request a)
    show ?thesis
    proof (cases "a \<in> set held")
      case True
      then have "0 < length held" by (cases held) auto
      then show ?thesis
        using request_free [of s held a] assms st Free_request True
        by (simp add: request_def length_remove1)
    next
      case False
      then show ?thesis using assms st Free_request by (simp add: request_def)
    qed
  qed
qed

lemma request_run:
  assumes "held_ok st"
  shows "held_ok (fold request rs st) \<and>
         card (frames (fst (fold request rs st))) + length (snd (fold request rs st)) =
           card (frames (fst st)) + length (snd st) \<and>
         limit (fst (fold request rs st)) = limit (fst st)"
  using assms
proof (induction rs arbitrary: st)
  case (Cons r rs)
  show ?case using Cons.IH [of "request r st"] request_step [OF Cons.prems, of r] by simp
qed simp

end

interpretation pa: page_allocator pmm_alloc_page pmm_free_page pmm_inv free_set total_pages
proof
  fix s a s'
  assume inv: "pmm_inv s" and ne: "free_set s \<noteq> {}" and al: "pmm_alloc_page s = (a, s')"
  obtain p where "p \<in> free_set s" "pmm_alloc_page s = (p * PMM_PAGE_SIZE, pmm_take_page p s)"
    "unat (p * PMM_PAGE_SIZE) = unat p * 4096" "p * PMM_PAGE_SIZE \<noteq> 0"
    by (rule pmm_alloc_Some [OF inv ne])
  with al pmm_take_page [OF inv]
  show "pmm_inv s' \<and> total_pages s' = total_pages s \<and>
    (\<exists>p. p \<in> free_set s \<and> unat a = unat p * 4096 \<and> a \<noteq> 0 \<and> free_set s' = free_set s - {p})"
    by auto
next
  fix s and a p :: u64
  assume inv: "pmm_inv s" and a: "unat a = unat p * 4096" and p: "p \<noteq> 0" "p < total_pages s"
  have "pmm_address_to_page a = p"
    using a by (simp add: pmm_address_to_page_def PMM_PAGE_SIZE_def u64_eq_iff_unat unat_div_u64)
  then show "pmm_inv (pmm_free_page a s) \<and> total_pages (pmm_free_page a s) = total_pages s \<and>
      free_set (pmm_free_page a s) = insert p (free_set s)"
    using pmm_free_page [OF inv, of a] p by (simp flip: not_less)
qed (simp_all add: pmm_alloc_None free_set_iff)

section \<open>Properties\<close>

text \<open>A small memory map for the witnesses: 16 pages of RAM, the kernel in pages 4 and 5.\<close>

definition sample_map :: "memmap_entry list" where
  "sample_map =
     [\<lparr>entry_base = 0, entry_length = 0x4000, entry_type = MEMMAP_USABLE\<rparr>,
      \<lparr>entry_base = 0x4000, entry_length = 0x2000, entry_type = MEMMAP_EXECUTABLE_AND_MODULES\<rparr>,
      \<lparr>entry_base = 0x6000, entry_length = 0xA000, entry_type = MEMMAP_USABLE\<rparr>]"

abbreviation sample_pmm :: pmm_state where
  "sample_pmm \<equiv> pmm_init sample_map (Some 0x4000) 0 0x1800 pmm_boot"

lemma sample_fits: "pmm_total_pages_of sample_map \<le> PMM_BITMAP_MAX_BITS"
  by (simp add: pmm_total_pages_of_def sample_map_def pmm_scan_entry_def pmm_boot_def Let_def
      PMM_PAGE_SIZE_def PMM_BITMAP_MAX_BITS_def PMM_BITMAP_MAX_SIZE_def)

lemma sample_alloc: "fst (pmm_alloc_page sample_pmm) = 0x1000"
  by code_simp

text \<open>
  What \<open>pmm_init\<close> should compute, said with numbers that do not wrap around: a region of \<open>len\<close> bytes from \<open>base\<close>
  takes the page of \<open>base\<close> and as many pages as \<open>len\<close> bytes need, rounded up. When the region starts on a page boundary
  these are the pages with a byte in the region.
\<close>

definition page_extent :: "u64 \<Rightarrow> u64 \<Rightarrow> u64 set" where
  "page_extent base len =
     {p. unat base div 4096 \<le> unat p \<and> unat p < unat base div 4096 + (unat len + 4095) div 4096}"

definition memory_end :: "memmap_entry list \<Rightarrow> nat" where
  "memory_end response =
     Max (insert 0 ((\<lambda>e. unat (entry_base e) + unat (entry_length e)) ` {e \<in> set response. entry_type e = MEMMAP_USABLE}))"

definition keeps_reserved :: "memmap_type \<Rightarrow> bool" where
  "keeps_reserved ty \<longleftrightarrow> ty \<in> {MEMMAP_BOOTLOADER_RECLAIMABLE, MEMMAP_EXECUTABLE_AND_MODULES, MEMMAP_FRAMEBUFFER}"

lemma page_extent_bytes:
  assumes "unat base mod 4096 = 0"
  shows "p \<in> page_extent base len \<longleftrightarrow> {unat p * 4096..<unat p * 4096 + 4096} \<inter> {unat base..<unat base + unat len} \<noteq> {}"
proof -
  obtain b where b: "unat base = b * 4096" using assms by (metis div_mult_mod_eq add.right_neutral)
  have "p \<in> page_extent base len \<longleftrightarrow> b \<le> unat p \<and> unat p * 4096 < b * 4096 + unat len"
    by (auto simp: page_extent_def b)
  also have "\<dots> \<longleftrightarrow> unat base < unat p * 4096 + 4096 \<and> unat p * 4096 < unat base + unat len \<and> 0 < unat len"
    by (auto simp: b)
  also have "\<dots> \<longleftrightarrow> {unat p * 4096..<unat p * 4096 + 4096} \<inter> {unat base..<unat base + unat len} \<noteq> {}"
  proof
    assume "unat base < unat p * 4096 + 4096 \<and> unat p * 4096 < unat base + unat len \<and> 0 < unat len"
    then have "max (unat p * 4096) (unat base) \<in> {unat p * 4096..<unat p * 4096 + 4096} \<inter> {unat base..<unat base + unat len}" by auto
    then show "{unat p * 4096..<unat p * 4096 + 4096} \<inter> {unat base..<unat base + unat len} \<noteq> {}" by blast
  qed auto
  finally show ?thesis .
qed

lemma unat_region_page_count:
  assumes "unat len + 4095 < 18446744073709551616"
  shows "unat (pmm_region_page_count len) = (unat len + 4095) div 4096"
proof (cases "len = 0")
  case False
  have "unat (4095 + len) = unat len + 4095" using assms by (simp add: unat_word_ariths)
  then show ?thesis using False by (simp add: pmm_region_page_count_def PMM_PAGE_SIZE_def unat_div_u64)
qed (simp add: pmm_region_page_count_def)

lemma region_pages_extent:
  assumes "unat len + 4095 < 18446744073709551616"
  shows "region_pages limit base len = {p \<in> page_extent base len. p < limit}"
  by (auto simp: region_pages_def page_extent_def unat_region_page_count [OF assms])

lemma Max_insert_max: "finite A \<Longrightarrow> Max (insert h (insert x A)) = Max (insert (max h x) (A :: nat set))"
  by (cases "A = {}") (auto simp: max.assoc)

lemma scan_memory_end:
  assumes "\<forall>e \<in> set es. entry_type e = MEMMAP_USABLE \<longrightarrow> unat (entry_base e) + unat (entry_length e) \<le> 2 ^ 32"
  shows "unat (highest_address (fold pmm_scan_entry es s)) =
     Max (insert (unat (highest_address s)) ((\<lambda>e. unat (entry_base e) + unat (entry_length e)) `
       {e \<in> set es. entry_type e = MEMMAP_USABLE}))"
  using assms
proof (induction es arbitrary: s)
  case (Cons e es)
  let ?f = "\<lambda>e. unat (entry_base e) + unat (entry_length e)"
  let ?A = "?f ` {e \<in> set es. entry_type e = MEMMAP_USABLE}"
  have IH: "unat (highest_address (fold pmm_scan_entry es s)) = Max (insert (unat (highest_address s)) ?A)" for s
    using Cons by simp
  show ?case
  proof (cases "entry_type e = MEMMAP_USABLE")
    case True
    then have "?f e \<le> 2 ^ 32" using Cons.prems by simp
    then have "unat (entry_base e + entry_length e) = ?f e" by (simp add: unat_plus_no_wrap)
    then have "unat (highest_address (pmm_scan_entry e s)) = max (unat (highest_address s)) (?f e)"
      using True by (auto simp: pmm_scan_entry_def Let_def word_less_nat_alt)
    moreover have "{x \<in> set (e # es). entry_type x = MEMMAP_USABLE} = insert e {x \<in> set es. entry_type x = MEMMAP_USABLE}"
      using True by auto
    ultimately show ?thesis by (simp add: IH Max_insert_max del: Max_insert)
  next
    case False
    then have "{x \<in> set (e # es). entry_type x = MEMMAP_USABLE} = {x \<in> set es. entry_type x = MEMMAP_USABLE}"
      "highest_address (pmm_scan_entry e s) = highest_address s" by (auto simp: pmm_scan_entry_def Let_def)
    then show ?thesis by (simp add: IH del: Max_insert)
  qed
qed simp

lemma total_pages_memory_end:
  assumes "\<forall>e \<in> set response. entry_type e = MEMMAP_USABLE \<longrightarrow> unat (entry_base e) + unat (entry_length e) \<le> 2 ^ 32"
  shows "unat (pmm_total_pages_of response) = (memory_end response + 4095) div 4096" "memory_end response \<le> 2 ^ 32"
proof -
  have h: "unat (highest_address (fold pmm_scan_entry response pmm_boot)) = memory_end response"
    using scan_memory_end [OF assms, of pmm_boot] by (simp add: memory_end_def pmm_boot_def)
  show le: "memory_end response \<le> 2 ^ 32" unfolding memory_end_def using assms by (subst Max_le_iff) auto
  have "unat (4095 + highest_address (fold pmm_scan_entry response pmm_boot)) = memory_end response + 4095"
    using h le by (simp add: unat_word_ariths)
  then show "unat (pmm_total_pages_of response) = (memory_end response + 4095) div 4096"
    by (simp add: pmm_total_pages_of_def PMM_PAGE_SIZE_def unat_div_u64)
qed

lemma usable_extent_below:
  assumes "\<forall>e \<in> set response. entry_type e = MEMMAP_USABLE \<longrightarrow> unat (entry_base e) + unat (entry_length e) \<le> 2 ^ 32"
    and e: "e \<in> set response" "entry_type e = MEMMAP_USABLE" and p: "p \<in> page_extent (entry_base e) (entry_length e)"
  shows "p < pmm_total_pages_of response"
proof -
  have "unat (entry_base e) + unat (entry_length e) \<le> memory_end response"
    unfolding memory_end_def using e by (intro Max_ge) auto
  then have "(unat (entry_base e) + unat (entry_length e) + 4095) div 4096 \<le> unat (pmm_total_pages_of response)"
    unfolding total_pages_memory_end(1) [OF assms(1)] by (intro div_le_mono) simp
  moreover have "unat p < (unat (entry_base e) + unat (entry_length e) + 4095) div 4096"
    using p by (auto simp: page_extent_def)
  ultimately show ?thesis by (simp add: word_less_nat_alt)
qed

text \<open>
  C2. After \<open>pmm_init\<close> on a memory map whose usable memory ends below 4 GiB, which is what the static bitmap holds, the
  pages the allocator can hand out are exactly the pages of the usable entries without page 0, the pages of the
  kernel image and those of the bootloader-reclaimable, executable and framebuffer entries. The number of pages is
  the end of usable memory rounded up, the invariant holds and the free page counter is the size of that
  set; a free page has no byte in common with a reserved entry that starts on a page boundary. Lengths
  within 4095 bytes of the end of the address space, whose rounding would wrap around, are left out.
\<close>

theorem pmm_init_free_pages:
  assumes usable: "\<forall>e \<in> set response. entry_type e = MEMMAP_USABLE \<longrightarrow> unat (entry_base e) + unat (entry_length e) \<le> 2 ^ 32"
    and lengths: "\<forall>e \<in> set response. unat (entry_length e) + 4095 < 2 ^ 64" "unat (ke - ks) + 4095 < 2 ^ 64"
    and s: "s = pmm_init response ex ks ke s0"
  shows "pmm_inv s \<and> unat (pmm_get_total_pages s) = (memory_end response + 4095) div 4096 \<and>
         free_set s =
           {p. p \<noteq> 0 \<and>
             (\<exists>e \<in> set response. entry_type e = MEMMAP_USABLE \<and> p \<in> page_extent (entry_base e) (entry_length e)) \<and>
             (\<forall>e \<in> set response. keeps_reserved (entry_type e) \<longrightarrow> p \<notin> page_extent (entry_base e) (entry_length e)) \<and>
             (\<forall>base. ex = Some base \<longrightarrow> p \<notin> page_extent base (ke - ks))} \<and>
         unat (pmm_get_free_pages s) = card (free_set s) \<and>
         (\<forall>p \<in> free_set s. \<forall>e \<in> set response. keeps_reserved (entry_type e) \<longrightarrow> unat (entry_base e) mod 4096 = 0 \<longrightarrow>
            {unat p * 4096..<unat p * 4096 + 4096} \<inter>
            {unat (entry_base e)..<unat (entry_base e) + unat (entry_length e)} = {})"
proof -
  let ?n = "pmm_total_pages_of response"
  note tp = total_pages_memory_end [OF usable]
  have "unat ?n \<le> 1048576" using tp by simp
  then have fits: "?n \<le> PMM_BITMAP_MAX_BITS"
    by (simp add: PMM_BITMAP_MAX_BITS_def PMM_BITMAP_MAX_SIZE_def word_le_nat_alt)
  note init = pmm_init_fits [OF fits, of ex ks ke s0, folded s]
  have x: "region_pages ?n (entry_base e) (entry_length e) = {p \<in> page_extent (entry_base e) (entry_length e). p < ?n}"
    if "e \<in> set response" for e using that lengths(1) by (intro region_pages_extent) simp
  have k: "region_pages ?n base (ke - ks) = {p \<in> page_extent base (ke - ks). p < ?n}" for base
    using lengths(2) by (intro region_pages_extent) simp
  have z: "region_pages ?n 0 PMM_PAGE_SIZE = {p. p = 0 \<and> p < ?n}"
    by (auto simp: region_pages_extent PMM_PAGE_SIZE_def page_extent_def unat_eq_0)
  have mp: "p \<in> memmap_pages ?n ty response \<longleftrightarrow>
      (\<exists>e \<in> set response. entry_type e = ty \<and> p \<in> page_extent (entry_base e) (entry_length e)) \<and> p < ?n" for p ty
    using x by (auto simp: memmap_pages_def)
  have free: "free_set s = {p. p \<noteq> 0 \<and>
      (\<exists>e \<in> set response. entry_type e = MEMMAP_USABLE \<and> p \<in> page_extent (entry_base e) (entry_length e)) \<and>
      (\<forall>e \<in> set response. keeps_reserved (entry_type e) \<longrightarrow> p \<notin> page_extent (entry_base e) (entry_length e)) \<and>
      (\<forall>base. ex = Some base \<longrightarrow> p \<notin> page_extent base (ke - ks))}"
    unfolding init(3) reserved_pages_def z k
    using usable_extent_below [OF usable] by (auto simp: mp keeps_reserved_def split: option.splits)
  have "{unat p * 4096..<unat p * 4096 + 4096} \<inter> {unat (entry_base e)..<unat (entry_base e) + unat (entry_length e)} = {}"
    if "p \<in> free_set s" "e \<in> set response" "keeps_reserved (entry_type e)" "unat (entry_base e) mod 4096 = 0" for p e
    using that page_extent_bytes [OF that(4), of p "entry_length e"] by (simp add: free)
  then show ?thesis using init(1,2) tp(1) free by (simp add: pmm_get_free_pages_def pmm_get_total_pages_def pmm_inv_def)
qed

theorem pmm_init_free_pages_witness:
  "pmm_inv sample_pmm \<and> pmm_get_free_pages sample_pmm = 13 \<and> card (free_set sample_pmm) = 13 \<and>
   1 \<in> free_set sample_pmm \<and> 4 \<notin> free_set sample_pmm"
proof -
  have "\<forall>e \<in> set sample_map. entry_type e = MEMMAP_USABLE \<longrightarrow> unat (entry_base e) + unat (entry_length e) \<le> 2 ^ 32"
    "\<forall>e \<in> set sample_map. unat (entry_length e) + 4095 < 2 ^ 64" "unat (0x1800 - 0 :: u64) + 4095 < 2 ^ 64"
    by (simp_all add: sample_map_def)
  note i = pmm_init_free_pages [OF this refl, where ex = "Some 0x4000" and ?s0.0 = pmm_boot]
  have "pmm_get_free_pages sample_pmm = 13" by code_simp
  moreover from this have "card (free_set sample_pmm) = 13"
    using i [THEN conjunct2, THEN conjunct2, THEN conjunct2, THEN conjunct1]
    by (simp only:) simp
  moreover have "1 \<in> free_set sample_pmm \<and> 4 \<notin> free_set sample_pmm"
    using i [THEN conjunct2, THEN conjunct2, THEN conjunct1] by (simp add: sample_map_def page_extent_def keeps_reserved_def)
  ultimately show ?thesis using i by blast
qed

text \<open>
  C3. \<open>pmm_alloc_page\<close> returns the null pointer exactly when no page is free. Otherwise it returns
  the address of a page that was free, this page and no other stops being free, the free counter
  goes down by one and the invariant is kept.
\<close>

theorem pmm_alloc_page_correct:
  assumes "pmm_inv s" and "pmm_alloc_page s = (a, s')"
  shows "pmm_inv s' \<and>
         (if free_set s = {} then a = 0 \<and> s' = s
          else \<exists>p \<in> free_set s. a = p * 4096 \<and> a \<noteq> 0 \<and> unat a = unat p * 4096 \<and>
                 free_set s' = free_set s - {p} \<and>
                 unat (free_pages s') = unat (free_pages s) - 1)"
proof (cases "free_set s = {}")
  case True
  with assms show ?thesis by (simp add: pmm_alloc_None)
next
  case False
  obtain p where p: "p \<in> free_set s" "pmm_alloc_page s = (p * PMM_PAGE_SIZE, pmm_take_page p s)"
    "unat (p * PMM_PAGE_SIZE) = unat p * 4096" "p * PMM_PAGE_SIZE \<noteq> 0"
    by (rule pmm_alloc_Some [OF assms(1) False])
  have "pmm_inv s'" "free_set s' = free_set s - {p}"
    using pmm_take_page [OF assms(1) p(1)] p(2) assms(2) by simp_all
  moreover from this have "unat (free_pages s') = unat (free_pages s) - 1"
    using assms(1) p(1) by (simp add: pmm_inv_def)
  ultimately show ?thesis
    using p assms(2) False by (auto simp: PMM_PAGE_SIZE_def)
qed

theorem pmm_alloc_page_correct_witness:
  "pmm_inv sample_pmm \<and> pmm_alloc_page sample_pmm = (0x1000, snd (pmm_alloc_page sample_pmm)) \<and>
   pmm_inv (snd (pmm_alloc_page sample_pmm))"
proof -
  have inv: "pmm_inv sample_pmm" by (rule pmm_init_fits(1) [OF sample_fits])
  have al: "pmm_alloc_page sample_pmm = (0x1000, snd (pmm_alloc_page sample_pmm))"
    using sample_alloc by (simp add: prod_eq_iff)
  show ?thesis using inv al pmm_alloc_page_correct [OF inv al] by blast
qed

text \<open>
  C4. No page is handed out twice and none is lost: whatever sequence of allocations and of frees of
  held addresses a client runs from a state that satisfies the invariant, the addresses it holds
  are distinct and not free, and the number of free pages plus the number of held addresses never
  changes.
\<close>

theorem pmm_no_double_allocation:
  assumes "pmm_inv s"
  shows "distinct (snd (fold pa.request rs (s, []))) \<and>
         (\<forall>a \<in> set (snd (fold pa.request rs (s, []))).
            pmm_address_to_page a \<notin> free_set (fst (fold pa.request rs (s, [])))) \<and>
         unat (free_pages (fst (fold pa.request rs (s, [])))) +
           length (snd (fold pa.request rs (s, []))) = unat (free_pages s)"
proof -
  have "pa.held_ok (s, [])" using assms by (simp add: pa.held_ok_def)
  note run = pa.request_run [OF this, of rs]
  have page: "unat a = unat p * 4096 \<Longrightarrow> pmm_address_to_page a = p" for a p :: u64
    by (simp add: pmm_address_to_page_def PMM_PAGE_SIZE_def u64_eq_iff_unat unat_div_u64)
  from run assms show ?thesis by (auto simp: pa.held_ok_def pmm_inv_def dest!: page)
qed

theorem pmm_no_double_allocation_witness:
  "pmm_inv sample_pmm \<and>
   distinct (snd (fold pa.request [Alloc_request, Alloc_request, Free_request 0x1000, Alloc_request]
     (sample_pmm, [])))"
proof -
  have inv: "pmm_inv sample_pmm" by (rule pmm_init_fits(1) [OF sample_fits])
  show ?thesis using inv pmm_no_double_allocation [OF inv] by blast
qed

end
