(* ===== verification/Kmemory.thy ===== *)
theory Kmemory
  imports Prelude
begin

text \<open>
  Byte-addressed memory and the routines of \<open>lib/memory.c\<close> and \<open>lib/string.c\<close>. Memory is a function
  from 64-bit addresses to bytes; address arithmetic wraps as in the machine. The copy loops
  are the loops of the source, byte by byte and in the order of the source, so that copying
  between overlapping regions has the effect it has in C. The string loops may run off the end of
  a string without terminator, so they are partial functions: \<open>None\<close> is a loop that never ends.
  Loads and stores of 64-bit words are little-endian, as page table entries are read and written.
\<close>

type_synonym byte_mem = "u64 \<Rightarrow> u8"

section \<open>lib/memory.c\<close>

definition k_memcpy :: "u64 \<Rightarrow> u64 \<Rightarrow> u64 \<Rightarrow> byte_mem \<Rightarrow> byte_mem" where
  "k_memcpy d s n m = for_u64 0 n (\<lambda>i m. m(d + i := m (s + i))) m"

definition k_memset :: "u64 \<Rightarrow> u32 \<Rightarrow> u64 \<Rightarrow> byte_mem \<Rightarrow> byte_mem" where
  "k_memset p c n m = for_u64 0 n (\<lambda>i m. m(p + i := ucast c)) m"

definition k_memmove :: "u64 \<Rightarrow> u64 \<Rightarrow> u64 \<Rightarrow> byte_mem \<Rightarrow> byte_mem" where
  "k_memmove d s n m =
     (if d < s then for_u64 0 n (\<lambda>i m. m(d + i := m (s + i))) m
      else if d > s then fold (\<lambda>i m. m(d + i := m (s + i))) (rev (u64_range 0 n)) m
      else m)"

definition k_memcmp :: "u64 \<Rightarrow> u64 \<Rightarrow> u64 \<Rightarrow> byte_mem \<Rightarrow> int" where
  "k_memcmp a b n m =
     (case find (\<lambda>i. m (a + i) \<noteq> m (b + i)) (u64_range 0 n) of
        Some i \<Rightarrow> uint (m (a + i)) - uint (m (b + i))
      | None \<Rightarrow> 0)"

section \<open>lib/string.c\<close>

partial_function (option) strlen_loop :: "byte_mem \<Rightarrow> u64 \<Rightarrow> u64 \<Rightarrow> u64 option" where
  "strlen_loop m str len = (if m (str + len) \<noteq> 0 then strlen_loop m str (len + 1) else Some len)"

definition k_strlen :: "byte_mem \<Rightarrow> u64 \<Rightarrow> u64 option" where
  "k_strlen m str = strlen_loop m str 0"

partial_function (option) k_strcmp :: "byte_mem \<Rightarrow> u64 \<Rightarrow> u64 \<Rightarrow> int option" where
  "k_strcmp m a b =
     (if m a \<noteq> 0 \<and> m a = m b then k_strcmp m (a + 1) (b + 1)
      else Some (uint (m a) - uint (m b)))"

partial_function (option) k_strcpy :: "u64 \<Rightarrow> u64 \<Rightarrow> byte_mem \<Rightarrow> byte_mem option" where
  "k_strcpy dest src m =
     (let c = m src; m' = m(dest := c) in
      if c \<noteq> 0 then k_strcpy (dest + 1) (src + 1) m' else Some m')"

section \<open>What the copy loops do\<close>

lemma for_u64_nat: "for_u64 0 n body s = fold body (map of_nat [0..<unat n]) s"
  by (simp add: for_u64_def u64_range_def)

lemma unat_of_nat_lt: "k < unat (n :: u64) \<Longrightarrow> unat (of_nat k :: u64) = k"
  by (rule unat_of_nat_u64) (rule nat_below_u64)

lemma u64_diff_eq_iff: "(x :: u64) - p = q \<longleftrightarrow> x = p + q"
  by (auto simp: algebra_simps)

lemma memset_prefix:
  assumes "k \<le> unat (n :: u64)"
  shows "fold (\<lambda>i m. m(p + i := c)) (map (of_nat :: nat \<Rightarrow> u64) [0..<k]) m x =
           (if unat (x - p) < k then c else m x)"
  using assms
proof (induction k)
  case (Suc k)
  then have "unat (of_nat k :: u64) = k" by (simp add: unat_of_nat_lt [of k n])
  then have "unat (x - p) = k \<longleftrightarrow> x = p + of_nat k"
    by (metis u64_diff_eq_iff u64_eq_iff_unat)
  with Suc show ?case by (auto simp: less_Suc_eq)
qed simp

lemma k_memset_apply: "k_memset p c n m x = (if x - p < n then ucast c else m x)"
  using memset_prefix [of "unat n" n p "ucast c" m x]
  by (simp add: k_memset_def for_u64_nat word_less_nat_alt)

text \<open>
  A forward copy reads every source byte before it is overwritten unless the destination starts
  inside the source, behind its first byte; a backward copy mirrors this.
\<close>

definition forward_safe :: "u64 \<Rightarrow> u64 \<Rightarrow> u64 \<Rightarrow> bool" where
  "forward_safe d s n \<longleftrightarrow> d = s \<or> n \<le> d - s"

lemma u64_sub_cases:
  "unat (a - b :: u64) =
     (if unat b \<le> unat a then unat a - unat b else unat a + 18446744073709551616 - unat b)"
  by (simp add: unat_sub_if')

lemma u64_add_cases:
  "unat (a + b :: u64) =
     (if unat a + unat b < 18446744073709551616 then unat a + unat b
      else unat a + unat b - 18446744073709551616)"
  using unat_add_lem [of a b] unat_plus_if' [of a b] by simp

lemma sub_range:
  assumes "a \<le> (b :: u64)" shows "y - a < b - a \<longleftrightarrow> a \<le> y \<and> y < b"
proof -
  have "unat (b - a) = unat b - unat a" using assms by (rule unat_minus_le)
  then show ?thesis
    using assms unat_lt_2p64 [of b] unat_lt_2p64 [of y] unat_lt_2p64 [of a]
    by (auto simp: word_less_nat_alt word_le_nat_alt u64_sub_cases split: if_splits)
qed

lemma forward_not_yet_written:
  assumes "forward_safe d s n" "k < unat n"
  shows "\<not> unat (s + of_nat k - d) < k"
proof -
  obtain e where e: "d = s + e" by (metis add.commute diff_add_cancel)
  have k: "unat (of_nat k :: u64) = k" by (rule unat_of_nat_lt [OF assms(2)])
  from assms(1) have "unat e = 0 \<or> unat n \<le> unat e"
    by (auto simp: e forward_safe_def word_le_nat_alt)
  then have "\<not> unat (of_nat k - e) < k"
    using assms(2) k unat_lt_2p64 [of e] by (auto simp: u64_sub_cases)
  then show ?thesis by (simp add: e)
qed

lemma memcpy_prefix:
  assumes "forward_safe d s n" "k \<le> unat n"
  shows "fold (\<lambda>i m. m(d + i := m (s + i))) (map (of_nat :: nat \<Rightarrow> u64) [0..<k]) m x =
           (if unat (x - d) < k then m (s + (x - d)) else m x)"
  using assms(2)
proof (induction k arbitrary: x)
  case (Suc k)
  then have k: "k < unat n" "unat (of_nat k :: u64) = k" by (simp_all add: unat_of_nat_lt [of k n])
  then have eq: "unat (x - d) = k \<longleftrightarrow> x = d + of_nat k"
    by (metis u64_diff_eq_iff u64_eq_iff_unat)
  have "\<not> unat (s + of_nat k - d) < k" by (rule forward_not_yet_written [OF assms(1) k(1)])
  with Suc eq show ?case by (auto simp: less_Suc_eq)
qed simp

lemma k_memcpy_apply:
  "forward_safe d s n \<Longrightarrow> k_memcpy d s n m x = (if x - d < n then m (s + (x - d)) else m x)"
  using memcpy_prefix [of d s n "unat n" m x]
  by (simp add: k_memcpy_def for_u64_nat word_less_nat_alt)

lemma backward_not_yet_written:
  assumes "forward_safe s d n" "k < unat n"
  shows "\<not> (k < unat (s + of_nat k - d) \<and> unat (s + of_nat k - d) < unat n)"
proof -
  obtain e where e: "s = d + e" by (metis add.commute diff_add_cancel)
  have k: "unat (of_nat k :: u64) = k" by (rule unat_of_nat_lt [OF assms(2)])
  from assms(1) have "unat e = 0 \<or> unat n \<le> unat e"
    by (auto simp: e forward_safe_def word_le_nat_alt)
  then have "\<not> (k < unat (e + of_nat k) \<and> unat (e + of_nat k) < unat n)"
    using assms(2) k unat_lt_2p64 [of e] by (auto simp: u64_add_cases)
  then show ?thesis by (simp add: e)
qed

lemma memmove_suffix:
  assumes "forward_safe s d n" "k \<le> unat n"
  shows "fold (\<lambda>i m. m(d + i := m (s + i))) (rev (map (of_nat :: nat \<Rightarrow> u64) [unat n - k..<unat n])) m x =
           (if unat n - k \<le> unat (x - d) \<and> unat (x - d) < unat n then m (s + (x - d)) else m x)"
  using assms(2)
proof (induction k arbitrary: x)
  case (Suc k)
  define j where "j = unat n - Suc k"
  then have j: "j < unat n" "Suc j = unat n - k" using Suc.prems by auto
  then have ju: "unat (of_nat j :: u64) = j" by (simp add: unat_of_nat_lt [of j n])
  then have eq: "unat (x - d) = j \<longleftrightarrow> x = d + of_nat j"
    by (metis u64_diff_eq_iff u64_eq_iff_unat)
  have up: "[j..<unat n] = j # [unat n - k..<unat n]" using j by (simp add: upt_conv_Cons)
  have "\<not> (j < unat (s + of_nat j - d) \<and> unat (s + of_nat j - d) < unat n)"
    by (rule backward_not_yet_written [OF assms(1) j(1)])
  then have src: "\<not> (unat n - k \<le> unat (s + of_nat j - d) \<and> unat (s + of_nat j - d) < unat n)"
    using j(2) by linarith
  from Suc.IH [of "s + of_nat j"] Suc.IH [of x] Suc.prems src eq j
  show ?case by (auto simp: up j_def [symmetric])
qed auto

lemma k_memmove_apply:
  assumes "unat s + unat n \<le> 18446744073709551616" "unat d + unat n \<le> 18446744073709551616"
  shows "k_memmove d s n m x = (if x - d < n then m (s + (x - d)) else m x)"
proof (cases "d = s")
  case True
  then show ?thesis by (simp add: k_memmove_def)
next
  case False
  show ?thesis
  proof (cases "d < s")
    case True
    then have "unat (d - s) = unat d + 18446744073709551616 - unat s"
      by (simp add: u64_sub_cases word_less_nat_alt)
    then have "forward_safe d s n" using assms unfolding forward_safe_def word_le_nat_alt by linarith
    then show ?thesis using True k_memcpy_apply [of d s n m x] by (simp add: k_memmove_def k_memcpy_def)
  next
    case nless: False
    with False have gt: "s < d" by simp
    then have "unat (s - d) = unat s + 18446744073709551616 - unat d"
      by (simp add: u64_sub_cases word_less_nat_alt)
    then have "forward_safe s d n" using assms unfolding forward_safe_def word_le_nat_alt by linarith
    then have "fold (\<lambda>i m. m(d + i := m (s + i))) (rev (u64_range 0 n)) m x =
        (if x - d < n then m (s + (x - d)) else m x)"
      using memmove_suffix [of s d n "unat n" m x] by (simp add: u64_range_def word_less_nat_alt)
    then show ?thesis using gt nless by (simp add: k_memmove_def)
  qed
qed

text \<open>\<open>k_memset\<close> in closed form, for evaluation: the loop of a page has 4096 rounds.\<close>

lemma k_memset_code [code]: "k_memset p c n m = (\<lambda>x. if x - p < n then ucast c else m x)"
  by (rule ext) (rule k_memset_apply)

lemma k_memcpy_code [code]:
  "k_memcpy d s n m =
     (if forward_safe d s n then (\<lambda>x. if x - d < n then m (s + (x - d)) else m x)
      else for_u64 0 n (\<lambda>i m. m(d + i := m (s + i))) m)"
  by (auto simp: fun_eq_iff k_memcpy_apply) (simp add: k_memcpy_def)

lemma k_memcmp_zero:
  "k_memcmp a b n m = 0 \<longleftrightarrow> (\<forall>i < n. m (a + i) = m (b + i))"
proof (cases "find (\<lambda>i. m (a + i) \<noteq> m (b + i)) (u64_range 0 n)")
  case None
  then have "\<forall>i < n. m (a + i) = m (b + i)" by (auto simp: find_None_iff)
  with None show ?thesis by (simp add: k_memcmp_def)
next
  case (Some i)
  then have "m (a + i) \<noteq> m (b + i)" "i < n" by (auto dest: find_Some_mem)
  with Some show ?thesis by (auto simp: k_memcmp_def dest: word_uint_eqI)
qed

section \<open>Strings in memory\<close>

text \<open>\<open>cstr m p xs\<close>: at address \<open>p\<close> lie the non-null bytes \<open>xs\<close> and then a terminator.\<close>

fun cstr :: "byte_mem \<Rightarrow> u64 \<Rightarrow> u8 list \<Rightarrow> bool" where
  "cstr m p [] \<longleftrightarrow> m p = 0"
| "cstr m p (x # xs) \<longleftrightarrow> x \<noteq> 0 \<and> m p = x \<and> cstr m (p + 1) xs"

lemma strlen_loop_cstr:
  "cstr m (str + len) xs \<Longrightarrow> strlen_loop m str len = Some (len + of_nat (length xs))"
proof (induction xs arbitrary: len)
  case Nil
  then show ?case by (simp add: strlen_loop.simps)
next
  case (Cons x xs)
  then have "cstr m (str + (len + 1)) xs" "m (str + len) \<noteq> 0" by (simp_all add: add.assoc)
  then show ?case
    using Cons.IH [of "len + 1"] by (subst strlen_loop.simps) (simp add: add.commute)
qed

lemma k_strcmp_cstr:
  "cstr m a xs \<Longrightarrow> cstr m b ys \<Longrightarrow>
   \<exists>r. k_strcmp m a b = Some r \<and> (r = 0 \<longleftrightarrow> xs = ys)"
proof (induction xs arbitrary: a b ys)
  case Nil
  then show ?case by (cases ys) (auto simp: k_strcmp.simps [of m a b] uint_0_iff)
next
  case (Cons x xs)
  show ?case
  proof (cases ys)
    case Nil
    with Cons.prems show ?thesis by (auto simp: k_strcmp.simps [of m a b] uint_0_iff)
  next
    case (Cons y ys')
    show ?thesis
    proof (cases "x = y")
      case True
      obtain r where "k_strcmp m (a + 1) (b + 1) = Some r" "r = 0 \<longleftrightarrow> xs = ys'"
        using Cons.IH [of "a + 1" "b + 1" ys'] Cons.prems \<open>ys = y # ys'\<close> by auto
      then show ?thesis
        using Cons.prems \<open>ys = y # ys'\<close> True by (auto simp: k_strcmp.simps [of m a b])
    next
      case False
      then show ?thesis
        using Cons.prems \<open>ys = y # ys'\<close>
        by (auto simp: k_strcmp.simps [of m a b] dest: word_uint_eqI)
    qed
  qed
qed

text \<open>Writing outside a string leaves it in place.\<close>

lemma cstr_upd_other:
  "cstr m p xs \<Longrightarrow> \<forall>i \<le> length xs. q \<noteq> p + of_nat i \<Longrightarrow> cstr (m(q := c)) p xs"
proof (induction xs arbitrary: p)
  case (Cons x xs)
  have "q \<noteq> p + 1 + of_nat i" if "i \<le> length xs" for i
    using Cons.prems(2) [rule_format, of "Suc i"] that by (simp add: add.assoc)
  moreover have "q \<noteq> p" using Cons.prems(2) [rule_format, of 0] by simp
  ultimately show ?case using Cons by simp
qed simp

text \<open>The addresses a string of \<open>n\<close> characters with its terminator takes.\<close>

definition span :: "u64 \<Rightarrow> nat \<Rightarrow> u64 set" where
  "span p n = {p + of_nat i | i. i \<le> n}"

lemma span_head: "p \<in> span p n"
  unfolding span_def by (auto intro: exI [of _ 0])

lemma span_tail: "span (p + 1) n \<subseteq> span p (Suc n)"
proof
  fix x assume "x \<in> span (p + 1) n"
  then obtain i where "i \<le> n" "x = p + 1 + of_nat i" by (auto simp: span_def)
  then have "Suc i \<le> Suc n" "x = p + of_nat (Suc i)" by (simp_all add: add.assoc)
  then show "x \<in> span p (Suc n)" unfolding span_def by blast
qed

lemma span_not_later: "n < 18446744073709551616 \<Longrightarrow> i < n \<Longrightarrow> p \<noteq> p + 1 + of_nat i"
  for p :: u64
proof
  assume n: "n < 18446744073709551616" "i < n" and "p = p + 1 + of_nat i"
  then have "(of_nat (Suc i) :: u64) = 0" by (simp add: add.assoc)
  moreover have "unat (of_nat (Suc i) :: u64) = Suc i" using n by (intro unat_of_nat_u64) simp
  ultimately show False by simp
qed

lemma k_strcpy_cstr:
  assumes "cstr m src xs" and "span dest (length xs) \<inter> span src (length xs) = {}"
    and "length xs < 18446744073709551615"
  shows "\<exists>m'. k_strcpy dest src m = Some m' \<and> cstr m' dest xs \<and>
           (\<forall>x. x \<notin> span dest (length xs) \<longrightarrow> m' x = m x)"
  using assms
proof (induction xs arbitrary: m src dest)
  case Nil
  then show ?case
    using span_head [of dest 0] by (auto simp: k_strcpy.simps [of dest src] Let_def)
next
  case (Cons x xs)
  let ?m = "m(dest := x)"
  have m: "m src = x" "x \<noteq> 0" "cstr m (src + 1) xs" using Cons.prems(1) by simp_all
  have dis: "span (dest + 1) (length xs) \<inter> span (src + 1) (length xs) = {}"
    using Cons.prems(2) span_tail [of dest "length xs"] span_tail [of src "length xs"] by auto
  have "dest \<notin> span (src + 1) (length xs)"
    using Cons.prems(2) span_head [of dest] span_tail [of src "length xs"] by auto
  then have c: "cstr ?m (src + 1) xs"
    by (intro cstr_upd_other [OF m(3)]) (auto simp: span_def)
  have "length xs < 18446744073709551615" using Cons.prems(3) by simp
  from Cons.IH [OF c dis this] obtain m' where m':
    "k_strcpy (dest + 1) (src + 1) ?m = Some m'" "cstr m' (dest + 1) xs"
    "\<forall>y. y \<notin> span (dest + 1) (length xs) \<longrightarrow> m' y = ?m y" by blast
  have "dest \<notin> span (dest + 1) (length xs)"
    using span_not_later [of "Suc (length xs)" _ dest] Cons.prems(3)
    by (force simp: span_def less_Suc_eq_le)
  then have "m' dest = x" using m'(3) by simp
  moreover have "m' y = m y" if "y \<notin> span dest (Suc (length xs))" for y
  proof -
    have "y \<notin> span (dest + 1) (length xs)" "y \<noteq> dest"
      using that span_tail [of dest "length xs"] span_head [of dest] by auto
    then show ?thesis using m'(3) by simp
  qed
  ultimately show ?case
    using m m' by (simp add: k_strcpy.simps [of dest src m] Let_def)
qed

section \<open>Words in memory\<close>

definition load_u16 :: "byte_mem \<Rightarrow> u64 \<Rightarrow> u16" where
  "load_u16 m a = ucast (m a) OR push_bit 8 (ucast (m (a + 1)))"

definition load_u32 :: "byte_mem \<Rightarrow> u64 \<Rightarrow> u32" where
  "load_u32 m a = ucast (load_u16 m a) OR push_bit 16 (ucast (load_u16 m (a + 2)))"

definition store_u32 :: "u64 \<Rightarrow> u32 \<Rightarrow> byte_mem \<Rightarrow> byte_mem" where
  "store_u32 a v m = (\<lambda>x. if x - a < 4 then ucast (drop_bit (8 * unat (x - a)) v) else m x)"

definition load_u64 :: "byte_mem \<Rightarrow> u64 \<Rightarrow> u64" where
  "load_u64 m a = fold (\<lambda>i v. v OR push_bit (8 * i) (ucast (m (a + of_nat i)))) [0..<8] 0"

definition store_u64 :: "u64 \<Rightarrow> u64 \<Rightarrow> byte_mem \<Rightarrow> byte_mem" where
  "store_u64 a v m = (\<lambda>x. if x - a < 8 then ucast (drop_bit (8 * unat (x - a)) v) else m x)"

lemma bit_fold_or:
  "bit (fold (\<lambda>i v. v OR f i) is (w :: u64)) n \<longleftrightarrow> bit w n \<or> (\<exists>i \<in> set is. bit (f i) n)"
  by (induction "is" arbitrary: w) (auto simp: bit_or_iff)

lemma bit_load_u64:
  assumes "n < 64"
  shows "bit (load_u64 m a) n \<longleftrightarrow> bit (m (a + of_nat (n div 8))) (n mod 8)"
proof -
  have byte: "bit (push_bit (8 * i) (ucast (c :: u8) :: u64)) n \<longleftrightarrow>
      8 * i \<le> n \<and> n - 8 * i < 8 \<and> bit c (n - 8 * i)" for i c
    using assms by (auto simp: bit_simps dest: bit_imp_le_length)
  have "bit (load_u64 m a) n \<longleftrightarrow>
      (\<exists>i \<in> {0..<8}. bit (push_bit (8 * i) (ucast (m (a + of_nat i)) :: u64)) n)"
    unfolding load_u64_def bit_fold_or by simp
  also have "\<dots> \<longleftrightarrow> (\<exists>i < 8. 8 * i \<le> n \<and> n - 8 * i < 8 \<and> bit (m (a + of_nat i)) (n - 8 * i))"
    unfolding byte by auto
  also have "\<dots> \<longleftrightarrow> bit (m (a + of_nat (n div 8))) (n mod 8)"
  proof
    assume "\<exists>i < 8. 8 * i \<le> n \<and> n - 8 * i < 8 \<and> bit (m (a + of_nat i)) (n - 8 * i)"
    then obtain i where i: "8 * i \<le> n" "n - 8 * i < 8" "bit (m (a + of_nat i)) (n - 8 * i)" by blast
    define r where "r = n - 8 * i"
    have "n = r + i * 8" "r < 8" using i by (simp_all add: r_def)
    then have "n div 8 = i" "n mod 8 = r" by simp_all
    with i r_def show "bit (m (a + of_nat (n div 8))) (n mod 8)" by simp
  next
    assume "bit (m (a + of_nat (n div 8))) (n mod 8)"
    moreover have "n div 8 < 8" using assms by simp
    moreover have "8 * (n div 8) \<le> n" by simp
    moreover have "n - 8 * (n div 8) = n mod 8" by (rule minus_mult_div_eq_mod)
    ultimately show "\<exists>i < 8. 8 * i \<le> n \<and> n - 8 * i < 8 \<and> bit (m (a + of_nat i)) (n - 8 * i)"
      by (intro exI [of _ "n div 8"]) simp
  qed
  finally show ?thesis .
qed

lemma load_u64_cong:
  assumes "\<And>i. i < 8 \<Longrightarrow> m (a + of_nat i) = m' (b + of_nat i)"
  shows "load_u64 m a = load_u64 m' b"
proof (rule bit_word_eqI)
  fix n assume "n < LENGTH(64)"
  then have "n < 64" "n div 8 < 8" by simp_all
  then show "bit (load_u64 m a) n = bit (load_u64 m' b) n"
    using assms [of "n div 8"] by (simp add: bit_load_u64)
qed

lemma load_store_same: "load_u64 (store_u64 a v m) a = v"
proof (rule bit_word_eqI)
  fix n assume "n < LENGTH(64)"
  then have n: "n < 64" and i: "n div 8 < 8" by simp_all
  have u: "unat (of_nat (n div 8) :: u64) = n div 8" using i by (intro unat_of_nat_u64) simp
  then have "(of_nat (n div 8) :: u64) < 8" using i by (simp add: word_less_nat_alt)
  then show "bit (load_u64 (store_u64 a v m) a) n = bit v n"
    using n u by (simp add: bit_load_u64 store_u64_def bit_simps)
qed

text \<open>Two words that do not overlap: they are at least 8 bytes apart in both directions.\<close>

definition apart :: "u64 \<Rightarrow> u64 \<Rightarrow> bool" where
  "apart a b \<longleftrightarrow> 8 \<le> a - b \<and> 8 \<le> b - a"

lemma load_store_apart:
  assumes "apart a b"
  shows "load_u64 (store_u64 a v m) b = load_u64 m b"
proof (rule load_u64_cong)
  fix i :: nat assume i: "i < 8"
  obtain e where e: "b = a + e" by (metis add.commute diff_add_cancel)
  have iu: "unat (of_nat i :: u64) = i" using i by (intro unat_of_nat_u64) simp
  from assms have "8 \<le> unat e" "8 \<le> unat (- e)"
    by (simp_all add: e apart_def word_le_nat_alt)
  moreover have "unat (- e) = (if unat e = 0 then 0 else 18446744073709551616 - unat e)"
    using u64_sub_cases [of 0 e] by simp
  ultimately have "\<not> e + of_nat i < 8"
    using i iu unat_lt_2p64 [of e] by (auto simp: word_less_nat_alt u64_add_cases split: if_splits)
  then show "store_u64 a v m (b + of_nat i) = m (b + of_nat i)"
    by (simp add: e store_u64_def add.assoc)
qed

definition aligned :: "nat \<Rightarrow> u64 \<Rightarrow> bool" where
  "aligned k a \<longleftrightarrow> unat a mod k = 0"

lemma aligned_apart:
  assumes "aligned 8 a" "aligned 8 b" "a \<noteq> b"
  shows "apart a b"
proof -
  have "8 \<le> unat (x - y)" if "aligned 8 x" "aligned 8 y" "x \<noteq> y" for x y
  proof -
    have "8 dvd unat x" "8 dvd unat y" using that by (auto simp: aligned_def)
    then obtain i j where "unat x = 8 * i" "unat y = 8 * j" by (elim dvdE)
    moreover from this have "i \<noteq> j" using that(3) by (auto simp: u64_eq_iff_unat)
    ultimately show ?thesis
      using unat_lt_2p64 [of x] unat_lt_2p64 [of y] by (auto simp: u64_sub_cases)
  qed
  with assms show ?thesis by (auto simp: apart_def word_le_nat_alt)
qed

lemma load_store_aligned:
  "aligned 8 a \<Longrightarrow> aligned 8 b \<Longrightarrow>
   load_u64 (store_u64 a v m) b = (if a = b then v else load_u64 m b)"
  using load_store_same load_store_apart aligned_apart by (auto split: if_splits)

section \<open>32-bit loads and stores\<close>

lemma not_bit_u8: "8 \<le> k \<Longrightarrow> \<not> bit (x :: u8) k"
  using bit_imp_le_length [of x k] by auto

lemma bit_load_u16:
  assumes "n < 16"
  shows "bit (load_u16 m a) n \<longleftrightarrow> (if n < 8 then bit (m a) n else bit (m (a + 1)) (n - 8))"
  using assms not_bit_u8 [of n "m a"] by (auto simp: load_u16_def bit_or_iff bit_push_bit_iff bit_ucast_iff)

lemma not_bit_u16: "16 \<le> k \<Longrightarrow> \<not> bit (x :: u16) k"
  using bit_imp_le_length [of x k] by auto

lemma bit_load_u32:
  assumes "n < 32"
  shows "bit (load_u32 m a) n \<longleftrightarrow> bit (m (a + of_nat (n div 8))) (n mod 8)"
proof -
  have h: "bit (load_u32 m a) n \<longleftrightarrow> (if n < 16 then bit (load_u16 m a) n else bit (load_u16 m (a + 2)) (n - 16))"
    using assms not_bit_u16 [of n "load_u16 m a"] by (auto simp: load_u32_def bit_or_iff bit_push_bit_iff bit_ucast_iff)
  define j r where jr: "j = n div 8" "r = n mod 8"
  have n: "n = 8 * j + r" "r < 8" by (simp_all add: jr)
  have "j < 4" using assms by (simp add: jr)
  then consider "j = 0" | "j = 1" | "j = 2" | "j = 3" by linarith
  then have "bit (load_u32 m a) n \<longleftrightarrow> bit (m (a + of_nat j)) r"
    unfolding h by cases (use n in \<open>simp_all add: bit_load_u16 add.assoc\<close>)
  then show ?thesis by (simp only: jr)
qed

lemma load_store_u32_same: "load_u32 (store_u32 a v m) a = v"
proof (rule bit_word_eqI)
  fix n assume "n < LENGTH(32)"
  then have n: "n < 32" "n div 8 < 4" by simp_all
  have u: "unat (of_nat (n div 8) :: u64) = n div 8" using n by (simp add: unat_of_nat_u64)
  then have l: "(of_nat (n div 8) :: u64) < 4" using n by (simp add: word_less_nat_alt)
  show "bit (load_u32 (store_u32 a v m) a) n = bit v n"
    using l u by (simp add: bit_load_u32 [OF n(1)] store_u32_def bit_ucast_iff bit_drop_bit_eq)
qed

lemma load_u32_cong:
  assumes "\<And>i. i < 4 \<Longrightarrow> m (a + of_nat i) = m' (a + of_nat i)"
  shows "load_u32 m a = load_u32 m' a"
proof (rule bit_word_eqI)
  fix n assume "n < LENGTH(32)"
  then have n: "n < 32" "n div 8 < 4" by simp_all
  show "bit (load_u32 m a) n = bit (load_u32 m' a) n"
    using assms [OF n(2)] by (simp only: bit_load_u32 [OF n(1)])
qed

lemma load_store_u32_apart:
  assumes "unat a + 4 \<le> unat b \<or> unat b + 4 \<le> unat a" "unat a + 4 \<le> 18446744073709551616" "unat b + 4 \<le> 18446744073709551616"
  shows "load_u32 (store_u32 a v m) b = load_u32 m b"
proof (rule load_u32_cong)
  fix i :: nat assume i: "i < 4"
  have "unat (b + of_nat i) = unat b + i" using assms(3) i by (simp add: unat_plus_no_wrap unat_of_nat_u64)
  then have "\<not> b + of_nat i - a < 4"
    using assms i by (auto simp: word_less_nat_alt u64_sub_cases)
  then show "store_u32 a v m (b + of_nat i) = m (b + of_nat i)" by (simp add: store_u32_def)
qed

end
