(* ===== verification/Page_Table.thy ===== *)
theory Page_Table
  imports Pmm Kmemory
begin

text \<open>
  The x86-64 page tables of \<open>vmm/page_table.c\<close>, \<open>vmm/page_table.h\<close> and \<open>vmm/paging.c\<close>. Page tables
  lie in the byte-addressed memory and are reached through the higher-half direct map, so a
  table pointer is its physical address plus \<open>hhdm_offset\<close>; entries are 64-bit loads and stores. The
  registers the code reads and writes (CR3) and the addresses it passes to \<open>invlpg\<close> are part of
  the state. Console output is left out.
\<close>

section \<open>Constants and state\<close>

definition PAGE_SIZE :: u64 where "PAGE_SIZE = 4096"

definition PAGE_PRESENT :: u64 where "PAGE_PRESENT = 0x1"
definition PAGE_WRITABLE :: u64 where "PAGE_WRITABLE = 0x2"
definition PAGE_USER :: u64 where "PAGE_USER = 0x4"
definition PAGE_HUGE :: u64 where "PAGE_HUGE = 0x80"
definition PAGE_NO_EXECUTE :: u64 where "PAGE_NO_EXECUTE = 0x8000000000000000"

definition PAGE_TABLE_ADDRESS_MASK :: u64 where "PAGE_TABLE_ADDRESS_MASK = 0x000FFFFFFFFFF000"

definition PAGE_2MIB_SIZE :: u64 where "PAGE_2MIB_SIZE = 0x200000"
definition PAGE_1GIB_SIZE :: u64 where "PAGE_1GIB_SIZE = 0x40000000"

definition PML4_INDEX :: "u64 \<Rightarrow> u64" where "PML4_INDEX addr = drop_bit 39 addr AND 0x1FF"
definition PDPT_INDEX :: "u64 \<Rightarrow> u64" where "PDPT_INDEX addr = drop_bit 30 addr AND 0x1FF"
definition PD_INDEX :: "u64 \<Rightarrow> u64" where "PD_INDEX addr = drop_bit 21 addr AND 0x1FF"
definition PT_INDEX :: "u64 \<Rightarrow> u64" where "PT_INDEX addr = drop_bit 12 addr AND 0x1FF"

definition page_is_present :: "u64 \<Rightarrow> bool" where
  "page_is_present entry \<longleftrightarrow> entry AND PAGE_PRESENT \<noteq> 0"

definition page_is_writable :: "u64 \<Rightarrow> bool" where
  "page_is_writable entry \<longleftrightarrow> entry AND PAGE_WRITABLE \<noteq> 0"

definition page_is_user :: "u64 \<Rightarrow> bool" where
  "page_is_user entry \<longleftrightarrow> entry AND PAGE_USER \<noteq> 0"

definition page_is_executable :: "u64 \<Rightarrow> bool" where
  "page_is_executable entry \<longleftrightarrow> entry AND PAGE_NO_EXECUTE = 0"

datatype page_walk_level =
    PAGE_WALK_LEVEL_NONE | PAGE_WALK_LEVEL_PT | PAGE_WALK_LEVEL_PD | PAGE_WALK_LEVEL_PDPT

datatype page_walk_status =
    PAGE_WALK_OK
  | PAGE_WALK_INVALID_ROOT
  | PAGE_WALK_MISSING_PML4_ENTRY
  | PAGE_WALK_MISSING_PDPT_ENTRY
  | PAGE_WALK_MISSING_PD_ENTRY
  | PAGE_WALK_MISSING_PT_ENTRY
  | PAGE_WALK_HUGE_PAGE_PDPT
  | PAGE_WALK_HUGE_PAGE_PD
  | PAGE_WALK_ALLOCATION_FAILED
  | PAGE_WALK_HHDM_UNCONFIGURED

record vm_state =
  vm_pmm :: pmm_state
  vm_mem :: byte_mem
  hhdm_offset :: u64
  hhdm_ready :: bool
  active_pml4_physical :: u64
  kernel_pml4 :: u64
  kernel_pml4_physical :: u64
  cr3 :: u64
  invalidated :: "u64 list"

section \<open>Operations\<close>

definition page_table_set_hhdm_offset :: "u64 \<Rightarrow> vm_state \<Rightarrow> vm_state" where
  "page_table_set_hhdm_offset offset s = s\<lparr>hhdm_offset := offset, hhdm_ready := True\<rparr>"

definition page_table_physical_to_virtual :: "vm_state \<Rightarrow> u64 \<Rightarrow> u64" where
  "page_table_physical_to_virtual s physical_address = physical_address + hhdm_offset s"

text \<open>The address of \<open>table->entries[index]\<close>.\<close>

definition entry_addr :: "u64 \<Rightarrow> u64 \<Rightarrow> u64" where
  "entry_addr table index = table + 8 * index"

text \<open>
  A walk carries the status it would report: a step that fails sets it, a step that succeeds
  leaves the status it was given.
\<close>

definition ensure_next_table ::
  "u64 \<Rightarrow> u64 \<Rightarrow> bool \<Rightarrow> page_walk_status \<Rightarrow> page_walk_status \<Rightarrow> vm_state
    \<Rightarrow> u64 \<times> page_walk_status \<times> vm_state" where
  "ensure_next_table table index create missing_status status s =
     (if table = 0 then (0, PAGE_WALK_INVALID_ROOT, s)
      else
        let entry = load_u64 (vm_mem s) (entry_addr table index) in
        if page_is_present entry
        then (page_table_physical_to_virtual s (entry AND PAGE_TABLE_ADDRESS_MASK), status, s)
        else if \<not> create then (0, missing_status, s)
        else
          (case pmm_alloc_page (vm_pmm s) of (physical_page, pmm) \<Rightarrow>
             let s = s\<lparr>vm_pmm := pmm\<rparr> in
             if physical_page = 0 then (0, PAGE_WALK_ALLOCATION_FAILED, s)
             else
               let new_table = page_table_physical_to_virtual s physical_page in
               if new_table = 0
               then (0, PAGE_WALK_HHDM_UNCONFIGURED,
                     s\<lparr>vm_pmm := pmm_free_page physical_page (vm_pmm s)\<rparr>)
               else
                 let s = s\<lparr>vm_mem := k_memset new_table 0 PAGE_SIZE (vm_mem s)\<rparr>;
                     s = s\<lparr>vm_mem := store_u64 (entry_addr table index)
                              (physical_page OR PAGE_PRESENT OR PAGE_WRITABLE) (vm_mem s)\<rparr>
                 in (new_table, status, s)))"

definition invalidate_page :: "u64 \<Rightarrow> vm_state \<Rightarrow> vm_state" where
  "invalidate_page virtual_address s = s\<lparr>invalidated := virtual_address # invalidated s\<rparr>"

definition page_size_for_level :: "page_walk_level \<Rightarrow> u64" where
  "page_size_for_level level =
     (case level of
        PAGE_WALK_LEVEL_PT \<Rightarrow> PAGE_SIZE
      | PAGE_WALK_LEVEL_PD \<Rightarrow> PAGE_2MIB_SIZE
      | PAGE_WALK_LEVEL_PDPT \<Rightarrow> PAGE_1GIB_SIZE
      | _ \<Rightarrow> 0)"

definition read_cr3 :: "vm_state \<Rightarrow> u64" where
  [simp]: "read_cr3 s = cr3 s"

definition page_table_current_root :: "vm_state \<Rightarrow> u64" where
  "page_table_current_root s =
     (if \<not> hhdm_ready s then 0
      else page_table_physical_to_virtual s (read_cr3 s AND PAGE_TABLE_ADDRESS_MASK))"

definition page_table_active_root :: "vm_state \<Rightarrow> u64" where
  "page_table_active_root s =
     (if kernel_pml4 s \<noteq> 0 then kernel_pml4 s else page_table_current_root s)"

text \<open>The result is the entry pointer (0 for none), the leaf level, the status and the new state.\<close>

definition page_walk_internal ::
  "u64 \<Rightarrow> u64 \<Rightarrow> bool \<Rightarrow> vm_state
    \<Rightarrow> u64 \<times> page_walk_level \<times> page_walk_status \<times> vm_state" where
  "page_walk_internal pml4 va create s =
     (if pml4 = 0 then (0, PAGE_WALK_LEVEL_NONE, PAGE_WALK_INVALID_ROOT, s)
      else
        case ensure_next_table pml4 (PML4_INDEX va) create PAGE_WALK_MISSING_PML4_ENTRY
               PAGE_WALK_OK s of (pdpt, st, s) \<Rightarrow>
        if pdpt = 0 then (0, PAGE_WALK_LEVEL_NONE, st, s)
        else
          let pdpt_entry = entry_addr pdpt (PDPT_INDEX va);
              v = load_u64 (vm_mem s) pdpt_entry in
          if page_is_present v \<and> v AND PAGE_HUGE \<noteq> 0
          then (if create then (0, PAGE_WALK_LEVEL_NONE, PAGE_WALK_HUGE_PAGE_PDPT, s)
                else (pdpt_entry, PAGE_WALK_LEVEL_PDPT, st, s))
          else if \<not> page_is_present v \<and> \<not> create
          then (0, PAGE_WALK_LEVEL_NONE, PAGE_WALK_MISSING_PDPT_ENTRY, s)
          else
            case ensure_next_table pdpt (PDPT_INDEX va) create PAGE_WALK_MISSING_PDPT_ENTRY
                   st s of (pd, st, s) \<Rightarrow>
            if pd = 0 then (0, PAGE_WALK_LEVEL_NONE, st, s)
            else
              let pd_entry = entry_addr pd (PD_INDEX va);
                  v = load_u64 (vm_mem s) pd_entry in
              if page_is_present v \<and> v AND PAGE_HUGE \<noteq> 0
              then (if create then (0, PAGE_WALK_LEVEL_NONE, PAGE_WALK_HUGE_PAGE_PD, s)
                    else (pd_entry, PAGE_WALK_LEVEL_PD, st, s))
              else if \<not> page_is_present v \<and> \<not> create
              then (0, PAGE_WALK_LEVEL_NONE, PAGE_WALK_MISSING_PD_ENTRY, s)
              else
                case ensure_next_table pd (PD_INDEX va) create PAGE_WALK_MISSING_PD_ENTRY
                       st s of (pt, st, s) \<Rightarrow>
                if pt = 0 then (0, PAGE_WALK_LEVEL_NONE, st, s)
                else
                  let pt_entry = entry_addr pt (PT_INDEX va) in
                  if \<not> create \<and> \<not> page_is_present (load_u64 (vm_mem s) pt_entry)
                  then (0, PAGE_WALK_LEVEL_NONE, PAGE_WALK_MISSING_PT_ENTRY, s)
                  else (pt_entry, PAGE_WALK_LEVEL_PT, st, s))"

definition page_walk :: "u64 \<Rightarrow> u64 \<Rightarrow> bool \<Rightarrow> vm_state \<Rightarrow> u64 \<times> vm_state" where
  "page_walk pml4 va create s =
     (case page_walk_internal pml4 va create s of (entry, _, _, s) \<Rightarrow> (entry, s))"

definition page_table_get_pml4 :: "vm_state \<Rightarrow> u64" where
  "page_table_get_pml4 s = page_table_active_root s"

text \<open>
  \<open>page_table_create\<close> returns the pointer to the new table; the second component is what
  \<open>*physical_out\<close> is set to, \<open>None\<close> when it is left alone.
\<close>

definition page_table_create :: "vm_state \<Rightarrow> u64 \<times> u64 option \<times> vm_state" where
  "page_table_create s =
     (case pmm_alloc_page (vm_pmm s) of (physical_page, pmm) \<Rightarrow>
        let s = s\<lparr>vm_pmm := pmm\<rparr> in
        if physical_page = 0 then (0, None, s)
        else
          let new_pml4 = page_table_physical_to_virtual s physical_page in
          if new_pml4 = 0
          then (0, Some physical_page, s\<lparr>vm_pmm := pmm_free_page physical_page (vm_pmm s)\<rparr>)
          else
            let s = s\<lparr>vm_mem := k_memset new_pml4 0 PAGE_SIZE (vm_mem s)\<rparr>;
                s = (if kernel_pml4 s \<noteq> 0
                     then s\<lparr>vm_mem := k_memcpy new_pml4 (kernel_pml4 s) PAGE_SIZE (vm_mem s)\<rparr>
                     else s)
            in (new_pml4, Some physical_page, s))"

definition page_table_init :: "vm_state \<Rightarrow> vm_state" where
  "page_table_init s =
     (if kernel_pml4 s \<noteq> 0 then s
      else
        case pmm_alloc_page (vm_pmm s) of (pml4_physical, pmm) \<Rightarrow>
          let s = s\<lparr>vm_pmm := pmm\<rparr> in
          if pml4_physical = 0 then s
          else
            let s = s\<lparr>kernel_pml4_physical := pml4_physical\<rparr>;
                s = s\<lparr>kernel_pml4 := page_table_physical_to_virtual s (kernel_pml4_physical s)\<rparr> in
            if kernel_pml4 s = 0
            then s\<lparr>vm_pmm := pmm_free_page pml4_physical (vm_pmm s), kernel_pml4_physical := 0\<rparr>
            else
              let current_pml4 = page_table_current_root s in
              if current_pml4 = 0
              then s\<lparr>vm_pmm := pmm_free_page pml4_physical (vm_pmm s), kernel_pml4 := 0,
                     kernel_pml4_physical := 0\<rparr>
              else s\<lparr>vm_mem := k_memcpy (kernel_pml4 s) current_pml4 PAGE_SIZE (vm_mem s)\<rparr>)"

definition page_table_map :: "u64 \<Rightarrow> u64 \<Rightarrow> u64 \<Rightarrow> vm_state \<Rightarrow> bool \<times> vm_state" where
  "page_table_map va pa flags s =
     (case page_walk_internal (page_table_active_root s) va True s of (entry, level, _, s) \<Rightarrow>
        if entry = 0 then (False, s)
        else if level \<noteq> PAGE_WALK_LEVEL_PT then (False, s)
        else
          let s = s\<lparr>vm_mem := store_u64 entry
                     ((pa AND PAGE_TABLE_ADDRESS_MASK) OR
                      (flags AND NOT PAGE_PRESENT AND NOT PAGE_HUGE) OR PAGE_PRESENT) (vm_mem s)\<rparr>
          in (True, invalidate_page va s))"

definition page_table_map_page :: "u64 \<Rightarrow> u64 \<Rightarrow> bool \<Rightarrow> vm_state \<Rightarrow> bool \<times> vm_state" where
  "page_table_map_page va pa writable s =
     page_table_map va pa (if writable then PAGE_WRITABLE else 0) s"

definition page_table_unmap :: "u64 \<Rightarrow> vm_state \<Rightarrow> bool \<times> vm_state" where
  "page_table_unmap va s =
     (case page_walk_internal (page_table_active_root s) va False s of (entry, level, _, s) \<Rightarrow>
        if entry = 0 then (False, s)
        else if level \<noteq> PAGE_WALK_LEVEL_PT then (False, s)
        else if \<not> page_is_present (load_u64 (vm_mem s) entry) then (False, s)
        else (True, invalidate_page va (s\<lparr>vm_mem := store_u64 entry 0 (vm_mem s)\<rparr>)))"

definition page_table_translate :: "u64 \<Rightarrow> vm_state \<Rightarrow> u64" where
  "page_table_translate va s =
     (case page_walk_internal (page_table_active_root s) va False s of (entry, level, _, s) \<Rightarrow>
        if entry = 0 then 0
        else
          let v = load_u64 (vm_mem s) entry in
          if \<not> page_is_present v then 0
          else
            let page_size = page_size_for_level level in
            if page_size = 0 then 0
            else (v AND PAGE_TABLE_ADDRESS_MASK) OR (va AND (page_size - 1)))"

definition page_table_is_mapped :: "u64 \<Rightarrow> vm_state \<Rightarrow> bool" where
  "page_table_is_mapped va s =
     (case page_walk_internal (page_table_get_pml4 s) va False s of (entry, _, _, s) \<Rightarrow>
        if entry = 0 then False else page_is_present (load_u64 (vm_mem s) entry))"

definition write_cr3 :: "u64 \<Rightarrow> vm_state \<Rightarrow> vm_state" where
  "write_cr3 v s = s\<lparr>cr3 := v\<rparr>"

definition page_table_activate :: "vm_state \<Rightarrow> vm_state" where
  "page_table_activate s =
     (if kernel_pml4_physical s = 0 then s
      else let s = write_cr3 (kernel_pml4_physical s) s
           in s\<lparr>active_pml4_physical := kernel_pml4_physical s\<rparr>)"

definition page_table_switch :: "u64 \<Rightarrow> vm_state \<Rightarrow> vm_state" where
  "page_table_switch physical_pml4 s =
     (if physical_pml4 = 0 then s
      else if active_pml4_physical s = physical_pml4 then s
      else (write_cr3 physical_pml4 s)\<lparr>active_pml4_physical := physical_pml4\<rparr>)"

definition or_entry :: "u64 \<Rightarrow> u64 \<Rightarrow> vm_state \<Rightarrow> vm_state" where
  "or_entry a bits s = s\<lparr>vm_mem := store_u64 a (load_u64 (vm_mem s) a OR bits) (vm_mem s)\<rparr>"

definition page_table_map_user :: "u64 \<Rightarrow> u64 \<Rightarrow> u64 \<Rightarrow> bool \<Rightarrow> vm_state \<Rightarrow> bool \<times> vm_state" where
  "page_table_map_user pml4 va pa writable s =
     (let flags = PAGE_PRESENT OR PAGE_USER;
          flags = (if writable then flags OR PAGE_WRITABLE else flags) in
      case page_walk pml4 va True s of (entry, s) \<Rightarrow>
        if entry = 0 then (False, s)
        else
          let next = (\<lambda>s table index. page_table_physical_to_virtual s
                        (load_u64 (vm_mem s) (entry_addr table index) AND PAGE_TABLE_ADDRESS_MASK));
              pdpt = next s pml4 (PML4_INDEX va);
              s = or_entry (entry_addr pml4 (PML4_INDEX va)) PAGE_USER s;
              pd = next s pdpt (PDPT_INDEX va);
              s = or_entry (entry_addr pdpt (PDPT_INDEX va)) PAGE_USER s;
              pt = next s pd (PD_INDEX va);
              s = or_entry (entry_addr pd (PD_INDEX va)) PAGE_USER s;
              s = s\<lparr>vm_mem := store_u64 entry (pa OR flags) (vm_mem s)\<rparr>
          in (True, s))"

text \<open>\<open>vmm/paging.c\<close>\<close>

definition paging_init :: "vm_state \<Rightarrow> vm_state" where
  "paging_init s = page_table_activate (page_table_init s)"

end
