(* ===== verification/Address_Space.thy ===== *)
theory Address_Space
  imports Page_Table
begin

text \<open>
  The abstract view of the page tables of \<open>vmm/page_table.c\<close>. An address space is a function from index
  paths (one to four indices below 512) to entries, with 0 for the entries of a table that does
  not exist. The walk of the code is shown to compute the translation of this function, and each
  operation to change it at the entries it should: creating a missing table changes one entry,
  mapping and unmapping change the leaf entry. The invariant says that the tables reachable from a
  root form a tree of distinct, page-aligned frames that the physical memory manager does not
  consider free.
\<close>

section \<open>Geometry of tables\<close>

lemma aligned_dvd: "aligned k a \<longleftrightarrow> k dvd unat a"
  by (simp add: aligned_def dvd_eq_mod_eq_0)

lemma aligned_add:
  assumes "k dvd 18446744073709551616" "aligned k a" "aligned k b"
  shows "aligned k (a + b)"
proof -
  have "unat (a + b) = (unat a + unat b) mod 18446744073709551616"
    by (simp add: unat_word_ariths)
  with assms show ?thesis by (simp add: aligned_dvd dvd_mod)
qed

lemma aligned_mono: "aligned k a \<Longrightarrow> j dvd k \<Longrightarrow> aligned j a"
  by (auto simp: aligned_dvd)

lemma aligned_pageE:
  assumes "aligned 4096 t"
  obtains k where "unat t = 4096 * k" "k < 4503599627370496"
proof -
  obtain k where k: "unat t = 4096 * k" using assms by (auto simp: aligned_dvd)
  then have "k < 4503599627370496" using unat_lt_2p64 [of t] by simp
  with k show thesis by (rule that)
qed

lemma address_mask_shift: "PAGE_TABLE_ADDRESS_MASK = push_bit 12 (mask 40)"
  by (simp add: PAGE_TABLE_ADDRESS_MASK_def mask_eq_exp_minus_1 push_bit_eq_mult)

lemma bit_address_mask [simp]: "bit PAGE_TABLE_ADDRESS_MASK n \<longleftrightarrow> 12 \<le> n \<and> n < 52"
proof -
  have "bit PAGE_TABLE_ADDRESS_MASK n \<longleftrightarrow> 12 \<le> n \<and> n < 64 \<and> n - 12 < 64 \<and> n - 12 < 40"
    unfolding address_mask_shift bit_push_bit_iff bit_mask_iff possible_bit_word by simp
  also have "\<dots> \<longleftrightarrow> 12 \<le> n \<and> n < 52" by arith
  finally show ?thesis .
qed

lemma aligned_page_address: "aligned 4096 (v AND PAGE_TABLE_ADDRESS_MASK)"
proof -
  have "take_bit 12 (v AND PAGE_TABLE_ADDRESS_MASK) = 0"
    by (rule bit_eqI) (simp add: bit_take_bit_iff bit_and_iff)
  then have "(v AND PAGE_TABLE_ADDRESS_MASK) mod 4096 = 0"
    by (simp add: take_bit_eq_mod)
  then have "unat ((v AND PAGE_TABLE_ADDRESS_MASK) mod 4096) = 0" by simp
  then show ?thesis by (simp add: aligned_def unat_mod_u64)
qed

lemma entry_addr_unat:
  assumes "aligned 4096 t" "i < 512"
  shows "unat (entry_addr t i) = unat t + 8 * unat i"
proof -
  have i: "unat i < 512" using assms(2) by (simp add: word_less_nat_alt)
  then have m: "unat (8 * i) = 8 * unat i" by (simp add: unat_mult_no_wrap)
  obtain k where "unat t = 4096 * k" "k < 4503599627370496" using assms(1) by (rule aligned_pageE)
  then have "unat t + 8 * unat i < 18446744073709551616"
    using i by linarith
  then show ?thesis using m by (simp add: entry_addr_def unat_plus_no_wrap)
qed

lemma entry_addr_aligned:
  "aligned 4096 t \<Longrightarrow> i < 512 \<Longrightarrow> aligned 8 (entry_addr t i)"
  by (auto simp: aligned_dvd entry_addr_unat dvd_add dvd_trans [of 8 4096])

lemma entry_addr_nonzero: "aligned 4096 t \<Longrightarrow> i < 512 \<Longrightarrow> t \<noteq> 0 \<Longrightarrow> entry_addr t i \<noteq> 0"
  using entry_addr_unat [of t i] by (auto simp: u64_eq_iff_unat)

lemma entry_addr_inj:
  assumes "aligned 4096 t" "i < 512" "aligned 4096 u" "j < 512"
  shows "entry_addr t i = entry_addr u j \<longleftrightarrow> t = u \<and> i = j"
proof
  assume "entry_addr t i = entry_addr u j"
  then have "unat t + 8 * unat i = unat u + 8 * unat j"
    using assms by (metis entry_addr_unat)
  moreover obtain k where "unat t = 4096 * k" using assms(1) by (rule aligned_pageE)
  moreover obtain l where "unat u = 4096 * l" using assms(3) by (rule aligned_pageE)
  moreover have "unat i < 512" "unat j < 512" using assms by (simp_all add: word_less_nat_alt)
  ultimately have "k = l" by linarith
  with \<open>unat t + 8 * unat i = _\<close> \<open>unat t = 4096 * k\<close> \<open>unat u = 4096 * l\<close>
  have "unat i = unat j" by simp
  with \<open>k = l\<close> show "t = u \<and> i = j" by (simp add: u64_eq_iff_unat \<open>unat t = 4096 * k\<close> \<open>unat u = 4096 * l\<close>)
qed simp

lemma index_bounds [simp]:
  "PML4_INDEX va < 512" "PDPT_INDEX va < 512" "PD_INDEX va < 512" "PT_INDEX va < 512"
proof -
  have "x AND 0x1FF < 512" for x :: u64
    using word_and_le1 [of x "0x1FF"] by (rule le_less_trans) simp
  then show "PML4_INDEX va < 512" "PDPT_INDEX va < 512" "PD_INDEX va < 512" "PT_INDEX va < 512"
    by (simp_all add: PML4_INDEX_def PDPT_INDEX_def PD_INDEX_def PT_INDEX_def)
qed

text \<open>Clearing a page and copying a page, seen entry by entry.\<close>

lemma page_offset:
  assumes "aligned 4096 t" "i < 512" "k < 8"
  shows "unat (entry_addr t i + of_nat k) = unat t + 8 * unat i + k"
proof -
  obtain l where l: "unat t = 4096 * l" "l < 4503599627370496" using assms(1) by (rule aligned_pageE)
  have "unat i < 512" using assms(2) by (simp add: word_less_nat_alt)
  moreover have k: "unat (of_nat k :: u64) = k" using assms(3) by (intro unat_of_nat_u64) simp
  ultimately have "unat (entry_addr t i) + unat (of_nat k :: u64) < 18446744073709551616"
    using l assms(3) by (simp add: entry_addr_unat [OF assms(1,2)])
  then show ?thesis using k by (simp add: unat_plus_no_wrap entry_addr_unat [OF assms(1,2)])
qed

lemma in_page_iff:
  assumes "aligned 4096 t" "i < 512" "aligned 4096 u" "k < 8"
  shows "entry_addr t i + of_nat k - u < PAGE_SIZE \<longleftrightarrow> t = u"
proof -
  have x: "unat (entry_addr t i + of_nat k) = unat t + 8 * unat i + k"
    by (rule page_offset [OF assms(1,2,4)])
  have "unat i < 512" using assms(2) by (simp add: word_less_nat_alt)
  moreover obtain l where "unat t = 4096 * l" using assms(1) by (rule aligned_pageE)
  moreover obtain n where "unat u = 4096 * n" "n < 4503599627370496"
    using assms(3) by (rule aligned_pageE)
  moreover have "unat (entry_addr t i + of_nat k - u) =
     (if unat u \<le> unat t + 8 * unat i + k then unat t + 8 * unat i + k - unat u
      else unat t + 8 * unat i + k + 18446744073709551616 - unat u)"
    by (simp add: u64_sub_cases x)
  ultimately have "unat (entry_addr t i + of_nat k - u) < 4096 \<longleftrightarrow> unat t = unat u"
    using assms(4) by (auto split: if_splits)
  then show ?thesis by (simp add: word_less_nat_alt PAGE_SIZE_def u64_eq_iff_unat)
qed

lemma load_memset_page:
  assumes "aligned 4096 t" "i < 512" "aligned 4096 u"
  shows "load_u64 (k_memset u 0 PAGE_SIZE m) (entry_addr t i) =
           (if t = u then 0 else load_u64 m (entry_addr t i))"
proof (cases "t = u")
  case True
  have "load_u64 (k_memset u 0 PAGE_SIZE m) (entry_addr t i) = load_u64 (\<lambda>_. 0) (entry_addr t i)"
    by (rule load_u64_cong) (use assms True in_page_iff in \<open>auto simp: k_memset_apply\<close>)
  also have "\<dots> = 0"
    by (rule bit_eqI) (simp add: bit_load_u64)
  finally show ?thesis using True by simp
next
  case False
  have "load_u64 (k_memset u 0 PAGE_SIZE m) (entry_addr t i) = load_u64 m (entry_addr t i)"
    by (rule load_u64_cong) (use assms False in_page_iff in \<open>auto simp: k_memset_apply\<close>)
  then show ?thesis using False by simp
qed

section \<open>The abstract address space\<close>

text \<open>An entry that leads to a lower table.\<close>

definition links :: "u64 \<Rightarrow> bool" where
  "links e \<longleftrightarrow> page_is_present e \<and> e AND PAGE_HUGE = 0"

fun descend :: "vm_state \<Rightarrow> u64 \<Rightarrow> u64 list \<Rightarrow> u64 option" where
  "descend s t [] = Some t"
| "descend s t (i # is) =
     (let e = load_u64 (vm_mem s) (entry_addr t i) in
      if links e then descend s (page_table_physical_to_virtual s (e AND PAGE_TABLE_ADDRESS_MASK)) is
      else None)"

text \<open>Paths that lead to tables, and the entry at the end of a path.\<close>

definition table_path :: "u64 list \<Rightarrow> bool" where
  "table_path p \<longleftrightarrow> length p \<le> 3 \<and> (\<forall>i \<in> set p. i < 512)"

definition pte :: "vm_state \<Rightarrow> u64 \<Rightarrow> u64 list \<Rightarrow> u64" where
  "pte s root p =
     (if p = [] \<or> \<not> table_path (butlast p) \<or> \<not> last p < 512 then 0
      else case descend s root (butlast p) of
             None \<Rightarrow> 0
           | Some t \<Rightarrow> load_u64 (vm_mem s) (entry_addr t (last p)))"

definition table_frame :: "vm_state \<Rightarrow> u64 \<Rightarrow> u64" where
  "table_frame s t = (t - hhdm_offset s) div 4096"

text \<open>
  The invariant: the manager's own invariant holds; the direct map is page aligned; the
  top-level entries never have the large-page bit, which the processor requires to be 0 there;
  and the tables form a tree of frames that are in use.
\<close>

definition vm_ok :: "vm_state \<Rightarrow> u64 \<Rightarrow> bool" where
  "vm_ok s root \<longleftrightarrow>
     pmm_inv (vm_pmm s) \<and> aligned 4096 (hhdm_offset s) \<and> aligned 4096 root \<and>
     (\<forall>i < 512. page_is_present (pte s root [i]) \<longrightarrow> links (pte s root [i])) \<and>
     (\<forall>p t. table_path p \<longrightarrow> descend s root p = Some t \<longrightarrow>
        t \<noteq> 0 \<and> table_frame s t \<notin> free_set (vm_pmm s)) \<and>
     (\<forall>p q t. table_path p \<longrightarrow> table_path q \<longrightarrow> descend s root p = Some t \<longrightarrow>
        descend s root q = Some t \<longrightarrow> p = q)"

lemma table_path_simps [simp]:
  "table_path []"
  "table_path (i # p) \<longleftrightarrow> i < 512 \<and> length p < 3 \<and> table_path p"
  "table_path (p @ q) \<longleftrightarrow> length p + length q \<le> 3 \<and> table_path p \<and> table_path q"
  by (auto simp: table_path_def)

lemma pte_snoc:
  "pte s root (p @ [i]) =
     (if table_path p \<and> i < 512
      then (case descend s root p of None \<Rightarrow> 0 | Some t \<Rightarrow> load_u64 (vm_mem s) (entry_addr t i))
      else 0)"
  by (cases "descend s root p") (simp_all add: pte_def)

lemma pte_empty: "pte s root [] = 0"
  by (simp add: pte_def)

lemma descend_append:
  "descend s t (p @ q) = Option.bind (descend s t p) (\<lambda>u. descend s u q)"
  by (induction p arbitrary: t) (simp_all add: Let_def)

lemma descend_aligned:
  assumes "aligned 4096 (hhdm_offset s)" "aligned 4096 root" "descend s root p = Some t"
  shows "aligned 4096 t"
  using assms(2,3)
proof (induction p arbitrary: root)
  case (Cons i p)
  have "aligned 4096 (page_table_physical_to_virtual s (e AND PAGE_TABLE_ADDRESS_MASK))" for e
    unfolding page_table_physical_to_virtual_def
    by (rule aligned_add) (simp_all add: aligned_page_address assms(1))
  then show ?case using Cons by (auto simp: Let_def split: if_splits)
qed simp

lemma vm_ok_table:
  assumes "vm_ok s root" "table_path p" "descend s root p = Some t"
  shows "t \<noteq> 0" "aligned 4096 t" "table_frame s t \<notin> free_set (vm_pmm s)"
  using assms descend_aligned [of s root p t] by (auto simp: vm_ok_def)

lemma vm_ok_tree:
  assumes "vm_ok s root" "table_path p" "table_path q" "descend s root p = Some t"
    "descend s root q = Some t"
  shows "p = q"
  using assms unfolding vm_ok_def by blast

text \<open>
  A change of memory that leaves every entry but the one at \<open>p @ [i]\<close> alone keeps every table whose
  path does not run through this entry.
\<close>

definition touches_only :: "vm_state \<Rightarrow> vm_state \<Rightarrow> u64 \<Rightarrow> u64 list \<Rightarrow> u64 \<Rightarrow> bool" where
  "touches_only s s' root p i \<longleftrightarrow>
     hhdm_offset s' = hhdm_offset s \<and>
     (\<forall>q u j. table_path q \<longrightarrow> descend s root q = Some u \<longrightarrow> j < 512 \<longrightarrow> (q, j) \<noteq> (p, i) \<longrightarrow>
        load_u64 (vm_mem s') (entry_addr u j) = load_u64 (vm_mem s) (entry_addr u j))"

lemma descend_touches_only:
  assumes "touches_only s s' root p i" "table_path q" "\<nexists>r. q = p @ i # r"
  shows "descend s' root q = descend s root q"
  using assms(2,3)
proof (induction q rule: rev_induct)
  case (snoc j q)
  have "\<nexists>r. q = p @ i # r" using snoc.prems(2) by auto
  then have IH: "descend s' root q = descend s root q" using snoc by simp
  show ?case
  proof (cases "descend s root q")
    case (Some u)
    have "(q, j) \<noteq> (p, i)" using snoc.prems(2) by auto
    then have "load_u64 (vm_mem s') (entry_addr u j) = load_u64 (vm_mem s) (entry_addr u j)"
      using assms(1) snoc.prems(1) Some by (auto simp: touches_only_def)
    then show ?thesis using IH Some assms(1)
      by (simp add: descend_append Let_def touches_only_def page_table_physical_to_virtual_def)
  qed (simp add: IH descend_append)
qed simp

lemma pte_touches_only:
  assumes "touches_only s s' root p i" "table_path q" "j < 512"
    "\<nexists>r. q @ [j] = p @ i # r"
  shows "pte s' root (q @ [j]) = pte s root (q @ [j])"
proof -
  have "\<nexists>r. q = p @ i # r" using assms(4) by auto
  then have d: "descend s' root q = descend s root q"
    by (rule descend_touches_only [OF assms(1,2)])
  have "(q, j) \<noteq> (p, i)" using assms(4) by auto
  with assms d show ?thesis
    by (auto simp: pte_snoc touches_only_def split: option.splits)
qed

text \<open>Writing a leaf entry.\<close>

lemma touches_store:
  assumes ok: "vm_ok s root" and p: "table_path p" "i < 512" "descend s root p = Some t"
  shows "touches_only s (s\<lparr>vm_mem := store_u64 (entry_addr t i) v (vm_mem s)\<rparr>) root p i"
  unfolding touches_only_def
proof (intro conjI allI impI)
  fix q u j
  assume q: "table_path q" "descend s root q = Some u" "j < 512" "(q, j) \<noteq> (p, i)"
  note t = vm_ok_table [OF ok p(1,3)] and u = vm_ok_table [OF ok q(1,2)]
  have "entry_addr u j \<noteq> entry_addr t i"
    using vm_ok_tree [OF ok p(1) q(1) p(3)] q t u p(2) by (auto simp: entry_addr_inj)
  then show "load_u64 (vm_mem (s\<lparr>vm_mem := store_u64 (entry_addr t i) v (vm_mem s)\<rparr>))
      (entry_addr u j) = load_u64 (vm_mem s) (entry_addr u j)"
    using t u q p(2) by (simp add: load_store_aligned entry_addr_aligned)
qed simp

lemma no_deeper: "table_path q \<Longrightarrow> length p = 3 \<Longrightarrow> \<nexists>r. q = p @ i # r"
  by (auto simp: table_path_def)

lemma vm_ok_cong:
  assumes "vm_ok s root" "pmm_inv (vm_pmm s')" "free_set (vm_pmm s') \<subseteq> free_set (vm_pmm s)"
    "hhdm_offset s' = hhdm_offset s"
    "\<And>q. table_path q \<Longrightarrow> descend s' root q = descend s root q"
    "\<And>i. i < 512 \<Longrightarrow> page_is_present (pte s' root [i]) \<Longrightarrow> links (pte s' root [i])"
  shows "vm_ok s' root"
  unfolding vm_ok_def
proof (intro conjI allI impI)
  fix p t assume p: "table_path p" "descend s' root p = Some t"
  then have "descend s root p = Some t" using assms(5) by simp
  from vm_ok_table [OF assms(1) p(1) this] assms(3,4)
  show "t \<noteq> 0" "table_frame s' t \<notin> free_set (vm_pmm s')"
    by (auto simp: table_frame_def)
next
  fix p q t assume "table_path p" "table_path q" "descend s' root p = Some t" "descend s' root q = Some t"
  with assms(5) show "p = q" using vm_ok_tree [OF assms(1)] by metis
qed (use assms in \<open>auto simp: vm_ok_def\<close>)

lemma store_leaf:
  assumes ok: "vm_ok s root" and p: "table_path p" "i < 512" "descend s root p = Some t"
    and l: "length p = 3" and s': "s' = s\<lparr>vm_mem := store_u64 (entry_addr t i) v (vm_mem s)\<rparr>"
  shows "vm_ok s' root" and "pte s' root = (pte s root)(p @ [i] := v)"
proof -
  have t: "touches_only s s' root p i"
    unfolding s' by (rule touches_store [OF ok p])
  have d: "descend s' root q = descend s root q" if "table_path q" for q
    by (rule descend_touches_only [OF t that no_deeper [OF that l]])
  have other: "pte s' root q = pte s root q" if "q \<noteq> p @ [i]" for q
  proof (cases "q = [] \<or> \<not> table_path (butlast q) \<or> \<not> last q < 512")
    case False
    have "\<nexists>r. butlast q @ [last q] = p @ i # r"
    proof
      assume "\<exists>r. butlast q @ [last q] = p @ i # r"
      then obtain r where r: "q = p @ i # r" using False by auto
      with that l have "r \<noteq> []" by auto
      with r l False show False by (simp add: butlast_append table_path_def)
    qed
    then show ?thesis
      using pte_touches_only [OF t, of "butlast q" "last q"] False by simp
  qed (auto simp: pte_def)
  moreover have "pte s' root (p @ [i]) = v"
    using p d by (simp add: pte_snoc s' load_store_same)
  ultimately show "pte s' root = (pte s root)(p @ [i] := v)" by auto
  show "vm_ok s' root"
  proof (rule vm_ok_cong [OF ok])
    fix j :: u64 assume "j < 512" "page_is_present (pte s' root [j])"
    moreover have "pte s' root [j] = pte s root [j]" using other [of "[j]"] l by (cases p) auto
    ultimately show "links (pte s' root [j])" using ok by (simp add: vm_ok_def)
  qed (use ok d in \<open>auto simp: vm_ok_def s'\<close>)
qed

text \<open>Linking a fresh, cleared table below an entry that is not present.\<close>

definition table_link :: "u64 \<Rightarrow> u64" where
  "table_link physical_page = physical_page OR PAGE_PRESENT OR PAGE_WRITABLE"

lemma bit_small_page:
  assumes "unat f < 1048576" "bit (f * PMM_PAGE_SIZE) n"
  shows "12 \<le> n \<and> n < 52"
proof -
  have "f * PMM_PAGE_SIZE = push_bit 12 f" by (simp add: PMM_PAGE_SIZE_def push_bit_eq_mult)
  with assms(2) have n: "12 \<le> n" "bit f (n - 12)" by (simp_all add: bit_push_bit_iff)
  have "take_bit 20 f = f" 
    using assms(1) by (simp add: u64_eq_iff_unat unsigned_take_bit_eq take_bit_nat_eq_self)
  with n(2) have "n - 12 < 20" by (metis bit_take_bit_iff)
  with n show ?thesis by simp
qed

lemma bit_small_flags:
  "bit PAGE_PRESENT n \<longleftrightarrow> n = 0" "bit PAGE_WRITABLE n \<longleftrightarrow> n = 1"
  "bit PAGE_USER n \<longleftrightarrow> n = 2" "bit PAGE_HUGE n \<longleftrightarrow> n = 7"
proof -
  have p: "PAGE_PRESENT = 2 ^ 0" and w: "PAGE_WRITABLE = 2 ^ 1" and u: "PAGE_USER = 2 ^ 2"
    and h: "PAGE_HUGE = 2 ^ 7"
    by (simp_all add: PAGE_PRESENT_def PAGE_WRITABLE_def PAGE_USER_def PAGE_HUGE_def)
  show "bit PAGE_PRESENT n \<longleftrightarrow> n = 0" unfolding p bit_exp_iff possible_bit_word by auto
  show "bit PAGE_WRITABLE n \<longleftrightarrow> n = 1" unfolding w bit_exp_iff possible_bit_word by auto
  show "bit PAGE_USER n \<longleftrightarrow> n = 2" unfolding u bit_exp_iff possible_bit_word by auto
  show "bit PAGE_HUGE n \<longleftrightarrow> n = 7" unfolding h bit_exp_iff possible_bit_word by auto
qed

lemma flag_test:
  "page_is_present e \<longleftrightarrow> bit e 0" "e AND PAGE_HUGE = 0 \<longleftrightarrow> \<not> bit e 7"
  "links e \<longleftrightarrow> bit e 0 \<and> \<not> bit e 7"
proof -
  have p: "PAGE_PRESENT = 2 ^ 0" and h: "PAGE_HUGE = 2 ^ 7"
    by (simp_all add: PAGE_PRESENT_def PAGE_HUGE_def)
  show a: "page_is_present e \<longleftrightarrow> bit e 0"
    unfolding page_is_present_def p by (simp only: and_exp_eq_0_iff_not_bit not_not)
  show b: "e AND PAGE_HUGE = 0 \<longleftrightarrow> \<not> bit e 7"
    unfolding h by (simp only: and_exp_eq_0_iff_not_bit)
  show "links e \<longleftrightarrow> bit e 0 \<and> \<not> bit e 7" by (simp add: links_def a b)
qed

lemma table_link:
  assumes "unat f < 1048576"
  shows "links (table_link (f * PMM_PAGE_SIZE))"
    and "table_link (f * PMM_PAGE_SIZE) AND PAGE_TABLE_ADDRESS_MASK = f * PMM_PAGE_SIZE"
proof -
  note b = bit_small_page [OF assms]
  show "links (table_link (f * PMM_PAGE_SIZE))"
    using b [of 0] b [of 7] by (auto simp: flag_test table_link_def bit_or_iff bit_small_flags)
  show "table_link (f * PMM_PAGE_SIZE) AND PAGE_TABLE_ADDRESS_MASK = f * PMM_PAGE_SIZE"
    by (rule bit_eqI) (auto simp: table_link_def bit_or_iff bit_and_iff bit_small_flags dest: b)
qed

lemma not_linked_below:
  assumes "descend s root p = Some t" "\<not> links (load_u64 (vm_mem s) (entry_addr t i))"
  shows "descend s root (p @ i # r) = None"
  using assms by (simp add: descend_append)

lemma zero_not_linked [simp]: "\<not> links 0" "\<not> page_is_present 0"
  by (simp_all add: flag_test)

text \<open>The state after \<open>ensure_next_table\<close> has created a table in the free frame \<open>f\<close>.\<close>

definition with_new_table :: "u64 \<Rightarrow> u64 \<Rightarrow> u64 \<Rightarrow> pmm_state \<Rightarrow> vm_state \<Rightarrow> vm_state" where
  "with_new_table t i f pmm s =
     s\<lparr>vm_pmm := pmm,
       vm_mem := store_u64 (entry_addr t i) (table_link (f * PMM_PAGE_SIZE))
                   (k_memset (f * PMM_PAGE_SIZE + hhdm_offset s) 0 PAGE_SIZE (vm_mem s))\<rparr>"

lemma aligned_frame:
  assumes "unat f < 1048576" shows "aligned 4096 (f * PMM_PAGE_SIZE)"
proof -
  have "unat (f * PMM_PAGE_SIZE) = unat f * 4096"
    using assms by (simp add: PMM_PAGE_SIZE_def unat_mult_no_wrap)
  then show ?thesis by (simp add: aligned_dvd)
qed

lemma table_frame_new:
  assumes "unat f < 1048576" shows "table_frame s (f * PMM_PAGE_SIZE + hhdm_offset s) = f"
  using pmm_address_to_page_of_page [OF assms]
  by (simp add: table_frame_def pmm_address_to_page_def PMM_PAGE_SIZE_def)

lemma touches_new_table:
  assumes ok: "vm_ok s root" and p: "table_path p" "i < 512" "descend s root p = Some t"
    and f: "f \<in> free_set (vm_pmm s)" "unat f < 1048576"
  shows "touches_only s (with_new_table t i f pmm s) root p i"
  unfolding touches_only_def
proof (intro conjI allI impI)
  fix q u j
  assume q: "table_path q" "descend s root q = Some u" "j < 512" "(q, j) \<noteq> (p, i)"
  let ?new = "f * PMM_PAGE_SIZE + hhdm_offset s"
  note t = vm_ok_table [OF ok p(1,3)] and u = vm_ok_table [OF ok q(1,2)]
  have new: "aligned 4096 ?new"
    using ok f(2) by (intro aligned_add) (simp_all add: vm_ok_def aligned_frame)
  have "u \<noteq> ?new" using u(3) f table_frame_new [OF f(2), of s] by auto
  moreover have "entry_addr u j \<noteq> entry_addr t i"
    using vm_ok_tree [OF ok p(1) q(1) p(3)] q t u p(2) by (auto simp: entry_addr_inj)
  ultimately show "load_u64 (vm_mem (with_new_table t i f pmm s)) (entry_addr u j) =
      load_u64 (vm_mem s) (entry_addr u j)"
    using t u q p(2) new
    by (simp add: with_new_table_def load_store_aligned entry_addr_aligned load_memset_page)
qed (simp add: with_new_table_def)

lemma new_table_descend:
  assumes ok: "vm_ok s root" and p: "table_path p" "i < 512" "descend s root p = Some t"
    and f: "f \<in> free_set (vm_pmm s)" "unat f < 1048576"
    and s'_def: "s' = with_new_table t i f pmm s"
    and new_def: "new = f * PMM_PAGE_SIZE + hhdm_offset s"
  shows "descend s' root (p @ [i]) = Some new"
    and "j < 512 \<Longrightarrow> load_u64 (vm_mem s') (entry_addr new j) = 0"
    and "j < 512 \<Longrightarrow> descend s' root (p @ i # j # r) = None"
    and "load_u64 (vm_mem s') (entry_addr t i) = table_link (f * PMM_PAGE_SIZE)"
proof -
  have t: "touches_only s s' root p i"
    unfolding s'_def by (rule touches_new_table [OF ok p f])
  have "descend s' root p = Some t"
    using descend_touches_only [OF t p(1)] p(3) by auto
  moreover show e: "load_u64 (vm_mem s') (entry_addr t i) = table_link (f * PMM_PAGE_SIZE)"
    by (simp add: s'_def with_new_table_def load_store_same)
  ultimately show d: "descend s' root (p @ [i]) = Some new"
    using table_link [OF f(2)]
    by (simp add: descend_append page_table_physical_to_virtual_def new_def s'_def with_new_table_def)
  have "t \<noteq> new"
    using vm_ok_table(3) [OF ok p(1,3)] f table_frame_new [OF f(2), of s] by (auto simp: new_def)
  moreover have "aligned 4096 new"
    using ok f(2) unfolding new_def by (intro aligned_add) (simp_all add: vm_ok_def aligned_frame)
  ultimately show z: "load_u64 (vm_mem s') (entry_addr new j) = 0" if "j < 512" for j
    using that vm_ok_table(2) [OF ok p(1,3)] p(2)
    by (simp add: s'_def with_new_table_def load_store_aligned entry_addr_aligned entry_addr_inj
        load_memset_page flip: new_def)
  show "descend s' root (p @ i # j # r) = None" if "j < 512" for j
    using not_linked_below [OF d, of j r] z [OF that] by simp
qed

lemma new_table_pte:
  assumes ok: "vm_ok s root" and p: "table_path p" "i < 512" "descend s root p = Some t"
    and l: "length p < 3" and np: "\<not> page_is_present (load_u64 (vm_mem s) (entry_addr t i))"
    and f: "f \<in> free_set (vm_pmm s)" "unat f < 1048576"
    and s': "s' = with_new_table t i f pmm s"
  shows "pte s' root = (pte s root)(p @ [i] := table_link (f * PMM_PAGE_SIZE))"
proof
  fix q
  note new = new_table_descend [OF ok p f s' refl]
  have t: "touches_only s s' root p i" unfolding s' by (rule touches_new_table [OF ok p f])
  show "pte s' root q = ((pte s root)(p @ [i] := table_link (f * PMM_PAGE_SIZE))) q"
  proof (cases "q = [] \<or> \<not> table_path (butlast q) \<or> \<not> last q < 512")
    case False
    define q' j where q': "q' = butlast q" and j: "j = last q"
    then have q: "q = q' @ [j]" "table_path q'" "j < 512" using False by auto
    show ?thesis
    proof (cases "\<exists>r. q' @ [j] = p @ i # r")
      case False
      then show ?thesis using pte_touches_only [OF t q(2,3)] q(1) by auto
    next
      case True
      then obtain r where r: "q' @ [j] = p @ i # r" by blast
      show ?thesis
      proof (cases r rule: rev_cases)
        case Nil
        then have "q' = p" "j = i" using r by auto
        moreover have "descend s' root p = Some t"
          using descend_touches_only [OF t p(1)] p(3) by auto
        ultimately show ?thesis using q new(4) p by (simp add: pte_snoc)
      next
        case (snoc r' k)
        then have q': "q' = p @ i # r'" "j = k" using r by auto
        have old: "descend s root q' = None"
          unfolding q' by (rule not_linked_below [OF p(3)]) (use np in \<open>simp add: links_def\<close>)
        have "(case descend s' root q' of None \<Rightarrow> 0
               | Some u \<Rightarrow> load_u64 (vm_mem s') (entry_addr u j)) = 0"
          using q' q new(1,2) new(3) [of _ "tl r'"] by (cases r') auto
        then have "pte s' root q = 0" unfolding q(1) pte_snoc by simp
        moreover have "pte s root q = 0" unfolding q(1) pte_snoc by (simp add: old)
        moreover have "q \<noteq> p @ [i]" using q(1) q' by simp
        ultimately show ?thesis by simp
      qed
    qed
  qed (use p in \<open>auto simp: pte_def\<close>)
qed

lemma new_table_ok:
  assumes ok: "vm_ok s root" and p: "table_path p" "i < 512" "descend s root p = Some t"
    and l: "length p < 3" and np: "\<not> page_is_present (load_u64 (vm_mem s) (entry_addr t i))"
    and f: "f \<in> free_set (vm_pmm s)" "unat f < 1048576"
    and pmm: "pmm_inv pmm" "free_set pmm = free_set (vm_pmm s) - {f}"
    and nz: "f * PMM_PAGE_SIZE + hhdm_offset s \<noteq> 0"
    and s': "s' = with_new_table t i f pmm s"
  shows "vm_ok s' root"
proof -
  let ?new = "f * PMM_PAGE_SIZE + hhdm_offset s"
  note new = new_table_descend [OF ok p f s' refl]
  have t: "touches_only s s' root p i" unfolding s' by (rule touches_new_table [OF ok p f])
  have fields: "vm_pmm s' = pmm" "hhdm_offset s' = hhdm_offset s"
    by (simp_all add: s' with_new_table_def)
  have cases: "q = p @ [i] \<and> u = ?new \<or> q \<noteq> p @ [i] \<and> descend s root q = Some u"
    if q: "table_path q" "descend s' root q = Some u" for q u
  proof (cases "\<exists>r. q = p @ i # r")
    case True
    then obtain r where "q = p @ i # r" by blast
    then show ?thesis using q new(1) new(3) [of "hd r" "tl r"] by (cases r) auto
  next
    case False
    then show ?thesis using descend_touches_only [OF t q(1)] q(2) by auto
  qed
  have frames: "u \<noteq> 0 \<and> table_frame s u \<notin> free_set pmm \<and> (q \<noteq> p @ [i] \<longrightarrow> u \<noteq> ?new)"
    if q: "table_path q" "descend s' root q = Some u" for q u
    using cases [OF q] vm_ok_table [OF ok q(1)] nz pmm(2) f table_frame_new [OF f(2), of s] by auto
  have top: "links (pte s' root [j])" if "j < 512" "page_is_present (pte s' root [j])" for j
    using that ok new_table_pte [OF ok p l np f s'] table_link [OF f(2)]
    by (auto simp: vm_ok_def)
  show ?thesis
    unfolding vm_ok_def
  proof (intro conjI allI impI)
    fix q u assume "table_path q" "descend s' root q = Some u"
    from frames [OF this] show "u \<noteq> 0" "table_frame s' u \<notin> free_set (vm_pmm s')"
      by (simp_all add: fields table_frame_def)
  next
    fix q r u assume q: "table_path q" "table_path r" "descend s' root q = Some u"
      "descend s' root r = Some u"
    show "q = r"
      using cases [OF q(1,3)] cases [OF q(2,4)] frames [OF q(1,3)] frames [OF q(2,4)]
        vm_ok_tree [OF ok q(1,2)] by auto
  qed (use ok pmm top in \<open>auto simp: fields vm_ok_def\<close>)
qed

section \<open>Walking and growing the tree\<close>

definition same_regs :: "vm_state \<Rightarrow> vm_state \<Rightarrow> bool" where
  "same_regs s s' \<longleftrightarrow>
     hhdm_offset s' = hhdm_offset s \<and> hhdm_ready s' = hhdm_ready s \<and>
     active_pml4_physical s' = active_pml4_physical s \<and> kernel_pml4 s' = kernel_pml4 s \<and>
     kernel_pml4_physical s' = kernel_pml4_physical s \<and> cr3 s' = cr3 s \<and>
     invalidated s' = invalidated s"

text \<open>The address space grows by links to tables only, where nothing was present.\<close>

definition extends :: "(u64 list \<Rightarrow> u64) \<Rightarrow> (u64 list \<Rightarrow> u64) \<Rightarrow> bool" where
  "extends A A' \<longleftrightarrow>
     (\<forall>p. A' p = A p \<or> length p \<le> 3 \<and> \<not> page_is_present (A p) \<and> links (A' p))"

text \<open>
  A page that is in use and is not a table: the operations on the tables neither write to it nor
  turn it into a table.
\<close>

definition data_page :: "vm_state \<Rightarrow> u64 \<Rightarrow> u64 \<Rightarrow> bool" where
  "data_page s root u \<longleftrightarrow>
     aligned 4096 u \<and> table_frame s u \<notin> free_set (vm_pmm s) \<and>
     (\<forall>p. table_path p \<longrightarrow> descend s root p \<noteq> Some u)"

definition same_bytes :: "u64 \<Rightarrow> vm_state \<Rightarrow> vm_state \<Rightarrow> bool" where
  "same_bytes u s s' \<longleftrightarrow> (\<forall>x. x - u < PAGE_SIZE \<longrightarrow> vm_mem s' x = vm_mem s x)"

definition keeps_data :: "u64 \<Rightarrow> vm_state \<Rightarrow> vm_state \<Rightarrow> bool" where
  "keeps_data root s s' \<longleftrightarrow>
     (\<forall>u. data_page s root u \<longrightarrow> data_page s' root u \<and> same_bytes u s s')"

text \<open>The frames that are taken become tables of the tree: none is lost.\<close>

definition taken_as_tables :: "u64 \<Rightarrow> vm_state \<Rightarrow> vm_state \<Rightarrow> bool" where
  "taken_as_tables root s s' \<longleftrightarrow>
     (\<forall>f \<in> free_set (vm_pmm s) - free_set (vm_pmm s').
        \<exists>p t. table_path p \<and> descend s' root p = Some t \<and> table_frame s' t = f)"

definition grown :: "u64 \<Rightarrow> nat \<Rightarrow> vm_state \<Rightarrow> vm_state \<Rightarrow> bool" where
  "grown root n s s' \<longleftrightarrow>
     vm_ok s' root \<and> same_regs s s' \<and> extends (pte s root) (pte s' root) \<and> keeps_data root s s' \<and>
     taken_as_tables root s s' \<and> free_set (vm_pmm s') \<subseteq> free_set (vm_pmm s) \<and>
     total_pages (vm_pmm s') = total_pages (vm_pmm s) \<and>
     card (free_set (vm_pmm s)) \<le> card (free_set (vm_pmm s')) + n"

lemma extends_refl [simp]: "extends A A"
  by (simp add: extends_def)

lemma extends_trans: "extends A B \<Longrightarrow> extends B C \<Longrightarrow> extends A C"
  unfolding extends_def links_def by metis

lemma keeps_data_refl: "keeps_data root s s"
  by (simp add: keeps_data_def same_bytes_def)

lemma keeps_data_trans: "keeps_data root s s' \<Longrightarrow> keeps_data root s' s'' \<Longrightarrow> keeps_data root s s''"
  unfolding keeps_data_def same_bytes_def by metis

lemma grown_refl: "vm_ok s root \<Longrightarrow> grown root n s s"
  by (simp add: grown_def same_regs_def keeps_data_refl taken_as_tables_def)

lemma descend_extends:
  assumes "extends (pte s root) (pte s' root)" "hhdm_offset s' = hhdm_offset s" "table_path p" "descend s root p = Some t"
  shows "descend s' root p = Some t"
  using assms(3,4)
proof (induction p arbitrary: t rule: rev_induct)
  case (snoc i p)
  then have p: "table_path p" "i < 512" by (auto simp: table_path_def)
  obtain u where u: "descend s root p = Some u" "links (load_u64 (vm_mem s) (entry_addr u i))"
    "t = page_table_physical_to_virtual s (load_u64 (vm_mem s) (entry_addr u i) AND PAGE_TABLE_ADDRESS_MASK)"
    using snoc.prems(2) by (cases "descend s root p") (auto simp: descend_append Let_def split: if_splits)
  have u': "descend s' root p = Some u" by (rule snoc.IH [OF p(1) u(1)])
  have "pte s root (p @ [i]) = load_u64 (vm_mem s) (entry_addr u i)" using u p by (simp add: pte_snoc)
  then have "pte s' root (p @ [i]) = pte s root (p @ [i])"
    using assms(1) u(2) unfolding extends_def links_def by metis
  then have "load_u64 (vm_mem s') (entry_addr u i) = load_u64 (vm_mem s) (entry_addr u i)"
    using u u' p by (simp add: pte_snoc)
  then show ?case using u u' assms(2) by (simp add: descend_append page_table_physical_to_virtual_def)
qed simp

lemma taken_as_tables_trans:
  assumes "taken_as_tables root s s'" "taken_as_tables root s' s''" "extends (pte s' root) (pte s'' root)"
    "hhdm_offset s'' = hhdm_offset s'"
  shows "taken_as_tables root s s''"
  unfolding taken_as_tables_def
proof
  fix f assume f: "f \<in> free_set (vm_pmm s) - free_set (vm_pmm s'')"
  show "\<exists>p t. table_path p \<and> descend s'' root p = Some t \<and> table_frame s'' t = f"
  proof (cases "f \<in> free_set (vm_pmm s')")
    case True
    then show ?thesis using assms(2) f by (simp add: taken_as_tables_def)
  next
    case False
    then obtain p t where "table_path p" "descend s' root p = Some t" "table_frame s' t = f"
      using assms(1) f unfolding taken_as_tables_def by blast
    then show ?thesis using descend_extends [OF assms(3,4)] assms(4) by (auto simp: table_frame_def)
  qed
qed

lemma grown_trans: "grown root m s s' \<Longrightarrow> grown root n s' s'' \<Longrightarrow> grown root (m + n) s s''"
  unfolding grown_def using extends_trans [of "pte s root" "pte s' root" "pte s'' root"]
    keeps_data_trans [of root s s' s''] taken_as_tables_trans [of root s s' s'']
  by (auto simp: same_regs_def)

lemma grown_mono: "grown root m s s' \<Longrightarrow> m \<le> n \<Longrightarrow> grown root n s s'"
  by (auto simp: grown_def)

text \<open>A frame that the direct map would place at address 0.\<close>

definition null_frame :: "vm_state \<Rightarrow> bool" where
  "null_frame s \<longleftrightarrow> (\<exists>f \<in> free_set (vm_pmm s). f * PMM_PAGE_SIZE + hhdm_offset s = 0)"

lemma alloc_frame_address:
  assumes inv: "pmm_inv pmm" and al: "pmm_alloc_page pmm = (a, pmm')" and nz: "a \<noteq> 0"
  obtains f where "f \<in> free_set pmm" "unat f < 1048576" "a = f * PMM_PAGE_SIZE" "pmm_inv pmm'"
    "free_set pmm' = free_set pmm - {f}" "total_pages pmm' = total_pages pmm" "f \<noteq> 0"
proof -
  have ne: "free_set pmm \<noteq> {}" using pa.alloc_empty [OF inv] al nz by auto
  obtain f where f: "f \<in> free_set pmm" "unat a = unat f * 4096" "free_set pmm' = free_set pmm - {f}"
    and inv': "pmm_inv pmm'" "total_pages pmm' = total_pages pmm"
    using pa.alloc_frame [OF inv ne al] by blast
  have lt: "unat f < 1048576"
    using f(1) pmm_inv_total [OF inv] by (simp add: free_set_iff word_less_nat_alt)
  have "a = f * PMM_PAGE_SIZE"
    using f(2) lt by (simp add: u64_eq_iff_unat PMM_PAGE_SIZE_def unat_mult_no_wrap)
  moreover have "f \<noteq> 0" using f(1) inv by (auto simp: pmm_inv_def)
  ultimately show thesis using that f lt inv' by blast
qed

lemma alloc_null:
  assumes "pmm_inv pmm" "pmm_alloc_page pmm = (0, pmm')"
  shows "free_set pmm = {} \<and> pmm' = pmm"
proof (cases "free_set pmm = {}")
  case True
  then show ?thesis using pa.alloc_empty [OF assms(1)] assms(2) by auto
next
  case False
  then show ?thesis using pa.alloc_frame [OF assms(1) False assms(2)] by blast
qed

lemma free_frame_again:
  assumes inv: "pmm_inv pmm" "pmm_inv pmm'" and f: "f \<in> free_set pmm" "unat f < 1048576" "f \<noteq> 0"
    and pmm': "free_set pmm' = free_set pmm - {f}" "total_pages pmm' = total_pages pmm"
  shows "pmm_inv (pmm_free_page (f * PMM_PAGE_SIZE) pmm')"
    and "free_set (pmm_free_page (f * PMM_PAGE_SIZE) pmm') = free_set pmm"
    and "total_pages (pmm_free_page (f * PMM_PAGE_SIZE) pmm') = total_pages pmm"
proof -
  have "unat (f * PMM_PAGE_SIZE) = unat f * 4096"
    using f(2) by (simp add: PMM_PAGE_SIZE_def unat_mult_no_wrap)
  moreover have "f < total_pages pmm'" using f(1) pmm'(2) by (simp add: free_set_iff)
  ultimately have "pmm_inv (pmm_free_page (f * PMM_PAGE_SIZE) pmm') \<and>
      free_set (pmm_free_page (f * PMM_PAGE_SIZE) pmm') = insert f (free_set pmm')"
    using pa.free_frame [OF inv(2) _ f(3)] by blast
  then show "pmm_inv (pmm_free_page (f * PMM_PAGE_SIZE) pmm')"
    "free_set (pmm_free_page (f * PMM_PAGE_SIZE) pmm') = free_set pmm"
    using f(1) pmm'(1) by auto
  show "total_pages (pmm_free_page (f * PMM_PAGE_SIZE) pmm') = total_pages pmm"
    using pmm_free_page(2) [OF inv(2)] pmm'(2) by simp
qed

lemma vm_ok_pmm:
  assumes "vm_ok s root" "pmm_inv pmm" "free_set pmm \<subseteq> free_set (vm_pmm s)"
  shows "vm_ok (s\<lparr>vm_pmm := pmm\<rparr>) root" and "pte (s\<lparr>vm_pmm := pmm\<rparr>) root = pte s root"
    and "keeps_data root s (s\<lparr>vm_pmm := pmm\<rparr>)"
proof -
  have d: "descend (s\<lparr>vm_pmm := pmm\<rparr>) t q = descend s t q" for t q
    by (induction q arbitrary: t) (simp_all add: Let_def page_table_physical_to_virtual_def)
  show p: "pte (s\<lparr>vm_pmm := pmm\<rparr>) root = pte s root"
    by (rule ext) (simp add: pte_def d split: option.split)
  show "vm_ok (s\<lparr>vm_pmm := pmm\<rparr>) root"
    by (rule vm_ok_cong [OF assms(1)]) (use assms d p in \<open>auto simp: vm_ok_def\<close>)
  show "keeps_data root s (s\<lparr>vm_pmm := pmm\<rparr>)"
    using assms(3) by (auto simp: keeps_data_def data_page_def same_bytes_def d table_frame_def)
qed

text \<open>Aligned pages do not overlap.\<close>

lemma pages_disjoint:
  assumes "aligned 4096 t" "aligned 4096 u" "x - t < PAGE_SIZE" "x - u < PAGE_SIZE"
  shows "t = u"
proof -
  obtain k where k: "unat t = 4096 * k" "k < 4503599627370496" using assms(1) by (rule aligned_pageE)
  obtain l where l: "unat u = 4096 * l" "l < 4503599627370496" using assms(2) by (rule aligned_pageE)
  have "unat (x - t) < 4096" "unat (x - u) < 4096"
    using assms(3,4) by (simp_all add: PAGE_SIZE_def word_less_nat_alt)
  then have "unat t \<le> unat x \<and> unat x < unat t + 4096" "unat u \<le> unat x \<and> unat x < unat u + 4096"
    using k l unat_lt_2p64 [of x] by (auto simp: u64_sub_cases split: if_splits)
  then have "k = l" using k l by linarith
  then show ?thesis using k l by (simp add: u64_eq_iff_unat)
qed

lemma entry_in_page:
  assumes "aligned 4096 t" "i < 512" "x - entry_addr t i < 8"
  shows "x - t < PAGE_SIZE"
proof -
  obtain k where k: "unat t = 4096 * k" "k < 4503599627370496" using assms(1) by (rule aligned_pageE)
  have i: "unat i < 512" using assms(2) by (simp add: word_less_nat_alt)
  have "unat (x - entry_addr t i) < 8" using assms(3) by (simp add: word_less_nat_alt)
  then have "unat t + 8 * unat i \<le> unat x \<and> unat x < unat t + 8 * unat i + 8"
    using entry_addr_unat [OF assms(1,2)] k i unat_lt_2p64 [of x]
    by (auto simp: u64_sub_cases split: if_splits)
  then have "unat t \<le> unat x" "unat x < unat t + 4096" using i by linarith+
  then have "unat (x - t) < 4096" by (simp add: u64_sub_cases)
  then show ?thesis by (simp add: PAGE_SIZE_def word_less_nat_alt)
qed

lemma store_keeps_page:
  assumes "aligned 4096 t" "i < 512" "aligned 4096 u" "u \<noteq> t" "x - u < PAGE_SIZE"
  shows "store_u64 (entry_addr t i) v m x = m x"
  using entry_in_page [OF assms(1,2)] pages_disjoint [OF assms(1,3) _ assms(5)] assms(4)
  by (auto simp: store_u64_def)

lemma memset_keeps_page:
  assumes "aligned 4096 t" "aligned 4096 u" "u \<noteq> t" "x - u < PAGE_SIZE"
  shows "k_memset t c PAGE_SIZE m x = m x"
  using pages_disjoint [OF assms(1,2) _ assms(4)] assms(3) by (auto simp: k_memset_apply)

lemma new_table_keeps_data:
  assumes ok: "vm_ok s root" and p: "table_path p" "i < 512" "descend s root p = Some t"
    and f: "f \<in> free_set (vm_pmm s)" "unat f < 1048576"
    and pmm: "free_set pmm \<subseteq> free_set (vm_pmm s)"
  shows "keeps_data root s (with_new_table t i f pmm s)"
  unfolding keeps_data_def
proof (intro allI impI)
  fix u assume u: "data_page s root u"
  let ?s' = "with_new_table t i f pmm s" and ?new = "f * PMM_PAGE_SIZE + hhdm_offset s"
  note new = new_table_descend [OF ok p f refl refl, where pmm = pmm]
  have t: "touches_only s ?s' root p i" by (rule touches_new_table [OF ok p f])
  have al: "aligned 4096 ?new"
    using ok f(2) by (intro aligned_add) (simp_all add: vm_ok_def aligned_frame)
  have un: "u \<noteq> ?new" using u f table_frame_new [OF f(2), of s] by (auto simp: data_page_def)
  have ut: "u \<noteq> t" using u p by (auto simp: data_page_def)
  have "descend ?s' root q \<noteq> Some u" if q: "table_path q" for q
  proof (cases "\<exists>r. q = p @ i # r")
    case True
    then obtain r where "q = p @ i # r" by blast
    then show ?thesis using q new(1) new(3) [of "hd r" "tl r"] un by (cases r) auto
  next
    case False
    then show ?thesis using descend_touches_only [OF t q] u q by (auto simp: data_page_def)
  qed
  then have "data_page ?s' root u"
    using u pmm by (auto simp: data_page_def with_new_table_def table_frame_def)
  moreover have "same_bytes u s ?s'"
    using store_keeps_page [OF vm_ok_table(2) [OF ok p(1,3)] p(2) _ ut] memset_keeps_page [OF al _ un] u
    by (simp add: same_bytes_def data_page_def with_new_table_def)
  ultimately show "data_page ?s' root u \<and> same_bytes u s ?s'" by simp
qed

lemma grown_pmm:
  assumes "vm_ok s root" "pmm_inv pmm" "free_set pmm = free_set (vm_pmm s)"
    "total_pages pmm = total_pages (vm_pmm s)"
  shows "grown root n s (s\<lparr>vm_pmm := pmm\<rparr>)"
  using vm_ok_pmm [OF assms(1,2)] assms(3,4) by (simp add: grown_def same_regs_def taken_as_tables_def)

lemma grown_new_table:
  assumes ok: "vm_ok s root" and p: "table_path p" "i < 512" "descend s root p = Some t"
    and l: "length p < 3" and np: "\<not> page_is_present (load_u64 (vm_mem s) (entry_addr t i))"
    and f: "f \<in> free_set (vm_pmm s)" "unat f < 1048576"
    and pmm: "pmm_inv pmm" "free_set pmm = free_set (vm_pmm s) - {f}"
      "total_pages pmm = total_pages (vm_pmm s)"
    and nz: "f * PMM_PAGE_SIZE + hhdm_offset s \<noteq> 0"
  shows "grown root 1 s (with_new_table t i f pmm s)"
proof -
  have "\<not> page_is_present (pte s root (p @ [i]))" using np p by (simp add: pte_snoc)
  then have "extends (pte s root) (pte (with_new_table t i f pmm s) root)"
    using new_table_pte [OF ok p l np f refl] table_link [OF f(2)] l by (simp add: extends_def)
  moreover have "card (free_set (vm_pmm s)) \<le> card (free_set pmm) + 1"
    using f(1) pmm(2) by (simp add: card_Suc_Diff1)
  moreover have "taken_as_tables root s (with_new_table t i f pmm s)"
    using new_table_descend(1) [OF ok p f refl refl] p l pmm(2) table_frame_new [OF f(2)]
    by (auto simp: taken_as_tables_def with_new_table_def table_frame_def intro!: exI [of _ "p @ [i]"])
  ultimately show ?thesis
    using new_table_ok [OF ok p l np f pmm(1,2) nz refl] pmm(2,3) new_table_keeps_data [OF ok p f, of pmm]
    by (auto simp: grown_def same_regs_def with_new_table_def)
qed

lemma ensure_next_table_create:
  assumes ok: "vm_ok s root" and p: "table_path p" "i < 512" "descend s root p = Some t"
    and l: "length p < 3"
    and nh: "page_is_present (load_u64 (vm_mem s) (entry_addr t i)) \<Longrightarrow>
             links (load_u64 (vm_mem s) (entry_addr t i))"
    and r: "ensure_next_table t i True ms st s = (nt, st', s')"
  shows "grown root 1 s s'"
    and "nt \<noteq> 0 \<Longrightarrow> st' = st \<and> descend s' root (p @ [i]) = Some nt"
    and "nt = 0 \<Longrightarrow> free_set (vm_pmm s) = {} \<or> null_frame s"
proof -
  let ?e = "load_u64 (vm_mem s) (entry_addr t i)"
  have inv: "pmm_inv (vm_pmm s)" using ok by (simp add: vm_ok_def)
  have t0: "t \<noteq> 0" using vm_ok_table [OF ok p(1,3)] by simp
  have "grown root 1 s s' \<and> (nt \<noteq> 0 \<longrightarrow> st' = st \<and> descend s' root (p @ [i]) = Some nt) \<and>
        (nt = 0 \<longrightarrow> free_set (vm_pmm s) = {} \<or> null_frame s)"
  proof (cases "page_is_present ?e")
    case True
    then have d: "descend s root (p @ [i]) =
        Some (page_table_physical_to_virtual s (?e AND PAGE_TABLE_ADDRESS_MASK))"
      using nh p by (simp add: descend_append)
    have "nt = page_table_physical_to_virtual s (?e AND PAGE_TABLE_ADDRESS_MASK)" "st' = st" "s' = s"
      using r True t0 by (auto simp: ensure_next_table_def Let_def)
    then show ?thesis
      using d grown_refl [OF ok] vm_ok_table(1) [OF ok _ d] p l by simp
  next
    case False
    obtain a pmm where al: "pmm_alloc_page (vm_pmm s) = (a, pmm)" by (cases "pmm_alloc_page (vm_pmm s)")
    show ?thesis
    proof (cases "a = 0")
      case True
      then show ?thesis
        using alloc_null [OF inv] al r \<open>\<not> page_is_present ?e\<close> t0 grown_refl [OF ok]
        by (simp add: ensure_next_table_def Let_def)
    next
      case a: False
      obtain f where f: "f \<in> free_set (vm_pmm s)" "unat f < 1048576" "a = f * PMM_PAGE_SIZE"
        and pmm: "pmm_inv pmm" "free_set pmm = free_set (vm_pmm s) - {f}"
          "total_pages pmm = total_pages (vm_pmm s)" and f0: "f \<noteq> 0"
        by (rule alloc_frame_address [OF inv al a])
      show ?thesis
      proof (cases "a + hhdm_offset s = 0")
        case True
        have "nt = 0" "s' = s\<lparr>vm_pmm := pmm_free_page a pmm\<rparr>"
          using r False t0 al a True
          by (simp_all add: ensure_next_table_def Let_def page_table_physical_to_virtual_def)
        moreover have "grown root 1 s (s\<lparr>vm_pmm := pmm_free_page a pmm\<rparr>)"
          using free_frame_again [OF inv pmm(1) f(1,2) f0 pmm(2,3)] f(3) grown_pmm [OF ok] by simp
        moreover have "null_frame s" using f True by (auto simp: null_frame_def)
        ultimately show ?thesis by simp
      next
        case new: False
        have "nt = a + hhdm_offset s" "st' = st" "s' = with_new_table t i f pmm s"
          using r False t0 al a new f(3)
          by (auto simp: ensure_next_table_def Let_def page_table_physical_to_virtual_def
              with_new_table_def table_link_def)
        then show ?thesis
          using grown_new_table [OF ok p l False f(1,2) pmm] new f(3)
            new_table_descend(1) [OF ok p f(1,2) refl refl] by simp
      qed
    qed
  qed
  then show "grown root 1 s s'"
    and "nt \<noteq> 0 \<Longrightarrow> st' = st \<and> descend s' root (p @ [i]) = Some nt"
    and "nt = 0 \<Longrightarrow> free_set (vm_pmm s) = {} \<or> null_frame s" by blast+
qed

text \<open>The path of a virtual address, and the large pages that block a mapping.\<close>

definition va_path :: "u64 \<Rightarrow> u64 list" where
  "va_path va = [PML4_INDEX va, PDPT_INDEX va, PD_INDEX va, PT_INDEX va]"

definition large_page :: "u64 \<Rightarrow> bool" where
  "large_page e \<longleftrightarrow> page_is_present e \<and> e AND PAGE_HUGE \<noteq> 0"

definition blocked :: "(u64 list \<Rightarrow> u64) \<Rightarrow> u64 \<Rightarrow> bool" where
  "blocked A va \<longleftrightarrow> large_page (A (take 2 (va_path va))) \<or> large_page (A (take 3 (va_path va)))"

lemma links_or_large: "page_is_present e \<longleftrightarrow> links e \<or> large_page e"
  by (auto simp: links_def large_page_def)

lemma extends_large: "extends A A' \<Longrightarrow> large_page (A' p) \<longleftrightarrow> large_page (A p)"
  unfolding extends_def links_def large_page_def by metis

lemma grown_regs:
  assumes "grown root n s s'"
  shows "vm_ok s' root" "large_page (pte s' root p) \<longleftrightarrow> large_page (pte s root p)"
    "null_frame s' \<Longrightarrow> null_frame s"
  using assms extends_large by (auto simp: grown_def null_frame_def same_regs_def)

lemma vm_ok_top:
  "vm_ok s root \<Longrightarrow> i < 512 \<Longrightarrow> page_is_present (pte s root [i]) \<Longrightarrow> links (pte s root [i])"
  by (auto simp: vm_ok_def)

text \<open>What a creating walk promises, and the two lower parts of the walk.\<close>

definition create_post ::
  "u64 \<Rightarrow> nat \<Rightarrow> u64 \<Rightarrow> vm_state \<Rightarrow> u64 \<times> page_walk_level \<times> page_walk_status \<times> vm_state \<Rightarrow> bool" where
  "create_post root n va s res \<longleftrightarrow> (case res of (entry, level, st, s') \<Rightarrow>
     grown root n s s' \<and>
     (entry \<noteq> 0 \<longrightarrow> level = PAGE_WALK_LEVEL_PT \<and> st = PAGE_WALK_OK \<and>
        (\<exists>pt. descend s' root (take 3 (va_path va)) = Some pt \<and> entry = entry_addr pt (PT_INDEX va))) \<and>
     (entry = 0 \<longrightarrow> blocked (pte s root) va \<or> card (free_set (vm_pmm s)) < n \<or> null_frame s))"

definition create_pd where
  "create_pd va pd st s =
     (if large_page (load_u64 (vm_mem s) (entry_addr pd (PD_INDEX va)))
      then (0, PAGE_WALK_LEVEL_NONE, PAGE_WALK_HUGE_PAGE_PD, s)
      else case ensure_next_table pd (PD_INDEX va) True PAGE_WALK_MISSING_PD_ENTRY st s of
             (pt, st, s) \<Rightarrow>
               if pt = 0 then (0, PAGE_WALK_LEVEL_NONE, st, s)
               else (entry_addr pt (PT_INDEX va), PAGE_WALK_LEVEL_PT, st, s))"

definition create_pdpt where
  "create_pdpt va pdpt st s =
     (if large_page (load_u64 (vm_mem s) (entry_addr pdpt (PDPT_INDEX va)))
      then (0, PAGE_WALK_LEVEL_NONE, PAGE_WALK_HUGE_PAGE_PDPT, s)
      else case ensure_next_table pdpt (PDPT_INDEX va) True PAGE_WALK_MISSING_PDPT_ENTRY st s of
             (pd, st, s) \<Rightarrow>
               if pd = 0 then (0, PAGE_WALK_LEVEL_NONE, st, s) else create_pd va pd st s)"

lemma page_walk_internal_create:
  "page_walk_internal root va True s =
     (if root = 0 then (0, PAGE_WALK_LEVEL_NONE, PAGE_WALK_INVALID_ROOT, s)
      else case ensure_next_table root (PML4_INDEX va) True PAGE_WALK_MISSING_PML4_ENTRY
                  PAGE_WALK_OK s of
             (pdpt, st, s) \<Rightarrow>
               if pdpt = 0 then (0, PAGE_WALK_LEVEL_NONE, st, s) else create_pdpt va pdpt st s)"
  by (simp add: page_walk_internal_def create_pdpt_def create_pd_def large_page_def Let_def
      split: prod.splits)

lemma create_post_step:
  assumes g: "grown root 1 s s1" and post: "create_post root n va s1 res"
  shows "create_post root (Suc n) va s res"
proof -
  obtain entry level st s' where res: "res = (entry, level, st, s')" by (metis prod_cases4)
  have "grown root (Suc n) s s'"
    using grown_trans [OF g, of n s'] post by (simp add: create_post_def res)
  moreover have "blocked (pte s1 root) va = blocked (pte s root) va"
    using grown_regs(2) [OF g] by (simp add: blocked_def)
  moreover have "card (free_set (vm_pmm s)) \<le> card (free_set (vm_pmm s1)) + 1"
    using g by (simp add: grown_def)
  moreover have "null_frame s1 \<Longrightarrow> null_frame s" by (rule grown_regs(3) [OF g])
  ultimately show ?thesis using post by (auto simp: create_post_def res)
qed

lemma create_post_fail:
  "grown root 1 s s1 \<Longrightarrow> free_set (vm_pmm s) = {} \<or> null_frame s \<Longrightarrow>
   create_post root (Suc n) va s (0, level, st, s1)"
  using grown_mono [of root 1 s s1 "Suc n"] by (auto simp: create_post_def)

lemma create_post_blocked:
  "vm_ok s root \<Longrightarrow> blocked (pte s root) va \<Longrightarrow> create_post root n va s (0, level, st, s)"
  by (simp add: create_post_def grown_refl)

lemma create_pd_post:
  assumes ok: "vm_ok s root" and d: "descend s root [PML4_INDEX va, PDPT_INDEX va] = Some pd"
  shows "create_post root 1 va s (create_pd va pd PAGE_WALK_OK s)"
proof (cases "large_page (load_u64 (vm_mem s) (entry_addr pd (PD_INDEX va)))")
  case True
  then have "blocked (pte s root) va"
    using pte_snoc [of s root "[PML4_INDEX va, PDPT_INDEX va]" "PD_INDEX va"] d
    by (simp add: blocked_def va_path_def del: descend.simps)
  with ok True show ?thesis by (simp add: create_pd_def create_post_blocked)
next
  case False
  obtain pt st s' where r: "ensure_next_table pd (PD_INDEX va) True PAGE_WALK_MISSING_PD_ENTRY
      PAGE_WALK_OK s = (pt, st, s')" by (metis prod_cases3)
  have nh: "page_is_present (load_u64 (vm_mem s) (entry_addr pd (PD_INDEX va))) \<Longrightarrow>
      links (load_u64 (vm_mem s) (entry_addr pd (PD_INDEX va)))"
    using False links_or_large by blast
  have e: "grown root 1 s s'"
    "pt \<noteq> 0 \<Longrightarrow> st = PAGE_WALK_OK \<and>
       descend s' root ([PML4_INDEX va, PDPT_INDEX va] @ [PD_INDEX va]) = Some pt"
    "pt = 0 \<Longrightarrow> free_set (vm_pmm s) = {} \<or> null_frame s"
    by (rule ensure_next_table_create [OF ok _ _ d _ nh r]; simp)+
  show ?thesis
  proof (cases "pt = 0")
    case True
    then show ?thesis
      using create_post_fail [OF e(1), of 0] e(3) False r by (simp add: create_pd_def)
  next
    case pt: False
    then have "entry_addr pt (PT_INDEX va) \<noteq> 0"
      using vm_ok_table [OF grown_regs(1) [OF e(1)], of "[PML4_INDEX va, PDPT_INDEX va, PD_INDEX va]" pt]
        e(2) entry_addr_nonzero by (simp del: descend.simps)
    then show ?thesis
      using e pt False r by (simp add: create_pd_def create_post_def va_path_def del: descend.simps)
  qed
qed

lemma create_pdpt_post:
  assumes ok: "vm_ok s root" and d: "descend s root [PML4_INDEX va] = Some pdpt"
  shows "create_post root 2 va s (create_pdpt va pdpt PAGE_WALK_OK s)"
proof (cases "large_page (load_u64 (vm_mem s) (entry_addr pdpt (PDPT_INDEX va)))")
  case True
  then have "blocked (pte s root) va"
    using pte_snoc [of s root "[PML4_INDEX va]" "PDPT_INDEX va"] d
    by (simp add: blocked_def va_path_def del: descend.simps)
  with ok True show ?thesis by (simp add: create_pdpt_def create_post_blocked)
next
  case False
  obtain pd st s' where r: "ensure_next_table pdpt (PDPT_INDEX va) True PAGE_WALK_MISSING_PDPT_ENTRY
      PAGE_WALK_OK s = (pd, st, s')" by (metis prod_cases3)
  have nh: "page_is_present (load_u64 (vm_mem s) (entry_addr pdpt (PDPT_INDEX va))) \<Longrightarrow>
      links (load_u64 (vm_mem s) (entry_addr pdpt (PDPT_INDEX va)))"
    using False links_or_large by blast
  have e: "grown root 1 s s'"
    "pd \<noteq> 0 \<Longrightarrow> st = PAGE_WALK_OK \<and>
       descend s' root ([PML4_INDEX va] @ [PDPT_INDEX va]) = Some pd"
    "pd = 0 \<Longrightarrow> free_set (vm_pmm s) = {} \<or> null_frame s"
    by (rule ensure_next_table_create [OF ok _ _ d _ nh r]; simp)+
  show ?thesis
  proof (cases "pd = 0")
    case True
    then show ?thesis
      using create_post_fail [OF e(1), of 1] e(3) False r by (simp add: create_pdpt_def numeral_2_eq_2)
  next
    case pd: False
    then have "create_post root 1 va s' (create_pd va pd PAGE_WALK_OK s')"
      using e(2) by (intro create_pd_post grown_regs(1) [OF e(1)]) (simp del: descend.simps)
    then have "create_post root (Suc 1) va s (create_pd va pd PAGE_WALK_OK s')"
      by (rule create_post_step [OF e(1)])
    then show ?thesis using pd False r e(2) by (simp add: create_pdpt_def numeral_2_eq_2)
  qed
qed

lemma page_walk_create:
  assumes ok: "vm_ok s root"
  shows "create_post root 3 va s (page_walk_internal root va True s)"
proof -
  have root0: "root \<noteq> 0" using vm_ok_table(1) [OF ok, of "[]"] by simp
  obtain pdpt st s' where r: "ensure_next_table root (PML4_INDEX va) True PAGE_WALK_MISSING_PML4_ENTRY
      PAGE_WALK_OK s = (pdpt, st, s')" by (metis prod_cases3)
  have nh: "page_is_present (load_u64 (vm_mem s) (entry_addr root (PML4_INDEX va))) \<Longrightarrow>
      links (load_u64 (vm_mem s) (entry_addr root (PML4_INDEX va)))"
    using vm_ok_top [OF ok, of "PML4_INDEX va"] pte_snoc [of s root "[]" "PML4_INDEX va"] by simp
  have e: "grown root 1 s s'"
    "pdpt \<noteq> 0 \<Longrightarrow> st = PAGE_WALK_OK \<and> descend s' root ([] @ [PML4_INDEX va]) = Some pdpt"
    "pdpt = 0 \<Longrightarrow> free_set (vm_pmm s) = {} \<or> null_frame s"
    by (rule ensure_next_table_create [where p = "[]", OF ok _ _ _ _ nh r]; simp)+
  show ?thesis
  proof (cases "pdpt = 0")
    case True
    then show ?thesis
      using create_post_fail [OF e(1), of 2] e(3) r root0
      by (simp add: page_walk_internal_create numeral_3_eq_3 numeral_2_eq_2)
  next
    case False
    then have "create_post root 2 va s' (create_pdpt va pdpt PAGE_WALK_OK s')"
      using e(2) by (intro create_pdpt_post grown_regs(1) [OF e(1)]) (simp del: descend.simps)
    then have "create_post root (Suc 2) va s (create_pdpt va pdpt PAGE_WALK_OK s')"
      by (rule create_post_step [OF e(1)])
    then show ?thesis using False r e(2) root0 by (simp add: page_walk_internal_create numeral_3_eq_3)
  qed
qed

section \<open>Reading walks and translation\<close>

definition table_of :: "vm_state \<Rightarrow> u64 \<Rightarrow> u64 \<Rightarrow> nat \<Rightarrow> u64" where
  "table_of s root va n = the (descend s root (take n (va_path va)))"

lemma ensure_next_table_read:
  "t \<noteq> 0 \<Longrightarrow> ensure_next_table t i False ms st s =
     (let e = load_u64 (vm_mem s) (entry_addr t i) in
      if page_is_present e
      then (page_table_physical_to_virtual s (e AND PAGE_TABLE_ADDRESS_MASK), st, s)
      else (0, ms, s))"
  by (simp add: ensure_next_table_def Let_def)

text \<open>One level down: the entry of the path, and the table it leads to.\<close>

lemma length_va_path [simp]: "length (va_path va) = 4"
  by (simp add: va_path_def)

lemma va_path_nth:
  "va_path va ! 0 = PML4_INDEX va" "va_path va ! 1 = PDPT_INDEX va"
  "va_path va ! 2 = PD_INDEX va" "va_path va ! 3 = PT_INDEX va"
  by (simp_all add: va_path_def numeral_2_eq_2 numeral_3_eq_3)

lemma path_entry:
  assumes "n < 4" "descend s root (take n (va_path va)) = Some t"
  shows "pte s root (take (Suc n) (va_path va)) = load_u64 (vm_mem s) (entry_addr t (va_path va ! n))"
proof -
  have "take (Suc n) (va_path va) = take n (va_path va) @ [va_path va ! n]"
    using assms(1) by (simp add: take_Suc_conv_app_nth)
  moreover have "table_path (take n (va_path va))"
    using assms(1) by (auto simp: table_path_def va_path_def dest!: in_set_takeD)
  moreover have "va_path va ! n < 512"
    using assms(1) by (auto simp: va_path_def less_Suc_eq numeral_eq_Suc)
  ultimately show ?thesis using assms(2) by (simp add: pte_snoc)
qed

lemma path_step:
  assumes ok: "vm_ok s root" and n: "n < 3" and d: "descend s root (take n (va_path va)) = Some t"
    and l: "links (pte s root (take (Suc n) (va_path va)))"
  shows "descend s root (take (Suc n) (va_path va)) =
           Some (page_table_physical_to_virtual s
             (load_u64 (vm_mem s) (entry_addr t (va_path va ! n)) AND PAGE_TABLE_ADDRESS_MASK))"
    and "page_table_physical_to_virtual s
           (load_u64 (vm_mem s) (entry_addr t (va_path va ! n)) AND PAGE_TABLE_ADDRESS_MASK) \<noteq> 0"
proof -
  have e: "take (Suc n) (va_path va) = take n (va_path va) @ [va_path va ! n]"
    using n by (simp add: take_Suc_conv_app_nth)
  show d': "descend s root (take (Suc n) (va_path va)) =
      Some (page_table_physical_to_virtual s
        (load_u64 (vm_mem s) (entry_addr t (va_path va ! n)) AND PAGE_TABLE_ADDRESS_MASK))"
    using path_entry [OF _ d] n l d unfolding e by (simp add: descend_append)
  have "table_path (take (Suc n) (va_path va))"
    using n by (auto simp: table_path_def va_path_def dest!: in_set_takeD)
  then show "page_table_physical_to_virtual s
      (load_u64 (vm_mem s) (entry_addr t (va_path va ! n)) AND PAGE_TABLE_ADDRESS_MASK) \<noteq> 0"
    by (rule vm_ok_table(1) [OF ok _ d'])
qed

definition walk_spec ::
  "vm_state \<Rightarrow> u64 \<Rightarrow> u64 \<Rightarrow> u64 \<times> page_walk_level \<times> page_walk_status" where
  "walk_spec s root va =
     (let e = (\<lambda>n. pte s root (take n (va_path va)));
          at = (\<lambda>n. entry_addr (table_of s root va n) (va_path va ! n)) in
      if \<not> page_is_present (e 1) then (0, PAGE_WALK_LEVEL_NONE, PAGE_WALK_MISSING_PML4_ENTRY)
      else if large_page (e 2) then (at 1, PAGE_WALK_LEVEL_PDPT, PAGE_WALK_OK)
      else if \<not> page_is_present (e 2) then (0, PAGE_WALK_LEVEL_NONE, PAGE_WALK_MISSING_PDPT_ENTRY)
      else if large_page (e 3) then (at 2, PAGE_WALK_LEVEL_PD, PAGE_WALK_OK)
      else if \<not> page_is_present (e 3) then (0, PAGE_WALK_LEVEL_NONE, PAGE_WALK_MISSING_PD_ENTRY)
      else if \<not> page_is_present (e 4) then (0, PAGE_WALK_LEVEL_NONE, PAGE_WALK_MISSING_PT_ENTRY)
      else (at 3, PAGE_WALK_LEVEL_PT, PAGE_WALK_OK))"

lemma page_walk_read:
  assumes ok: "vm_ok s root"
  shows "page_walk_internal root va False s =
           (case walk_spec s root va of (entry, level, st) \<Rightarrow> (entry, level, st, s))"
proof -
  let ?e1 = "pte s root (take (Suc 0) (va_path va))" and ?e2 = "pte s root (take 2 (va_path va))"
    and ?e3 = "pte s root (take 3 (va_path va))" and ?e4 = "pte s root (take 4 (va_path va))"
  have root0: "root \<noteq> 0" using vm_ok_table(1) [OF ok, of "[]"] by simp
  have d0: "descend s root (take 0 (va_path va)) = Some root" by simp
  have e1: "load_u64 (vm_mem s) (entry_addr root (PML4_INDEX va)) = ?e1"
    using path_entry [OF _ d0] by (simp add: va_path_nth)
  note walk = page_walk_internal_def walk_spec_def Let_def ensure_next_table_read
    large_page_def table_of_def va_path_nth va_path_nth [unfolded One_nat_def] root0 e1
  show ?thesis
  proof (cases "page_is_present ?e1")
    case False
    then show ?thesis by (simp add: walk)
  next
    case p1: True
    then have "links ?e1" using vm_ok_top [OF ok] by (simp add: va_path_def)
    then obtain pdpt where d1: "descend s root (take (Suc 0) (va_path va)) = Some pdpt"
      and t1: "page_table_physical_to_virtual s (?e1 AND PAGE_TABLE_ADDRESS_MASK) = pdpt" "pdpt \<noteq> 0"
      using path_step [OF ok _ d0] by (simp add: va_path_nth e1)
    have e2: "load_u64 (vm_mem s) (entry_addr pdpt (PDPT_INDEX va)) = ?e2"
      using path_entry [OF _ d1] by (simp add: va_path_nth [unfolded One_nat_def] numeral_2_eq_2)
    show ?thesis
    proof (cases "links ?e2")
      case False
      then show ?thesis by (simp add: walk p1 d1 t1 e2 links_def)
    next
      case l2: True
      then have l2': "page_is_present ?e2" "?e2 AND PAGE_HUGE = 0" by (simp_all add: links_def)
      obtain pd where d2: "descend s root (take 2 (va_path va)) = Some pd"
        and t2: "page_table_physical_to_virtual s (?e2 AND PAGE_TABLE_ADDRESS_MASK) = pd" "pd \<noteq> 0"
        using path_step [OF ok _ d1] l2 e2 by (simp add: va_path_nth [unfolded One_nat_def] numeral_2_eq_2)
      have e3: "load_u64 (vm_mem s) (entry_addr pd (PD_INDEX va)) = ?e3"
        using path_entry [OF _ d2] by (simp add: va_path_nth numeral_3_eq_3)
      show ?thesis
      proof (cases "links ?e3")
        case False
        then show ?thesis by (simp add: walk p1 d1 t1 e2 l2' d2 t2 e3 links_def)
      next
        case l3: True
        then have l3': "page_is_present ?e3" "?e3 AND PAGE_HUGE = 0" by (simp_all add: links_def)
        obtain pt where d3: "descend s root (take 3 (va_path va)) = Some pt"
          and t3: "page_table_physical_to_virtual s (?e3 AND PAGE_TABLE_ADDRESS_MASK) = pt" "pt \<noteq> 0"
          using path_step [OF ok _ d2] l3 e3 by (simp add: va_path_nth numeral_3_eq_3)
        have e4: "load_u64 (vm_mem s) (entry_addr pt (PT_INDEX va)) = ?e4"
          using path_entry [OF _ d3] by (simp add: va_path_nth)
        show ?thesis by (simp add: walk p1 d1 t1 e2 l2' d2 t2 e3 l3' d3 t3 e4)
      qed
    qed
  qed
qed

text \<open>The translation an address space defines: four levels, with pages of 1 GiB, 2 MiB and 4 KiB.\<close>

definition resolve :: "(u64 list \<Rightarrow> u64) \<Rightarrow> u64 \<Rightarrow> u64 option" where
  "resolve A va =
     (let e = (\<lambda>n. A (take n (va_path va)));
          frame = (\<lambda>n size. Some ((e n AND PAGE_TABLE_ADDRESS_MASK) OR (va AND (size - 1)))) in
      if \<not> page_is_present (e 1) then None
      else if large_page (e 2) then frame 2 PAGE_1GIB_SIZE
      else if \<not> page_is_present (e 2) then None
      else if large_page (e 3) then frame 3 PAGE_2MIB_SIZE
      else if \<not> page_is_present (e 3) then None
      else if \<not> page_is_present (e 4) then None
      else frame 4 PAGE_SIZE)"

abbreviation address_or_null :: "u64 option \<Rightarrow> u64" where
  "address_or_null r \<equiv> (case r of None \<Rightarrow> 0 | Some a \<Rightarrow> a)"

lemma pte_closed:
  assumes "\<not> links (pte s root (p @ [i]))" "table_path (p @ [i])"
  shows "pte s root (p @ [i, j]) = 0"
proof -
  have "descend s root (p @ [i]) = None"
    using assms by (auto simp: pte_snoc descend_append Let_def split: option.splits)
  then have "pte s root ((p @ [i]) @ [j]) = 0" unfolding pte_snoc by simp
  then show ?thesis by simp
qed

lemma pte_closed_path:
  assumes "n < 3" "\<not> links (pte s root (take (Suc n) (va_path va)))"
  shows "pte s root (take (Suc (Suc n)) (va_path va)) = 0"
proof -
  have e: "take (Suc n) (va_path va) = take n (va_path va) @ [va_path va ! n]"
    "take (Suc (Suc n)) (va_path va) = take n (va_path va) @ [va_path va ! n, va_path va ! Suc n]"
    using assms(1) by (simp_all add: take_Suc_conv_app_nth)
  have "table_path (take n (va_path va) @ [va_path va ! n])"
    unfolding e(1) [symmetric] using assms(1) by (auto simp: table_path_def va_path_def dest!: in_set_takeD)
  then show ?thesis using pte_closed assms(2) unfolding e by blast
qed

lemma pte_closed_levels:
  "\<not> links (pte s root (take 1 (va_path va))) \<Longrightarrow> pte s root (take 2 (va_path va)) = 0"
  "\<not> links (pte s root (take 2 (va_path va))) \<Longrightarrow> pte s root (take 3 (va_path va)) = 0"
  "\<not> links (pte s root (take 3 (va_path va))) \<Longrightarrow> pte s root (take 4 (va_path va)) = 0"
  using pte_closed_path [of 0] pte_closed_path [of 1] pte_closed_path [of 2]
  by (simp_all add: eval_nat_numeral)

lemma large_not_links: "large_page e \<Longrightarrow> \<not> links e"
  by (simp add: links_def large_page_def)

lemma resolve_None:
  assumes "\<not> large_page (A (take 2 (va_path va)))" "\<not> large_page (A (take 3 (va_path va)))"
    "\<not> page_is_present (A (take 4 (va_path va)))"
  shows "resolve A va = None"
  using assms by (simp add: resolve_def Let_def)

lemma zero_not_large [simp]: "\<not> large_page 0"
  by (simp add: large_page_def)

lemma resolve_extends:
  assumes ext: "extends (pte s root) A'"
  shows "resolve A' va = resolve (pte s root) va"
proof -
  let ?A = "\<lambda>n. pte s root (take n (va_path va))" and ?B = "\<lambda>n. A' (take n (va_path va))"
  have eq: "?B n = ?A n" if "page_is_present (?A n)" for n
    using ext that unfolding extends_def by blast
  have leaf: "?B 4 = ?A 4" using ext unfolding extends_def by force
  note large = extends_large [OF ext] and closed = pte_closed_levels [of s root va]
  have none: "resolve A' va = resolve (pte s root) va"
    if "\<not> large_page (?A 2)" "\<not> large_page (?A 3)" "?A 4 = 0"
    using resolve_None [of A'] resolve_None [of "pte s root"] that large leaf by simp
  show ?thesis
  proof (cases "links (?A 1)")
    case False
    then have "?A 2 = 0" by (rule closed(1))
    moreover from this have "?A 3 = 0" by (intro closed(2)) simp
    moreover from this have "?A 4 = 0" by (intro closed(3)) simp
    ultimately show ?thesis by (intro none) simp_all
  next
    case l1: True
    show ?thesis
    proof (cases "links (?A 2)")
      case False
      then have "?A 3 = 0" by (rule closed(2))
      moreover from this have "?A 4 = 0" by (intro closed(3)) simp
      ultimately show ?thesis
        using none eq [of 1] eq [of 2] l1 large [of "take 2 (va_path va)"]
        by (cases "large_page (?A 2)") (simp_all add: resolve_def Let_def links_or_large)
    next
      case l2: True
      show ?thesis
      proof (cases "links (?A 3)")
        case False
        then have "?A 4 = 0" by (rule closed(3))
        then show ?thesis
          using none eq [of 1] eq [of 2] eq [of 3] l1 l2 large_not_links [of "?A 2"]
          by (cases "large_page (?A 3)") (auto simp: resolve_def Let_def links_or_large)
      next
        case True
        then show ?thesis using l1 l2 eq [of 1] eq [of 2] eq [of 3] leaf
          by (simp add: resolve_def Let_def links_def)
      qed
    qed
  qed
qed

lemma translate_resolve:
  assumes ok: "vm_ok s (page_table_active_root s)"
  shows "page_table_translate va s = address_or_null (resolve (pte s (page_table_active_root s)) va)"
proof -
  let ?r = "page_table_active_root s"
  have nz: "entry_addr (table_of s ?r va n) (va_path va ! n) \<noteq> 0 \<and>
      load_u64 (vm_mem s) (entry_addr (table_of s ?r va n) (va_path va ! n)) =
        pte s ?r (take (Suc n) (va_path va))"
    if n: "n < 4" and p: "page_is_present (pte s ?r (take (Suc n) (va_path va)))" for n
  proof -
    have e: "take (Suc n) (va_path va) = take n (va_path va) @ [va_path va ! n]"
      using n by (simp add: take_Suc_conv_app_nth)
    obtain t where t: "descend s ?r (take n (va_path va)) = Some t"
      using p unfolding e pte_snoc by (auto split: if_splits option.splits)
    have "table_path (take n (va_path va))" "va_path va ! n < 512"
      using n by (auto simp: table_path_def va_path_def less_Suc_eq numeral_eq_Suc dest!: in_set_takeD)
    then show ?thesis
      using vm_ok_table [OF ok _ t] entry_addr_nonzero path_entry [OF n t] t
      by (simp add: table_of_def)
  qed
  have at: "page_is_present (pte s ?r (take 2 (va_path va))) \<Longrightarrow>
      entry_addr (table_of s ?r va 1) (va_path va ! 1) \<noteq> 0 \<and>
      load_u64 (vm_mem s) (entry_addr (table_of s ?r va 1) (va_path va ! 1)) =
        pte s ?r (take 2 (va_path va))"
    "page_is_present (pte s ?r (take 3 (va_path va))) \<Longrightarrow>
      entry_addr (table_of s ?r va 2) (va_path va ! 2) \<noteq> 0 \<and>
      load_u64 (vm_mem s) (entry_addr (table_of s ?r va 2) (va_path va ! 2)) =
        pte s ?r (take 3 (va_path va))"
    "page_is_present (pte s ?r (take 4 (va_path va))) \<Longrightarrow>
      entry_addr (table_of s ?r va 3) (va_path va ! 3) \<noteq> 0 \<and>
      load_u64 (vm_mem s) (entry_addr (table_of s ?r va 3) (va_path va ! 3)) =
        pte s ?r (take 4 (va_path va))"
    using nz [of 1] nz [of 2] nz [of 3] by (simp_all add: eval_nat_numeral)
  have size: "PAGE_SIZE \<noteq> 0" "PAGE_2MIB_SIZE \<noteq> 0" "PAGE_1GIB_SIZE \<noteq> 0"
    by (simp_all add: PAGE_SIZE_def PAGE_2MIB_SIZE_def PAGE_1GIB_SIZE_def)
  show ?thesis
    using at page_walk_read [OF ok, of va] size
    by (auto simp: page_table_translate_def walk_spec_def resolve_def Let_def large_page_def
        page_size_for_level_def simp del: One_nat_def split: if_splits)
qed

section \<open>Mapping and unmapping\<close>

definition leaf_entry :: "u64 \<Rightarrow> u64 \<Rightarrow> u64" where
  "leaf_entry pa flags = (pa AND PAGE_TABLE_ADDRESS_MASK) OR
     (flags AND NOT PAGE_PRESENT AND NOT PAGE_HUGE) OR PAGE_PRESENT"

lemma leaf_entry:
  "page_is_present (leaf_entry pa flags)"
  "leaf_entry pa flags AND PAGE_TABLE_ADDRESS_MASK = (pa OR flags) AND PAGE_TABLE_ADDRESS_MASK"
proof -
  show "page_is_present (leaf_entry pa flags)"
    by (simp add: flag_test leaf_entry_def bit_or_iff bit_small_flags)
  show "leaf_entry pa flags AND PAGE_TABLE_ADDRESS_MASK = (pa OR flags) AND PAGE_TABLE_ADDRESS_MASK"
    by (rule bit_eqI)
      (auto simp: leaf_entry_def bit_or_iff bit_and_iff bit_not_iff bit_small_flags)
qed

lemma active_root_cong:
  assumes "same_regs s s'" shows "page_table_active_root s' = page_table_active_root s"
  using assms by (simp add: same_regs_def page_table_active_root_def page_table_current_root_def
      page_table_physical_to_virtual_def)

lemma linked_path:
  assumes "descend s root (take 3 (va_path va)) = Some pt"
  shows "links (pte s root (take 1 (va_path va)))" "links (pte s root (take 2 (va_path va)))"
    "links (pte s root (take 3 (va_path va)))"
proof -
  have "links (pte s root (take (Suc n) (va_path va)))" if n: "n < 3" for n
  proof -
    have e: "take (Suc n) (va_path va) = take n (va_path va) @ [va_path va ! n]"
      using n by (simp add: take_Suc_conv_app_nth)
    have "take 3 (va_path va) = take (Suc n) (va_path va) @ drop (Suc n) (take 3 (va_path va))"
      using n append_take_drop_id [of "Suc n" "take 3 (va_path va)"] by (simp add: min_def)
    then have "descend s root (take 3 (va_path va)) =
        Option.bind (descend s root (take (Suc n) (va_path va)))
          (\<lambda>u. descend s u (drop (Suc n) (take 3 (va_path va))))"
      using descend_append [of s root "take (Suc n) (va_path va)" "drop (Suc n) (take 3 (va_path va))"]
      by argo
    then obtain u where u: "descend s root (take (Suc n) (va_path va)) = Some u"
      using assms by (cases "descend s root (take (Suc n) (va_path va))") simp_all
    then obtain t where "descend s root (take n (va_path va)) = Some t"
      unfolding e descend_append by (auto simp: bind_eq_Some_conv)
    with u show ?thesis using path_entry [of n s root va t] n unfolding e
      by (auto simp: descend_append Let_def split: if_splits)
  qed
  from this [of 0] this [of 1] this [of 2] show
    "links (pte s root (take 1 (va_path va)))" "links (pte s root (take 2 (va_path va)))"
    "links (pte s root (take 3 (va_path va)))" by (simp_all add: eval_nat_numeral)
qed

lemma va_path_split: "va_path va = take 3 (va_path va) @ [PT_INDEX va]"
  by (simp add: va_path_def)

lemma resolve_leaf_update:
  assumes l: "descend s root (take 3 (va_path va)) = Some pt"
  shows "resolve ((pte s root)(va_path va := v)) va' =
           (if va_path va' = va_path va
            then (if page_is_present v then Some ((v AND PAGE_TABLE_ADDRESS_MASK) OR (va' AND (PAGE_SIZE - 1)))
                  else None)
            else resolve (pte s root) va')"
proof -
  have short: "take n (va_path va') \<noteq> va_path va" if "n < 4" for n
    using that by (metis length_take length_va_path min.absorb4 nat_neq_iff)
  have upd: "((pte s root)(va_path va := v)) (take n (va_path va')) = pte s root (take n (va_path va'))"
    if "n < 4" for n using short [OF that] by simp
  show ?thesis
  proof (cases "va_path va' = va_path va")
    case True
    have "links (pte s root (take 1 (va_path va')))" "links (pte s root (take 2 (va_path va')))"
      "links (pte s root (take 3 (va_path va')))"
      using linked_path [OF l] True by simp_all
    then show ?thesis
      using upd [of 1] upd [of 2] upd [of 3] True
      by (simp add: resolve_def Let_def links_def large_page_def del: One_nat_def)
  next
    case False
    then show ?thesis
      using upd [of 1] upd [of 2] upd [of 3] by (simp add: resolve_def Let_def del: One_nat_def)
  qed
qed

lemma map_table:
  assumes ok: "vm_ok s (page_table_active_root s)" and r: "page_table_map va pa flags s = (b, s')"
  obtains s1 where "grown (page_table_active_root s) 3 s s1" "\<not> b" "s' = s1"
      "blocked (pte s (page_table_active_root s)) va \<or> card (free_set (vm_pmm s)) < 3 \<or> null_frame s"
    | s1 pt where "grown (page_table_active_root s) 3 s s1" "b"
      "descend s1 (page_table_active_root s) (take 3 (va_path va)) = Some pt"
      "s' = invalidate_page va (s1\<lparr>vm_mem := store_u64 (entry_addr pt (PT_INDEX va))
              (leaf_entry pa flags) (vm_mem s1)\<rparr>)"
proof -
  obtain entry level st s1 where w: "page_walk_internal (page_table_active_root s) va True s =
      (entry, level, st, s1)" by (metis prod_cases4)
  have post: "create_post (page_table_active_root s) 3 va s (entry, level, st, s1)"
    using page_walk_create [OF ok, of va] w by simp
  show thesis
  proof (cases "entry = 0")
    case True
    then have "\<not> b" "s' = s1" using r w by (simp_all add: page_table_map_def)
    with True post show thesis by (intro that(1)) (simp_all add: create_post_def)
  next
    case False
    then obtain pt where pt: "descend s1 (page_table_active_root s) (take 3 (va_path va)) = Some pt"
      "entry = entry_addr pt (PT_INDEX va)" "level = PAGE_WALK_LEVEL_PT"
      using post by (auto simp: create_post_def)
    have "grown (page_table_active_root s) 3 s s1" using post by (simp add: create_post_def)
    moreover have "b" "s' = invalidate_page va (s1\<lparr>vm_mem := store_u64 (entry_addr pt (PT_INDEX va))
        (leaf_entry pa flags) (vm_mem s1)\<rparr>)"
      using r w False pt by (auto simp: page_table_map_def Let_def leaf_entry_def)
    ultimately show thesis using that(2) pt(1) by blast
  qed
qed

lemma descend_invalidate: "descend (invalidate_page va s) t q = descend s t q"
  by (induction q arbitrary: t)
    (simp_all add: Let_def page_table_physical_to_virtual_def invalidate_page_def)

lemma vm_ok_invalidate:
  "vm_ok (invalidate_page va s) root = vm_ok s root" "pte (invalidate_page va s) root = pte s root"
proof -
  note d = descend_invalidate
  show p: "pte (invalidate_page va s) root = pte s root"
    by (rule ext) (simp add: pte_def d split: option.split, simp add: invalidate_page_def)
  show "vm_ok (invalidate_page va s) root = vm_ok s root"
    by (simp add: vm_ok_def d p table_frame_def) (simp add: invalidate_page_def)
qed

lemma active_root_update:
  "page_table_active_root (invalidate_page va (s\<lparr>vm_mem := m\<rparr>)) = page_table_active_root s"
  by (simp add: invalidate_page_def page_table_active_root_def page_table_current_root_def
      page_table_physical_to_virtual_def)

lemma page_table_map_regs:
  assumes "vm_ok s (page_table_active_root s)" "page_table_map va pa flags s = (b, s')"
  shows "kernel_pml4 s' = kernel_pml4 s" "kernel_pml4_physical s' = kernel_pml4_physical s" "cr3 s' = cr3 s"
    "hhdm_offset s' = hhdm_offset s" "hhdm_ready s' = hhdm_ready s"
proof -
  have "kernel_pml4 s' = kernel_pml4 s \<and> kernel_pml4_physical s' = kernel_pml4_physical s \<and> cr3 s' = cr3 s \<and>
    hhdm_offset s' = hhdm_offset s \<and> hhdm_ready s' = hhdm_ready s"
    using assms by (cases rule: map_table) (auto simp: grown_def same_regs_def invalidate_page_def)
  then show "kernel_pml4 s' = kernel_pml4 s" "kernel_pml4_physical s' = kernel_pml4_physical s" "cr3 s' = cr3 s"
    "hhdm_offset s' = hhdm_offset s" "hhdm_ready s' = hhdm_ready s" by blast+
qed

lemma page_table_map_effect:
  assumes ok: "vm_ok s (page_table_active_root s)" and r: "page_table_map va pa flags s = (b, s')"
  shows "page_table_active_root s' = page_table_active_root s" "vm_ok s' (page_table_active_root s')"
    and "resolve (pte s' (page_table_active_root s')) va' =
      (if b \<and> va_path va' = va_path va
       then Some (((pa OR flags) AND PAGE_TABLE_ADDRESS_MASK) OR (va' AND (PAGE_SIZE - 1)))
       else resolve (pte s (page_table_active_root s)) va')"
    and "invalidated s' = (if b then va # invalidated s else invalidated s)"
    and "\<not> b \<Longrightarrow> blocked (pte s (page_table_active_root s)) va \<or>
           card (free_set (vm_pmm s)) < 3 \<or> null_frame s"
    and "blocked (pte s' (page_table_active_root s')) va' = blocked (pte s (page_table_active_root s)) va'"
proof -
  let ?r = "page_table_active_root s"
  have "page_table_active_root s' = ?r \<and> vm_ok s' ?r \<and>
    resolve (pte s' ?r) va' =
      (if b \<and> va_path va' = va_path va
       then Some (((pa OR flags) AND PAGE_TABLE_ADDRESS_MASK) OR (va' AND (PAGE_SIZE - 1)))
       else resolve (pte s ?r) va') \<and>
    invalidated s' = (if b then va # invalidated s else invalidated s) \<and>
    (\<not> b \<longrightarrow> blocked (pte s ?r) va \<or> card (free_set (vm_pmm s)) < 3 \<or> null_frame s) \<and>
    blocked (pte s' ?r) va' = blocked (pte s ?r) va'"
    using ok r
  proof (cases rule: map_table)
    case (1 s1)
    then show ?thesis
      using active_root_cong [of s s1] resolve_extends [of s ?r "pte s1 ?r" va']
      by (auto simp: grown_def same_regs_def blocked_def extends_large)
  next
    case (2 s1 pt)
    have ok1: "vm_ok s1 ?r" and ext: "extends (pte s ?r) (pte s1 ?r)"
      and regs: "page_table_active_root s1 = ?r" "invalidated s1 = invalidated s"
      using 2(1) active_root_cong [of s s1] by (auto simp: grown_def same_regs_def)
    have "table_path (take 3 (va_path va))" by (simp add: va_path_def)
    note leaf = store_leaf [OF ok1 this index_bounds(4) 2(3) _ refl, where v = "leaf_entry pa flags"]
    have pte': "pte s' ?r = (pte s1 ?r)(va_path va := leaf_entry pa flags)"
      using leaf(2) by (simp add: 2(4) vm_ok_invalidate flip: va_path_split)
    have "vm_ok s' ?r" using leaf(1) by (simp add: 2(4) vm_ok_invalidate)
    moreover have "page_table_active_root s' = ?r" by (simp add: 2(4) active_root_update regs)
    moreover have "invalidated s' = va # invalidated s" by (simp add: 2(4) invalidate_page_def regs)
    moreover have "blocked (pte s' ?r) va' = blocked (pte s ?r) va'"
      unfolding pte' blocked_def by (simp add: va_path_def extends_large [OF ext])
    ultimately show ?thesis
      using 2(2) unfolding pte' resolve_leaf_update [OF 2(3)]
      by (simp add: leaf_entry resolve_extends [OF ext])
  qed
  then show "page_table_active_root s' = ?r" "vm_ok s' (page_table_active_root s')"
    "resolve (pte s' (page_table_active_root s')) va' =
      (if b \<and> va_path va' = va_path va
       then Some (((pa OR flags) AND PAGE_TABLE_ADDRESS_MASK) OR (va' AND (PAGE_SIZE - 1)))
       else resolve (pte s ?r) va')"
    "invalidated s' = (if b then va # invalidated s else invalidated s)"
    "\<not> b \<Longrightarrow> blocked (pte s ?r) va \<or> card (free_set (vm_pmm s)) < 3 \<or> null_frame s"
    "blocked (pte s' (page_table_active_root s')) va' = blocked (pte s ?r) va'"
    by simp_all
qed

lemma store_leaf_keeps_data:
  assumes ok: "vm_ok s root" and p: "table_path p" "i < 512" "descend s root p = Some t"
    and l: "length p = 3"
    and s': "s' = invalidate_page va (s\<lparr>vm_mem := store_u64 (entry_addr t i) v (vm_mem s)\<rparr>)"
  shows "keeps_data root s s'"
  unfolding keeps_data_def
proof (intro allI impI conjI)
  fix u assume u: "data_page s root u"
  let ?s1 = "s\<lparr>vm_mem := store_u64 (entry_addr t i) v (vm_mem s)\<rparr>"
  have t: "touches_only s ?s1 root p i" by (rule touches_store [OF ok p])
  have d: "descend ?s1 root q = descend s root q" if "table_path q" for q
    by (rule descend_touches_only [OF t that no_deeper [OF that l]])
  have d': "descend s' root q = descend ?s1 root q" for q
    unfolding s' by (rule descend_invalidate)
  show "data_page s' root u"
    using u d d' by (auto simp: data_page_def s' invalidate_page_def table_frame_def)
  have "u \<noteq> t" using u p by (auto simp: data_page_def)
  then show "same_bytes u s s'"
    using store_keeps_page [OF vm_ok_table(2) [OF ok p(1,3)] p(2), of u] u
    by (simp add: same_bytes_def data_page_def s' invalidate_page_def)
qed

lemma page_table_map_keeps_data:
  assumes ok: "vm_ok s (page_table_active_root s)" and r: "page_table_map va pa flags s = (b, s')"
  shows "keeps_data (page_table_active_root s) s s'"
  using ok r
proof (cases rule: map_table)
  case (1 s1)
  then show ?thesis by (simp add: grown_def)
next
  case (2 s1 pt)
  have ok1: "vm_ok s1 (page_table_active_root s)" using 2(1) by (simp add: grown_def)
  have "table_path (take 3 (va_path va))" "length (take 3 (va_path va)) = 3" by (simp_all add: va_path_def)
  then have "keeps_data (page_table_active_root s) s1 s'"
    using store_leaf_keeps_data [OF ok1 _ index_bounds(4) 2(3) _ 2(4)] by simp
  then show ?thesis using 2(1) keeps_data_trans by (auto simp: grown_def)
qed

lemma page_table_map_free:
  assumes ok: "vm_ok s (page_table_active_root s)" and r: "page_table_map va pa flags s = (b, s')"
  shows "free_set (vm_pmm s') \<subseteq> free_set (vm_pmm s)" "hhdm_offset s' = hhdm_offset s"
    "total_pages (vm_pmm s') = total_pages (vm_pmm s)"
    "card (free_set (vm_pmm s)) \<le> card (free_set (vm_pmm s')) + 3"
  using ok r
  by (cases rule: map_table; simp add: grown_def same_regs_def invalidate_page_def)+

lemma store_leaf_taken:
  assumes ok: "vm_ok s root" and p: "table_path p" "i < 512" "descend s root p = Some t" and l: "length p = 3"
    and t: "taken_as_tables root s0 s"
  shows "taken_as_tables root s0 (invalidate_page va (s\<lparr>vm_mem := store_u64 (entry_addr t i) v (vm_mem s)\<rparr>))"
proof -
  let ?s1 = "s\<lparr>vm_mem := store_u64 (entry_addr t i) v (vm_mem s)\<rparr>"
  have "touches_only s ?s1 root p i" by (rule touches_store [OF ok p])
  then have "descend ?s1 root q = descend s root q" if "table_path q" for q
    by (rule descend_touches_only [OF _ that no_deeper [OF that l]])
  then show ?thesis
    using t unfolding taken_as_tables_def descend_invalidate by (simp add: invalidate_page_def table_frame_def) metis
qed

lemma page_table_map_taken:
  assumes ok: "vm_ok s (page_table_active_root s)" and r: "page_table_map va pa flags s = (b, s')"
  shows "taken_as_tables (page_table_active_root s) s s'"
  using ok r
proof (cases rule: map_table)
  case (1 s1)
  then show ?thesis by (simp add: grown_def)
next
  case (2 s1 pt)
  have "vm_ok s1 (page_table_active_root s)" "taken_as_tables (page_table_active_root s) s s1"
    using 2(1) by (simp_all add: grown_def)
  then show ?thesis
    unfolding 2(4) by (intro store_leaf_taken [OF _ _ index_bounds(4) 2(3)]) (simp_all add: va_path_def)
qed

text \<open>Unmapping succeeds exactly on addresses mapped by a 4 KiB page.\<close>

definition small_mapped :: "(u64 list \<Rightarrow> u64) \<Rightarrow> u64 \<Rightarrow> bool" where
  "small_mapped A va \<longleftrightarrow>
     links (A (take 1 (va_path va))) \<and> links (A (take 2 (va_path va))) \<and>
     links (A (take 3 (va_path va))) \<and> page_is_present (A (take 4 (va_path va)))"

lemma small_mapped_table:
  assumes ok: "vm_ok s root" and p: "page_is_present (pte s root (take 4 (va_path va)))"
  obtains pt where "descend s root (take 3 (va_path va)) = Some pt"
    "load_u64 (vm_mem s) (entry_addr pt (PT_INDEX va)) = pte s root (take 4 (va_path va))"
    "entry_addr pt (PT_INDEX va) \<noteq> 0"
proof -
  have e: "take 4 (va_path va) = take 3 (va_path va) @ [PT_INDEX va]" by (simp add: va_path_def)
  have tp: "table_path (take 3 (va_path va))" by (simp add: va_path_def)
  obtain pt where pt: "descend s root (take 3 (va_path va)) = Some pt"
    using p unfolding e pte_snoc by (auto split: if_splits option.splits)
  moreover have "load_u64 (vm_mem s) (entry_addr pt (PT_INDEX va)) = pte s root (take 4 (va_path va))"
    unfolding e pte_snoc using tp pt by simp
  moreover have "entry_addr pt (PT_INDEX va) \<noteq> 0"
    using vm_ok_table [OF ok tp pt] by (simp add: entry_addr_nonzero)
  ultimately show thesis by (rule that)
qed

lemma unmap_table:
  assumes ok: "vm_ok s (page_table_active_root s)" and r: "page_table_unmap va s = (b, s')"
  obtains "\<not> small_mapped (pte s (page_table_active_root s)) va" "\<not> b" "s' = s"
    | pt where "small_mapped (pte s (page_table_active_root s)) va" "b"
      "descend s (page_table_active_root s) (take 3 (va_path va)) = Some pt"
      "s' = invalidate_page va (s\<lparr>vm_mem := store_u64 (entry_addr pt (PT_INDEX va)) 0 (vm_mem s)\<rparr>)"
proof -
  let ?A = "\<lambda>n. pte s (page_table_active_root s) (take n (va_path va))"
  note walk = page_walk_read [OF ok, of va] walk_spec_def page_table_unmap_def Let_def
  show thesis
  proof (cases "small_mapped (pte s (page_table_active_root s)) va")
    case False
    have "links (?A 1)" if "page_is_present (?A 1)"
      using that vm_ok_top [OF ok] by (simp add: va_path_def)
    then have "\<not> b \<and> s' = s"
      using r False
      by (auto simp: walk small_mapped_def links_or_large simp del: One_nat_def split: if_splits)
    with False show thesis by (intro that(1)) simp_all
  next
    case True
    then have m: "links (?A 1)" "links (?A 2)" "links (?A 3)" "page_is_present (?A 4)"
      by (simp_all add: small_mapped_def)
    obtain pt where pt: "descend s (page_table_active_root s) (take 3 (va_path va)) = Some pt"
      "load_u64 (vm_mem s) (entry_addr pt (PT_INDEX va)) = ?A 4" "entry_addr pt (PT_INDEX va) \<noteq> 0"
      by (rule small_mapped_table [OF ok m(4)])
    have "b" "s' = invalidate_page va (s\<lparr>vm_mem := store_u64 (entry_addr pt (PT_INDEX va)) 0 (vm_mem s)\<rparr>)"
      using r m pt
      by (auto simp: walk links_def large_page_def table_of_def va_path_nth simp del: One_nat_def)
    with True pt show thesis by (intro that(2)) simp_all
  qed
qed

lemma page_table_unmap_effect:
  assumes ok: "vm_ok s (page_table_active_root s)" and r: "page_table_unmap va s = (b, s')"
  shows "b \<longleftrightarrow> small_mapped (pte s (page_table_active_root s)) va"
    and "page_table_active_root s' = page_table_active_root s"
    and "vm_ok s' (page_table_active_root s')"
    and "resolve (pte s' (page_table_active_root s')) va' =
      (if b \<and> va_path va' = va_path va then None
       else resolve (pte s (page_table_active_root s)) va')"
    and "vm_pmm s' = vm_pmm s"
    and "invalidated s' = (if b then va # invalidated s else invalidated s)"
proof -
  let ?r = "page_table_active_root s"
  have "(b \<longleftrightarrow> small_mapped (pte s ?r) va) \<and> page_table_active_root s' = ?r \<and> vm_ok s' ?r \<and>
    resolve (pte s' ?r) va' =
      (if b \<and> va_path va' = va_path va then None else resolve (pte s ?r) va') \<and>
    vm_pmm s' = vm_pmm s \<and> invalidated s' = (if b then va # invalidated s else invalidated s)"
    using ok r
  proof (cases rule: unmap_table)
    case 1
    then show ?thesis using ok by simp
  next
    case (2 pt)
    have "table_path (take 3 (va_path va))" by (simp add: va_path_def)
    note leaf = store_leaf [OF ok this index_bounds(4) 2(3) _ refl, where v = 0]
    have pte': "pte s' ?r = (pte s ?r)(va_path va := 0)"
      using leaf(2) by (simp add: 2(4) vm_ok_invalidate flip: va_path_split)
    have "vm_ok s' ?r" using leaf(1) by (simp add: 2(4) vm_ok_invalidate)
    moreover have "page_table_active_root s' = ?r" by (simp add: 2(4) active_root_update)
    moreover have "invalidated s' = va # invalidated s" "vm_pmm s' = vm_pmm s"
      by (simp_all add: 2(4) invalidate_page_def)
    ultimately show ?thesis
      using 2(1,2) unfolding pte' resolve_leaf_update [OF 2(3)] by simp
  qed
  then show "b \<longleftrightarrow> small_mapped (pte s ?r) va" "page_table_active_root s' = ?r"
    "vm_ok s' (page_table_active_root s')"
    "resolve (pte s' (page_table_active_root s')) va' =
      (if b \<and> va_path va' = va_path va then None else resolve (pte s ?r) va')"
    "vm_pmm s' = vm_pmm s"
    "invalidated s' = (if b then va # invalidated s else invalidated s)"
    by simp_all
qed

text \<open>Two addresses have the same path when they agree on bits 12 to 47.\<close>

definition same_page :: "u64 \<Rightarrow> u64 \<Rightarrow> bool" where
  "same_page va va' \<longleftrightarrow> take_bit 36 (drop_bit 12 va) = take_bit 36 (drop_bit 12 va')"

lemma bit_field_eq:
  "take_bit m (drop_bit k (x :: u64)) = take_bit m (drop_bit k y) \<longleftrightarrow>
     (\<forall>n. k \<le> n \<and> n < k + m \<longrightarrow> bit x n = bit y n)"
proof (rule iffI, intro allI impI)
  fix n assume eq: "take_bit m (drop_bit k x) = take_bit m (drop_bit k y)" and n: "k \<le> n \<and> n < k + m"
  have "bit (take_bit m (drop_bit k x)) (n - k) = bit (take_bit m (drop_bit k y)) (n - k)"
    using eq by simp
  moreover have "n - k < m" "k + (n - k) = n" using n by auto
  ultimately show "bit x n = bit y n" by (simp add: bit_take_bit_iff bit_drop_bit_eq)
next
  assume "\<forall>n. k \<le> n \<and> n < k + m \<longrightarrow> bit x n = bit y n"
  then show "take_bit m (drop_bit k x) = take_bit m (drop_bit k y)"
    by (intro bit_eqI) (auto simp: bit_take_bit_iff bit_drop_bit_eq)
qed

lemma all_split:
  fixes a b c :: nat
  assumes "a \<le> b" "b \<le> c"
  shows "(\<forall>n. a \<le> n \<and> n < c \<longrightarrow> P n) \<longleftrightarrow>
           (\<forall>n. a \<le> n \<and> n < b \<longrightarrow> P n) \<and> (\<forall>n. b \<le> n \<and> n < c \<longrightarrow> P n)"
  using assms by (meson le_less_trans less_le_trans linorder_not_less order_trans)

lemma va_path_eq_iff: "va_path va = va_path va' \<longleftrightarrow> same_page va va'"
proof -
  have m: "x AND 0x1FF = take_bit 9 x" for x :: u64
    by (simp add: take_bit_eq_mask mask_eq_exp_minus_1)
  let ?P = "\<lambda>n. bit va n = bit va' n"
  have "va_path va = va_path va' \<longleftrightarrow>
      (\<forall>n. 39 \<le> n \<and> n < 48 \<longrightarrow> ?P n) \<and> (\<forall>n. 30 \<le> n \<and> n < 39 \<longrightarrow> ?P n) \<and>
      (\<forall>n. 21 \<le> n \<and> n < 30 \<longrightarrow> ?P n) \<and> (\<forall>n. 12 \<le> n \<and> n < 21 \<longrightarrow> ?P n)"
    by (simp add: va_path_def PML4_INDEX_def PDPT_INDEX_def PD_INDEX_def PT_INDEX_def m bit_field_eq)
  also have "\<dots> \<longleftrightarrow> (\<forall>n. 12 \<le> n \<and> n < 48 \<longrightarrow> ?P n)"
    using all_split [of 12 21 48 ?P] all_split [of 21 30 48 ?P] all_split [of 30 39 48 ?P]
    by (simp add: conj_ac)
  also have "\<dots> \<longleftrightarrow> same_page va va'" by (simp add: same_page_def bit_field_eq)
  finally show ?thesis .
qed

section \<open>New address spaces\<close>

lemma aligned_forward_safe:
  assumes "aligned 4096 d" "aligned 4096 t" "d \<noteq> t"
  shows "forward_safe d t PAGE_SIZE"
proof -
  obtain k where "unat d = 4096 * k" using assms(1) by (rule aligned_pageE)
  moreover obtain l where "unat t = 4096 * l" "l < 4503599627370496" using assms(2) by (rule aligned_pageE)
  moreover have "unat d \<noteq> unat t" using assms(3) by (simp add: u64_eq_iff_unat)
  ultimately have "4096 \<le> unat (d - t)" by (auto simp: u64_sub_cases)
  then show ?thesis by (simp add: forward_safe_def PAGE_SIZE_def word_le_nat_alt)
qed

lemma load_memcpy_page:
  assumes "aligned 4096 t" "i < 512" "aligned 4096 d" "aligned 4096 u" "d \<noteq> u"
  shows "load_u64 (k_memcpy d u PAGE_SIZE m) (entry_addr t i) =
           (if t = d then load_u64 m (entry_addr u i) else load_u64 m (entry_addr t i))"
proof (cases "t = d")
  case True
  have "load_u64 (k_memcpy d u PAGE_SIZE m) (entry_addr t i) = load_u64 m (entry_addr u i)"
  proof (rule load_u64_cong)
    fix k :: nat assume k: "k < 8"
    have "entry_addr t i + of_nat k - d < PAGE_SIZE" using in_page_iff assms True k by blast
    then have "k_memcpy d u PAGE_SIZE m (entry_addr t i + of_nat k) =
        m (u + (entry_addr t i + of_nat k - d))"
      by (simp add: k_memcpy_apply aligned_forward_safe assms)
    also have "u + (entry_addr t i + of_nat k - d) = entry_addr u i + of_nat k"
      by (simp add: True entry_addr_def)
    finally show "k_memcpy d u PAGE_SIZE m (entry_addr t i + of_nat k) =
        m (entry_addr u i + of_nat k)" .
  qed
  then show ?thesis using True by simp
next
  case False
  have "load_u64 (k_memcpy d u PAGE_SIZE m) (entry_addr t i) = load_u64 m (entry_addr t i)"
    by (rule load_u64_cong)
      (use assms False in_page_iff in \<open>auto simp: k_memcpy_apply aligned_forward_safe\<close>)
  then show ?thesis using False by simp
qed

text \<open>
  A top-level table \<open>K\<close> copied into the free frame \<open>f\<close>: the copy resolves as the original, and both are
  well-formed.
\<close>

lemma root_copied:
  assumes ok: "vm_ok s K"
    and f: "f \<in> free_set (vm_pmm s)" "unat f < 1048576"
    and pmm: "pmm_inv (vm_pmm s')" "free_set (vm_pmm s') = free_set (vm_pmm s) - {f}"
    and nz: "new \<noteq> 0" and new: "new = f * PMM_PAGE_SIZE + hhdm_offset s"
    and off: "hhdm_offset s' = hhdm_offset s"
    and load: "\<And>t i. aligned 4096 t \<Longrightarrow> i < 512 \<Longrightarrow> load_u64 (vm_mem s') (entry_addr t i) =
      load_u64 (vm_mem s) (entry_addr (if t = new then K else t) i)"
  shows "pte s' K = pte s K" "pte s' new = pte s K" "vm_ok s' K" "vm_ok s' new" "K \<noteq> new" "aligned 4096 new"
proof -
  show al: "aligned 4096 new" unfolding new
    using ok f(2) by (intro aligned_add) (simp_all add: vm_ok_def aligned_frame)
  have K: "aligned 4096 K" using ok by (simp add: vm_ok_def)
  have frame: "table_frame s new = f" unfolding new by (rule table_frame_new [OF f(2)])
  have diff: "t \<noteq> new" if "table_path p" "descend s K p = Some t" for p t
    using vm_ok_table(3) [OF ok that] frame f(1) by auto
  show Kn: "K \<noteq> new" using diff [of "[]"] by simp
  have "touches_only s s' K [] 512"
    using load diff vm_ok_table(2) [OF ok] off by (auto simp: touches_only_def)
  then have dK: "descend s' K p = descend s K p" if "table_path p" for p
    using descend_touches_only [of s s' K "[]" 512 p] that by (cases p) auto
  have dn: "descend s' new p = (if p = [] then Some new else descend s K p)" if "table_path p" for p
    using that dK [OF that] load [OF al, of "hd p"] load [OF K, of "hd p"] Kn
    by (cases p) (auto simp: Let_def)
  have pteK: "pte s' K (p @ [i]) = pte s K (p @ [i])"
    and pten: "pte s' new (p @ [i]) = pte s K (p @ [i])" for p i
    using dK dn load vm_ok_table(2) [OF ok, of p] diff [of p] al
    by (auto simp: pte_snoc split: option.splits if_splits)
  show 1: "pte s' K = pte s K"
  proof
    fix q show "pte s' K q = pte s K q"
      using pteK [of "butlast q" "last q"] by (cases "q = []") (simp_all add: pte_empty)
  qed
  show 2: "pte s' new = pte s K"
  proof
    fix q show "pte s' new q = pte s K q"
      using pten [of "butlast q" "last q"] by (cases "q = []") (simp_all add: pte_empty)
  qed
  show "vm_ok s' K"
    by (rule vm_ok_cong [OF ok]) (use pmm off dK 1 vm_ok_top [OF ok] in auto)
  show "vm_ok s' new"
    unfolding vm_ok_def
  proof (intro conjI allI impI)
    fix p t assume p: "table_path p" "descend s' new p = Some t"
    show "t \<noteq> 0" "table_frame s' t \<notin> free_set (vm_pmm s')"
      using p dn nz frame pmm(2) vm_ok_table [OF ok p(1), of t]
      by (auto simp: off table_frame_def split: if_splits)
  next
    fix p q t assume p: "table_path p" "table_path q" "descend s' new p = Some t" "descend s' new q = Some t"
    show "p = q"
      using p dn diff vm_ok_tree [OF ok p(1,2)] by (auto split: if_splits)
  qed (use ok al pmm off 2 vm_ok_top [OF ok] in \<open>auto simp: vm_ok_def\<close>)
qed

text \<open>The state after a successful \<open>page_table_create\<close> in the free frame \<open>f\<close>.\<close>

definition with_copied_root :: "u64 \<Rightarrow> pmm_state \<Rightarrow> vm_state \<Rightarrow> vm_state" where
  "with_copied_root f pmm s =
     (let new = f * PMM_PAGE_SIZE + hhdm_offset s in
      s\<lparr>vm_pmm := pmm,
        vm_mem := k_memcpy new (kernel_pml4 s) PAGE_SIZE (k_memset new 0 PAGE_SIZE (vm_mem s))\<rparr>)"

lemma fresh_root:
  assumes "vm_ok s K" "f \<in> free_set (vm_pmm s)" "unat f < 1048576"
  shows "K \<noteq> f * PMM_PAGE_SIZE + hhdm_offset s" "aligned 4096 (f * PMM_PAGE_SIZE + hhdm_offset s)" "aligned 4096 K"
proof -
  show "K \<noteq> f * PMM_PAGE_SIZE + hhdm_offset s"
    using vm_ok_table(3) [OF assms(1), of "[]"] table_frame_new [OF assms(3), of s] assms(2) by auto
  show "aligned 4096 (f * PMM_PAGE_SIZE + hhdm_offset s)" "aligned 4096 K"
    using assms(1,3) by (auto simp: vm_ok_def aligned_frame intro: aligned_add)
qed

lemma copied_root:
  assumes ok: "vm_ok s (kernel_pml4 s)"
    and f: "f \<in> free_set (vm_pmm s)" "unat f < 1048576"
    and pmm: "pmm_inv pmm" "free_set pmm = free_set (vm_pmm s) - {f}"
    and nz: "new \<noteq> 0" and new: "new = f * PMM_PAGE_SIZE + hhdm_offset s"
    and s': "s' = with_copied_root f pmm s"
  shows "pte s' (kernel_pml4 s) = pte s (kernel_pml4 s)" "pte s' new = pte s (kernel_pml4 s)"
    and "vm_ok s' (kernel_pml4 s)" "vm_ok s' new"
proof -
  have load: "load_u64 (vm_mem s') (entry_addr t i) =
      load_u64 (vm_mem s) (entry_addr (if t = new then kernel_pml4 s else t) i)"
    if "aligned 4096 t" "i < 512" for t i
    using that fresh_root [OF ok f]
    by (auto simp: s' with_copied_root_def Let_def load_memcpy_page load_memset_page simp flip: new)
  have p: "pmm_inv (vm_pmm s')" "free_set (vm_pmm s') = free_set (vm_pmm s) - {f}" "hhdm_offset s' = hhdm_offset s"
    using pmm by (simp_all add: s' with_copied_root_def Let_def)
  from root_copied(1-4) [OF ok f p(1,2) nz new p(3) load]
  show "pte s' (kernel_pml4 s) = pte s (kernel_pml4 s)" "pte s' new = pte s (kernel_pml4 s)"
    "vm_ok s' (kernel_pml4 s)" "vm_ok s' new" by simp_all
qed

text \<open>
  \<open>paging_init\<close>: the kernel's own top-level table is a copy of the one the loader left in CR3, and is the
  active one from then on.
\<close>

lemma paging_init_effect:
  assumes ok: "vm_ok s (page_table_current_root s)" and r: "hhdm_ready s" "kernel_pml4 s = 0"
    and fr: "free_set (vm_pmm s) \<noteq> {}" "\<not> null_frame s"
  obtains f where "f \<in> free_set (vm_pmm s)" "free_set (vm_pmm (paging_init s)) = free_set (vm_pmm s) - {f}"
    "vm_ok (paging_init s) (page_table_active_root (paging_init s))"
    "pte (paging_init s) (page_table_active_root (paging_init s)) = pte s (page_table_current_root s)"
    "hhdm_offset (paging_init s) = hhdm_offset s" "hhdm_ready (paging_init s)"
    "kernel_pml4 (paging_init s) = f * PMM_PAGE_SIZE + hhdm_offset s" "kernel_pml4 (paging_init s) \<noteq> 0"
    "cr3 (paging_init s) = f * PMM_PAGE_SIZE" "kernel_pml4_physical (paging_init s) = f * PMM_PAGE_SIZE"
    "f * PMM_PAGE_SIZE \<noteq> 0" "f * PMM_PAGE_SIZE AND PAGE_TABLE_ADDRESS_MASK = f * PMM_PAGE_SIZE"
proof -
  have inv: "pmm_inv (vm_pmm s)" using ok by (simp add: vm_ok_def)
  obtain a pmm where al: "pmm_alloc_page (vm_pmm s) = (a, pmm)" by (cases "pmm_alloc_page (vm_pmm s)")
  then have a: "a \<noteq> 0" using alloc_null [OF inv] fr(1) by auto
  obtain f where f: "f \<in> free_set (vm_pmm s)" "unat f < 1048576" "a = f * PMM_PAGE_SIZE"
    "pmm_inv pmm" "free_set pmm = free_set (vm_pmm s) - {f}"
    by (rule alloc_frame_address [OF inv al a])
  define new where "new = f * PMM_PAGE_SIZE + hhdm_offset s"
  have nz: "new \<noteq> 0" using fr(2) f(1) by (auto simp: null_frame_def new_def)
  let ?K = "page_table_current_root s"
  have K: "?K \<noteq> 0" using vm_ok_table(1) [OF ok, of "[]"] by simp
  note fresh = fresh_root [OF ok f(1,2), folded new_def]
  define s' where "s' = s\<lparr>vm_pmm := pmm, vm_mem := k_memcpy new ?K PAGE_SIZE (vm_mem s), kernel_pml4_physical := a,
    kernel_pml4 := new, cr3 := a, active_pml4_physical := a\<rparr>"
  have e: "paging_init s = s'"
    using al a r K nz f(3)
    by (simp add: paging_init_def page_table_init_def page_table_activate_def write_cr3_def Let_def s'_def new_def
        page_table_physical_to_virtual_def page_table_current_root_def)
  have load: "load_u64 (vm_mem s') (entry_addr t i) = load_u64 (vm_mem s) (entry_addr (if t = new then ?K else t) i)"
    if "aligned 4096 t" "i < 512" for t i
    using that fresh by (simp add: s'_def load_memcpy_page)
  have p: "pmm_inv (vm_pmm s')" "free_set (vm_pmm s') = free_set (vm_pmm s) - {f}" "hhdm_offset s' = hhdm_offset s"
    using f by (simp_all add: s'_def)
  note c = root_copied [OF ok f(1,2) p(1,2) nz new_def p(3) load]
  have "page_table_active_root s' = new" using nz by (simp add: page_table_active_root_def s'_def)
  moreover have "f * PMM_PAGE_SIZE AND PAGE_TABLE_ADDRESS_MASK = f * PMM_PAGE_SIZE"
    by (rule bit_eqI) (auto simp: bit_and_iff dest: bit_small_page [OF f(2)])
  ultimately show thesis using c p f(1,3) e r nz a by (intro that [of f]) (simp_all add: s'_def new_def)
qed

section \<open>User mappings\<close>

text \<open>Setting flag bits in an entry that leads to a table leaves the tree as it is.\<close>

lemma relink_descend:
  assumes ok: "vm_ok s root" and p: "table_path p" "i < 512" "descend s root p = Some t"
    and old: "links (load_u64 (vm_mem s) (entry_addr t i))" and v: "links v"
    and same: "v AND PAGE_TABLE_ADDRESS_MASK =
                 load_u64 (vm_mem s) (entry_addr t i) AND PAGE_TABLE_ADDRESS_MASK"
    and s': "s' = s\<lparr>vm_mem := store_u64 (entry_addr t i) v (vm_mem s)\<rparr>"
  shows "table_path q \<Longrightarrow> descend s' root q = descend s root q"
proof (induction q rule: rev_induct)
  case (snoc j q)
  have t: "touches_only s s' root p i" unfolding s' by (rule touches_store [OF ok p])
  have IH: "descend s' root q = descend s root q" using snoc by simp
  show ?case
  proof (cases "descend s root q")
    case (Some u)
    show ?thesis
    proof (cases "(q, j) = (p, i)")
      case True
      then show ?thesis using IH Some p old v same
        by (simp add: descend_append s' load_store_same page_table_physical_to_virtual_def)
    next
      case False
      then have "load_u64 (vm_mem s') (entry_addr u j) = load_u64 (vm_mem s) (entry_addr u j)"
        using t Some snoc.prems by (auto simp: touches_only_def)
      then show ?thesis using IH Some t
        by (simp add: descend_append Let_def touches_only_def page_table_physical_to_virtual_def)
    qed
  qed (simp add: IH descend_append)
qed simp

lemma relink:
  assumes ok: "vm_ok s root" and p: "table_path p" "i < 512" "descend s root p = Some t"
    and old: "links (load_u64 (vm_mem s) (entry_addr t i))" and v: "links v"
    and same: "v AND PAGE_TABLE_ADDRESS_MASK =
                 load_u64 (vm_mem s) (entry_addr t i) AND PAGE_TABLE_ADDRESS_MASK"
    and s': "s' = s\<lparr>vm_mem := store_u64 (entry_addr t i) v (vm_mem s)\<rparr>"
  shows "vm_ok s' root" "pte s' root = (pte s root)(p @ [i] := v)"
proof -
  note d = relink_descend [OF ok p old v same s']
  have t: "touches_only s s' root p i" unfolding s' by (rule touches_store [OF ok p])
  have snoc: "pte s' root (q @ [j]) = ((pte s root)(p @ [i] := v)) (q @ [j])" for q j
  proof (cases "table_path q \<and> j < 512 \<and> (q, j) \<noteq> (p, i)")
    case True
    then show ?thesis using d t by (auto simp: pte_snoc touches_only_def split: option.splits)
  next
    case False
    have "vm_mem s' = store_u64 (entry_addr t i) v (vm_mem s)" by (simp add: s')
    then have "pte s' root (p @ [i]) = v"
      using d [OF p(1)] p load_store_same by (simp add: pte_snoc)
    moreover have "pte s' root (q @ [j]) = 0 \<and> pte s root (q @ [j]) = 0" if "(q, j) \<noteq> (p, i)"
      unfolding pte_snoc using False that by argo
    ultimately show ?thesis by (cases "(q, j) = (p, i)") auto
  qed
  show p': "pte s' root = (pte s root)(p @ [i] := v)"
  proof
    fix q show "pte s' root q = ((pte s root)(p @ [i] := v)) q"
      using snoc [of "butlast q" "last q"] by (cases "q = []") (simp_all add: pte_empty)
  qed
  show "vm_ok s' root"
    by (rule vm_ok_cong [OF ok]) (use ok d p' v vm_ok_top [OF ok] in \<open>auto simp: vm_ok_def s'\<close>)
qed

lemma user_bit:
  "links e \<Longrightarrow> links (e OR PAGE_USER)"
  "(e OR PAGE_USER) AND PAGE_TABLE_ADDRESS_MASK = e AND PAGE_TABLE_ADDRESS_MASK"
proof -
  show "links e \<Longrightarrow> links (e OR PAGE_USER)" by (simp add: flag_test bit_or_iff bit_small_flags)
  show "(e OR PAGE_USER) AND PAGE_TABLE_ADDRESS_MASK = e AND PAGE_TABLE_ADDRESS_MASK"
    by (rule bit_eqI) (auto simp: bit_or_iff bit_and_iff bit_small_flags)
qed

lemma or_entry_user:
  assumes ok: "vm_ok s root" and n: "n < 3" and d: "descend s root (take n (va_path va)) = Some t"
    and l: "links (pte s root (take (Suc n) (va_path va)))"
    and s': "s' = or_entry (entry_addr t (va_path va ! n)) PAGE_USER s"
  shows "vm_ok s' root"
    and "pte s' root = (pte s root)(take (Suc n) (va_path va) :=
           pte s root (take (Suc n) (va_path va)) OR PAGE_USER)"
    and "table_path q \<Longrightarrow> descend s' root q = descend s root q"
    and "hhdm_offset s' = hhdm_offset s"
proof -
  have e: "take (Suc n) (va_path va) = take n (va_path va) @ [va_path va ! n]"
    using n by (simp add: take_Suc_conv_app_nth)
  have tp: "table_path (take n (va_path va))" "va_path va ! n < 512"
    using n by (auto simp: table_path_def va_path_def less_Suc_eq numeral_eq_Suc dest!: in_set_takeD)
  have v: "load_u64 (vm_mem s) (entry_addr t (va_path va ! n)) = pte s root (take (Suc n) (va_path va))"
    using path_entry [OF _ d] n by simp
  note r = l user_bit(1) [OF l] user_bit(2) s' [unfolded or_entry_def]
  show "vm_ok s' root" "pte s' root = (pte s root)(take (Suc n) (va_path va) :=
      pte s root (take (Suc n) (va_path va)) OR PAGE_USER)"
    using relink [OF ok tp d, unfolded v, OF r [unfolded v]] by (simp_all add: e)
  show "table_path q \<Longrightarrow> descend s' root q = descend s root q"
    using relink_descend [OF ok tp d, unfolded v, OF r [unfolded v]] .
  show "hhdm_offset s' = hhdm_offset s" by (simp add: s' or_entry_def)
qed

definition same_shape :: "(u64 list \<Rightarrow> u64) \<Rightarrow> (u64 list \<Rightarrow> u64) \<Rightarrow> bool" where
  "same_shape A A' \<longleftrightarrow>
     (\<forall>p. A' p = A p \<or> length p \<le> 3 \<and> links (A p) \<and> links (A' p))"

lemma resolve_same_shape:
  assumes "same_shape A A'" shows "resolve A' va = resolve A va"
proof -
  let ?A = "\<lambda>n. A (take n (va_path va))" and ?B = "\<lambda>n. A' (take n (va_path va))"
  have s: "?B n = ?A n \<or> links (?A n) \<and> links (?B n)" for n using assms by (auto simp: same_shape_def)
  have leaf: "?B 4 = ?A 4" using assms unfolding same_shape_def by force
  have flags: "page_is_present (?B n) = page_is_present (?A n)" "large_page (?B n) = large_page (?A n)" for n
    using s [of n] large_not_links by (auto simp: links_or_large)
  have large: "?B n = ?A n" if "large_page (?A n)" for n using s [of n] that large_not_links by auto
  show ?thesis
    using flags [of 1] flags [of 2] flags [of 3] leaf large [of 2] large [of 3]
    by (auto simp: resolve_def Let_def)
qed

text \<open>The three table links on the path get the user bit.\<close>

lemma user_path:
  assumes ok: "vm_ok s root" and d: "descend s root (take 3 (va_path va)) = Some pt"
  defines "e \<equiv> \<lambda>n. pte s root (take n (va_path va))"
  obtains pdpt pd where
    "page_table_physical_to_virtual s (e 1 AND PAGE_TABLE_ADDRESS_MASK) = pdpt"
    "page_table_physical_to_virtual s (e 2 AND PAGE_TABLE_ADDRESS_MASK) = pd"
    "descend s root (take 1 (va_path va)) = Some pdpt"
    "descend s root (take 2 (va_path va)) = Some pd"
    "load_u64 (vm_mem s) (entry_addr root (PML4_INDEX va)) = e 1"
    "load_u64 (vm_mem s) (entry_addr pdpt (PDPT_INDEX va)) = e 2"
    "load_u64 (vm_mem s) (entry_addr pd (PD_INDEX va)) = e 3"
proof -
  note l = linked_path [OF d]
  have d0: "descend s root (take 0 (va_path va)) = Some root" by simp
  have e1: "load_u64 (vm_mem s) (entry_addr root (PML4_INDEX va)) = e 1"
    using path_entry [OF _ d0] by (simp add: va_path_nth e_def)
  obtain pdpt where d1: "descend s root (take 1 (va_path va)) = Some pdpt"
    and t1: "page_table_physical_to_virtual s (e 1 AND PAGE_TABLE_ADDRESS_MASK) = pdpt"
    using path_step(1) [OF ok _ d0] l(1) e1 by (simp add: va_path_nth)
  have e2: "load_u64 (vm_mem s) (entry_addr pdpt (PDPT_INDEX va)) = e 2"
    using path_entry [OF _ d1] by (simp add: va_path_nth [unfolded One_nat_def] e_def numeral_2_eq_2)
  obtain pd where d2: "descend s root (take 2 (va_path va)) = Some pd"
    and t2: "page_table_physical_to_virtual s (e 2 AND PAGE_TABLE_ADDRESS_MASK) = pd"
    using path_step(1) [OF ok _ d1] l(2) e2 by (simp add: va_path_nth [unfolded One_nat_def] numeral_2_eq_2)
  have e3: "load_u64 (vm_mem s) (entry_addr pd (PD_INDEX va)) = e 3"
    using path_entry [OF _ d2] by (simp add: va_path_nth e_def numeral_3_eq_3)
  show thesis by (rule that [OF t1 t2 d1 d2 e1 e2 e3])
qed

lemma same_shape_trans: "same_shape A B \<Longrightarrow> same_shape B C \<Longrightarrow> same_shape A C"
  unfolding same_shape_def by metis

lemma same_shape_links: "same_shape A B \<Longrightarrow> links (A p) \<Longrightarrow> links (B p)"
  unfolding same_shape_def by metis

lemma user_or: "page_is_user (e OR PAGE_USER)" "page_is_user e \<Longrightarrow> page_is_user (e OR v)"
proof -
  have u: "PAGE_USER = 2 ^ 2" by (simp add: PAGE_USER_def)
  have "page_is_user e \<longleftrightarrow> bit e 2" for e
    unfolding page_is_user_def u by (simp only: and_exp_eq_0_iff_not_bit not_not)
  then show "page_is_user (e OR PAGE_USER)" "page_is_user e \<Longrightarrow> page_is_user (e OR v)"
    by (simp_all add: bit_or_iff bit_small_flags)
qed

lemma user_step:
  assumes ok: "vm_ok s root" and n: "n < 3" and d: "descend s root (take n (va_path va)) = Some t"
    and l: "links (pte s root (take (Suc n) (va_path va)))"
    and s': "s' = or_entry (entry_addr t (va_path va ! n)) PAGE_USER s"
  shows "vm_ok s' root" "same_shape (pte s root) (pte s' root)"
    "page_is_user (pte s' root (take (Suc n) (va_path va)))"
    "page_is_user (pte s root q) \<Longrightarrow> page_is_user (pte s' root q)"
    "table_path q \<Longrightarrow> descend s' root q = descend s root q"
  using or_entry_user [OF ok n d l s'] user_or user_bit(1) [OF l] n l
  by (auto simp: same_shape_def)

lemma store_keeps_data:
  assumes ok: "vm_ok s root" and p: "table_path p" "i < 512" "descend s root p = Some t"
    and s': "s' = s\<lparr>vm_mem := store_u64 (entry_addr t i) v (vm_mem s)\<rparr>"
    and d: "\<And>q. table_path q \<Longrightarrow> descend s' root q = descend s root q"
  shows "keeps_data root s s'"
  unfolding keeps_data_def
proof (intro allI impI conjI)
  fix u assume u: "data_page s root u"
  show "data_page s' root u" using u d by (auto simp: data_page_def s' table_frame_def)
  have "u \<noteq> t" using u p by (auto simp: data_page_def)
  then show "same_bytes u s s'"
    using store_keeps_page [OF vm_ok_table(2) [OF ok p(1,3)] p(2), of u] u
    by (simp add: same_bytes_def data_page_def s')
qed

lemma user_step_keeps_data:
  assumes ok: "vm_ok s root" and n: "n < 3" and d: "descend s root (take n (va_path va)) = Some t"
    and l: "links (pte s root (take (Suc n) (va_path va)))"
    and s': "s' = or_entry (entry_addr t (va_path va ! n)) PAGE_USER s"
  shows "keeps_data root s s'"
proof (rule store_keeps_data [OF ok _ _ d s' [unfolded or_entry_def]])
  show "table_path (take n (va_path va))" "va_path va ! n < 512"
    using n by (auto simp: table_path_def va_path_def less_Suc_eq numeral_eq_Suc dest!: in_set_takeD)
  show "\<And>q. table_path q \<Longrightarrow> descend s' root q = descend s root q" by (rule user_step(5) [OF ok n d l s'])
qed

lemma user_links:
  assumes ok: "vm_ok s root" and d: "descend s root (take 3 (va_path va)) = Some pt"
    and pdpt: "descend s root (take 1 (va_path va)) = Some pdpt"
    and pd: "descend s root (take 2 (va_path va)) = Some pd"
    and s': "s' = or_entry (entry_addr pd (PD_INDEX va)) PAGE_USER
        (or_entry (entry_addr pdpt (PDPT_INDEX va)) PAGE_USER
          (or_entry (entry_addr root (PML4_INDEX va)) PAGE_USER s))"
  shows "vm_ok s' root" "same_shape (pte s root) (pte s' root)"
    "descend s' root (take 3 (va_path va)) = Some pt"
    "n \<in> {1, 2, 3} \<Longrightarrow> page_is_user (pte s' root (take n (va_path va)))"
    "keeps_data root s s'"
    "page_is_user (pte s root q) \<Longrightarrow> page_is_user (pte s' root q)"
proof -
  define s1 where "s1 = or_entry (entry_addr root (va_path va ! 0)) PAGE_USER s"
  define s2 where "s2 = or_entry (entry_addr pdpt (va_path va ! 1)) PAGE_USER s1"
  have s3: "s' = or_entry (entry_addr pd (va_path va ! 2)) PAGE_USER s2"
    by (simp add: s' s2_def s1_def va_path_nth [unfolded One_nat_def] va_path_nth)
  have tp: "table_path (take n (va_path va))" if "n \<le> 3" for n
    using that by (auto simp: table_path_def va_path_def dest!: in_set_takeD)
  note l = linked_path [OF d]
  have d0: "descend s root (take 0 (va_path va)) = Some root"
    and l1: "links (pte s root (take (Suc 0) (va_path va)))" using l by simp_all
  have c: "(0 :: nat) < 3" "(1 :: nat) < 3" "(2 :: nat) < 3" by simp_all
  note u1 = user_step [OF ok c(1) d0 l1 s1_def]
  have d1: "descend s1 root (take 1 (va_path va)) = Some pdpt"
    and l2: "links (pte s1 root (take (Suc 1) (va_path va)))"
    using u1(5) [OF tp [of 1]] pdpt same_shape_links [OF u1(2) l(2)] by (simp_all add: numeral_2_eq_2)
  note u2 = user_step [OF u1(1) c(2) d1 l2 s2_def]
  have d2: "descend s2 root (take 2 (va_path va)) = Some pd"
    and l3: "links (pte s2 root (take (Suc 2) (va_path va)))"
    using u2(5) [OF tp [of 2]] u1(5) [OF tp [of 2]] pd
      same_shape_links [OF u2(2) same_shape_links [OF u1(2) l(3)]] by (simp_all add: numeral_3_eq_3)
  note u3 = user_step [OF u2(1) c(3) d2 l3 s3]
  show "vm_ok s' root" using u3(1) by simp
  show "same_shape (pte s root) (pte s' root)"
    using same_shape_trans [OF u1(2) same_shape_trans [OF u2(2) u3(2)]] by simp
  show "descend s' root (take 3 (va_path va)) = Some pt"
    using u3(5) [OF tp [of 3]] u2(5) [OF tp [of 3]] u1(5) [OF tp [of 3]] d by simp
  show "n \<in> {1, 2, 3} \<Longrightarrow> page_is_user (pte s' root (take n (va_path va)))"
    using u1(3) u2(3,4) u3(3,4) by (auto simp: numeral_2_eq_2 numeral_3_eq_3)
  show "keeps_data root s s'"
    using user_step_keeps_data [OF ok c(1) d0 l1 s1_def] user_step_keeps_data [OF u1(1) c(2) d1 l2 s2_def]
      user_step_keeps_data [OF u2(1) c(3) d2 l3 s3] by (blast intro: keeps_data_trans)
  show "page_is_user (pte s root q) \<Longrightarrow> page_is_user (pte s' root q)" using u1(4) u2(4) u3(4) by blast
qed

definition user_flags :: "bool \<Rightarrow> u64" where
  "user_flags w = (if w then (PAGE_PRESENT OR PAGE_USER) OR PAGE_WRITABLE else PAGE_PRESENT OR PAGE_USER)"

lemma user_leaf:
  "page_is_present (pa OR user_flags w)" "page_is_user (pa OR user_flags w)"
  "(pa OR user_flags w) AND PAGE_TABLE_ADDRESS_MASK = pa AND PAGE_TABLE_ADDRESS_MASK"
proof -
  show "page_is_present (pa OR user_flags w)"
    by (auto simp: user_flags_def flag_test bit_or_iff bit_small_flags)
  show "page_is_user (pa OR user_flags w)"
    using user_or(2) [OF user_or(1) [of "pa OR PAGE_PRESENT"], of PAGE_WRITABLE] user_or(1) [of "pa OR PAGE_PRESENT"]
    by (auto simp: user_flags_def ac_simps or.assoc or.commute or.left_commute)
  show "(pa OR user_flags w) AND PAGE_TABLE_ADDRESS_MASK = pa AND PAGE_TABLE_ADDRESS_MASK"
    by (rule bit_eqI) (auto simp: user_flags_def bit_or_iff bit_and_iff bit_small_flags)
qed

lemma same_regs_or_entry: "same_regs s (or_entry a v s)" "vm_pmm (or_entry a v s) = vm_pmm s"
  by (simp_all add: same_regs_def or_entry_def)

lemma same_regs_trans: "same_regs s s' \<Longrightarrow> same_regs s' s'' \<Longrightarrow> same_regs s s''"
  by (simp add: same_regs_def)

text \<open>The walk either fails, having added tables only, or reaches the entry, which is stored after the user bits.\<close>

lemma map_user_cases:
  assumes ok: "vm_ok s root" and r: "page_table_map_user root va pa w s = (b, s')"
  obtains (failed) "\<not> b" "grown root 3 s s'"
      "blocked (pte s root) va \<or> card (free_set (vm_pmm s)) < 3 \<or> null_frame s"
    | (mapped) s1 s4 pt where "b" "grown root 3 s s1" "vm_ok s4 root" "same_shape (pte s1 root) (pte s4 root)"
        "keeps_data root s1 s4" "same_regs s1 s4" "vm_pmm s4 = vm_pmm s1"
        "descend s4 root (take 3 (va_path va)) = Some pt"
        "\<And>n. n \<in> {1, 2, 3} \<Longrightarrow> page_is_user (pte s4 root (take n (va_path va)))"
        "\<And>q. page_is_user (pte s1 root q) \<Longrightarrow> page_is_user (pte s4 root q)"
        "s' = s4\<lparr>vm_mem := store_u64 (entry_addr pt (PT_INDEX va)) (pa OR user_flags w) (vm_mem s4)\<rparr>"
proof -
  obtain entry level st s1 where wk: "page_walk_internal root va True s = (entry, level, st, s1)"
    by (metis prod_cases4)
  have post: "create_post root 3 va s (entry, level, st, s1)"
    using page_walk_create [OF ok, of va] wk by simp
  then have g: "grown root 3 s s1" and ok1: "vm_ok s1 root" by (auto simp: create_post_def grown_def)
  show thesis
  proof (cases "entry = 0")
    case True
    then have "\<not> b" "s' = s1" using r wk by (simp_all add: page_table_map_user_def page_walk_def)
    then show thesis using post True g by (intro failed) (auto simp: create_post_def)
  next
    case False
    then obtain pt where pt: "descend s1 root (take 3 (va_path va)) = Some pt"
      "entry = entry_addr pt (PT_INDEX va)" using post by (auto simp: create_post_def)
    obtain pdpt pd where t: "page_table_physical_to_virtual s1 (pte s1 root (take 1 (va_path va)) AND PAGE_TABLE_ADDRESS_MASK) = pdpt"
      "page_table_physical_to_virtual s1 (pte s1 root (take 2 (va_path va)) AND PAGE_TABLE_ADDRESS_MASK) = pd"
      and d: "descend s1 root (take 1 (va_path va)) = Some pdpt" "descend s1 root (take 2 (va_path va)) = Some pd"
      and e: "load_u64 (vm_mem s1) (entry_addr root (PML4_INDEX va)) = pte s1 root (take 1 (va_path va))"
        "load_u64 (vm_mem s1) (entry_addr pdpt (PDPT_INDEX va)) = pte s1 root (take 2 (va_path va))"
      by (rule user_path [OF ok1 pt(1)])
    define s4 where "s4 = or_entry (entry_addr pd (PD_INDEX va)) PAGE_USER
        (or_entry (entry_addr pdpt (PDPT_INDEX va)) PAGE_USER
          (or_entry (entry_addr root (PML4_INDEX va)) PAGE_USER s1))"
    note u = user_links [OF ok1 pt(1) d s4_def]
    have al: "aligned 4096 root" "aligned 4096 pdpt"
      using ok1 vm_ok_table(2) [OF ok1 _ d(1)] by (simp_all add: vm_ok_def va_path_def)
    have "root \<noteq> pdpt"
      using vm_ok_tree [OF ok1, of "[]" "take 1 (va_path va)" root] d(1) by (auto simp: va_path_def)
    then have "load_u64 (vm_mem (or_entry (entry_addr root (PML4_INDEX va)) PAGE_USER s1))
        (entry_addr pdpt (PDPT_INDEX va)) = pte s1 root (take 2 (va_path va))"
      using al e(2) by (simp add: or_entry_def load_store_aligned entry_addr_aligned entry_addr_inj)
    then have b and s': "s' = s4\<lparr>vm_mem := store_u64 (entry_addr pt (PT_INDEX va)) (pa OR user_flags w) (vm_mem s4)\<rparr>"
      using r wk False pt(2) t e
      by (auto simp: page_table_map_user_def page_walk_def Let_def user_flags_def s4_def
          page_table_physical_to_virtual_def or_entry_def)
    have "same_regs s1 s4" "vm_pmm s4 = vm_pmm s1"
      unfolding s4_def by (blast intro: same_regs_trans same_regs_or_entry(1)) (simp add: same_regs_or_entry(2))
    from mapped [OF \<open>b\<close> g u(1,2,5) this u(3,4,6) s'] show thesis .
  qed
qed

lemma page_table_map_user_effect:
  assumes ok: "vm_ok s root" and r: "page_table_map_user root va pa w s = (b, s')"
  shows "vm_ok s' root"
    and "resolve (pte s' root) va' =
      (if b \<and> va_path va' = va_path va
       then Some ((pa AND PAGE_TABLE_ADDRESS_MASK) OR (va' AND (PAGE_SIZE - 1)))
       else resolve (pte s root) va')"
    and "b \<Longrightarrow> n \<in> {1, 2, 3, 4} \<Longrightarrow> page_is_user (pte s' root (take n (va_path va)))"
proof -
  have "vm_ok s' root \<and> resolve (pte s' root) va' =
      (if b \<and> va_path va' = va_path va
       then Some ((pa AND PAGE_TABLE_ADDRESS_MASK) OR (va' AND (PAGE_SIZE - 1)))
       else resolve (pte s root) va') \<and>
      (b \<longrightarrow> n \<in> {1, 2, 3, 4} \<longrightarrow> page_is_user (pte s' root (take n (va_path va))))"
    using ok r
  proof (cases rule: map_user_cases)
    case failed
    then show ?thesis using resolve_extends by (auto simp: grown_def)
  next
    case (mapped s1 s4 pt)
    have "table_path (take 3 (va_path va))" by (simp add: va_path_def)
    note leaf = store_leaf [OF mapped(3) this index_bounds(4) mapped(8) _ mapped(11)]
    have pte': "pte s' root = (pte s4 root)(va_path va := pa OR user_flags w)"
      using leaf(2) by (simp flip: va_path_split)
    have "resolve (pte s4 root) va' = resolve (pte s root) va'"
      using resolve_same_shape [OF mapped(4)] resolve_extends mapped(2) by (simp add: grown_def)
    moreover have "page_is_user (pte s' root (take n (va_path va)))" if n: "n \<in> {1, 2, 3, 4}"
    proof (cases "n = 4")
      case True
      then show ?thesis using user_leaf(2) by (simp add: pte')
    next
      case False
      then have "length (take n (va_path va)) \<noteq> length (va_path va)" using n by auto
      then have "take n (va_path va) \<noteq> va_path va" by metis
      then show ?thesis using mapped(9) [of n] n False by (simp add: pte')
    qed
    ultimately show ?thesis
      using leaf(1) mapped(1) user_leaf unfolding pte' resolve_leaf_update [OF mapped(8)] by simp
  qed
  then show "vm_ok s' root"
    and "resolve (pte s' root) va' =
      (if b \<and> va_path va' = va_path va
       then Some ((pa AND PAGE_TABLE_ADDRESS_MASK) OR (va' AND (PAGE_SIZE - 1)))
       else resolve (pte s root) va')"
    and "b \<Longrightarrow> n \<in> {1, 2, 3, 4} \<Longrightarrow> page_is_user (pte s' root (take n (va_path va)))" by blast+
qed

lemma same_shape_large: "same_shape A A' \<Longrightarrow> large_page (A' p) \<longleftrightarrow> large_page (A p)"
  unfolding same_shape_def using large_not_links by metis

lemma page_table_map_user_frame:
  assumes ok: "vm_ok s root" and r: "page_table_map_user root va pa w s = (b, s')"
  shows "keeps_data root s s'" and "same_regs s s'"
    and "free_set (vm_pmm s') \<subseteq> free_set (vm_pmm s)" and "total_pages (vm_pmm s') = total_pages (vm_pmm s)"
    and "card (free_set (vm_pmm s)) \<le> card (free_set (vm_pmm s')) + 3"
    and "blocked (pte s' root) va' \<longleftrightarrow> blocked (pte s root) va'"
    and "\<not> b \<Longrightarrow> blocked (pte s root) va \<or> card (free_set (vm_pmm s)) < 3 \<or> null_frame s"
proof -
  have "keeps_data root s s' \<and> same_regs s s' \<and> free_set (vm_pmm s') \<subseteq> free_set (vm_pmm s) \<and>
      total_pages (vm_pmm s') = total_pages (vm_pmm s) \<and> card (free_set (vm_pmm s)) \<le> card (free_set (vm_pmm s')) + 3 \<and>
      (blocked (pte s' root) va' \<longleftrightarrow> blocked (pte s root) va')"
    using ok r
  proof (cases rule: map_user_cases)
    case failed
    then show ?thesis using extends_large by (auto simp: grown_def blocked_def)
  next
    case (mapped s1 s4 pt)
    have p: "table_path (take 3 (va_path va))" "length (take 3 (va_path va)) = 3" by (simp_all add: va_path_def)
    note leaf = store_leaf [OF mapped(3) p(1) index_bounds(4) mapped(8) _ mapped(11)]
    have pte': "pte s' root = (pte s4 root)(va_path va := pa OR user_flags w)"
      using leaf(2) by (simp flip: va_path_split)
    have "descend s' root q = descend s4 root q" if "table_path q" for q
      unfolding mapped(11)
      by (rule descend_touches_only [OF touches_store [OF mapped(3) p(1) index_bounds(4) mapped(8)] that no_deeper [OF that p(2)]])
    then have "keeps_data root s4 s'" by (intro store_keeps_data [OF mapped(3) p(1) index_bounds(4) mapped(8) mapped(11)]) auto
    then have "keeps_data root s s'" using mapped(2,5) keeps_data_trans by (meson grown_def)
    moreover have "take n (va_path va') \<noteq> va_path va" if "n < 4" for n
    proof
      assume "take n (va_path va') = va_path va"
      then have "length (take n (va_path va')) = length (va_path va)" by simp
      then show False using that by simp
    qed
    then have "blocked (pte s' root) va' \<longleftrightarrow> blocked (pte s root) va'"
      using extends_large [of "pte s root" "pte s1 root"] same_shape_large [OF mapped(4)] mapped(2)
      by (simp add: blocked_def pte' grown_def)
    moreover have "same_regs s s'"
      using mapped(2,6,11) by (simp add: grown_def same_regs_def)
    moreover have "vm_pmm s' = vm_pmm s1" using mapped(7,11) by simp
    ultimately show ?thesis using mapped(2) by (simp add: grown_def)
  qed
  then show "keeps_data root s s'" "same_regs s s'" "free_set (vm_pmm s') \<subseteq> free_set (vm_pmm s)"
    "total_pages (vm_pmm s') = total_pages (vm_pmm s)" "card (free_set (vm_pmm s)) \<le> card (free_set (vm_pmm s')) + 3"
    "blocked (pte s' root) va' \<longleftrightarrow> blocked (pte s root) va'" by blast+
  show "\<not> b \<Longrightarrow> blocked (pte s root) va \<or> card (free_set (vm_pmm s)) < 3 \<or> null_frame s"
    using ok r by (cases rule: map_user_cases) auto
qed

text \<open>What the processor requires for an access from ring 3: present and user entries on all four levels.\<close>

definition user_access :: "(u64 list \<Rightarrow> u64) \<Rightarrow> u64 \<Rightarrow> bool" where
  "user_access A va \<longleftrightarrow> (\<forall>n \<in> {1, 2, 3, 4}. page_is_present (A (take n (va_path va))) \<and> page_is_user (A (take n (va_path va))))"

lemma user_access_extends: "extends A A' \<Longrightarrow> user_access A va \<Longrightarrow> user_access A' va"
  unfolding extends_def user_access_def by metis

lemma page_table_map_user_access:
  assumes ok: "vm_ok s root" and r: "page_table_map_user root va pa w s = (b, s')"
  shows "user_access (pte s root) va' \<Longrightarrow> user_access (pte s' root) va'" and "b \<Longrightarrow> user_access (pte s' root) va"
proof -
  have "(user_access (pte s root) va' \<longrightarrow> user_access (pte s' root) va') \<and> (b \<longrightarrow> user_access (pte s' root) va)"
    using ok r
  proof (cases rule: map_user_cases)
    case failed
    then show ?thesis using user_access_extends by (auto simp: grown_def)
  next
    case (mapped s1 s4 pt)
    have p: "table_path (take 3 (va_path va))" "length (take 3 (va_path va)) = 3" by (simp_all add: va_path_def)
    note leaf = store_leaf [OF mapped(3) p(1) index_bounds(4) mapped(8) _ mapped(11)]
    have pte': "pte s' root = (pte s4 root)(va_path va := pa OR user_flags w)"
      using leaf(2) by (simp flip: va_path_split)
    have present: "page_is_present (pte s4 root q)" if "page_is_present (pte s1 root q)" for q
      using mapped(4) that by (metis same_shape_def links_or_large)
    have "user_access (pte s' root) va'" if "user_access (pte s root) va'"
      using user_access_extends [of "pte s root" "pte s1 root"] that mapped(2,10) present user_leaf
      by (auto simp: user_access_def pte' grown_def)
    moreover have "user_access (pte s' root) va"
      unfolding user_access_def
    proof
      fix n :: nat assume n: "n \<in> {1, 2, 3, 4}"
      show "page_is_present (pte s' root (take n (va_path va))) \<and> page_is_user (pte s' root (take n (va_path va)))"
        using linked_path [OF mapped(8)] mapped(9) [of n] n user_leaf by (auto simp: pte' links_or_large)
    qed
    ultimately show ?thesis by blast
  qed
  then show "user_access (pte s root) va' \<Longrightarrow> user_access (pte s' root) va'" and "b \<Longrightarrow> user_access (pte s' root) va" by blast+
qed

section \<open>The contract of the mapping operations\<close>

text \<open>
  What the heap, demand paging and the process loader rely on: mapping and unmapping change the
  translation of one page and of nothing else. Inside the locale a client maps a list of pages, as
  the loops of its callers do.
\<close>

locale virtual_memory =
  fixes map_page :: "u64 \<Rightarrow> u64 \<Rightarrow> u64 \<Rightarrow> 's \<Rightarrow> bool \<times> 's"
    and unmap_page :: "u64 \<Rightarrow> 's \<Rightarrow> bool \<times> 's"
    and translate :: "u64 \<Rightarrow> 's \<Rightarrow> u64"
    and inv :: "'s \<Rightarrow> bool"
    and frame_at :: "u64 \<Rightarrow> u64 \<Rightarrow> u64"
  assumes map_inv: "inv s \<Longrightarrow> map_page va pa flags s = (b, s') \<Longrightarrow> inv s'"
    and map_translate: "inv s \<Longrightarrow> map_page va pa flags s = (b, s') \<Longrightarrow>
           translate va' s' = (if b \<and> same_page va' va then frame_at (pa OR flags) va' else translate va' s)"
    and unmap_inv: "inv s \<Longrightarrow> unmap_page va s = (b, s') \<Longrightarrow> inv s'"
    and unmap_translate: "inv s \<Longrightarrow> unmap_page va s = (b, s') \<Longrightarrow>
           translate va' s' = (if b \<and> same_page va' va then 0 else translate va' s)"
    and unmap_mapped: "inv s \<Longrightarrow> map_page va pa flags s = (True, s') \<Longrightarrow> fst (unmap_page va s')"
begin

fun map_all :: "(u64 \<times> u64 \<times> u64) list \<Rightarrow> 's \<Rightarrow> bool \<times> 's" where
  "map_all [] s = (True, s)"
| "map_all ((va, pa, flags) # xs) s =
     (case map_page va pa flags s of (b, s') \<Rightarrow> if b then map_all xs s' else (False, s'))"

lemma map_all_frame:
  assumes "inv s" "map_all xs s = (b, s')" "\<forall>x \<in> set xs. \<not> same_page va' (fst x)"
  shows "inv s' \<and> translate va' s' = translate va' s"
  using assms
proof (induction xs arbitrary: s)
  case (Cons x xs)
  obtain va pa flags where x: "x = (va, pa, flags)" by (cases x)
  obtain c s1 where m: "map_page va pa flags s = (c, s1)" by (cases "map_page va pa flags s")
  have "inv s1" "translate va' s1 = translate va' s"
    using map_inv [OF Cons.prems(1) m] map_translate [OF Cons.prems(1) m, of va'] Cons.prems(3) x by auto
  then show ?case using Cons.IH [of s1] Cons.prems m x by (auto split: if_splits)
qed simp

lemma map_all_translate:
  assumes "inv s" "map_all xs s = (True, s')"
    "pairwise (\<lambda>x y. \<not> same_page (fst x) (fst y)) (set xs)" "distinct xs"
    "(va, pa, flags) \<in> set xs" "same_page va' va"
  shows "translate va' s' = frame_at (pa OR flags) va'"
  using assms
proof (induction xs arbitrary: s)
  case (Cons x xs)
  obtain va1 pa1 fl1 where x: "x = (va1, pa1, fl1)" by (cases x)
  obtain s1 where m: "map_page va1 pa1 fl1 s = (True, s1)" and rest: "map_all xs s1 = (True, s')"
    using Cons.prems(2) x by (auto split: prod.splits if_splits)
  have inv1: "inv s1" by (rule map_inv [OF Cons.prems(1) m])
  show ?case
  proof (cases "(va, pa, flags) = x")
    case True
    have "\<forall>y \<in> set xs. \<not> same_page va' (fst y)"
    proof
      fix y assume y: "y \<in> set xs"
      then have "y \<noteq> x" using Cons.prems(4) by auto
      then have "\<not> same_page (fst x) (fst y)"
        using Cons.prems(3) y by (auto simp: pairwise_def)
      then show "\<not> same_page va' (fst y)" using Cons.prems(6) True by (auto simp: same_page_def)
    qed
    then show ?thesis
      using map_all_frame [OF inv1 rest] map_translate [OF Cons.prems(1) m, of va'] True x Cons.prems(6)
      by auto
  next
    case False
    then show ?thesis
      using Cons.IH [OF inv1 rest] Cons.prems by (auto simp: pairwise_insert)
  qed
qed simp

lemma map_then_unmap:
  assumes "inv s" "map_page va pa flags s = (True, s1)" "unmap_page va s1 = (b, s2)"
  shows "b \<and> inv s2 \<and> translate va' s2 = (if same_page va' va then 0 else translate va' s)"
proof -
  have inv1: "inv s1" by (rule map_inv [OF assms(1,2)])
  have "b" using unmap_mapped [OF assms(1,2)] assms(3) by simp
  with map_translate [OF assms(1,2), of va'] unmap_translate [OF inv1 assms(3), of va']
    unmap_inv [OF inv1 assms(3)] show ?thesis by simp
qed

end

definition page_frame_at :: "u64 \<Rightarrow> u64 \<Rightarrow> u64" where
  "page_frame_at e va = (e AND PAGE_TABLE_ADDRESS_MASK) OR (va AND (PAGE_SIZE - 1))"

abbreviation vm_inv :: "vm_state \<Rightarrow> bool" where
  "vm_inv s \<equiv> vm_ok s (page_table_active_root s)"

lemma same_page_sym: "same_page va va' \<longleftrightarrow> same_page va' va"
  by (auto simp: same_page_def)

lemma map_then_small:
  assumes ok: "vm_inv s" and r: "page_table_map va pa flags s = (True, s')"
  shows "small_mapped (pte s' (page_table_active_root s)) va"
  using ok r
proof (cases rule: map_table)
  case (2 s1 pt)
  let ?r = "page_table_active_root s"
  have ok1: "vm_ok s1 ?r" using 2(1) by (simp add: grown_def)
  have tp: "table_path (take 3 (va_path va))" by (simp add: va_path_def)
  have pte': "pte s' ?r = (pte s1 ?r)(va_path va := leaf_entry pa flags)"
    using store_leaf(2) [OF ok1 tp index_bounds(4) 2(3) _ refl, where v = "leaf_entry pa flags"]
    by (simp add: 2(4) vm_ok_invalidate flip: va_path_split)
  have "take n (va_path va) \<noteq> va_path va" if "n < 4" for n
    using that by (metis length_take length_va_path min.absorb4 nat_neq_iff)
  from this [of 1] this [of 2] this [of 3] show ?thesis
    using linked_path [OF 2(3)] leaf_entry(1)
    by (simp add: small_mapped_def pte' del: One_nat_def)
qed simp

interpretation vm: virtual_memory page_table_map page_table_unmap page_table_translate vm_inv page_frame_at
proof
  fix s va pa flags b s' va'
  assume ok: "vm_inv s" and r: "page_table_map va pa flags s = (b, s')"
  note e = page_table_map_effect [OF ok r]
  show "vm_inv s'" by (rule e(2))
  show "page_table_translate va' s' =
    (if b \<and> same_page va' va then page_frame_at (pa OR flags) va' else page_table_translate va' s)"
    using e(3) [of va'] by (simp add: translate_resolve ok e(2) page_frame_at_def va_path_eq_iff)
next
  fix s va b s' va'
  assume ok: "vm_inv s" and r: "page_table_unmap va s = (b, s')"
  note e = page_table_unmap_effect [OF ok r]
  show "vm_inv s'" by (rule e(3))
  show "page_table_translate va' s' =
    (if b \<and> same_page va' va then 0 else page_table_translate va' s)"
    using e(4) [of va'] by (simp add: translate_resolve ok e(3) va_path_eq_iff)
next
  fix s va pa flags s'
  assume ok: "vm_inv s" and r: "page_table_map va pa flags s = (True, s')"
  obtain b s2 where u: "page_table_unmap va s' = (b, s2)" by (cases "page_table_unmap va s'")
  have "small_mapped (pte s' (page_table_active_root s')) va"
    using map_then_small [OF ok r] page_table_map_effect(1) [OF ok r] by simp
  then show "fst (page_table_unmap va s')"
    using page_table_unmap_effect(1) [OF page_table_map_effect(2) [OF ok r] u] u by simp
qed

section \<open>Properties\<close>

text \<open>A small machine for the witnesses: an empty root table in the first page of the sample memory.\<close>

lemma vm_ok_empty:
  assumes "pmm_inv (vm_pmm s)" "aligned 4096 (hhdm_offset s)" "aligned 4096 root" "root \<noteq> 0"
    "table_frame s root \<notin> free_set (vm_pmm s)"
    "\<And>i. i < 512 \<Longrightarrow> load_u64 (vm_mem s) (entry_addr root i) = 0"
  shows "vm_ok s root" "\<And>p. pte s root p = 0"
proof -
  have d: "descend s root p = (if p = [] then Some root else None)" if "table_path p" for p
    using that assms(6) by (cases p) simp_all
  show p: "pte s root p = 0" for p
    using d assms(6) by (auto simp: pte_def split: option.split)
  show "vm_ok s root" unfolding vm_ok_def using assms d p by (auto split: if_splits)
qed

definition sample_vm :: vm_state where
  "sample_vm = \<lparr>vm_pmm = snd (pmm_alloc_page sample_pmm), vm_mem = (\<lambda>_. 0),
     hhdm_offset = 0xFFFF800000000000, hhdm_ready = True, active_pml4_physical = 0,
     kernel_pml4 = 0xFFFF800000001000, kernel_pml4_physical = 0x1000, cr3 = 0, invalidated = []\<rparr>"

lemma sample_root: "page_table_active_root sample_vm = 0xFFFF800000001000"
  by (simp add: sample_vm_def page_table_active_root_def)

lemma sample_vm_pmm: "pmm_inv (vm_pmm sample_vm)" "1 \<notin> free_set (vm_pmm sample_vm)"
proof -
  have inv: "pmm_inv sample_pmm" by (rule pmm_init_fits(1) [OF sample_fits])
  have al: "pmm_alloc_page sample_pmm = (0x1000, vm_pmm sample_vm)"
    using sample_alloc by (simp add: sample_vm_def prod_eq_iff)
  obtain f where f: "f \<in> free_set sample_pmm" "0x1000 = f * PMM_PAGE_SIZE" "unat f < 1048576"
    "pmm_inv (vm_pmm sample_vm)" "free_set (vm_pmm sample_vm) = free_set sample_pmm - {f}"
    by (rule alloc_frame_address [OF inv al]) simp_all
  have "pmm_address_to_page 0x1000 = f"
    using pmm_address_to_page_of_page [OF f(3)] unfolding f(2) [symmetric] .
  moreover have "pmm_address_to_page 0x1000 = 1"
    by (simp add: pmm_address_to_page_def PMM_PAGE_SIZE_def)
  ultimately have "f = 1" by simp
  then show "pmm_inv (vm_pmm sample_vm)" "1 \<notin> free_set (vm_pmm sample_vm)"
    using f(4,5) by simp_all
qed

lemma sample_vm_ok: "vm_inv sample_vm" "pte sample_vm (page_table_active_root sample_vm) p = 0"
proof -
  have zero: "load_u64 (vm_mem sample_vm) a = 0" for a
    by (rule bit_eqI) (simp add: bit_load_u64 sample_vm_def)
  have fr: "table_frame sample_vm 0xFFFF800000001000 = 1"
    by (simp add: table_frame_def sample_vm_def)
  have al: "aligned 4096 (hhdm_offset sample_vm)" "aligned 4096 0xFFFF800000001000"
    by (simp_all add: aligned_def sample_vm_def)
  note v = vm_ok_empty [of sample_vm "0xFFFF800000001000", OF sample_vm_pmm(1) al _ _ zero,
    simplified, unfolded fr, OF sample_vm_pmm(2)]
  show "vm_inv sample_vm" "pte sample_vm (page_table_active_root sample_vm) p = 0"
    unfolding sample_root using v by auto
qed

text \<open>
  C6. \<open>page_table_translate\<close> computes the translation that the abstract address space defines, with
  1 GiB, 2 MiB and 4 KiB pages, and returns 0 exactly where nothing is mapped or the frame found
  is address 0.
\<close>

theorem page_table_translate_refines:
  assumes "vm_ok s (page_table_active_root s)"
  shows "page_table_translate va s =
           (case resolve (pte s (page_table_active_root s)) va of None \<Rightarrow> 0 | Some a \<Rightarrow> a)"
  by (rule translate_resolve [OF assms])

theorem page_table_translate_refines_witness:
  "vm_ok sample_vm (page_table_active_root sample_vm) \<and> page_table_translate 0x400123 sample_vm = 0"
proof -
  have "resolve (pte sample_vm (page_table_active_root sample_vm)) 0x400123 = None"
    by (rule resolve_None) (simp_all add: sample_vm_ok(2))
  then show ?thesis using sample_vm_ok(1) page_table_translate_refines [OF sample_vm_ok(1), of "0x400123"] by simp
qed

text \<open>
  C7. \<open>page_table_map\<close> keeps the tables a well-formed tree of allocated frames. When it returns true the
  addresses of the page translate into the given frame (with the flags in the bits outside the
  frame address) and every other address translates as before; the mapped address is flushed from
  the TLB. When it returns false no translation changes. In both cases no byte is written in a page
  that is in use and is not a page table.
\<close>

theorem page_table_map_correct:
  assumes "vm_ok s (page_table_active_root s)" and "page_table_map va pa flags s = (b, s')"
  shows "vm_ok s' (page_table_active_root s') \<and>
         (\<forall>va'. page_table_translate va' s' =
            (if b \<and> same_page va' va
             then ((pa OR flags) AND PAGE_TABLE_ADDRESS_MASK) OR (va' AND 0xFFF)
             else page_table_translate va' s)) \<and>
         invalidated s' = (if b then va # invalidated s else invalidated s) \<and>
         keeps_data (page_table_active_root s) s s'"
  using vm.map_inv [OF assms] vm.map_translate [OF assms] page_table_map_effect(4) [OF assms]
    page_table_map_keeps_data [OF assms]
  by (simp add: page_frame_at_def PAGE_SIZE_def)

theorem page_table_map_correct_witness:
  "vm_ok sample_vm (page_table_active_root sample_vm) \<and>
   vm_ok (snd (page_table_map 0x400000 0x7000 PAGE_WRITABLE sample_vm))
     (page_table_active_root (snd (page_table_map 0x400000 0x7000 PAGE_WRITABLE sample_vm)))"
  using sample_vm_ok(1)
    page_table_map_correct [OF sample_vm_ok(1) surjective_pairing [of "page_table_map 0x400000 0x7000 PAGE_WRITABLE sample_vm"]]
  by blast

lemma no_null_frame:
  assumes "pmm_inv (vm_pmm s)" "unat (hhdm_offset s) + 2 ^ 32 \<le> 2 ^ 64"
  shows "\<not> null_frame s"
proof
  assume "null_frame s"
  then obtain f where f: "f \<in> free_set (vm_pmm s)" "f * PMM_PAGE_SIZE + hhdm_offset s = 0"
    by (auto simp: null_frame_def)
  have lt: "unat f < 1048576"
    using f(1) pmm_inv_total [OF assms(1)] by (simp add: free_set_iff word_less_nat_alt)
  then have "unat (f * PMM_PAGE_SIZE) = unat f * 4096"
    by (simp add: PMM_PAGE_SIZE_def unat_mult_no_wrap)
  then have "unat (f * PMM_PAGE_SIZE + hhdm_offset s) = unat f * 4096 + unat (hhdm_offset s)"
    using lt assms(2) by (simp add: unat_plus_no_wrap)
  then have "unat f = 0" using f(2) by simp
  then show False using f(1) assms(1) by (simp add: unat_eq_0 pmm_inv_def)
qed

text \<open>
  \<open>page_table_map\<close> succeeds whenever no large page covers the address, three pages are free for
  new tables and the direct map does not wrap below 4 GiB.
\<close>

theorem page_table_map_succeeds:
  assumes ok: "vm_ok s (page_table_active_root s)"
    and "\<not> blocked (pte s (page_table_active_root s)) va"
    and "3 \<le> unat (pmm_get_free_pages (vm_pmm s))"
    and "unat (hhdm_offset s) + 2 ^ 32 \<le> 2 ^ 64"
  shows "fst (page_table_map va pa flags s)"
proof -
  have inv: "pmm_inv (vm_pmm s)" using ok by (simp add: vm_ok_def)
  then have "card (free_set (vm_pmm s)) \<ge> 3"
    using assms(3) by (simp add: pmm_get_free_pages_def pmm_inv_def)
  with page_table_map_effect(5) [OF ok surjective_pairing [of "page_table_map va pa flags s"]]
    assms(2) no_null_frame [OF inv assms(4)] show ?thesis by force
qed

lemma sample_free: "pmm_get_free_pages (vm_pmm sample_vm) = 12"
  unfolding sample_vm_def by simp code_simp

theorem page_table_map_succeeds_witness:
  "fst (page_table_map 0x400000 0x7000 PAGE_WRITABLE sample_vm)"
proof (rule page_table_map_succeeds [OF sample_vm_ok(1)])
  show "\<not> blocked (pte sample_vm (page_table_active_root sample_vm)) 0x400000"
    by (simp add: blocked_def sample_vm_ok(2))
qed (simp_all add: sample_free, simp add: sample_vm_def)

text \<open>
  C8. \<open>page_table_unmap\<close> returns true exactly when a 4 KiB page maps the address; then the addresses of
  this page become unmapped, the address is flushed from the TLB, and nothing else changes.
\<close>

theorem page_table_unmap_correct:
  assumes "vm_ok s (page_table_active_root s)" and "page_table_unmap va s = (b, s')"
  shows "(b \<longleftrightarrow> small_mapped (pte s (page_table_active_root s)) va) \<and>
         vm_ok s' (page_table_active_root s') \<and>
         (\<forall>va'. page_table_translate va' s' =
            (if b \<and> same_page va' va then 0 else page_table_translate va' s)) \<and>
         invalidated s' = (if b then va # invalidated s else invalidated s) \<and> vm_pmm s' = vm_pmm s"
  using vm.unmap_inv [OF assms] vm.unmap_translate [OF assms] page_table_unmap_effect(1,5,6) [OF assms]
  by simp

theorem page_table_unmap_correct_witness:
  "\<not> fst (page_table_unmap 0x400000 sample_vm) \<and>
   vm_ok (snd (page_table_unmap 0x400000 sample_vm))
     (page_table_active_root (snd (page_table_unmap 0x400000 sample_vm)))"
  using page_table_unmap_correct [OF sample_vm_ok(1) surjective_pairing [of "page_table_unmap 0x400000 sample_vm"]]
  by (simp add: small_mapped_def sample_vm_ok(2))

text \<open>
  Mapping a page and unmapping it again succeeds and leaves exactly this page unmapped: every
  other address translates as before the two calls.
\<close>

theorem page_table_map_unmap_roundtrip:
  assumes "vm_ok s (page_table_active_root s)" and "page_table_map va pa flags s = (True, s1)"
    and "page_table_unmap va s1 = (b, s2)"
  shows "b \<and> vm_ok s2 (page_table_active_root s2) \<and>
         (\<forall>va'. page_table_translate va' s2 =
            (if same_page va' va then 0 else page_table_translate va' s))"
  using vm.map_then_unmap [OF assms] by blast

theorem page_table_map_unmap_roundtrip_witness:
  "fst (page_table_unmap 0x400000 (snd (page_table_map 0x400000 0x7000 PAGE_WRITABLE sample_vm)))"
proof -
  let ?m = "page_table_map 0x400000 0x7000 PAGE_WRITABLE sample_vm"
  have "\<not> blocked (pte sample_vm (page_table_active_root sample_vm)) 0x400000"
    by (simp add: blocked_def sample_vm_ok(2))
  moreover have "\<not> null_frame sample_vm"
    by (rule no_null_frame [OF sample_vm_pmm(1)]) (simp add: sample_vm_def)
  moreover have "card (free_set (vm_pmm sample_vm)) = 12"
    using sample_free sample_vm_pmm(1) by (simp add: pmm_inv_def pmm_get_free_pages_def)
  ultimately have "fst ?m"
    using page_table_map_effect(5) [OF sample_vm_ok(1) surjective_pairing [of ?m]] by force
  then have "?m = (True, snd ?m)" by (metis prod.collapse)
  from page_table_map_unmap_roundtrip [OF sample_vm_ok(1) this surjective_pairing]
  show ?thesis by blast
qed

text \<open>
  C9. A new address space starts as a copy of the kernel's: when \<open>page_table_create\<close> returns a table,
  it lies in a page that was free, it resolves every address as the kernel table does, both are
  well-formed, and the kernel's own translations are untouched.
\<close>

theorem page_table_create_copies_kernel:
  assumes ok: "vm_ok s (kernel_pml4 s)" and r: "page_table_create s = (root, phys, s')"
    and nz: "root \<noteq> 0"
  shows "vm_ok s' root \<and> vm_ok s' (kernel_pml4 s') \<and>
         (\<forall>va. resolve (pte s' root) va = resolve (pte s (kernel_pml4 s)) va \<and>
               resolve (pte s' (kernel_pml4 s')) va = resolve (pte s (kernel_pml4 s)) va) \<and>
         (\<exists>f \<in> free_set (vm_pmm s). phys = Some (f * 4096) \<and> root = f * 4096 + hhdm_offset s \<and>
            free_set (vm_pmm s') = free_set (vm_pmm s) - {f})"
proof -
  have inv: "pmm_inv (vm_pmm s)" using ok by (simp add: vm_ok_def)
  have k: "kernel_pml4 s \<noteq> 0" using vm_ok_table(1) [OF ok, of "[]"] by simp
  obtain a pmm where al: "pmm_alloc_page (vm_pmm s) = (a, pmm)" by (cases "pmm_alloc_page (vm_pmm s)")
  have a: "a \<noteq> 0" using r nz al by (auto simp: page_table_create_def Let_def)
  obtain f where f: "f \<in> free_set (vm_pmm s)" "unat f < 1048576" "a = f * PMM_PAGE_SIZE"
    "pmm_inv pmm" "free_set pmm = free_set (vm_pmm s) - {f}"
    by (rule alloc_frame_address [OF inv al a])
  have root: "root = f * PMM_PAGE_SIZE + hhdm_offset s" and phys: "phys = Some (f * PMM_PAGE_SIZE)"
    and s': "s' = with_copied_root f pmm s"
    using r nz al a k f(3)
    by (auto simp: page_table_create_def Let_def page_table_physical_to_virtual_def
        with_copied_root_def split: if_splits)
  note c = copied_root [OF ok f(1,2,4,5) nz root s']
  have "kernel_pml4 s' = kernel_pml4 s" "vm_pmm s' = pmm"
    by (simp_all add: s' with_copied_root_def Let_def)
  with c f root phys show ?thesis by (auto simp: PMM_PAGE_SIZE_def)
qed

lemma sample_create: "fst (page_table_create sample_vm) = 0xFFFF800000002000"
proof -
  have al: "fst (pmm_alloc_page (vm_pmm sample_vm)) = 0x2000"
    unfolding sample_vm_def by simp code_simp
  then show ?thesis
    by (cases "pmm_alloc_page (vm_pmm sample_vm)")
      (simp add: page_table_create_def Let_def page_table_physical_to_virtual_def sample_vm_def)
qed

theorem page_table_create_copies_kernel_witness:
  "vm_ok (snd (snd (page_table_create sample_vm))) 0xFFFF800000002000"
proof -
  let ?c = "page_table_create sample_vm"
  have ok: "vm_ok sample_vm (kernel_pml4 sample_vm)"
    using sample_vm_ok(1) by (simp add: sample_root) (simp add: sample_vm_def)
  have "?c = (0xFFFF800000002000, fst (snd ?c), snd (snd ?c))"
    using sample_create by (simp add: prod_eq_iff)
  from page_table_create_copies_kernel [OF ok this] show ?thesis by simp
qed

text \<open>
  \<open>page_table_map_user\<close> maps one page of the given address space for user mode: on success the
  page translates to the frame, every other translation is unchanged, and all four entries on
  the path carry the user bit, as the processor requires for access from ring 3.
\<close>

theorem page_table_map_user_correct:
  assumes "vm_ok s root" and "page_table_map_user root va pa writable s = (b, s')"
  shows "vm_ok s' root \<and>
         (\<forall>va'. resolve (pte s' root) va' =
            (if b \<and> same_page va' va
             then Some ((pa AND PAGE_TABLE_ADDRESS_MASK) OR (va' AND 0xFFF))
             else resolve (pte s root) va')) \<and>
         (b \<longrightarrow> (\<forall>n \<in> {1, 2, 3, 4}. page_is_user (pte s' root (take n (va_path va)))))"
  using page_table_map_user_effect(1,2) [OF assms] page_table_map_user_effect(3) [OF assms]
  by (simp add: va_path_eq_iff PAGE_SIZE_def)

theorem page_table_map_user_correct_witness:
  "vm_ok (snd (page_table_map_user (kernel_pml4 sample_vm) 0x400000 0x7000 True sample_vm))
     (kernel_pml4 sample_vm)"
proof -
  have ok: "vm_ok sample_vm (kernel_pml4 sample_vm)"
    using sample_vm_ok(1) by (simp add: sample_root) (simp add: sample_vm_def)
  from page_table_map_user_correct [OF ok surjective_pairing] show ?thesis by blast
qed

end
