(* ===== verification/Vma.thy ===== *)
theory Vma
  imports Prelude
begin

text \<open>
  The table of virtual memory areas of \<open>vmm/vma/vma.c\<close>: a fixed array of 32 entries of which the
  first \<open>vma_count\<close> are in use. A pointer into the table is an index. The invariant says that the
  areas in use are disjoint, so that an address belongs to at most one of them; every operation
  keeps it. The dump to the console is left out.
\<close>

section \<open>Data and operations\<close>

definition VMA_READ :: u64 where "VMA_READ = 1"
definition VMA_WRITE :: u64 where "VMA_WRITE = 2"
definition VMA_EXECUTE :: u64 where "VMA_EXECUTE = 4"
definition VMA_DEMAND_PAGED :: u64 where "VMA_DEMAND_PAGED = 8"

definition VMA_MAX_COUNT :: nat where "VMA_MAX_COUNT = 32"

record vma =
  vma_start :: u64
  vma_end :: u64
  vma_flags :: u64

definition vma_zero :: vma where
  "vma_zero = \<lparr>vma_start = 0, vma_end = 0, vma_flags = 0\<rparr>"

record vma_state =
  vma_table :: "vma list"
  vma_count :: nat

definition vma_init :: "vma_state \<Rightarrow> vma_state" where
  "vma_init v =
     \<lparr>vma_table = fold (\<lambda>i t. t[i := vma_zero]) [0..<VMA_MAX_COUNT] (vma_table v), vma_count = 0\<rparr>"

definition vma_create :: "u64 \<Rightarrow> u64 \<Rightarrow> u64 \<Rightarrow> vma_state \<Rightarrow> bool \<times> vma_state" where
  "vma_create start sz flags v =
     (if vma_count v \<ge> VMA_MAX_COUNT then (False, v)
      else
        let new_start = start; new_end = start + sz in
        if \<exists>i \<in> set [0..<vma_count v].
             new_start < vma_end (vma_table v ! i) \<and> new_end > vma_start (vma_table v ! i)
        then (False, v)
        else (True, v\<lparr>vma_table := (vma_table v)[vma_count v :=
                        \<lparr>vma_start = start, vma_end = start + sz, vma_flags = flags\<rparr>],
                      vma_count := vma_count v + 1\<rparr>))"

definition vma_find :: "u64 \<Rightarrow> vma_state \<Rightarrow> nat option" where
  "vma_find address v =
     find (\<lambda>i. address \<ge> vma_start (vma_table v ! i) \<and> address < vma_end (vma_table v ! i))
       [0..<vma_count v]"

definition vma_destroy :: "u64 \<Rightarrow> vma_state \<Rightarrow> bool \<times> vma_state" where
  "vma_destroy start v =
     (case find (\<lambda>i. vma_start (vma_table v ! i) = start) [0..<vma_count v] of
        None \<Rightarrow> (False, v)
      | Some i \<Rightarrow>
          let table = fold (\<lambda>j t. t[j := t ! (j + 1)]) [i..<vma_count v - 1] (vma_table v);
              table = table[vma_count v - 1 := vma_zero]
          in (True, v\<lparr>vma_table := table, vma_count := vma_count v - 1\<rparr>))"

definition vma_resize :: "u64 \<Rightarrow> u64 \<Rightarrow> vma_state \<Rightarrow> bool \<times> vma_state" where
  "vma_resize start new_size v =
     (case find (\<lambda>i. vma_start (vma_table v ! i) = start) [0..<vma_count v] of
        None \<Rightarrow> (False, v)
      | Some target \<Rightarrow>
          let new_end = start + new_size in
          if \<exists>i \<in> set [0..<vma_count v]. i \<noteq> target \<and>
               start < vma_end (vma_table v ! i) \<and> new_end > vma_start (vma_table v ! i)
          then (False, v)
          else (True, v\<lparr>vma_table := (vma_table v)[target := (vma_table v ! target)\<lparr>vma_end := new_end\<rparr>]\<rparr>))"

section \<open>The areas in use\<close>

definition areas :: "vma_state \<Rightarrow> vma list" where
  "areas v = take (vma_count v) (vma_table v)"

definition area :: "vma \<Rightarrow> u64 set" where
  "area a = {vma_start a..<vma_end a}"

fun disjoint_areas :: "vma list \<Rightarrow> bool" where
  "disjoint_areas [] = True"
| "disjoint_areas (a # as) = ((\<forall>b \<in> set as. area a \<inter> area b = {}) \<and> disjoint_areas as)"

definition vma_ok :: "vma_state \<Rightarrow> bool" where
  "vma_ok v \<longleftrightarrow> length (vma_table v) = VMA_MAX_COUNT \<and> vma_count v \<le> VMA_MAX_COUNT \<and>
     disjoint_areas (areas v)"

lemma area_overlap: "\<not> (s < vma_end b \<and> e > vma_start b) \<Longrightarrow> {s..<e} \<inter> area b = {}"
  by (auto simp: area_def)

lemma disjoint_areas_append:
  "disjoint_areas (as @ bs) \<longleftrightarrow>
     disjoint_areas as \<and> disjoint_areas bs \<and> (\<forall>a \<in> set as. \<forall>b \<in> set bs. area a \<inter> area b = {})"
  by (induction as) auto

lemma disjoint_areas_update:
  assumes "disjoint_areas as" "i < length as"
    "\<And>j. j < length as \<Longrightarrow> j \<noteq> i \<Longrightarrow> area a \<inter> area (as ! j) = {}"
  shows "disjoint_areas (as[i := a])"
proof -
  have split: "as = take i as @ as ! i # drop (Suc i) as" using assms(2) by (rule id_take_nth_drop)
  have upd: "as[i := a] = take i as @ a # drop (Suc i) as" using assms(2) by (rule upd_conv_take_nth_drop)
  have "disjoint_areas (take i as @ as ! i # drop (Suc i) as)" using assms(1) split by simp
  moreover have "area b \<inter> area a = {}" if b: "b \<in> set (take i as)" for b
  proof -
    obtain j where "j < i" "j < length as" "b = as ! j" using b by (auto simp: in_set_conv_nth)
    then show ?thesis using assms(3) [of j] by auto
  qed
  moreover have "area a \<inter> area b = {}" if b: "b \<in> set (drop (Suc i) as)" for b
  proof -
    obtain j where "j < length (drop (Suc i) as)" "b = drop (Suc i) as ! j"
      using b by (metis in_set_conv_nth)
    then have "Suc i + j < length as" "b = as ! (Suc i + j)" by simp_all
    then show ?thesis using assms(3) [of "Suc i + j"] by auto
  qed
  ultimately show ?thesis unfolding upd by (auto simp: disjoint_areas_append)
qed

lemma disjoint_areas_nth:
  assumes "disjoint_areas as" "i < length as" "j < length as" "i \<noteq> j"
  shows "area (as ! i) \<inter> area (as ! j) = {}"
  using assms
proof (induction as arbitrary: i j)
  case (Cons a as)
  show ?case
  proof (cases i)
    case 0
    then obtain j' where "j = Suc j'" using Cons.prems by (cases j) auto
    then show ?thesis using 0 Cons.prems by auto
  next
    case (Suc i')
    then show ?thesis using Cons by (cases j) auto
  qed
qed simp

lemma find_upt:
  "find P [0..<n] = Some i \<longleftrightarrow> i < n \<and> P i \<and> (\<forall>j < i. \<not> P j)"
  "find P [0..<n] = None \<longleftrightarrow> (\<forall>j < n. \<not> P j)"
  by (auto simp: find_Some_iff find_None_iff)

lemma areas_nth: "vma_ok v \<Longrightarrow> i < vma_count v \<Longrightarrow> areas v ! i = vma_table v ! i"
  by (simp add: areas_def)

lemma length_areas: "vma_ok v \<Longrightarrow> length (areas v) = vma_count v"
  by (simp add: areas_def vma_ok_def)

section \<open>What the operations do to the areas\<close>

lemma vma_init_ok:
  assumes "length (vma_table v) = VMA_MAX_COUNT"
  shows "vma_ok (vma_init v)" "areas (vma_init v) = []"
proof -
  have "length (fold (\<lambda>i t. t[i := vma_zero]) xs t) = length t" for xs t
    by (induction xs arbitrary: t) simp_all
  then show "vma_ok (vma_init v)" "areas (vma_init v) = []"
    using assms by (simp_all add: vma_init_def vma_ok_def areas_def)
qed

definition vma_fits :: "u64 \<Rightarrow> u64 \<Rightarrow> vma_state \<Rightarrow> bool" where
  "vma_fits start sz v \<longleftrightarrow> vma_count v < VMA_MAX_COUNT \<and>
     (\<forall>a \<in> set (areas v). \<not> (start < vma_end a \<and> start + sz > vma_start a))"

lemma areas_ball: "vma_ok v \<Longrightarrow> (\<forall>a \<in> set (areas v). P a) \<longleftrightarrow> (\<forall>i < vma_count v. P (vma_table v ! i))"
  using length_areas [of v] areas_nth [of v] by (auto simp: all_set_conv_all_nth)

lemma vma_create:
  assumes ok: "vma_ok v" and r: "vma_create start sz flags v = (b, v')"
  shows "b \<longleftrightarrow> vma_fits start sz v"
    and "areas v' = (if b then areas v @ [\<lparr>vma_start = start, vma_end = start + sz, vma_flags = flags\<rparr>]
                     else areas v)"
    and "vma_count v' = (if b then vma_count v + 1 else vma_count v)"
    and "vma_ok v'"
proof -
  let ?a = "\<lparr>vma_start = start, vma_end = start + sz, vma_flags = flags\<rparr>"
  show b: "b \<longleftrightarrow> vma_fits start sz v"
    using r areas_ball [OF ok, of "\<lambda>a. \<not> (start < vma_end a \<and> start + sz > vma_start a)"]
    by (auto simp: vma_create_def vma_fits_def Let_def not_le split: if_splits)
  have v': "v' = (if b then v\<lparr>vma_table := (vma_table v)[vma_count v := ?a],
      vma_count := vma_count v + 1\<rparr> else v)"
    using r by (auto simp: vma_create_def Let_def split: if_splits)
  have c: "vma_count v < length (vma_table v)" if b
    using that b ok by (simp add: vma_fits_def vma_ok_def)
  show a: "areas v' = (if b then areas v @ [?a] else areas v)"
    using c by (simp add: v' areas_def take_Suc_conv_app_nth)
  show "vma_count v' = (if b then vma_count v + 1 else vma_count v)" by (simp add: v')
  show "vma_ok v'"
  proof (cases b)
    case True
    have "area x \<inter> area ?a = {}" if "x \<in> set (areas v)" for x
    proof -
      have "\<not> (start < vma_end x \<and> start + sz > vma_start x)"
        using b True that by (auto simp: vma_fits_def)
      from area_overlap [OF this] show ?thesis by (auto simp: area_def)
    qed
    then have "disjoint_areas (areas v')" using ok True a by (auto simp: vma_ok_def disjoint_areas_append)
    moreover have "length (vma_table v') = VMA_MAX_COUNT" "vma_count v' \<le> VMA_MAX_COUNT"
      using ok True b by (auto simp: v' vma_ok_def vma_fits_def)
    ultimately show ?thesis by (simp add: vma_ok_def)
  qed (use ok in \<open>simp add: v'\<close>)
qed

lemma vma_find_Some:
  assumes "vma_ok v"
  shows "vma_find a v = Some i \<longleftrightarrow> i < vma_count v \<and> a \<in> area (areas v ! i)"
proof
  assume "vma_find a v = Some i"
  then show "i < vma_count v \<and> a \<in> area (areas v ! i)"
    using areas_nth [OF assms] by (auto simp: vma_find_def find_upt area_def)
next
  assume i: "i < vma_count v \<and> a \<in> area (areas v ! i)"
  have "a \<notin> area (areas v ! j)" if "j < i" for j
    using disjoint_areas_nth [of "areas v" i j] assms i that length_areas [OF assms]
    by (auto simp: vma_ok_def)
  then show "vma_find a v = Some i"
    using i areas_nth [OF assms] by (auto simp: vma_find_def find_upt area_def)
qed

lemma vma_find_None:
  assumes "vma_ok v" shows "vma_find a v = None \<longleftrightarrow> (\<forall>x \<in> set (areas v). a \<notin> area x)"
  using areas_ball [OF assms, of "\<lambda>x. a \<notin> area x"]
  by (auto simp: vma_find_def find_upt area_def)

text \<open>The loop that closes the gap.\<close>

lemma overwrite_by_next:
  "length m = n \<Longrightarrow> (m @ a # b # r)[n := (m @ a # b # r) ! (n + 1)] = m @ b # b # r"
  by (auto simp: list_update_append nth_append)

lemma shift_down:
  assumes "i \<le> n" "n < length t"
  shows "fold (\<lambda>j t. t[j := t ! (j + 1)]) [i..<n] t =
           take i t @ take (n - i) (drop (Suc i) t) @ drop n t"
  using assms
proof (induction n)
  case (Suc n)
  show ?case
  proof (cases "i = Suc n")
    case False
    then have i: "i \<le> n" using Suc.prems by simp
    let ?m = "take i t @ take (n - i) (drop (Suc i) t)"
    have IH: "fold (\<lambda>j t. t[j := t ! (j + 1)]) [i..<n] t = ?m @ drop n t"
      using Suc i by simp
    have m: "length ?m = n" using Suc.prems i by simp
    have d: "drop n t = t ! n # t ! Suc n # drop (Suc (Suc n)) t"
      "drop (Suc n) t = t ! Suc n # drop (Suc (Suc n)) t"
      using Suc.prems by (simp_all add: Cons_nth_drop_Suc)
    have "(?m @ drop n t)[n := (?m @ drop n t) ! (n + 1)] = ?m @ t ! Suc n # drop (Suc n) t"
      unfolding d by (rule overwrite_by_next [OF m])
    also have "\<dots> = take i t @ take (Suc n - i) (drop (Suc i) t) @ drop (Suc n) t"
      using i Suc.prems by (simp add: Suc_diff_le take_Suc_conv_app_nth)
    finally show ?thesis using IH i by simp
  qed (simp add: Suc.prems)
qed simp

lemma vma_destroy:
  assumes ok: "vma_ok v" and r: "vma_destroy start v = (b, v')"
  shows "b \<longleftrightarrow> (\<exists>a \<in> set (areas v). vma_start a = start)"
    and "\<not> b \<Longrightarrow> v' = v"
    and "b \<Longrightarrow> \<exists>i < length (areas v). vma_start (areas v ! i) = start \<and>
           areas v' = take i (areas v) @ drop (Suc i) (areas v)"
    and "vma_ok v'"
proof -
  let ?f = "find (\<lambda>i. vma_start (vma_table v ! i) = start) [0..<vma_count v]"
  show b: "b \<longleftrightarrow> (\<exists>a \<in> set (areas v). vma_start a = start)"
  proof (cases ?f)
    case None
    then have "\<forall>a \<in> set (areas v). vma_start a \<noteq> start"
      unfolding areas_ball [OF ok] by (simp add: find_upt)
    with None r show ?thesis by (auto simp: vma_destroy_def)
  next
    case (Some i)
    then have "i < length (areas v)" "vma_start (areas v ! i) = start"
      using length_areas [OF ok] areas_nth [OF ok] by (simp_all add: find_upt)
    with Some r show ?thesis by (auto simp: vma_destroy_def Let_def intro: nth_mem)
  qed
  show nb: "\<not> b \<Longrightarrow> v' = v" using r by (auto simp: vma_destroy_def Let_def split: option.splits)
  have step: "\<exists>i < vma_count v. vma_start (areas v ! i) = start \<and>
      areas v' = take i (areas v) @ drop (Suc i) (areas v) \<and>
      length (vma_table v') = length (vma_table v) \<and> vma_count v' \<le> vma_count v" if bt: b
  proof -
    obtain i where i: "?f = Some i" using r bt by (auto simp: vma_destroy_def split: option.splits)
    then have lt: "i < vma_count v" and st: "vma_start (areas v ! i) = start"
      by (simp_all add: find_upt areas_nth [OF ok])
    let ?n = "vma_count v - 1"
    have n: "i \<le> ?n" "?n < length (vma_table v)" "vma_count v = Suc ?n" using lt ok by (auto simp: vma_ok_def)
    have v': "v' = v\<lparr>vma_table := (take i (vma_table v) @ take (?n - i) (drop (Suc i) (vma_table v)) @
        drop ?n (vma_table v))[?n := vma_zero], vma_count := ?n\<rparr>"
      using r i shift_down [OF n(1,2)] by (simp add: vma_destroy_def Let_def)
    have "areas v' = take i (vma_table v) @ take (?n - i) (drop (Suc i) (vma_table v))"
      using n by (simp add: v' areas_def)
    also have "\<dots> = take i (areas v) @ drop (Suc i) (areas v)"
      using n by (simp add: areas_def drop_take min_def)
    finally show ?thesis using lt st n by (intro exI [of _ i]) (simp add: v')
  qed
  then show "b \<Longrightarrow> \<exists>i < length (areas v). vma_start (areas v ! i) = start \<and>
      areas v' = take i (areas v) @ drop (Suc i) (areas v)"
    using length_areas [OF ok] by auto
  show "vma_ok v'"
  proof (cases b)
    case True
    then obtain i where i: "areas v' = take i (areas v) @ drop (Suc i) (areas v)" "i < vma_count v"
      "length (vma_table v') = length (vma_table v)" "vma_count v' \<le> vma_count v" using step by blast
    have "disjoint_areas (take i (areas v) @ areas v ! i # drop (Suc i) (areas v))"
      using ok i(2) length_areas [OF ok] id_take_nth_drop [of i "areas v"] by (simp add: vma_ok_def)
    then show ?thesis using ok i by (auto simp: vma_ok_def disjoint_areas_append)
  qed (use ok nb in simp)
qed

definition resize_fits :: "u64 \<Rightarrow> u64 \<Rightarrow> nat \<Rightarrow> vma_state \<Rightarrow> bool" where
  "resize_fits start new_size i v \<longleftrightarrow>
     (\<forall>j < vma_count v. j \<noteq> i \<longrightarrow>
        \<not> (start < vma_end (areas v ! j) \<and> start + new_size > vma_start (areas v ! j)))"

abbreviation resized :: "u64 \<Rightarrow> u64 \<Rightarrow> nat \<Rightarrow> vma_state \<Rightarrow> vma_state" where
  "resized start new_size i v \<equiv> v\<lparr>vma_table := (vma_table v)[i := (vma_table v ! i)\<lparr>vma_end := start + new_size\<rparr>]\<rparr>"

lemma resized_areas:
  "i < vma_count v \<Longrightarrow> areas (resized start new_size i v) = (areas v)[i := (areas v ! i)\<lparr>vma_end := start + new_size\<rparr>]"
  by (simp add: areas_def take_update_swap)

lemma resized_ok:
  assumes ok: "vma_ok v" and i: "i < vma_count v" "vma_start (areas v ! i) = start" "resize_fits start new_size i v"
  shows "vma_ok (resized start new_size i v)"
proof -
  have "disjoint_areas (areas (resized start new_size i v))"
    unfolding resized_areas [OF i(1)]
  proof (rule disjoint_areas_update)
    fix j assume "j < length (areas v)" "j \<noteq> i"
    then have "\<not> (start < vma_end (areas v ! j) \<and> start + new_size > vma_start (areas v ! j))"
      using i(3) length_areas [OF ok] by (simp add: resize_fits_def)
    from area_overlap [OF this]
    show "area ((areas v ! i)\<lparr>vma_end := start + new_size\<rparr>) \<inter> area (areas v ! j) = {}"
      using i(2) by (simp add: area_def)
  qed (use ok i length_areas [OF ok] in \<open>auto simp: vma_ok_def\<close>)
  then show ?thesis using ok by (simp add: vma_ok_def)
qed

lemma vma_resize_cases:
  assumes ok: "vma_ok v" and r: "vma_resize start new_size v = (b, v')"
  obtains (fits) i where "i < vma_count v" "vma_start (areas v ! i) = start" "\<forall>j < i. vma_start (areas v ! j) \<noteq> start"
      "resize_fits start new_size i v" "b" "v' = resized start new_size i v"
  | (refused) "\<forall>i < vma_count v. vma_start (areas v ! i) = start \<longrightarrow> (\<forall>j < i. vma_start (areas v ! j) \<noteq> start) \<longrightarrow>
      \<not> resize_fits start new_size i v" "\<not> b" "v' = v"
proof (cases "find (\<lambda>i. vma_start (vma_table v ! i) = start) [0..<vma_count v]")
  case None
  then have "\<forall>i < vma_count v. vma_start (areas v ! i) \<noteq> start" using areas_nth [OF ok] by (simp add: find_upt)
  then show thesis using refused r None by (simp add: vma_resize_def)
next
  case (Some i)
  then have i: "i < vma_count v" "vma_start (areas v ! i) = start" "\<forall>j < i. vma_start (areas v ! j) \<noteq> start"
    using areas_nth [OF ok] by (auto simp: find_upt)
  have fit: "resize_fits start new_size i v \<longleftrightarrow> \<not> (\<exists>j \<in> set [0..<vma_count v]. j \<noteq> i \<and>
      start < vma_end (vma_table v ! j) \<and> start + new_size > vma_start (vma_table v ! j))"
    using areas_nth [OF ok] by (auto simp: resize_fits_def)
  show thesis
  proof (cases "resize_fits start new_size i v")
    case True
    then show thesis using fits [OF i] r Some fit by (auto simp: vma_resize_def Let_def split: if_splits)
  next
    case False
    then have "\<forall>k < vma_count v. vma_start (areas v ! k) = start \<longrightarrow> (\<forall>j < k. vma_start (areas v ! j) \<noteq> start) \<longrightarrow>
        \<not> resize_fits start new_size k v" using i(2,3) by (metis linorder_neqE_nat)
    then show thesis using refused r Some fit False by (auto simp: vma_resize_def Let_def split: if_splits)
  qed
qed

lemma vma_resize:
  assumes ok: "vma_ok v" and r: "vma_resize start new_size v = (b, v')"
  shows "b \<longleftrightarrow> (\<exists>i < vma_count v. vma_start (areas v ! i) = start \<and>
           (\<forall>j < i. vma_start (areas v ! j) \<noteq> start) \<and> resize_fits start new_size i v)"
    and "\<not> b \<Longrightarrow> v' = v"
    and "b \<Longrightarrow> \<exists>i < vma_count v. vma_start (areas v ! i) = start \<and>
           areas v' = (areas v)[i := (areas v ! i)\<lparr>vma_end := start + new_size\<rparr>]"
    and "vma_ok v'"
  using ok by (cases rule: vma_resize_cases [OF ok r]; use resized_areas resized_ok [OF ok] in blast)+

section \<open>The table as a state machine\<close>

inductive vma_step :: "vma_state \<Rightarrow> vma_state \<Rightarrow> bool" where
  create: "vma_create start sz flags v = (b, v') \<Longrightarrow> vma_step v v'"
| destroy: "vma_destroy start v = (b, v') \<Longrightarrow> vma_step v v'"
| resize: "vma_resize start new_size v = (b, v') \<Longrightarrow> vma_step v v'"
| init: "v' = vma_init v \<Longrightarrow> vma_step v v'"

inductive_cases vma_stepE: "vma_step v v'"

inductive vma_reachable :: "vma_state \<Rightarrow> bool" where
  boot: "length (vma_table v) = VMA_MAX_COUNT \<Longrightarrow> vma_reachable (vma_init v)"
| step: "vma_reachable v \<Longrightarrow> vma_step v v' \<Longrightarrow> vma_reachable v'"

lemma vma_step_ok: "vma_ok v \<Longrightarrow> vma_step v v' \<Longrightarrow> vma_ok v'"
proof -
  assume ok: "vma_ok v" and st: "vma_step v v'"
  have "length (vma_table v) = VMA_MAX_COUNT" using ok by (simp add: vma_ok_def)
  with st ok show "vma_ok v'"
    by (elim vma_stepE) (blast intro: vma_create(4) vma_destroy(4) vma_resize(4) vma_init_ok(1))+
qed

lemma vma_reachable_ok: "vma_reachable v \<Longrightarrow> vma_ok v"
  by (induction rule: vma_reachable.induct) (auto intro: vma_init_ok(1) vma_step_ok)

text \<open>
  What a client of the table relies on: a lookup finds the one area that contains the address.
\<close>

locale area_lookup =
  fixes lookup :: "u64 \<Rightarrow> 's \<Rightarrow> nat option"
    and inv :: "'s \<Rightarrow> bool"
    and extent :: "'s \<Rightarrow> u64 set list"
  assumes lookup_Some: "inv s \<Longrightarrow> lookup a s = Some i \<longleftrightarrow> i < length (extent s) \<and> a \<in> extent s ! i"
begin

lemma lookup_unique:
  assumes "inv s" "i < length (extent s)" "a \<in> extent s ! i" "j < length (extent s)" "a \<in> extent s ! j"
  shows "i = j"
  using lookup_Some [OF assms(1), of a i] lookup_Some [OF assms(1), of a j] assms by simp

lemma lookup_None: "inv s \<Longrightarrow> lookup a s = None \<longleftrightarrow> (\<forall>x \<in> set (extent s). a \<notin> x)"
  using lookup_Some [of s a] by (metis in_set_conv_nth not_None_eq)

lemma lookup_same: "inv s \<Longrightarrow> lookup a s = Some i \<Longrightarrow> b \<in> extent s ! i \<Longrightarrow> lookup b s = Some i"
  using lookup_Some by metis

end

interpretation va: area_lookup vma_find vma_ok "\<lambda>v. map area (areas v)"
  by unfold_locales (auto simp: vma_find_Some length_areas)

section \<open>Properties\<close>

definition sample_vma :: vma_state where
  "sample_vma = vma_init \<lparr>vma_table = replicate VMA_MAX_COUNT vma_zero, vma_count = 0\<rparr>"

lemma sample_vma_ok: "vma_ok sample_vma" "areas sample_vma = []"
  by (simp_all add: sample_vma_def vma_init_ok)

text \<open>
  C10. Whatever sequence of creations, destructions, resizes and resets is run from the initial table,
  the areas in use are pairwise disjoint, so an address is found in at most one of them, and the
  table never holds more than 32.
\<close>

theorem vma_reachable_disjoint:
  assumes "vma_reachable v"
  shows "vma_count v \<le> 32 \<and>
         (\<forall>i < vma_count v. \<forall>j < vma_count v. i \<noteq> j \<longrightarrow>
            {vma_start (vma_table v ! i)..<vma_end (vma_table v ! i)} \<inter>
            {vma_start (vma_table v ! j)..<vma_end (vma_table v ! j)} = {})"
proof -
  note ok = vma_reachable_ok [OF assms]
  have "area (vma_table v ! i) \<inter> area (vma_table v ! j) = {}"
    if "i < vma_count v" "j < vma_count v" "i \<noteq> j" for i j
    using disjoint_areas_nth [of "areas v" i j] ok that length_areas [OF ok] areas_nth [OF ok]
    by (simp add: vma_ok_def)
  then show ?thesis using ok by (auto simp: vma_ok_def VMA_MAX_COUNT_def area_def)
qed

theorem vma_reachable_disjoint_witness:
  "vma_count (snd (vma_create 0x1000 0x1000 VMA_READ sample_vma)) \<le> 32"
proof -
  have "vma_reachable sample_vma" unfolding sample_vma_def by (rule vma_reachable.boot) simp
  then have "vma_reachable (snd (vma_create 0x1000 0x1000 VMA_READ sample_vma))"
    by (rule vma_reachable.step) (rule vma_step.create [OF surjective_pairing])
  from vma_reachable_disjoint [OF this] show ?thesis by blast
qed

text \<open>
  \<open>vma_create\<close> succeeds exactly when there is room and the new area overlaps no existing one; then
  \<open>vma_find\<close> finds the new area for every address in it and finds what it found before for every
  other address.
\<close>

theorem vma_create_find:
  assumes "vma_ok v" and "vma_create start sz flags v = (b, v')"
  shows "(b \<longleftrightarrow> vma_fits start sz v) \<and> vma_ok v' \<and>
         vma_find a v' = (if b \<and> a \<in> {start..<start + sz} then Some (vma_count v) else vma_find a v)"
proof -
  note c = vma_create [OF assms]
  have "vma_find a v' = Some i \<longleftrightarrow>
      (if b \<and> a \<in> {start..<start + sz} then i = vma_count v else vma_find a v = Some i)" for i
  proof (cases b)
    case True
    let ?n = "\<lparr>vma_start = start, vma_end = start + sz, vma_flags = flags\<rparr>"
    have "vma_find a v = None" if "a \<in> area ?n"
      using that c(1) True area_overlap [of start _ "start + sz"]
      unfolding vma_find_None [OF assms(1)] by (fastforce simp: vma_fits_def area_def)
    then show ?thesis
      using True c vma_find_Some [OF c(4), of a i] vma_find_Some [OF assms(1), of a i]
        length_areas [OF assms(1)]
      by (auto simp: nth_append less_Suc_eq area_def)
  next
    case False
    then show ?thesis
      using vma_find_Some [OF c(4)] vma_find_Some [OF assms(1)] c(2,3) by simp
  qed
  then have "vma_find a v' = (if b \<and> a \<in> {start..<start + sz} then Some (vma_count v) else vma_find a v)"
    by (intro option_eqI) (auto split: if_splits)
  with c show ?thesis by blast
qed

theorem vma_create_find_witness:
  "vma_find 0x1800 (snd (vma_create 0x1000 0x1000 VMA_READ sample_vma)) = Some 0"
proof -
  have f: "vma_fits 0x1000 0x1000 sample_vma"
    by (simp add: vma_fits_def sample_vma_ok sample_vma_def vma_init_def VMA_MAX_COUNT_def)
       (simp add: areas_def)
  show ?thesis
    using f vma_create_find [OF sample_vma_ok(1) surjective_pairing, of "0x1000" "0x1000" VMA_READ "0x1800"]
    by (simp add: sample_vma_def vma_init_def)
qed

end
