(* ===== verification/Demand_Paging.thy ===== *)
theory Demand_Paging
  imports Address_Space Vma
begin

text \<open>
  Demand paging, \<open>vmm/demand_paging.c\<close>: the page fault handler fills a hole in a demand-paged area
  with a fresh, cleared page. The state is the virtual memory state together with the table of
  areas. The messages to the console are left out.
\<close>

record mm_state =
  mm_vm :: vm_state
  mm_vma :: vma_state

definition vmm_handle_page_fault :: "u64 \<Rightarrow> u64 \<Rightarrow> mm_state \<Rightarrow> bool \<times> mm_state" where
  "vmm_handle_page_fault fault_address error_code s =
     (let present = (error_code AND 1 \<noteq> 0) in
      if present then (False, s)
      else
        case vma_find fault_address (mm_vma s) of
          None \<Rightarrow> (False, s)
        | Some i \<Rightarrow>
            let vma = vma_table (mm_vma s) ! i in
            if vma_flags vma AND VMA_DEMAND_PAGED = 0 then (False, s)
            else
              let page_base = fault_address AND NOT (PAGE_SIZE - 1) in
              case pmm_alloc_page (vm_pmm (mm_vm s)) of (physical_page, pmm) \<Rightarrow>
                let v = (mm_vm s)\<lparr>vm_pmm := pmm\<rparr> in
                if physical_page = 0 then (False, s\<lparr>mm_vm := v\<rparr>)
                else
                  let virtual_page = page_table_physical_to_virtual v physical_page;
                      v = v\<lparr>vm_mem := k_memset virtual_page 0 PAGE_SIZE (vm_mem v)\<rparr>
                  in case page_table_map page_base physical_page PAGE_WRITABLE v of (mapped, v) \<Rightarrow>
                       if \<not> mapped
                       then (False, s\<lparr>mm_vm := v\<lparr>vm_pmm := pmm_free_page physical_page (vm_pmm v)\<rparr>\<rparr>)
                       else (True, s\<lparr>mm_vm := v\<rparr>))"

section \<open>A fresh page\<close>

definition with_cleared_page :: "u64 \<Rightarrow> pmm_state \<Rightarrow> vm_state \<Rightarrow> vm_state" where
  "with_cleared_page f pmm s =
     s\<lparr>vm_pmm := pmm,
       vm_mem := k_memset (f * PMM_PAGE_SIZE + hhdm_offset s) 0 PAGE_SIZE (vm_mem s)\<rparr>"

lemma tables_unchanged:
  assumes "hhdm_offset s' = hhdm_offset s"
    and load: "\<And>q u j. table_path q \<Longrightarrow> descend s root q = Some u \<Longrightarrow> j < 512 \<Longrightarrow>
           load_u64 (vm_mem s') (entry_addr u j) = load_u64 (vm_mem s) (entry_addr u j)"
  shows "table_path q \<Longrightarrow> descend s' root q = descend s root q" and "pte s' root = pte s root"
proof -
  have t: "touches_only s s' root [] 512" using assms by (auto simp: touches_only_def)
  show d: "table_path q \<Longrightarrow> descend s' root q = descend s root q" for q
    using descend_touches_only [OF t, of q] by (cases q) auto
  show "pte s' root = pte s root"
    by (rule ext) (auto simp: pte_def d load split: option.split)
qed

lemma cleared_page:
  assumes ok: "vm_ok s root" and f: "f \<in> free_set (vm_pmm s)" "unat f < 1048576"
    and pmm: "pmm_inv pmm" "free_set pmm = free_set (vm_pmm s) - {f}"
    and u: "u = f * PMM_PAGE_SIZE + hhdm_offset s"
    and s': "s' = with_cleared_page f pmm s"
  shows "vm_ok s' root" "pte s' root = pte s root" "data_page s' root u"
    "x - u < PAGE_SIZE \<Longrightarrow> vm_mem s' x = 0" "keeps_data root s s'"
proof -
  have al: "aligned 4096 u" unfolding u
    using ok f(2) by (intro aligned_add) (simp_all add: vm_ok_def aligned_frame)
  have fr: "table_frame s u = f" unfolding u by (rule table_frame_new [OF f(2)])
  have no: "descend s root p \<noteq> Some u" if "table_path p" for p
    using vm_ok_table(3) [OF ok that, of u] fr f(1) by auto
  have off: "hhdm_offset s' = hhdm_offset s" "vm_pmm s' = pmm" by (simp_all add: s' with_cleared_page_def)
  have load: "load_u64 (vm_mem s') (entry_addr t j) = load_u64 (vm_mem s) (entry_addr t j)"
    if q: "table_path q" "descend s root q = Some t" "j < 512" for q t j
  proof -
    have "t \<noteq> u" using q no by auto
    then show ?thesis
      using load_memset_page [OF vm_ok_table(2) [OF ok q(1,2)] q(3) al]
      by (simp add: s' with_cleared_page_def flip: u)
  qed
  have d: "descend s' root q = descend s root q" if "table_path q" for q
    by (rule tables_unchanged(1) [OF off(1) _ that]) (rule load)
  show p: "pte s' root = pte s root"
    by (rule tables_unchanged(2) [OF off(1)]) (rule load)
  show "vm_ok s' root"
    by (rule vm_ok_cong [OF ok]) (use pmm d p off vm_ok_top [OF ok] in auto)
  show "data_page s' root u"
    using al fr d no pmm(2) off by (auto simp: data_page_def table_frame_def)
  show "x - u < PAGE_SIZE \<Longrightarrow> vm_mem s' x = 0"
    by (simp add: s' with_cleared_page_def k_memset_apply flip: u)
  show "keeps_data root s s'"
    unfolding keeps_data_def
  proof (intro allI impI conjI)
    fix w assume w: "data_page s root w"
    then show "data_page s' root w" using d pmm(2) off by (auto simp: data_page_def table_frame_def)
    have "w \<noteq> u" using w fr f(1) by (auto simp: data_page_def)
    then show "same_bytes w s s'"
      using memset_keeps_page [OF al, of w] w by (simp add: same_bytes_def data_page_def s' with_cleared_page_def flip: u)
  qed
qed

lemma active_root_cleared: "page_table_active_root (with_cleared_page f pmm s) = page_table_active_root s"
  by (simp add: with_cleared_page_def page_table_active_root_def page_table_current_root_def
      page_table_physical_to_virtual_def)

lemma page_base_same: "same_page va (fa AND NOT (PAGE_SIZE - 1)) \<longleftrightarrow> same_page va fa"
proof -
  have m: "(PAGE_SIZE - 1 :: u64) = mask 12" by (simp add: PAGE_SIZE_def mask_eq_exp_minus_1)
  have "take_bit 36 (drop_bit 12 (fa AND NOT (PAGE_SIZE - 1))) = take_bit 36 (drop_bit 12 fa)"
    unfolding m by (rule bit_eqI) (auto simp: bit_simps)
  then show ?thesis by (simp add: same_page_def)
qed

section \<open>The handler\<close>

text \<open>The areas the handler may fill.\<close>

definition demand_paged :: "u64 \<Rightarrow> vma_state \<Rightarrow> bool" where
  "demand_paged a v \<longleftrightarrow>
     (\<exists>i. vma_find a v = Some i \<and> vma_flags (vma_table v ! i) AND VMA_DEMAND_PAGED \<noteq> 0)"

lemma handler_cases:
  assumes ok: "vm_inv (mm_vm s)" and r: "vmm_handle_page_fault fa err s = (b, s')"
  obtains (rejected) "err AND 1 \<noteq> 0 \<or> \<not> demand_paged fa (mm_vma s)" "\<not> b" "s' = s"
    | (no_page) "err AND 1 = 0" "demand_paged fa (mm_vma s)" "\<not> b" "s' = s"
        "free_set (vm_pmm (mm_vm s)) = {}"
    | (filled) f pmm v where "err AND 1 = 0" "demand_paged fa (mm_vma s)"
        "f \<in> free_set (vm_pmm (mm_vm s))" "unat f < 1048576" "pmm_inv pmm" "f \<noteq> 0"
        "free_set pmm = free_set (vm_pmm (mm_vm s)) - {f}" "total_pages pmm = total_pages (vm_pmm (mm_vm s))"
        "page_table_map (fa AND NOT (PAGE_SIZE - 1)) (f * PMM_PAGE_SIZE) PAGE_WRITABLE
           (with_cleared_page f pmm (mm_vm s)) = (b, v)"
        "s' = s\<lparr>mm_vm := (if b then v
           else v\<lparr>vm_pmm := pmm_free_page (f * PMM_PAGE_SIZE) (vm_pmm v)\<rparr>)\<rparr>"
proof (cases "err AND 1 = 0 \<and> demand_paged fa (mm_vma s)")
  case False
  then have "\<not> b \<and> s' = s"
    using r by (auto simp: vmm_handle_page_fault_def Let_def demand_paged_def split: option.splits if_splits)
  with False show thesis by (intro rejected) auto
next
  case True
  then obtain i where i: "vma_find fa (mm_vma s) = Some i"
    "vma_flags (vma_table (mm_vma s) ! i) AND VMA_DEMAND_PAGED \<noteq> 0" by (auto simp: demand_paged_def)
  have inv: "pmm_inv (vm_pmm (mm_vm s))" using ok by (simp add: vm_ok_def)
  obtain a pmm where al: "pmm_alloc_page (vm_pmm (mm_vm s)) = (a, pmm)"
    by (cases "pmm_alloc_page (vm_pmm (mm_vm s))")
  show thesis
  proof (cases "a = 0")
    case a0: True
    then have "free_set (vm_pmm (mm_vm s)) = {}" "pmm = vm_pmm (mm_vm s)"
      using alloc_null [OF inv] al by auto
    moreover from this have "\<not> b" "s' = s"
      using r True i al a0 by (auto simp: vmm_handle_page_fault_def Let_def)
    ultimately show thesis using True by (intro no_page) auto
  next
    case False
    obtain f where f: "f \<in> free_set (vm_pmm (mm_vm s))" "unat f < 1048576" "a = f * PMM_PAGE_SIZE"
      "pmm_inv pmm" "free_set pmm = free_set (vm_pmm (mm_vm s)) - {f}"
      "total_pages pmm = total_pages (vm_pmm (mm_vm s))" "f \<noteq> 0"
      by (rule alloc_frame_address [OF inv al False])
    obtain c v where m: "page_table_map (fa AND NOT (PAGE_SIZE - 1)) a PAGE_WRITABLE
        (with_cleared_page f pmm (mm_vm s)) = (c, v)"
      by (cases "page_table_map (fa AND NOT (PAGE_SIZE - 1)) a PAGE_WRITABLE
        (with_cleared_page f pmm (mm_vm s))")
    have "b = c" "s' = s\<lparr>mm_vm := (if b then v
        else v\<lparr>vm_pmm := pmm_free_page (f * PMM_PAGE_SIZE) (vm_pmm v)\<rparr>)\<rparr>"
      using r True i al False m f(3)
      by (auto simp: vmm_handle_page_fault_def Let_def with_cleared_page_def
          page_table_physical_to_virtual_def split: if_splits)
    then show thesis using True f m by (intro filled) auto
  qed
qed

lemma handler_recovers:
  assumes ok: "vm_inv (mm_vm s)" and err: "err AND 1 = 0" and dp: "demand_paged fa (mm_vma s)"
    and nb: "\<not> blocked (pte (mm_vm s) (page_table_active_root (mm_vm s))) (fa AND NOT (PAGE_SIZE - 1))"
    and fr: "4 \<le> unat (pmm_get_free_pages (vm_pmm (mm_vm s)))"
    and off: "unat (hhdm_offset (mm_vm s)) + 2 ^ 32 \<le> 2 ^ 64"
  shows "fst (vmm_handle_page_fault fa err s)"
proof -
  obtain b s' where r: "vmm_handle_page_fault fa err s = (b, s')" by (cases "vmm_handle_page_fault fa err s")
  have inv: "pmm_inv (vm_pmm (mm_vm s))" using ok by (simp add: vm_ok_def)
  then have card: "4 \<le> card (free_set (vm_pmm (mm_vm s)))"
    using fr by (simp add: pmm_get_free_pages_def pmm_inv_def)
  have "b" using ok r
  proof (cases rule: handler_cases)
    case (filled f pmm v)
    let ?s1 = "with_cleared_page f pmm (mm_vm s)"
    note c = cleared_page [OF ok filled(3,4,5,7) refl refl]
    have s1: "vm_pmm ?s1 = pmm" "hhdm_offset ?s1 = hhdm_offset (mm_vm s)"
      by (simp_all add: with_cleared_page_def)
    have ok1: "vm_inv ?s1" using c(1) by (simp add: active_root_cleared)
    have "\<not> null_frame ?s1" using no_null_frame [of ?s1] filled(5) off s1 by simp
    moreover have "3 \<le> card (free_set (vm_pmm ?s1))" using card filled(3,7) s1 by simp
    ultimately show b
      using page_table_map_effect(5) [OF ok1 filled(9)] nb c(2) by (auto simp: active_root_cleared)
  qed (use err dp card in auto)
  then show ?thesis using r by simp
qed

section \<open>Properties\<close>

text \<open>
  C11. When the page fault handler reports success, the fault was a missing page in a demand-paged
  area; afterwards the faulting address translates to a page that was free before and all of whose bytes
  are zero, and no other page's translation has changed. Nothing else happens to memory: the areas and
  the root table stay, every page in use that is not a table keeps its contents, and every further
  frame that was taken is now a table of the address space.
\<close>

theorem demand_fault_success:
  assumes ok: "vm_ok (mm_vm s) (page_table_active_root (mm_vm s))"
    and r: "vmm_handle_page_fault fa err s = (True, s')"
  shows "err AND 1 = 0 \<and> demand_paged fa (mm_vma s) \<and> mm_vma s' = mm_vma s \<and>
         page_table_active_root (mm_vm s') = page_table_active_root (mm_vm s) \<and>
         vm_ok (mm_vm s') (page_table_active_root (mm_vm s')) \<and>
         (\<forall>u x. data_page (mm_vm s) (page_table_active_root (mm_vm s)) u \<longrightarrow> x - u < 4096 \<longrightarrow>
            vm_mem (mm_vm s') x = vm_mem (mm_vm s) x) \<and>
         free_set (vm_pmm (mm_vm s')) \<subseteq> free_set (vm_pmm (mm_vm s)) \<and>
         (\<exists>f \<in> free_set (vm_pmm (mm_vm s)). f \<notin> free_set (vm_pmm (mm_vm s')) \<and>
            (\<forall>va. page_table_translate va (mm_vm s') =
               (if same_page va fa then ((f * 4096) AND PAGE_TABLE_ADDRESS_MASK) OR (va AND 0xFFF)
                else page_table_translate va (mm_vm s))) \<and>
            (\<forall>x. x - (f * 4096 + hhdm_offset (mm_vm s)) < 4096 \<longrightarrow> vm_mem (mm_vm s') x = 0) \<and>
            (\<forall>g \<in> free_set (vm_pmm (mm_vm s)) - free_set (vm_pmm (mm_vm s')) - {f}.
               \<exists>p t. table_path p \<and> descend (mm_vm s') (page_table_active_root (mm_vm s')) p = Some t \<and>
                 table_frame (mm_vm s') t = g))"
  using ok r
proof (cases rule: handler_cases)
  case (filled f pmm v)
  let ?s1 = "with_cleared_page f pmm (mm_vm s)" and ?r = "page_table_active_root (mm_vm s)"
  let ?u = "f * PMM_PAGE_SIZE + hhdm_offset (mm_vm s)"
  note c = cleared_page [OF ok filled(3,4,5,7) refl refl]
  have root: "page_table_active_root ?s1 = ?r" by (rule active_root_cleared)
  have ok1: "vm_inv ?s1" using c(1) root by simp
  note m = filled(9)
  have v: "mm_vm s' = v" "mm_vma s' = mm_vma s" using filled(10) by simp_all
  have tr: "page_table_translate va ?s1 = page_table_translate va (mm_vm s)" for va
    using translate_resolve [OF ok1, of va] translate_resolve [OF ok, of va] c(2) root by simp
  have w: "(x OR PAGE_WRITABLE) AND PAGE_TABLE_ADDRESS_MASK = x AND PAGE_TABLE_ADDRESS_MASK" for x
    by (rule bit_eqI) (auto simp: bit_or_iff bit_and_iff bit_small_flags)
  have t: "page_table_translate va v = (if same_page va fa
      then ((f * 4096) AND PAGE_TABLE_ADDRESS_MASK) OR (va AND 0xFFF)
      else page_table_translate va (mm_vm s))" for va
    using vm.map_translate [OF ok1 m, of va]
    by (simp add: page_base_same page_frame_at_def w tr) (simp add: PMM_PAGE_SIZE_def PAGE_SIZE_def)
  have kd: "keeps_data ?r ?s1 v" using page_table_map_keeps_data [OF ok1 m] root by simp
  then have "same_bytes ?u ?s1 v" using c(3) by (auto simp: keeps_data_def)
  then have z: "vm_mem v x = 0" if "x - ?u < PAGE_SIZE" for x
    using that c(4) by (simp add: same_bytes_def)
  have keep: "vm_mem v x = vm_mem (mm_vm s) x" if "data_page (mm_vm s) ?r w" "x - w < 4096" for w x
    using keeps_data_trans [OF c(5) kd] that by (simp add: keeps_data_def same_bytes_def PAGE_SIZE_def)
  have rv: "page_table_active_root v = ?r" using page_table_map_effect(1) [OF ok1 m] root by simp
  have free: "free_set (vm_pmm v) \<subseteq> free_set (vm_pmm (mm_vm s)) - {f}"
    using page_table_map_free(1) [OF ok1 m] filled(7) by (simp add: with_cleared_page_def)
  have "\<exists>p w. table_path p \<and> descend v ?r p = Some w \<and> table_frame v w = g"
    if "g \<in> free_set (vm_pmm (mm_vm s)) - free_set (vm_pmm v) - {f}" for g
    using page_table_map_taken [OF ok1 m] that filled(7) root by (simp add: taken_as_tables_def with_cleared_page_def)
  then show ?thesis
    using filled(1-3) v t z vm.map_inv [OF ok1 m] keep free rv
    by (intro conjI bexI [of _ f]) (auto simp: PMM_PAGE_SIZE_def PAGE_SIZE_def)
qed simp_all

text \<open>A machine with a demand-paged area for the witness.\<close>

definition sample_mm :: mm_state where
  "sample_mm = \<lparr>mm_vm = sample_vm,
     mm_vma = snd (vma_create 0x400000 0x4000 VMA_DEMAND_PAGED sample_vma)\<rparr>"

lemma sample_demand: "demand_paged 0x401234 (mm_vma sample_mm)"
proof -
  have "vma_find 0x401234 (mm_vma sample_mm) = Some 0" "vma_table (mm_vma sample_mm) ! 0 =
      \<lparr>vma_start = 0x400000, vma_end = 0x404000, vma_flags = VMA_DEMAND_PAGED\<rparr>"
    by code_simp+
  then show ?thesis by (simp add: demand_paged_def VMA_DEMAND_PAGED_def)
qed

lemma sample_recovers: "fst (vmm_handle_page_fault 0x401234 2 sample_mm)"
proof (rule handler_recovers)
  show "vm_inv (mm_vm sample_mm)" using sample_vm_ok(1) by (simp add: sample_mm_def)
  show "demand_paged 0x401234 (mm_vma sample_mm)" by (rule sample_demand)
  show "\<not> blocked (pte (mm_vm sample_mm) (page_table_active_root (mm_vm sample_mm)))
      (0x401234 AND NOT (PAGE_SIZE - 1))"
    by (simp add: sample_mm_def blocked_def sample_vm_ok(2))
  show "4 \<le> unat (pmm_get_free_pages (vm_pmm (mm_vm sample_mm)))"
    using sample_free by (simp add: sample_mm_def)
qed (simp_all add: sample_mm_def sample_vm_def)

theorem demand_fault_success_witness:
  "page_table_translate 0x401234 (mm_vm (snd (vmm_handle_page_fault 0x401234 2 sample_mm))) AND 0xFFF = 0x234"
proof -
  let ?r = "vmm_handle_page_fault 0x401234 2 sample_mm"
  have r: "?r = (True, snd ?r)" using sample_recovers by (metis prod.collapse)
  have ok: "vm_inv (mm_vm sample_mm)" using sample_vm_ok(1) by (simp add: sample_mm_def)
  obtain f where t: "\<forall>va. page_table_translate va (mm_vm (snd ?r)) =
      (if same_page va 0x401234 then ((f * 4096) AND PAGE_TABLE_ADDRESS_MASK) OR (va AND 0xFFF)
       else page_table_translate va (mm_vm sample_mm))"
    using demand_fault_success [OF ok r] by blast
  have "(x AND PAGE_TABLE_ADDRESS_MASK) AND 0xFFF = 0" for x
  proof -
    have m: "(0xFFF :: u64) = mask 12" by (simp add: mask_eq_exp_minus_1)
    show ?thesis unfolding m by (rule bit_eqI) (auto simp: bit_and_iff bit_mask_iff)
  qed
  then have "((f * 4096) AND PAGE_TABLE_ADDRESS_MASK OR 0x234) AND 0xFFF = 0x234"
    by (simp add: bit.conj_disj_distrib2)
  then show ?thesis using spec [OF t, of "0x401234"] by (simp add: same_page_def)
qed

text \<open>
  C12. The handler recovers: a fault on a missing page of a demand-paged area is resolved whenever four
  pages are free, no large page covers the address and the direct map does not wrap.
\<close>

theorem demand_fault_recovers:
  assumes "vm_ok (mm_vm s) (page_table_active_root (mm_vm s))"
    and "err AND 1 = 0" and "demand_paged fa (mm_vma s)"
    and "\<not> blocked (pte (mm_vm s) (page_table_active_root (mm_vm s))) (fa AND NOT (PAGE_SIZE - 1))"
    and "4 \<le> unat (pmm_get_free_pages (vm_pmm (mm_vm s)))"
    and "unat (hhdm_offset (mm_vm s)) + 2 ^ 32 \<le> 2 ^ 64"
  shows "fst (vmm_handle_page_fault fa err s)"
  by (rule handler_recovers [OF assms])

theorem demand_fault_recovers_witness: "fst (vmm_handle_page_fault 0x402000 0 sample_mm)"
proof (rule demand_fault_recovers)
  show "demand_paged 0x402000 (mm_vma sample_mm)"
  proof -
    have "vma_find 0x402000 (mm_vma sample_mm) = Some 0" "vma_table (mm_vma sample_mm) ! 0 =
        \<lparr>vma_start = 0x400000, vma_end = 0x404000, vma_flags = VMA_DEMAND_PAGED\<rparr>"
      by code_simp+
    then show ?thesis by (simp add: demand_paged_def VMA_DEMAND_PAGED_def)
  qed
  show "\<not> blocked (pte (mm_vm sample_mm) (page_table_active_root (mm_vm sample_mm)))
      (0x402000 AND NOT (PAGE_SIZE - 1))"
    by (simp add: sample_mm_def blocked_def sample_vm_ok(2))
qed (use sample_vm_ok(1) sample_free in \<open>simp_all add: sample_mm_def\<close>, simp add: sample_vm_def)

end
