(* ===== verification/Kheap.thy ===== *)
theory Kheap
  imports Demand_Paging "HOL-Library.Monad_Syntax"
begin

text \<open>
  The kernel heap of \<open>mm/heap.c\<close>: a doubly linked list of blocks laid out one after the other in a
  virtual range that grows a page at a time. The block headers are a typed store from addresses to
  \<open>heap_block\<close> records and the bytes of the payloads are a separate memory; the block invariant
  shows that a header never lies inside a payload. Loops that follow the \<open>next\<close> pointers and the retry
  loop of \<open>kmalloc\<close> are partial functions: \<open>None\<close> is a loop that does not end. The console output
  is left out.
\<close>

section \<open>Data\<close>

record heap_block =
  blk_size :: u64
  blk_free :: bool
  blk_next :: u64
  blk_prev :: u64

record heap_state =
  hp_mm :: mm_state
  hp_blocks :: "u64 \<Rightarrow> heap_block"
  hp_mem :: byte_mem
  heap_head :: u64
  heap_start :: u64
  heap_size :: u64
  heap_virtual_start :: u64
  heap_virtual_end :: u64
  heap_committed_end :: u64
  heap_vma :: "nat option"

definition HEAP_START_ADDRESS :: u64 where "HEAP_START_ADDRESS = 0xFFFF900000000000"
definition HEAP_INITIAL_SIZE :: u64 where "HEAP_INITIAL_SIZE = 4 * 1024"
definition HEAP_GROW_SIZE :: u64 where "HEAP_GROW_SIZE = 4096"
definition HEAP_ALIGNMENT :: u64 where "HEAP_ALIGNMENT = 16"

text \<open>\<open>sizeof(heap_block_t)\<close>: a size, a flag padded to eight bytes and two pointers.\<close>

definition sizeof_heap_block :: u64 where "sizeof_heap_block = 32"

definition upd_block :: "u64 \<Rightarrow> (heap_block \<Rightarrow> heap_block) \<Rightarrow> heap_state \<Rightarrow> heap_state" where
  "upd_block p f h = h\<lparr>hp_blocks := (hp_blocks h)(p := f (hp_blocks h p))\<rparr>"

section \<open>Operations\<close>

partial_function (option) find_free_block_loop :: "(u64 \<Rightarrow> heap_block) \<Rightarrow> u64 \<Rightarrow> u64 \<Rightarrow> u64 option" where
  "find_free_block_loop bl sz current =
     (if current = 0 then Some 0
      else if blk_free (bl current) \<and> blk_size (bl current) \<ge> sz then Some current
      else find_free_block_loop bl sz (blk_next (bl current)))"

definition find_free_block :: "u64 \<Rightarrow> heap_state \<Rightarrow> u64 option" where
  "find_free_block sz h = find_free_block_loop (hp_blocks h) sz (heap_head h)"

definition split_block :: "u64 \<Rightarrow> u64 \<Rightarrow> heap_state \<Rightarrow> heap_state" where
  "split_block block sz h =
     (if blk_size (hp_blocks h block) \<le> sz + sizeof_heap_block then h
      else
        let new_block = block + sizeof_heap_block + sz;
            h = upd_block new_block (\<lambda>_. \<lparr>
                  blk_size = blk_size (hp_blocks h block) - sz - sizeof_heap_block,
                  blk_free = True,
                  blk_next = blk_next (hp_blocks h block),
                  blk_prev = block\<rparr>) h;
            h = (if blk_next (hp_blocks h block) \<noteq> 0
                 then upd_block (blk_next (hp_blocks h block)) (\<lambda>b. b\<lparr>blk_prev := new_block\<rparr>) h
                 else h);
            h = upd_block block (\<lambda>b. b\<lparr>blk_next := new_block\<rparr>) h
        in upd_block block (\<lambda>b. b\<lparr>blk_size := sz\<rparr>) h)"

definition merge_with_next :: "u64 \<Rightarrow> heap_state \<Rightarrow> heap_state" where
  "merge_with_next block h =
     (if block = 0 then h
      else
        let next = blk_next (hp_blocks h block) in
        if next = 0 then h
        else if \<not> blk_free (hp_blocks h next) then h
        else
          let h = upd_block block (\<lambda>b. b\<lparr>blk_size := blk_size b +
                    (sizeof_heap_block + blk_size (hp_blocks h next))\<rparr>) h;
              h = upd_block block (\<lambda>b. b\<lparr>blk_next := blk_next (hp_blocks h next)\<rparr>) h
          in if blk_next (hp_blocks h next) \<noteq> 0
             then upd_block (blk_next (hp_blocks h next)) (\<lambda>b. b\<lparr>blk_prev := block\<rparr>) h
             else h)"

definition merge_with_previous :: "u64 \<Rightarrow> heap_state \<Rightarrow> heap_state" where
  "merge_with_previous block h =
     (if block = 0 then h
      else
        let prev = blk_prev (hp_blocks h block) in
        if prev = 0 then h
        else if \<not> blk_free (hp_blocks h prev) then h
        else
          let h = upd_block prev (\<lambda>b. b\<lparr>blk_size := blk_size b +
                    (sizeof_heap_block + blk_size (hp_blocks h block))\<rparr>) h;
              h = upd_block prev (\<lambda>b. b\<lparr>blk_next := blk_next (hp_blocks h block)\<rparr>) h
          in if blk_next (hp_blocks h block) \<noteq> 0
             then upd_block (blk_next (hp_blocks h block)) (\<lambda>b. b\<lparr>blk_prev := prev\<rparr>) h
             else h)"

partial_function (option) coalesce_loop :: "u64 \<Rightarrow> heap_state \<Rightarrow> heap_state option" where
  "coalesce_loop current h =
     (if current = 0 then Some h
      else if blk_free (hp_blocks h current) \<and> blk_next (hp_blocks h current) \<noteq> 0 \<and>
              blk_free (hp_blocks h (blk_next (hp_blocks h current)))
      then coalesce_loop current (merge_with_next current h)
      else coalesce_loop (blk_next (hp_blocks h current)) h)"

definition coalesce_free_blocks :: "heap_state \<Rightarrow> heap_state option" where
  "coalesce_free_blocks h = coalesce_loop (heap_head h) h"

definition align_size :: "u64 \<Rightarrow> u64" where
  "align_size sz = (sz + (HEAP_ALIGNMENT - 1)) AND NOT (HEAP_ALIGNMENT - 1)"

partial_function (option) find_last_loop :: "(u64 \<Rightarrow> heap_block) \<Rightarrow> u64 \<Rightarrow> u64 option" where
  "find_last_loop bl current =
     (if blk_next (bl current) \<noteq> 0 then find_last_loop bl (blk_next (bl current)) else Some current)"

definition find_last_block :: "heap_state \<Rightarrow> u64 option" where
  "find_last_block h = find_last_loop (hp_blocks h) (heap_head h)"

definition heap_commit_page :: "u64 \<Rightarrow> heap_state \<Rightarrow> u64 \<times> heap_state" where
  "heap_commit_page virtual_address h =
     (case pmm_alloc_page (vm_pmm (mm_vm (hp_mm h))) of (physical, pmm) \<Rightarrow>
        let v = (mm_vm (hp_mm h))\<lparr>vm_pmm := pmm\<rparr> in
        if physical = 0 then (0, h\<lparr>hp_mm := (hp_mm h)\<lparr>mm_vm := v\<rparr>\<rparr>)
        else
          case page_table_map_page virtual_address physical True v of (mapped, v) \<Rightarrow>
            let h = h\<lparr>hp_mm := (hp_mm h)\<lparr>mm_vm := v\<rparr>\<rparr> in
            if \<not> mapped then (0, h)
            else (virtual_address, h\<lparr>heap_committed_end := heap_committed_end h + PAGE_SIZE\<rparr>))"

definition heap_create_block :: "u64 \<Rightarrow> u64 \<Rightarrow> heap_state \<Rightarrow> u64 \<times> heap_state" where
  "heap_create_block virtual_address sz h =
     (virtual_address, upd_block virtual_address
        (\<lambda>_. \<lparr>blk_size = sz - sizeof_heap_block, blk_free = True, blk_next = 0, blk_prev = 0\<rparr>) h)"

definition heap_committed_size :: "heap_state \<Rightarrow> u64" where
  "heap_committed_size h = heap_committed_end h - heap_virtual_start h"

definition heap_next_commit_address :: "heap_state \<Rightarrow> u64" where
  "heap_next_commit_address h = heap_committed_end h"

definition heap_expand :: "heap_state \<Rightarrow> (bool \<times> heap_state) option" where
  "heap_expand h =
     (case heap_vma h of
        None \<Rightarrow> Some (False, h)
      | Some i \<Rightarrow>
          let commit_address = heap_next_commit_address h in
          case heap_commit_page commit_address h of (virtual_page, h) \<Rightarrow>
            if virtual_page = 0 then Some (False, h)
            else do {
              last \<leftarrow> find_last_block h;
              case heap_create_block virtual_page PAGE_SIZE h of (new_block, h) \<Rightarrow>
                let h = upd_block last (\<lambda>b. b\<lparr>blk_next := new_block\<rparr>) h;
                    h = upd_block new_block (\<lambda>b. b\<lparr>blk_prev := last\<rparr>) h;
                    h = (if blk_free (hp_blocks h last) then merge_with_next last h else h);
                    h = h\<lparr>heap_size := heap_committed_end h - heap_virtual_start h,
                          heap_virtual_end := heap_committed_end h\<rparr>;
                    start = vma_start (vma_table (mm_vma (hp_mm h)) ! i)
                in Some (True, h\<lparr>hp_mm := (hp_mm h)\<lparr>mm_vma :=
                           snd (vma_resize start (heap_size h) (mm_vma (hp_mm h)))\<rparr>\<rparr>)
            })"

partial_function (option) heap_grow :: "u64 \<Rightarrow> heap_state \<Rightarrow> (bool \<times> heap_state) option" where
  "heap_grow bytes h =
     (if heap_committed_size h < bytes
      then do {
        (ok, h) \<leftarrow> heap_expand h;
        if \<not> ok then Some (False, h) else heap_grow bytes h
      }
      else Some (True, h))"

definition heap_init :: "heap_state \<Rightarrow> heap_state" where
  "heap_init h =
     (case pmm_alloc_page (vm_pmm (mm_vm (hp_mm h))) of (heap_physical, pmm) \<Rightarrow>
        let v = (mm_vm (hp_mm h))\<lparr>vm_pmm := pmm\<rparr> in
        if heap_physical = 0 then h\<lparr>hp_mm := (hp_mm h)\<lparr>mm_vm := v\<rparr>\<rparr>
        else
          case page_table_map_page HEAP_START_ADDRESS heap_physical True v of (mapped, v) \<Rightarrow>
            let h = h\<lparr>hp_mm := (hp_mm h)\<lparr>mm_vm := v\<rparr>\<rparr> in
            if \<not> mapped then h
            else
              let h = h\<lparr>heap_virtual_start := HEAP_START_ADDRESS,
                        heap_virtual_end := HEAP_START_ADDRESS + HEAP_INITIAL_SIZE,
                        heap_committed_end := HEAP_START_ADDRESS + HEAP_INITIAL_SIZE,
                        heap_start := HEAP_START_ADDRESS,
                        heap_vma := vma_find HEAP_START_ADDRESS (mm_vma (hp_mm h))\<rparr> in
              if heap_vma h = None then h
              else
                let h = h\<lparr>heap_size := HEAP_INITIAL_SIZE, heap_head := heap_start h\<rparr>
                in upd_block (heap_head h)
                     (\<lambda>_. \<lparr>blk_size = heap_size h - sizeof_heap_block, blk_free = True,
                           blk_next = 0, blk_prev = 0\<rparr>) h)"

partial_function (option) kmalloc_loop :: "u64 \<Rightarrow> heap_state \<Rightarrow> (u64 \<times> heap_state) option" where
  "kmalloc_loop sz h = do {
     h \<leftarrow> coalesce_free_blocks h;
     block \<leftarrow> find_free_block sz h;
     if block \<noteq> 0 then
       let h = split_block block sz h;
           h = upd_block block (\<lambda>b. b\<lparr>blk_free := False\<rparr>) h
       in Some (block + sizeof_heap_block, h)
     else do {
       (ok, h) \<leftarrow> heap_grow (heap_committed_size h + HEAP_GROW_SIZE) h;
       if \<not> ok then Some (0, h) else kmalloc_loop sz h
     }
   }"

definition kmalloc :: "u64 \<Rightarrow> heap_state \<Rightarrow> (u64 \<times> heap_state) option" where
  "kmalloc sz h = (if sz = 0 then Some (0, h) else kmalloc_loop (align_size sz) h)"

definition kfree :: "u64 \<Rightarrow> heap_state \<Rightarrow> heap_state" where
  "kfree ptr h =
     (if ptr = 0 then h
      else
        let block = ptr - sizeof_heap_block;
            h = upd_block block (\<lambda>b. b\<lparr>blk_free := True\<rparr>) h;
            h = merge_with_next block h
        in merge_with_previous block h)"

definition kcalloc :: "u64 \<Rightarrow> u64 \<Rightarrow> heap_state \<Rightarrow> (u64 \<times> heap_state) option" where
  "kcalloc count sz h =
     (if count = 0 \<or> sz = 0 then Some (0, h)
      else if count > (- 1) div sz then Some (0, h)
      else
        let n = count * sz in do {
          (ptr, h) \<leftarrow> kmalloc n h;
          if ptr = 0 then Some (0, h)
          else Some (ptr, h\<lparr>hp_mem := k_memset ptr 0 n (hp_mem h)\<rparr>)
        })"

definition krealloc :: "u64 \<Rightarrow> u64 \<Rightarrow> heap_state \<Rightarrow> (u64 \<times> heap_state) option" where
  "krealloc ptr sz h =
     (if ptr = 0 then kmalloc sz h
      else if sz = 0 then Some (0, kfree ptr h)
      else
        let sz = align_size sz;
            block = ptr - sizeof_heap_block in
        if blk_size (hp_blocks h block) \<ge> sz then Some (ptr, h)
        else do {
          (new_ptr, h) \<leftarrow> kmalloc sz h;
          if new_ptr = 0 then Some (0, h)
          else
            let h = h\<lparr>hp_mem := k_memcpy new_ptr ptr (blk_size (hp_blocks h block)) (hp_mem h)\<rparr>
            in Some (new_ptr, kfree ptr h)
        })"

end
