(* ===== verification/Heap_Blocks.thy ===== *)
theory Heap_Blocks
  imports Kheap
begin

text \<open>
  The blocks of the heap as a list. A segment is the address, the size and the free flag of a block;
  the linked list of headers represents a list of segments, and the segments lie one after the
  other without gaps from the start of the heap to the end of the committed range. Every
  operation of \<open>mm/heap.c\<close> is shown to act on this list: splitting, merging, coalescing, growing,
  allocating and freeing.
\<close>

section \<open>Segments and headers\<close>

type_synonym seg = "u64 \<times> u64 \<times> bool"

definition first_addr :: "seg list \<Rightarrow> u64 \<Rightarrow> u64" where
  "first_addr segs p = (case segs of [] \<Rightarrow> p | (a, _, _) # _ \<Rightarrow> a)"

definition last_addr :: "u64 \<Rightarrow> seg list \<Rightarrow> u64" where
  "last_addr p segs = (if segs = [] then p else fst (last segs))"

lemma first_addr_simps [simp]:
  "first_addr [] p = p" "first_addr ((a, n, f) # r) p = a"
  "first_addr (xs @ ys) p = first_addr xs (first_addr ys p)"
  by (auto simp: first_addr_def split: list.splits)

lemma last_addr_simps [simp]:
  "last_addr p [] = p" "last_addr p (xs @ [(a, n, f)]) = a"
  "last_addr p (xs @ ys) = last_addr (last_addr p xs) ys"
  "last_addr p ((a, n, f) # r) = last_addr a r"
  by (auto simp: last_addr_def)

text \<open>The headers a list of segments should have, each with its address.\<close>

fun headers :: "u64 \<Rightarrow> seg list \<Rightarrow> u64 \<Rightarrow> (u64 \<times> heap_block) list" where
  "headers p [] q = []"
| "headers p ((a, n, f) # r) q =
     (a, \<lparr>blk_size = n, blk_free = f, blk_next = first_addr r q, blk_prev = p\<rparr>) # headers a r q"

lemma headers_append:
  "headers p (xs @ ys) q = headers p xs (first_addr ys q) @ headers (last_addr p xs) ys q"
  by (induction p xs q rule: headers.induct) auto

lemma fst_headers [simp]: "map fst (headers p xs q) = map fst xs"
  by (induction p xs q rule: headers.induct) auto

definition agrees :: "(u64 \<Rightarrow> heap_block) \<Rightarrow> (u64 \<times> heap_block) list \<Rightarrow> bool" where
  "agrees bl hs \<longleftrightarrow> (\<forall>(a, b) \<in> set hs. bl a = b)"

lemma agrees_simps [simp]:
  "agrees bl []" "agrees bl ((a, b) # hs) \<longleftrightarrow> bl a = b \<and> agrees bl hs"
  "agrees bl (xs @ ys) \<longleftrightarrow> agrees bl xs \<and> agrees bl ys"
  by (simp_all add: agrees_def ball_Un)

lemma agrees_upd:
  assumes "agrees bl hs" "a \<notin> fst ` set hs"
  shows "agrees (bl(a := b)) hs"
  using assms by (force simp: agrees_def)

lemma agrees_upd_headers:
  assumes "agrees bl (headers p xs q)" "a \<notin> fst ` set xs"
  shows "agrees (bl(a := b)) (headers p xs q)"
proof (rule agrees_upd [OF assms(1)])
  have "fst ` set (headers p xs q) = fst ` set xs" by (metis fst_headers set_map)
  then show "a \<notin> fst ` set (headers p xs q)" using assms(2) by simp
qed

definition rep :: "heap_state \<Rightarrow> seg list \<Rightarrow> bool" where
  "rep h segs \<longleftrightarrow> heap_head h = first_addr segs 0 \<and> agrees (hp_blocks h) (headers 0 segs 0) \<and>
     distinct (map fst segs) \<and> 0 \<notin> fst ` set segs"

lemma rep_block:
  assumes "rep h (xs @ (a, n, f) # ys)"
  shows "hp_blocks h a = \<lparr>blk_size = n, blk_free = f, blk_next = first_addr ys 0, blk_prev = last_addr 0 xs\<rparr>"
    and "a \<noteq> 0"
  using assms by (auto simp: rep_def headers_append)

lemma headers_prev:
  "headers p xs q = (case xs of [] \<Rightarrow> [] | (a, n, f) # r \<Rightarrow>
     (a, \<lparr>blk_size = n, blk_free = f, blk_next = first_addr r q, blk_prev = p\<rparr>) # headers a r q)"
  by (cases xs) auto

section \<open>Local changes of the list\<close>

lemma rep_size:
  assumes r: "rep h (xs @ (a, n, f) # ys)"
  shows "rep (upd_block a (\<lambda>b. b\<lparr>blk_free := g\<rparr>) h) (xs @ (a, n, g) # ys)"
proof -
  let ?b = "(hp_blocks h a)\<lparr>blk_free := g\<rparr>"
  have d: "a \<notin> fst ` set xs" "a \<notin> fst ` set ys" using r by (auto simp: rep_def)
  have "agrees ((hp_blocks h)(a := ?b)) (headers 0 xs a)"
    "agrees ((hp_blocks h)(a := ?b)) (headers a ys 0)"
    using r d by (auto simp: rep_def headers_append intro!: agrees_upd_headers)
  then show ?thesis using r rep_block(1) [OF r] by (simp add: rep_def headers_append upd_block_def)
qed

text \<open>The body shared by the two merges: the block at \<open>a\<close> absorbs the block at \<open>b\<close> behind it.\<close>

definition absorb :: "u64 \<Rightarrow> u64 \<Rightarrow> heap_state \<Rightarrow> heap_state" where
  "absorb a b h =
     (let h = upd_block a (\<lambda>x. x\<lparr>blk_size := blk_size x + (sizeof_heap_block + blk_size (hp_blocks h b))\<rparr>) h;
          h = upd_block a (\<lambda>x. x\<lparr>blk_next := blk_next (hp_blocks h b)\<rparr>) h
      in if blk_next (hp_blocks h b) \<noteq> 0
         then upd_block (blk_next (hp_blocks h b)) (\<lambda>x. x\<lparr>blk_prev := a\<rparr>) h
         else h)"

lemma merge_next_absorb:
  "a \<noteq> 0 \<Longrightarrow> merge_with_next a h =
     (let b = blk_next (hp_blocks h a) in if b = 0 \<or> \<not> blk_free (hp_blocks h b) then h else absorb a b h)"
  by (simp add: merge_with_next_def absorb_def Let_def)

lemma merge_prev_absorb:
  "b \<noteq> 0 \<Longrightarrow> merge_with_previous b h =
     (let a = blk_prev (hp_blocks h b) in if a = 0 \<or> \<not> blk_free (hp_blocks h a) then h else absorb a b h)"
  by (simp add: merge_with_previous_def absorb_def Let_def)

lemma rep_absorb:
  assumes r: "rep h (xs @ (a, n, f) # (b, m, g) # ys)"
  shows "rep (absorb a b h) (xs @ (a, n + (sizeof_heap_block + m), f) # ys)"
proof -
  have A: "hp_blocks h a = \<lparr>blk_size = n, blk_free = f, blk_next = b, blk_prev = last_addr 0 xs\<rparr>"
    using rep_block [OF r] by simp_all
  have B: "hp_blocks h b = \<lparr>blk_size = m, blk_free = g, blk_next = first_addr ys 0, blk_prev = a\<rparr>"
    using rep_block [of h "xs @ [(a, n, f)]" b m g ys] r by simp_all
  have d: "a \<noteq> b" "a \<notin> fst ` set xs" "a \<notin> fst ` set ys" "distinct (map fst (xs @ ys))" "0 \<notin> fst ` set ys"
    using r by (auto simp: rep_def)
  let ?a = "\<lparr>blk_size = n + (sizeof_heap_block + m), blk_free = f, blk_next = first_addr ys 0,
              blk_prev = last_addr 0 xs\<rparr>"
  have head: "heap_head (absorb a b h) = heap_head h"
    by (simp add: absorb_def Let_def upd_block_def)
  show ?thesis
  proof (cases ys)
    case Nil
    have "hp_blocks (absorb a b h) = (hp_blocks h)(a := ?a)"
      using A B d Nil by (simp add: absorb_def Let_def upd_block_def)
    then show ?thesis
      using r d Nil head agrees_upd_headers [of "hp_blocks h" 0 xs a a ?a]
      by (simp add: rep_def headers_append)
  next
    case (Cons y zs)
    obtain c k e where y: "y = (c, k, e)" by (cases y)
    have C: "hp_blocks h c = \<lparr>blk_size = k, blk_free = e, blk_next = first_addr zs 0, blk_prev = b\<rparr>" "c \<noteq> 0"
      using rep_block [of h "xs @ [(a, n, f), (b, m, g)]" c k e zs] r Cons y by simp_all
    have dc: "c \<noteq> a" "c \<noteq> b" "c \<notin> fst ` set xs" "c \<notin> fst ` set zs" "a \<notin> fst ` set zs"
      using r Cons y by (auto simp: rep_def)
    have bl: "hp_blocks (absorb a b h) = (hp_blocks h)(a := ?a, c := (hp_blocks h c)\<lparr>blk_prev := a\<rparr>)"
      using A B C d dc Cons y by (simp add: absorb_def Let_def upd_block_def fun_upd_twist)
    have "agrees (hp_blocks (absorb a b h)) (headers 0 xs a)"
      "agrees (hp_blocks (absorb a b h)) (headers c zs 0)"
      unfolding bl using r d dc Cons y by (auto simp: rep_def headers_append intro!: agrees_upd_headers)
    then show ?thesis
      using r d dc Cons y C head by (simp add: rep_def headers_append bl)
  qed
qed

lemma rep_merge_next:
  assumes r: "rep h (xs @ (a, n, f) # ys)"
  shows "rep (merge_with_next a h)
     (xs @ (case ys of (b, m, True) # zs \<Rightarrow> (a, n + (sizeof_heap_block + m), f) # zs
            | _ \<Rightarrow> (a, n, f) # ys))"
proof -
  note A = rep_block [OF r]
  show ?thesis
  proof (cases ys)
    case Nil
    then show ?thesis using r A by (simp add: merge_next_absorb)
  next
    case (Cons y zs)
    obtain b m g where y: "y = (b, m, g)" by (cases y)
    have B: "blk_free (hp_blocks h b) = g" "b \<noteq> 0"
      using rep_block [of h "xs @ [(a, n, f)]" b m g zs] r Cons y by simp_all
    then show ?thesis using r A Cons y rep_absorb [of h xs a n f b m g zs]
      by (cases g) (simp_all add: merge_next_absorb)
  qed
qed

lemma rep_merge_prev:
  assumes r: "rep h (xs @ (b, m, f) # ys)"
  shows "rep (merge_with_previous b h)
     (case rev xs of (a, n, True) # zs \<Rightarrow> rev zs @ (a, n + (sizeof_heap_block + m), True) # ys
      | _ \<Rightarrow> xs @ (b, m, f) # ys)"
proof -
  note B = rep_block [OF r]
  show ?thesis
  proof (cases xs rule: rev_cases)
    case Nil
    then show ?thesis using r B by (simp add: merge_prev_absorb)
  next
    case (snoc zs x)
    obtain a n g where x: "x = (a, n, g)" by (cases x)
    have A: "blk_free (hp_blocks h a) = g" "a \<noteq> 0"
      using rep_block [of h zs a n g "(b, m, f) # ys"] r snoc x by simp_all
    then show ?thesis using r B snoc x rep_absorb [of h zs a n g b m f ys]
      by (cases g) (simp_all add: merge_prev_absorb)
  qed
qed

lemma rep_split:
  assumes r: "rep h (xs @ (a, n, f) # ys)" and big: "\<not> n \<le> sz + sizeof_heap_block"
    and fresh: "a + sizeof_heap_block + sz \<notin> insert 0 (fst ` set (xs @ (a, n, f) # ys))"
  shows "rep (split_block a sz h)
     (xs @ (a, sz, f) # (a + sizeof_heap_block + sz, n - sz - sizeof_heap_block, True) # ys)"
proof -
  let ?new = "a + sizeof_heap_block + sz"
  let ?nb = "\<lparr>blk_size = n - sz - sizeof_heap_block, blk_free = True, blk_next = first_addr ys 0, blk_prev = a\<rparr>"
  let ?a = "\<lparr>blk_size = sz, blk_free = f, blk_next = ?new, blk_prev = last_addr 0 xs\<rparr>"
  have A: "hp_blocks h a = \<lparr>blk_size = n, blk_free = f, blk_next = first_addr ys 0, blk_prev = last_addr 0 xs\<rparr>"
    using rep_block [OF r] by simp
  have d: "a \<notin> fst ` set xs" "a \<notin> fst ` set ys" "?new \<noteq> a" "?new \<notin> fst ` set xs" "?new \<notin> fst ` set ys"
    using r fresh by (auto simp: rep_def)
  have head: "heap_head (split_block a sz h) = heap_head h"
    by (simp add: split_block_def Let_def upd_block_def)
  show ?thesis
  proof (cases ys)
    case Nil
    have bl: "hp_blocks (split_block a sz h) = (hp_blocks h)(?new := ?nb, a := ?a)"
      using A d big Nil by (simp add: split_block_def Let_def upd_block_def)
    have "agrees (hp_blocks (split_block a sz h)) (headers 0 xs a)"
      unfolding bl using r d by (auto simp: rep_def headers_append intro!: agrees_upd_headers)
    then show ?thesis using r d fresh Nil head by (auto simp: rep_def headers_append bl)
  next
    case (Cons y zs)
    obtain c k e where y: "y = (c, k, e)" by (cases y)
    have C: "hp_blocks h c = \<lparr>blk_size = k, blk_free = e, blk_next = first_addr zs 0, blk_prev = a\<rparr>" "c \<noteq> 0"
      using rep_block [of h "xs @ [(a, n, f)]" c k e zs] r Cons y by simp_all
    have dc: "c \<noteq> a" "c \<noteq> ?new" "c \<notin> fst ` set xs" "c \<notin> fst ` set zs" "a \<notin> fst ` set zs" "?new \<notin> fst ` set zs"
      using r d Cons y by (auto simp: rep_def)
    have bl: "hp_blocks (split_block a sz h) =
        (hp_blocks h)(?new := ?nb, c := (hp_blocks h c)\<lparr>blk_prev := ?new\<rparr>, a := ?a)"
      using A C d dc big Cons y by (simp add: split_block_def Let_def upd_block_def)
    have "agrees (hp_blocks (split_block a sz h)) (headers 0 xs a)"
      "agrees (hp_blocks (split_block a sz h)) (headers c zs 0)"
      unfolding bl using r d dc Cons y by (auto simp: rep_def headers_append intro!: agrees_upd_headers)
    then show ?thesis using r d dc fresh Cons y C head by (auto simp: rep_def headers_append bl)
  qed
qed

section \<open>Walking the list\<close>

abbreviation fits :: "u64 \<Rightarrow> seg \<Rightarrow> bool" where
  "fits sz x \<equiv> (case x of (a, n, f) \<Rightarrow> f \<and> sz \<le> n)"

lemma find_free_block_loop:
  assumes "agrees bl (headers p segs 0)" "0 \<notin> fst ` set segs"
  shows "find_free_block_loop bl sz (first_addr segs 0) =
           Some (case find (fits sz) segs of None \<Rightarrow> 0 | Some (a, _, _) \<Rightarrow> a)"
  using assms
proof (induction segs arbitrary: p)
  case Nil
  then show ?case by (simp add: find_free_block_loop.simps)
next
  case (Cons x segs)
  obtain a n f where x: "x = (a, n, f)" by (cases x)
  have a: "a \<noteq> 0" "bl a = \<lparr>blk_size = n, blk_free = f, blk_next = first_addr segs 0, blk_prev = p\<rparr>"
    using Cons.prems x by auto
  have "find_free_block_loop bl sz (first_addr segs 0) =
      Some (case find (fits sz) segs of None \<Rightarrow> 0 | Some (a, _, _) \<Rightarrow> a)"
    using Cons.IH [of a] Cons.prems x by simp
  then show ?case
    using a by (subst find_free_block_loop.simps) (auto simp: x)
qed

lemma find_free_block_rep:
  "rep h segs \<Longrightarrow> find_free_block sz h =
     Some (case find (fits sz) segs of None \<Rightarrow> 0 | Some (a, _, _) \<Rightarrow> a)"
  using find_free_block_loop [of "hp_blocks h" 0 segs sz] by (simp add: rep_def find_free_block_def)

lemma find_last_loop:
  assumes "agrees bl (headers p segs 0)" "0 \<notin> fst ` set segs" "segs \<noteq> []"
  shows "find_last_loop bl (first_addr segs 0) = Some (last_addr 0 segs)"
  using assms
proof (induction segs arbitrary: p)
  case (Cons x segs)
  obtain a n f where x: "x = (a, n, f)" by (cases x)
  have a: "bl a = \<lparr>blk_size = n, blk_free = f, blk_next = first_addr segs 0, blk_prev = p\<rparr>"
    using Cons.prems x by auto
  show ?case
  proof (cases segs)
    case Nil
    then show ?thesis using a x by (subst find_last_loop.simps) simp
  next
    case (Cons y ys)
    then have "first_addr segs 0 \<noteq> 0" using Cons.prems(2) by (cases y) auto
    moreover have "find_last_loop bl (first_addr segs 0) = Some (last_addr 0 segs)"
      using Cons.IH [of a] Cons.prems x Cons by simp
    moreover have "last_addr a segs = last_addr 0 segs" using Cons by (simp add: last_addr_def)
    ultimately show ?thesis using a x by (subst find_last_loop.simps) simp
  qed
qed simp

text \<open>Joining neighbouring free blocks from left to right.\<close>

fun coalesce :: "seg list \<Rightarrow> seg list" where
  "coalesce [] = []"
| "coalesce [x] = [x]"
| "coalesce ((a, n, f) # (b, m, g) # r) =
     (if f \<and> g then coalesce ((a, n + (sizeof_heap_block + m), f) # r)
      else (a, n, f) # coalesce ((b, m, g) # r))"

definition only_blocks :: "heap_state \<Rightarrow> heap_state \<Rightarrow> bool" where
  "only_blocks h h' \<longleftrightarrow> h' = h\<lparr>hp_blocks := hp_blocks h'\<rparr>"

lemma only_blocks_refl [simp]: "only_blocks h h"
  by (simp add: only_blocks_def)

lemma only_blocks_trans: "only_blocks h h' \<Longrightarrow> only_blocks h' h'' \<Longrightarrow> only_blocks h h''"
  by (cases h; cases h'; cases h'') (simp add: only_blocks_def)

lemma only_blocks_frame:
  assumes "only_blocks h h'"
  shows "hp_mm h' = hp_mm h" "hp_mem h' = hp_mem h" "heap_head h' = heap_head h"
    "heap_committed_end h' = heap_committed_end h" "heap_virtual_start h' = heap_virtual_start h"
    "heap_vma h' = heap_vma h"
proof -
  obtain bl where "h' = h\<lparr>hp_blocks := bl\<rparr>" using assms by (auto simp: only_blocks_def)
  then show "hp_mm h' = hp_mm h" "hp_mem h' = hp_mem h" "heap_head h' = heap_head h"
    "heap_committed_end h' = heap_committed_end h" "heap_virtual_start h' = heap_virtual_start h"
    "heap_vma h' = heap_vma h" by simp_all
qed

lemma only_blocks_ops:
  "only_blocks h (upd_block p f h)" "only_blocks h (merge_with_next p h)"
  "only_blocks h (merge_with_previous p h)" "only_blocks h (split_block p sz h)"
  by (simp_all add: only_blocks_def upd_block_def merge_with_next_def merge_with_previous_def
      split_block_def Let_def)

lemma coalesce_loop_rep:
  assumes "rep h (xs @ ys)"
  shows "\<exists>h'. coalesce_loop (first_addr ys 0) h = Some h' \<and> rep h' (xs @ coalesce ys) \<and> only_blocks h h'"
  using assms
proof (induction ys arbitrary: h xs rule: coalesce.induct)
  case 1
  then show ?case by (simp add: coalesce_loop.simps)
next
  case (2 x)
  obtain a n f where x: "x = (a, n, f)" by (cases x)
  have a: "a \<noteq> 0" "blk_next (hp_blocks h a) = 0" using rep_block [of h xs a n f "[]"] 2 x by simp_all
  then have "coalesce_loop a h = coalesce_loop 0 h" by (subst coalesce_loop.simps) simp
  then show ?case using 2 x by (simp add: coalesce_loop.simps)
next
  case (3 a n f b m g r)
  have A: "hp_blocks h a = \<lparr>blk_size = n, blk_free = f, blk_next = b, blk_prev = last_addr 0 xs\<rparr>" "a \<noteq> 0"
    using rep_block [OF 3(3)] by simp_all
  have B: "blk_free (hp_blocks h b) = g" "b \<noteq> 0"
    using rep_block [of h "xs @ [(a, n, f)]" b m g r] 3(3) by simp_all
  show ?case
  proof (cases "f \<and> g")
    case True
    then have step: "coalesce_loop a h = coalesce_loop a (merge_with_next a h)"
      using A B by (subst coalesce_loop.simps) simp
    have r: "rep (merge_with_next a h) (xs @ (a, n + (sizeof_heap_block + m), f) # r)"
      using rep_merge_next [OF 3(3)] True by simp
    obtain h' where h': "coalesce_loop a (merge_with_next a h) = Some h'"
      "rep h' (xs @ coalesce ((a, n + (sizeof_heap_block + m), f) # r))"
      "only_blocks (merge_with_next a h) h'"
      using 3(1) [OF True r] by auto
    show ?thesis
      using h' step True only_blocks_trans [OF only_blocks_ops(2) h'(3)] by simp
  next
    case False
    then have step: "coalesce_loop a h = coalesce_loop b h"
      using A B by (subst coalesce_loop.simps) auto
    have "rep h ((xs @ [(a, n, f)]) @ (b, m, g) # r)" using 3(3) by simp
    from 3(2) [OF False this] obtain h' where
      "coalesce_loop b h = Some h'" "rep h' ((xs @ [(a, n, f)]) @ coalesce ((b, m, g) # r))"
      "only_blocks h h'" by auto
    then show ?thesis using step False by auto
  qed
qed

lemma coalesce_free_blocks_rep:
  assumes "rep h segs"
  obtains h' where "coalesce_free_blocks h = Some h'" "rep h' (coalesce segs)" "only_blocks h h'"
proof -
  have "rep h ([] @ segs)" using assms by simp
  then obtain h' where "coalesce_loop (first_addr segs 0) h = Some h'" "rep h' ([] @ coalesce segs)"
    "only_blocks h h'"
    using coalesce_loop_rep by blast
  moreover have "heap_head h = first_addr segs 0" using assms by (simp add: rep_def)
  ultimately show thesis using that [of h'] by (simp add: coalesce_free_blocks_def)
qed

section \<open>Layout\<close>

text \<open>The segments fill the range from \<open>s\<close> to \<open>e\<close> without gaps.\<close>

fun layout :: "nat \<Rightarrow> seg list \<Rightarrow> nat \<Rightarrow> bool" where
  "layout s [] e = (s = e)"
| "layout s ((a, n, f) # r) e = (unat a = s \<and> layout (s + 32 + unat n) r e)"

lemma layout_append:
  "layout s (xs @ ys) e \<longleftrightarrow> (\<exists>m. layout s xs m \<and> layout m ys e)"
  by (induction xs arbitrary: s) auto

lemma layout_le: "layout s segs e \<Longrightarrow> s \<le> e"
  by (induction segs arbitrary: s) force+

lemma layout_mem:
  assumes "layout s segs e" "(a, n, f) \<in> set segs"
  shows "s \<le> unat a" "unat a + 32 + unat n \<le> e"
proof -
  obtain xs ys where "segs = xs @ (a, n, f) # ys" using assms(2) by (auto simp: in_set_conv_decomp)
  then obtain m where "layout s xs m" "unat a = m" "layout (m + 32 + unat n) ys e"
    using assms(1) by (auto simp: layout_append)
  then show "s \<le> unat a" "unat a + 32 + unat n \<le> e"
    using layout_le [of s xs m] layout_le [of _ ys e] by simp_all
qed

lemma layout_distinct:
  assumes "layout s segs e" "0 < s"
  shows "distinct (map fst segs)" "0 \<notin> fst ` set segs"
proof -
  show "distinct (map fst segs)" using assms(1)
  proof (induction segs arbitrary: s)
    case (Cons x segs)
    obtain a n f where x: "x = (a, n, f)" by (cases x)
    have "unat a < unat b" if "b \<in> fst ` set segs" for b
      using that layout_mem(1) [of "s + 32 + unat n" segs e] Cons.prems x by fastforce
    then show ?case using Cons x by auto
  qed simp
  show "0 \<notin> fst ` set segs" using layout_mem(1) [OF assms(1)] assms(2) by fastforce
qed

text \<open>Two different segments do not overlap.\<close>

lemma layout_disjoint:
  assumes "layout s segs e" "(a, n, f) \<in> set segs" "(b, m, g) \<in> set segs" "a \<noteq> b"
  shows "unat a + 32 + unat n \<le> unat b \<or> unat b + 32 + unat m \<le> unat a"
  using assms
proof (induction segs arbitrary: s)
  case (Cons x segs)
  obtain c k h where x: "x = (c, k, h)" by (cases x)
  have r: "layout (s + 32 + unat k) segs e" "unat c = s" using Cons.prems x by simp_all
  consider "(a, n, f) = x" "(b, m, g) \<in> set segs" | "(b, m, g) = x" "(a, n, f) \<in> set segs"
    | "(a, n, f) \<in> set segs" "(b, m, g) \<in> set segs"
    using Cons.prems by auto
  then show ?case
  proof cases
    case 1
    then show ?thesis using layout_mem(1) [OF r(1) 1(2)] r x by simp
  next
    case 2
    then show ?thesis using layout_mem(1) [OF r(1) 2(2)] r x by simp
  next
    case 3
    then show ?thesis using Cons.IH [OF r(1)] Cons.prems(4) by simp
  qed
qed simp

text \<open>Well-formed segment lists: a positive, aligned start, no wrap-around, sizes in steps of 16.\<close>

definition wf_segs :: "nat \<Rightarrow> seg list \<Rightarrow> nat \<Rightarrow> bool" where
  "wf_segs s segs e \<longleftrightarrow> layout s segs e \<and> 0 < s \<and> e < 18446744073709551616 \<and> 16 dvd s \<and>
     (\<forall>(a, n, f) \<in> set segs. 16 dvd unat n)"

definition allocated :: "seg list \<Rightarrow> (u64 \<times> u64) set" where
  "allocated segs = {(a, n). (a, n, False) \<in> set segs}"

lemma allocated_simps [simp]:
  "allocated [] = {}" "allocated (xs @ ys) = allocated xs \<union> allocated ys"
  "allocated ((a, n, f) # r) = (if f then allocated r else insert (a, n) (allocated r))"
  by (auto simp: allocated_def)

lemma merged_size:
  assumes "layout s (xs @ (a, n, f) # (b, m, g) # ys) e" "e < 18446744073709551616"
  shows "unat (n + (sizeof_heap_block + m)) = unat n + 32 + unat m"
proof -
  obtain k where "layout k ((a, n, f) # (b, m, g) # ys) e" using assms(1) by (auto simp: layout_append)
  then have "unat a + 32 + unat n + 32 + unat m \<le> e" using layout_le by fastforce
  then have "unat n + (32 + unat m) < 18446744073709551616" using assms(2) by linarith
  moreover from this have "unat (sizeof_heap_block + m) = 32 + unat m"
    by (simp add: sizeof_heap_block_def unat_plus_no_wrap)
  ultimately show ?thesis by (simp add: unat_plus_no_wrap)
qed

lemma wf_merge:
  assumes "wf_segs s (xs @ (a, n, f) # (b, m, g) # ys) e"
  shows "wf_segs s (xs @ (a, n + (sizeof_heap_block + m), f) # ys) e"
proof -
  have l: "layout s (xs @ (a, n, f) # (b, m, g) # ys) e" "e < 18446744073709551616"
    using assms by (simp_all add: wf_segs_def)
  have "16 dvd unat (n + (sizeof_heap_block + m))"
    unfolding merged_size [OF l] using assms by (auto simp: wf_segs_def)
  then show ?thesis
    using assms merged_size [OF l] by (auto simp: wf_segs_def layout_append add_ac)
qed

lemma coalesce_props:
  assumes "wf_segs s (xs @ segs) e"
  shows "wf_segs s (xs @ coalesce segs) e \<and> allocated (coalesce segs) = allocated segs \<and>
         (coalesce segs = [] \<longleftrightarrow> segs = [])"
  using assms
proof (induction segs arbitrary: xs rule: coalesce.induct)
  case (3 a n f b m g r)
  show ?case
  proof (cases "f \<and> g")
    case True
    then show ?thesis using 3(1) [OF True wf_merge [OF 3(3)]] by simp
  next
    case False
    have "wf_segs s ((xs @ [(a, n, f)]) @ (b, m, g) # r) e" using 3(3) by simp
    from 3(2) [OF False this] False show ?thesis by auto
  qed
qed simp_all

lemma wf_split:
  assumes w: "wf_segs s (xs @ (a, n, f) # ys) e" and sz: "16 dvd unat sz" "sz \<le> n"
    and big: "\<not> n \<le> sz + sizeof_heap_block"
  defines "new \<equiv> a + sizeof_heap_block + sz"
  shows "wf_segs s (xs @ (a, sz, f) # (new, n - sz - sizeof_heap_block, True) # ys) e"
    and "new \<notin> insert 0 (fst ` set (xs @ (a, n, f) # ys))"
proof -
  obtain k where k: "layout s xs k" "unat a = k" "layout (k + 32 + unat n) ys e"
    and e: "e < 18446744073709551616" and s: "0 < s"
    using w by (auto simp: wf_segs_def layout_append)
  have le: "k + 32 + unat n \<le> e" using layout_le [OF k(3)] .
  have szn: "unat sz \<le> unat n" using sz(2) by (simp add: word_le_nat_alt)
  have "unat (sz + sizeof_heap_block) = unat sz + 32"
    using szn le e by (simp add: sizeof_heap_block_def unat_plus_no_wrap)
  then have bign: "unat sz + 32 < unat n" using big by (simp add: word_le_nat_alt)
  have a32: "unat (a + sizeof_heap_block) = k + 32"
    using k(2) le e by (simp add: sizeof_heap_block_def unat_plus_no_wrap)
  have new: "unat new = k + 32 + unat sz"
    unfolding new_def using a32 szn le e by (subst unat_plus_no_wrap) simp_all
  have "unat (n - sz) = unat n - unat sz" using szn by (simp add: unat_minus_le word_le_nat_alt)
  then have size: "unat (n - sz - sizeof_heap_block) = unat n - unat sz - 32"
    using bign by (subst unat_minus_le) (simp_all add: word_le_nat_alt sizeof_heap_block_def)
  have "16 dvd unat n" using w by (auto simp: wf_segs_def)
  then have "16 dvd unat n - unat sz - 32"
    using sz(1) by (metis dvd_diff_nat dvd_triv_right numeral_Bit0 dvd_def mult_2_right)
  moreover have "layout (32 + (unat a + unat n)) ys e" using k(2,3) by (simp add: add_ac)
  ultimately show "wf_segs s (xs @ (a, sz, f) # (new, n - sz - sizeof_heap_block, True) # ys) e"
    using w k new size bign sz(1) by (auto simp: wf_segs_def layout_append)
  have "new \<notin> fst ` set xs"
  proof
    assume "new \<in> fst ` set xs"
    then obtain m g where "(new, m, g) \<in> set xs" by auto
    from layout_mem(2) [OF k(1) this] show False using new by simp
  qed
  moreover have "new \<notin> fst ` set ys"
  proof
    assume "new \<in> fst ` set ys"
    then obtain m g where "(new, m, g) \<in> set ys" by auto
    from layout_mem(1) [OF k(3) this] show False using new bign by simp
  qed
  moreover have "new \<noteq> a" "new \<noteq> 0" using new k(2) by auto
  ultimately show "new \<notin> insert 0 (fst ` set (xs @ (a, n, f) # ys))" by auto
qed

lemma wf_append:
  assumes "wf_segs s segs (unat e)" "unat e + 4096 < 18446744073709551616" "16 dvd unat e"
  shows "wf_segs s (segs @ [(e, PAGE_SIZE - sizeof_heap_block, True)]) (unat (e + PAGE_SIZE))"
proof -
  have "unat (e + PAGE_SIZE) = unat e + 4096"
    using assms(2) by (simp add: PAGE_SIZE_def unat_plus_no_wrap)
  moreover have "unat (PAGE_SIZE - sizeof_heap_block) = 4064"
    by (simp add: PAGE_SIZE_def sizeof_heap_block_def)
  ultimately show ?thesis using assms by (auto simp: wf_segs_def layout_append)
qed

lemma wf_end_aligned: "wf_segs s segs e \<Longrightarrow> 16 dvd e"
proof -
  have "layout s segs e \<Longrightarrow> 16 dvd s \<Longrightarrow> \<forall>(a, n, f) \<in> set segs. 16 dvd unat n \<Longrightarrow> 16 dvd e" for s
    by (induction segs arbitrary: s) (auto simp: dvd_add)
  then show "wf_segs s segs e \<Longrightarrow> 16 dvd e" unfolding wf_segs_def by blast
qed

section \<open>Growing the heap\<close>

text \<open>The bytes a free block at the end of the heap offers, with its header.\<close>

definition free_tail :: "seg list \<Rightarrow> nat" where
  "free_tail segs = (if segs = [] then 0 else case last segs of (a, n, f) \<Rightarrow> if f then unat n + 32 else 0)"

lemma free_tail_simps [simp]:
  "free_tail [] = 0" "free_tail (xs @ [(a, n, f)]) = (if f then unat n + 32 else 0)"
  "free_tail [(a, n, f)] = (if f then unat n + 32 else 0)" "free_tail (x # y # r) = free_tail (y # r)"
  by (simp_all add: free_tail_def)

lemma free_tail_Cons: "r \<noteq> [] \<Longrightarrow> free_tail (x # r) = free_tail r"
  by (simp add: free_tail_def)

lemma free_tail_coalesce:
  assumes "wf_segs s (xs @ segs) e"
  shows "free_tail segs \<le> free_tail (coalesce segs)"
  using assms
proof (induction segs arbitrary: xs rule: coalesce.induct)
  case (3 a n f b m g r)
  have l: "layout s (xs @ (a, n, f) # (b, m, g) # r) e" "e < 18446744073709551616" using 3(3) by (simp_all add: wf_segs_def)
  show ?case
  proof (cases "f \<and> g")
    case True
    have "free_tail ((a, n, f) # (b, m, g) # r) \<le> free_tail ((a, n + (sizeof_heap_block + m), f) # r)"
      using True merged_size [OF l] by (cases r) simp_all
    then show ?thesis using 3(1) [OF True wf_merge [OF 3(3)]] True by simp
  next
    case False
    have "wf_segs s ((xs @ [(a, n, f)]) @ (b, m, g) # r) e" using 3(3) by simp
    note 3(2) [OF False this]
    moreover have "coalesce ((b, m, g) # r) \<noteq> []" using coalesce_props [OF \<open>wf_segs s ((xs @ [(a, n, f)]) @ (b, m, g) # r) e\<close>] by simp
    ultimately show ?thesis using False by (auto simp: free_tail_Cons)
  qed
qed simp_all

text \<open>A free block at the end that is large enough is found.\<close>

lemma free_tail_fits:
  assumes "unat sz + 32 \<le> free_tail segs"
  shows "find (fits sz) segs \<noteq> None"
proof -
  have "segs \<noteq> []" using assms by auto
  then obtain xs a n f where s: "segs = xs @ [(a, n, f)]" by (metis prod_cases3 rev_exhaust)
  then have "fits sz (a, n, f)" using assms by (auto simp: word_le_nat_alt split: if_splits)
  then show ?thesis unfolding s find_None_iff by auto
qed

text \<open>The blocks after a page has been added at the end: joined to a free last block or a block of its own.\<close>

definition grow_segs :: "u64 \<Rightarrow> seg list \<Rightarrow> seg list" where
  "grow_segs e segs =
     (case last segs of (a, n, f) \<Rightarrow>
        if f then butlast segs @ [(a, n + (sizeof_heap_block + (PAGE_SIZE - sizeof_heap_block)), f)]
        else segs @ [(e, PAGE_SIZE - sizeof_heap_block, True)])"

lemma grow_segs_ok:
  assumes w: "wf_segs s segs (unat e)" and ce: "unat e + 4096 < 18446744073709551616" and ne: "segs \<noteq> []"
  shows "wf_segs s (grow_segs e segs) (unat (e + PAGE_SIZE))" "allocated (grow_segs e segs) = allocated segs"
    "grow_segs e segs \<noteq> []" "free_tail (grow_segs e segs) = free_tail segs + 4096"
proof -
  obtain xs a n f where segs: "segs = xs @ [(a, n, f)]" using ne by (metis prod_cases3 rev_exhaust)
  let ?n = "PAGE_SIZE - sizeof_heap_block"
  have w2: "wf_segs s (xs @ (a, n, f) # [(e, ?n, True)]) (unat (e + PAGE_SIZE))"
    using wf_append [OF w ce wf_end_aligned [OF w]] segs by simp
  then have l: "layout s (xs @ (a, n, f) # (e, ?n, True) # []) (unat (e + PAGE_SIZE))" by (simp add: wf_segs_def)
  have "unat ?n = 4064" by (simp add: PAGE_SIZE_def sizeof_heap_block_def)
  then have m: "unat (n + (sizeof_heap_block + ?n)) = unat n + 4096"
    using merged_size [OF l] unat_lt_2p64 [of "e + PAGE_SIZE"] by simp
  show "wf_segs s (grow_segs e segs) (unat (e + PAGE_SIZE))"
    using w2 wf_merge [of s xs a n f e ?n True "[]"] by (cases f) (simp_all add: grow_segs_def segs)
  show "allocated (grow_segs e segs) = allocated segs" "grow_segs e segs \<noteq> []" by (simp_all add: grow_segs_def segs)
  show "free_tail (grow_segs e segs) = free_tail segs + 4096"
    using m \<open>unat ?n = 4064\<close> by (cases f) (simp_all add: grow_segs_def segs, simp add: free_tail_def)
qed


definition heap_room :: "heap_state \<Rightarrow> bool" where
  "heap_room h \<longleftrightarrow>
     unat (heap_committed_end h) + 4096 * card (free_set (vm_pmm (mm_vm (hp_mm h)))) < 18446744073709551616"

definition heap_ok :: "heap_state \<Rightarrow> seg list \<Rightarrow> bool" where
  "heap_ok h segs \<longleftrightarrow> rep h segs \<and> segs \<noteq> [] \<and> heap_vma h \<noteq> None \<and>
     wf_segs (unat (heap_virtual_start h)) segs (unat (heap_committed_end h)) \<and>
     4096 \<le> unat (heap_virtual_start h) \<and> vm_inv (mm_vm (hp_mm h)) \<and> kernel_pml4 (mm_vm (hp_mm h)) \<noteq> 0 \<and> heap_room h"

abbreviation heap_free_frames :: "heap_state \<Rightarrow> u64 set" where
  "heap_free_frames h \<equiv> free_set (vm_pmm (mm_vm (hp_mm h)))"

lemma heap_ok_blocks:
  assumes "heap_ok h segs" "only_blocks h h'" "rep h' segs'" "segs' \<noteq> []"
    "wf_segs (unat (heap_virtual_start h)) segs' (unat (heap_committed_end h))"
  shows "heap_ok h' segs'"
proof -
  obtain bl where "h' = h\<lparr>hp_blocks := bl\<rparr>" using assms(2) by (auto simp: only_blocks_def)
  then show ?thesis using assms by (simp add: heap_ok_def heap_room_def)
qed

lemma active_root_pmm: "page_table_active_root (s\<lparr>vm_pmm := pmm\<rparr>) = page_table_active_root s"
  by (simp add: page_table_active_root_def page_table_current_root_def page_table_physical_to_virtual_def)

text \<open>Committing a page takes a free frame; nothing of the heap itself changes but the end.\<close>

lemma heap_commit_page:
  assumes ok: "vm_inv (mm_vm (hp_mm h))" and va: "va \<noteq> 0" and r: "heap_commit_page va h = (p, h')"
  shows "vm_inv (mm_vm (hp_mm h'))" "heap_free_frames h' \<subseteq> heap_free_frames h"
    "\<exists>mm. h' = (if p = 0 then h\<lparr>hp_mm := mm\<rparr>
              else h\<lparr>hp_mm := mm, heap_committed_end := heap_committed_end h + PAGE_SIZE\<rparr>)"
    "p = 0 \<or> p = va"
    "p \<noteq> 0 \<Longrightarrow> card (heap_free_frames h') < card (heap_free_frames h)"
    "kernel_pml4 (mm_vm (hp_mm h')) = kernel_pml4 (mm_vm (hp_mm h))"
proof -
  let ?v = "mm_vm (hp_mm h)"
  have inv: "pmm_inv (vm_pmm ?v)" using ok by (simp add: vm_ok_def)
  obtain a pmm where al: "pmm_alloc_page (vm_pmm ?v) = (a, pmm)" by (cases "pmm_alloc_page (vm_pmm ?v)")
  have "vm_inv (mm_vm (hp_mm h')) \<and> heap_free_frames h' \<subseteq> heap_free_frames h \<and>
    (\<exists>mm. h' = (if p = 0 then h\<lparr>hp_mm := mm\<rparr>
              else h\<lparr>hp_mm := mm, heap_committed_end := heap_committed_end h + PAGE_SIZE\<rparr>)) \<and>
    (p = 0 \<or> p = va) \<and> (p \<noteq> 0 \<longrightarrow> card (heap_free_frames h') < card (heap_free_frames h)) \<and>
    kernel_pml4 (mm_vm (hp_mm h')) = kernel_pml4 ?v"
  proof (cases "a = 0")
    case True
    have "pmm = vm_pmm ?v" using alloc_null [OF inv] al True by simp
    then have "p = 0" "h' = h" using r al True by (simp_all add: heap_commit_page_def)
    then show ?thesis using ok by (auto intro!: exI [of _ "hp_mm h"])
  next
    case False
    obtain f where f: "f \<in> free_set (vm_pmm ?v)" "pmm_inv pmm" "free_set pmm = free_set (vm_pmm ?v) - {f}"
      by (rule alloc_frame_address [OF inv al False])
    let ?v1 = "?v\<lparr>vm_pmm := pmm\<rparr>"
    have ok1: "vm_inv ?v1" using vm_ok_pmm(1) [OF ok f(2)] f(3) by (simp add: active_root_pmm)
    obtain b v2 where m: "page_table_map va a PAGE_WRITABLE ?v1 = (b, v2)"
      by (cases "page_table_map va a PAGE_WRITABLE ?v1")
    have fr: "free_set (vm_pmm v2) \<subseteq> free_set (vm_pmm ?v) - {f}"
      using page_table_map_free(1) [OF ok1 m] f(3) by simp
    then have card: "card (free_set (vm_pmm v2)) < card (free_set (vm_pmm ?v))"
      using f(1) by (intro psubset_card_mono) auto
    have "h' = (if p = 0 then h\<lparr>hp_mm := (hp_mm h)\<lparr>mm_vm := v2\<rparr>\<rparr>
        else h\<lparr>hp_mm := (hp_mm h)\<lparr>mm_vm := v2\<rparr>, heap_committed_end := heap_committed_end h + PAGE_SIZE\<rparr>)"
      and "p = (if b then va else 0)"
      using r al False m va by (auto simp: heap_commit_page_def Let_def page_table_map_page_def split: if_splits)
    then show ?thesis using vm.map_inv [OF ok1 m] page_table_map_regs(1) [OF ok1 m] fr card by auto
  qed
  then show "vm_inv (mm_vm (hp_mm h'))" "heap_free_frames h' \<subseteq> heap_free_frames h"
    "\<exists>mm. h' = (if p = 0 then h\<lparr>hp_mm := mm\<rparr>
              else h\<lparr>hp_mm := mm, heap_committed_end := heap_committed_end h + PAGE_SIZE\<rparr>)"
    "p = 0 \<or> p = va"
    "p \<noteq> 0 \<Longrightarrow> card (heap_free_frames h') < card (heap_free_frames h)"
    "kernel_pml4 (mm_vm (hp_mm h')) = kernel_pml4 ?v" by blast+
qed

lemma taken_frame_card:
  assumes "f \<in> free_set pmm" "free_set pmm' = free_set pmm - {f}"
  shows "card (free_set pmm) = Suc (card (free_set pmm'))"
proof -
  have "finite (free_set pmm)" by simp
  then show ?thesis using assms by (metis card_Suc_Diff1)
qed

text \<open>
  The heap can grow by \<open>n\<close> pages: each takes a frame and at most three for page tables, none of which is at the
  null address of the direct map, and no large page covers their addresses.
\<close>

definition can_grow :: "nat \<Rightarrow> heap_state \<Rightarrow> bool" where
  "can_grow n h \<longleftrightarrow> 4 * n \<le> card (heap_free_frames h) \<and> \<not> null_frame (mm_vm (hp_mm h)) \<and>
     (\<forall>i < n. \<not> blocked (pte (mm_vm (hp_mm h)) (page_table_active_root (mm_vm (hp_mm h)))) (heap_committed_end h + of_nat i * PAGE_SIZE))"

lemma can_grow_mono: "can_grow n h \<Longrightarrow> m \<le> n \<Longrightarrow> can_grow m h"
  by (auto simp: can_grow_def)

lemma can_grow_cong:
  "hp_mm h' = hp_mm h \<Longrightarrow> heap_committed_end h' = heap_committed_end h \<Longrightarrow> can_grow n h' = can_grow n h"
  by (simp add: can_grow_def)

lemma can_grow_vm:
  "mm_vm (hp_mm h') = mm_vm (hp_mm h) \<Longrightarrow> heap_committed_end h' = heap_committed_end h \<Longrightarrow> can_grow n h' = can_grow n h"
  by (simp add: can_grow_def)

lemma heap_commit_page_grows:
  assumes ok: "vm_inv (mm_vm (hp_mm h))" and e: "heap_committed_end h \<noteq> 0" and g: "can_grow (Suc n) h"
    and r: "heap_commit_page (heap_committed_end h) h = (p, h')"
  shows "p \<noteq> 0" "can_grow n h'"
proof -
  let ?v = "mm_vm (hp_mm h)" and ?e = "heap_committed_end h"
  have inv: "pmm_inv (vm_pmm ?v)" using ok by (simp add: vm_ok_def)
  have card: "4 * Suc n \<le> card (free_set (vm_pmm ?v))" and nf: "\<not> null_frame ?v"
    and nb: "\<And>i. i < Suc n \<Longrightarrow> \<not> blocked (pte ?v (page_table_active_root ?v)) (?e + of_nat i * PAGE_SIZE)"
    using g by (simp_all add: can_grow_def)
  obtain a pmm where al: "pmm_alloc_page (vm_pmm ?v) = (a, pmm)" by (cases "pmm_alloc_page (vm_pmm ?v)")
  have "free_set (vm_pmm ?v) \<noteq> {}" using card by auto
  then have a: "a \<noteq> 0" using alloc_null [OF inv] al by auto
  obtain f where f: "f \<in> free_set (vm_pmm ?v)" "pmm_inv pmm" "free_set pmm = free_set (vm_pmm ?v) - {f}"
    by (rule alloc_frame_address [OF inv al a])
  let ?v1 = "?v\<lparr>vm_pmm := pmm\<rparr>"
  have sub: "free_set pmm \<subseteq> free_set (vm_pmm ?v)" using f(3) by auto
  have ok1: "vm_inv ?v1" using vm_ok_pmm(1) [OF ok f(2) sub] by (simp add: active_root_pmm)
  obtain b v2 where m: "page_table_map ?e a PAGE_WRITABLE ?v1 = (b, v2)" by (cases "page_table_map ?e a PAGE_WRITABLE ?v1")
  note e = page_table_map_effect [OF ok1 m] and fr = page_table_map_free [OF ok1 m]
  have c1: "card (free_set (vm_pmm ?v)) = Suc (card (free_set pmm))" by (rule taken_frame_card [OF f(1,3)])
  have nf': "\<not> null_frame w" if "free_set (vm_pmm w) \<subseteq> free_set (vm_pmm ?v)" "hhdm_offset w = hhdm_offset ?v" for w
    using nf that by (auto simp: null_frame_def)
  have b: b using e(5) nb [of 0] c1 card nf' [of ?v1] sub vm_ok_pmm(2) [OF ok f(2) sub] by (auto simp: active_root_pmm)
  have h': "p = ?e" "mm_vm (hp_mm h') = v2" "heap_committed_end h' = ?e + PAGE_SIZE"
    using r al a m b by (auto simp: heap_commit_page_def Let_def page_table_map_page_def)
  then show "p \<noteq> 0" using assms(2) by simp
  have "\<not> blocked (pte v2 (page_table_active_root v2)) (?e + PAGE_SIZE + of_nat i * PAGE_SIZE)" if "i < n" for i
    unfolding e(6) using nb [of "Suc i"] that vm_ok_pmm(2) [OF ok f(2) sub] by (simp add: active_root_pmm algebra_simps)
  then show "can_grow n h'"
    using fr(1,2,4) sub c1 card nf' [of v2] by (simp add: can_grow_def h')
qed

lemma rep_append:
  assumes r: "rep h (xs @ [(a, n, f)])" and new: "new \<notin> insert 0 (fst ` set (xs @ [(a, n, f)]))"
  shows "rep (upd_block new (\<lambda>b. b\<lparr>blk_prev := a\<rparr>) (upd_block a (\<lambda>b. b\<lparr>blk_next := new\<rparr>)
           (snd (heap_create_block new sz h))))
         (xs @ [(a, n, f), (new, sz - sizeof_heap_block, True)])"
proof -
  have A: "hp_blocks h a = \<lparr>blk_size = n, blk_free = f, blk_next = 0, blk_prev = last_addr 0 xs\<rparr>"
    using rep_block [OF r] by simp
  have d: "a \<notin> fst ` set xs" "new \<noteq> a" "new \<notin> fst ` set xs" using r new by (auto simp: rep_def)
  let ?h = "upd_block new (\<lambda>b. b\<lparr>blk_prev := a\<rparr>) (upd_block a (\<lambda>b. b\<lparr>blk_next := new\<rparr>)
           (snd (heap_create_block new sz h)))"
  have bl: "hp_blocks ?h = (hp_blocks h)(a := (hp_blocks h a)\<lparr>blk_next := new\<rparr>,
      new := \<lparr>blk_size = sz - sizeof_heap_block, blk_free = True, blk_next = 0, blk_prev = a\<rparr>)"
    using d by (simp add: upd_block_def heap_create_block_def fun_upd_twist)
  have "agrees (hp_blocks ?h) (headers 0 xs a)"
    unfolding bl using r d by (auto simp: rep_def headers_append intro!: agrees_upd_headers)
  moreover have "heap_head ?h = heap_head h" by (simp add: upd_block_def heap_create_block_def)
  moreover have "hp_blocks ?h a = \<lparr>blk_size = n, blk_free = f, blk_next = new, blk_prev = last_addr 0 xs\<rparr>"
    "hp_blocks ?h new = \<lparr>blk_size = sz - sizeof_heap_block, blk_free = True, blk_next = 0, blk_prev = a\<rparr>"
    using d A by (simp_all add: bl)
  ultimately show ?thesis using r d new by (auto simp: rep_def headers_append)
qed

lemma rep_cong: "rep h segs \<Longrightarrow> hp_blocks h' = hp_blocks h \<Longrightarrow> heap_head h' = heap_head h \<Longrightarrow> rep h' segs"
  by (simp add: rep_def)

lemma end_is_fresh:
  assumes "wf_segs s segs (unat e)"
  shows "e \<notin> insert 0 (fst ` set segs)"
proof -
  have l: "layout s segs (unat e)" "0 < s" using assms by (simp_all add: wf_segs_def)
  have "e \<notin> fst ` set segs" using layout_mem(2) [OF l(1)] by fastforce
  moreover have "e \<noteq> 0" using layout_le [OF l(1)] l(2) by auto
  ultimately show ?thesis by simp
qed

text \<open>The new block is linked in behind the last one, and joined with it when that is free.\<close>

lemma rep_grow:
  assumes r: "rep h segs" and ne: "segs \<noteq> []" and fresh: "e \<notin> insert 0 (fst ` set segs)"
  obtains h' last where "find_last_block h = Some last" "only_blocks h h'" "rep h' (grow_segs e segs)"
    "(let g = upd_block e (\<lambda>b. b\<lparr>blk_prev := last\<rparr>) (upd_block last (\<lambda>b. b\<lparr>blk_next := e\<rparr>) (snd (heap_create_block e PAGE_SIZE h)))
      in if blk_free (hp_blocks g last) then merge_with_next last g else g) = h'"
proof -
  obtain xs a n f where segs: "segs = xs @ [(a, n, f)]" using ne by (metis prod_cases3 rev_exhaust)
  have last: "find_last_block h = Some a"
    using find_last_loop [of "hp_blocks h" 0 segs] r segs by (simp add: rep_def find_last_block_def)
  let ?g = "upd_block e (\<lambda>b. b\<lparr>blk_prev := a\<rparr>) (upd_block a (\<lambda>b. b\<lparr>blk_next := e\<rparr>) (snd (heap_create_block e PAGE_SIZE h)))"
  let ?n = "PAGE_SIZE - sizeof_heap_block"
  have r2: "rep ?g (xs @ (a, n, f) # [(e, ?n, True)])" using rep_append [of h xs a n f e PAGE_SIZE] r fresh segs by simp
  have f: "blk_free (hp_blocks ?g a) = f" using rep_block [OF r2] by simp
  define h' where "h' = (if f then merge_with_next a ?g else ?g)"
  have "rep h' (grow_segs e segs)"
    using r2 rep_merge_next [OF r2] by (cases f) (simp_all add: h'_def grow_segs_def segs)
  moreover have "only_blocks h ?g" by (simp add: only_blocks_def upd_block_def heap_create_block_def)
  then have "only_blocks h h'" using only_blocks_trans only_blocks_ops(2) by (auto simp: h'_def)
  ultimately show thesis using that [of a h'] last f by (simp add: h'_def Let_def)
qed

lemma heap_expand_ok:
  assumes ok: "heap_ok h segs"
  obtains (failed) h' where "heap_expand h = Some (False, h')" "heap_ok h' segs"
      "heap_free_frames h' \<subseteq> heap_free_frames h" "hp_mem h' = hp_mem h" "\<And>n. \<not> can_grow (Suc n) h"
    | (grown) h' where "heap_expand h = Some (True, h')" "heap_ok h' (grow_segs (heap_committed_end h) segs)"
      "heap_committed_end h' = heap_committed_end h + PAGE_SIZE"
      "heap_virtual_start h' = heap_virtual_start h" "heap_free_frames h' \<subseteq> heap_free_frames h"
      "card (heap_free_frames h') < card (heap_free_frames h)" "hp_mem h' = hp_mem h"
      "\<And>n. can_grow (Suc n) h \<Longrightarrow> can_grow n h'" "unat (heap_committed_end h) + 4096 < 18446744073709551616"
proof -
  let ?e = "heap_committed_end h" and ?s = "unat (heap_virtual_start h)"
  have r: "rep h segs" and ne: "segs \<noteq> []" and w: "wf_segs ?s segs (unat ?e)"
    and v: "vm_inv (mm_vm (hp_mm h))" and room: "heap_room h" using ok by (simp_all add: heap_ok_def)
  obtain i where i: "heap_vma h = Some i" using ok by (auto simp: heap_ok_def)
  obtain p h1 where c: "heap_commit_page ?e h = (p, h1)" by (cases "heap_commit_page ?e h")
  have fresh: "?e \<notin> insert 0 (fst ` set segs)" by (rule end_is_fresh [OF w])
  then have e0: "?e \<noteq> 0" by auto
  note cp = heap_commit_page [OF v e0 c] and gr = heap_commit_page_grows [OF v e0 _ c]
  show thesis
  proof (cases "p = 0")
    case True
    obtain mm where h1: "h1 = h\<lparr>hp_mm := mm\<rparr>" using cp(3) True by auto
    have "card (heap_free_frames h1) \<le> card (heap_free_frames h)" using cp(2) by (simp add: card_mono)
    then have "heap_ok h1 segs" using ok cp(1,6) by (simp add: heap_ok_def heap_room_def h1 rep_def)
    moreover have "heap_expand h = Some (False, h1)"
      using c True i by (simp add: heap_expand_def heap_next_commit_address_def)
    moreover have "hp_mem h1 = hp_mem h" by (simp add: h1)
    ultimately show thesis using failed cp(2) gr(1) True by blast
  next
    case False
    then have p: "p = ?e" using cp(4) by simp
    obtain mm where h1: "h1 = h\<lparr>hp_mm := mm, heap_committed_end := ?e + PAGE_SIZE\<rparr>" using cp(3) False by auto
    have "rep h1 segs" using r by (simp add: rep_def h1)
    then obtain h3 last where h3: "find_last_block h1 = Some last" "only_blocks h1 h3" "rep h3 (grow_segs ?e segs)"
      "(let g = upd_block ?e (\<lambda>b. b\<lparr>blk_prev := last\<rparr>) (upd_block last (\<lambda>b. b\<lparr>blk_next := ?e\<rparr>)
          (snd (heap_create_block ?e PAGE_SIZE h1))) in if blk_free (hp_blocks g last) then merge_with_next last g else g) = h3"
      by (rule rep_grow [OF _ ne fresh])
    obtain bl where bl: "h3 = h1\<lparr>hp_blocks := bl\<rparr>" using h3(2) by (auto simp: only_blocks_def)
    have ce: "unat ?e + 4096 < 18446744073709551616" "unat (?e + PAGE_SIZE) = unat ?e + 4096"
    proof -
      show "unat ?e + 4096 < 18446744073709551616" using room cp(5) [OF False] by (simp add: heap_room_def)
      then show "unat (?e + PAGE_SIZE) = unat ?e + 4096" by (simp add: PAGE_SIZE_def unat_plus_no_wrap)
    qed
    note gs = grow_segs_ok [OF w ce(1) ne]
    obtain sz ve vm where ex: "heap_expand h = Some (True, h3\<lparr>heap_size := sz, heap_virtual_end := ve,
        hp_mm := (hp_mm h3)\<lparr>mm_vma := vm\<rparr>\<rparr>)"
      using c i p e0 h3(1,4)
      by (auto simp: heap_expand_def heap_next_commit_address_def Let_def heap_create_block_def)
    define h4 where "h4 = h3\<lparr>heap_size := sz, heap_virtual_end := ve, hp_mm := (hp_mm h3)\<lparr>mm_vma := vm\<rparr>\<rparr>"
    have f4: "heap_free_frames h4 = heap_free_frames h1" "heap_committed_end h4 = ?e + PAGE_SIZE"
      "heap_virtual_start h4 = heap_virtual_start h" "heap_vma h4 = heap_vma h" "mm_vm (hp_mm h4) = mm_vm (hp_mm h1)"
      "hp_mem h4 = hp_mem h"
      by (simp_all add: h4_def bl h1)
    have "rep h4 (grow_segs ?e segs)" by (rule rep_cong [OF h3(3)]) (simp_all add: h4_def)
    moreover have "heap_room h4" using room cp(5) [OF False] ce by (simp add: heap_room_def f4)
    ultimately have "heap_ok h4 (grow_segs ?e segs)" using ok gs cp(1,6) i by (auto simp: heap_ok_def f4)
    moreover have "can_grow n h4" if "can_grow (Suc n) h" for n
      using gr(2) [OF that] can_grow_vm [of h4 h1] f4 by (simp add: h1)
    ultimately show thesis
      using grown [of h4] ex cp(2,5) False f4 ce(1) by (simp add: h4_def [symmetric])
  qed
qed

section \<open>Allocation\<close>

lemma heap_grow_ok:
  assumes ok: "heap_ok h segs"
  obtains (failed) h' where "heap_grow (heap_committed_size h + HEAP_GROW_SIZE) h = Some (False, h')"
      "heap_ok h' segs" "heap_free_frames h' \<subseteq> heap_free_frames h" "hp_mem h' = hp_mem h" "\<And>n. \<not> can_grow (Suc n) h"
    | (grown) h' segs' where "heap_grow (heap_committed_size h + HEAP_GROW_SIZE) h = Some (True, h')"
      "heap_ok h' segs'" "allocated segs' = allocated segs" "heap_free_frames h' \<subseteq> heap_free_frames h"
      "card (heap_free_frames h') < card (heap_free_frames h)" "hp_mem h' = hp_mem h"
      "free_tail segs' = free_tail segs + 4096" "\<And>n. can_grow (Suc n) h \<Longrightarrow> can_grow n h'"
proof -
  let ?g = "heap_committed_size h + HEAP_GROW_SIZE"
  have w: "wf_segs (unat (heap_virtual_start h)) segs (unat (heap_committed_end h))" "segs \<noteq> []" using ok by (simp_all add: heap_ok_def)
  have s: "unat (heap_virtual_start h) \<le> unat (heap_committed_end h)" "4096 \<le> unat (heap_virtual_start h)"
    using ok layout_le by (auto simp: heap_ok_def wf_segs_def)
  have cs: "unat (heap_committed_size h) = unat (heap_committed_end h) - unat (heap_virtual_start h)"
    using s by (simp add: heap_committed_size_def unat_minus_le word_le_nat_alt)
  then have g: "unat ?g = unat (heap_committed_size h) + 4096"
    using s unat_lt_2p64 [of "heap_committed_end h"] by (simp add: HEAP_GROW_SIZE_def unat_plus_no_wrap)
  then have lt: "heap_committed_size h < ?g" by (simp add: word_less_nat_alt)
  show thesis
    using ok
  proof (cases rule: heap_expand_ok)
    case (failed h')
    have "heap_grow ?g h = Some (False, h')" using lt failed(1) by (subst heap_grow.simps) simp
    then show thesis using that(1) failed by blast
  next
    case (grown h')
    have "heap_committed_size h' = ?g"
      using grown(3,4) by (simp add: heap_committed_size_def HEAP_GROW_SIZE_def PAGE_SIZE_def)
    then have "heap_grow ?g h' = Some (True, h')" by (subst heap_grow.simps) simp
    then have "heap_grow ?g h = Some (True, h')" using lt grown(1) by (subst heap_grow.simps) simp
    then show thesis using that(2) grown grow_segs_ok(2,4) [OF w(1) grown(9) w(2)] by blast
  qed
qed

text \<open>Taking the first block that fits.\<close>

lemma find_split:
  assumes "find P xs = Some x"
  obtains ys zs where "xs = ys @ x # zs" "P x" "\<forall>y \<in> set ys. \<not> P y"
  using assms
proof (induction xs arbitrary: thesis)
  case (Cons y xs)
  show ?case
  proof (cases "P y")
    case True
    then show ?thesis using Cons.prems(1) [of "[]" xs] Cons.prems(2) by simp
  next
    case False
    then obtain ys zs where "xs = ys @ x # zs" "P x" "\<forall>y \<in> set ys. \<not> P y"
      using Cons.IH Cons.prems(2) by auto
    then show ?thesis using Cons.prems(1) [of "y # ys" zs] False by simp
  qed
qed simp

lemma take_block:
  assumes ok: "heap_ok h (xs @ (a, n, True) # ys)" and sz: "16 dvd unat sz" "sz \<le> n"
  obtains m segs' where
    "heap_ok (upd_block a (\<lambda>b. b\<lparr>blk_free := False\<rparr>) (split_block a sz h)) segs'" "sz \<le> m" "m \<le> n"
    "allocated segs' = insert (a, m) (allocated (xs @ (a, n, True) # ys))"
proof -
  let ?s = "unat (heap_virtual_start h)" and ?e = "unat (heap_committed_end h)"
  have r: "rep h (xs @ (a, n, True) # ys)" and w: "wf_segs ?s (xs @ (a, n, True) # ys) ?e"
    using ok by (simp_all add: heap_ok_def)
  show thesis
  proof (cases "n \<le> sz + sizeof_heap_block")
    case True
    then have sp: "split_block a sz h = h" using rep_block [OF r] by (simp add: split_block_def)
    have "wf_segs ?s (xs @ (a, n, False) # ys) ?e" using w by (auto simp: wf_segs_def layout_append)
    then have "heap_ok (upd_block a (\<lambda>b. b\<lparr>blk_free := False\<rparr>) h) (xs @ (a, n, False) # ys)"
      by (intro heap_ok_blocks [OF ok only_blocks_ops(1) rep_size [OF r]]) simp_all
    then show thesis using that [of "xs @ (a, n, False) # ys" n] sp sz by simp
  next
    case False
    let ?new = "a + sizeof_heap_block + sz" and ?m = "n - sz - sizeof_heap_block"
    note ws = wf_split [OF w sz False]
    have r1: "rep (split_block a sz h) (xs @ (a, sz, True) # (?new, ?m, True) # ys)"
      by (rule rep_split [OF r False ws(2)])
    have "wf_segs ?s (xs @ (a, sz, False) # (?new, ?m, True) # ys) ?e"
      using ws(1) by (auto simp: wf_segs_def layout_append)
    then have "heap_ok (upd_block a (\<lambda>b. b\<lparr>blk_free := False\<rparr>) (split_block a sz h))
        (xs @ (a, sz, False) # (?new, ?m, True) # ys)"
      by (intro heap_ok_blocks [OF ok only_blocks_trans [OF only_blocks_ops(4) only_blocks_ops(1)]
            rep_size [OF r1]]) simp_all
    then show thesis using that [of "xs @ (a, sz, False) # (?new, ?m, True) # ys" sz] sz by simp
  qed
qed

definition alloc_post :: "u64 \<Rightarrow> seg list \<Rightarrow> heap_state \<Rightarrow> u64 \<times> heap_state \<Rightarrow> bool" where
  "alloc_post sz segs h res \<longleftrightarrow> (case res of (p, h') \<Rightarrow>
     \<exists>segs'. heap_ok h' segs' \<and> heap_free_frames h' \<subseteq> heap_free_frames h \<and> hp_mem h' = hp_mem h \<and>
       (if p = 0 then allocated segs' = allocated segs
        else \<exists>m. sz \<le> m \<and> p - sizeof_heap_block \<notin> fst ` allocated segs \<and>
               allocated segs' = insert (p - sizeof_heap_block, m) (allocated segs)))"

text \<open>A request that a block satisfies is served from the first such block.\<close>

lemma serve_block:
  assumes ok: "heap_ok h segs" and sz: "16 dvd unat sz" and f: "find (fits sz) segs = Some x"
  obtains a h' segs' m where "find_free_block sz h = Some a" "a \<noteq> 0" "a + sizeof_heap_block \<noteq> 0"
    "upd_block a (\<lambda>b. b\<lparr>blk_free := False\<rparr>) (split_block a sz h) = h'" "only_blocks h h'"
    "heap_ok h' segs'" "sz \<le> m" "a \<notin> fst ` allocated segs" "allocated segs' = insert (a, m) (allocated segs)"
proof -
  let ?s = "unat (heap_virtual_start h)" and ?e = "unat (heap_committed_end h)"
  have r: "rep h segs" and w: "wf_segs ?s segs ?e" using ok by (simp_all add: heap_ok_def)
  obtain xs ys where sp: "segs = xs @ x # ys" "fits sz x" by (rule find_split [OF f])
  obtain a n where x: "x = (a, n, True)" "sz \<le> n" using sp(2) by (cases x) auto
  have a: "find_free_block sz h = Some a" "a \<noteq> 0"
    using find_free_block_rep [OF r] f x rep_block(2) [of h xs a n True ys] r sp(1) by auto
  have okx: "heap_ok h (xs @ (a, n, True) # ys)" using ok sp(1) x by simp
  let ?h2 = "upd_block a (\<lambda>b. b\<lparr>blk_free := False\<rparr>) (split_block a sz h)"
  obtain m segs' where m: "heap_ok ?h2 segs'" "sz \<le> m" "allocated segs' = insert (a, m) (allocated (xs @ (a, n, True) # ys))"
    by (rule take_block [OF okx sz x(2)])
  have "unat a + 32 + unat n \<le> ?e" "?e < 18446744073709551616"
    using w layout_mem(2) [of ?s segs ?e a n True] sp(1) x by (auto simp: wf_segs_def)
  then have "unat (a + sizeof_heap_block) = unat a + 32" by (simp add: sizeof_heap_block_def unat_plus_no_wrap)
  then have "a + sizeof_heap_block \<noteq> 0" by auto
  moreover have "a \<notin> fst ` allocated segs" using r unfolding sp(1) x by (auto simp: rep_def allocated_def image_iff)
  moreover have "only_blocks h ?h2" using only_blocks_trans [OF only_blocks_ops(4) only_blocks_ops(1)] .
  ultimately show thesis using that [OF a _ refl _ m(1,2)] m(3) sp(1) x by simp
qed

text \<open>
  One turn of the loop of \<open>kmalloc\<close>: the request is served, or the heap cannot grow, or the loop goes on
  with a larger heap.
\<close>

lemma kmalloc_turn:
  assumes ok: "heap_ok h segs" and sz: "16 dvd unat sz"
  obtains (served) p h' where "kmalloc_loop sz h = Some (p, h')" "p \<noteq> 0" "alloc_post sz segs h (p, h')"
      "\<And>n. can_grow n h' = can_grow n h"
    | (full) h' where "kmalloc_loop sz h = Some (0, h')" "alloc_post sz segs h (0, h')" "\<And>n. \<not> can_grow (Suc n) h"
      "free_tail segs < unat sz + 32"
    | (again) h' segs' where "kmalloc_loop sz h = kmalloc_loop sz h'" "heap_ok h' segs'"
      "card (heap_free_frames h') < card (heap_free_frames h)" "\<And>res. alloc_post sz segs' h' res \<Longrightarrow> alloc_post sz segs h res"
      "free_tail segs + 4096 \<le> free_tail segs'" "free_tail segs < unat sz + 32" "\<And>n. can_grow (Suc n) h \<Longrightarrow> can_grow n h'"
proof -
  let ?s = "unat (heap_virtual_start h)" and ?e = "unat (heap_committed_end h)"
  have r: "rep h segs" and w: "wf_segs ?s segs ?e" and ne: "segs \<noteq> []" using ok by (simp_all add: heap_ok_def)
  obtain h1 where h1: "coalesce_free_blocks h = Some h1" "rep h1 (coalesce segs)" "only_blocks h h1"
    by (rule coalesce_free_blocks_rep [OF r])
  have cp: "wf_segs ?s (coalesce segs) ?e" "allocated (coalesce segs) = allocated segs" "coalesce segs \<noteq> []"
    using coalesce_props [of ?s "[]" segs ?e] w ne by simp_all
  have tail: "free_tail segs \<le> free_tail (coalesce segs)" using free_tail_coalesce [of ?s "[]"] w by simp
  have ok1: "heap_ok h1 (coalesce segs)" by (rule heap_ok_blocks [OF ok h1(3,2) cp(3,1)])
  note ob1 = only_blocks_frame [OF h1(3)]
  have cg1: "can_grow n h1 = can_grow n h" for n by (rule can_grow_cong) (simp_all add: ob1)
  show thesis
  proof (cases "find (fits sz) (coalesce segs)")
    case (Some x)
    obtain a h2 segs' m where a: "find_free_block sz h1 = Some a" "a \<noteq> 0" "a + sizeof_heap_block \<noteq> 0"
      "upd_block a (\<lambda>b. b\<lparr>blk_free := False\<rparr>) (split_block a sz h1) = h2" "only_blocks h1 h2"
      "heap_ok h2 segs'" "sz \<le> m" "a \<notin> fst ` allocated segs" "allocated segs' = insert (a, m) (allocated segs)"
      using serve_block [OF ok1 sz Some] unfolding cp(2) by blast
    note ob2 = only_blocks_frame [OF a(5)]
    have "kmalloc_loop sz h = Some (a + sizeof_heap_block, h2)" using h1(1) a(1,2,4) by (subst kmalloc_loop.simps) (simp add: Let_def)
    moreover have "alloc_post sz segs h (a + sizeof_heap_block, h2)" using a ob1 ob2 by (auto simp: alloc_post_def)
    moreover have "can_grow n h2 = can_grow n h" for n unfolding cg1 [symmetric] by (rule can_grow_cong) (simp_all add: ob2)
    ultimately show thesis using served a(3) by blast
  next
    case None
    then have none: "find_free_block sz h1 = Some 0" using find_free_block_rep [OF h1(2)] by simp
    have lt: "free_tail segs < unat sz + 32" using tail free_tail_fits [of sz "coalesce segs"] None by linarith
    show thesis
      using ok1
    proof (cases rule: heap_grow_ok)
      case (failed h')
      have "kmalloc_loop sz h = Some (0, h')" using h1(1) none failed(1) by (subst kmalloc_loop.simps) simp
      moreover have "alloc_post sz segs h (0, h')" using failed ob1 cp(2) by (auto simp: alloc_post_def)
      ultimately show thesis using full failed(5) lt cg1 by blast
    next
      case (grown h' segs')
      have "kmalloc_loop sz h = kmalloc_loop sz h'" using h1(1) none grown(1) by (subst kmalloc_loop.simps) simp
      moreover have "alloc_post sz segs h res" if "alloc_post sz segs' h' res" for res
        using that grown ob1 cp(2) by (fastforce simp: alloc_post_def)
      moreover have "free_tail segs + 4096 \<le> free_tail segs'" using grown(7) tail by simp
      ultimately show thesis using again [of h' segs'] grown(2,5,8) ob1 lt cg1 by simp
    qed
  qed
qed

lemma kmalloc_loop_ok:
  assumes "heap_ok h segs" "16 dvd unat sz"
  shows "\<exists>res. kmalloc_loop sz h = Some res \<and> alloc_post sz segs h res"
  using assms
proof (induction "card (heap_free_frames h)" arbitrary: h segs rule: less_induct)
  case less
  from less.prems show ?case
  proof (cases rule: kmalloc_turn)
    case (again h' segs')
    then show ?thesis using less.hyps [OF again(3,2) less.prems(2)] by auto
  qed auto
qed

text \<open>The loop succeeds when the free block at the end and the pages the heap can grow by are enough.\<close>

lemma kmalloc_loop_serves:
  assumes "heap_ok h segs" "16 dvd unat sz" "unat sz + 32 \<le> free_tail segs + 4096 * n" "can_grow (n + k) h"
  shows "\<exists>p h'. kmalloc_loop sz h = Some (p, h') \<and> p \<noteq> 0 \<and> can_grow k h'"
  using assms
proof (induction n arbitrary: h segs)
  case 0
  from 0(1,2) show ?case by (cases rule: kmalloc_turn) (use 0(3,4) in auto)
next
  case (Suc n)
  from Suc.prems(1,2) show ?case
  proof (cases rule: kmalloc_turn)
    case (served p h')
    then show ?thesis using can_grow_mono [OF Suc.prems(4)] by auto
  next
    case (full h')
    then show ?thesis using Suc.prems(4) by simp
  next
    case (again h' segs')
    have "unat sz + 32 \<le> free_tail segs' + 4096 * n" using again(5) Suc.prems(3) by simp
    from Suc.IH [OF again(2) Suc.prems(2) this] again(1,7) Suc.prems(4) show ?thesis by simp
  qed
qed

lemma align_size_mask: "align_size sz = (sz + 15) AND NOT (mask 4)"
  by (simp add: align_size_def HEAP_ALIGNMENT_def mask_eq_exp_minus_1)

lemma align_size_dvd: "16 dvd unat (align_size sz)"
proof -
  have "take_bit 4 (align_size sz) = 0"
    unfolding align_size_mask by (rule bit_eqI) (auto simp: bit_take_bit_iff bit_and_iff bit_not_iff bit_mask_iff)
  then have "align_size sz mod 16 = 0" by (simp add: take_bit_eq_mod)
  then have "unat (align_size sz mod 16) = 0" by simp
  then show ?thesis by (simp add: unat_mod_u64 dvd_eq_mod_eq_0)
qed

lemma align_size_ge:
  assumes "unat sz + 15 < 18446744073709551616"
  shows "sz \<le> align_size sz" "unat (align_size sz) < unat sz + 16"
proof -
  have plus: "unat (sz + 15) = unat sz + 15" using assms by (simp add: unat_plus_no_wrap)
  have "align_size sz = push_bit 4 (drop_bit 4 (sz + 15))"
    unfolding align_size_mask by (rule bit_eqI) (auto simp: bit_simps)
  then have "align_size sz = (sz + 15) - take_bit 4 (sz + 15)"
    using bits_ident [of 4 "sz + 15"] by (simp add: eq_diff_eq)
  moreover have "unat (take_bit 4 (sz + 15)) = (unat sz + 15) mod 16"
    using plus by (simp add: take_bit_eq_mod unat_mod_u64)
  moreover have "take_bit 4 (sz + 15) \<le> sz + 15"
    using plus calculation(2) by (simp add: word_le_nat_alt)
  ultimately have "unat (align_size sz) = (unat sz + 15) - (unat sz + 15) mod 16"
    using plus by (simp add: unat_minus_le)
  then show "sz \<le> align_size sz" "unat (align_size sz) < unat sz + 16"
    unfolding word_le_nat_alt by linarith+
qed

section \<open>Freeing\<close>

lemma free_block:
  assumes ok: "heap_ok h (xs @ (a, n, False) # ys)"
  obtains segs' where "heap_ok (kfree (a + sizeof_heap_block) h) segs'"
    "allocated segs' = allocated xs \<union> allocated ys"
proof -
  let ?s = "unat (heap_virtual_start h)" and ?e = "unat (heap_committed_end h)"
  have r: "rep h (xs @ (a, n, False) # ys)" and w: "wf_segs ?s (xs @ (a, n, False) # ys) ?e"
    using ok by (simp_all add: heap_ok_def)
  have w1: "wf_segs ?s (xs @ (a, n, True) # ys) ?e" using w by (auto simp: wf_segs_def layout_append)
  let ?h1 = "upd_block a (\<lambda>b. b\<lparr>blk_free := True\<rparr>) h" and ?h2 = "merge_with_next a (upd_block a (\<lambda>b. b\<lparr>blk_free := True\<rparr>) h)"
  have r1: "rep ?h1 (xs @ (a, n, True) # ys)" by (rule rep_size [OF r])
  have nz: "a + sizeof_heap_block \<noteq> 0"
  proof -
    have "unat a + 32 + unat n \<le> ?e" "?e < 18446744073709551616"
      using w layout_mem(2) [of ?s "xs @ (a, n, False) # ys" ?e a n False] by (auto simp: wf_segs_def)
    then have "unat (a + sizeof_heap_block) = unat a + 32" by (simp add: sizeof_heap_block_def unat_plus_no_wrap)
    then show ?thesis by auto
  qed
  then have kf: "kfree (a + sizeof_heap_block) h = merge_with_previous a ?h2" by (simp add: kfree_def)
  have ob: "only_blocks h (merge_with_previous a ?h2)"
    using only_blocks_trans only_blocks_ops by metis
  obtain n2 ys2 where r2: "rep ?h2 (xs @ (a, n2, True) # ys2)" and w2: "wf_segs ?s (xs @ (a, n2, True) # ys2) ?e"
    and al2: "allocated ys2 = allocated ys"
  proof (cases "\<exists>b m zs. ys = (b, m, True) # zs")
    case True
    then obtain b m zs where ys: "ys = (b, m, True) # zs" by blast
    show thesis
    proof (rule that)
      show "rep ?h2 (xs @ (a, n + (sizeof_heap_block + m), True) # zs)" using rep_merge_next [OF r1] ys by simp
      show "wf_segs ?s (xs @ (a, n + (sizeof_heap_block + m), True) # zs) ?e" using wf_merge w1 ys by blast
    qed (simp add: ys)
  next
    case False
    then have "rep ?h2 (xs @ (a, n, True) # ys)"
      using rep_merge_next [OF r1] by (auto split: list.splits prod.splits bool.splits)
    then show thesis using that w1 by blast
  qed
  show thesis
  proof (cases "\<exists>zs b m. xs = zs @ [(b, m, True)]")
    case True
    then obtain zs b m where xs: "xs = zs @ [(b, m, True)]" by blast
    have "rep (merge_with_previous a ?h2) (zs @ (b, m + (sizeof_heap_block + n2), True) # ys2)"
      using rep_merge_prev [OF r2] xs by simp
    moreover have "wf_segs ?s (zs @ (b, m + (sizeof_heap_block + n2), True) # ys2) ?e"
      using wf_merge [of ?s zs b m True a n2 True ys2 ?e] w2 xs by simp
    ultimately have "heap_ok (kfree (a + sizeof_heap_block) h) (zs @ (b, m + (sizeof_heap_block + n2), True) # ys2)"
      unfolding kf by (intro heap_ok_blocks [OF ok ob]) simp_all
    then show thesis using that al2 xs by simp
  next
    case False
    have "rep (merge_with_previous a ?h2) (xs @ (a, n2, True) # ys2)"
    proof (cases xs rule: rev_cases)
      case Nil
      then show ?thesis using rep_merge_prev [OF r2] by simp
    next
      case (snoc zs y)
      obtain b m g where "y = (b, m, g)" by (cases y)
      then show ?thesis using rep_merge_prev [OF r2] snoc False by (cases g) auto
    qed
    then have "heap_ok (kfree (a + sizeof_heap_block) h) (xs @ (a, n2, True) # ys2)"
      unfolding kf using w2 by (intro heap_ok_blocks [OF ok ob]) simp_all
    then show thesis using that al2 by simp
  qed
qed

lemma kfree_ok:
  assumes ok: "heap_ok h segs" and a: "(a, n) \<in> allocated segs"
  obtains segs' where "heap_ok (kfree (a + sizeof_heap_block) h) segs'"
    "allocated segs' = allocated segs - {(a, n)}"
proof -
  obtain xs ys where segs: "segs = xs @ (a, n, False) # ys"
    using a by (auto simp: allocated_def in_set_conv_decomp)
  have "distinct (map fst segs)" using ok by (simp add: heap_ok_def rep_def)
  then have "(a, n) \<notin> allocated xs \<union> allocated ys" by (auto simp: segs allocated_def image_iff)
  moreover obtain segs' where "heap_ok (kfree (a + sizeof_heap_block) h) segs'"
    "allocated segs' = allocated xs \<union> allocated ys"
    using free_block ok segs by blast
  ultimately show thesis using that [of segs'] segs by auto
qed

section \<open>The contract of the allocator\<close>

text \<open>
  What the file system, the process and the scheduler code rely on. The invariant relates a state to
  the live regions: pairs of the pointer handed out and the number of usable bytes. A client is a
  sequence of requests of any size that only frees what it holds. The bytes a client may use are those it asked for; but a size
  within 15 bytes of the largest one wraps around when it is rounded up, and the block that is then handed
  out has no bytes to use.
\<close>

definition granted :: "u64 \<Rightarrow> u64" where
  "granted n = (if unat n + 15 < 2 ^ 64 then n else 0)"

datatype mem_request = Malloc u64 | Release nat

locale memory_allocator =
  fixes alloc :: "u64 \<Rightarrow> 's \<Rightarrow> (u64 \<times> 's) option"
    and release :: "u64 \<Rightarrow> 's \<Rightarrow> 's"
    and inv :: "'s \<Rightarrow> (u64 \<times> u64) set \<Rightarrow> bool"
  assumes alloc_returns: "inv s L \<Longrightarrow>
           \<exists>p s'. alloc n s = Some (p, s') \<and>
             (if p = 0 then inv s' L else \<exists>m. granted n \<le> m \<and> p \<notin> fst ` L \<and> inv s' (insert (p, m) L))"
    and release_live: "inv s L \<Longrightarrow> (p, m) \<in> L \<Longrightarrow> inv (release p s) (L - {(p, m)})"
    and live_disjoint: "inv s L \<Longrightarrow> (p, m) \<in> L \<Longrightarrow> (q, k) \<in> L \<Longrightarrow> p \<noteq> q \<Longrightarrow>
           {unat p..<unat p + unat m} \<inter> {unat q..<unat q + unat k} = {}"
begin

lemma alloc_total:
  "inv s L \<Longrightarrow> n \<noteq> 0 \<Longrightarrow> unat n + 15 < 2 ^ 64 \<Longrightarrow>
   \<exists>p s'. alloc n s = Some (p, s') \<and> (if p = 0 then inv s' L else \<exists>m. n \<le> m \<and> p \<notin> fst ` L \<and> inv s' (insert (p, m) L))"
proof -
  assume "inv s L" "unat n + 15 < 2 ^ 64"
  moreover from this have "granted n = n" by (simp add: granted_def)
  ultimately show ?thesis using alloc_returns [of s L n] by metis
qed

fun serve :: "mem_request \<Rightarrow> 's \<times> (u64 \<times> u64) list \<Rightarrow> ('s \<times> (u64 \<times> u64) list) option" where
  "serve (Malloc n) (s, held) =
     (case alloc n s of
        None \<Rightarrow> None
      | Some (p, s') \<Rightarrow> Some (s', if p = 0 then held else (p, granted n) # held))"
| "serve (Release i) (s, held) =
     (if i < length held then Some (release (fst (held ! i)) s, take i held @ drop (Suc i) held)
      else Some (s, held))"

fun serve_all :: "mem_request list \<Rightarrow> 's \<times> (u64 \<times> u64) list \<Rightarrow> ('s \<times> (u64 \<times> u64) list) option" where
  "serve_all [] st = Some st"
| "serve_all (r # rs) st = (case serve r st of None \<Rightarrow> None | Some st' \<Rightarrow> serve_all rs st')"

definition holds :: "(u64 \<times> u64) set \<Rightarrow> 's \<times> (u64 \<times> u64) list \<Rightarrow> bool" where
  "holds L st \<longleftrightarrow> (case st of (s, held) \<Rightarrow> distinct (map fst held) \<and>
     (\<exists>M. inv s (L \<union> M) \<and> L \<inter> M = {} \<and> fst ` L \<inter> fst ` M = {} \<and> inj_on fst M \<and> fst ` M = fst ` set held \<and>
          (\<forall>x \<in> set held. \<exists>m. (fst x, m) \<in> M \<and> snd x \<le> m)))"

lemma holdsI:
  assumes "distinct (map fst held)" "inv s (L \<union> M)" "L \<inter> M = {}" "fst ` L \<inter> fst ` M = {}" "inj_on fst M"
    "fst ` M = fst ` set held" "\<forall>x \<in> set held. \<exists>m. (fst x, m) \<in> M \<and> snd x \<le> m"
  shows "holds L (s, held)"
  unfolding holds_def prod.case by (intro conjI exI [of _ M]) (rule assms)+

lemma holdsE:
  assumes "holds L (s, held)"
  obtains M where "distinct (map fst held)" "inv s (L \<union> M)" "L \<inter> M = {}" "fst ` L \<inter> fst ` M = {}"
    "inj_on fst M" "fst ` M = fst ` set held" "\<forall>x \<in> set held. \<exists>m. (fst x, m) \<in> M \<and> snd x \<le> m"
  using assms unfolding holds_def prod.case by (elim conjE exE)

lemma holds_alloc:
  assumes h: "holds L (s, held)"
  obtains p s' where "alloc n s = Some (p, s')" "holds L (s', if p = 0 then held else (p, granted n) # held)"
proof -
  obtain M where M: "distinct (map fst held)" "inv s (L \<union> M)" "L \<inter> M = {}" "fst ` L \<inter> fst ` M = {}" "inj_on fst M"
    "fst ` M = fst ` set held" "\<forall>x \<in> set held. \<exists>m. (fst x, m) \<in> M \<and> snd x \<le> m"
    by (rule holdsE [OF h])
  obtain p s' where al: "alloc n s = Some (p, s')"
    and post: "if p = 0 then inv s' (L \<union> M) else \<exists>m. granted n \<le> m \<and> p \<notin> fst ` (L \<union> M) \<and> inv s' (insert (p, m) (L \<union> M))"
    using alloc_returns [OF M(2)] by blast
  have "holds L (s', if p = 0 then held else (p, granted n) # held)"
  proof (cases "p = 0")
    case True
    then show ?thesis using post M by (intro holdsI [where M = M]) simp_all
  next
    case False
    then obtain m where m: "granted n \<le> m" "p \<notin> fst ` (L \<union> M)" "inv s' (insert (p, m) (L \<union> M))" using post by auto
    have "holds L (s', (p, granted n) # held)"
    proof (rule holdsI [where M = "insert (p, m) M"])
      show "inj_on fst (insert (p, m) M)" using M(5) m(2) by (auto simp: inj_on_def image_iff)
      show "L \<inter> insert (p, m) M = {}" "fst ` L \<inter> fst ` insert (p, m) M = {}"
        using M(3,4) m(2) by (force simp: image_iff)+
      show "\<forall>x \<in> set ((p, granted n) # held). \<exists>j. (fst x, j) \<in> insert (p, m) M \<and> snd x \<le> j" using M(7) m(1) by auto
      show "distinct (map fst ((p, granted n) # held))" using M(1,6) m(2) by auto
    qed (use M(6) m(3) in simp_all)
    then show ?thesis using False by simp
  qed
  with al show thesis by (rule that)
qed

lemma holds_release:
  assumes "holds L (s, xs @ (p, n) # ys)"
  shows "holds L (release p s, xs @ ys)"
proof -
  obtain M where M: "distinct (map fst (xs @ (p, n) # ys))" "inv s (L \<union> M)" "L \<inter> M = {}" "fst ` L \<inter> fst ` M = {}" "inj_on fst M"
    "fst ` M = fst ` set (xs @ (p, n) # ys)" "\<forall>x \<in> set (xs @ (p, n) # ys). \<exists>m. (fst x, m) \<in> M \<and> snd x \<le> m"
    by (rule holdsE [OF assms])
  obtain m where m: "(p, m) \<in> M" using M(7) by auto
  have p: "p \<notin> fst ` set (xs @ ys)" using M(1) by auto
  show ?thesis
  proof (rule holdsI [where M = "M - {(p, m)}"])
    have "(L \<union> M) - {(p, m)} = L \<union> (M - {(p, m)})" using m M(3) by auto
    then show "inv (release p s) (L \<union> (M - {(p, m)}))" using release_live [OF M(2), of p m] m by simp
    have "fst ` (M - {(p, m)}) = fst ` M - {p}"
      using inj_on_image_set_diff [OF M(5), of M "{(p, m)}"] m by simp
    then show "fst ` (M - {(p, m)}) = fst ` set (xs @ ys)" unfolding M(6) using p by auto
    show "\<forall>x \<in> set (xs @ ys). \<exists>j. (fst x, j) \<in> M - {(p, m)} \<and> snd x \<le> j"
    proof
      fix x assume x: "x \<in> set (xs @ ys)"
      then obtain j where "(fst x, j) \<in> M" "snd x \<le> j" using M(7) by auto
      moreover have "fst x \<noteq> p" using x p by blast
      ultimately show "\<exists>j. (fst x, j) \<in> M - {(p, m)} \<and> snd x \<le> j" by auto
    qed
    show "L \<inter> (M - {(p, m)}) = {}" "fst ` L \<inter> fst ` (M - {(p, m)}) = {}" using M(3,4) by auto
    show "inj_on fst (M - {(p, m)})" using M(5) by (rule inj_on_diff)
  qed (use M(1) in simp)
qed

lemma serve_ok:
  assumes "holds L st"
  shows "\<exists>st'. serve r st = Some st' \<and> holds L st'"
proof -
  obtain s held where st: "st = (s, held)" by (cases st)
  show ?thesis
  proof (cases r)
    case (Malloc n)
    obtain p s' where "alloc n s = Some (p, s')" "holds L (s', if p = 0 then held else (p, granted n) # held)"
      using holds_alloc [OF assms [unfolded st], of n] by blast
    then show ?thesis using Malloc st by simp
  next
    case (Release i)
    show ?thesis
    proof (cases "i < length held")
      case True
      then have "held = take i held @ (fst (held ! i), snd (held ! i)) # drop (Suc i) held" by (simp add: id_take_nth_drop)
      then have "holds L (s, take i held @ (fst (held ! i), snd (held ! i)) # drop (Suc i) held)" using assms st by simp
      from holds_release [OF this] show ?thesis using True Release st by simp
    qed (use assms Release st in simp)
  qed
qed

lemma serve_all_ok: "holds L st \<Longrightarrow> \<exists>st'. serve_all rs st = Some st' \<and> holds L st'"
proof (induction rs arbitrary: st)
  case (Cons r rs)
  then obtain st' where "serve r st = Some st'" "holds L st'" using serve_ok by blast
  then show ?case using Cons.IH by simp
qed simp

lemma held_apart:
  assumes "holds L (s, held)" "(p, n) \<in> set held" "(q, k) \<in> L"
  shows "p \<noteq> q" "{unat p..<unat p + unat n} \<inter> {unat q..<unat q + unat k} = {}"
proof -
  obtain M where M: "inv s (L \<union> M)" "fst ` L \<inter> fst ` M = {}" "\<forall>x \<in> set held. \<exists>m. (fst x, m) \<in> M \<and> snd x \<le> m"
    by (rule holdsE [OF assms(1)])
  obtain m where m: "(p, m) \<in> M" "n \<le> m" using bspec [OF M(3) assms(2)] by auto
  show pq: "p \<noteq> q" using m(1) assms(3) M(2) by force
  have "{unat p..<unat p + unat m} \<inter> {unat q..<unat q + unat k} = {}"
    using live_disjoint [OF M(1), of p m q k] m assms(3) pq by blast
  then show "{unat p..<unat p + unat n} \<inter> {unat q..<unat q + unat k} = {}" using m(2) by (auto simp: word_le_nat_alt)
qed

lemma held_disjoint:
  assumes "holds L (s, held)" "(p, n) \<in> set held" "(q, k) \<in> set held" "p \<noteq> q"
  shows "{unat p..<unat p + unat n} \<inter> {unat q..<unat q + unat k} = {}"
proof -
  obtain M where M: "inv s (L \<union> M)" "\<forall>x \<in> set held. \<exists>m. (fst x, m) \<in> M \<and> snd x \<le> m"
    by (rule holdsE [OF assms(1)])
  obtain m j where m: "(p, m) \<in> M" "n \<le> m" "(q, j) \<in> M" "k \<le> j"
    using bspec [OF M(2) assms(2)] bspec [OF M(2) assms(3)] by auto
  have "{unat p..<unat p + unat m} \<inter> {unat q..<unat q + unat j} = {}"
    using live_disjoint [OF M(1), of p m q j] m assms(4) by blast
  moreover have "{unat p..<unat p + unat n} \<subseteq> {unat p..<unat p + unat m}"
    "{unat q..<unat q + unat k} \<subseteq> {unat q..<unat q + unat j}"
    using m by (auto simp: word_le_nat_alt)
  ultimately show ?thesis by blast
qed

end

definition heap_live :: "heap_state \<Rightarrow> (u64 \<times> u64) set \<Rightarrow> bool" where
  "heap_live h L \<longleftrightarrow> (\<exists>segs. heap_ok h segs \<and> L = (\<lambda>(a, n). (a + sizeof_heap_block, n)) ` allocated segs)"

lemma heap_payload_bounds:
  assumes "heap_ok h segs" "(a, n, f) \<in> set segs"
  shows "unat (a + sizeof_heap_block) = unat a + 32"
    "unat a + 32 + unat n \<le> unat (heap_committed_end h)" "unat (heap_virtual_start h) \<le> unat a"
proof -
  have l: "layout (unat (heap_virtual_start h)) segs (unat (heap_committed_end h))"
    using assms(1) by (simp add: heap_ok_def wf_segs_def)
  show "unat a + 32 + unat n \<le> unat (heap_committed_end h)" "unat (heap_virtual_start h) \<le> unat a"
    using layout_mem [OF l assms(2)] by auto
  then show "unat (a + sizeof_heap_block) = unat a + 32"
    using unat_lt_2p64 [of "heap_committed_end h"] by (simp add: sizeof_heap_block_def unat_plus_no_wrap)
qed

lemma kmalloc_ok:
  assumes ok: "heap_ok h segs" and n: "n \<noteq> 0"
  obtains p h' where "kmalloc n h = Some (p, h')" "alloc_post (align_size n) segs h (p, h')"
  using kmalloc_loop_ok [OF ok align_size_dvd, of n] n that by (auto simp: kmalloc_def)

lemma granted_aligned: "granted n \<le> align_size n"
  using align_size_ge(1) [of n] by (simp add: granted_def)

lemma kmalloc_serves:
  assumes ok: "heap_ok h segs" and n: "n \<noteq> 0" "unat n + 15 < 18446744073709551616"
    and room: "unat n + 47 \<le> free_tail segs + 4096 * i" "can_grow (i + k) h"
  shows "\<exists>p h'. kmalloc n h = Some (p, h') \<and> p \<noteq> 0 \<and> can_grow k h'"
proof -
  have "unat (align_size n) + 32 \<le> free_tail segs + 4096 * i" using align_size_ge(2) [OF n(2)] room(1) by simp
  then show ?thesis using kmalloc_loop_serves [OF ok align_size_dvd _ room(2)] n(1) by (simp add: kmalloc_def)
qed

text \<open>The heap lies above the first page, so no block has a small address.\<close>

lemma kmalloc_above:
  assumes ok: "heap_ok h segs" and n: "n \<noteq> 0" "unat n + 15 < 18446744073709551616"
    and k: "kmalloc n h = Some (p, h')" and p: "p \<noteq> 0"
  shows "4096 \<le> unat p"
proof -
  have "alloc_post (align_size n) segs h (p, h')" using kmalloc_ok [OF ok n(1)] k by (metis option.inject)
  then obtain segs' m where s': "heap_ok h' segs'" "allocated segs' = insert (p - sizeof_heap_block, m) (allocated segs)"
    using p by (auto simp: alloc_post_def)
  then have mem: "(p - sizeof_heap_block, m, False) \<in> set segs'" by (auto simp: allocated_def)
  have "unat p = unat (p - sizeof_heap_block) + 32" using heap_payload_bounds(1) [OF s'(1) mem] by simp
  moreover have "4096 \<le> unat (heap_virtual_start h')" using s'(1) by (simp add: heap_ok_def)
  ultimately show ?thesis using heap_payload_bounds(3) [OF s'(1) mem] by linarith
qed

interpretation ka: memory_allocator kmalloc kfree heap_live
proof
  fix h L and n :: u64
  assume live: "heap_live h L"
  let ?f = "\<lambda>(a, n). (a + sizeof_heap_block, n :: u64)"
  obtain segs where ok: "heap_ok h segs" and L: "L = ?f ` allocated segs" using live by (auto simp: heap_live_def)
  show "\<exists>p s'. kmalloc n h = Some (p, s') \<and>
      (if p = 0 then heap_live s' L else \<exists>m. granted n \<le> m \<and> p \<notin> fst ` L \<and> heap_live s' (insert (p, m) L))"
  proof (cases "n = 0")
    case True
    then show ?thesis using live by (simp add: kmalloc_def)
  next
    case False
    then obtain p h' where k: "kmalloc n h = Some (p, h')" "alloc_post (align_size n) segs h (p, h')"
      by (rule kmalloc_ok [OF ok])
    obtain segs' where s': "heap_ok h' segs'"
      and post: "if p = 0 then allocated segs' = allocated segs
          else \<exists>m. align_size n \<le> m \<and> p - sizeof_heap_block \<notin> fst ` allocated segs \<and>
                 allocated segs' = insert (p - sizeof_heap_block, m) (allocated segs)"
      using k(2) by (auto simp: alloc_post_def)
    have "if p = 0 then heap_live h' L else \<exists>m. granted n \<le> m \<and> p \<notin> fst ` L \<and> heap_live h' (insert (p, m) L)"
    proof (cases "p = 0")
      case True
      then show ?thesis using s' post L by (auto simp: heap_live_def)
    next
      case False
      then obtain m where m: "align_size n \<le> m" "p - sizeof_heap_block \<notin> fst ` allocated segs"
        "allocated segs' = insert (p - sizeof_heap_block, m) (allocated segs)" using post by auto
      have "?f ` allocated segs' = insert (p, m) L" using m(3) L by simp
      then have "heap_live h' (insert (p, m) L)" using s' by (auto simp: heap_live_def)
      moreover have "granted n \<le> m" using granted_aligned m(1) by (rule order_trans)
      moreover have "p \<notin> fst ` L" using m(2) L by (force simp: image_iff)
      ultimately show ?thesis using False by auto
    qed
    with k(1) show ?thesis by blast
  qed
next
  fix h L p m
  assume live: "heap_live h L" and p: "(p, m) \<in> L"
  let ?f = "\<lambda>(a, n). (a + sizeof_heap_block, n :: u64)"
  obtain segs where ok: "heap_ok h segs" and L: "L = ?f ` allocated segs" using live by (auto simp: heap_live_def)
  obtain a where a: "(a, m) \<in> allocated segs" "p = a + sizeof_heap_block" using p L by auto
  obtain segs' where s': "heap_ok (kfree p h) segs'" "allocated segs' = allocated segs - {(a, m)}"
    using kfree_ok [OF ok a(1)] a(2) by blast
  have "inj ?f" by (auto simp: inj_on_def)
  then have "?f ` allocated segs' = L - {(p, m)}" using s'(2) L a(2) by (simp add: image_set_diff)
  with s'(1) show "heap_live (kfree p h) (L - {(p, m)})" by (auto simp: heap_live_def)
next
  fix h L and p m q k :: u64
  assume live: "heap_live h L" and pq: "(p, m) \<in> L" "(q, k) \<in> L" "p \<noteq> q"
  obtain segs where ok: "heap_ok h segs" and L: "L = (\<lambda>(a, n). (a + sizeof_heap_block, n)) ` allocated segs"
    using live by (auto simp: heap_live_def)
  obtain a b where ab: "(a, m, False) \<in> set segs" "(b, k, False) \<in> set segs"
    "p = a + sizeof_heap_block" "q = b + sizeof_heap_block" using pq L by (auto simp: allocated_def)
  have l: "layout (unat (heap_virtual_start h)) segs (unat (heap_committed_end h))"
    using ok by (simp add: heap_ok_def wf_segs_def)
  have "unat a + 32 + unat m \<le> unat b \<or> unat b + 32 + unat k \<le> unat a"
    using layout_disjoint [OF l ab(1,2)] ab pq(3) by auto
  then show "{unat p..<unat p + unat m} \<inter> {unat q..<unat q + unat k} = {}"
    using heap_payload_bounds(1) [OF ok ab(1)] heap_payload_bounds(1) [OF ok ab(2)] ab(3,4) by auto
qed

lemma kmalloc_mem:
  assumes live: "heap_live h L" and n: "unat n + 15 < 18446744073709551616" and k: "kmalloc n h = Some (p, h')"
  shows "hp_mem h' = hp_mem h"
proof (cases "n = 0")
  case True
  then show ?thesis using k by (simp add: kmalloc_def)
next
  case False
  obtain segs where ok: "heap_ok h segs" using live by (auto simp: heap_live_def)
  have "alloc_post (align_size n) segs h (p, h')" using kmalloc_ok [OF ok False] k by (metis option.inject)
  then show ?thesis by (auto simp: alloc_post_def)
qed

section \<open>Initialisation\<close>

lemma heap_init_ok:
  assumes v: "vm_inv (mm_vm (hp_mm h))"
    and nb: "\<not> blocked (pte (mm_vm (hp_mm h)) (page_table_active_root (mm_vm (hp_mm h)))) HEAP_START_ADDRESS"
    and fr: "4 \<le> unat (pmm_get_free_pages (vm_pmm (mm_vm (hp_mm h))))"
    and off: "unat (hhdm_offset (mm_vm (hp_mm h))) + 2 ^ 32 \<le> 2 ^ 64"
    and vma: "vma_find HEAP_START_ADDRESS (mm_vma (hp_mm h)) = Some i" and kp: "kernel_pml4 (mm_vm (hp_mm h)) \<noteq> 0"
  shows "heap_ok (heap_init h) [(HEAP_START_ADDRESS, 4064, True)]"
    and "mm_vma (hp_mm (heap_init h)) = mm_vma (hp_mm h)"
    and "kernel_pml4 (mm_vm (hp_mm (heap_init h))) = kernel_pml4 (mm_vm (hp_mm h))"
    and "kernel_pml4_physical (mm_vm (hp_mm (heap_init h))) = kernel_pml4_physical (mm_vm (hp_mm h))"
    and "va_path va \<noteq> va_path HEAP_START_ADDRESS \<Longrightarrow>
      resolve (pte (mm_vm (hp_mm (heap_init h))) (page_table_active_root (mm_vm (hp_mm (heap_init h))))) va =
      resolve (pte (mm_vm (hp_mm h)) (page_table_active_root (mm_vm (hp_mm h)))) va"
    and "(\<And>i. i < k \<Longrightarrow> \<not> blocked (pte (mm_vm (hp_mm h)) (page_table_active_root (mm_vm (hp_mm h))))
           (HEAP_START_ADDRESS + HEAP_INITIAL_SIZE + of_nat i * PAGE_SIZE)) \<Longrightarrow>
      4 * (k + 1) \<le> unat (pmm_get_free_pages (vm_pmm (mm_vm (hp_mm h)))) \<Longrightarrow> can_grow k (heap_init h)"
proof -
  let ?v = "mm_vm (hp_mm h)"
  have inv: "pmm_inv (vm_pmm ?v)" using v by (simp add: vm_ok_def)
  have card: "4 \<le> card (free_set (vm_pmm ?v))"
    using fr inv by (simp add: pmm_get_free_pages_def pmm_inv_def)
  obtain a pmm where al: "pmm_alloc_page (vm_pmm ?v) = (a, pmm)" by (cases "pmm_alloc_page (vm_pmm ?v)")
  have "free_set (vm_pmm ?v) \<noteq> {}" using card by auto
  then have a: "a \<noteq> 0" using alloc_null [OF inv] al by auto
  obtain f where f: "f \<in> free_set (vm_pmm ?v)" "pmm_inv pmm" "free_set pmm = free_set (vm_pmm ?v) - {f}"
    by (rule alloc_frame_address [OF inv al a])
  let ?v1 = "?v\<lparr>vm_pmm := pmm\<rparr>"
  have ok1: "vm_inv ?v1" using vm_ok_pmm(1) [OF v f(2)] f(3) by (simp add: active_root_pmm)
  obtain b v2 where m: "page_table_map HEAP_START_ADDRESS a PAGE_WRITABLE ?v1 = (b, v2)"
    by (cases "page_table_map HEAP_START_ADDRESS a PAGE_WRITABLE ?v1")
  have "\<not> null_frame ?v1" using no_null_frame [of ?v1] f(2) off by simp
  moreover have "3 \<le> card (free_set pmm)" using card f by simp
  ultimately have b: b
    using page_table_map_effect(5) [OF ok1 m] nb vm_ok_pmm(2) [OF v f(2)] f(3)
    by (auto simp: active_root_pmm)
  have ok2: "vm_inv v2" by (rule vm.map_inv [OF ok1 m])
  define h1 where "h1 = h\<lparr>hp_mm := (hp_mm h)\<lparr>mm_vm := v2\<rparr>, heap_virtual_start := HEAP_START_ADDRESS,
    heap_virtual_end := HEAP_START_ADDRESS + HEAP_INITIAL_SIZE,
    heap_committed_end := HEAP_START_ADDRESS + HEAP_INITIAL_SIZE, heap_start := HEAP_START_ADDRESS,
    heap_vma := Some i, heap_size := HEAP_INITIAL_SIZE, heap_head := HEAP_START_ADDRESS\<rparr>"
  have init: "heap_init h = upd_block HEAP_START_ADDRESS
      (\<lambda>_. \<lparr>blk_size = 4064, blk_free = True, blk_next = 0, blk_prev = 0\<rparr>) h1"
    using al a m b vma
    by (simp add: heap_init_def Let_def page_table_map_page_def h1_def sizeof_heap_block_def HEAP_INITIAL_SIZE_def)
  have "card (free_set (vm_pmm v2)) \<le> 1048576" using ok2 card_free_set_le by (simp add: vm_ok_def)
  then have "heap_room (heap_init h)"
    by (simp add: heap_room_def init upd_block_def h1_def HEAP_START_ADDRESS_def HEAP_INITIAL_SIZE_def)
  moreover have "rep (heap_init h) [(HEAP_START_ADDRESS, 4064, True)]"
    by (simp add: rep_def init upd_block_def h1_def HEAP_START_ADDRESS_def)
  moreover have "wf_segs (unat HEAP_START_ADDRESS) [(HEAP_START_ADDRESS, 4064, True)]
      (unat (HEAP_START_ADDRESS + HEAP_INITIAL_SIZE))"
    by (simp add: wf_segs_def HEAP_START_ADDRESS_def HEAP_INITIAL_SIZE_def)
  ultimately show "heap_ok (heap_init h) [(HEAP_START_ADDRESS, 4064, True)]"
    using ok2 kp page_table_map_regs(1) [OF ok1 m]
    by (simp add: heap_ok_def init upd_block_def h1_def) (simp add: HEAP_START_ADDRESS_def)
  have e: "hp_mm (heap_init h) = (hp_mm h)\<lparr>mm_vm := v2\<rparr>" by (simp add: init upd_block_def h1_def)
  show "mm_vma (hp_mm (heap_init h)) = mm_vma (hp_mm h)" by (simp add: e)
  show "kernel_pml4 (mm_vm (hp_mm (heap_init h))) = kernel_pml4 ?v"
    "kernel_pml4_physical (mm_vm (hp_mm (heap_init h))) = kernel_pml4_physical ?v"
    using page_table_map_regs [OF ok1 m] by (simp_all add: e)
  show "resolve (pte (mm_vm (hp_mm (heap_init h))) (page_table_active_root (mm_vm (hp_mm (heap_init h))))) va =
      resolve (pte ?v (page_table_active_root ?v)) va" if "va_path va \<noteq> va_path HEAP_START_ADDRESS"
    using page_table_map_effect(3) [OF ok1 m, of va] that vm_ok_pmm(2) [OF v f(2)] f(3) by (simp add: e active_root_pmm)
  show "can_grow k (heap_init h)"
    if nb: "\<And>i. i < k \<Longrightarrow> \<not> blocked (pte ?v (page_table_active_root ?v)) (HEAP_START_ADDRESS + HEAP_INITIAL_SIZE + of_nat i * PAGE_SIZE)"
      and n: "4 * (k + 1) \<le> unat (pmm_get_free_pages (vm_pmm ?v))"
  proof -
    have "4 * (k + 1) \<le> card (free_set (vm_pmm ?v))" using n inv by (simp add: pmm_get_free_pages_def pmm_inv_def)
    then have "4 * k \<le> card (free_set (vm_pmm v2))"
      using page_table_map_free(4) [OF ok1 m] taken_frame_card [OF f(1,3)] by simp
    moreover have "pmm_inv (vm_pmm v2)" using ok2 by (simp add: vm_ok_def)
    then have "\<not> null_frame v2" using no_null_frame [of v2] page_table_map_free(2) [OF ok1 m] off by simp
    moreover have "heap_committed_end (heap_init h) = HEAP_START_ADDRESS + HEAP_INITIAL_SIZE" by (simp add: init upd_block_def h1_def)
    ultimately show ?thesis
      using nb page_table_map_effect(6) [OF ok1 m] vm_ok_pmm(2) [OF v f(2)] f(3) by (simp add: can_grow_def e active_root_pmm)
  qed
qed

section \<open>Properties\<close>

definition sample_start :: heap_state where
  "sample_start =
     \<lparr>hp_mm = \<lparr>mm_vm = sample_vm, mm_vma = snd (vma_create HEAP_START_ADDRESS HEAP_INITIAL_SIZE VMA_READ sample_vma)\<rparr>,
      hp_blocks = (\<lambda>_. \<lparr>blk_size = 0, blk_free = False, blk_next = 0, blk_prev = 0\<rparr>), hp_mem = (\<lambda>_. 0),
      heap_head = 0, heap_start = 0, heap_size = 0, heap_virtual_start = 0, heap_virtual_end = 0,
      heap_committed_end = 0, heap_vma = None\<rparr>"

definition sample_heap :: heap_state where
  "sample_heap = heap_init sample_start"

lemma sample_area: "vma_find HEAP_START_ADDRESS (mm_vma (hp_mm sample_start)) = Some 0"
  unfolding sample_start_def by simp code_simp

lemma sample_start_vm: "mm_vm (hp_mm sample_start) = sample_vm" "kernel_pml4 sample_vm \<noteq> 0"
    "unat (hhdm_offset sample_vm) + 2 ^ 32 \<le> 2 ^ 64"
  by (simp_all add: sample_start_def sample_vm_def)

lemma sample_heap_ok: "heap_ok sample_heap [(HEAP_START_ADDRESS, 4064, True)]"
  unfolding sample_heap_def
  by (rule heap_init_ok(1) [where i = 0])
     (use sample_area sample_start_vm sample_vm_ok(1) sample_free in \<open>simp_all add: blocked_def sample_vm_ok(2)\<close>)

lemma sample_can_grow: "can_grow 0 sample_heap"
  unfolding sample_heap_def
  by (rule heap_init_ok(6) [where i = 0])
     (use sample_area sample_start_vm sample_vm_ok(1) sample_free in \<open>simp_all add: blocked_def sample_vm_ok(2)\<close>)

text \<open>The first request that fits is served from the initial block.\<close>

lemma sample_kmalloc:
  assumes "n \<noteq> 0" and "align_size n \<le> 4064"
  shows "\<exists>h'. kmalloc n sample_heap = Some (HEAP_START_ADDRESS + sizeof_heap_block, h')"
proof -
  have nz: "HEAP_START_ADDRESS \<noteq> 0" by (simp add: HEAP_START_ADDRESS_def)
  have h: "heap_head sample_heap = HEAP_START_ADDRESS" "hp_blocks sample_heap HEAP_START_ADDRESS =
      \<lparr>blk_size = 4064, blk_free = True, blk_next = 0, blk_prev = 0\<rparr>"
    using sample_heap_ok by (simp_all add: heap_ok_def rep_def)
  have "coalesce_free_blocks sample_heap = Some sample_heap"
    using h nz coalesce_loop.simps [of 0 sample_heap] coalesce_loop.simps [of HEAP_START_ADDRESS sample_heap]
    by (simp add: coalesce_free_blocks_def)
  moreover have "find_free_block (align_size n) sample_heap = Some HEAP_START_ADDRESS"
    using h nz assms(2) by (simp add: find_free_block_def find_free_block_loop.simps [of _ _ HEAP_START_ADDRESS])
  ultimately show ?thesis using assms(1) nz by (simp add: kmalloc_def kmalloc_loop.simps [of "align_size n" sample_heap])
qed

lemma sample_heap_live: "heap_live sample_heap {}"
  using sample_heap_ok by (auto simp: heap_live_def allocated_def)

lemma heap_live_hp_mem: "heap_live (h\<lparr>hp_mem := m\<rparr>) L \<longleftrightarrow> heap_live h L"
  by (simp add: heap_live_def heap_ok_def rep_def heap_room_def)

lemma layout_aligned:
  assumes "wf_segs s segs e" "(a, n, f) \<in> set segs" shows "16 dvd unat a"
proof -
  have "layout s segs e \<Longrightarrow> 16 dvd s \<Longrightarrow> \<forall>(a, n, f) \<in> set segs. 16 dvd unat n \<Longrightarrow>
      (a, n, f) \<in> set segs \<Longrightarrow> 16 dvd unat a" for s
    by (induction segs arbitrary: s) (auto simp: dvd_add)
  then show ?thesis using assms unfolding wf_segs_def by blast
qed

text \<open>
  C13. \<open>kmalloc\<close> always returns, and it does not return null when the free block at the end of the heap and
  the pages by which the heap can grow hold the request. The pointer is null, with the allocated blocks unchanged, or it is
  16-byte aligned and points to a block of at least the requested size inside the committed heap that
  was not allocated before; the other allocated blocks are exactly those of before, and no payload
  byte is written.
\<close>

theorem kmalloc_correct:
  assumes ok: "heap_ok h segs" and n: "n \<noteq> 0" "unat n + 15 < 2 ^ 64"
  shows "\<exists>p h' segs'. kmalloc n h = Some (p, h') \<and> heap_ok h' segs' \<and> hp_mem h' = hp_mem h \<and>
           ((\<exists>i. unat n + 47 \<le> free_tail segs + 4096 * i \<and> can_grow i h) \<longrightarrow> p \<noteq> 0) \<and>
           (if p = 0 then allocated segs' = allocated segs
            else \<exists>m. n \<le> m \<and> p - 32 \<notin> fst ` allocated segs \<and>
                   allocated segs' = insert (p - 32, m) (allocated segs) \<and> 16 dvd unat p \<and>
                   unat (heap_virtual_start h') + 32 \<le> unat p \<and>
                   unat p + unat m \<le> unat (heap_committed_end h'))"
proof -
  have n': "unat n + 15 < 18446744073709551616" using n(2) by simp
  obtain p h' where k: "kmalloc n h = Some (p, h')" "alloc_post (align_size n) segs h (p, h')"
    by (rule kmalloc_ok [OF ok n(1)])
  obtain segs' where s': "heap_ok h' segs'" "hp_mem h' = hp_mem h"
    and post: "if p = 0 then allocated segs' = allocated segs
        else \<exists>m. align_size n \<le> m \<and> p - sizeof_heap_block \<notin> fst ` allocated segs \<and>
               allocated segs' = insert (p - sizeof_heap_block, m) (allocated segs)"
    using k(2) by (auto simp: alloc_post_def)
  have live: "(\<exists>i. unat n + 47 \<le> free_tail segs + 4096 * i \<and> can_grow i h) \<longrightarrow> p \<noteq> 0"
    using kmalloc_serves [OF ok n(1) n', where k = 0] k(1) by fastforce
  show ?thesis
  proof (cases "p = 0")
    case True
    then show ?thesis using k(1) s' post live by auto
  next
    case False
    then obtain m where m: "align_size n \<le> m" "p - 32 \<notin> fst ` allocated segs"
      "allocated segs' = insert (p - 32, m) (allocated segs)" using post by (auto simp: sizeof_heap_block_def)
    have mem: "(p - 32, m, False) \<in> set segs'" using m(3) by (auto simp: allocated_def)
    have w: "wf_segs (unat (heap_virtual_start h')) segs' (unat (heap_committed_end h'))"
      using s'(1) by (simp add: heap_ok_def)
    have "unat p = unat (p - 32) + 32"
      using heap_payload_bounds(1) [OF s'(1) mem] by (simp add: sizeof_heap_block_def)
    moreover have "16 dvd unat (p - 32)" by (rule layout_aligned [OF w mem])
    moreover have "n \<le> m" using align_size_ge(1) [OF n'] m(1) by simp
    ultimately have "16 dvd unat p" "unat (heap_virtual_start h') + 32 \<le> unat p"
      "unat p + unat m \<le> unat (heap_committed_end h')"
      using heap_payload_bounds(2,3) [OF s'(1) mem] by (simp_all add: dvd_add)
    then show ?thesis using k(1) s' m False \<open>n \<le> m\<close> live by auto
  qed
qed

theorem kmalloc_correct_witness: "\<exists>p h'. kmalloc 100 sample_heap = Some (p, h') \<and> p \<noteq> 0 \<and> 16 dvd unat p"
proof -
  have "\<exists>i. unat (100 :: u64) + 47 \<le> free_tail [(HEAP_START_ADDRESS, 4064, True)] + 4096 * i \<and> can_grow i sample_heap"
    using sample_can_grow by (intro exI [of _ 0]) simp
  then show ?thesis using kmalloc_correct [OF sample_heap_ok, of 100] by (auto split: if_splits)
qed

text \<open>
  C14. Whatever sequence of allocations, of any size, and of frees of held blocks a client runs, every call returns,
  and the regions it holds are pairwise disjoint and disjoint from the blocks that were allocated before. A region has the
  bytes that were asked for, except that a request within 15 bytes of the largest size, which wraps around when it is
  rounded up, may be handed a block with none (\<open>granted\<close>).
\<close>

theorem heap_client_safe:
  assumes "heap_ok h segs"
  shows "\<exists>h' held. ka.serve_all rs (h, []) = Some (h', held) \<and> distinct (map fst held) \<and>
           (\<forall>p n q k. (p, n) \<in> set held \<and> (q, k) \<in> set held \<and> p \<noteq> q \<longrightarrow>
              {unat p..<unat p + unat n} \<inter> {unat q..<unat q + unat k} = {}) \<and>
           (\<forall>p n a k. (p, n) \<in> set held \<and> (a, k) \<in> allocated segs \<longrightarrow> p \<noteq> a + 32 \<and>
              {unat p..<unat p + unat n} \<inter> {unat (a + 32)..<unat (a + 32) + unat k} = {})"
proof -
  define L where "L = (\<lambda>(a, n). (a + sizeof_heap_block, n)) ` allocated segs"
  have "heap_live h L" using assms by (auto simp: heap_live_def L_def)
  then have "ka.holds L (h, [])" by (intro ka.holdsI [where M = "{}"]) simp_all
  then obtain h' held where r: "ka.serve_all rs (h, []) = Some (h', held)" "ka.holds L (h', held)"
    using ka.serve_all_ok by (metis surj_pair)
  have "distinct (map fst held)" using r(2) by (rule ka.holdsE)
  moreover have "(a + 32, k) \<in> L" if "(a, k) \<in> allocated segs" for a k
    using that by (auto simp: L_def sizeof_heap_block_def intro!: image_eqI [where x = "(a, k)"])
  ultimately show ?thesis using r ka.held_disjoint [OF r(2)] ka.held_apart [OF r(2)] by blast
qed

theorem heap_client_safe_witness:
  "\<exists>h' held. ka.serve_all [Malloc 100, Malloc 0, Malloc 5000, Release 0, Malloc (- 1)] (sample_heap, []) = Some (h', held) \<and>
     distinct (map fst held)"
  using heap_client_safe [OF sample_heap_ok] by blast

text \<open>
  C15. \<open>kfree\<close> on a pointer that \<open>kmalloc\<close> handed out returns exactly this block to the heap: it is no
  longer allocated, all other blocks stay allocated with their addresses and sizes, and the block
  list stays well-formed after the merges.
\<close>

theorem kfree_correct:
  assumes "heap_ok h segs" and "(p - 32, m) \<in> allocated segs"
  shows "\<exists>segs'. heap_ok (kfree p h) segs' \<and> allocated segs' = allocated segs - {(p - 32, m)} \<and>
           hp_mem (kfree p h) = hp_mem h"
proof -
  have "hp_mem (kfree p h) = hp_mem h"
    by (simp add: kfree_def Let_def only_blocks_frame(2) [OF only_blocks_ops(3)]
        only_blocks_frame(2) [OF only_blocks_ops(2)] only_blocks_frame(2) [OF only_blocks_ops(1)])
  then show ?thesis
    using kfree_ok [OF assms] by (simp add: sizeof_heap_block_def) blast
qed

lemma sample_used:
  "heap_ok (upd_block HEAP_START_ADDRESS (\<lambda>b. b\<lparr>blk_free := False\<rparr>) sample_heap)
     [(HEAP_START_ADDRESS, 4064, False)]"
proof (rule heap_ok_blocks [OF sample_heap_ok only_blocks_ops(1)])
  have "rep sample_heap ([] @ (HEAP_START_ADDRESS, 4064, True) # [])" using sample_heap_ok by (simp add: heap_ok_def)
  from rep_size [OF this, of False]
  show "rep (upd_block HEAP_START_ADDRESS (\<lambda>b. b\<lparr>blk_free := False\<rparr>) sample_heap)
      [(HEAP_START_ADDRESS, 4064, False)]" by simp
qed (use sample_heap_ok in \<open>auto simp: heap_ok_def wf_segs_def\<close>)

theorem kfree_correct_witness:
  "\<exists>segs. heap_ok (kfree (HEAP_START_ADDRESS + 32)
     (upd_block HEAP_START_ADDRESS (\<lambda>b. b\<lparr>blk_free := False\<rparr>) sample_heap)) segs \<and> allocated segs = {}"
  using kfree_correct [OF sample_used, of "HEAP_START_ADDRESS + 32" 4064] by auto

lemma count_overflow:
  assumes "sz \<noteq> 0"
  shows "count > (- 1 :: u64) div sz \<longleftrightarrow> 18446744073709551616 \<le> unat count * unat sz"
proof -
  have m1: "unat (- 1 :: u64) = 18446744073709551615"
    by (simp add: unsigned_minus_1_eq_mask mask_eq_exp_minus_1)
  have s: "0 < unat sz" using assms by (simp add: unat_gt_0)
  have "count > (- 1) div sz \<longleftrightarrow> 18446744073709551615 div unat sz < unat count"
    by (simp add: word_less_nat_alt unat_div_u64 m1)
  also have "\<dots> \<longleftrightarrow> 18446744073709551615 < unat count * unat sz"
    using s by (simp add: div_less_iff_less_mult)
  finally show ?thesis by linarith
qed

text \<open>
  \<open>kcalloc\<close> returns null without touching the heap when the product of count and size does not fit
  64 bits, and otherwise returns null or a block whose first \<open>count * size\<close> bytes are zero.
\<close>

theorem kcalloc_correct:
  assumes ok: "heap_ok h segs" and n: "unat count * unat sz + 15 < 2 ^ 64 \<or> 2 ^ 64 \<le> unat count * unat sz"
  shows "\<exists>p h' segs'. kcalloc count sz h = Some (p, h') \<and> heap_ok h' segs' \<and>
           (count = 0 \<or> sz = 0 \<or> 2 ^ 64 \<le> unat count * unat sz \<longrightarrow> p = 0 \<and> h' = h) \<and>
           (p \<noteq> 0 \<longrightarrow> (\<forall>x. unat (x - p) < unat count * unat sz \<longrightarrow> hp_mem h' x = 0))"
proof (cases "count = 0 \<or> sz = 0 \<or> 2 ^ 64 \<le> unat count * unat sz")
  case True
  then have "kcalloc count sz h = Some (0, h)"
    using count_overflow [of sz count] by (auto simp: kcalloc_def)
  then show ?thesis using ok by auto
next
  case False
  then have lt: "unat count * unat sz + 15 < 18446744073709551616" and nz: "count \<noteq> 0" "sz \<noteq> 0" using n by auto
  then have prod: "unat (count * sz) = unat count * unat sz" by (simp add: unat_mult_no_wrap)
  have "count * sz \<noteq> 0" using prod nz by (auto simp: u64_eq_iff_unat)
  then obtain p h1 where k: "kmalloc (count * sz) h = Some (p, h1)"
    and post: "alloc_post (align_size (count * sz)) segs h (p, h1)"
    using kmalloc_ok [OF ok] lt prod by (metis (no_types, lifting))
  obtain segs' where ok1: "heap_ok h1 segs'" using post by (auto simp: alloc_post_def)
  let ?h2 = "h1\<lparr>hp_mem := k_memset p 0 (count * sz) (hp_mem h1)\<rparr>"
  have c: "kcalloc count sz h = Some (if p = 0 then (0, h1) else (p, ?h2))"
    using k False count_overflow [OF nz(2), of count] nz by (auto simp: kcalloc_def Let_def)
  have "heap_ok ?h2 segs'" using ok1 by (simp add: heap_ok_def rep_def heap_room_def)
  moreover have "hp_mem ?h2 x = 0" if "unat (x - p) < unat count * unat sz" for x
    using that prod by (simp add: k_memset_apply word_less_nat_alt)
  ultimately show ?thesis using c ok1 False by (cases "p = 0") auto
qed

theorem kcalloc_correct_witness: "kcalloc (2 ^ 63) 4 sample_heap = Some (0, sample_heap)"
  using kcalloc_correct [OF sample_heap_ok, of "2 ^ 63" 4] by auto

text \<open>
  Rounding up to 16 bytes wraps: a request within 15 bytes of the largest size is rounded to 0, so
  \<open>kmalloc\<close> serves it with whatever block is free instead of refusing it.
\<close>

theorem align_size_wraps:
  assumes "2 ^ 64 \<le> unat n + 15"
  shows "align_size n = 0 \<and> kmalloc n h = kmalloc_loop 0 h"
proof -
  have u: "unat (n + 15) = unat n + 15 - 18446744073709551616"
    using assms u64_add_cases [of n 15] by simp
  then have "unat (n + 15) < 16" using unat_lt_2p64 [of n] by simp
  then have "unat (drop_bit 4 (n + 15)) = 0" by (simp add: drop_bit_eq_div unat_div_u64)
  then have d: "drop_bit 4 (n + 15) = 0" by (simp only: unat_eq_0)
  have "align_size n = push_bit 4 (drop_bit 4 (n + 15))"
    unfolding align_size_mask by (rule bit_eqI) (auto simp: bit_simps)
  then have a: "align_size n = 0" by (simp add: d)
  moreover have "n \<noteq> 0" using assms by auto
  ultimately show ?thesis by (simp add: kmalloc_def)
qed

theorem align_size_wraps_witness: "align_size 0xFFFFFFFFFFFFFFFF = 0"
  using align_size_wraps [of "0xFFFFFFFFFFFFFFFF"] by simp

end
