(* ===== verification/Vfs.thy ===== *)
theory Vfs
  imports Heap_Blocks
begin

text \<open>
  The file system layer of \<open>fs/\<close>: path parsing (\<open>path.c\<close>), open files (\<open>file.c\<close>), descriptor tables
  (\<open>fd.c\<close>), the in-memory file system (\<open>ramfs.c\<close>) and the virtual file system switch (\<open>vfs.c\<close>). Nodes,
  open files, mounts and file systems are typed stores indexed by address; a vnode is the first
  member of its ramfs node and has the same address. Strings are the characters before the
  terminating null; a string argument that may be a null pointer is an option. File data and user
  buffers are bytes of the kernel heap. The pointer tables of operations are data types whose values are
  the tables the code defines. Result pointers, which every caller passes, are return values.

  \<open>None\<close> is an execution outside the language: a name of 64 characters or more overruns the name
  field, and a write longer than the buffer of the file overruns that buffer.
\<close>

section \<open>Error codes\<close>

definition KERNEL_SUCCESS :: int where "KERNEL_SUCCESS = 0"
definition KERNEL_EINVAL :: int where "KERNEL_EINVAL = -1"
definition KERNEL_ENOMEM :: int where "KERNEL_ENOMEM = -2"
definition KERNEL_EEXIST :: int where "KERNEL_EEXIST = -3"
definition KERNEL_ENOENT :: int where "KERNEL_ENOENT = -4"
definition KERNEL_ENOTSUP :: int where "KERNEL_ENOTSUP = -5"

lemmas errno_defs = KERNEL_SUCCESS_def KERNEL_EINVAL_def KERNEL_ENOMEM_def KERNEL_EEXIST_def KERNEL_ENOENT_def
  KERNEL_ENOTSUP_def

section \<open>Paths\<close>

definition VFS_MAX_COMPONENT_LEN :: nat where "VFS_MAX_COMPONENT_LEN = 64"

datatype path_result =
    Path_End
  | Path_Too_Long
  | Path_Component string string

fun component_loop :: "nat \<Rightarrow> string \<Rightarrow> string \<Rightarrow> path_result" where
  "component_loop len component [] = Path_Component component []"
| "component_loop len component (c # p) =
     (if c = CHR ''/'' then Path_Component component (c # p)
      else if len \<ge> VFS_MAX_COMPONENT_LEN - 1 then Path_Too_Long
      else component_loop (len + 1) (component @ [c]) p)"

definition path_next_component :: "string \<Rightarrow> path_result" where
  "path_next_component path =
     (let p = dropWhile (\<lambda>c. c = CHR ''/'') path in
      if p = [] then Path_End else component_loop 0 [] p)"

section \<open>Nodes and files\<close>

datatype vnode_type = VNODE_FILE | VNODE_DIRECTORY | VNODE_DEVICE | VNODE_SYMLINK

datatype vnode_operations = No_Vnode_Ops | Ramfs_Vnode_Ops

datatype filesystem_operations = No_Fs_Ops | Ramfs_Fs_Ops

record vnode =
  vn_name :: string
  vn_type :: vnode_type
  vn_size :: u64
  vn_parent :: u64
  vn_fs :: u64
  vn_ops :: vnode_operations
  vn_private_data :: u64

record ramfs_node = vnode +
  rn_children :: "u64 list"
  rn_child_count :: u32
  rn_data :: u64
  rn_capacity :: u64

record open_file =
  file_node :: u64
  file_position :: u64
  file_flags :: u32
  file_refcount :: u32

record filesystem =
  fs_name :: string
  fs_root :: u64
  fs_ops :: filesystem_operations

record mount =
  mnt_fs :: u64
  mnt_mountpoint :: u64
  mnt_root :: u64
  mnt_flags :: u32
  mnt_parent :: u64
  mnt_next :: u64

record fs_state =
  fs_nodes :: "u64 \<Rightarrow> ramfs_node"
  fs_files :: "u64 \<Rightarrow> open_file"
  fs_mounts :: "u64 \<Rightarrow> mount"
  fs_systems :: "u64 \<Rightarrow> filesystem"
  ramfs_root :: u64
  vfs_mount_list :: u64
  vfs_root_mount :: u64

definition RAMFS_MAX_CHILDREN :: nat where "RAMFS_MAX_CHILDREN = 64"

definition sizeof_ramfs_node :: u64 where "sizeof_ramfs_node = 648"
definition sizeof_file :: u64 where "sizeof_file = 24"
definition sizeof_mount :: u64 where "sizeof_mount = 48"

text \<open>A node cleared by \<open>k_memset\<close>.\<close>

definition node_zero :: ramfs_node where
  "node_zero = \<lparr>vn_name = [], vn_type = VNODE_FILE, vn_size = 0, vn_parent = 0, vn_fs = 0, vn_ops = No_Vnode_Ops,
     vn_private_data = 0, rn_children = replicate RAMFS_MAX_CHILDREN 0, rn_child_count = 0, rn_data = 0,
     rn_capacity = 0\<rparr>"

definition set_node :: "u64 \<Rightarrow> ramfs_node \<Rightarrow> fs_state \<Rightarrow> fs_state" where
  "set_node p n s = s\<lparr>fs_nodes := (fs_nodes s)(p := n)\<rparr>"

section \<open>Open files\<close>

definition file_open :: "u64 \<Rightarrow> fs_state \<Rightarrow> heap_state \<Rightarrow> (int \<times> u64 \<times> fs_state \<times> heap_state) option" where
  "file_open node s h =
     (if node = 0 then Some (KERNEL_EINVAL, 0, s, h)
      else do {
        (f, h) \<leftarrow> kmalloc sizeof_file h;
        if f = 0 then Some (KERNEL_ENOMEM, 0, s, h)
        else Some (KERNEL_SUCCESS, f,
               s\<lparr>fs_files := (fs_files s)(f := \<lparr>file_node = node, file_position = 0, file_flags = 0, file_refcount = 1\<rparr>)\<rparr>, h)
      })"

definition file_close :: "u64 \<Rightarrow> heap_state \<Rightarrow> heap_state" where
  "file_close f h = (if f = 0 then h else kfree f h)"

section \<open>The in-memory file system\<close>

definition ramfs_mount :: "u64 \<Rightarrow> fs_state \<Rightarrow> int \<times> fs_state" where
  "ramfs_mount fs s =
     (if fs = 0 then (KERNEL_EINVAL, s)
      else
        let s = set_node (ramfs_root s) (node_zero\<lparr>rn_data := 0, rn_capacity := 0, vn_type := VNODE_DIRECTORY, vn_size := 0,
                  vn_parent := 0, vn_fs := fs, vn_ops := Ramfs_Vnode_Ops, vn_private_data := ramfs_root s,
                  rn_child_count := 0\<rparr>) s;
            s = s\<lparr>fs_systems := (fs_systems s)(fs := (fs_systems s fs)\<lparr>fs_root := ramfs_root s, fs_ops := Ramfs_Fs_Ops\<rparr>)\<rparr>
        in (KERNEL_SUCCESS, s))"

definition ramfs_find_child :: "string \<Rightarrow> ramfs_node \<Rightarrow> fs_state \<Rightarrow> u64 option" where
  "ramfs_find_child name node s =
     find (\<lambda>child. child \<noteq> 0 \<and> vn_name (fs_nodes s child) = name)
       (map (\<lambda>i. rn_children node ! i) [0..<unat (rn_child_count node)])"

definition ramfs_lookup :: "u64 \<Rightarrow> string option \<Rightarrow> fs_state \<Rightarrow> int \<times> u64" where
  "ramfs_lookup dir name s =
     (if dir = 0 then (KERNEL_EINVAL, 0)
      else case name of
        None \<Rightarrow> (KERNEL_EINVAL, 0)
      | Some nm \<Rightarrow>
          let node = vn_private_data (fs_nodes s dir) in
          if node = 0 then (KERNEL_EINVAL, 0)
          else case ramfs_find_child nm (fs_nodes s node) s of
            Some child \<Rightarrow> (KERNEL_SUCCESS, child)
          | None \<Rightarrow> (KERNEL_ENOENT, 0))"

text \<open>\<open>parent->children[parent->child_count++] = child\<close>\<close>

definition add_child :: "u64 \<Rightarrow> u64 \<Rightarrow> fs_state \<Rightarrow> fs_state" where
  "add_child parent child s =
     (let n = fs_nodes s parent in
      set_node parent (n\<lparr>rn_children := (rn_children n)[unat (rn_child_count n) := child],
                         rn_child_count := rn_child_count n + 1\<rparr>) s)"

definition ramfs_mkdir :: "u64 \<Rightarrow> string option \<Rightarrow> fs_state \<Rightarrow> heap_state \<Rightarrow> (int \<times> fs_state \<times> heap_state) option" where
  "ramfs_mkdir dir name s h =
     (if dir = 0 then Some (KERNEL_EINVAL, s, h)
      else case name of
        None \<Rightarrow> Some (KERNEL_EINVAL, s, h)
      | Some nm \<Rightarrow>
          if vn_type (fs_nodes s dir) \<noteq> VNODE_DIRECTORY then Some (KERNEL_ENOTSUP, s, h)
          else
            let parent = vn_private_data (fs_nodes s dir) in
            if parent = 0 then Some (KERNEL_EINVAL, s, h)
            else if fst (ramfs_lookup dir (Some nm) s) = KERNEL_SUCCESS then Some (KERNEL_EEXIST, s, h)
            else if unat (rn_child_count (fs_nodes s parent)) \<ge> RAMFS_MAX_CHILDREN then Some (KERNEL_ENOMEM, s, h)
            else do {
              (child, h) \<leftarrow> kmalloc sizeof_ramfs_node h;
              if child = 0 then Some (KERNEL_ENOMEM, s, h)
              else if length nm \<ge> 64 then None
              else
                let s = set_node child (node_zero\<lparr>vn_type := VNODE_DIRECTORY, vn_name := nm, vn_size := 0, vn_parent := dir,
                          vn_fs := vn_fs (fs_nodes s dir), vn_ops := Ramfs_Vnode_Ops, vn_private_data := child,
                          rn_child_count := 0, rn_data := 0, rn_capacity := 0\<rparr>) s
                in Some (KERNEL_SUCCESS, add_child parent child s, h)
            })"

definition ramfs_create :: "u64 \<Rightarrow> string option \<Rightarrow> fs_state \<Rightarrow> heap_state \<Rightarrow> (int \<times> fs_state \<times> heap_state) option" where
  "ramfs_create dir name s h =
     (if dir = 0 then Some (KERNEL_EINVAL, s, h)
      else case name of
        None \<Rightarrow> Some (KERNEL_EINVAL, s, h)
      | Some nm \<Rightarrow>
          if vn_type (fs_nodes s dir) \<noteq> VNODE_DIRECTORY then Some (KERNEL_ENOTSUP, s, h)
          else
            let parent = vn_private_data (fs_nodes s dir) in
            if parent = 0 then Some (KERNEL_EINVAL, s, h)
            else if fst (ramfs_lookup dir (Some nm) s) = KERNEL_SUCCESS then Some (KERNEL_EEXIST, s, h)
            else if unat (rn_child_count (fs_nodes s parent)) \<ge> RAMFS_MAX_CHILDREN then Some (KERNEL_ENOMEM, s, h)
            else do {
              (child, h) \<leftarrow> kmalloc sizeof_ramfs_node h;
              if child = 0 then Some (KERNEL_ENOMEM, s, h)
              else if length nm \<ge> 64 then None
              else
                let s = set_node child (node_zero\<lparr>rn_data := 0, rn_capacity := 0, vn_type := VNODE_FILE, vn_name := nm,
                          vn_size := 0, vn_parent := dir, vn_fs := vn_fs (fs_nodes s dir), vn_ops := Ramfs_Vnode_Ops,
                          vn_private_data := child, rn_child_count := 0\<rparr>) s
                in Some (KERNEL_SUCCESS, add_child parent child s, h)
            })"

definition ramfs_write :: "u64 \<Rightarrow> u64 \<Rightarrow> u64 \<Rightarrow> fs_state \<Rightarrow> heap_state \<Rightarrow> (int \<times> fs_state \<times> heap_state) option" where
  "ramfs_write f buffer sz s h =
     (if f = 0 \<or> buffer = 0 then Some (KERNEL_EINVAL, s, h)
      else
        let vn = file_node (fs_files s f);
            node = vn_private_data (fs_nodes s vn) in
        if node = 0 then Some (KERNEL_EINVAL, s, h)
        else if vn_type (fs_nodes s vn) \<noteq> VNODE_FILE then Some (KERNEL_ENOTSUP, s, h)
        else do {
          (ok, s, h) \<leftarrow>
            (if rn_data (fs_nodes s node) = 0
             then do {
               (data, h) \<leftarrow> kmalloc sz h;
               let s = set_node node ((fs_nodes s node)\<lparr>rn_data := data\<rparr>) s;
               Some (if data = 0 then (False, s, h)
                     else (True, set_node node ((fs_nodes s node)\<lparr>rn_capacity := sz\<rparr>) s, h))
             }
             else Some (True, s, h));
          if \<not> ok then Some (KERNEL_ENOMEM, s, h)
          else if sz > rn_capacity (fs_nodes s node) then None
          else
            let h = h\<lparr>hp_mem := k_memcpy (rn_data (fs_nodes s node)) buffer sz (hp_mem h)\<rparr>;
                s = set_node node ((fs_nodes s node)\<lparr>vn_size := sz\<rparr>) s;
                s = s\<lparr>fs_files := (fs_files s)(f := (fs_files s f)\<lparr>file_position := sz\<rparr>)\<rparr>
            in Some (KERNEL_SUCCESS, s, h)
        })"

definition ramfs_read :: "u64 \<Rightarrow> u64 \<Rightarrow> u64 \<Rightarrow> fs_state \<Rightarrow> heap_state \<Rightarrow> int \<times> fs_state \<times> heap_state" where
  "ramfs_read f buffer sz s h =
     (if f = 0 \<or> buffer = 0 then (KERNEL_EINVAL, s, h)
      else
        let vn = file_node (fs_files s f);
            node = vn_private_data (fs_nodes s vn) in
        if node = 0 then (KERNEL_EINVAL, s, h)
        else if vn_type (fs_nodes s vn) \<noteq> VNODE_FILE then (KERNEL_ENOTSUP, s, h)
        else if rn_data (fs_nodes s node) = 0 then (KERNEL_SUCCESS, s, h)
        else
          let bytes = (if sz > vn_size (fs_nodes s node) then vn_size (fs_nodes s node) else sz);
              h = h\<lparr>hp_mem := k_memcpy buffer (rn_data (fs_nodes s node)) bytes (hp_mem h)\<rparr>;
              s = s\<lparr>fs_files := (fs_files s)(f := (fs_files s f)\<lparr>file_position := file_position (fs_files s f) + bytes\<rparr>)\<rparr>
          in (sint (ucast bytes :: 32 word), s, h))"

definition ramfs_init :: "u64 \<Rightarrow> fs_state \<Rightarrow> int \<times> fs_state" where
  "ramfs_init fs s =
     (if fs = 0 then (KERNEL_EINVAL, s)
      else (KERNEL_SUCCESS,
            s\<lparr>fs_systems := (fs_systems s)(fs := \<lparr>fs_name = ''ramfs'', fs_root = 0, fs_ops = Ramfs_Fs_Ops\<rparr>)\<rparr>))"

section \<open>The virtual file system\<close>

definition vfs_init :: "fs_state \<Rightarrow> fs_state" where
  "vfs_init s = s\<lparr>vfs_mount_list := 0, vfs_root_mount := 0\<rparr>"

definition vfs_mount :: "u64 \<Rightarrow> u64 \<Rightarrow> fs_state \<Rightarrow> heap_state \<Rightarrow> (int \<times> fs_state \<times> heap_state) option" where
  "vfs_mount fs mountpoint s h =
     (if fs = 0 then Some (KERNEL_EINVAL, s, h)
      else if vfs_root_mount s \<noteq> 0 \<and> mountpoint = 0 then Some (KERNEL_EINVAL, s, h)
      else do {
        (m, h) \<leftarrow> kmalloc sizeof_mount h;
        if m = 0 then Some (KERNEL_ENOMEM, s, h)
        else
          let s = s\<lparr>fs_mounts := (fs_mounts s)(m := (fs_mounts s m)\<lparr>mnt_fs := fs, mnt_mountpoint := mountpoint,
                      mnt_next := vfs_mount_list s\<rparr>)\<rparr>;
              s = s\<lparr>vfs_mount_list := m\<rparr>;
              s = (if vfs_root_mount s = 0
                   then s\<lparr>fs_mounts := (fs_mounts s)(m := (fs_mounts s m)\<lparr>mnt_mountpoint := 0\<rparr>), vfs_root_mount := m\<rparr>
                   else s)
          in case fs_ops (fs_systems s fs) of
               No_Fs_Ops \<Rightarrow> Some (KERNEL_SUCCESS, s, h)
             | Ramfs_Fs_Ops \<Rightarrow>
                 case ramfs_mount fs s of (result, s) \<Rightarrow>
                   if result \<noteq> KERNEL_SUCCESS then Some (result, s, h) else Some (KERNEL_SUCCESS, s, h)
      })"

definition vfs_get_root :: "fs_state \<Rightarrow> u64" where
  "vfs_get_root s =
     (if vfs_root_mount s = 0 then 0
      else if mnt_fs (fs_mounts s (vfs_root_mount s)) = 0 then 0
      else fs_root (fs_systems s (mnt_fs (fs_mounts s (vfs_root_mount s)))))"

lemma component_loop_rest:
  "component_loop len acc p = Path_Component c q \<Longrightarrow> length q \<le> length p"
  by (induction len acc p rule: component_loop.induct) (auto split: if_splits)

lemma path_next_component_rest:
  assumes "path_next_component path = Path_Component c rest"
  shows "length rest < length path"
proof -
  define p where "p = dropWhile (\<lambda>c. c = CHR ''/'') path"
  have p: "p \<noteq> []" "component_loop 0 [] p = Path_Component c rest"
    using assms by (auto simp: path_next_component_def p_def Let_def split: if_splits)
  then obtain x q where x: "p = x # q" "x \<noteq> CHR ''/''"
    by (cases p) (auto simp: p_def dropWhile_eq_Cons_conv)
  then have "length rest \<le> length q"
    using p(2) component_loop_rest by (auto simp: VFS_MAX_COMPONENT_LEN_def)
  moreover have "length p \<le> length path" by (simp add: p_def length_dropWhile_le)
  ultimately show ?thesis using x by simp
qed

text \<open>The loop of \<open>vfs_lookup\<close>: every turn consumes a component of the path, so it always ends.\<close>

function vfs_lookup_loop :: "u64 \<Rightarrow> string \<Rightarrow> fs_state \<Rightarrow> int \<times> u64" where
  "vfs_lookup_loop current cursor s =
     (case path_next_component cursor of
        Path_End \<Rightarrow> (KERNEL_SUCCESS, current)
      | Path_Too_Long \<Rightarrow> (KERNEL_EINVAL, 0)
      | Path_Component component rest \<Rightarrow>
          case vn_ops (fs_nodes s current) of
            No_Vnode_Ops \<Rightarrow> (KERNEL_ENOTSUP, 0)
          | Ramfs_Vnode_Ops \<Rightarrow>
              case ramfs_lookup current (Some component) s of (rc, next) \<Rightarrow>
                if rc \<noteq> KERNEL_SUCCESS then (rc, 0) else vfs_lookup_loop next rest s)"
  by pat_completeness auto
termination
  by (relation "measure (\<lambda>(current, cursor, s). length cursor)") (auto dest: path_next_component_rest)

declare vfs_lookup_loop.simps [simp del]

definition vfs_lookup :: "string option \<Rightarrow> fs_state \<Rightarrow> int \<times> u64" where
  "vfs_lookup path s =
     (case path of
        None \<Rightarrow> (KERNEL_EINVAL, 0)
      | Some p \<Rightarrow>
          let current = vfs_get_root s in
          if current = 0 then (KERNEL_ENOENT, 0)
          else if p = ''/'' then (KERNEL_SUCCESS, current)
          else vfs_lookup_loop current p s)"

definition vfs_open :: "string option \<Rightarrow> fs_state \<Rightarrow> heap_state \<Rightarrow> (int \<times> u64 \<times> fs_state \<times> heap_state) option" where
  "vfs_open path s h =
     (case path of
        None \<Rightarrow> Some (KERNEL_EINVAL, 0, s, h)
      | Some p \<Rightarrow>
          case vfs_lookup (Some p) s of (rc, node) \<Rightarrow>
            if rc \<noteq> KERNEL_SUCCESS then Some (rc, 0, s, h) else file_open node s h)"

definition vfs_write :: "u64 \<Rightarrow> u64 \<Rightarrow> u64 \<Rightarrow> fs_state \<Rightarrow> heap_state \<Rightarrow> (int \<times> fs_state \<times> heap_state) option" where
  "vfs_write f buffer sz s h =
     (if f = 0 then Some (KERNEL_EINVAL, s, h)
      else if file_node (fs_files s f) = 0 then Some (KERNEL_EINVAL, s, h)
      else case vn_ops (fs_nodes s (file_node (fs_files s f))) of
        No_Vnode_Ops \<Rightarrow> Some (KERNEL_ENOTSUP, s, h)
      | Ramfs_Vnode_Ops \<Rightarrow> ramfs_write f buffer sz s h)"

definition vfs_read :: "u64 \<Rightarrow> u64 \<Rightarrow> u64 \<Rightarrow> fs_state \<Rightarrow> heap_state \<Rightarrow> int \<times> fs_state \<times> heap_state" where
  "vfs_read f buffer sz s h =
     (if f = 0 then (KERNEL_EINVAL, s, h)
      else if file_node (fs_files s f) = 0 then (KERNEL_EINVAL, s, h)
      else case vn_ops (fs_nodes s (file_node (fs_files s f))) of
        No_Vnode_Ops \<Rightarrow> (KERNEL_ENOTSUP, s, h)
      | Ramfs_Vnode_Ops \<Rightarrow> ramfs_read f buffer sz s h)"

section \<open>Descriptor tables\<close>

definition FD_MAX :: nat where "FD_MAX = 64"

definition fd_init :: "u64 list \<Rightarrow> u64 list" where
  "fd_init table = replicate FD_MAX 0"

definition fd_get :: "u64 list \<Rightarrow> int \<Rightarrow> u64" where
  "fd_get table fd = (if fd < 0 \<or> fd \<ge> int FD_MAX then 0 else table ! nat fd)"

definition fd_allocate :: "u64 list \<Rightarrow> u64 \<Rightarrow> int \<times> u64 list" where
  "fd_allocate table f =
     (if f = 0 then (KERNEL_EINVAL, table)
      else case find (\<lambda>fd. table ! fd = 0) [0..<FD_MAX] of
        Some fd \<Rightarrow> (int fd, table[fd := f])
      | None \<Rightarrow> (KERNEL_ENOMEM, table))"

definition fd_close :: "u64 list \<Rightarrow> int \<Rightarrow> int \<times> u64 list" where
  "fd_close table fd =
     (if fd < 0 \<or> fd \<ge> int FD_MAX then (KERNEL_EINVAL, table)
      else if table ! nat fd = 0 then (KERNEL_EINVAL, table)
      else (KERNEL_SUCCESS, table[nat fd := 0]))"

end
