(* ===== verification/Ramfs_Tree.thy ===== *)
theory Ramfs_Tree
  imports Vfs
begin

text \<open>
  The file system as a tree of named entries. \<open>components\<close> is the meaning of a path, the non-empty words
  between slashes; \<open>entries\<close> is the meaning of a directory, a finite map from names to nodes; \<open>resolve_path\<close>
  follows one through the other. \<open>vfs_lookup\<close> is shown to compute \<open>resolve_path\<close>, creating a file or a
  directory to add exactly one entry, and reading to return what was written.
\<close>

section \<open>The words of a path\<close>

fun words :: "string \<Rightarrow> string list" where
  "words [] = [[]]"
| "words (c # p) = (if c = CHR ''/'' then [] # words p
     else (case words p of [] \<Rightarrow> [[c]] | w # ws \<Rightarrow> (c # w) # ws))"

definition components :: "string \<Rightarrow> string list" where
  "components p = filter (\<lambda>w. w \<noteq> []) (words p)"

abbreviation slash :: "char \<Rightarrow> bool" where
  "slash c \<equiv> c = CHR ''/''"

lemma words_not_Nil [simp]: "words p \<noteq> []"
  by (induction p) (auto split: list.splits)

lemma words_unfold:
  "words p = takeWhile (\<lambda>c. \<not> slash c) p #
     (case dropWhile (\<lambda>c. \<not> slash c) p of [] \<Rightarrow> [] | c # q \<Rightarrow> words q)"
  by (induction p) auto

lemma components_Nil [simp]: "components [] = []"
  by (simp add: components_def)

lemma components_skip: "components (dropWhile slash p) = components p"
  by (induction p) (auto simp: components_def)

lemma components_unfold:
  assumes "p \<noteq> []" and "\<not> slash (hd p)"
  shows "components p = takeWhile (\<lambda>c. \<not> slash c) p # components (dropWhile (\<lambda>c. \<not> slash c) p)"
proof -
  have "takeWhile (\<lambda>c. \<not> slash c) p \<noteq> []" using assms by (cases p) auto
  moreover have "filter (\<lambda>w. w \<noteq> []) (case dropWhile (\<lambda>c. \<not> slash c) p of [] \<Rightarrow> [] | c # q \<Rightarrow> words q) =
      components (dropWhile (\<lambda>c. \<not> slash c) p)"
  proof (cases "dropWhile (\<lambda>c. \<not> slash c) p")
    case (Cons c q)
    then have "slash c" using hd_dropWhile [of "\<lambda>c. \<not> slash c" p] by simp
    then show ?thesis using Cons by (simp add: components_def)
  next
    case Nil
    then show ?thesis unfolding Nil by simp
  qed
  ultimately show ?thesis
    unfolding components_def [of p] words_unfold [of p] by simp
qed

lemma component_loop_eq:
  assumes "len \<le> 63"
  shows "component_loop len acc p =
    (if len + length (takeWhile (\<lambda>c. \<not> slash c) p) \<le> 63
     then Path_Component (acc @ takeWhile (\<lambda>c. \<not> slash c) p) (dropWhile (\<lambda>c. \<not> slash c) p)
     else Path_Too_Long)"
  using assms
  by (induction len acc p rule: component_loop.induct) (auto simp: VFS_MAX_COMPONENT_LEN_def)

lemma hd_dropWhile_slash: "dropWhile slash p \<noteq> [] \<Longrightarrow> \<not> slash (hd (dropWhile slash p))"
  by (rule hd_dropWhile)

text \<open>One call of \<open>path_next_component\<close> takes the first component off the path.\<close>

lemma path_next_component_eq:
  "path_next_component p =
     (case components p of
        [] \<Rightarrow> Path_End
      | w # ws \<Rightarrow> if length w \<le> 63 then Path_Component w (dropWhile (\<lambda>c. \<not> slash c) (dropWhile slash p)) else Path_Too_Long)"
  and path_next_component_more: "components p = w # ws \<Longrightarrow> components (dropWhile (\<lambda>c. \<not> slash c) (dropWhile slash p)) = ws"
proof -
  define q where "q = dropWhile slash p"
  have c: "components p = components q" by (simp add: q_def components_skip)
  have *: "components q = takeWhile (\<lambda>c. \<not> slash c) q # components (dropWhile (\<lambda>c. \<not> slash c) q)" if "q \<noteq> []"
    by (rule components_unfold [OF that]) (use that hd_dropWhile_slash in \<open>auto simp: q_def\<close>)
  show "path_next_component p =
     (case components p of
        [] \<Rightarrow> Path_End
      | w # ws \<Rightarrow> if length w \<le> 63 then Path_Component w (dropWhile (\<lambda>c. \<not> slash c) (dropWhile slash p)) else Path_Too_Long)"
    using * component_loop_eq [of 0 "[]" q]
    by (cases "q = []") (auto simp: path_next_component_def q_def [symmetric] c Let_def)
  show "components p = w # ws \<Longrightarrow> components (dropWhile (\<lambda>c. \<not> slash c) (dropWhile slash p)) = ws"
    using * c by (cases "q = []") (auto simp: q_def [symmetric])
qed

lemma words_append_slash: "words (p @ CHR ''/'' # q) = words p @ words q"
  by (induction p) (auto split: list.split)

lemma words_word: "CHR ''/'' \<notin> set w \<Longrightarrow> words w = [w]"
  by (induction w) auto

lemma components_append:
  "CHR ''/'' \<notin> set w \<Longrightarrow> w \<noteq> [] \<Longrightarrow> components (p @ CHR ''/'' # w) = components p @ [w]"
  by (simp add: components_def words_append_slash words_word)

section \<open>Directories as maps\<close>

definition children :: "fs_state \<Rightarrow> u64 \<Rightarrow> u64 list" where
  "children s n = take (unat (rn_child_count (fs_nodes s n))) (rn_children (fs_nodes s n))"

definition child_names :: "fs_state \<Rightarrow> u64 \<Rightarrow> string list" where
  "child_names s n = map (\<lambda>c. vn_name (fs_nodes s c)) (children s n)"

definition entries :: "fs_state \<Rightarrow> u64 \<Rightarrow> string \<rightharpoonup> u64" where
  "entries s n = map_of (zip (child_names s n) (children s n))"

fun resolve_path :: "fs_state \<Rightarrow> u64 \<Rightarrow> string list \<Rightarrow> u64 option" where
  "resolve_path s n [] = Some n"
| "resolve_path s n (c # cs) = (case entries s n c of None \<Rightarrow> None | Some m \<Rightarrow> resolve_path s m cs)"

text \<open>The nodes of a well-formed tree: every one has its own address as private data, at most 64 children,
  all of them nodes of the tree with different names, and only directories have children.\<close>

definition node_ok :: "fs_state \<Rightarrow> u64 set \<Rightarrow> u64 \<Rightarrow> bool" where
  "node_ok s N n \<longleftrightarrow> n \<noteq> 0 \<and> vn_private_data (fs_nodes s n) = n \<and> vn_ops (fs_nodes s n) = Ramfs_Vnode_Ops \<and>
     length (rn_children (fs_nodes s n)) = 64 \<and> unat (rn_child_count (fs_nodes s n)) \<le> 64 \<and>
     set (children s n) \<subseteq> N \<and> distinct (child_names s n) \<and>
     (vn_type (fs_nodes s n) \<noteq> VNODE_DIRECTORY \<longrightarrow> rn_child_count (fs_nodes s n) = 0)"

definition fs_tree :: "fs_state \<Rightarrow> u64 set \<Rightarrow> bool" where
  "fs_tree s N \<longleftrightarrow> (\<forall>n \<in> N. node_ok s N n)"

lemma node_ok_children: "node_ok s N n \<Longrightarrow> length (children s n) = unat (rn_child_count (fs_nodes s n))"
  by (simp add: node_ok_def children_def)

lemma map_nth_take: "n \<le> length xs \<Longrightarrow> map (\<lambda>i. xs ! i) [0..<n] = take n xs"
  by (simp add: list_eq_iff_nth_eq)

lemma find_map_of:
  "find (\<lambda>c. f c = x) cs = map_of (zip (map f cs) cs) x"
  by (induction cs) auto

lemma find_cong_set: "(\<And>c. c \<in> set cs \<Longrightarrow> P c = Q c) \<Longrightarrow> find P cs = find Q cs"
  by (induction cs) auto

lemma ramfs_find_child_eq:
  assumes "fs_tree s N" and "n \<in> N"
  shows "ramfs_find_child nm (fs_nodes s n) s = entries s n nm"
proof -
  have ok: "node_ok s N n" using assms by (simp add: fs_tree_def)
  then have "map (\<lambda>i. rn_children (fs_nodes s n) ! i) [0..<unat (rn_child_count (fs_nodes s n))] = children s n"
    by (simp add: node_ok_def children_def map_nth_take)
  moreover have "c \<noteq> 0" if "c \<in> set (children s n)" for c
    using that ok assms by (auto simp: node_ok_def fs_tree_def)
  then have "find (\<lambda>c. c \<noteq> 0 \<and> vn_name (fs_nodes s c) = nm) (children s n) =
      find (\<lambda>c. vn_name (fs_nodes s c) = nm) (children s n)"
    by (intro find_cong_set) auto
  ultimately show ?thesis by (simp add: ramfs_find_child_def entries_def child_names_def find_map_of)
qed

lemma ramfs_lookup_eq:
  assumes "fs_tree s N" and "n \<in> N"
  shows "ramfs_lookup n (Some nm) s =
    (case entries s n nm of Some c \<Rightarrow> (KERNEL_SUCCESS, c) | None \<Rightarrow> (KERNEL_ENOENT, 0))"
  using assms ramfs_find_child_eq [OF assms, of nm]
  by (auto simp: ramfs_lookup_def fs_tree_def node_ok_def)

lemma entries_children: "entries s n nm = Some c \<Longrightarrow> c \<in> set (children s n) \<and> vn_name (fs_nodes s c) = nm"
  by (auto simp: entries_def child_names_def zip_map1 zip_same dest!: map_of_SomeD)

lemma entries_mem: "fs_tree s N \<Longrightarrow> n \<in> N \<Longrightarrow> entries s n nm = Some c \<Longrightarrow> c \<in> N"
  using entries_children unfolding fs_tree_def node_ok_def by blast

lemma resolve_path_mem: "fs_tree s N \<Longrightarrow> n \<in> N \<Longrightarrow> resolve_path s n cs = Some m \<Longrightarrow> m \<in> N"
  by (induction cs arbitrary: n) (auto dest: entries_mem split: option.splits)

lemma resolve_path_append: "resolve_path s n (cs @ ds) = (case resolve_path s n cs of None \<Rightarrow> None | Some m \<Rightarrow> resolve_path s m ds)"
  by (induction cs arbitrary: n) (auto split: option.split)

lemma vfs_lookup_loop_eq:
  assumes "fs_tree s N" and "n \<in> N" and "\<forall>w \<in> set (components p). length w \<le> 63"
  shows "vfs_lookup_loop n p s =
    (case resolve_path s n (components p) of Some m \<Rightarrow> (KERNEL_SUCCESS, m) | None \<Rightarrow> (KERNEL_ENOENT, 0))"
  using assms
proof (induction "components p" arbitrary: p n)
  case Nil
  then show ?case using path_next_component_eq [of p] by (subst vfs_lookup_loop.simps) (simp flip: Nil(1))
next
  case (Cons w ws)
  define q where "q = dropWhile (\<lambda>c. \<not> slash c) (dropWhile slash p)"
  have p: "components p = w # ws" using Cons.hyps(2) by simp
  have q: "components q = ws" using path_next_component_more [OF p] by (simp add: q_def)
  have next1: "path_next_component p = Path_Component w q"
    using path_next_component_eq [of p] Cons.prems(3) by (simp add: p q_def)
  have ops: "vn_ops (fs_nodes s n) = Ramfs_Vnode_Ops" using Cons.prems by (simp add: fs_tree_def node_ok_def)
  show ?case
  proof (cases "entries s n w")
    case None
    then show ?thesis using ramfs_lookup_eq [OF Cons.prems(1,2), of w] next1 ops p
      by (subst vfs_lookup_loop.simps) (simp add: errno_defs)
  next
    case (Some m)
    have m: "m \<in> N" by (rule entries_mem [OF Cons.prems(1,2) Some])
    have "vfs_lookup_loop n p s = vfs_lookup_loop m q s"
      using ramfs_lookup_eq [OF Cons.prems(1,2), of w] next1 ops Some
      by (subst vfs_lookup_loop.simps) simp
    moreover have "vfs_lookup_loop m q s =
        (case resolve_path s m (components q) of Some m \<Rightarrow> (KERNEL_SUCCESS, m) | None \<Rightarrow> (KERNEL_ENOENT, 0))"
      by (rule Cons.hyps(1)) (use q m Cons.prems p in auto)
    ultimately show ?thesis using Some p q by simp
  qed
qed

lemma components_root: "components ''/'' = []"
  by (simp add: components_def)

lemma vfs_lookup_eq:
  assumes "fs_tree s N" and "vfs_get_root s \<in> N" and "\<forall>w \<in> set (components p). length w \<le> 63"
  shows "vfs_lookup (Some p) s =
    (case resolve_path s (vfs_get_root s) (components p) of Some m \<Rightarrow> (KERNEL_SUCCESS, m) | None \<Rightarrow> (KERNEL_ENOENT, 0))"
proof -
  have "vfs_get_root s \<noteq> 0" using assms by (auto simp: fs_tree_def node_ok_def)
  then show ?thesis using vfs_lookup_loop_eq [OF assms] components_root by (auto simp: vfs_lookup_def Let_def)
qed

section \<open>Creating entries\<close>

text \<open>Files and directories are created alike; only the type of the new node differs.\<close>

definition new_node :: "vnode_type \<Rightarrow> u64 \<Rightarrow> string \<Rightarrow> u64 \<Rightarrow> fs_state \<Rightarrow> ramfs_node" where
  "new_node ty dir nm c s = node_zero\<lparr>vn_type := ty, vn_name := nm, vn_parent := dir, vn_fs := vn_fs (fs_nodes s dir),
     vn_ops := Ramfs_Vnode_Ops, vn_private_data := c\<rparr>"

definition linked_node :: "vnode_type \<Rightarrow> u64 \<Rightarrow> string \<Rightarrow> u64 \<Rightarrow> fs_state \<Rightarrow> fs_state" where
  "linked_node ty dir nm c s = add_child (vn_private_data (fs_nodes s dir)) c (set_node c (new_node ty dir nm c s) s)"

definition ramfs_new :: "vnode_type \<Rightarrow> u64 \<Rightarrow> string \<Rightarrow> fs_state \<Rightarrow> heap_state \<Rightarrow> (int \<times> fs_state \<times> heap_state) option" where
  "ramfs_new ty dir nm s h =
     (if dir = 0 then Some (KERNEL_EINVAL, s, h)
      else if vn_type (fs_nodes s dir) \<noteq> VNODE_DIRECTORY then Some (KERNEL_ENOTSUP, s, h)
      else
        let parent = vn_private_data (fs_nodes s dir) in
        if parent = 0 then Some (KERNEL_EINVAL, s, h)
        else if fst (ramfs_lookup dir (Some nm) s) = KERNEL_SUCCESS then Some (KERNEL_EEXIST, s, h)
        else if unat (rn_child_count (fs_nodes s parent)) \<ge> RAMFS_MAX_CHILDREN then Some (KERNEL_ENOMEM, s, h)
        else do {
          (c, h) \<leftarrow> kmalloc sizeof_ramfs_node h;
          if c = 0 then Some (KERNEL_ENOMEM, s, h)
          else if length nm \<ge> 64 then None
          else Some (KERNEL_SUCCESS, linked_node ty dir nm c s, h)
        })"

lemma ramfs_create_new: "ramfs_create dir (Some nm) s h = ramfs_new VNODE_FILE dir nm s h"
  by (cases "kmalloc sizeof_ramfs_node h")
     (auto simp: ramfs_create_def ramfs_new_def linked_node_def new_node_def node_zero_def Let_def)

lemma ramfs_mkdir_new: "ramfs_mkdir dir (Some nm) s h = ramfs_new VNODE_DIRECTORY dir nm s h"
  by (cases "kmalloc sizeof_ramfs_node h")
     (auto simp: ramfs_mkdir_def ramfs_new_def linked_node_def new_node_def node_zero_def Let_def)

lemma take_update: "n < length xs \<Longrightarrow> take (Suc n) (xs[n := x]) = take n xs @ [x]"
  by (simp add: take_Suc_conv_app_nth)

text \<open>The effect of linking a fresh node \<open>c\<close> into the directory \<open>dir\<close>.\<close>

lemma linked_node_nodes:
  assumes "fs_tree s N" "dir \<in> N" "c \<notin> N"
  shows "fs_nodes (linked_node ty dir nm c s) x =
    (if x = dir then (fs_nodes s dir)\<lparr>rn_children := (rn_children (fs_nodes s dir))[unat (rn_child_count (fs_nodes s dir)) := c],
         rn_child_count := rn_child_count (fs_nodes s dir) + 1\<rparr>
     else if x = c then new_node ty dir nm c s else fs_nodes s x)"
  using assms by (auto simp: linked_node_def add_child_def set_node_def Let_def fs_tree_def node_ok_def)

lemma linked_node_children:
  assumes "fs_tree s N" "dir \<in> N" "c \<notin> N" "unat (rn_child_count (fs_nodes s dir)) < 64"
  shows "children (linked_node ty dir nm c s) x =
    (if x = dir then children s dir @ [c] else if x = c then [] else children s x)"
proof -
  have ok: "node_ok s N dir" using assms by (simp add: fs_tree_def)
  have "unat (rn_child_count (fs_nodes s dir) + 1) = Suc (unat (rn_child_count (fs_nodes s dir)))"
    using assms(4) by (simp add: unat_word_ariths)
  moreover have "unat (rn_child_count (fs_nodes s dir)) < length (rn_children (fs_nodes s dir))"
    using ok assms(4) by (simp add: node_ok_def)
  ultimately show ?thesis using assms
    by (simp add: children_def linked_node_nodes [OF assms(1-3)] take_update new_node_def node_zero_def)
qed

lemma linked_node_names:
  assumes t: "fs_tree s N" "dir \<in> N" "c \<notin> N" and n: "unat (rn_child_count (fs_nodes s dir)) < 64"
    and x: "x \<in> insert c N"
  shows "child_names (linked_node ty dir nm c s) x =
    (if x = dir then child_names s dir @ [nm] else if x = c then [] else child_names s x)"
proof -
  have "vn_name (fs_nodes (linked_node ty dir nm c s) y) = (if y = c then nm else vn_name (fs_nodes s y))" for y
    using t by (auto simp: linked_node_nodes [OF t] new_node_def)
  moreover have "c \<notin> set (children s d)" if "d \<in> N" for d
    using that t by (auto simp: fs_tree_def node_ok_def)
  ultimately show ?thesis
    using t x by (auto simp: child_names_def linked_node_children [OF t n])
qed

lemma linked_node_entries:
  assumes t: "fs_tree s N" "dir \<in> N" "c \<notin> N" and n: "unat (rn_child_count (fs_nodes s dir)) < 64"
    and fresh: "entries s dir nm = None"
  shows "entries (linked_node ty dir nm c s) dir = (entries s dir)(nm \<mapsto> c)"
    and "entries (linked_node ty dir nm c s) c = Map.empty"
    and "d \<in> N \<Longrightarrow> d \<noteq> dir \<Longrightarrow> entries (linked_node ty dir nm c s) d = entries s d"
proof -
  let ?s = "linked_node ty dir nm c s"
  have "length (child_names s dir) = length (children s dir)" by (simp add: child_names_def)
  then have "entries ?s dir = [nm \<mapsto> c] ++ entries s dir"
    using t by (simp add: entries_def linked_node_children [OF t n] linked_node_names [OF t n])
  then show "entries ?s dir = (entries s dir)(nm \<mapsto> c)"
    using fresh by (auto simp: map_add_def fun_eq_iff split: option.split)
  show "entries ?s c = Map.empty"
    using t by (auto simp: entries_def linked_node_children [OF t n])
  show "entries ?s d = entries s d" if "d \<in> N" "d \<noteq> dir" for d
    using that t by (auto simp: entries_def linked_node_children [OF t n] linked_node_names [OF t n])
qed

lemma linked_node_tree:
  assumes t: "fs_tree s N" "dir \<in> N" "c \<notin> N" and n: "unat (rn_child_count (fs_nodes s dir)) < 64"
    and fresh: "entries s dir nm = None" and c: "c \<noteq> 0" and ty: "vn_type (fs_nodes s dir) = VNODE_DIRECTORY"
  shows "fs_tree (linked_node ty' dir nm c s) (insert c N)"
proof -
  let ?s = "linked_node ty' dir nm c s"
  note eqs = linked_node_nodes [OF t] linked_node_children [OF t n] linked_node_names [OF t n]
  have "node_ok ?s (insert c N) d" if d: "d \<in> N" "d \<noteq> dir" for d
    using d t c by (auto simp: node_ok_def fs_tree_def eqs)
  moreover have "node_ok ?s (insert c N) c"
    using t c by (auto simp: node_ok_def eqs new_node_def node_zero_def RAMFS_MAX_CHILDREN_def)
  moreover have "node_ok ?s (insert c N) dir"
  proof -
    have ok: "node_ok s N dir" using t by (simp add: fs_tree_def)
    have "unat (rn_child_count (fs_nodes s dir) + 1) \<le> 64" using n by (simp add: unat_word_ariths)
    moreover have "nm \<notin> set (child_names s dir)"
      using fresh by (simp add: entries_def child_names_def map_of_zip_is_None)
    ultimately show ?thesis using ok ty t by (auto simp: node_ok_def eqs)
  qed
  ultimately show ?thesis by (auto simp: fs_tree_def)
qed

section \<open>The interface of a name space\<close>

text \<open>
  What path resolution relies on: the nodes of a state are closed under lookup, and creating an entry
  binds one name of one directory to a node that had no entries. Every path that could be resolved
  still leads to the same node, and the new path leads to the new node.
\<close>

locale name_space =
  fixes inv :: "'s \<Rightarrow> bool"
    and nodes :: "'s \<Rightarrow> 'n set"
    and lookup :: "'s \<Rightarrow> 'n \<Rightarrow> 'k \<Rightarrow> 'n option"
    and walk :: "'s \<Rightarrow> 'n \<Rightarrow> 'k list \<Rightarrow> 'n option"
    and created :: "'n \<Rightarrow> 'k \<Rightarrow> 'n \<Rightarrow> 's \<Rightarrow> 's \<Rightarrow> bool"
  assumes lookup_closed: "inv s \<Longrightarrow> n \<in> nodes s \<Longrightarrow> lookup s n k = Some m \<Longrightarrow> m \<in> nodes s"
    and walk_Nil: "walk s n [] = Some n"
    and walk_Cons: "walk s n (k # ks) = (case lookup s n k of None \<Rightarrow> None | Some m \<Rightarrow> walk s m ks)"
    and created_lookup: "inv s \<Longrightarrow> created d k c s s' \<Longrightarrow> n \<in> nodes s \<Longrightarrow>
           lookup s' n k' = (if n = d \<and> k' = k then Some c else lookup s n k')"
    and created_fresh: "inv s \<Longrightarrow> created d k c s s' \<Longrightarrow> d \<in> nodes s \<and> lookup s d k = None"
    and created_inv: "inv s \<Longrightarrow> created d k c s s' \<Longrightarrow> inv s' \<and> nodes s' = insert c (nodes s)"
begin

lemma walk_append: "walk s n (ks @ js) = (case walk s n ks of None \<Rightarrow> None | Some m \<Rightarrow> walk s m js)"
  by (induction ks arbitrary: n) (auto simp: walk_Nil walk_Cons split: option.split)

lemma walk_stable:
  assumes "inv s" "created d k c s s'" "n \<in> nodes s" "walk s n ks = Some m"
  shows "walk s' n ks = Some m"
  using assms(3,4)
proof (induction ks arbitrary: n)
  case Nil
  then show ?case by (simp add: walk_Nil)
next
  case (Cons k' ks)
  then obtain n' where n': "lookup s n k' = Some n'" "walk s n' ks = Some m"
    by (auto simp: walk_Cons split: option.splits)
  have "\<not> (n = d \<and> k' = k)" using n'(1) created_fresh [OF assms(1,2)] by auto
  then have "lookup s' n k' = Some n'" using created_lookup [OF assms(1,2) Cons.prems(1), of k'] n'(1) by auto
  moreover have "n' \<in> nodes s" by (rule lookup_closed [OF assms(1) Cons.prems(1) n'(1)])
  ultimately show ?case using Cons.IH n'(2) by (simp add: walk_Cons)
qed

lemma walk_created:
  assumes "inv s" "created d k c s s'" "n \<in> nodes s" "walk s n ks = Some d"
  shows "walk s' n (ks @ [k]) = Some c"
proof -
  have "d \<in> nodes s" using created_fresh [OF assms(1,2)] by simp
  then show ?thesis using walk_stable [OF assms] created_lookup [OF assms(1,2), of d k]
    by (simp add: walk_append walk_Cons walk_Nil)
qed

end

text \<open>The provider: a file system state together with the set of its nodes.\<close>

fun node_created :: "u64 \<Rightarrow> string \<Rightarrow> u64 \<Rightarrow> fs_state \<times> u64 set \<Rightarrow> fs_state \<times> u64 set \<Rightarrow> bool" where
  "node_created dir nm c (s, N) (s', N') \<longleftrightarrow> dir \<in> N \<and> c \<notin> N \<and> N' = insert c N \<and> fs_tree s' N' \<and>
     entries s dir nm = None \<and> entries s' dir = (entries s dir)(nm \<mapsto> c) \<and> entries s' c = Map.empty \<and>
     (\<forall>d \<in> N. d \<noteq> dir \<longrightarrow> entries s' d = entries s d)"

interpretation rd: name_space "\<lambda>(s, N). fs_tree s N" snd "\<lambda>(s, N). entries s" "\<lambda>(s, N). resolve_path s" node_created
proof unfold_locales
  fix sN sN' :: "fs_state \<times> u64 set" and n d c m k k' ks
  obtain s N s' N' where sN: "sN = (s, N)" "sN' = (s', N')" by fastforce
  show "(case sN of (s, N) \<Rightarrow> resolve_path s) n [] = Some n"
    "(case sN of (s, N) \<Rightarrow> resolve_path s) n (k # ks) =
       (case (case sN of (s, N) \<Rightarrow> entries s) n k of None \<Rightarrow> None | Some m \<Rightarrow> (case sN of (s, N) \<Rightarrow> resolve_path s) m ks)"
    by (simp_all add: sN split: option.split)
  assume inv: "case sN of (s, N) \<Rightarrow> fs_tree s N"
  show "m \<in> snd sN" if "n \<in> snd sN" "(case sN of (s, N) \<Rightarrow> entries s) n k = Some m"
    using inv that entries_mem by (auto simp: sN)
  assume cr: "node_created d k c sN sN'"
  show "(case sN' of (s, N) \<Rightarrow> entries s) n k' =
      (if n = d \<and> k' = k then Some c else (case sN of (s, N) \<Rightarrow> entries s) n k')" if "n \<in> snd sN"
    using cr that by (cases "n = d") (auto simp: sN)
  show "d \<in> snd sN \<and> (case sN of (s, N) \<Rightarrow> entries s) d k = None" using cr by (auto simp: sN)
  show "(case sN' of (s, N) \<Rightarrow> fs_tree s N) \<and> snd sN' = insert c (snd sN)" using cr by (auto simp: sN)
qed

text \<open>
  The nodes other than the static root are live allocations of the heap, which never hands out the
  address of the root.
\<close>

definition heap_nodes :: "fs_state \<Rightarrow> u64 set \<Rightarrow> heap_state \<Rightarrow> bool" where
  "heap_nodes s N h \<longleftrightarrow> (\<exists>L. heap_live h L \<and> N \<subseteq> insert (ramfs_root s) (fst ` L)) \<and>
     (\<forall>p h'. kmalloc sizeof_ramfs_node h = Some (p, h') \<longrightarrow> p \<noteq> ramfs_root s)"

lemma ramfs_new_ok:
  assumes t: "fs_tree s N" "dir \<in> N" and h: "heap_nodes s N h" and nm: "length nm < 64"
    and ty: "vn_type (fs_nodes s dir) = VNODE_DIRECTORY"
  shows "\<exists>rc s' h'. ramfs_new ty' dir nm s h = Some (rc, s', h') \<and>
           (if entries s dir nm \<noteq> None then rc = KERNEL_EEXIST \<and> s' = s \<and> h' = h
            else if 64 \<le> length (children s dir) then rc = KERNEL_ENOMEM \<and> s' = s \<and> h' = h
            else \<exists>c. kmalloc sizeof_ramfs_node h = Some (c, h') \<and>
                 (if c = 0 then rc = KERNEL_ENOMEM \<and> s' = s
                  else rc = KERNEL_SUCCESS \<and> node_created dir nm c (s, N) (s', insert c N) \<and> s' = linked_node ty' dir nm c s))"
proof -
  have dir: "dir \<noteq> 0" "vn_private_data (fs_nodes s dir) = dir" using t by (auto simp: fs_tree_def node_ok_def)
  have count: "length (children s dir) = unat (rn_child_count (fs_nodes s dir))"
    using t node_ok_children by (auto simp: fs_tree_def)
  have look: "fst (ramfs_lookup dir (Some nm) s) = KERNEL_SUCCESS \<longleftrightarrow> entries s dir nm \<noteq> None"
    using ramfs_lookup_eq [OF t, of nm] by (auto simp: errno_defs split: option.split)
  obtain L where L: "heap_live h L" "N \<subseteq> insert (ramfs_root s) (fst ` L)" using h by (auto simp: heap_nodes_def)
  have "sizeof_ramfs_node \<noteq> 0" "unat sizeof_ramfs_node + 15 < 2 ^ 64" by (simp_all add: sizeof_ramfs_node_def)
  then obtain c h' where k: "kmalloc sizeof_ramfs_node h = Some (c, h')" "c \<noteq> 0 \<Longrightarrow> c \<notin> fst ` L"
    using ka.alloc_total [OF L(1)] by (metis (mono_tags))
  have "c \<notin> N" if "c \<noteq> 0" using k(2) [OF that] L(2) h k(1) by (auto simp: heap_nodes_def)
  moreover note linked_node_tree [OF t, where c = c and nm = nm and ty' = ty']
    linked_node_entries [OF t, where c = c and nm = nm and ty = ty']
  ultimately show ?thesis
    using dir ty nm look count k(1) t
    by (auto simp: ramfs_new_def RAMFS_MAX_CHILDREN_def Let_def)
qed

section \<open>Properties\<close>


text \<open>A mounted file system with an empty root directory.\<close>

definition sample_fs :: fs_state where
  "sample_fs = snd (ramfs_mount 0x100 (snd (ramfs_init 0x100 \<lparr>fs_nodes = (\<lambda>_. node_zero),
     fs_files = (\<lambda>_. \<lparr>file_node = 0, file_position = 0, file_flags = 0, file_refcount = 0\<rparr>),
     fs_mounts = (\<lambda>_. \<lparr>mnt_fs = 0x100, mnt_mountpoint = 0, mnt_root = 0, mnt_flags = 0, mnt_parent = 0, mnt_next = 0\<rparr>),
     fs_systems = (\<lambda>_. \<lparr>fs_name = [], fs_root = 0, fs_ops = No_Fs_Ops\<rparr>), ramfs_root = 0x200,
     vfs_mount_list = 0x300, vfs_root_mount = 0x300\<rparr>)))"

lemma sample_fs_tree: "fs_tree sample_fs {0x200}" and sample_fs_root: "vfs_get_root sample_fs = 0x200"
  by (simp_all add: sample_fs_def ramfs_mount_def ramfs_init_def set_node_def fs_tree_def node_ok_def children_def
      child_names_def node_zero_def RAMFS_MAX_CHILDREN_def vfs_get_root_def)

lemma sample_fs_entries: "entries sample_fs 0x200 = Map.empty"
  by (simp add: sample_fs_def ramfs_mount_def ramfs_init_def set_node_def entries_def children_def child_names_def)

text \<open>
  C22. \<open>vfs_lookup\<close> finds exactly the node that the words of the path lead to from the root, and reports
  \<open>KERNEL_ENOENT\<close> when a word on the way is not an entry; it always ends. Words are at most 63
  characters long; repeated, leading and trailing slashes mean nothing.
\<close>

theorem vfs_lookup_resolves:
  assumes "fs_tree s N" and "vfs_get_root s \<in> N" and "\<forall>w \<in> set (components p). length w \<le> 63"
  shows "vfs_lookup (Some p) s =
    (case resolve_path s (vfs_get_root s) (components p) of
       Some n \<Rightarrow> (KERNEL_SUCCESS, n) | None \<Rightarrow> (KERNEL_ENOENT, 0))"
  using assms by (rule vfs_lookup_eq)

theorem vfs_lookup_resolves_witness: "vfs_lookup (Some ''//bin'') sample_fs = (KERNEL_ENOENT, 0)"
  using vfs_lookup_resolves [of sample_fs "{0x200}" "''//bin''", OF sample_fs_tree]
  by (simp add: components_def sample_fs_root sample_fs_entries)

text \<open>
  C23. \<open>ramfs_create\<close> and \<open>ramfs_mkdir\<close> on every branch. A null directory or name is invalid, a node that is not a
  directory is not supported, a name that the directory has is refused, and a directory with 64 children is
  full: all without any change. Otherwise the call fails exactly when the allocator returns null for the 648 bytes of a
  node, and the tree is unchanged; and with memory it succeeds and adds exactly one entry, bound to a new
  empty node of the right type. The tree stays well-formed: no directory has two entries of one
  name. Names have fewer than 64 characters, since the source copies longer ones out of bounds.
\<close>

theorem ramfs_create_adds_entry:
  assumes "fs_tree s N" and "dir = 0 \<or> dir \<in> N" and "heap_nodes s N h" and "\<forall>nm. name = Some nm \<longrightarrow> length nm < 64"
    and "(create, ty) \<in> {(ramfs_create, VNODE_FILE), (ramfs_mkdir, VNODE_DIRECTORY)}"
  shows "\<exists>rc s' h'. create dir name s h = Some (rc, s', h') \<and>
      (case name of
         None \<Rightarrow> rc = KERNEL_EINVAL \<and> s' = s \<and> h' = h
       | Some nm \<Rightarrow>
           if dir = 0 then rc = KERNEL_EINVAL \<and> s' = s \<and> h' = h
           else if vn_type (fs_nodes s dir) \<noteq> VNODE_DIRECTORY then rc = KERNEL_ENOTSUP \<and> s' = s \<and> h' = h
           else if entries s dir nm \<noteq> None then rc = KERNEL_EEXIST \<and> s' = s \<and> h' = h
           else if 64 \<le> length (children s dir) then rc = KERNEL_ENOMEM \<and> s' = s \<and> h' = h
           else \<exists>c. kmalloc 648 h = Some (c, h') \<and>
             (if c = 0 then rc = KERNEL_ENOMEM \<and> s' = s
              else rc = KERNEL_SUCCESS \<and> c \<notin> N \<and> fs_tree s' (insert c N) \<and> entries s' dir = (entries s dir)(nm \<mapsto> c) \<and>
                   entries s' c = Map.empty \<and> vn_type (fs_nodes s' c) = ty \<and>
                   (\<forall>d \<in> N. d \<noteq> dir \<longrightarrow> entries s' d = entries s d)))"
proof (cases "name = None \<or> dir = 0 \<or> vn_type (fs_nodes s dir) \<noteq> VNODE_DIRECTORY")
  case True
  then show ?thesis using assms(5) by (cases name; cases "dir = 0") (auto simp: ramfs_create_def ramfs_mkdir_def)
next
  case False
  then obtain nm where nm: "name = Some nm" "length nm < 64" and dir: "dir \<noteq> 0" "dir \<in> N" "vn_type (fs_nodes s dir) = VNODE_DIRECTORY"
    using assms(2,4) by auto
  have "create dir (Some nm) s h = ramfs_new ty dir nm s h"
    using assms(5) ramfs_create_new ramfs_mkdir_new by auto
  moreover have "vn_type (fs_nodes (linked_node ty dir nm c s) c) = ty" if "c \<notin> N" for c
    using that dir(2) by (auto simp: linked_node_nodes [OF assms(1) dir(2) that] new_node_def)
  moreover obtain rc s' h' where "ramfs_new ty dir nm s h = Some (rc, s', h')"
    and "if entries s dir nm \<noteq> None then rc = KERNEL_EEXIST \<and> s' = s \<and> h' = h
         else if 64 \<le> length (children s dir) then rc = KERNEL_ENOMEM \<and> s' = s \<and> h' = h
         else \<exists>c. kmalloc sizeof_ramfs_node h = Some (c, h') \<and>
              (if c = 0 then rc = KERNEL_ENOMEM \<and> s' = s
               else rc = KERNEL_SUCCESS \<and> node_created dir nm c (s, N) (s', insert c N) \<and> s' = linked_node ty dir nm c s)"
    using ramfs_new_ok [OF assms(1) dir(2) assms(3) nm(2) dir(3), of ty] by blast
  ultimately show ?thesis using nm(1) dir
    by (intro exI [of _ rc] exI [of _ s'] exI [of _ h']) (auto simp: sizeof_ramfs_node_def split: if_splits)
qed

lemma sample_heap_nodes: "heap_nodes sample_fs {0x200} sample_heap"
proof -
  have "p \<noteq> 0x200" if "kmalloc sizeof_ramfs_node sample_heap = Some (p, h')" for p h'
    using kmalloc_above [OF sample_heap_ok _ _ that] by (cases "p = 0") (auto simp: sizeof_ramfs_node_def)
  moreover have "ramfs_root sample_fs = 0x200" by (simp add: sample_fs_def ramfs_mount_def ramfs_init_def set_node_def)
  ultimately show ?thesis using sample_heap_live by (auto simp: heap_nodes_def)
qed

theorem ramfs_create_adds_entry_witness:
  "ramfs_create 0x200 None sample_fs sample_heap = Some (KERNEL_EINVAL, sample_fs, sample_heap) \<and>
   (\<exists>s' h' c. ramfs_mkdir 0x200 (Some ''bin'') sample_fs sample_heap = Some (KERNEL_SUCCESS, s', h') \<and>
     entries s' 0x200 = [''bin'' \<mapsto> c])"
proof
  have d: "vn_type (fs_nodes sample_fs 0x200) = VNODE_DIRECTORY"
    by (simp add: sample_fs_def ramfs_mount_def ramfs_init_def set_node_def)
  have c: "children sample_fs 0x200 = []"
    by (simp add: sample_fs_def ramfs_mount_def ramfs_init_def set_node_def children_def)
  obtain p h' where k: "kmalloc 648 sample_heap = Some (p, h')" "p \<noteq> 0"
    using kmalloc_serves [OF sample_heap_ok, of 648 0 0] sample_can_grow by auto
  show "\<exists>s' h' c. ramfs_mkdir 0x200 (Some ''bin'') sample_fs sample_heap = Some (KERNEL_SUCCESS, s', h') \<and>
     entries s' 0x200 = [''bin'' \<mapsto> c]"
    using ramfs_create_adds_entry [OF sample_fs_tree _ sample_heap_nodes, of "0x200" "Some ''bin''" ramfs_mkdir VNODE_DIRECTORY]
      sample_fs_entries d c k by auto
  show "ramfs_create 0x200 None sample_fs sample_heap = Some (KERNEL_EINVAL, sample_fs, sample_heap)"
    using ramfs_create_adds_entry [OF sample_fs_tree _ sample_heap_nodes, of "0x200" None ramfs_create VNODE_FILE] by auto
qed

text \<open>
  C24. After a file or directory \<open>nm\<close> was created in the directory that the path \<open>p\<close> leads to, looking
  up \<open>p/nm\<close> finds the new node, and every path that was found before is found as before.
\<close>

theorem create_then_lookup:
  assumes "fs_tree s N" and "vfs_get_root s \<in> N" and "heap_nodes s N h"
    and "\<forall>w \<in> set (components p). length w \<le> 63" and "vfs_lookup (Some p) s = (KERNEL_SUCCESS, dir)"
    and "nm \<noteq> []" and "CHR ''/'' \<notin> set nm" and "length nm < 64"
    and "vn_type (fs_nodes s dir) = VNODE_DIRECTORY"
    and "create \<in> {ramfs_create, ramfs_mkdir}" and "create dir (Some nm) s h = Some (KERNEL_SUCCESS, s', h')"
  shows "(\<exists>c. c \<notin> N \<and> vfs_lookup (Some (p @ ''/'' @ nm)) s' = (KERNEL_SUCCESS, c)) \<and>
         (\<forall>q n. (\<forall>w \<in> set (components q). length w \<le> 63) \<longrightarrow> vfs_lookup (Some q) s = (KERNEL_SUCCESS, n) \<longrightarrow>
            vfs_lookup (Some q) s' = (KERNEL_SUCCESS, n))"
proof -
  let ?r = "vfs_get_root s"
  have res: "resolve_path s ?r (components q) = Some n \<longleftrightarrow> vfs_lookup (Some q) s = (KERNEL_SUCCESS, n)"
    if "\<forall>w \<in> set (components q). length w \<le> 63" for q n
    using vfs_lookup_eq [OF assms(1,2) that] by (auto simp: errno_defs split: option.split)
  have dir: "resolve_path s ?r (components p) = Some dir" using res [OF assms(4)] assms(5) by simp
  then have "dir \<in> N" using resolve_path_mem [OF assms(1,2)] by simp
  moreover obtain ty where "create dir (Some nm) s h = ramfs_new ty dir nm s h"
    using assms(10) ramfs_create_new ramfs_mkdir_new by auto
  ultimately obtain c where c: "node_created dir nm c (s, N) (s', insert c N)" "s' = linked_node ty dir nm c s"
    using ramfs_new_ok [OF assms(1) _ assms(3,8,9), of ty] assms(11) by (auto simp del: node_created.simps simp: errno_defs split: if_splits)
  have r: "vfs_get_root s' = ?r" using c(2) by (simp add: linked_node_def add_child_def set_node_def vfs_get_root_def Let_def)
  have t': "fs_tree s' (insert c N)" and cN: "c \<notin> N" using c(1) by auto
  have inv: "case (s, N) of (s, N) \<Rightarrow> fs_tree s N" "?r \<in> snd (s, N)" using assms(1,2) by simp_all
  have look': "vfs_lookup (Some q) s' = (KERNEL_SUCCESS, n)"
    if "\<forall>w \<in> set (components q). length w \<le> 63" "resolve_path s' ?r (components q) = Some n" for q n
    using vfs_lookup_eq [OF t' _ that(1)] that(2) assms(2) by (simp add: r)
  have "resolve_path s' ?r (components p @ [nm]) = Some c"
    using rd.walk_created [OF inv(1) c(1) inv(2)] dir by simp
  then have "vfs_lookup (Some (p @ ''/'' @ nm)) s' = (KERNEL_SUCCESS, c)"
    using look' [of "p @ ''/'' @ nm" c] assms(4,6-8) by (simp add: components_append)
  moreover have "vfs_lookup (Some q) s' = (KERNEL_SUCCESS, n)"
    if q: "\<forall>w \<in> set (components q). length w \<le> 63" "vfs_lookup (Some q) s = (KERNEL_SUCCESS, n)" for q n
  proof -
    have "resolve_path s ?r (components q) = Some n" using res [OF q(1)] q(2) by simp
    then have "resolve_path s' ?r (components q) = Some n"
      using rd.walk_stable [OF inv(1) c(1) inv(2)] by simp
    then show ?thesis by (rule look' [OF q(1)])
  qed
  ultimately show ?thesis using cN by blast
qed

lemma sample_fs_dir: "vn_type (fs_nodes sample_fs 0x200) = VNODE_DIRECTORY"
  by (simp add: sample_fs_def ramfs_mount_def ramfs_init_def set_node_def)

lemma sample_fs_create: "\<exists>s' h'. ramfs_create 0x200 (Some ''init'') sample_fs sample_heap = Some (KERNEL_SUCCESS, s', h')"
proof -
  have "align_size sizeof_ramfs_node \<le> 4064" by (simp add: align_size_def sizeof_ramfs_node_def HEAP_ALIGNMENT_def)
  then obtain h' where "kmalloc sizeof_ramfs_node sample_heap = Some (HEAP_START_ADDRESS + sizeof_heap_block, h')"
    using sample_kmalloc [of sizeof_ramfs_node] by (auto simp: sizeof_ramfs_node_def)
  moreover have "HEAP_START_ADDRESS + sizeof_heap_block \<noteq> 0" by (simp add: HEAP_START_ADDRESS_def sizeof_heap_block_def)
  moreover have "ramfs_lookup 0x200 (Some ''init'') sample_fs = (KERNEL_ENOENT, 0)"
    using ramfs_lookup_eq [OF sample_fs_tree, of "0x200" "''init''"] sample_fs_entries by simp
  moreover have "vn_private_data (fs_nodes sample_fs 0x200) = 0x200" "rn_child_count (fs_nodes sample_fs 0x200) = 0"
    by (simp_all add: sample_fs_def ramfs_mount_def ramfs_init_def set_node_def)
  ultimately show ?thesis using sample_fs_dir
    by (simp add: ramfs_create_new ramfs_new_def errno_defs RAMFS_MAX_CHILDREN_def Let_def)
qed

theorem create_then_lookup_witness:
  "\<exists>s' h' c. ramfs_create 0x200 (Some ''init'') sample_fs sample_heap = Some (KERNEL_SUCCESS, s', h') \<and>
     vfs_lookup (Some ''//init'') s' = (KERNEL_SUCCESS, c) \<and> c \<noteq> 0x200"
proof -
  obtain s' h' where c: "ramfs_create 0x200 (Some ''init'') sample_fs sample_heap = Some (KERNEL_SUCCESS, s', h')"
    using sample_fs_create by blast
  have "vfs_lookup (Some ''/'') sample_fs = (KERNEL_SUCCESS, 0x200)" by (simp add: vfs_lookup_def sample_fs_root)
  from create_then_lookup [where create = ramfs_create and nm = "''init''", OF sample_fs_tree _ sample_heap_nodes _ this _ _ _ sample_fs_dir _ c]
  show ?thesis using c by (auto simp: sample_fs_root components_root)
qed

section \<open>Reading and writing\<close>

text \<open>
  A file as the user of the file system sees it: the open file \<open>f\<close> of the node \<open>n\<close>. The caller's buffers
  and the data of the file do not overlap.
\<close>

definition open_on :: "fs_state \<Rightarrow> u64 \<Rightarrow> u64 \<Rightarrow> bool" where
  "open_on s f n \<longleftrightarrow> f \<noteq> 0 \<and> n \<noteq> 0 \<and> file_node (fs_files s f) = n \<and> vn_ops (fs_nodes s n) = Ramfs_Vnode_Ops \<and>
     vn_private_data (fs_nodes s n) = n \<and> vn_type (fs_nodes s n) = VNODE_FILE"

definition no_overlap :: "u64 \<Rightarrow> u64 \<Rightarrow> u64 \<Rightarrow> bool" where
  "no_overlap a b n \<longleftrightarrow> (\<forall>i < n. \<forall>j < n. a + i \<noteq> b + j)"

lemma no_overlap_forward_safe:
  assumes "no_overlap d s n"
  shows "forward_safe d s n"
proof -
  have "\<not> d - s < n" if "0 < n"
  proof
    assume "d - s < n"
    then have "d + 0 \<noteq> s + (d - s)" using assms that unfolding no_overlap_def by blast
    then show False by simp
  qed
  then show ?thesis by (cases "n = 0") (auto simp: forward_safe_def word_neq_0_conv)
qed

lemma k_memcpy_byte:
  assumes "no_overlap d s n" and "i < n"
  shows "k_memcpy d s n m (d + i) = m (s + i)"
  using assms k_memcpy_apply [OF no_overlap_forward_safe [OF assms(1)]] by simp

lemma k_memcpy_outside:
  assumes "no_overlap d s n" and "\<forall>i < n. x \<noteq> d + i"
  shows "k_memcpy d s n m x = m x"
proof -
  have "\<not> x - d < n"
  proof
    assume "x - d < n"
    then have "x \<noteq> d + (x - d)" using assms(2) by blast
    then show False by simp
  qed
  then show ?thesis using k_memcpy_apply [OF no_overlap_forward_safe [OF assms(1)]] by simp
qed

text \<open>A successful write leaves the bytes in the file's own buffer.\<close>

lemma vfs_write_effect:
  assumes o: "open_on s f n" and w: "vfs_write f buffer sz s h = Some (KERNEL_SUCCESS, s', h')"
  shows "open_on s' f n \<and> vn_size (fs_nodes s' n) = sz \<and> rn_data (fs_nodes s' n) \<noteq> 0 \<and>
         file_position (fs_files s' f) = sz \<and> sz \<le> rn_capacity (fs_nodes s' n) \<and>
         (\<exists>h1. hp_mem h' = k_memcpy (rn_data (fs_nodes s' n)) buffer sz (hp_mem h1) \<and>
               (h1 = h \<or> (\<exists>p. kmalloc sz h = Some (p, h1))))"
proof -
  have rw: "ramfs_write f buffer sz s h = Some (KERNEL_SUCCESS, s', h')"
    using o w by (simp add: vfs_write_def open_on_def)
  show ?thesis
  proof (cases "rn_data (fs_nodes s n) = 0")
    case True
    obtain d h1 where k: "kmalloc sz h = Some (d, h1)"
      using rw o True by (auto simp: ramfs_write_def open_on_def Let_def errno_defs bind_eq_Some_conv split: if_splits)
    then show ?thesis using rw o True
      by (auto simp: ramfs_write_def open_on_def Let_def errno_defs set_node_def split: if_splits)
  next
    case False
    then show ?thesis using rw o
      by (auto simp: ramfs_write_def open_on_def Let_def errno_defs set_node_def split: if_splits)
  qed
qed

text \<open>
  C25. What was written is read back: after a successful \<open>vfs_write\<close> of \<open>sz\<close> bytes, \<open>vfs_read\<close> of at
  least as many bytes returns \<open>sz\<close> and fills the buffer with the bytes that were written.
\<close>

theorem vfs_write_read:
  assumes "open_on s f n" and "vfs_write f buffer sz s h = Some (KERNEL_SUCCESS, s1, h1)"
    and "no_overlap (rn_data (fs_nodes s1 n)) buffer sz" and "no_overlap dest (rn_data (fs_nodes s1 n)) sz"
    and "dest \<noteq> 0" and "sz \<le> len" and "unat sz < 2 ^ 31" and "heap_live h L"
  shows "\<exists>s2 h2. vfs_read f dest len s1 h1 = (int (unat sz), s2, h2) \<and>
           (\<forall>i < sz. hp_mem h2 (dest + i) = hp_mem h (buffer + i))"
proof -
  define d where "d = rn_data (fs_nodes s1 n)"
  obtain h0 where w: "open_on s1 f n" "vn_size (fs_nodes s1 n) = sz" "d \<noteq> 0"
    and m1: "hp_mem h1 = k_memcpy d buffer sz (hp_mem h0)" and h0: "h0 = h \<or> (\<exists>p. kmalloc sz h = Some (p, h0))"
    using vfs_write_effect [OF assms(1,2)] by (auto simp: d_def)
  have m0: "hp_mem h0 = hp_mem h" using h0 kmalloc_mem [OF assms(8), of sz] assms(7) by auto
  define h2 where "h2 = h1\<lparr>hp_mem := k_memcpy dest d sz (hp_mem h1)\<rparr>"
  have bytes: "(if len > sz then sz else len) = sz" using assms(6) by auto
  have "sint (ucast sz :: 32 word) = int (unat sz)"
    using assms(7) by (rule sint_ucast_small)
  then have "\<exists>s2. vfs_read f dest len s1 h1 = (int (unat sz), s2, h2)"
    using w assms(5) bytes by (auto simp: vfs_read_def ramfs_read_def open_on_def Let_def h2_def d_def)
  moreover have "hp_mem h2 (dest + i) = hp_mem h (buffer + i)" if "i < sz" for i
  proof -
    have "hp_mem h2 (dest + i) = hp_mem h1 (d + i)"
      using k_memcpy_byte [OF assms(4) that] by (simp add: h2_def d_def)
    also have "\<dots> = hp_mem h0 (buffer + i)" using k_memcpy_byte [OF assms(3) that] by (simp add: m1 d_def)
    finally show ?thesis by (simp add: m0)
  qed
  ultimately show ?thesis by blast
qed

text \<open>An open empty file, written for the first time from a buffer at \<open>0x1000\<close>.\<close>

definition sample_file_fs :: fs_state where
  "sample_file_fs = sample_fs
     \<lparr>fs_nodes := (fs_nodes sample_fs)(0x400 := node_zero\<lparr>vn_ops := Ramfs_Vnode_Ops, vn_private_data := 0x400\<rparr>),
      fs_files := (fs_files sample_fs)(0x500 := \<lparr>file_node = 0x400, file_position = 0, file_flags = 0, file_refcount = 1\<rparr>)\<rparr>"

lemma sample_file_open: "open_on sample_file_fs 0x500 0x400"
  by (simp add: open_on_def sample_file_fs_def node_zero_def)

lemma sample_file_write:
  "\<exists>s1 h1. vfs_write 0x500 0x1000 8 sample_file_fs sample_heap = Some (KERNEL_SUCCESS, s1, h1) \<and>
     rn_data (fs_nodes s1 0x400) = HEAP_START_ADDRESS + sizeof_heap_block"
proof -
  have "align_size 8 \<le> 4064" by (simp add: align_size_def HEAP_ALIGNMENT_def)
  then obtain h' where "kmalloc 8 sample_heap = Some (HEAP_START_ADDRESS + sizeof_heap_block, h')"
    using sample_kmalloc [of 8] by auto
  moreover have "HEAP_START_ADDRESS + sizeof_heap_block \<noteq> 0" by (simp add: HEAP_START_ADDRESS_def sizeof_heap_block_def)
  ultimately show ?thesis
    by (simp add: vfs_write_def ramfs_write_def sample_file_fs_def node_zero_def set_node_def Let_def)
qed

lemma sample_no_overlap:
  "no_overlap (HEAP_START_ADDRESS + sizeof_heap_block) 0x1000 8" "no_overlap 0x2000 (HEAP_START_ADDRESS + sizeof_heap_block) 8"
proof -
  have "a + i \<noteq> b + j" if "8 \<le> a - b" "8 \<le> b - a" "i < 8" "j < 8" for a b i j :: u64
  proof
    assume "a + i = b + j"
    then have "a - b = j - i" "b - a = i - j" by (simp_all add: algebra_simps eq_diff_eq diff_eq_eq)
    then show False using that
      by (cases "i \<le> j") (auto simp: word_le_nat_alt word_less_nat_alt unat_sub)
  qed
  then show "no_overlap (HEAP_START_ADDRESS + sizeof_heap_block) 0x1000 8"
    "no_overlap 0x2000 (HEAP_START_ADDRESS + sizeof_heap_block) 8"
    by (simp_all add: no_overlap_def HEAP_START_ADDRESS_def sizeof_heap_block_def)
qed

theorem vfs_write_read_witness:
  "\<exists>s1 h1 s2 h2. vfs_write 0x500 0x1000 8 sample_file_fs sample_heap = Some (KERNEL_SUCCESS, s1, h1) \<and>
     vfs_read 0x500 0x2000 100 s1 h1 = (8, s2, h2) \<and> hp_mem h2 0x2003 = hp_mem sample_heap 0x1003"
proof -
  obtain s1 h1 where w: "vfs_write 0x500 0x1000 8 sample_file_fs sample_heap = Some (KERNEL_SUCCESS, s1, h1)"
    and d: "rn_data (fs_nodes s1 0x400) = HEAP_START_ADDRESS + sizeof_heap_block" using sample_file_write by blast
  obtain s2 h2 where "vfs_read 0x500 0x2000 100 s1 h1 = (8, s2, h2)"
    "\<forall>i < 8. hp_mem h2 (0x2000 + i) = hp_mem sample_heap (0x1000 + i)"
    using vfs_write_read [OF sample_file_open w, of "0x2000" 100 "{}"] sample_no_overlap sample_heap_live by (auto simp: d)
  moreover from this(2) have "hp_mem h2 (0x2000 + 3) = hp_mem sample_heap (0x1000 + 3)" by (rule allE [of _ 3]) simp
  then have "hp_mem h2 0x2003 = hp_mem sample_heap 0x1003" by simp
  ultimately show ?thesis using w by blast
qed

section \<open>Descriptors\<close>

text \<open>
  \<open>fd_allocate\<close> returns the lowest free descriptor and binds it to the file, or
  \<open>KERNEL_ENOMEM\<close> exactly when all 64 are in use; the other descriptors keep their files. \<open>fd_get\<close> then returns the file
  until \<open>fd_close\<close> frees the descriptor again.
\<close>

theorem fd_allocate_correct:
  assumes "length table = FD_MAX" and "f \<noteq> 0"
  shows "(case fd_allocate table f of (fd, table') \<Rightarrow>
           if 0 \<in> set table
           then 0 \<le> fd \<and> fd < 64 \<and> fd_get table fd = 0 \<and> (\<forall>j. 0 \<le> j \<and> j < fd \<longrightarrow> fd_get table j \<noteq> 0) \<and>
                fd_get table' fd = f \<and> (\<forall>j. j \<noteq> fd \<longrightarrow> fd_get table' j = fd_get table j) \<and>
                fd_close table' fd = (KERNEL_SUCCESS, table)
           else fd = KERNEL_ENOMEM \<and> table' = table)"
proof (cases "find (\<lambda>fd. table ! fd = 0) [0..<FD_MAX]")
  case None
  then have "0 \<notin> set table" using assms(1) by (auto simp: find_None_iff in_set_conv_nth)
  then show ?thesis using None assms(2) by (simp add: fd_allocate_def)
next
  case (Some i)
  then have i: "i < FD_MAX" "table ! i = 0" "\<forall>j < i. table ! j \<noteq> 0"
    by (auto simp: find_Some_iff)
  have "0 \<in> set table" using i assms(1) by (metis nth_mem)
  moreover have "table[i := f, i := 0] = table" using i by (metis list_update_id list_update_overwrite)
  moreover have "nat j \<noteq> i" if "j \<noteq> int i" "0 \<le> j" for j using that by auto
  ultimately show ?thesis using Some i assms
    by (auto simp: fd_allocate_def fd_get_def fd_close_def FD_MAX_def nth_list_update)
qed

theorem fd_allocate_correct_witness: "fd_allocate (fd_init []) 7 = (0, (fd_init [])[0 := 7])"
  using fd_allocate_correct [of "fd_init []" 7]
  by (simp add: fd_init_def FD_MAX_def fd_allocate_def upt_conv_Cons)

end
