(* ===== verification/Task_Queue.thy ===== *)
theory Task_Queue
  imports Prelude "HOL-Library.Monad_Syntax"
begin

text \<open>
  Tasks and processes as the kernel stores them (\<open>scheduler/task.h\<close>, \<open>scheduler/context.h\<close>,
  \<open>process/process.h\<close>, \<open>fs/fd.h\<close>, \<open>elf/elf_loader.h\<close>) and the intrusive task queues of
  \<open>scheduler/queue.c\<close>. Both kinds of objects live in typed stores indexed by their address; a queue
  is the address of its first task, the other tasks hang on the \<open>next\<close> fields. The walks along
  \<open>next\<close> are partial functions whose value is \<open>None\<close> when the chain is cyclic and the loop does not
  end. \<open>queue_rep\<close> relates a queue with the list of its tasks, and the lemmas show that pushing
  appends to this list, that removing deletes from it, and that neither touches another queue.
\<close>

section \<open>Data\<close>

record cpu_context =
  ctx_rsp :: u64
  ctx_rbx :: u64
  ctx_rbp :: u64
  ctx_r12 :: u64
  ctx_r13 :: u64
  ctx_r14 :: u64
  ctx_r15 :: u64

datatype task_state =
  TASK_READY | TASK_RUNNING | TASK_BLOCKED | TASK_SLEEPING | TASK_TERMINATED | TASK_IDLE

datatype task_resume_mode = TASK_RESUME_CONTEXT | TASK_RESUME_INTERRUPT

record task =
  task_id :: u64
  task_context :: cpu_context
  task_interrupt_rsp :: u64
  task_entry :: u64
  task_kernel_stack :: u64
  task_kernel_stack_size :: u64
  task_state :: task_state
  task_next :: u64
  task_wake_tick :: u64
  task_mode :: task_resume_mode
  task_process :: u64

type_synonym task_store = "u64 \<Rightarrow> task"

datatype process_state = PROCESS_READY | PROCESS_RUNNING | PROCESS_EXITED

text \<open>\<open>elf_image_t\<close>, and the descriptor table of a process: \<open>FD_MAX\<close> pointers to open files.\<close>

record elf_image =
  img_base :: u64
  img_size :: u64
  img_entry :: u64
  img_image_base :: u64

type_synonym fd_table = "u64 list"

record process =
  proc_pid :: u64
  proc_state :: process_state
  proc_exit_code :: "32 word"
  proc_name :: string
  proc_parent :: u64
  proc_main_thread :: u64
  proc_thread_list :: u64
  proc_next :: u64
  proc_image :: elf_image
  proc_user_stack_top :: u64
  proc_user_stack_bottom :: u64
  proc_user_heap_start :: u64
  proc_user_heap_end :: u64
  proc_user_heap_current :: u64
  proc_fd_table :: fd_table
  proc_page_table :: u64
  proc_page_table_physical :: u64
  proc_user_rip :: u64
  proc_user_rsp :: u64
  proc_user_rflags :: u64
  proc_is_user_process :: bool
  proc_user_started :: bool

type_synonym process_store = "u64 \<Rightarrow> process"

text \<open>A process structure cleared by \<open>k_memset\<close>.\<close>

definition process_zero :: process where
  "process_zero = \<lparr>proc_pid = 0, proc_state = PROCESS_READY, proc_exit_code = 0, proc_name = [],
     proc_parent = 0, proc_main_thread = 0, proc_thread_list = 0, proc_next = 0,
     proc_image = \<lparr>img_base = 0, img_size = 0, img_entry = 0, img_image_base = 0\<rparr>,
     proc_user_stack_top = 0, proc_user_stack_bottom = 0, proc_user_heap_start = 0, proc_user_heap_end = 0,
     proc_user_heap_current = 0, proc_fd_table = replicate 64 0, proc_page_table = 0,
     proc_page_table_physical = 0, proc_user_rip = 0, proc_user_rsp = 0, proc_user_rflags = 0,
     proc_is_user_process = False, proc_user_started = False\<rparr>"

definition upd_task :: "u64 \<Rightarrow> (task \<Rightarrow> task) \<Rightarrow> task_store \<Rightarrow> task_store" where
  "upd_task p f ts = ts(p := f (ts p))"

definition task_resume_uses_interrupt_frame :: "u64 \<Rightarrow> task_store \<Rightarrow> bool" where
  "task_resume_uses_interrupt_frame p ts \<longleftrightarrow>
     p \<noteq> 0 \<and> task_mode (ts p) = TASK_RESUME_INTERRUPT \<and> task_interrupt_rsp (ts p) \<noteq> 0"

section \<open>Queue operations\<close>

text \<open>
  The C functions receive the address of the variable that holds the head and return early when it
  is null; every caller passes the address of a variable, so the model receives the head itself and
  returns the new one.
\<close>

partial_function (option) queue_last :: "task_store \<Rightarrow> u64 \<Rightarrow> u64 option" where
  "queue_last ts current =
     (if task_next (ts current) \<noteq> 0 then queue_last ts (task_next (ts current)) else Some current)"

definition task_queue_push :: "u64 \<Rightarrow> u64 \<Rightarrow> task_store \<Rightarrow> (u64 \<times> task_store) option" where
  "task_queue_push head t ts =
     (if t = 0 then Some (head, ts)
      else
        let ts = upd_task t (\<lambda>k. k\<lparr>task_next := 0\<rparr>) ts in
        if head = 0 then Some (t, ts)
        else do {
          current \<leftarrow> queue_last ts head;
          Some (head, upd_task current (\<lambda>k. k\<lparr>task_next := t\<rparr>) ts)
        })"

partial_function (option) queue_unlink :: "u64 \<Rightarrow> u64 \<Rightarrow> task_store \<Rightarrow> task_store option" where
  "queue_unlink t current ts =
     (if task_next (ts current) \<noteq> 0
      then if task_next (ts current) = t
           then let ts = upd_task current (\<lambda>k. k\<lparr>task_next := task_next (ts t)\<rparr>) ts
                in Some (upd_task t (\<lambda>k. k\<lparr>task_next := 0\<rparr>) ts)
           else queue_unlink t (task_next (ts current)) ts
      else Some ts)"

definition task_queue_remove :: "u64 \<Rightarrow> u64 \<Rightarrow> task_store \<Rightarrow> (u64 \<times> task_store) option" where
  "task_queue_remove head t ts =
     (if head = 0 \<or> t = 0 then Some (head, ts)
      else if head = t
      then Some (task_next (ts t), upd_task t (\<lambda>k. k\<lparr>task_next := 0\<rparr>) ts)
      else do {
        ts \<leftarrow> queue_unlink t head ts;
        Some (head, ts)
      })"

section \<open>Queues as lists\<close>

fun queue_rep :: "task_store \<Rightarrow> u64 \<Rightarrow> u64 list \<Rightarrow> bool" where
  "queue_rep ts p [] \<longleftrightarrow> p = 0"
| "queue_rep ts p (t # q) \<longleftrightarrow> p = t \<and> t \<noteq> 0 \<and> queue_rep ts (task_next (ts t)) q"

text \<open>A task with every field but \<open>next\<close> of another: what the queue operations leave unchanged.\<close>

definition same_but_next :: "task_store \<Rightarrow> task_store \<Rightarrow> bool" where
  "same_but_next ts ts' \<longleftrightarrow> (\<forall>p. (ts' p)\<lparr>task_next := 0\<rparr> = (ts p)\<lparr>task_next := 0\<rparr>)"

lemma queue_rep_not_null: "queue_rep ts p q \<Longrightarrow> 0 \<notin> set q"
  by (induction q arbitrary: p) auto

lemma queue_rep_empty: "queue_rep ts p q \<Longrightarrow> p = 0 \<longleftrightarrow> q = []"
  by (cases q) auto

lemma queue_rep_unique: "queue_rep ts p q \<Longrightarrow> queue_rep ts p q' \<Longrightarrow> q = q'"
proof (induction q arbitrary: p q')
  case Nil
  then show ?case by (cases q') auto
next
  case (Cons t q)
  then show ?case by (cases q') auto
qed

lemma queue_rep_suffix: "queue_rep ts p (a @ t # b) \<Longrightarrow> queue_rep ts t (t # b)"
  by (induction a arbitrary: p) auto

lemma queue_rep_distinct: "queue_rep ts p q \<Longrightarrow> distinct q"
proof (rule ccontr)
  assume rep: "queue_rep ts p q" and "\<not> distinct q"
  then obtain a t b c where q: "q = a @ [t] @ b @ [t] @ c"
    using not_distinct_decomp by metis
  have "queue_rep ts t (t # b @ t # c)" using queue_rep_suffix [of ts p a t] rep q by simp
  moreover have "queue_rep ts t (t # c)" using queue_rep_suffix [of ts p "a @ t # b" t c] rep q by simp
  ultimately have "t # b @ t # c = t # c" by (rule queue_rep_unique)
  then have "length (t # b @ t # c) = length (t # c)" by (rule arg_cong)
  then show False by simp
qed

lemma queue_rep_cong:
  "\<forall>t \<in> set q. task_next (ts' t) = task_next (ts t) \<Longrightarrow> queue_rep ts' p q = queue_rep ts p q"
  by (induction q arbitrary: p) auto

lemma queue_rep_upd_other [simp]:
  "t \<notin> set q \<Longrightarrow> queue_rep (ts(t := x)) p q = queue_rep ts p q"
  by (rule queue_rep_cong) auto

lemma queue_rep_upd_same [simp]:
  "task_next x = task_next (ts t) \<Longrightarrow> queue_rep (ts(t := x)) p q = queue_rep ts p q"
  by (rule queue_rep_cong) auto

lemma same_but_next_refl [simp]: "same_but_next ts ts"
  by (simp add: same_but_next_def)

lemma same_but_next_trans: "same_but_next a b \<Longrightarrow> same_but_next b c \<Longrightarrow> same_but_next a c"
  by (simp add: same_but_next_def)

lemma same_but_next_upd: "same_but_next ts (upd_task p (\<lambda>k. k\<lparr>task_next := v\<rparr>) ts)"
  by (simp add: same_but_next_def upd_task_def)

lemma same_but_nextD:
  assumes "same_but_next ts ts'"
  shows "task_state (ts' p) = task_state (ts p)" and "task_wake_tick (ts' p) = task_wake_tick (ts p)"
    and "task_mode (ts' p) = task_mode (ts p)" and "task_interrupt_rsp (ts' p) = task_interrupt_rsp (ts p)"
    and "task_process (ts' p) = task_process (ts p)" and "task_context (ts' p) = task_context (ts p)"
    and "task_kernel_stack (ts' p) = task_kernel_stack (ts p)"
    and "task_kernel_stack_size (ts' p) = task_kernel_stack_size (ts p)"
    and "task_id (ts' p) = task_id (ts p)" and "task_entry (ts' p) = task_entry (ts p)"
  using assms by (auto simp: same_but_next_def task.defs dest!: spec [of _ p]; cases "ts p"; cases "ts' p"; simp)+

lemma queue_last_list:
  assumes "queue_rep ts p (q @ [t])"
  shows "queue_last ts p = Some t"
  using assms
proof (induction q arbitrary: p)
  case Nil
  then show ?case by (subst queue_last.simps) auto
next
  case (Cons x q)
  then have rep: "queue_rep ts (task_next (ts x)) (q @ [t])" and p: "p = x" by auto
  then have "task_next (ts x) \<noteq> 0" by (cases q) auto
  then show ?case using Cons.IH [OF rep] p by (subst queue_last.simps) simp
qed

lemma queue_rep_append:
  assumes "queue_rep ts p (q @ [l])" and "t \<notin> set (q @ [l])" and "t \<noteq> 0" and "task_next (ts t) = 0"
  shows "queue_rep (ts(l := (ts l)\<lparr>task_next := t\<rparr>)) p (q @ [l, t])"
  using assms
proof (induction q arbitrary: p)
  case Nil
  then show ?case by auto
next
  case (Cons x q)
  have "l \<noteq> x" using queue_rep_distinct [OF Cons.prems(1)] by auto
  then show ?case using Cons by simp
qed

lemma task_queue_push_list:
  assumes rep: "queue_rep ts p q" and t: "t \<noteq> 0" "t \<notin> set q"
  shows "\<exists>p' ts'. task_queue_push p t ts = Some (p', ts') \<and> queue_rep ts' p' (q @ [t]) \<and>
           same_but_next ts ts' \<and> (\<forall>x. x \<notin> set (q @ [t]) \<longrightarrow> ts' x = ts x)"
proof (cases q rule: rev_cases)
  case Nil
  then show ?thesis using rep t by (simp add: task_queue_push_def upd_task_def same_but_next_def)
next
  case (snoc r l)
  define ts1 where "ts1 = upd_task t (\<lambda>k. k\<lparr>task_next := 0\<rparr>) ts"
  have rep1: "queue_rep ts1 p (r @ [l])"
    using rep t(2) snoc by (simp add: ts1_def upd_task_def)
  have "p \<noteq> 0" using queue_rep_empty [OF rep] snoc by simp
  then have push: "task_queue_push p t ts = Some (p, upd_task l (\<lambda>k. k\<lparr>task_next := t\<rparr>) ts1)"
    using t(1) queue_last_list [OF rep1] by (simp add: task_queue_push_def ts1_def)
  have "queue_rep (upd_task l (\<lambda>k. k\<lparr>task_next := t\<rparr>) ts1) p (r @ [l, t])"
    unfolding upd_task_def by (rule queue_rep_append [OF rep1]) (use t snoc in \<open>simp_all add: ts1_def upd_task_def\<close>)
  moreover have "same_but_next ts (upd_task l (\<lambda>k. k\<lparr>task_next := t\<rparr>) ts1)"
    unfolding ts1_def by (rule same_but_next_trans [OF same_but_next_upd same_but_next_upd])
  ultimately show ?thesis using push snoc by (auto simp: ts1_def upd_task_def)
qed

lemma queue_unlink_list:
  assumes "queue_rep ts p (x # q)" and "t \<noteq> x"
  shows "\<exists>ts'. queue_unlink t p ts = Some ts' \<and> queue_rep ts' p (x # remove1 t q) \<and>
           same_but_next ts ts' \<and> (t \<in> set q \<longrightarrow> task_next (ts' t) = 0) \<and>
           (\<forall>y. y \<notin> set (x # q) \<longrightarrow> ts' y = ts y)"
  using assms
proof (induction q arbitrary: p x)
  case Nil
  then show ?case by (subst queue_unlink.simps) auto
next
  case (Cons y q)
  have rep: "queue_rep ts y (y # q)" and p: "p = x" "x \<noteq> 0" and nxt: "task_next (ts x) = y" and y: "y \<noteq> 0"
    using Cons.prems by auto
  have dist: "distinct (x # y # q)" by (rule queue_rep_distinct [OF Cons.prems(1)])
  show ?case
  proof (cases "t = y")
    case True
    have q: "queue_rep ts (task_next (ts y)) q" using rep by simp
    have "queue_unlink t p ts = Some ((ts(x := (ts x)\<lparr>task_next := task_next (ts y)\<rparr>))(y := (ts y)\<lparr>task_next := 0\<rparr>))"
      using True p nxt y dist by (subst queue_unlink.simps) (simp add: upd_task_def)
    moreover have "same_but_next ts ((ts(x := (ts x)\<lparr>task_next := task_next (ts y)\<rparr>))(y := (ts y)\<lparr>task_next := 0\<rparr>))"
      by (simp add: same_but_next_def)
    ultimately show ?thesis using True p nxt y dist q by auto
  next
    case False
    obtain ts' where ts': "queue_unlink t y ts = Some ts'" "queue_rep ts' y (y # remove1 t q)"
      "same_but_next ts ts'" "t \<in> set q \<longrightarrow> task_next (ts' t) = 0" "\<forall>z. z \<notin> set (y # q) \<longrightarrow> ts' z = ts z"
      using Cons.IH [OF rep False] by blast
    have "ts' x = ts x" using ts'(5) dist by simp
    moreover have "queue_unlink t p ts = Some ts'"
      using False p nxt y ts'(1) by (subst queue_unlink.simps) simp
    ultimately show ?thesis using ts' False p nxt y Cons.prems(2) by auto
  qed
qed

lemma task_queue_remove_list:
  assumes rep: "queue_rep ts p q"
  shows "\<exists>p' ts'. task_queue_remove p t ts = Some (p', ts') \<and> queue_rep ts' p' (remove1 t q) \<and>
           same_but_next ts ts' \<and> (t \<in> set q \<longrightarrow> task_next (ts' t) = 0) \<and>
           (\<forall>y. y \<notin> set q \<longrightarrow> ts' y = ts y)"
proof (cases q)
  case Nil
  then show ?thesis using rep by (simp add: task_queue_remove_def)
next
  case (Cons x r)
  note dist = queue_rep_distinct [OF rep]
  consider "t = 0" | "t = x" "t \<noteq> 0" | "t \<noteq> x" "t \<noteq> 0" by blast
  then show ?thesis
  proof cases
    case 1
    then have "t \<notin> set q" using queue_rep_not_null [OF rep] by simp
    then show ?thesis using rep 1 by (simp add: task_queue_remove_def remove1_idem)
  next
    case 2
    then show ?thesis using rep Cons dist
      by (auto simp: task_queue_remove_def upd_task_def same_but_next_def)
  next
    case 3
    obtain ts' where "queue_unlink t p ts = Some ts'" "queue_rep ts' p (x # remove1 t r)"
      "same_but_next ts ts'" "t \<in> set r \<longrightarrow> task_next (ts' t) = 0" "\<forall>y. y \<notin> set (x # r) \<longrightarrow> ts' y = ts y"
      using queue_unlink_list [of ts p x r t] rep Cons 3 by blast
    then show ?thesis using rep Cons 3 by (auto simp: task_queue_remove_def)
  qed
qed

section \<open>The interface of the task queues\<close>

text \<open>
  What the clients of the queues rely on: a push appends, a removal deletes one occurrence, both
  leave alone the tasks outside the queue they work on, and a queue survives every change that
  respects the links of its own tasks. A task can then be moved from one queue to another, with any
  update of other fields in between.
\<close>

locale task_queues =
  fixes rep :: "'s \<Rightarrow> 'a \<Rightarrow> 'a list \<Rightarrow> bool"
    and push :: "'a \<Rightarrow> 'a \<Rightarrow> 's \<Rightarrow> ('a \<times> 's) option"
    and remove :: "'a \<Rightarrow> 'a \<Rightarrow> 's \<Rightarrow> ('a \<times> 's) option"
    and valid :: "'a \<Rightarrow> bool"
    and agree :: "'s \<Rightarrow> 's \<Rightarrow> 'a set \<Rightarrow> bool"
  assumes rep_distinct: "rep s p q \<Longrightarrow> distinct q"
    and rep_valid: "rep s p q \<Longrightarrow> t \<in> set q \<Longrightarrow> valid t"
    and rep_frame: "rep s p q \<Longrightarrow> agree s s' (set q) \<Longrightarrow> rep s' p q"
    and agree_trans: "agree a b A \<Longrightarrow> agree b c A \<Longrightarrow> agree a c A"
    and agree_mono: "agree a b A \<Longrightarrow> B \<subseteq> A \<Longrightarrow> agree a b B"
    and push_law: "rep s p q \<Longrightarrow> valid t \<Longrightarrow> t \<notin> set q \<Longrightarrow>
          \<exists>p' s'. push p t s = Some (p', s') \<and> rep s' p' (q @ [t]) \<and> agree s s' (- insert t (set q))"
    and remove_law: "rep s p q \<Longrightarrow> 
          \<exists>p' s'. remove p t s = Some (p', s') \<and> rep s' p' (remove1 t q) \<and> agree s s' (- set q)"
begin

lemma push_others:
  assumes "rep s p q" "valid t" "t \<notin> set q" "rep s p2 q2" "set q2 \<inter> insert t (set q) = {}"
    "push p t s = Some (p', s')"
  shows "rep s' p' (q @ [t])" and "rep s' p2 q2" and "agree s s' (- insert t (set q))"
proof -
  show *: "rep s' p' (q @ [t])" "agree s s' (- insert t (set q))"
    using push_law [OF assms(1-3)] assms(6) by auto
  show "rep s' p2 q2"
    by (rule rep_frame [OF assms(4)], rule agree_mono [OF *(2)]) (use assms(5) in blast)
qed

lemma remove_others:
  assumes "rep s p q" "rep s p2 q2" "set q2 \<inter> set q = {}" "remove p t s = Some (p', s')"
  shows "rep s' p' (remove1 t q)" and "rep s' p2 q2" and "agree s s' (- set q)"
proof -
  show *: "rep s' p' (remove1 t q)" "agree s s' (- set q)"
    using remove_law [OF assms(1), of t] assms(4) by auto
  show "rep s' p2 q2"
    by (rule rep_frame [OF assms(2)], rule agree_mono [OF *(2)]) (use assms(3) in blast)
qed

lemma move:
  assumes source: "rep s p q" and dest: "rep s p2 q2" and t: "t \<in> set q"
    and disj: "set q \<inter> set q2 = {}" and upd: "\<And>s. agree s (f s) UNIV"
  shows "\<exists>p' s1 p2' s2. remove p t s = Some (p', s1) \<and> push p2 t (f s1) = Some (p2', s2) \<and>
           rep s2 p' (remove1 t q) \<and> rep s2 p2' (q2 @ [t]) \<and> agree s s2 (- (set q \<union> set q2))"
proof -
  have valid: "valid t" by (rule rep_valid [OF source t])
  obtain p' s1 where rm: "remove p t s = Some (p', s1)" using remove_law [OF source, of t] by blast
  have "set q2 \<inter> set q = {}" using disj by blast
  note 1 = remove_others [OF source dest this rm]
  have reps: "rep (f s1) p' (remove1 t q)" "rep (f s1) p2 q2"
    by (rule rep_frame [OF 1(1)], rule agree_mono [OF upd], simp)
       (rule rep_frame [OF 1(2)], rule agree_mono [OF upd], simp)
  have fresh: "t \<notin> set q2" using t disj by blast
  obtain p2' s2 where ps: "push p2 t (f s1) = Some (p2', s2)"
    using push_law [OF reps(2) valid fresh] by blast
  have "t \<notin> set (remove1 t q)" using rep_distinct [OF source] by simp
  then have "set (remove1 t q) \<inter> insert t (set q2) = {}"
    using disj set_remove1_subset [of t q] by blast
  note 2 = push_others [OF reps(2) valid fresh reps(1) this ps]
  have "agree s s2 (- (set q \<union> set q2))"
  proof (rule agree_trans)
    show "agree s (f s1) (- (set q \<union> set q2))"
      by (rule agree_trans [OF agree_mono [OF 1(3)] agree_mono [OF upd]]) auto
    show "agree (f s1) s2 (- (set q \<union> set q2))"
      by (rule agree_mono [OF 2(3)]) (use t in blast)
  qed
  then show ?thesis using rm ps 2(1,2) by blast
qed

end

definition same_links :: "task_store \<Rightarrow> task_store \<Rightarrow> u64 set \<Rightarrow> bool" where
  "same_links ts ts' A \<longleftrightarrow> (\<forall>t \<in> A. task_next (ts' t) = task_next (ts t))"

interpretation tq: task_queues queue_rep task_queue_push task_queue_remove "\<lambda>t. t \<noteq> 0" same_links
proof unfold_locales
  fix ts :: task_store and p q t
  assume rep: "queue_rep ts p q"
  show "distinct q" by (rule queue_rep_distinct [OF rep])
  show "t \<noteq> 0" if "t \<in> set q" using that queue_rep_not_null [OF rep] by metis
  show "queue_rep ts' p q" if "same_links ts ts' (set q)" for ts'
    using that rep queue_rep_cong unfolding same_links_def by blast
  show "\<exists>p' ts'. task_queue_push p t ts = Some (p', ts') \<and> queue_rep ts' p' (q @ [t]) \<and>
          same_links ts ts' (- insert t (set q))" if t: "t \<noteq> 0" "t \<notin> set q"
  proof -
    obtain p' ts' where *: "task_queue_push p t ts = Some (p', ts')" "queue_rep ts' p' (q @ [t])"
      "\<forall>x. x \<notin> set (q @ [t]) \<longrightarrow> ts' x = ts x"
      using task_queue_push_list [OF rep t] by blast
    then have "same_links ts ts' (- insert t (set q))" by (simp add: same_links_def)
    with * show ?thesis by blast
  qed
  show "\<exists>p' ts'. task_queue_remove p t ts = Some (p', ts') \<and> queue_rep ts' p' (remove1 t q) \<and>
          same_links ts ts' (- set q)"
  proof -
    obtain p' ts' where *: "task_queue_remove p t ts = Some (p', ts')" "queue_rep ts' p' (remove1 t q)"
      "\<forall>y. y \<notin> set q \<longrightarrow> ts' y = ts y"
      using task_queue_remove_list [OF rep] by blast
    then have "same_links ts ts' (- set q)" by (simp add: same_links_def)
    with * show ?thesis by blast
  qed
qed (auto simp: same_links_def)

end
