(* ===== verification/Scheduler.thy ===== *)
theory Scheduler
  imports Task_Queue Kheap
begin

text \<open>
  The scheduler of \<open>scheduler/scheduler.c\<close> with the creation and exit of tasks
  (\<open>scheduler/task.c\<close>, \<open>scheduler/context.c\<close>), the timer handler of \<open>hal/pit.c\<close> and the part of the
  interrupt stub \<open>cpu/isr.asm\<close> that hands the processor over. The state holds the file-level variables,
  the stores of tasks and processes, the kernel heap (whose bytes hold the kernel stacks and whose
  address spaces hold CR3), the stack pointer of the task state segment and the interrupt flag.

  \<open>context_switch\<close> and \<open>context_switch_to_interrupt\<close> leave the running task in the middle of
  \<open>scheduler_yield\<close>. The model of an operation ends there: it reports that it switched and records which
  switch was made, and what follows the call in the C function happens when the task is resumed.
  Console output (and \<open>last_rsp0\<close>, which only suppresses repeated messages) is left out.
\<close>

section \<open>State\<close>

datatype cpu_switch =
    No_Switch
  | Context_Switch u64 u64
  | Interrupt_Switch u64 u64

record sched_state =
  sc_heap :: heap_state
  sc_tasks :: task_store
  sc_procs :: process_store
  ready_queue :: u64
  current_task :: u64
  idle :: u64
  blocked_queue :: u64
  sleep_queue :: u64
  pending_task :: u64
  preemption_ticks :: u64
  preemption_requested :: bool
  next_task_id :: u64
  system_ticks :: u64
  tss_rsp0 :: u64
  int_enabled :: bool
  last_switch :: cpu_switch

definition KERNEL_STACK_SIZE :: u64 where "KERNEL_STACK_SIZE = 16 * 1024"
definition SCHEDULER_TIME_SLICE :: u64 where "SCHEDULER_TIME_SLICE = 10"
definition KERNEL_CODE_SELECTOR :: u64 where "KERNEL_CODE_SELECTOR = 0x08"
definition KERNEL_TRAMPOLINE_RFLAGS :: u64 where "KERNEL_TRAMPOLINE_RFLAGS = 0x02"
definition USER_CODE_SELECTOR :: u64 where "USER_CODE_SELECTOR = 0x18"
definition USER_DATA_SELECTOR :: u64 where "USER_DATA_SELECTOR = 0x20"

text \<open>
  \<open>sizeof(task_t)\<close> and the offset of its context; the size of an interrupt frame (fifteen registers,
  the vector, the error code and five words pushed by the processor) and the offsets of its fields.
\<close>

definition sizeof_task :: u64 where "sizeof_task = 136"
definition offset_context :: u64 where "offset_context = 8"
definition sizeof_interrupt_frame :: u64 where "sizeof_interrupt_frame = 176"
definition frame_rdi :: u64 where "frame_rdi = 64"
definition frame_rip :: u64 where "frame_rip = 136"
definition frame_cs :: u64 where "frame_cs = 144"
definition frame_rflags :: u64 where "frame_rflags = 152"
definition frame_rsp :: u64 where "frame_rsp = 160"
definition frame_ss :: u64 where "frame_ss = 168"

definition set_task :: "u64 \<Rightarrow> (task \<Rightarrow> task) \<Rightarrow> sched_state \<Rightarrow> sched_state" where
  "set_task p f s = s\<lparr>sc_tasks := upd_task p f (sc_tasks s)\<rparr>"

definition set_proc :: "u64 \<Rightarrow> (process \<Rightarrow> process) \<Rightarrow> sched_state \<Rightarrow> sched_state" where
  "set_proc p f s = s\<lparr>sc_procs := (sc_procs s)(p := f (sc_procs s p))\<rparr>"

definition sc_vm :: "sched_state \<Rightarrow> vm_state" where
  "sc_vm s = mm_vm (hp_mm (sc_heap s))"

definition set_vm :: "vm_state \<Rightarrow> sched_state \<Rightarrow> sched_state" where
  "set_vm v s = s\<lparr>sc_heap := (sc_heap s)\<lparr>hp_mm := (hp_mm (sc_heap s))\<lparr>mm_vm := v\<rparr>\<rparr>\<rparr>"

definition set_mem :: "(byte_mem \<Rightarrow> byte_mem) \<Rightarrow> sched_state \<Rightarrow> sched_state" where
  "set_mem f s = s\<lparr>sc_heap := (sc_heap s)\<lparr>hp_mem := f (hp_mem (sc_heap s))\<rparr>\<rparr>"

section \<open>Interrupt flag and task state segment\<close>

definition interrupt_disable :: "sched_state \<Rightarrow> sched_state" where
  [simp]: "interrupt_disable s = s\<lparr>int_enabled := False\<rparr>"

definition interrupt_enable :: "sched_state \<Rightarrow> sched_state" where
  [simp]: "interrupt_enable s = s\<lparr>int_enabled := True\<rparr>"

definition interrupts_enabled :: "sched_state \<Rightarrow> bool" where
  [simp]: "interrupts_enabled s = int_enabled s"

definition interrupt_save :: "sched_state \<Rightarrow> bool \<times> sched_state" where
  "interrupt_save s = (interrupts_enabled s, interrupt_disable s)"

definition interrupt_restore :: "bool \<Rightarrow> sched_state \<Rightarrow> sched_state" where
  "interrupt_restore enabled s = (if enabled then interrupt_enable s else s)"

definition tss_set_rsp0 :: "u64 \<Rightarrow> sched_state \<Rightarrow> sched_state" where
  "tss_set_rsp0 rsp0 s = s\<lparr>tss_rsp0 := rsp0\<rparr>"

section \<open>Creating a task\<close>

text \<open>
  \<open>context_init\<close> zeroes the context, pushes a null return address and the entry point on the new
  stack and leaves the stack pointer on the latter.
\<close>

definition context_init :: "u64 \<Rightarrow> u64 \<Rightarrow> byte_mem \<Rightarrow> cpu_context \<times> byte_mem" where
  "context_init entry stack_top m =
     (let m = store_u64 (stack_top - 8) 0 m;
          m = store_u64 (stack_top - 16) entry m
      in (\<lparr>ctx_rsp = stack_top - 16, ctx_rbx = 0, ctx_rbp = 0, ctx_r12 = 0, ctx_r13 = 0, ctx_r14 = 0,
           ctx_r15 = 0\<rparr>, m))"

definition task_create :: "u64 \<Rightarrow> sched_state \<Rightarrow> (u64 \<times> sched_state) option" where
  "task_create entry s =
     (if entry = 0 then Some (0, s)
      else do {
        (t, h) \<leftarrow> kmalloc sizeof_task (sc_heap s);
        if t = 0 then Some (0, s\<lparr>sc_heap := h\<rparr>)
        else do {
          (stack, h) \<leftarrow> kmalloc KERNEL_STACK_SIZE h;
          if stack = 0 then Some (0, s\<lparr>sc_heap := kfree t h\<rparr>)
          else
            case context_init entry (stack + KERNEL_STACK_SIZE) (hp_mem h) of (ctx, m) \<Rightarrow>
              let s = s\<lparr>sc_heap := h\<lparr>hp_mem := m\<rparr>, next_task_id := next_task_id s + 1,
                        sc_tasks := (sc_tasks s)(t := \<lparr>
                          task_id = next_task_id s, task_context = ctx, task_interrupt_rsp = 0,
                          task_entry = entry, task_kernel_stack = stack,
                          task_kernel_stack_size = KERNEL_STACK_SIZE, task_state = TASK_READY,
                          task_next = 0, task_wake_tick = 0, task_mode = TASK_RESUME_CONTEXT,
                          task_process = 0\<rparr>)\<rparr>
              in Some (t, s)
        }
      })"

section \<open>Scheduling\<close>

definition scheduler_reset_resume_state :: "u64 \<Rightarrow> sched_state \<Rightarrow> sched_state" where
  "scheduler_reset_resume_state t s =
     (if t = 0 then s
      else set_task t (\<lambda>k. k\<lparr>task_interrupt_rsp := 0, task_mode := TASK_RESUME_CONTEXT\<rparr>) s)"

definition scheduler_switch_to :: "u64 \<Rightarrow> sched_state \<Rightarrow> u64 \<times> sched_state" where
  "scheduler_switch_to next s =
     (if next = 0 then (0, s)
      else
        let p = task_process (sc_tasks s next);
            s = (if p \<noteq> 0
                 then set_vm (page_table_switch (proc_page_table_physical (sc_procs s p)) (sc_vm s)) s
                 else s);
            s = tss_set_rsp0 (task_kernel_stack (sc_tasks s next) + task_kernel_stack_size (sc_tasks s next)) s;
            s = s\<lparr>current_task := next, preemption_ticks := 0\<rparr>;
            s = (if current_task s \<noteq> idle s
                 then set_task (current_task s) (\<lambda>k. k\<lparr>task_state := TASK_RUNNING\<rparr>) s else s)
        in (current_task s, s))"

definition scheduler_init :: "u64 \<Rightarrow> sched_state \<Rightarrow> sched_state option" where
  "scheduler_init idle_task s = do {
     (t, s) \<leftarrow> task_create idle_task (s\<lparr>ready_queue := 0, current_task := 0, blocked_queue := 0,
                sleep_queue := 0, pending_task := 0, preemption_ticks := 0, preemption_requested := False\<rparr>);
     let s = s\<lparr>idle := t\<rparr>;
     Some (if t \<noteq> 0 then set_task t (\<lambda>k. k\<lparr>task_state := TASK_IDLE, task_next := 0\<rparr>) s else s)
   }"

definition push_ready :: "u64 \<Rightarrow> sched_state \<Rightarrow> sched_state option" where
  "push_ready t s = do {
     (q, ts) \<leftarrow> task_queue_push (ready_queue s) t (sc_tasks s);
     Some (s\<lparr>ready_queue := q, sc_tasks := ts\<rparr>)
   }"

definition scheduler_add_task :: "u64 \<Rightarrow> sched_state \<Rightarrow> sched_state option" where
  "scheduler_add_task t s =
     (if t = 0 then Some s
      else case interrupt_save s of (irq_was_enabled, s) \<Rightarrow> do {
        s \<leftarrow> push_ready t (set_task t (\<lambda>k. k\<lparr>task_state := TASK_READY\<rparr>) s);
        Some (interrupt_restore irq_was_enabled s)
      })"

definition scheduler_get_next_task :: "sched_state \<Rightarrow> u64" where
  "scheduler_get_next_task s = (if ready_queue s \<noteq> 0 then ready_queue s else idle s)"

definition scheduler_ready_queue_pop :: "sched_state \<Rightarrow> u64 \<times> sched_state" where
  "scheduler_ready_queue_pop s =
     (let t = ready_queue s in
      if t = 0 then (0, s)
      else (t, set_task t (\<lambda>k. k\<lparr>task_next := 0\<rparr>) (s\<lparr>ready_queue := task_next (sc_tasks s t)\<rparr>)))"

definition scheduler_schedule :: "sched_state \<Rightarrow> u64 \<times> sched_state" where
  "scheduler_schedule s =
     (let next = scheduler_get_next_task s in
      if next = 0 then (0, s)
      else
        let s = (if next \<noteq> idle s then snd (scheduler_ready_queue_pop s) else s)
        in scheduler_switch_to next s)"

text \<open>
  The switch at the end of \<open>scheduler_yield\<close>: \<open>context_switch\<close> enables interrupts before it returns into
  the next task; \<open>iretq\<close> loads the flag from the frame it pops.
\<close>

definition switch_context :: "u64 \<Rightarrow> u64 \<Rightarrow> sched_state \<Rightarrow> sched_state" where
  "switch_context previous next s = s\<lparr>last_switch := Context_Switch previous next, int_enabled := True\<rparr>"

definition switch_to_interrupt :: "u64 \<Rightarrow> u64 \<Rightarrow> sched_state \<Rightarrow> sched_state" where
  "switch_to_interrupt previous interrupt_rsp s =
     s\<lparr>last_switch := Interrupt_Switch previous interrupt_rsp,
       int_enabled := bit (load_u64 (hp_mem (sc_heap s)) (interrupt_rsp + frame_rflags)) 9\<rparr>"

text \<open>
  \<open>scheduler_yield\<close> in its two halves: a running task goes back to the ready queue, then the task
  chosen by \<open>scheduler_schedule\<close> is entered through its interrupt frame or its saved context.
\<close>

definition requeue_previous :: "sched_state \<Rightarrow> sched_state option" where
  "requeue_previous s =
     (let previous = current_task s in
      if previous \<noteq> 0 \<and> previous \<noteq> idle s \<and> task_state (sc_tasks s previous) = TASK_RUNNING
      then push_ready previous (scheduler_reset_resume_state previous
             (set_task previous (\<lambda>k. k\<lparr>task_state := TASK_READY\<rparr>) s))
      else Some s)"

definition enter_next :: "bool \<Rightarrow> u64 \<Rightarrow> u64 \<Rightarrow> sched_state \<Rightarrow> bool \<times> sched_state" where
  "enter_next irq_was_enabled previous next s =
     (if next = 0 \<or> next = previous then (False, interrupt_restore irq_was_enabled s)
      else if task_resume_uses_interrupt_frame (current_task s) (sc_tasks s)
      then let next_interrupt_rsp = task_interrupt_rsp (sc_tasks s (current_task s)) in
           if next_interrupt_rsp = 0 then (False, interrupt_restore irq_was_enabled s)
           else (True, switch_to_interrupt previous next_interrupt_rsp s)
      else (True, switch_context previous (current_task s) s))"

definition scheduler_yield :: "sched_state \<Rightarrow> (bool \<times> sched_state) option" where
  "scheduler_yield s =
     (case interrupt_save s of (irq_was_enabled, s) \<Rightarrow>
        let previous = current_task s in do {
          s \<leftarrow> requeue_previous s;
          case scheduler_schedule s of (next, s) \<Rightarrow> Some (enter_next irq_was_enabled previous next s)
        })"

definition scheduler_current_task :: "sched_state \<Rightarrow> u64" where
  "scheduler_current_task s = current_task s"

text \<open>A yield followed by \<open>interrupt_restore\<close>, which runs at once only when nothing was switched.\<close>

definition yield_then_restore :: "bool \<Rightarrow> sched_state \<Rightarrow> (bool \<times> sched_state) option" where
  "yield_then_restore irq_was_enabled s = do {
     (switched, s) \<leftarrow> scheduler_yield s;
     Some (switched, if switched then s else interrupt_restore irq_was_enabled s)
   }"

definition task_exit :: "sched_state \<Rightarrow> sched_state option" where
  "task_exit s =
     (if current_task s = 0 then None
      else do {
        (switched, s) \<leftarrow> scheduler_yield (set_task (current_task s) (\<lambda>k. k\<lparr>task_state := TASK_TERMINATED\<rparr>) s);
        if switched then Some s else None
      })"

section \<open>Blocking and sleeping\<close>

definition scheduler_block_current_locked :: "sched_state \<Rightarrow> (bool \<times> sched_state) option" where
  "scheduler_block_current_locked s =
     (if current_task s = 0 \<or> current_task s = idle s then Some (False, s)
      else
        let s = set_task (current_task s) (\<lambda>k. k\<lparr>task_state := TASK_BLOCKED\<rparr>) s in do {
          (q, ts) \<leftarrow> task_queue_push (blocked_queue s) (current_task s) (sc_tasks s);
          scheduler_yield (s\<lparr>blocked_queue := q, sc_tasks := ts\<rparr>)
        })"

definition scheduler_block_current :: "sched_state \<Rightarrow> (bool \<times> sched_state) option" where
  "scheduler_block_current s =
     (case interrupt_save s of (irq_was_enabled, s) \<Rightarrow> do {
        (switched, s) \<leftarrow> scheduler_block_current_locked s;
        Some (switched, if switched then s else interrupt_restore irq_was_enabled s)
      })"

definition scheduler_unblock :: "u64 \<Rightarrow> sched_state \<Rightarrow> sched_state option" where
  "scheduler_unblock t s =
     (if t = 0 then Some s
      else if task_state (sc_tasks s t) \<noteq> TASK_BLOCKED then Some s
      else case interrupt_save s of (irq_was_enabled, s) \<Rightarrow> do {
        (q, ts) \<leftarrow> task_queue_remove (blocked_queue s) t (sc_tasks s);
        let s = s\<lparr>blocked_queue := q, sc_tasks := ts\<rparr>;
        let s = set_task t (\<lambda>k. k\<lparr>task_state := TASK_READY\<rparr>) s;
        s \<leftarrow> push_ready t (scheduler_reset_resume_state t s);
        Some (interrupt_restore irq_was_enabled s)
      })"

definition scheduler_sleep_queue_add :: "u64 \<Rightarrow> sched_state \<Rightarrow> sched_state option" where
  "scheduler_sleep_queue_add t s = do {
     (q, ts) \<leftarrow> task_queue_push (sleep_queue s) t (sc_tasks s);
     Some (s\<lparr>sleep_queue := q, sc_tasks := ts\<rparr>)
   }"

definition pit_ticks :: "sched_state \<Rightarrow> u64" where
  "pit_ticks s = system_ticks s"

definition scheduler_get_ticks :: "sched_state \<Rightarrow> u64" where
  "scheduler_get_ticks s = pit_ticks s"

text \<open>The part of the loop body of \<open>scheduler_check_sleeping_tasks\<close> that wakes a task.\<close>

definition wake_task :: "u64 \<Rightarrow> sched_state \<Rightarrow> sched_state option" where
  "wake_task t s = do {
     (q, ts) \<leftarrow> task_queue_remove (sleep_queue s) t (sc_tasks s);
     let s = s\<lparr>sleep_queue := q, sc_tasks := ts\<rparr>;
     let s = set_task t (\<lambda>k. k\<lparr>task_state := TASK_READY\<rparr>) s;
     push_ready t (scheduler_reset_resume_state t s)
   }"

partial_function (option) check_sleeping_loop :: "u64 \<Rightarrow> sched_state \<Rightarrow> sched_state option" where
  "check_sleeping_loop t s =
     (if t = 0 then Some s
      else
        let next = task_next (sc_tasks s t) in do {
          s \<leftarrow> (if pit_ticks s \<ge> task_wake_tick (sc_tasks s t) then wake_task t s else Some s);
          check_sleeping_loop next s
        })"

definition scheduler_check_sleeping_tasks :: "sched_state \<Rightarrow> sched_state option" where
  "scheduler_check_sleeping_tasks s = check_sleeping_loop (sleep_queue s) s"

definition scheduler_sleep :: "u64 \<Rightarrow> sched_state \<Rightarrow> (bool \<times> sched_state) option" where
  "scheduler_sleep ticks s =
     (if current_task s = 0 \<or> current_task s = idle s then Some (False, s)
      else case interrupt_save s of (irq_was_enabled, s) \<Rightarrow>
        let s = set_task (current_task s)
                  (\<lambda>k. k\<lparr>task_wake_tick := pit_ticks s + ticks, task_state := TASK_SLEEPING\<rparr>) s in do {
          s \<leftarrow> scheduler_sleep_queue_add (current_task s) s;
          yield_then_restore irq_was_enabled s
        })"

definition scheduler_tick :: "sched_state \<Rightarrow> sched_state option" where
  "scheduler_tick s = scheduler_check_sleeping_tasks s"

section \<open>Preemption\<close>

text \<open>
  The frame that makes an interrupt return start or resume the task: a user task enters ring 3 at the
  saved user registers, a kernel task enters \<open>context_resume_from_interrupt\<close> (whose address is the
  argument \<open>resume\<close>) with its context in \<open>rdi\<close>.
\<close>

definition scheduler_build_context_interrupt_rsp :: "u64 \<Rightarrow> u64 \<Rightarrow> sched_state \<Rightarrow> u64 \<times> sched_state" where
  "scheduler_build_context_interrupt_rsp resume t s =
     (if t = 0 then (0, s)
      else if ctx_rsp (task_context (sc_tasks s t)) = 0 then (0, s)
      else
        let p = task_process (sc_tasks s t);
            is_user = (p \<noteq> 0 \<and> proc_is_user_process (sc_procs s p));
            frame = ctx_rsp (task_context (sc_tasks s t)) - sizeof_interrupt_frame;
            s = set_mem (k_memset frame 0 sizeof_interrupt_frame) s;
            s = set_mem (store_u64 (frame + frame_rdi) (t + offset_context)) s
        in if is_user
           then
             let s = set_mem (store_u64 (frame + frame_rip) (proc_user_rip (sc_procs s p))) s;
                 s = set_mem (store_u64 (frame + frame_rsp) (proc_user_rsp (sc_procs s p))) s;
                 s = set_mem (store_u64 (frame + frame_rflags) (proc_user_rflags (sc_procs s p))) s;
                 s = set_mem (store_u64 (frame + frame_cs) (USER_CODE_SELECTOR OR 3)) s;
                 s = set_mem (store_u64 (frame + frame_ss) (USER_DATA_SELECTOR OR 3)) s
             in (frame, s)
           else
             let s = set_mem (store_u64 (frame + frame_rip) resume) s;
                 s = set_mem (store_u64 (frame + frame_cs) KERNEL_CODE_SELECTOR) s;
                 s = set_mem (store_u64 (frame + frame_rflags) KERNEL_TRAMPOLINE_RFLAGS) s;
                 s = set_mem (store_u64 (frame + frame_rsp) 0) s;
                 s = set_mem (store_u64 (frame + frame_ss) 0) s
             in (frame, s))"

definition scheduler_preempt :: "u64 \<Rightarrow> sched_state \<Rightarrow> sched_state" where
  "scheduler_preempt context s =
     (if context = 0 then s
      else if current_task s = 0 then s
      else if current_task s = idle s then s
      else
        let s = s\<lparr>preemption_ticks := preemption_ticks s + 1\<rparr> in
        if preemption_ticks s < SCHEDULER_TIME_SLICE then s
        else
          let s = s\<lparr>preemption_ticks := 0\<rparr> in
          if ready_queue s = 0 then s
          else s\<lparr>preemption_requested := True\<rparr>)"

definition scheduler_save_interrupt_context :: "u64 \<Rightarrow> sched_state \<Rightarrow> sched_state" where
  "scheduler_save_interrupt_context interrupt_rsp s =
     (if current_task s = 0 then s
      else if current_task s = idle s then s
      else set_task (current_task s)
             (\<lambda>k. k\<lparr>task_interrupt_rsp := interrupt_rsp, task_mode := TASK_RESUME_INTERRUPT\<rparr>) s)"

text \<open>The choice of the frame in \<open>scheduler_get_next_interrupt_rsp\<close>.\<close>

definition next_interrupt_frame :: "u64 \<Rightarrow> u64 \<Rightarrow> sched_state \<Rightarrow> u64 \<times> sched_state" where
  "next_interrupt_frame resume next s =
     (let p = task_process (sc_tasks s next) in
      if p \<noteq> 0 \<and> proc_is_user_process (sc_procs s p)
      then if \<not> proc_user_started (sc_procs s p)
           then scheduler_build_context_interrupt_rsp resume next
                  (set_proc p (\<lambda>r. r\<lparr>proc_user_started := True\<rparr>) s)
           else (task_interrupt_rsp (sc_tasks s next), s)
      else if task_resume_uses_interrupt_frame next (sc_tasks s)
           then (task_interrupt_rsp (sc_tasks s next), s)
           else scheduler_build_context_interrupt_rsp resume next s)"

text \<open>The interrupted task, when it still runs, goes back to the ready queue with its frame.\<close>

definition requeue_preempted :: "sched_state \<Rightarrow> sched_state option" where
  "requeue_preempted s =
     (let previous = current_task s in
      if previous \<noteq> 0 \<and> previous \<noteq> idle s \<and> task_state (sc_tasks s previous) = TASK_RUNNING
      then push_ready previous (set_task previous (\<lambda>k. k\<lparr>task_state := TASK_READY\<rparr>) s)
      else Some s)"

definition scheduler_get_next_interrupt_rsp :: "u64 \<Rightarrow> sched_state \<Rightarrow> (u64 \<times> sched_state) option" where
  "scheduler_get_next_interrupt_rsp resume s =
     (if \<not> preemption_requested s then Some (0, s)
      else
        let next = scheduler_get_next_task s in
        if next = 0 \<or> next = idle s then Some (0, s\<lparr>preemption_requested := False\<rparr>)
        else case next_interrupt_frame resume next s of (next_interrupt_rsp, s) \<Rightarrow>
          if next_interrupt_rsp = 0 then Some (0, s\<lparr>preemption_requested := False\<rparr>)
          else
            do {
              s \<leftarrow> requeue_preempted (snd (scheduler_ready_queue_pop s));
              Some (next_interrupt_rsp, s\<lparr>pending_task := next, preemption_requested := False\<rparr>)
            })"

definition scheduler_peek_next_ready_task :: "sched_state \<Rightarrow> u64" where
  "scheduler_peek_next_ready_task s = (if ready_queue s = 0 then idle s else ready_queue s)"

definition scheduler_commit_pending_task :: "sched_state \<Rightarrow> sched_state" where
  "scheduler_commit_pending_task s =
     (if pending_task s = 0 then s
      else
        let s = s\<lparr>current_task := pending_task s, preemption_ticks := 0\<rparr>;
            s = (if current_task s \<noteq> idle s
                 then set_task (current_task s) (\<lambda>k. k\<lparr>task_state := TASK_RUNNING\<rparr>) s else s)
        in s\<lparr>pending_task := 0\<rparr>)"

text \<open>
  The end of the interrupt stub: the frame of the interrupted task is saved, and the stub returns
  through the frame of the next task when there is one.
\<close>

definition isr_return :: "u64 \<Rightarrow> u64 \<Rightarrow> sched_state \<Rightarrow> (u64 \<times> sched_state) option" where
  "isr_return resume interrupt_rsp s = do {
     (rax, s) \<leftarrow> scheduler_get_next_interrupt_rsp resume (scheduler_save_interrupt_context interrupt_rsp s);
     Some (if rax = 0 then (interrupt_rsp, s) else (rax, scheduler_commit_pending_task s))
   }"

definition pit_irq_handler :: "u64 \<Rightarrow> sched_state \<Rightarrow> sched_state option" where
  "pit_irq_handler context s = do {
     s \<leftarrow> scheduler_tick (s\<lparr>system_ticks := system_ticks s + 1\<rparr>);
     Some (scheduler_preempt context s)
   }"

end
