(* ===== verification/Scheduling.thy ===== *)
theory Scheduling
  imports Scheduler Heap_Blocks
begin

text \<open>
  Correctness of the scheduler. A state is described by three lists, the tasks of the ready, blocked
  and sleep queues; \<open>sched_ok\<close> says that the linked queues of the kernel hold exactly these tasks, that
  no task is in two queues or twice in one, that every queued task has the state its queue stands
  for, and that the running task is in none of them. Every operation is shown to end and to be an
  operation on these lists: a yield is a step of a round robin, blocking and sleeping move the running
  task, the timer wakes exactly the sleepers that are due, in their order, and an interrupt return
  hands the processor to the head of the ready queue once the time slice is used up.
\<close>

section \<open>The queues of a state\<close>

definition linked :: "task_store \<Rightarrow> u64 \<Rightarrow> u64 \<Rightarrow> u64 \<Rightarrow> u64 list \<Rightarrow> u64 list \<Rightarrow> u64 list \<Rightarrow> bool" where
  "linked ts rq bq sq r b z \<longleftrightarrow>
     queue_rep ts rq r \<and> queue_rep ts bq b \<and> queue_rep ts sq z \<and> distinct (r @ b @ z)"

definition states_ok :: "task_store \<Rightarrow> u64 list \<Rightarrow> u64 list \<Rightarrow> u64 list \<Rightarrow> bool" where
  "states_ok ts r b z \<longleftrightarrow> (\<forall>t \<in> set r. task_state (ts t) = TASK_READY) \<and>
     (\<forall>t \<in> set b. task_state (ts t) = TASK_BLOCKED) \<and> (\<forall>t \<in> set z. task_state (ts t) = TASK_SLEEPING)"

abbreviation queues :: "sched_state \<Rightarrow> u64 list \<Rightarrow> u64 list \<Rightarrow> u64 list \<Rightarrow> bool" where
  "queues s r b z \<equiv> linked (sc_tasks s) (ready_queue s) (blocked_queue s) (sleep_queue s) r b z"

definition idle_ok :: "sched_state \<Rightarrow> u64 list \<Rightarrow> bool" where
  "idle_ok s q \<longleftrightarrow> idle s \<notin> set q \<and> (idle s \<noteq> 0 \<longrightarrow> task_state (sc_tasks s (idle s)) = TASK_IDLE)"

text \<open>Between two operations the task that holds the processor is running and in no queue.\<close>

definition sched_ok :: "sched_state \<Rightarrow> u64 list \<Rightarrow> u64 list \<Rightarrow> u64 list \<Rightarrow> bool" where
  "sched_ok s r b z \<longleftrightarrow> queues s r b z \<and> states_ok (sc_tasks s) r b z \<and> idle_ok s (r @ b @ z) \<and>
     pending_task s = 0 \<and> current_task s \<notin> set (r @ b @ z) \<and>
     (current_task s = 0 \<or> current_task s = idle s \<or> task_state (sc_tasks s (current_task s)) = TASK_RUNNING)"

text \<open>What no operation of the scheduler proper changes.\<close>

definition same_env :: "sched_state \<Rightarrow> sched_state \<Rightarrow> bool" where
  "same_env s s' \<longleftrightarrow> idle s' = idle s \<and> pending_task s' = pending_task s \<and> system_ticks s' = system_ticks s \<and>
     (\<forall>x. task_wake_tick (sc_tasks s' x) = task_wake_tick (sc_tasks s x))"

lemma same_env_refl [simp]: "same_env s s"
  by (simp add: same_env_def)

lemma linked_not_null: "linked ts rq bq sq r b z \<Longrightarrow> 0 \<notin> set (r @ b @ z)"
  using queue_rep_not_null by (auto simp: linked_def)

lemma linked_upd [simp]:
  assumes "\<And>k. task_next (f k) = task_next k"
  shows "linked (upd_task t f ts) rq bq sq r b z = linked ts rq bq sq r b z"
  using assms by (simp add: linked_def upd_task_def)

lemma set_task_fields [simp]:
  "sc_tasks (set_task t f s) = upd_task t f (sc_tasks s)"
  "ready_queue (set_task t f s) = ready_queue s"
  "blocked_queue (set_task t f s) = blocked_queue s"
  "sleep_queue (set_task t f s) = sleep_queue s"
  "current_task (set_task t f s) = current_task s"
  "idle (set_task t f s) = idle s"
  "pending_task (set_task t f s) = pending_task s"
  "system_ticks (set_task t f s) = system_ticks s"
  "preemption_ticks (set_task t f s) = preemption_ticks s"
  "preemption_requested (set_task t f s) = preemption_requested s"
  "sc_procs (set_task t f s) = sc_procs s"
  "sc_heap (set_task t f s) = sc_heap s"
  "int_enabled (set_task t f s) = int_enabled s"
  "tss_rsp0 (set_task t f s) = tss_rsp0 s"
  by (simp_all add: set_task_def)

lemma set_vm_fields [simp]:
  "sc_tasks (set_vm v s) = sc_tasks s"
  "ready_queue (set_vm v s) = ready_queue s"
  "blocked_queue (set_vm v s) = blocked_queue s"
  "sleep_queue (set_vm v s) = sleep_queue s"
  "idle (set_vm v s) = idle s"
  "pending_task (set_vm v s) = pending_task s"
  "system_ticks (set_vm v s) = system_ticks s"
  "sc_procs (set_vm v s) = sc_procs s"
  "int_enabled (set_vm v s) = int_enabled s"
  by (simp_all add: set_vm_def)

lemma upd_task_apply: "upd_task t f ts x = (if x = t then f (ts t) else ts x)"
  by (simp add: upd_task_def)

lemma same_but_next_states_ok:
  "same_but_next ts ts' \<Longrightarrow> states_ok ts' r b z = states_ok ts r b z"
  by (simp add: states_ok_def same_but_nextD)

section \<open>Moving tasks\<close>

lemma push_three:
  assumes rep: "queue_rep ts p1 q1" "queue_rep ts p2 q2" "queue_rep ts p3 q3"
    and d: "distinct (q1 @ q2 @ q3)" and t: "t \<noteq> 0" "t \<notin> set (q1 @ q2 @ q3)"
  shows "\<exists>p ts'. task_queue_push p1 t ts = Some (p, ts') \<and> queue_rep ts' p (q1 @ [t]) \<and>
           queue_rep ts' p2 q2 \<and> queue_rep ts' p3 q3 \<and> same_but_next ts ts' \<and> same_links ts ts' (- insert t (set q1))"
proof -
  have tr: "t \<notin> set q1" using t by simp
  obtain p ts' where push: "task_queue_push p1 t ts = Some (p, ts')" "same_but_next ts ts'"
    using task_queue_push_list [OF rep(1) t(1) tr] by blast
  have "set q2 \<inter> insert t (set q1) = {}" "set q3 \<inter> insert t (set q1) = {}" using d t by auto
  note tq.push_others [OF rep(1) t(1) tr rep(2) this(1) push(1)]
    tq.push_others(2) [OF rep(1) t(1) tr rep(3) this(2) push(1)]
  with push show ?thesis by blast
qed

lemma push_ready_queues:
  assumes q: "queues s r b z" and t: "t \<noteq> 0" "t \<notin> set (r @ b @ z)"
  shows "\<exists>p ts. push_ready t s = Some (s\<lparr>ready_queue := p, sc_tasks := ts\<rparr>) \<and>
           linked ts p (blocked_queue s) (sleep_queue s) (r @ [t]) b z \<and> same_but_next (sc_tasks s) ts \<and>
           same_links (sc_tasks s) ts (- insert t (set r))"
proof -
  obtain p ts where "task_queue_push (ready_queue s) t (sc_tasks s) = Some (p, ts)"
    "linked ts p (blocked_queue s) (sleep_queue s) (r @ [t]) b z" "same_but_next (sc_tasks s) ts"
    "same_links (sc_tasks s) ts (- insert t (set r))"
    using push_three [of "sc_tasks s" "ready_queue s" r "blocked_queue s" b "sleep_queue s" z t] q t
    by (auto simp: linked_def)
  then show ?thesis by (intro exI [of _ p] exI [of _ ts]) (simp add: push_ready_def)
qed

lemma push_blocked_queues:
  assumes q: "queues s r b z" and t: "t \<noteq> 0" "t \<notin> set (r @ b @ z)"
  shows "\<exists>p ts. task_queue_push (blocked_queue s) t (sc_tasks s) = Some (p, ts) \<and>
           linked ts (ready_queue s) p (sleep_queue s) r (b @ [t]) z \<and> same_but_next (sc_tasks s) ts"
  using push_three [of "sc_tasks s" "blocked_queue s" b "ready_queue s" r "sleep_queue s" z t] q t
  by (auto simp: linked_def)

lemma push_sleep_queues:
  assumes q: "queues s r b z" and t: "t \<noteq> 0" "t \<notin> set (r @ b @ z)"
  shows "\<exists>p ts. scheduler_sleep_queue_add t s = Some (s\<lparr>sleep_queue := p, sc_tasks := ts\<rparr>) \<and>
           linked ts (ready_queue s) (blocked_queue s) p r b (z @ [t]) \<and> same_but_next (sc_tasks s) ts"
proof -
  obtain p ts where "task_queue_push (sleep_queue s) t (sc_tasks s) = Some (p, ts)"
    "linked ts (ready_queue s) (blocked_queue s) p r b (z @ [t])" "same_but_next (sc_tasks s) ts"
    using push_three [of "sc_tasks s" "sleep_queue s" z "ready_queue s" r "blocked_queue s" b t] q t
    by (auto simp: linked_def)
  then show ?thesis by (intro exI [of _ p] exI [of _ ts]) (simp add: scheduler_sleep_queue_add_def)
qed

text \<open>
  A task that leaves the queue \<open>q\<close> for the end of the ready queue: the common tail of
  \<open>scheduler_unblock\<close> and of the wake-up loop. The third queue is not involved.
\<close>

definition make_ready :: "task \<Rightarrow> task" where
  "make_ready k = k\<lparr>task_state := TASK_READY, task_interrupt_rsp := 0, task_mode := TASK_RESUME_CONTEXT\<rparr>"

lemma make_ready_fields [simp]:
  "task_next (make_ready k) = task_next k" "task_state (make_ready k) = TASK_READY"
  "task_wake_tick (make_ready k) = task_wake_tick k" "task_process (make_ready k) = task_process k"
  by (simp_all add: make_ready_def)

lemma reset_after_ready:
  "t \<noteq> 0 \<Longrightarrow> scheduler_reset_resume_state t (set_task t (\<lambda>k. k\<lparr>task_state := TASK_READY\<rparr>) s) =
     set_task t make_ready s"
  by (simp add: scheduler_reset_resume_state_def set_task_def upd_task_def make_ready_def)

lemma same_but_next_make_ready:
  assumes "same_but_next ts ts'"
  shows "same_but_next (upd_task t make_ready ts) (upd_task t make_ready ts')"
proof -
  have "(make_ready (ts' t))\<lparr>task_next := 0\<rparr> = (make_ready (ts t))\<lparr>task_next := 0\<rparr>"
    using assms by (cases "ts t"; cases "ts' t") (auto simp: same_but_next_def make_ready_def dest!: spec [of _ t])
  then show ?thesis using assms by (simp add: same_but_next_def upd_task_def)
qed

lemma move_to_ready:
  assumes rep: "queue_rep ts p q" "queue_rep ts rq r" "queue_rep ts p3 q3"
    and d: "distinct (r @ q @ q3)" and t: "t \<in> set q"
  shows "\<exists>p' ts1 rq' ts2. task_queue_remove p t ts = Some (p', ts1) \<and>
           task_queue_push rq t (upd_task t make_ready ts1) = Some (rq', ts2) \<and>
           queue_rep ts2 p' (remove1 t q) \<and> queue_rep ts2 rq' (r @ [t]) \<and> queue_rep ts2 p3 q3 \<and>
           same_but_next (upd_task t make_ready ts) ts2 \<and> same_links ts ts2 (- (set r \<union> set q))"
proof -
  have "same_links ts (upd_task t make_ready ts) UNIV" for ts
    by (simp add: same_links_def upd_task_def)
  moreover have "set q \<inter> set r = {}" using d by auto
  ultimately obtain p' ts1 rq' ts2 where m: "task_queue_remove p t ts = Some (p', ts1)"
    "task_queue_push rq t (upd_task t make_ready ts1) = Some (rq', ts2)" "queue_rep ts2 p' (remove1 t q)"
    "queue_rep ts2 rq' (r @ [t])" and links: "same_links ts ts2 (- (set q \<union> set r))"
    using tq.move [OF rep(1,2) t] by blast
  have "queue_rep ts2 p3 q3"
    by (rule tq.rep_frame [OF rep(3)], rule tq.agree_mono [OF links]) (use d in auto)
  moreover have "same_but_next (upd_task t make_ready ts) ts2"
  proof (rule same_but_next_trans)
    have "same_but_next ts ts1" using task_queue_remove_list [OF rep(1), of t] m(1) by auto
    then show "same_but_next (upd_task t make_ready ts) (upd_task t make_ready ts1)"
      by (rule same_but_next_make_ready)
    have "queue_rep ts1 rq r" by (rule tq.remove_others(2) [OF rep(1,2) _ m(1)]) (use d in auto)
    then have "queue_rep (upd_task t make_ready ts1) rq r" by (simp add: upd_task_def)
    moreover have "t \<noteq> 0" using tq.rep_valid [OF rep(1) t] .
    moreover have "t \<notin> set r" using t d by auto
    ultimately show "same_but_next (upd_task t make_ready ts1) ts2"
      using task_queue_push_list m(2) by fastforce
  qed
  moreover have "same_links ts ts2 (- (set r \<union> set q))" using links by (simp add: Un_commute)
  ultimately show ?thesis using m by blast
qed

section \<open>Choosing and entering a task\<close>

definition next_task :: "u64 \<Rightarrow> u64 list \<Rightarrow> u64" where
  "next_task i r = (case r of [] \<Rightarrow> i | t # _ \<Rightarrow> t)"

text \<open>What entering the task \<open>n\<close> changes of the task store: it becomes running, unless it is the idle task.\<close>

definition entered :: "u64 \<Rightarrow> sched_state \<Rightarrow> sched_state \<Rightarrow> bool" where
  "entered n s s' \<longleftrightarrow> same_env s s' \<and> current_task s' = n \<and>
     (\<forall>x. x \<noteq> n \<longrightarrow> task_next (sc_tasks s' x) = task_next (sc_tasks s x)) \<and>
     (\<forall>x. task_state (sc_tasks s' x) = (if x = n \<and> n \<noteq> idle s then TASK_RUNNING else task_state (sc_tasks s x)))"

lemma scheduler_switch_to_entered:
  assumes "n \<noteq> 0"
  shows "\<exists>s'. scheduler_switch_to n s = (n, s') \<and> entered n s s' \<and> preemption_ticks s' = 0 \<and>
           tss_rsp0 s' = task_kernel_stack (sc_tasks s n) + task_kernel_stack_size (sc_tasks s n) \<and>
           (\<forall>r b z. queues s' r b z = queues s r b z)"
  using assms
  by (auto simp: scheduler_switch_to_def Let_def tss_set_rsp0_def entered_def same_env_def upd_task_apply)

lemma scheduler_ready_queue_pop_queues:
  assumes "queues s (t # r) b z"
  shows "\<exists>s'. scheduler_ready_queue_pop s = (t, s') \<and> queues s' r b z \<and> same_env s s' \<and>
           same_but_next (sc_tasks s) (sc_tasks s') \<and> current_task s' = current_task s \<and> idle s' = idle s \<and>
           (\<forall>x. x \<noteq> t \<longrightarrow> task_next (sc_tasks s' x) = task_next (sc_tasks s x))"
proof -
  have t: "ready_queue s = t" "t \<noteq> 0" using assms by (auto simp: linked_def)
  have "t \<notin> set r" "t \<notin> set b" "t \<notin> set z" using assms by (auto simp: linked_def)
  then show ?thesis using assms t
    by (simp add: scheduler_ready_queue_pop_def linked_def upd_task_def same_env_def same_but_next_def)
qed

lemma scheduler_schedule_queues:
  assumes q: "queues s r b z" and i: "idle s \<notin> set r"
  shows "\<exists>s'. scheduler_schedule s = (next_task (idle s) r, s') \<and> queues s' (tl r) b z \<and>
           (if next_task (idle s) r = 0 then s' = s else entered (next_task (idle s) r) s s')"
proof (cases r)
  case Nil
  then have "ready_queue s = 0" using q by (simp add: linked_def)
  then have "scheduler_schedule s = (if idle s = 0 then (0, s) else scheduler_switch_to (idle s) s)"
    by (simp add: scheduler_schedule_def scheduler_get_next_task_def)
  then show ?thesis using Nil q scheduler_switch_to_entered [of "idle s" s]
    by (auto simp: next_task_def split: if_splits)
next
  case (Cons t r')
  then have t: "ready_queue s = t" "t \<noteq> 0" using q by (auto simp: linked_def)
  obtain s1 where pop: "scheduler_ready_queue_pop s = (t, s1)" "queues s1 r' b z" "same_env s s1"
    "same_but_next (sc_tasks s) (sc_tasks s1)" "idle s1 = idle s"
    "\<forall>x. x \<noteq> t \<longrightarrow> task_next (sc_tasks s1 x) = task_next (sc_tasks s x)"
    using scheduler_ready_queue_pop_queues [of s t r' b z] q Cons by blast
  have "t \<noteq> idle s" using i Cons by auto
  then have sched: "scheduler_schedule s = scheduler_switch_to t s1"
    using t pop(1) by (simp add: scheduler_schedule_def scheduler_get_next_task_def)
  obtain s2 where s2: "scheduler_switch_to t s1 = (t, s2)" "entered t s1 s2"
    "\<forall>r b z. queues s2 r b z = queues s1 r b z"
    using scheduler_switch_to_entered [OF t(2), of s1] by blast
  have "entered t s s2"
    using s2(2) pop(3,5,6) same_but_nextD(1) [OF pop(4)] by (simp add: entered_def same_env_def)
  then show ?thesis using sched s2 pop(2) Cons t(2) by (simp add: next_task_def)
qed

section \<open>Yielding\<close>

text \<open>
  The second half of \<open>scheduler_yield\<close>, after the running task has or has not been requeued: the queues
  lose the head of the ready queue, which becomes the running task.
\<close>

lemma states_ok_entered:
  assumes st: "states_ok (sc_tasks s) r b z" and d: "distinct (r @ b @ z)" and i: "idle s \<notin> set (r @ b @ z)"
    and e: "entered (next_task (idle s) r) s s'"
  shows "states_ok (sc_tasks s') (tl r) b z"
proof (cases r)
  case Nil
  then show ?thesis using e st by (auto simp: entered_def states_ok_def next_task_def)
next
  case (Cons t r')
  have "\<forall>x \<in> set r'. x \<noteq> t" "\<forall>x \<in> set b. x \<noteq> t" "\<forall>x \<in> set z. x \<noteq> t" using d Cons by auto
  then show ?thesis using e st Cons by (auto simp: entered_def states_ok_def next_task_def)
qed

lemma entered_sched_ok:
  assumes q: "queues s r b z" "queues s' (tl r) b z" and st: "states_ok (sc_tasks s) r b z"
    and i: "idle_ok s (r @ b @ z)" and e: "entered (next_task (idle s) r) s s'" and p: "pending_task s = 0"
  shows "sched_ok s' (tl r) b z"
proof -
  have d: "distinct (r @ b @ z)" using q(1) by (simp add: linked_def)
  have id: "idle s' = idle s" "pending_task s' = 0" "current_task s' = next_task (idle s) r"
    using e p by (auto simp: entered_def same_env_def)
  have "states_ok (sc_tasks s') (tl r) b z"
    by (rule states_ok_entered [OF st d _ e]) (use i in \<open>simp add: idle_ok_def\<close>)
  moreover have "next_task (idle s) r \<notin> set (tl r @ b @ z)"
    using d i by (cases r) (auto simp: next_task_def idle_ok_def)
  moreover have "idle_ok s' (tl r @ b @ z)"
    using i e id by (cases r) (auto simp: idle_ok_def entered_def)
  moreover have "next_task (idle s) r = idle s \<or> task_state (sc_tasks s' (next_task (idle s) r)) = TASK_RUNNING"
    using e by (simp add: entered_def)
  ultimately show ?thesis using q(2) id by (simp add: sched_ok_def)
qed

lemma interrupt_restore_effect:
  "interrupt_restore e s = s\<lparr>last_switch := last_switch s, int_enabled := e \<or> int_enabled s\<rparr>"
  by (cases s) (simp add: interrupt_restore_def)

lemma enter_next_effect:
  assumes "n = 0 \<or> current_task s = n"
  shows "\<exists>i w. enter_next e c n s = (n \<noteq> 0 \<and> n \<noteq> c, s\<lparr>last_switch := w, int_enabled := i\<rparr>)"
proof (cases "n = 0 \<or> n = c")
  case True
  then have "enter_next e c n s = (n \<noteq> 0 \<and> n \<noteq> c, interrupt_restore e s)"
    by (simp add: enter_next_def)
  then show ?thesis unfolding interrupt_restore_effect by blast
next
  case False
  show ?thesis
  proof (cases "task_resume_uses_interrupt_frame (current_task s) (sc_tasks s)")
    case True
    then have "enter_next e c n s =
        (n \<noteq> 0 \<and> n \<noteq> c, switch_to_interrupt c (task_interrupt_rsp (sc_tasks s (current_task s))) s)"
      using False by (simp add: enter_next_def task_resume_uses_interrupt_frame_def Let_def)
    then show ?thesis unfolding switch_to_interrupt_def by blast
  next
    case no_frame: False
    then have "enter_next e c n s = (n \<noteq> 0 \<and> n \<noteq> c, switch_context c (current_task s) s)"
      using False by (simp add: enter_next_def)
    then show ?thesis unfolding switch_context_def by blast
  qed
qed

lemma scheduler_yield_steps:
  assumes requeue: "requeue_previous (s\<lparr>int_enabled := False\<rparr>) = Some s1"
    and q: "queues s1 r b z" and i: "idle s1 \<notin> set r"
  shows "\<exists>s2. scheduler_yield s = Some (next_task (idle s1) r \<noteq> 0 \<and> next_task (idle s1) r \<noteq> current_task s, s2) \<and>
           queues s2 (tl r) b z \<and>
           (if next_task (idle s1) r = 0
            then same_env s1 s2 \<and> sc_tasks s2 = sc_tasks s1 \<and> current_task s2 = current_task s1
            else entered (next_task (idle s1) r) s1 s2)"
proof -
  define n where "n = next_task (idle s1) r"
  obtain s2 where s2: "scheduler_schedule s1 = (n, s2)" "queues s2 (tl r) b z"
    "if n = 0 then s2 = s1 else entered n s1 s2"
    using scheduler_schedule_queues [OF q i] by (auto simp: n_def)
  then have "n = 0 \<or> current_task s2 = n" by (auto simp: entered_def split: if_splits)
  then obtain j w where "enter_next (int_enabled s) (current_task s) n s2 =
      (n \<noteq> 0 \<and> n \<noteq> current_task s, s2\<lparr>last_switch := w, int_enabled := j\<rparr>)"
    using enter_next_effect by blast
  then have "scheduler_yield s = Some (n \<noteq> 0 \<and> n \<noteq> current_task s, s2\<lparr>last_switch := w, int_enabled := j\<rparr>)"
    using requeue s2(1) by (simp add: scheduler_yield_def interrupt_save_def)
  moreover have "queues (s2\<lparr>last_switch := w, int_enabled := j\<rparr>) (tl r) b z" using s2(2) by simp
  moreover have "if n = 0 then same_env s1 (s2\<lparr>last_switch := w, int_enabled := j\<rparr>) \<and> sc_tasks s2 = sc_tasks s1 \<and>
      current_task s2 = current_task s1 else entered n s1 (s2\<lparr>last_switch := w, int_enabled := j\<rparr>)"
    using s2(3) by (auto simp: entered_def same_env_def)
  ultimately show ?thesis unfolding n_def by (intro exI [of _ "s2\<lparr>last_switch := w, int_enabled := j\<rparr>"]) auto
qed

text \<open>A task that is still running goes to the end of the ready queue first.\<close>

lemma scheduler_yield_running:
  assumes ok: "sched_ok s r b z" and c: "current_task s \<noteq> 0" "current_task s \<noteq> idle s"
  shows "\<exists>s'. scheduler_yield s = Some (r \<noteq> [], s') \<and> sched_ok s' (tl (r @ [current_task s])) b z \<and>
           current_task s' = hd (r @ [current_task s]) \<and> same_env s s'"
proof -
  define c where "c = current_task s"
  define s0 where "s0 = set_task c make_ready (s\<lparr>int_enabled := False\<rparr>)"
  have run: "task_state (sc_tasks s c) = TASK_RUNNING" and fresh: "c \<notin> set (r @ b @ z)" "c \<noteq> 0"
    and q: "queues s r b z" and st: "states_ok (sc_tasks s) r b z" and i: "idle_ok s (r @ b @ z)"
    and p: "pending_task s = 0"
    using ok assms by (auto simp: sched_ok_def c_def)
  have q0: "queues s0 r b z" using q by (simp add: s0_def)
  obtain p' ts where push: "push_ready c s0 = Some (s0\<lparr>ready_queue := p', sc_tasks := ts\<rparr>)"
    "linked ts p' (blocked_queue s0) (sleep_queue s0) (r @ [c]) b z" "same_but_next (sc_tasks s0) ts"
    using push_ready_queues [OF q0 fresh(2,1)] by blast
  define s1 where "s1 = s0\<lparr>ready_queue := p', sc_tasks := ts\<rparr>"
  have requeue: "requeue_previous (s\<lparr>int_enabled := False\<rparr>) = Some s1"
    using push(1) assms run fresh
    by (simp add: requeue_previous_def Let_def c_def [symmetric] reset_after_ready s0_def s1_def)
  have q1: "queues s1 (r @ [c]) b z" using push(2) by (simp add: s1_def)
  have env: "same_env s s1" "idle s1 = idle s" "pending_task s1 = 0"
    using same_but_nextD(2) [OF push(3)] p by (auto simp: s1_def s0_def same_env_def upd_task_apply)
  have state1: "task_state (sc_tasks s1 x) = (if x = c then TASK_READY else task_state (sc_tasks s x))" for x
    using same_but_nextD(1) [OF push(3)] by (simp add: s1_def s0_def upd_task_apply)
  then have st1: "states_ok (sc_tasks s1) (r @ [c]) b z" using st fresh by (auto simp: states_ok_def)
  have i1: "idle_ok s1 ((r @ [c]) @ b @ z)" using i assms(3) env state1 by (auto simp: idle_ok_def c_def)
  have n: "next_task (idle s1) (r @ [c]) = hd (r @ [c])" by (cases r) (simp_all add: next_task_def)
  have "hd (r @ [c]) \<noteq> 0" using linked_not_null [OF q] fresh by (cases r) auto
  moreover have "hd (r @ [c]) \<noteq> c \<longleftrightarrow> r \<noteq> []" using fresh by (cases r) auto
  ultimately obtain s2 where s2: "scheduler_yield s = Some (r \<noteq> [], s2)" "queues s2 (tl (r @ [c])) b z"
    "entered (hd (r @ [c])) s1 s2"
    using scheduler_yield_steps [OF requeue q1] i1 by (auto simp: n c_def [symmetric] idle_ok_def)
  have "sched_ok s2 (tl (r @ [c])) b z"
    by (rule entered_sched_ok [OF q1 s2(2) st1 i1]) (use s2 n env in simp_all)
  moreover have "same_env s s2" using s2(3) env by (simp add: entered_def same_env_def)
  ultimately show ?thesis using s2 by (auto simp: c_def entered_def)
qed

text \<open>
  Any other caller (no task yet, the idle task, or a task that has just blocked, fallen asleep or
  ended) gives up the processor for the head of the ready queue or the idle task.
\<close>

lemma scheduler_yield_other:
  assumes q: "queues s r b z" and st: "states_ok (sc_tasks s) r b z" and i: "idle_ok s (r @ b @ z)"
    and p: "pending_task s = 0" and n: "next_task (idle s) r \<noteq> 0"
    and c: "current_task s = 0 \<or> current_task s = idle s \<or> task_state (sc_tasks s (current_task s)) \<noteq> TASK_RUNNING"
  shows "\<exists>s'. scheduler_yield s = Some (next_task (idle s) r \<noteq> current_task s, s') \<and> sched_ok s' (tl r) b z \<and>
           current_task s' = next_task (idle s) r \<and> same_env s s' \<and> entered (next_task (idle s) r) s s'"
proof -
  define s1 where "s1 = s\<lparr>int_enabled := False\<rparr>"
  have requeue: "requeue_previous (s\<lparr>int_enabled := False\<rparr>) = Some s1"
    using c by (auto simp: requeue_previous_def s1_def Let_def)
  have *: "queues s1 r b z" "states_ok (sc_tasks s1) r b z" "idle_ok s1 (r @ b @ z)" "pending_task s1 = 0"
    "idle s1 = idle s" "same_env s s1"
    using assms by (auto simp: s1_def idle_ok_def same_env_def)
  obtain s2 where s2: "scheduler_yield s = Some (next_task (idle s) r \<noteq> current_task s, s2)" "queues s2 (tl r) b z"
    "entered (next_task (idle s1) r) s1 s2"
    using scheduler_yield_steps [OF requeue *(1)] * n by (auto simp: idle_ok_def)
  have "sched_ok s2 (tl r) b z" by (rule entered_sched_ok [OF *(1) s2(2) *(2,3) s2(3) *(4)])
  moreover have "same_env s s2" using s2(3) *(6) by (simp add: entered_def same_env_def)
  moreover have "entered (next_task (idle s) r) s s2" using s2(3) by (simp add: entered_def same_env_def s1_def)
  ultimately show ?thesis using s2 *(5) by (auto simp: entered_def)
qed

section \<open>Adding, blocking and unblocking tasks\<close>

lemma scheduler_add_task_ok:
  assumes ok: "sched_ok s r b z" and t: "t \<noteq> 0" "t \<notin> set (r @ b @ z)" "t \<noteq> idle s" "t \<noteq> current_task s"
  shows "\<exists>s'. scheduler_add_task t s = Some s' \<and> sched_ok s' (r @ [t]) b z \<and> current_task s' = current_task s \<and>
           same_env s s' \<and> int_enabled s' = int_enabled s"
proof -
  define s0 where "s0 = set_task t (\<lambda>k. k\<lparr>task_state := TASK_READY\<rparr>) (s\<lparr>int_enabled := False\<rparr>)"
  have q0: "queues s0 r b z" using ok by (simp add: s0_def sched_ok_def)
  obtain p ts where push: "push_ready t s0 = Some (s0\<lparr>ready_queue := p, sc_tasks := ts\<rparr>)"
    "linked ts p (blocked_queue s0) (sleep_queue s0) (r @ [t]) b z" "same_but_next (sc_tasks s0) ts"
    using push_ready_queues [OF q0 t(1,2)] by blast
  define s1 where "s1 = interrupt_restore (int_enabled s) (s0\<lparr>ready_queue := p, sc_tasks := ts\<rparr>)"
  have run: "scheduler_add_task t s = Some s1"
    using t(1) push(1) by (simp add: scheduler_add_task_def interrupt_save_def s0_def [symmetric] s1_def)
  have st: "task_state (ts x) = (if x = t then TASK_READY else task_state (sc_tasks s x))" for x
    using same_but_nextD(1) [OF push(3)] by (simp add: s0_def upd_task_apply)
  have "task_wake_tick (ts x) = task_wake_tick (sc_tasks s x)" for x
    using same_but_nextD(2) [OF push(3)] by (simp add: s0_def upd_task_apply)
  then have "same_env s s1" by (simp add: same_env_def s1_def s0_def interrupt_restore_def)
  moreover have "sched_ok s1 (r @ [t]) b z"
    using ok push(2) st t by (auto simp: sched_ok_def s1_def s0_def interrupt_restore_def states_ok_def idle_ok_def)
  ultimately show ?thesis using run by (auto simp: s1_def s0_def interrupt_restore_def)
qed

lemma scheduler_block_current_ok:
  assumes ok: "sched_ok s r b z" and c: "current_task s \<noteq> 0" "current_task s \<noteq> idle s"
    and n: "next_task (idle s) r \<noteq> 0"
  shows "\<exists>s'. scheduler_block_current s = Some (True, s') \<and> sched_ok s' (tl r) (b @ [current_task s]) z \<and>
           current_task s' = next_task (idle s) r \<and> same_env s s'"
proof -
  define c where "c = current_task s"
  define s0 where "s0 = set_task c (\<lambda>k. k\<lparr>task_state := TASK_BLOCKED\<rparr>) (s\<lparr>int_enabled := False\<rparr>)"
  have fresh: "c \<notin> set (r @ b @ z)" "c \<noteq> 0" "c \<noteq> idle s" and q0: "queues s0 r b z"
    using ok assms by (auto simp: sched_ok_def c_def s0_def)
  obtain p ts where push: "task_queue_push (blocked_queue s0) c (sc_tasks s0) = Some (p, ts)"
    "linked ts (ready_queue s0) p (sleep_queue s0) r (b @ [c]) z" "same_but_next (sc_tasks s0) ts"
    using push_blocked_queues [OF q0 fresh(2,1)] by blast
  define s1 where "s1 = s0\<lparr>blocked_queue := p, sc_tasks := ts\<rparr>"
  have st: "task_state (ts x) = (if x = c then TASK_BLOCKED else task_state (sc_tasks s x))" for x
    using same_but_nextD(1) [OF push(3)] by (simp add: s0_def upd_task_apply)
  have "task_wake_tick (ts x) = task_wake_tick (sc_tasks s x)" for x
    using same_but_nextD(2) [OF push(3)] by (simp add: s0_def upd_task_apply)
  then have env: "same_env s s1" by (simp add: same_env_def s1_def s0_def)
  have 1: "queues s1 r (b @ [c]) z" "states_ok (sc_tasks s1) r (b @ [c]) z" "idle_ok s1 (r @ (b @ [c]) @ z)"
    "pending_task s1 = 0" "next_task (idle s1) r \<noteq> 0" "task_state (sc_tasks s1 (current_task s1)) \<noteq> TASK_RUNNING"
    using ok push(2) st fresh n by (auto simp: sched_ok_def s1_def s0_def states_ok_def idle_ok_def c_def)
  have "hd r \<noteq> c" if "r \<noteq> []" using that fresh by (cases r) auto
  then have sw: "next_task (idle s1) r \<noteq> current_task s1"
    using fresh(3) by (auto simp: next_task_def s1_def s0_def c_def split: list.split)
  obtain s2 where s2: "scheduler_yield s1 = Some (True, s2)" "sched_ok s2 (tl r) (b @ [c]) z"
    "current_task s2 = next_task (idle s1) r" "same_env s1 s2"
    using scheduler_yield_other [OF 1(1-5)] 1(6) sw by auto
  have "scheduler_block_current_locked (s\<lparr>int_enabled := False\<rparr>) = Some (True, s2)"
    using s2(1) fresh push(1)
    by (simp add: scheduler_block_current_locked_def c_def [symmetric] s0_def [symmetric] s1_def)
       (simp add: s0_def c_def [symmetric])
  then have "scheduler_block_current s = Some (True, s2)"
    by (simp add: scheduler_block_current_def interrupt_save_def)
  moreover have "same_env s s2" using env s2(4) by (simp add: same_env_def)
  ultimately show ?thesis using s2 by (auto simp: c_def s1_def s0_def)
qed

lemma scheduler_unblock_ok:
  assumes ok: "sched_ok s r b z" and t: "t \<in> set b"
  shows "\<exists>s'. scheduler_unblock t s = Some s' \<and> sched_ok s' (r @ [t]) (remove1 t b) z \<and>
           current_task s' = current_task s \<and> same_env s s'"
proof -
  have t0: "t \<noteq> 0" and bl: "task_state (sc_tasks s t) = TASK_BLOCKED" and d: "distinct (r @ b @ z)"
    and rep: "queue_rep (sc_tasks s) (ready_queue s) r" "queue_rep (sc_tasks s) (blocked_queue s) b"
      "queue_rep (sc_tasks s) (sleep_queue s) z"
    using ok t linked_not_null by (force simp: sched_ok_def states_ok_def linked_def)+
  obtain p ts1 rq ts2 where m: "task_queue_remove (blocked_queue s) t (sc_tasks s) = Some (p, ts1)"
    "task_queue_push (ready_queue s) t (upd_task t make_ready ts1) = Some (rq, ts2)"
    "queue_rep ts2 p (remove1 t b)" "queue_rep ts2 rq (r @ [t])" "queue_rep ts2 (sleep_queue s) z"
    "same_but_next (upd_task t make_ready (sc_tasks s)) ts2"
    using move_to_ready [OF rep(2,1,3) d t] by blast
  define s1 where "s1 = interrupt_restore (int_enabled s)
    (s\<lparr>int_enabled := False, blocked_queue := p, ready_queue := rq, sc_tasks := ts2\<rparr>)"
  have run: "scheduler_unblock t s = Some s1"
    using t0 bl m(1,2)
    by (simp add: scheduler_unblock_def interrupt_save_def reset_after_ready push_ready_def s1_def)
       (simp add: set_task_def)
  have st: "task_state (ts2 x) = (if x = t then TASK_READY else task_state (sc_tasks s x))" for x
    using same_but_nextD(1) [OF m(6)] by (simp add: upd_task_apply)
  have "task_wake_tick (ts2 x) = task_wake_tick (sc_tasks s x)" for x
    using same_but_nextD(2) [OF m(6)] by (simp add: upd_task_apply)
  then have env: "same_env s s1" by (simp add: same_env_def s1_def interrupt_restore_def)
  have "linked ts2 rq p (sleep_queue s) (r @ [t]) (remove1 t b) z"
    using m(3-5) d t by (auto simp: linked_def dest: notin_set_remove1)
  moreover have "\<forall>x \<in> set z. x \<noteq> t" "\<forall>x \<in> set (remove1 t b). x \<noteq> t" using d t by auto
  moreover have "set (remove1 t b) \<subseteq> set b" by (rule set_remove1_subset)
  ultimately have "sched_ok s1 (r @ [t]) (remove1 t b) z"
    using ok st t by (auto simp: sched_ok_def s1_def interrupt_restore_def states_ok_def idle_ok_def)
  then show ?thesis using run env by (auto simp: s1_def interrupt_restore_def)
qed

section \<open>Sleeping and waking\<close>

lemma scheduler_sleep_ok:
  assumes ok: "sched_ok s r b z" and c: "current_task s \<noteq> 0" "current_task s \<noteq> idle s"
    and n: "next_task (idle s) r \<noteq> 0"
  shows "\<exists>s'. scheduler_sleep d s = Some (True, s') \<and> sched_ok s' (tl r) b (z @ [current_task s]) \<and>
           current_task s' = next_task (idle s) r \<and> idle s' = idle s \<and> system_ticks s' = system_ticks s \<and>
           (\<forall>x. task_wake_tick (sc_tasks s' x) =
              (if x = current_task s then system_ticks s + d else task_wake_tick (sc_tasks s x)))"
proof -
  define c where "c = current_task s"
  define s0 where "s0 = set_task c (\<lambda>k. k\<lparr>task_wake_tick := system_ticks s + d, task_state := TASK_SLEEPING\<rparr>)
    (s\<lparr>int_enabled := False\<rparr>)"
  have fresh: "c \<notin> set (r @ b @ z)" "c \<noteq> 0" "c \<noteq> idle s" and q0: "queues s0 r b z"
    using ok assms by (auto simp: sched_ok_def c_def s0_def)
  obtain p ts where push: "scheduler_sleep_queue_add c s0 = Some (s0\<lparr>sleep_queue := p, sc_tasks := ts\<rparr>)"
    "linked ts (ready_queue s0) (blocked_queue s0) p r b (z @ [c])" "same_but_next (sc_tasks s0) ts"
    using push_sleep_queues [OF q0 fresh(2,1)] by blast
  define s1 where "s1 = s0\<lparr>sleep_queue := p, sc_tasks := ts\<rparr>"
  have st: "task_state (ts x) = (if x = c then TASK_SLEEPING else task_state (sc_tasks s x))"
    "task_wake_tick (ts x) = (if x = c then system_ticks s + d else task_wake_tick (sc_tasks s x))" for x
    using same_but_nextD(1,2) [OF push(3)] by (simp_all add: s0_def upd_task_apply)
  have 1: "queues s1 r b (z @ [c])" "states_ok (sc_tasks s1) r b (z @ [c])" "idle_ok s1 (r @ b @ z @ [c])"
    "pending_task s1 = 0" "next_task (idle s1) r \<noteq> 0" "task_state (sc_tasks s1 (current_task s1)) \<noteq> TASK_RUNNING"
    using ok push(2) st fresh n by (auto simp: sched_ok_def s1_def s0_def states_ok_def idle_ok_def c_def)
  have "hd r \<noteq> c" if "r \<noteq> []" using that fresh by (cases r) auto
  then have sw: "next_task (idle s1) r \<noteq> current_task s1"
    using fresh(3) by (auto simp: next_task_def s1_def s0_def c_def split: list.split)
  obtain s2 where s2: "scheduler_yield s1 = Some (True, s2)" "sched_ok s2 (tl r) b (z @ [c])"
    "current_task s2 = next_task (idle s1) r" "same_env s1 s2"
    using scheduler_yield_other [OF 1(1-5)] 1(6) sw by auto
  have "yield_then_restore e s1 = Some (True, s2)" for e
    using s2(1) by (simp add: yield_then_restore_def)
  moreover have "current_task s0 = c" by (simp add: s0_def c_def)
  ultimately have "scheduler_sleep d s = Some (True, s2)"
    using fresh push(1)
    by (simp add: scheduler_sleep_def interrupt_save_def c_def [symmetric] pit_ticks_def s0_def [symmetric]
        Let_def s1_def)
  then show ?thesis using s2 st by (auto simp: c_def s1_def s0_def same_env_def)
qed

lemma queue_rep_next:
  "queue_rep ts p (a @ t # q) \<Longrightarrow> task_next (ts t) = next_task 0 q"
  by (induction a arbitrary: p; cases q) (auto simp: next_task_def)

text \<open>What the wake-up of tasks leaves alone: everything but the ready and sleep queues and the tasks.\<close>

definition woken_only :: "sched_state \<Rightarrow> sched_state \<Rightarrow> bool" where
  "woken_only s s' \<longleftrightarrow> (\<exists>rq sq ts. s' = s\<lparr>ready_queue := rq, sleep_queue := sq, sc_tasks := ts\<rparr>) \<and> same_env s s'"

lemma woken_only_trans:
  assumes "woken_only a b" and "woken_only b c"
  shows "woken_only a c"
proof -
  obtain rq sq ts rq' sq' ts' where "b = a\<lparr>ready_queue := rq, sleep_queue := sq, sc_tasks := ts\<rparr>"
    "c = b\<lparr>ready_queue := rq', sleep_queue := sq', sc_tasks := ts'\<rparr>" using assms unfolding woken_only_def by blast
  then have "c = a\<lparr>ready_queue := rq', sleep_queue := sq', sc_tasks := ts'\<rparr>" by simp
  then show ?thesis using assms unfolding woken_only_def same_env_def by auto
qed

lemma woken_only_refl: "woken_only s s"
proof -
  have "s = s\<lparr>ready_queue := ready_queue s, sleep_queue := sleep_queue s, sc_tasks := sc_tasks s\<rparr>" by simp
  then show ?thesis unfolding woken_only_def by (metis same_env_refl)
qed

lemma woken_only_fields:
  assumes "woken_only s s'"
  shows "current_task s' = current_task s" "idle s' = idle s" "system_ticks s' = system_ticks s"
    "pending_task s' = pending_task s" "preemption_ticks s' = preemption_ticks s" "int_enabled s' = int_enabled s"
    "preemption_requested s' = preemption_requested s"
  using assms by (auto simp: woken_only_def)

lemma wake_task_ok:
  assumes q: "queues s r b z" and st: "states_ok (sc_tasks s) r b z" and t: "t \<in> set z"
  shows "\<exists>s'. wake_task t s = Some s' \<and> queues s' (r @ [t]) b (remove1 t z) \<and> woken_only s s' \<and>
           states_ok (sc_tasks s') (r @ [t]) b (remove1 t z) \<and>
           (\<forall>x. x \<noteq> t \<longrightarrow> task_state (sc_tasks s' x) = task_state (sc_tasks s x))"
proof -
  have t0: "t \<noteq> 0" and d: "distinct (r @ z @ b)" and d': "distinct (r @ b @ z)"
    and rep: "queue_rep (sc_tasks s) (ready_queue s) r" "queue_rep (sc_tasks s) (blocked_queue s) b"
      "queue_rep (sc_tasks s) (sleep_queue s) z"
    using q t linked_not_null by (force simp: linked_def)+
  obtain p ts1 rq ts2 where m: "task_queue_remove (sleep_queue s) t (sc_tasks s) = Some (p, ts1)"
    "task_queue_push (ready_queue s) t (upd_task t make_ready ts1) = Some (rq, ts2)"
    "queue_rep ts2 p (remove1 t z)" "queue_rep ts2 rq (r @ [t])" "queue_rep ts2 (blocked_queue s) b"
    "same_but_next (upd_task t make_ready (sc_tasks s)) ts2"
    using move_to_ready [OF rep(3,1,2) d t] by blast
  define s1 where "s1 = s\<lparr>ready_queue := rq, sleep_queue := p, sc_tasks := ts2\<rparr>"
  have run: "wake_task t s = Some s1"
    using t0 m(1,2) by (simp add: wake_task_def reset_after_ready push_ready_def s1_def) (simp add: set_task_def)
  have ts2: "task_state (ts2 x) = (if x = t then TASK_READY else task_state (sc_tasks s x))"
    "task_wake_tick (ts2 x) = task_wake_tick (sc_tasks s x)" for x
    using same_but_nextD(1,2) [OF m(6)] by (simp_all add: upd_task_apply)
  have only: "woken_only s s1"
    unfolding woken_only_def using ts2(2) by (auto simp: same_env_def s1_def)
  have "linked ts2 rq (blocked_queue s) p (r @ [t]) b (remove1 t z)"
    using m(3-5) d' t by (auto simp: linked_def dest: notin_set_remove1)
  moreover have "\<forall>x \<in> set b. x \<noteq> t" "\<forall>x \<in> set (remove1 t z). x \<noteq> t" using d t by auto
  moreover have "set (remove1 t z) \<subseteq> set z" by (rule set_remove1_subset)
  ultimately show ?thesis using run only ts2 st
    by (intro exI [of _ s1]) (auto simp: s1_def states_ok_def)
qed

abbreviation due :: "sched_state \<Rightarrow> u64 \<Rightarrow> bool" where
  "due s t \<equiv> task_wake_tick (sc_tasks s t) \<le> system_ticks s"

lemma check_sleeping_loop_ok:
  assumes "queues s r b (a @ z)" and "states_ok (sc_tasks s) r b (a @ z)"
  shows "\<exists>s'. check_sleeping_loop (next_task 0 z) s = Some s' \<and>
           queues s' (r @ filter (due s) z) b (a @ filter (\<lambda>t. \<not> due s t) z) \<and> woken_only s s' \<and>
           states_ok (sc_tasks s') (r @ filter (due s) z) b (a @ filter (\<lambda>t. \<not> due s t) z) \<and>
           (\<forall>x. x \<notin> set z \<longrightarrow> task_state (sc_tasks s' x) = task_state (sc_tasks s x))"
  using assms
proof (induction z arbitrary: s r a)
  case Nil
  then show ?case by (subst check_sleeping_loop.simps) (simp add: next_task_def woken_only_refl)
next
  case (Cons t z)
  note q = Cons.prems(1) and st = Cons.prems(2)
  have t: "t \<noteq> 0" "t \<notin> set a" "t \<notin> set z" using linked_not_null [OF q] q by (auto simp: linked_def)
  have nxt: "task_next (sc_tasks s t) = next_task 0 z"
    using q by (auto simp: linked_def intro: queue_rep_next)
  have hd: "next_task 0 (t # z) = t" by (simp add: next_task_def)
  show ?case
  proof (cases "due s t")
    case True
    obtain s1 where s1: "wake_task t s = Some s1" "queues s1 (r @ [t]) b (a @ z)" "woken_only s s1"
      "states_ok (sc_tasks s1) (r @ [t]) b (a @ z)" "\<forall>x. x \<noteq> t \<longrightarrow> task_state (sc_tasks s1 x) = task_state (sc_tasks s x)"
      using wake_task_ok [OF q st, of t] t by (auto simp: remove1_append)
    have due: "due s1 x = due s x" for x using s1(3) by (simp add: woken_only_def same_env_def)
    obtain s2 where s2: "check_sleeping_loop (next_task 0 z) s1 = Some s2"
      "queues s2 ((r @ [t]) @ filter (due s1) z) b (a @ filter (\<lambda>t. \<not> due s1 t) z)" "woken_only s1 s2"
      "states_ok (sc_tasks s2) ((r @ [t]) @ filter (due s1) z) b (a @ filter (\<lambda>t. \<not> due s1 t) z)"
      "\<forall>x. x \<notin> set z \<longrightarrow> task_state (sc_tasks s2 x) = task_state (sc_tasks s1 x)"
      using Cons.IH [OF s1(2,4)] by blast
    have "check_sleeping_loop t s = Some s2"
      using True s1(1) s2(1) t nxt by (subst check_sleeping_loop.simps) (simp add: pit_ticks_def)
    then show ?thesis using True s2 s1(5) woken_only_trans [OF s1(3) s2(3)] by (simp add: hd due)
  next
    case False
    have "queues s r b ((a @ [t]) @ z)" "states_ok (sc_tasks s) r b ((a @ [t]) @ z)" using q st by simp_all
    from Cons.IH [OF this]
    obtain s2 where s2: "check_sleeping_loop (next_task 0 z) s = Some s2"
      "queues s2 (r @ filter (due s) z) b ((a @ [t]) @ filter (\<lambda>t. \<not> due s t) z)" "woken_only s s2"
      "states_ok (sc_tasks s2) (r @ filter (due s) z) b ((a @ [t]) @ filter (\<lambda>t. \<not> due s t) z)"
      "\<forall>x. x \<notin> set z \<longrightarrow> task_state (sc_tasks s2 x) = task_state (sc_tasks s x)" by blast
    have "check_sleeping_loop t s = Some s2"
      using False s2(1) t nxt by (subst check_sleeping_loop.simps) (simp add: pit_ticks_def)
    then show ?thesis using False s2 by (simp add: hd)
  qed
qed

lemma scheduler_tick_ok:
  assumes ok: "sched_ok s r b z"
  shows "\<exists>s'. scheduler_tick s = Some s' \<and> woken_only s s' \<and>
           sched_ok s' (r @ filter (due s) z) b (filter (\<lambda>t. \<not> due s t) z)"
proof -
  have q: "queues s r b ([] @ z)" "states_ok (sc_tasks s) r b ([] @ z)" using ok by (simp_all add: sched_ok_def)
  have "sleep_queue s = next_task 0 z"
    using q by (cases z) (auto simp: linked_def next_task_def)
  then obtain s' where s': "scheduler_tick s = Some s'" "woken_only s s'"
    "queues s' (r @ filter (due s) z) b ([] @ filter (\<lambda>t. \<not> due s t) z)"
    "states_ok (sc_tasks s') (r @ filter (due s) z) b ([] @ filter (\<lambda>t. \<not> due s t) z)"
    "\<forall>x. x \<notin> set z \<longrightarrow> task_state (sc_tasks s' x) = task_state (sc_tasks s x)"
    using check_sleeping_loop_ok [OF q]
    by (auto simp: scheduler_tick_def scheduler_check_sleeping_tasks_def)
  have "sched_ok s' (r @ filter (due s) z) b (filter (\<lambda>t. \<not> due s t) z)"
    using ok s'(3-5) woken_only_fields [OF s'(2)] by (auto simp: sched_ok_def idle_ok_def)
  with s' show ?thesis by blast
qed

section \<open>Preemption\<close>

lemma scheduler_preempt_fields [simp]:
  "sc_tasks (scheduler_preempt c s) = sc_tasks s" "ready_queue (scheduler_preempt c s) = ready_queue s"
  "blocked_queue (scheduler_preempt c s) = blocked_queue s" "sleep_queue (scheduler_preempt c s) = sleep_queue s"
  "current_task (scheduler_preempt c s) = current_task s" "idle (scheduler_preempt c s) = idle s"
  "pending_task (scheduler_preempt c s) = pending_task s" "system_ticks (scheduler_preempt c s) = system_ticks s"
  by (simp_all add: scheduler_preempt_def Let_def)

lemma sched_ok_cong:
  assumes "sc_tasks s' = sc_tasks s" "ready_queue s' = ready_queue s" "blocked_queue s' = blocked_queue s"
    "sleep_queue s' = sleep_queue s" "current_task s' = current_task s" "idle s' = idle s"
    "pending_task s' = pending_task s"
  shows "sched_ok s' r b z = sched_ok s r b z"
  using assms by (simp add: sched_ok_def idle_ok_def)

lemma sched_ok_preempt [simp]: "sched_ok (scheduler_preempt c s) r b z = sched_ok s r b z"
  by (rule sched_ok_cong) simp_all

lemma pit_irq_handler_ok:
  assumes ok: "sched_ok s r b z"
  shows "\<exists>s' d. pit_irq_handler c s = Some s' \<and> sched_ok s' (r @ filter d z) b (filter (\<lambda>t. \<not> d t) z) \<and>
           current_task s' = current_task s \<and> idle s' = idle s \<and> system_ticks s' = system_ticks s + 1 \<and>
           d = (\<lambda>t. task_wake_tick (sc_tasks s t) \<le> system_ticks s + 1) \<and>
           (\<forall>t. task_wake_tick (sc_tasks s' t) = task_wake_tick (sc_tasks s t))"
proof -
  define s0 where "s0 = s\<lparr>system_ticks := system_ticks s + 1\<rparr>"
  have "sched_ok s0 r b z" using ok by (simp add: s0_def sched_ok_def idle_ok_def)
  from scheduler_tick_ok [OF this] obtain s1 where s1: "scheduler_tick s0 = Some s1" "woken_only s0 s1"
    "sched_ok s1 (r @ filter (due s0) z) b (filter (\<lambda>t. \<not> due s0 t) z)" by blast
  then have "pit_irq_handler c s = Some (scheduler_preempt c s1)"
    by (simp add: pit_irq_handler_def s0_def)
  moreover have "\<forall>t. task_wake_tick (sc_tasks s1 t) = task_wake_tick (sc_tasks s t)"
    using s1(2) by (simp add: woken_only_def same_env_def s0_def)
  ultimately show ?thesis using s1(3) woken_only_fields [OF s1(2)] by (simp add: s0_def)
qed

lemma set_mem_fields [simp]:
  "sc_tasks (set_mem f s) = sc_tasks s" "sc_procs (set_mem f s) = sc_procs s"
  "ready_queue (set_mem f s) = ready_queue s" "blocked_queue (set_mem f s) = blocked_queue s"
  "sleep_queue (set_mem f s) = sleep_queue s" "current_task (set_mem f s) = current_task s"
  "idle (set_mem f s) = idle s" "pending_task (set_mem f s) = pending_task s"
  "system_ticks (set_mem f s) = system_ticks s" "preemption_requested (set_mem f s) = preemption_requested s"
  by (simp_all add: set_mem_def)

lemma set_proc_fields [simp]:
  "sc_tasks (set_proc p f s) = sc_tasks s"
  "ready_queue (set_proc p f s) = ready_queue s" "blocked_queue (set_proc p f s) = blocked_queue s"
  "sleep_queue (set_proc p f s) = sleep_queue s" "current_task (set_proc p f s) = current_task s"
  "idle (set_proc p f s) = idle s" "pending_task (set_proc p f s) = pending_task s"
  "system_ticks (set_proc p f s) = system_ticks s" "preemption_requested (set_proc p f s) = preemption_requested s"
  by (simp_all add: set_proc_def)

text \<open>Building a frame touches memory and the process, never a task or a queue.\<close>

definition frame_only :: "sched_state \<Rightarrow> sched_state \<Rightarrow> bool" where
  "frame_only s s' \<longleftrightarrow> sc_tasks s' = sc_tasks s \<and> ready_queue s' = ready_queue s \<and>
     blocked_queue s' = blocked_queue s \<and> sleep_queue s' = sleep_queue s \<and> current_task s' = current_task s \<and>
     idle s' = idle s \<and> pending_task s' = pending_task s \<and> system_ticks s' = system_ticks s"

lemma build_frame_only: "frame_only s (snd (scheduler_build_context_interrupt_rsp resume t s))"
  by (simp add: scheduler_build_context_interrupt_rsp_def frame_only_def Let_def)

lemma next_interrupt_frame_only: "frame_only s (snd (next_interrupt_frame resume t s))"
  using build_frame_only [of s resume t]
    build_frame_only [of "set_proc (task_process (sc_tasks s t)) (\<lambda>r. r\<lparr>proc_user_started := True\<rparr>) s" resume t]
  by (simp add: next_interrupt_frame_def Let_def frame_only_def)

lemma sched_ok_frame_only: "frame_only s s' \<Longrightarrow> sched_ok s' r b z = sched_ok s r b z"
  by (rule sched_ok_cong) (simp_all add: frame_only_def)

lemma save_interrupt_context_ok:
  assumes "sched_ok s r b z"
  shows "sched_ok (scheduler_save_interrupt_context rsp s) r b z"
    "current_task (scheduler_save_interrupt_context rsp s) = current_task s"
    "idle (scheduler_save_interrupt_context rsp s) = idle s"
    "system_ticks (scheduler_save_interrupt_context rsp s) = system_ticks s"
    "preemption_requested (scheduler_save_interrupt_context rsp s) = preemption_requested s"
    "ready_queue (scheduler_save_interrupt_context rsp s) = ready_queue s"
  using assms
  by (auto simp: scheduler_save_interrupt_context_def sched_ok_def states_ok_def idle_ok_def upd_task_apply)

text \<open>
  \<open>scheduler_get_next_interrupt_rsp\<close> and \<open>scheduler_commit_pending_task\<close> together, when a frame was found:
  the head of the ready queue becomes the running task and a task that was still running takes its
  place at the end.
\<close>

definition requeued :: "sched_state \<Rightarrow> u64 list" where
  "requeued s = (if current_task s \<noteq> 0 \<and> current_task s \<noteq> idle s then [current_task s] else [])"

text \<open>How a task that was interrupted is to be resumed.\<close>

definition saved_frame :: "task_store \<Rightarrow> u64 \<Rightarrow> u64 \<times> task_resume_mode" where
  "saved_frame ts t = (task_interrupt_rsp (ts t), task_mode (ts t))"

lemma requeue_preempted_ok:
  assumes q: "queues s r b z" and fresh: "current_task s \<notin> set (r @ b @ z)"
    and run: "current_task s = 0 \<or> current_task s = idle s \<or> task_state (sc_tasks s (current_task s)) = TASK_RUNNING"
  shows "\<exists>p ts. requeue_preempted s = Some (s\<lparr>ready_queue := p, sc_tasks := ts\<rparr>) \<and>
           linked ts p (blocked_queue s) (sleep_queue s) (r @ requeued s) b z \<and>
           (\<forall>x. task_state (ts x) = (if x \<in> set (requeued s) then TASK_READY else task_state (sc_tasks s x)) \<and>
              saved_frame ts x = saved_frame (sc_tasks s) x)"
proof (cases "current_task s \<noteq> 0 \<and> current_task s \<noteq> idle s")
  case True
  define c where "c = current_task s"
  define s2 where "s2 = set_task c (\<lambda>k. k\<lparr>task_state := TASK_READY\<rparr>) s"
  have "queues s2 r b z" using q by (simp add: s2_def)
  then obtain p ts where push: "push_ready c s2 = Some (s2\<lparr>ready_queue := p, sc_tasks := ts\<rparr>)"
    "linked ts p (blocked_queue s2) (sleep_queue s2) (r @ [c]) b z" "same_but_next (sc_tasks s2) ts"
    using push_ready_queues [of s2 r b z c] True fresh by (auto simp: c_def)
  have "s2\<lparr>ready_queue := p, sc_tasks := ts\<rparr> = s\<lparr>ready_queue := p, sc_tasks := ts\<rparr>"
    by (simp add: s2_def set_task_def)
  then have "requeue_preempted s = Some (s\<lparr>ready_queue := p, sc_tasks := ts\<rparr>)"
    using True run push(1) by (simp add: requeue_preempted_def c_def [symmetric] s2_def Let_def)
  moreover have "task_state (ts x) = (if x = c then TASK_READY else task_state (sc_tasks s x))"
    "saved_frame ts x = saved_frame (sc_tasks s) x" for x
    using same_but_nextD(1,3,4) [OF push(3)] by (simp_all add: s2_def upd_task_apply saved_frame_def)
  moreover have "requeued s = [c]" using True by (simp add: requeued_def c_def)
  ultimately show ?thesis using push(2) by (intro exI [of _ p] exI [of _ ts]) (simp add: s2_def)
next
  case False
  then have "requeued s = []" by (auto simp: requeued_def)
  moreover have "requeue_preempted s = Some (s\<lparr>ready_queue := ready_queue s, sc_tasks := sc_tasks s\<rparr>)"
    using False by (auto simp: requeue_preempted_def Let_def)
  ultimately show ?thesis using q by (intro exI [of _ "ready_queue s"] exI [of _ "sc_tasks s"]) simp
qed

lemma commit_ok:
  assumes q: "queues s r b z" and st: "states_ok (sc_tasks s) r b z" and i: "idle_ok s (t # r @ b @ z)"
    and t: "t \<noteq> 0" "t \<notin> set (r @ b @ z)" and p: "pending_task s = t"
  shows "sched_ok (scheduler_commit_pending_task s) r b z"
    and "current_task (scheduler_commit_pending_task s) = t" and "idle (scheduler_commit_pending_task s) = idle s"
  using assms
  by (auto simp: scheduler_commit_pending_task_def Let_def sched_ok_def states_ok_def idle_ok_def upd_task_apply)

lemma handover_ok:
  assumes ok: "sched_ok s (t # r) b z" and req: "preemption_requested s"
    and frame: "next_interrupt_frame resume t s = (f, sf)" "f \<noteq> 0"
  shows "\<exists>s'. scheduler_get_next_interrupt_rsp resume s = Some (f, s') \<and>
           sched_ok (scheduler_commit_pending_task s') (r @ requeued s) b z \<and>
           current_task (scheduler_commit_pending_task s') = t \<and>
           idle (scheduler_commit_pending_task s') = idle s \<and>
           \<not> preemption_requested (scheduler_commit_pending_task s') \<and>
           sc_heap (scheduler_commit_pending_task s') = sc_heap sf \<and>
           sc_procs (scheduler_commit_pending_task s') = sc_procs sf \<and>
           saved_frame (sc_tasks (scheduler_commit_pending_task s')) = saved_frame (sc_tasks s)"
proof -
  define c where "c = current_task s"
  have fo: "frame_only s sf" using next_interrupt_frame_only [of s resume t] frame by simp
  have okf: "sched_ok sf (t # r) b z" using ok sched_ok_frame_only [OF fo] by simp
  have sf: "current_task sf = c" "idle sf = idle s" using fo by (auto simp: frame_only_def c_def)
  have t: "ready_queue s = t" "t \<noteq> 0" "t \<noteq> idle s" "t \<noteq> c" "t \<notin> set (r @ b @ z)"
    using ok by (auto simp: sched_ok_def linked_def idle_ok_def c_def)
  obtain s1 where s1: "scheduler_ready_queue_pop sf = (t, s1)" "queues s1 r b z" "same_env sf s1"
    "same_but_next (sc_tasks sf) (sc_tasks s1)" "current_task s1 = c" "idle s1 = idle s"
    using scheduler_ready_queue_pop_queues [of sf t r b z] okf sf by (auto simp: sched_ok_def)
  have st1: "task_state (sc_tasks s1 x) = task_state (sc_tasks s x)" for x
    using same_but_nextD(1) [OF s1(4)] fo by (simp add: frame_only_def)
  have st: "states_ok (sc_tasks s1) (t # r) b z" and fresh: "c \<notin> set (r @ b @ z)"
    and i: "idle_ok s (t # r @ b @ z)"
    and run: "current_task s1 = 0 \<or> current_task s1 = idle s1 \<or> task_state (sc_tasks s1 (current_task s1)) = TASK_RUNNING"
    using ok st1 s1(5,6) by (auto simp: sched_ok_def c_def states_ok_def)
  have rq: "requeued s1 = requeued s" using s1(5,6) by (simp add: requeued_def c_def)
  have env: "sc_heap s1 = sc_heap sf" "sc_procs s1 = sc_procs sf" "saved_frame (sc_tasks s1) x = saved_frame (sc_tasks s) x" for x
    using s1(1) same_but_nextD(3,4) [OF s1(4)] fo
    by (auto simp: scheduler_ready_queue_pop_def saved_frame_def frame_only_def Let_def set_task_def split: if_splits)
  obtain p ts where push: "requeue_preempted s1 = Some (s1\<lparr>ready_queue := p, sc_tasks := ts\<rparr>)"
    and q: "linked ts p (blocked_queue s1) (sleep_queue s1) (r @ requeued s) b z"
    and ts: "\<forall>x. task_state (ts x) = (if x \<in> set (requeued s) then TASK_READY else task_state (sc_tasks s1 x))"
      "saved_frame ts = saved_frame (sc_tasks s1)"
    using requeue_preempted_ok [OF s1(2) _ run] fresh s1(5) rq by (auto simp: fun_eq_iff)
  define s3 where "s3 = s1\<lparr>ready_queue := p, sc_tasks := ts, pending_task := t, preemption_requested := False\<rparr>"
  have get: "scheduler_get_next_interrupt_rsp resume s = Some (f, s3)"
    using req t frame s1(1) push
    by (simp add: scheduler_get_next_interrupt_rsp_def scheduler_get_next_task_def Let_def s3_def)
  have rqs: "set (requeued s) \<subseteq> {c} - {idle s}" by (auto simp: requeued_def c_def)
  have 3: "queues s3 (r @ requeued s) b z" "states_ok (sc_tasks s3) (r @ requeued s) b z" "pending_task s3 = t"
    using q ts(1) st fresh rqs by (auto simp: s3_def states_ok_def)
  have 4: "idle_ok s3 (t # (r @ requeued s) @ b @ z)" "t \<notin> set ((r @ requeued s) @ b @ z)"
    using i rqs ts(1) st1 s1(6) t by (auto simp: idle_ok_def s3_def)
  have "saved_frame (sc_tasks s3) = saved_frame (sc_tasks s)" using ts(2) env(3) by (auto simp: s3_def)
  then have "saved_frame (sc_tasks (scheduler_commit_pending_task s3)) = saved_frame (sc_tasks s)"
    by (auto simp: scheduler_commit_pending_task_def Let_def saved_frame_def upd_task_apply fun_eq_iff)
  moreover have "\<not> preemption_requested (scheduler_commit_pending_task s3)" "sc_heap (scheduler_commit_pending_task s3) = sc_heap sf"
    "sc_procs (scheduler_commit_pending_task s3) = sc_procs sf"
    using env by (simp_all add: scheduler_commit_pending_task_def Let_def s3_def)
  ultimately show ?thesis using commit_ok [OF 3(1,2) 4(1) t(2) 4(2) 3(3)] get s1(6) by (auto simp: s3_def)
qed

text \<open>
  How a task goes on, said without the code that prepares it. A user task that has been started, and a kernel task
  that an interrupt stopped, go on through the frame that was saved then. The others enter through a
  frame that is built at the top of their kernel stack: a user task at its user entry point, in user
  mode; a kernel task at the code that restores its context. A task without a frame, or without a stack
  pointer, cannot be resumed.
\<close>

definition user_task :: "u64 \<Rightarrow> sched_state \<Rightarrow> bool" where
  "user_task t s \<longleftrightarrow> task_process (sc_tasks s t) \<noteq> 0 \<and> proc_is_user_process (sc_procs s (task_process (sc_tasks s t)))"

definition in_saved_frame :: "u64 \<Rightarrow> sched_state \<Rightarrow> bool" where
  "in_saved_frame t s \<longleftrightarrow>
     (if user_task t s then proc_user_started (sc_procs s (task_process (sc_tasks s t)))
      else task_mode (sc_tasks s t) = TASK_RESUME_INTERRUPT \<and> task_interrupt_rsp (sc_tasks s t) \<noteq> 0)"

abbreviation stack_pointer :: "u64 \<Rightarrow> sched_state \<Rightarrow> u64" where
  "stack_pointer t s \<equiv> ctx_rsp (task_context (sc_tasks s t))"

definition resumable :: "u64 \<Rightarrow> sched_state \<Rightarrow> bool" where
  "resumable t s \<longleftrightarrow>
     (if in_saved_frame t s then task_interrupt_rsp (sc_tasks s t) \<noteq> 0
      else stack_pointer t s \<noteq> 0 \<and> stack_pointer t s \<noteq> 176)"

definition entry_frame :: "u64 \<Rightarrow> u64 \<Rightarrow> sched_state \<Rightarrow> byte_mem \<Rightarrow> u64 \<Rightarrow> bool" where
  "entry_frame resume t s m f \<longleftrightarrow>
     load_u64 m (f + 64) = t + 8 \<and>
     (let p = sc_procs s (task_process (sc_tasks s t)) in
      [load_u64 m (f + 136), load_u64 m (f + 144), load_u64 m (f + 152), load_u64 m (f + 160), load_u64 m (f + 168)] =
        (if user_task t s then [proc_user_rip p, 0x1B, proc_user_rflags p, proc_user_rsp p, 0x23]
         else [resume, 0x08, 0x02, 0, 0])) \<and>
     (\<forall>x. x - f < 136 \<and> \<not> x - (f + 64) < 8 \<longrightarrow> m x = 0)"

lemma add_apart: "8 \<le> a - b \<Longrightarrow> 8 \<le> b - a \<Longrightarrow> apart (f + a) (f + b)"
  by (simp add: apart_def)

text \<open>The words of a frame do not overlap, whatever its address is.\<close>

lemma frame_byte:
  fixes d k :: u64
  shows "d < 136 \<Longrightarrow> 136 \<le> k \<Longrightarrow> k \<le> 168 \<Longrightarrow> \<not> d - k < 8" "\<not> d < 176 \<Longrightarrow> k \<le> 168 \<Longrightarrow> \<not> d - k < 8"
  by (auto simp: word_less_nat_alt word_le_nat_alt u64_sub_cases split: if_splits)

lemma frame_stores:
  "load_u64 (store_u64 (f + a) v m) (f + b) = (if a = b then v else load_u64 m (f + b))" if "a = b \<or> 8 \<le> a - b \<and> 8 \<le> b - a"
  using that load_store_same [of "f + a" v m] load_store_apart [of "f + a" "f + b" v m] by (auto simp: apart_def)

lemmas frame_offsets = sizeof_interrupt_frame_def frame_rdi_def frame_rip_def frame_cs_def frame_rflags_def frame_rsp_def
  frame_ss_def offset_context_def USER_CODE_SELECTOR_def USER_DATA_SELECTOR_def KERNEL_CODE_SELECTOR_def
  KERNEL_TRAMPOLINE_RFLAGS_def

lemma build_frame_spec:
  assumes "t \<noteq> 0" and "stack_pointer t s \<noteq> 0"
  defines "f \<equiv> stack_pointer t s - 176"
  shows "\<exists>m. scheduler_build_context_interrupt_rsp resume t s = (f, set_mem (\<lambda>_. m) s) \<and> entry_frame resume t s m f \<and>
           (\<forall>x. \<not> x - f < 176 \<longrightarrow> m x = hp_mem (sc_heap s) x)"
proof -
  let ?p = "sc_procs s (task_process (sc_tasks s t))"
  define m0 where "m0 = store_u64 (f + 64) (t + 8) (k_memset f 0 176 (hp_mem (sc_heap s)))"
  define m where "m = (if user_task t s
      then store_u64 (f + 168) 0x23 (store_u64 (f + 144) 0x1B (store_u64 (f + 152) (proc_user_rflags ?p)
        (store_u64 (f + 160) (proc_user_rsp ?p) (store_u64 (f + 136) (proc_user_rip ?p) m0))))
      else store_u64 (f + 168) 0 (store_u64 (f + 160) 0 (store_u64 (f + 152) 0x02 (store_u64 (f + 144) 0x08 (store_u64 (f + 136) resume m0)))))"
  have "scheduler_build_context_interrupt_rsp resume t s = (f, set_mem (\<lambda>_. m) s)"
    using assms(1,2)
    by (simp add: scheduler_build_context_interrupt_rsp_def Let_def m_def m0_def user_task_def frame_offsets f_def set_mem_def)
  moreover have m: "load_u64 m (f + 64) = t + 8"
    "[load_u64 m (f + 136), load_u64 m (f + 144), load_u64 m (f + 152), load_u64 m (f + 160), load_u64 m (f + 168)] =
        (if user_task t s then [proc_user_rip ?p, 0x1B, proc_user_rflags ?p, proc_user_rsp ?p, 0x23] else [resume, 0x08, 0x02, 0, 0])"
    by (simp_all add: m_def m0_def frame_stores)
  moreover have other: "m x = k_memset f 0 176 (hp_mem (sc_heap s)) x"
    if "\<And>k. k \<in> {64, 136, 144, 152, 160, 168} \<Longrightarrow> \<not> x - f - k < 8" for x
    using that [of 64] that [of 136] that [of 144] that [of 152] that [of 160] that [of 168]
    by (simp add: m_def m0_def store_u64_def diff_diff_eq)
  moreover have "m x = 0" if "x - f < 136" "\<not> x - (f + 64) < 8" for x
  proof -
    have "\<not> x - f - k < 8" if "k \<in> {64, 136, 144, 152, 160, 168}" for k
      using that frame_byte(1) [OF \<open>x - f < 136\<close>, of k] \<open>\<not> x - (f + 64) < 8\<close> by (auto simp: diff_diff_eq)
    moreover have "x - f < 176" using that(1) by (simp add: word_less_nat_alt)
    ultimately show ?thesis using other [of x] by (simp add: k_memset_apply)
  qed
  moreover have "m x = hp_mem (sc_heap s) x" if "\<not> x - f < 176" for x
  proof -
    have "\<not> x - f - k < 8" if "k \<in> {64, 136, 144, 152, 160, 168}" for k
      by (rule frame_byte(2) [OF \<open>\<not> x - f < 176\<close>]) (use that in auto)
    then show ?thesis using other [of x] that by (simp add: k_memset_apply)
  qed
  ultimately show ?thesis by (auto simp: entry_frame_def Let_def)
qed

text \<open>The frame that \<open>next_interrupt_frame\<close> finds is the one the task goes on with.\<close>

lemma next_frame_saved:
  "t \<noteq> 0 \<Longrightarrow> in_saved_frame t s \<Longrightarrow> next_interrupt_frame resume t s = (task_interrupt_rsp (sc_tasks s t), s)"
  by (auto simp: next_interrupt_frame_def in_saved_frame_def user_task_def task_resume_uses_interrupt_frame_def Let_def split: if_splits)

lemma next_frame_entry:
  assumes "t \<noteq> 0" "\<not> in_saved_frame t s" "stack_pointer t s \<noteq> 0"
  shows "\<exists>m s1. next_interrupt_frame resume t s = (stack_pointer t s - 176, s1) \<and>
           entry_frame resume t s m (stack_pointer t s - 176) \<and> hp_mem (sc_heap s1) = m \<and>
           (\<forall>x. \<not> x - (stack_pointer t s - 176) < 176 \<longrightarrow> m x = hp_mem (sc_heap s) x) \<and>
           (user_task t s \<longrightarrow> proc_user_started (sc_procs s1 (task_process (sc_tasks s t))))"
proof (cases "user_task t s")
  case True
  let ?s = "set_proc (task_process (sc_tasks s t)) (\<lambda>r. r\<lparr>proc_user_started := True\<rparr>) s"
  have e: "entry_frame resume t ?s = entry_frame resume t s" "stack_pointer t ?s = stack_pointer t s"
    by (auto simp: fun_eq_iff entry_frame_def user_task_def set_proc_def Let_def)
  obtain m where m: "scheduler_build_context_interrupt_rsp resume t ?s = (stack_pointer t s - 176, set_mem (\<lambda>_. m) ?s)"
    "entry_frame resume t s m (stack_pointer t s - 176)" "\<forall>x. \<not> x - (stack_pointer t s - 176) < 176 \<longrightarrow> m x = hp_mem (sc_heap ?s) x"
    using build_frame_spec [of t ?s resume] assms(1,3) e by auto
  then show ?thesis using True assms(2)
    by (auto simp: next_interrupt_frame_def in_saved_frame_def user_task_def Let_def set_mem_def set_proc_def)
next
  case False
  obtain m where m: "scheduler_build_context_interrupt_rsp resume t s = (stack_pointer t s - 176, set_mem (\<lambda>_. m) s)"
    "entry_frame resume t s m (stack_pointer t s - 176)" "\<forall>x. \<not> x - (stack_pointer t s - 176) < 176 \<longrightarrow> m x = hp_mem (sc_heap s) x"
    using build_frame_spec [of t s resume] assms(1,3) by auto
  then show ?thesis using False assms(2)
    by (auto simp: next_interrupt_frame_def in_saved_frame_def user_task_def task_resume_uses_interrupt_frame_def Let_def set_mem_def)
qed

lemma next_frame_none:
  assumes "\<not> in_saved_frame t s" "stack_pointer t s = 0"
  shows "fst (next_interrupt_frame resume t s) = 0"
proof (cases "user_task t s")
  case True
  then show ?thesis using assms
    by (simp add: next_interrupt_frame_def in_saved_frame_def scheduler_build_context_interrupt_rsp_def set_proc_def Let_def)
      (auto simp: user_task_def)
next
  case False
  then show ?thesis using assms
    by (auto simp: next_interrupt_frame_def in_saved_frame_def scheduler_build_context_interrupt_rsp_def
        task_resume_uses_interrupt_frame_def user_task_def Let_def)
qed

lemma next_frame_found:
  assumes "t \<noteq> 0"
  shows "fst (next_interrupt_frame resume t s) \<noteq> 0 \<longleftrightarrow> resumable t s"
proof (cases "in_saved_frame t s")
  case True
  then show ?thesis using assms by (simp add: next_frame_saved resumable_def)
next
  case False
  then show ?thesis
    using next_frame_entry [OF assms False, of resume] next_frame_none [OF False, of resume]
    by (cases "stack_pointer t s = 0") (auto simp: resumable_def)
qed

text \<open>What the interrupt return leaves for the processor.\<close>

definition goes_on_in :: "u64 \<Rightarrow> u64 \<Rightarrow> sched_state \<Rightarrow> u64 \<Rightarrow> sched_state \<Rightarrow> bool" where
  "goes_on_in resume t s f s' \<longleftrightarrow>
     (if in_saved_frame t s then f = task_interrupt_rsp (sc_tasks s t) \<and> sc_heap s' = sc_heap s
      else f = stack_pointer t s - 176 \<and> entry_frame resume t s (hp_mem (sc_heap s')) f \<and>
        (\<forall>x. \<not> x - f < 176 \<longrightarrow> hp_mem (sc_heap s') x = hp_mem (sc_heap s) x) \<and>
        (user_task t s \<longrightarrow> proc_user_started (sc_procs s' (task_process (sc_tasks s t)))))"

definition switch_due :: "sched_state \<Rightarrow> u64 list \<Rightarrow> bool" where
  "switch_due s r \<longleftrightarrow> preemption_requested s \<and> r \<noteq> [] \<and> resumable (hd r) s"

lemma next_frame_goes_on:
  assumes "t \<noteq> 0" "next_interrupt_frame resume t s = (f, sf)" "f \<noteq> 0" "sc_heap s' = sc_heap sf" "sc_procs s' = sc_procs sf"
  shows "goes_on_in resume t s f s'"
proof (cases "in_saved_frame t s")
  case True
  then show ?thesis using assms by (auto simp: goes_on_in_def next_frame_saved)
next
  case False
  then have "stack_pointer t s \<noteq> 0" using next_frame_found [OF assms(1), of resume s] assms(2,3) by (simp add: resumable_def)
  then show ?thesis using next_frame_entry [OF assms(1) False, of resume] assms False by (auto simp: goes_on_in_def)
qed

text \<open>Saving the frame of the interrupted task does not matter for another one.\<close>

lemma save_other:
  assumes "t \<noteq> current_task s"
  shows "resumable t (scheduler_save_interrupt_context rsp s) = resumable t s"
    "goes_on_in resume t (scheduler_save_interrupt_context rsp s) = goes_on_in resume t s"
  using assms
  by (auto simp: fun_eq_iff scheduler_save_interrupt_context_def resumable_def goes_on_in_def entry_frame_def in_saved_frame_def
      user_task_def upd_task_apply set_task_def)

text \<open>
  The whole interrupt return: it either goes back to the interrupted task and changes no queue, or it
  switches to the head of the ready queue, which it does whenever a switch was requested and that task
  can be resumed.
\<close>

lemma isr_return_ok:
  assumes ok: "sched_ok s r b z"
  shows "\<exists>f s'. isr_return resume rsp s = Some (f, s') \<and> idle s' = idle s \<and> \<not> preemption_requested s' \<and>
           saved_frame (sc_tasks s') = saved_frame (sc_tasks (scheduler_save_interrupt_context rsp s)) \<and>
           (if switch_due s r
            then goes_on_in resume (hd r) s f s' \<and> current_task s' = hd r \<and> sched_ok s' (tl r @ requeued s) b z
            else f = rsp \<and> current_task s' = current_task s \<and> sched_ok s' r b z)"
proof -
  define s0 where "s0 = scheduler_save_interrupt_context rsp s"
  note save = save_interrupt_context_ok [OF ok, of rsp, folded s0_def]
  have isr: "isr_return resume rsp s = do {
     (rax, s) \<leftarrow> scheduler_get_next_interrupt_rsp resume s0;
     Some (if rax = 0 then (rsp, s) else (rax, scheduler_commit_pending_task s)) }"
    by (simp add: isr_return_def s0_def)
  define n where "n = next_task (idle s0) r"
  have n: "scheduler_get_next_task s0 = n" "r \<noteq> [] \<Longrightarrow> n = hd r \<and> n \<noteq> 0 \<and> n \<noteq> idle s0 \<and> n \<noteq> current_task s"
    using save(1,2) by (auto simp: n_def scheduler_get_next_task_def sched_ok_def linked_def next_task_def idle_ok_def
        split: list.splits)
  obtain f sf where frame: "next_interrupt_frame resume n s0 = (f, sf)" by force
  have fo: "frame_only s0 sf" using next_interrupt_frame_only [of s0 resume n] frame by simp
  have due: "switch_due s r \<longleftrightarrow> preemption_requested s0 \<and> r \<noteq> [] \<and> f \<noteq> 0"
    using n(2) next_frame_found [of n resume s0] frame save(5) save_other(1) [of n s rsp] by (auto simp: switch_due_def s0_def)
  consider (none) "\<not> preemption_requested s0 \<or> r = []"
    | (noframe) "preemption_requested s0" "r \<noteq> []" "f = 0"
    | (switch) "preemption_requested s0" "r \<noteq> []" "f \<noteq> 0" by blast
  then show ?thesis
  proof cases
    case none
    have "\<exists>s1. scheduler_get_next_interrupt_rsp resume s0 = Some (0, s1) \<and> \<not> preemption_requested s1 \<and>
        (s1 = s0 \<or> s1 = s0\<lparr>preemption_requested := False\<rparr>)"
      using none by (auto simp: scheduler_get_next_interrupt_rsp_def n(1) Let_def n_def next_task_def)
    moreover have "sched_ok (s0\<lparr>preemption_requested := False\<rparr>) r b z"
      using save(1) by (simp add: sched_ok_def idle_ok_def)
    ultimately show ?thesis using isr save none due by (auto simp: s0_def)
  next
    case noframe
    have "scheduler_get_next_interrupt_rsp resume s0 = Some (0, sf\<lparr>preemption_requested := False\<rparr>)"
      using noframe frame n by (auto simp: scheduler_get_next_interrupt_rsp_def Let_def)
    moreover have "sched_ok (sf\<lparr>preemption_requested := False\<rparr>) r b z"
      using save(1) sched_ok_frame_only [OF fo] by (simp add: sched_ok_def idle_ok_def)
    ultimately show ?thesis using isr save fo noframe due by (simp add: frame_only_def s0_def)
  next
    case switch
    obtain t r' where r: "r = t # r'" "n = t" using switch n(2) by (cases r) auto
    have "requeued s0 = requeued s" using save by (simp add: requeued_def)
    then obtain s' where h: "scheduler_get_next_interrupt_rsp resume s0 = Some (f, s')"
      "sched_ok (scheduler_commit_pending_task s') (r' @ requeued s) b z" "current_task (scheduler_commit_pending_task s') = t"
      "idle (scheduler_commit_pending_task s') = idle s0" "\<not> preemption_requested (scheduler_commit_pending_task s')"
      "sc_heap (scheduler_commit_pending_task s') = sc_heap sf" "sc_procs (scheduler_commit_pending_task s') = sc_procs sf"
      "saved_frame (sc_tasks (scheduler_commit_pending_task s')) = saved_frame (sc_tasks s0)"
      using handover_ok [of s0 t r' b z resume f sf] save switch frame r by auto
    have "goes_on_in resume t s f (scheduler_commit_pending_task s')"
      using next_frame_goes_on [OF _ frame switch(3) h(6,7)] save_other(2) [of t s resume rsp] r n(2) by (auto simp: s0_def)
    then show ?thesis using h isr save switch due r by (simp add: s0_def)
  qed
qed

section \<open>Reachable states\<close>

text \<open>
  The states the kernel goes through once \<open>scheduler_init\<close> has created the idle task, under any
  sequence of calls. New tasks come from the allocator and are in no queue; a task that is unblocked
  is on the blocked queue, or waits for a mutex and is on no queue of the scheduler.
\<close>

definition sched_start :: "sched_state \<Rightarrow> bool" where
  "sched_start s \<longleftrightarrow> ready_queue s = 0 \<and> current_task s = 0 \<and> blocked_queue s = 0 \<and> sleep_queue s = 0 \<and>
     pending_task s = 0 \<and> idle s \<noteq> 0 \<and> task_state (sc_tasks s (idle s)) = TASK_IDLE"

definition unqueued :: "u64 \<Rightarrow> sched_state \<Rightarrow> bool" where
  "unqueued t s \<longleftrightarrow> t \<noteq> idle s \<and> t \<noteq> current_task s \<and> (\<forall>r b z. queues s r b z \<longrightarrow> t \<notin> set (r @ b @ z))"

inductive sched_step :: "sched_state \<Rightarrow> sched_state \<Rightarrow> bool" where
  create: "task_create e s = Some (t, s') \<Longrightarrow> unqueued t s \<Longrightarrow> sched_step s s'"
| add: "scheduler_add_task t s = Some s' \<Longrightarrow> unqueued t s \<Longrightarrow> sched_step s s'"
| yield: "scheduler_yield s = Some (w, s') \<Longrightarrow> sched_step s s'"
| block: "scheduler_block_current s = Some (w, s') \<Longrightarrow> sched_step s s'"
| unblock: "scheduler_unblock t s = Some s' \<Longrightarrow>
    unqueued t s \<or> (\<exists>r b z. queues s r b z \<and> t \<in> set b) \<Longrightarrow> sched_step s s'"
| sleep: "scheduler_sleep d s = Some (w, s') \<Longrightarrow> sched_step s s'"
| exit: "task_exit s = Some s' \<Longrightarrow> current_task s \<noteq> idle s \<Longrightarrow> sched_step s s'"
| timer: "pit_irq_handler c s = Some s' \<Longrightarrow> sched_step s s'"
| interrupt: "isr_return resume rsp s = Some (f, s') \<Longrightarrow> sched_step s s'"

inductive sched_reachable :: "sched_state \<Rightarrow> bool" where
  start: "sched_start s \<Longrightarrow> sched_reachable s"
| step: "sched_reachable s \<Longrightarrow> sched_step s s' \<Longrightarrow> sched_reachable s'"

inductive_cases sched_stepE: "sched_step s s'"

definition sched_inv :: "sched_state \<Rightarrow> bool" where
  "sched_inv s \<longleftrightarrow> idle s \<noteq> 0 \<and> (\<exists>r b z. sched_ok s r b z)"

lemma task_create_effect:
  assumes "task_create e s = Some (t, s')"
  obtains (failed) h where "t = 0" "s' = s\<lparr>sc_heap := h\<rparr>"
    | (created) h k where "t \<noteq> 0" "task_state k = TASK_READY" "task_next k = 0" "task_process k = 0" "task_entry k = e"
        "s' = s\<lparr>sc_heap := h, next_task_id := next_task_id s + 1, sc_tasks := (sc_tasks s)(t := k)\<rparr>"
proof (cases "e = 0")
  case True
  then have "t = 0" "s' = s\<lparr>sc_heap := sc_heap s\<rparr>" using assms by (simp_all add: task_create_def)
  then show ?thesis by (rule failed)
next
  case False
  then obtain t1 h1 where 1: "kmalloc sizeof_task (sc_heap s) = Some (t1, h1)"
    using assms by (auto simp: task_create_def bind_eq_Some_conv)
  show ?thesis
  proof (cases "t1 = 0")
    case True
    then show ?thesis using assms False 1 by (auto simp: task_create_def intro: failed)
  next
    case t1: False
    then obtain st h2 where 2: "kmalloc KERNEL_STACK_SIZE h1 = Some (st, h2)"
      using assms False 1 by (auto simp: task_create_def bind_eq_Some_conv)
    show ?thesis
    proof (cases "st = 0")
      case True
      then show ?thesis using assms False 1 2 t1 by (auto simp: task_create_def intro: failed)
    next
      case st: False
      show ?thesis
        by (rule created) (use assms False 1 2 t1 st in \<open>auto simp: task_create_def context_init_def Let_def\<close>)
    qed
  qed
qed

lemma scheduler_init_start:
  assumes "scheduler_init f s = Some s'" and "idle s' \<noteq> 0"
  shows "sched_start s'"
proof -
  define s0 where "s0 = s\<lparr>ready_queue := 0, current_task := 0, blocked_queue := 0, sleep_queue := 0,
    pending_task := 0, preemption_ticks := 0, preemption_requested := False\<rparr>"
  obtain t s1 where c: "task_create f s0 = Some (t, s1)"
    and s': "s' = (if t \<noteq> 0 then set_task t (\<lambda>k. k\<lparr>task_state := TASK_IDLE, task_next := 0\<rparr>) (s1\<lparr>idle := t\<rparr>)
                   else s1\<lparr>idle := t\<rparr>)"
    using assms(1) by (auto simp: scheduler_init_def s0_def bind_eq_Some_conv Let_def)
  from c show ?thesis
    by (cases rule: task_create_effect)
       (use assms(2) s' in \<open>auto simp: s0_def sched_start_def set_task_def upd_task_def split: if_splits\<close>)
qed

lemma sched_start_inv:
  assumes "sched_start s"
  shows "sched_inv s"
proof -
  have "sched_ok s [] [] []" using assms by (auto simp: sched_start_def sched_ok_def linked_def states_ok_def idle_ok_def)
  then show ?thesis using assms by (auto simp: sched_inv_def sched_start_def)
qed

lemma next_task_not_null: "queues s r b z \<Longrightarrow> idle s \<noteq> 0 \<Longrightarrow> next_task (idle s) r \<noteq> 0"
  by (cases r) (auto simp: next_task_def linked_def)

lemma task_create_inv:
  assumes inv: "sched_inv s" and c: "task_create e s = Some (t, s')" and t: "unqueued t s"
  shows "sched_inv s'"
proof -
  obtain r b z where ok: "sched_ok s r b z" and i: "idle s \<noteq> 0" using inv by (auto simp: sched_inv_def)
  have fresh: "t \<notin> set (r @ b @ z)" "t \<noteq> idle s" "t \<noteq> current_task s"
    using t ok by (auto simp: unqueued_def sched_ok_def)
  from c show ?thesis
  proof (cases rule: task_create_effect)
    case (failed h)
    then have "sched_ok s' r b z" using ok by (simp add: sched_ok_def idle_ok_def)
    then show ?thesis using i failed by (auto simp: sched_inv_def)
  next
    case (created h k)
    then have "sched_ok s' r b z" using ok fresh by (auto simp: sched_ok_def idle_ok_def linked_def states_ok_def)
    then show ?thesis using i created by (auto simp: sched_inv_def)
  qed
qed

lemma scheduler_yield_inv:
  assumes inv: "sched_inv s" and y: "scheduler_yield s = Some (w, s')"
  shows "sched_inv s'"
proof -
  obtain r b z where ok: "sched_ok s r b z" and i: "idle s \<noteq> 0" using inv by (auto simp: sched_inv_def)
  show ?thesis
  proof (cases "current_task s \<noteq> 0 \<and> current_task s \<noteq> idle s")
    case True
    then show ?thesis using scheduler_yield_running [OF ok] y i by (auto simp: sched_inv_def same_env_def)
  next
    case False
    then have "\<exists>s'. scheduler_yield s = Some (next_task (idle s) r \<noteq> current_task s, s') \<and> sched_ok s' (tl r) b z \<and>
           current_task s' = next_task (idle s) r \<and> same_env s s' \<and> entered (next_task (idle s) r) s s'"
      by (intro scheduler_yield_other) (use ok next_task_not_null i in \<open>auto simp: sched_ok_def\<close>)
    then show ?thesis using y i by (auto simp: sched_inv_def same_env_def)
  qed
qed

lemma task_exit_ok:
  assumes ok: "sched_ok s r b z" and i: "idle s \<noteq> 0" and c: "current_task s \<noteq> 0" "current_task s \<noteq> idle s"
  shows "\<exists>s'. task_exit s = Some s' \<and> sched_ok s' (tl r) b z \<and> current_task s' = next_task (idle s) r \<and> idle s' = idle s"
proof -
  define s0 where "s0 = set_task (current_task s) (\<lambda>k. k\<lparr>task_state := TASK_TERMINATED\<rparr>) s"
  have 0: "queues s0 r b z" "states_ok (sc_tasks s0) r b z" "idle_ok s0 (r @ b @ z)" "pending_task s0 = 0"
    "task_state (sc_tasks s0 (current_task s0)) \<noteq> TASK_RUNNING"
    using ok c by (auto simp: s0_def sched_ok_def states_ok_def idle_ok_def upd_task_apply)
  have n: "next_task (idle s0) r \<noteq> 0" by (rule next_task_not_null [OF 0(1)]) (simp add: s0_def i)
  have sw: "next_task (idle s0) r \<noteq> current_task s0"
    using ok c by (cases r) (auto simp: s0_def next_task_def sched_ok_def)
  obtain s1 where "scheduler_yield s0 = Some (True, s1)" "sched_ok s1 (tl r) b z"
    "current_task s1 = next_task (idle s0) r" "same_env s0 s1"
    using scheduler_yield_other [OF 0(1-4) n] 0(5) sw by auto
  then show ?thesis using c by (auto simp: task_exit_def s0_def same_env_def)
qed

text \<open>A task that waits for a mutex is blocked but on no queue of the scheduler.\<close>

lemma scheduler_unblock_waiter_ok:
  assumes ok: "sched_ok s r b z" and t: "t \<noteq> 0" "t \<notin> set (r @ b @ z)" "t \<noteq> current_task s" "t \<noteq> idle s"
    and bl: "task_state (sc_tasks s t) = TASK_BLOCKED"
  shows "\<exists>s'. scheduler_unblock t s = Some s' \<and> sched_ok s' (r @ [t]) b z \<and>
           current_task s' = current_task s \<and> same_env s s' \<and>
           same_links (sc_tasks s) (sc_tasks s') (- insert t (set r \<union> set b)) \<and>
           (\<forall>x. x \<noteq> t \<longrightarrow> task_state (sc_tasks s' x) = task_state (sc_tasks s x))"
proof -
  have q: "queues s r b z" using ok by (simp add: sched_ok_def)
  obtain p ts1 where rm: "task_queue_remove (blocked_queue s) t (sc_tasks s) = Some (p, ts1)"
    "queue_rep ts1 p (remove1 t b)" "same_but_next (sc_tasks s) ts1" "same_links (sc_tasks s) ts1 (- set b)"
    using task_queue_remove_list [of "sc_tasks s" "blocked_queue s" b t] q
    by (auto simp: linked_def same_links_def)
  have "same_links (sc_tasks s) ts1 (set r)" "same_links (sc_tasks s) ts1 (set z)"
    by (rule tq.agree_mono [OF rm(4)]; use q in \<open>auto simp: linked_def\<close>)+
  then have l1: "linked ts1 (ready_queue s) p (sleep_queue s) r b z"
    using q rm(2) t by (auto simp: linked_def remove1_idem intro: tq.rep_frame)
  define s1 where "s1 = s\<lparr>int_enabled := False, blocked_queue := p, sc_tasks := upd_task t make_ready ts1\<rparr>"
  have "queues s1 r b z" using l1 by (simp add: s1_def)
  then obtain rq ts2 where push: "push_ready t s1 = Some (s1\<lparr>ready_queue := rq, sc_tasks := ts2\<rparr>)"
    "linked ts2 rq (blocked_queue s1) (sleep_queue s1) (r @ [t]) b z" "same_but_next (sc_tasks s1) ts2"
    "same_links (sc_tasks s1) ts2 (- insert t (set r))"
    using push_ready_queues [of s1 r b z t] t by blast
  have "same_links (sc_tasks s) ts2 (- insert t (set r \<union> set b))"
    using rm(4) push(4) by (simp add: same_links_def s1_def upd_task_apply)
  then have links: "same_links (sc_tasks s) (sc_tasks (interrupt_restore e (s1\<lparr>ready_queue := rq, sc_tasks := ts2\<rparr>)))
      (- insert t (set r \<union> set b))" for e
    by (simp add: interrupt_restore_def)
  define s2 where "s2 = interrupt_restore (int_enabled s) (s1\<lparr>ready_queue := rq, sc_tasks := ts2\<rparr>)"
  have "set_task t make_ready (s\<lparr>int_enabled := False, blocked_queue := p, sc_tasks := ts1\<rparr>) = s1"
    by (simp add: s1_def set_task_def)
  then have run: "scheduler_unblock t s = Some s2"
    using t bl rm(1) push(1) by (simp add: scheduler_unblock_def interrupt_save_def reset_after_ready s2_def)
  have ts2: "task_state (ts2 x) = (if x = t then TASK_READY else task_state (sc_tasks s x))"
    "task_wake_tick (ts2 x) = task_wake_tick (sc_tasks s x)" for x
    using same_but_nextD(1,2) [OF push(3)] same_but_nextD(1,2) [OF rm(3)] by (simp_all add: s1_def upd_task_apply)
  then have "sched_ok s2 (r @ [t]) b z"
    using ok push(2) t
    by (auto simp: sched_ok_def s2_def s1_def interrupt_restore_def states_ok_def idle_ok_def)
  moreover have "same_env s s2" using ts2(2) by (simp add: same_env_def s2_def s1_def interrupt_restore_def)
  moreover have "current_task s2 = current_task s" "sc_tasks s2 = ts2" by (simp_all add: s2_def s1_def interrupt_restore_def)
  ultimately show ?thesis using run links [of "int_enabled s", folded s2_def] ts2 by auto
qed

lemma scheduler_unblock_inv:
  assumes inv: "sched_inv s" and u: "scheduler_unblock t s = Some s'"
    and t: "unqueued t s \<or> (\<exists>r b z. queues s r b z \<and> t \<in> set b)"
  shows "sched_inv s'"
proof -
  obtain r b z where ok: "sched_ok s r b z" and i: "idle s \<noteq> 0" using inv by (auto simp: sched_inv_def)
  have q: "queues s r b z" using ok by (simp add: sched_ok_def)
  have in_b: "t \<in> set b" if "queues s r' b' z'" "t \<in> set b'" for r' b' z'
    using queue_rep_unique [of "sc_tasks s" "blocked_queue s" b b'] that q by (simp add: linked_def)
  consider "t = 0 \<or> task_state (sc_tasks s t) \<noteq> TASK_BLOCKED" | "t \<in> set b"
    | "t \<noteq> 0" "task_state (sc_tasks s t) = TASK_BLOCKED" "unqueued t s"
    using t in_b by blast
  then show ?thesis
  proof cases
    case 1
    then have "s' = s" using u by (auto simp: scheduler_unblock_def split: if_splits)
    then show ?thesis using inv by simp
  next
    case 2
    then show ?thesis using scheduler_unblock_ok [OF ok 2] u i by (auto simp: sched_inv_def same_env_def)
  next
    case 3
    then have "t \<notin> set (r @ b @ z)" "t \<noteq> current_task s" "t \<noteq> idle s" using q by (auto simp: unqueued_def)
    then show ?thesis using scheduler_unblock_waiter_ok [OF ok 3(1) _ _ _ 3(2)] u i by (auto simp: sched_inv_def same_env_def)
  qed
qed

lemma sched_inv_int_enabled: "sched_inv (s\<lparr>int_enabled := e\<rparr>) = sched_inv s"
  by (simp add: sched_inv_def sched_ok_def idle_ok_def)

lemma sched_step_inv:
  assumes "sched_step s s'" and inv: "sched_inv s"
  shows "sched_inv s'"
proof -
  obtain r b z where ok: "sched_ok s r b z" and i: "idle s \<noteq> 0" using inv by (auto simp: sched_inv_def)
  note n = next_task_not_null [of s r b z] and q = ok [unfolded sched_ok_def, THEN conjunct1]
  show ?thesis
    using assms(1)
  proof cases
    case (create e t)
    then show ?thesis using task_create_inv [OF inv] by blast
  next
    case (add t)
    then show ?thesis using scheduler_add_task_ok [OF ok, of t] i q inv
      by (cases "t = 0") (auto simp: sched_inv_def same_env_def unqueued_def scheduler_add_task_def)
  next
    case (yield w)
    then show ?thesis using scheduler_yield_inv [OF inv] by blast
  next
    case (block w)
    show ?thesis
    proof (cases "current_task s \<noteq> 0 \<and> current_task s \<noteq> idle s")
      case True
      then show ?thesis using scheduler_block_current_ok [OF ok] n [OF q i] block i by (auto simp: sched_inv_def same_env_def)
    next
      case False
      then have "\<exists>e. s' = s\<lparr>int_enabled := e\<rparr>" using block
        by (auto simp: scheduler_block_current_def scheduler_block_current_locked_def interrupt_save_def
            interrupt_restore_def)
      then show ?thesis using inv by (auto simp: sched_inv_int_enabled)
    qed
  next
    case (unblock t)
    then show ?thesis using scheduler_unblock_inv [OF inv] by blast
  next
    case (sleep d w)
    show ?thesis
    proof (cases "current_task s \<noteq> 0 \<and> current_task s \<noteq> idle s")
      case True
      then show ?thesis using scheduler_sleep_ok [OF ok, of d] n [OF q i] sleep i by (auto simp: sched_inv_def)
    next
      case False
      then show ?thesis using sleep inv by (auto simp: scheduler_sleep_def)
    qed
  next
    case exit
    then have "current_task s \<noteq> 0" by (auto simp: task_exit_def)
    then show ?thesis using task_exit_ok [OF ok i] exit i by (auto simp: sched_inv_def)
  next
    case (timer c)
    then show ?thesis using pit_irq_handler_ok [OF ok, of c] i by (auto simp: sched_inv_def)
  next
    case (interrupt resume rsp f)
    then show ?thesis using isr_return_ok [OF ok, of resume rsp] i by (auto simp: sched_inv_def split: if_splits)
  qed
qed

section \<open>Sequences of calls\<close>

text \<open>Every running task in turn calls \<open>scheduler_yield\<close>, \<open>n\<close> times in all.\<close>

fun yields :: "nat \<Rightarrow> sched_state \<Rightarrow> sched_state option" where
  "yields 0 s = Some s"
| "yields (Suc n) s = do { (switched, s) \<leftarrow> scheduler_yield s; yields n s }"

text \<open>\<open>n\<close> timer interrupts, with no call of the scheduler in between.\<close>

fun timer_ticks :: "nat \<Rightarrow> u64 \<Rightarrow> sched_state \<Rightarrow> sched_state option" where
  "timer_ticks 0 c s = Some s"
| "timer_ticks (Suc n) c s = do { s \<leftarrow> pit_irq_handler c s; timer_ticks n c s }"

lemma timer_ticks_ok:
  assumes "sched_ok s r b z" and "unat (system_ticks s) + n < 18446744073709551616"
  shows "\<exists>s' r' z'. timer_ticks n c s = Some s' \<and> sched_ok s' r' b z' \<and> set r \<subseteq> set r' \<and>
           (\<forall>t \<in> set z. if n = 0 \<or> unat (system_ticks s) + n < unat (task_wake_tick (sc_tasks s t))
                          then t \<in> set z' else t \<in> set r')"
  using assms
proof (induction n arbitrary: s r z)
  case 0
  then show ?case by auto
next
  case (Suc n)
  define d where "d = (\<lambda>t. task_wake_tick (sc_tasks s t) \<le> system_ticks s + 1)"
  obtain s1 where s1: "pit_irq_handler c s = Some s1" "sched_ok s1 (r @ filter d z) b (filter (\<lambda>t. \<not> d t) z)"
    "system_ticks s1 = system_ticks s + 1"
    and wake: "\<And>t. task_wake_tick (sc_tasks s1 t) = task_wake_tick (sc_tasks s t)"
    using pit_irq_handler_ok [OF Suc.prems(1), of c] by (auto simp: d_def)
  have u: "unat (system_ticks s1) = unat (system_ticks s) + 1"
    using Suc.prems(2) s1(3) by (simp add: unat_plus_no_wrap)
  then have d: "d t \<longleftrightarrow> unat (task_wake_tick (sc_tasks s t)) \<le> unat (system_ticks s) + 1" for t
    using s1(3) by (simp add: d_def word_le_nat_alt)
  have "unat (system_ticks s1) + n < 18446744073709551616" using Suc.prems(2) u by simp
  from Suc.IH [OF s1(2) this] obtain s' r' z' where s': "timer_ticks n c s1 = Some s'" "sched_ok s' r' b z'"
    "set (r @ filter d z) \<subseteq> set r'"
    and z': "\<forall>t \<in> set (filter (\<lambda>t. \<not> d t) z). if n = 0 \<or> unat (system_ticks s1) + n < unat (task_wake_tick (sc_tasks s1 t))
                          then t \<in> set z' else t \<in> set r'" by blast
  have "if Suc n = 0 \<or> unat (system_ticks s) + Suc n < unat (task_wake_tick (sc_tasks s t))
          then t \<in> set z' else t \<in> set r'" if "t \<in> set z" for t
  proof (cases "d t")
    case True
    then have "t \<in> set r'" using s'(3) that by auto
    then show ?thesis using True d [of t] by auto
  next
    case False
    then show ?thesis using z' that d [of t] u wake [of t] by (auto split: if_splits)
  qed
  then show ?case using s1(1) s' by (intro exI [of _ s'] exI [of _ r'] exI [of _ z']) auto
qed

section \<open>Properties\<close>

text \<open>A concrete state: the task at 0x1000 runs, two others are ready and one sleeps until tick 8.\<close>

definition sample_task :: "task_state \<Rightarrow> u64 \<Rightarrow> task" where
  "sample_task st nxt = \<lparr>task_id = 1, task_context = \<lparr>ctx_rsp = 0x9000, ctx_rbx = 0, ctx_rbp = 0, ctx_r12 = 0,
     ctx_r13 = 0, ctx_r14 = 0, ctx_r15 = 0\<rparr>, task_interrupt_rsp = 0, task_entry = 0x100, task_kernel_stack = 0x5000,
     task_kernel_stack_size = 0x4000, task_state = st, task_next = nxt, task_wake_tick = 8,
     task_mode = TASK_RESUME_CONTEXT, task_process = 0\<rparr>"

definition sample_sched :: sched_state where
  "sample_sched = \<lparr>sc_heap = sample_heap,
     sc_tasks = (\<lambda>_. sample_task TASK_TERMINATED 0)(0x1000 := sample_task TASK_RUNNING 0,
       0x2000 := sample_task TASK_READY 0x3000, 0x3000 := sample_task TASK_READY 0,
       0x4000 := sample_task TASK_SLEEPING 0, 0x5000 := sample_task TASK_IDLE 0),
     sc_procs = (\<lambda>_. process_zero), ready_queue = 0x2000, current_task = 0x1000, idle = 0x5000,
     blocked_queue = 0, sleep_queue = 0x4000, pending_task = 0, preemption_ticks = 0, preemption_requested = False,
     next_task_id = 6, system_ticks = 5, tss_rsp0 = 0, int_enabled = True, last_switch = No_Switch\<rparr>"

lemma sample_sched_ok: "sched_ok sample_sched [0x2000, 0x3000] [] [0x4000]"
  by (simp add: sched_ok_def sample_sched_def sample_task_def linked_def states_ok_def idle_ok_def)

lemma sample_sched_fields [simp]:
  "current_task sample_sched = 0x1000" "idle sample_sched = 0x5000" "system_ticks sample_sched = 5"
  "ready_queue sample_sched = 0x2000" "preemption_requested sample_sched = False" "preemption_ticks sample_sched = 0"
  by (simp_all add: sample_sched_def)

text \<open>
  C16. In every state the scheduler can reach, the ready, blocked and sleep queues are well-formed
  lists that share no task, every queued task has the state of its queue, and the running task and the
  idle task are in none of them.
\<close>

theorem scheduler_reachable_ok:
  assumes "sched_reachable s"
  shows "\<exists>r b z. queue_rep (sc_tasks s) (ready_queue s) r \<and> queue_rep (sc_tasks s) (blocked_queue s) b \<and>
           queue_rep (sc_tasks s) (sleep_queue s) z \<and> distinct (r @ b @ z) \<and>
           (\<forall>t \<in> set r. task_state (sc_tasks s t) = TASK_READY) \<and>
           (\<forall>t \<in> set b. task_state (sc_tasks s t) = TASK_BLOCKED) \<and>
           (\<forall>t \<in> set z. task_state (sc_tasks s t) = TASK_SLEEPING) \<and>
           current_task s \<notin> set (r @ b @ z) \<and> idle s \<notin> set (r @ b @ z)"
proof -
  have "sched_inv s"
    using assms by (induction) (auto intro: sched_start_inv sched_step_inv)
  then show ?thesis by (auto simp: sched_inv_def sched_ok_def linked_def states_ok_def idle_ok_def)
qed

theorem scheduler_reachable_ok_witness:
  "\<exists>r. queue_rep (sc_tasks (sample_sched\<lparr>ready_queue := 0, current_task := 0, sleep_queue := 0\<rparr>)) 0 r"
proof -
  have "sched_reachable (sample_sched\<lparr>ready_queue := 0, current_task := 0, sleep_queue := 0\<rparr>)"
    by (rule sched_reachable.start) (simp add: sched_start_def sample_sched_def sample_task_def)
  from scheduler_reachable_ok [OF this] show ?thesis by auto
qed

text \<open>
  C17. Cooperative scheduling is a round robin: when each running task yields in turn, \<open>n\<close> yields rotate
  the circle of the running task and the ready queue by \<open>n\<close> places, so that every ready task runs after
  as many yields as its place in the queue. Every yield ends.
\<close>

theorem scheduler_round_robin:
  assumes "sched_ok s r b z" and "current_task s \<noteq> 0" and "current_task s \<noteq> idle s"
  shows "\<exists>s'. yields n s = Some s' \<and> sched_ok s' (tl (rotate n (current_task s # r))) b z \<and>
           current_task s' = rotate n (current_task s # r) ! 0"
  using assms
proof (induction n arbitrary: s r)
  case 0
  then show ?case by simp
next
  case (Suc n)
  define c where "c = current_task s"
  obtain s1 where s1: "scheduler_yield s = Some (r \<noteq> [], s1)" "sched_ok s1 (tl (r @ [c])) b z"
    "current_task s1 = hd (r @ [c])" "idle s1 = idle s"
    using scheduler_yield_running [OF Suc.prems] by (auto simp: c_def same_env_def)
  have "hd (r @ [c]) \<noteq> 0" "hd (r @ [c]) \<noteq> idle s"
    using Suc.prems linked_not_null by (cases r; force simp: sched_ok_def idle_ok_def c_def)+
  moreover have "hd (r @ [c]) # tl (r @ [c]) = rotate1 (c # r)" by (cases r) simp_all
  ultimately show ?case using Suc.IH [OF s1(2)] s1 by (simp add: rotate1_rotate_swap c_def)
qed

theorem scheduler_round_robin_witness:
  "\<exists>s'. yields (Suc (Suc 0)) sample_sched = Some s' \<and> current_task s' = 0x3000"
  using scheduler_round_robin [OF sample_sched_ok, of "Suc (Suc 0)"] by (auto simp del: yields.simps)

text \<open>
  C18. A task that sleeps for \<open>d\<close> ticks gives up the processor, and the timer moves it back to the ready
  queue at the \<open>d\<close>-th interrupt (the first one for a sleep of 0 ticks) and not before.
\<close>

theorem scheduler_sleep_wakes:
  assumes "sched_ok s r b z" and "current_task s \<noteq> 0" and "current_task s \<noteq> idle s" and "idle s \<noteq> 0"
    and "unat (system_ticks s) + unat d < 18446744073709551616" and "unat (system_ticks s) + n < 18446744073709551616"
  shows "\<exists>s1 s2 r' z'. scheduler_sleep d s = Some (True, s1) \<and> current_task s1 \<noteq> current_task s \<and>
           timer_ticks n c s1 = Some s2 \<and> sched_ok s2 r' b z' \<and>
           (if n < max 1 (unat d) then current_task s \<in> set z' else current_task s \<in> set r')"
proof -
  have n: "next_task (idle s) r \<noteq> 0" using assms next_task_not_null by (auto simp: sched_ok_def)
  obtain s1 where s1: "scheduler_sleep d s = Some (True, s1)" "sched_ok s1 (tl r) b (z @ [current_task s])"
    "current_task s1 = next_task (idle s) r" "system_ticks s1 = system_ticks s"
    "task_wake_tick (sc_tasks s1 (current_task s)) = system_ticks s + d"
    using scheduler_sleep_ok [OF assms(1-3) n, of d] by auto
  have "next_task (idle s) r \<noteq> current_task s"
    using assms(1,3) by (cases r) (auto simp: next_task_def sched_ok_def)
  moreover obtain s2 r' z' where "timer_ticks n c s1 = Some s2" "sched_ok s2 r' b z'"
    "if n = 0 \<or> unat (system_ticks s) + n < unat (system_ticks s + d)
     then current_task s \<in> set z' else current_task s \<in> set r'"
    using timer_ticks_ok [OF s1(2), of n c] assms(6) s1(4,5) by fastforce
  moreover have "unat (system_ticks s + d) = unat (system_ticks s) + unat d"
    using assms(5) by (rule unat_plus_no_wrap)
  ultimately show ?thesis using s1
    by (intro exI [of _ s1] exI [of _ s2] exI [of _ r'] exI [of _ z']) (auto split: if_splits)
qed

theorem scheduler_sleep_wakes_witness:
  "\<exists>s1 s2 r' z'. scheduler_sleep 3 sample_sched = Some (True, s1) \<and> timer_ticks 2 1 s1 = Some s2 \<and>
     sched_ok s2 r' [] z' \<and> 0x1000 \<in> set z'"
  using scheduler_sleep_wakes [OF sample_sched_ok, of 3 2 1] by auto

text \<open>
  A task that blocks leaves the processor to the next task and stays off the ready queue until it
  is unblocked, which puts it at the end of the ready queue.
\<close>

theorem scheduler_block_unblock:
  assumes "sched_ok s r b z" and "current_task s \<noteq> 0" and "current_task s \<noteq> idle s" and "idle s \<noteq> 0"
  shows "\<exists>s1 s2. scheduler_block_current s = Some (True, s1) \<and> sched_ok s1 (tl r) (b @ [current_task s]) z \<and>
           current_task s1 = (if r = [] then idle s else hd r) \<and> scheduler_unblock (current_task s) s1 = Some s2 \<and>
           sched_ok s2 (tl r @ [current_task s]) b z \<and> current_task s2 = current_task s1"
proof -
  have n: "next_task (idle s) r \<noteq> 0" using assms next_task_not_null by (auto simp: sched_ok_def)
  obtain s1 where s1: "scheduler_block_current s = Some (True, s1)"
    "sched_ok s1 (tl r) (b @ [current_task s]) z" "current_task s1 = next_task (idle s) r"
    using scheduler_block_current_ok [OF assms(1-3) n] by blast
  have "current_task s \<notin> set b" using assms(1) by (simp add: sched_ok_def)
  then have "remove1 (current_task s) (b @ [current_task s]) = b" by (simp add: remove1_append)
  then obtain s2 where "scheduler_unblock (current_task s) s1 = Some s2"
    "sched_ok s2 (tl r @ [current_task s]) b z" "current_task s2 = current_task s1"
    using scheduler_unblock_ok [OF s1(2), of "current_task s"] by auto
  moreover have "next_task (idle s) r = (if r = [] then idle s else hd r)"
    by (cases r) (simp_all add: next_task_def)
  ultimately show ?thesis using s1 by auto
qed

theorem scheduler_block_unblock_witness:
  "\<exists>s1 s2. scheduler_block_current sample_sched = Some (True, s1) \<and> current_task s1 = 0x2000 \<and>
     scheduler_unblock 0x1000 s1 = Some s2 \<and> sched_ok s2 [0x3000, 0x1000] [] [0x4000]"
  using scheduler_block_unblock [OF sample_sched_ok] by auto

text \<open>
  C19. The interrupt return hands the processor over exactly when a switch was requested and the head
  of the ready queue can be resumed: then that task runs and the interrupted one goes to the end of the
  queue. The processor gets the frame the task goes on with: a started user task and an interrupted kernel
  task their saved frame, with memory unchanged; the others a frame at the top of their kernel stack that enters user
  mode at the entry point of the process, or the code that restores the kernel context, with
  nothing else of memory changed. Otherwise the interrupted task continues through its own frame and no queue changes.
  In both cases the frame of the interrupted task is saved for it and the request is answered.
\<close>

theorem isr_return_correct:
  assumes "sched_ok s r b z"
  shows "\<exists>f s'. isr_return resume rsp s = Some (f, s') \<and> idle s' = idle s \<and> \<not> preemption_requested s' \<and>
           (current_task s \<noteq> 0 \<and> current_task s \<noteq> idle s \<longrightarrow>
              task_interrupt_rsp (sc_tasks s' (current_task s)) = rsp \<and>
              task_mode (sc_tasks s' (current_task s)) = TASK_RESUME_INTERRUPT) \<and>
           (if preemption_requested s \<and> r \<noteq> [] \<and> resumable (hd r) s
            then goes_on_in resume (hd r) s f s' \<and> current_task s' = hd r \<and> sched_ok s' (tl r @ requeued s) b z
            else f = rsp \<and> current_task s' = current_task s \<and> sched_ok s' r b z)"
proof -
  obtain f s' where i: "isr_return resume rsp s = Some (f, s')" "idle s' = idle s" "\<not> preemption_requested s'"
    "saved_frame (sc_tasks s') = saved_frame (sc_tasks (scheduler_save_interrupt_context rsp s))"
    "if switch_due s r then goes_on_in resume (hd r) s f s' \<and> current_task s' = hd r \<and> sched_ok s' (tl r @ requeued s) b z
     else f = rsp \<and> current_task s' = current_task s \<and> sched_ok s' r b z"
    using isr_return_ok [OF assms] by blast
  have "saved_frame (sc_tasks s') (current_task s) = (rsp, TASK_RESUME_INTERRUPT)" if "current_task s \<noteq> 0" "current_task s \<noteq> idle s"
    using that unfolding i(4) by (simp add: scheduler_save_interrupt_context_def saved_frame_def upd_task_apply)
  then show ?thesis using i(1-3,5) by (auto simp: saved_frame_def switch_due_def)
qed

text \<open>A requested switch to a task that has never run.\<close>

abbreviation sample_preempted :: sched_state where
  "sample_preempted \<equiv> sample_sched\<lparr>preemption_requested := True\<rparr>"

lemma sample_preempted_ok: "sched_ok sample_preempted [0x2000, 0x3000] [] [0x4000]"
  using sample_sched_ok by (simp add: sched_ok_def idle_ok_def)

theorem isr_return_correct_witness:
  "\<exists>f s'. isr_return 0x100 0x8000 sample_preempted = Some (f, s') \<and> current_task s' = 0x2000 \<and>
     f = stack_pointer 0x2000 sample_preempted - 176 \<and> load_u64 (hp_mem (sc_heap s')) (f + 136) = 0x100 \<and>
     task_interrupt_rsp (sc_tasks s' 0x1000) = 0x8000"
proof -
  have "\<not> in_saved_frame 0x2000 sample_preempted" "\<not> user_task 0x2000 sample_preempted" "resumable 0x2000 sample_preempted"
    by (simp_all add: resumable_def in_saved_frame_def user_task_def sample_sched_def sample_task_def)
  then show ?thesis
    using isr_return_correct [where resume = "0x100" and rsp = "0x8000", OF sample_preempted_ok]
    by (auto simp: goes_on_in_def entry_frame_def)
qed

text \<open>
  A task that keeps running while others are ready is asked to give up the processor at the tenth
  timer interrupt and not before.
\<close>

theorem preemption_after_slice:
  assumes "current_task s \<noteq> 0" and "current_task s \<noteq> idle s" and "ready_queue s \<noteq> 0" and "c \<noteq> 0"
    and "preemption_ticks s = 0" and "\<not> preemption_requested s" and "n \<le> unat SCHEDULER_TIME_SLICE"
  shows "preemption_requested ((scheduler_preempt c ^^ n) s) \<longleftrightarrow> n = unat SCHEDULER_TIME_SLICE"
proof -
  have step: "(scheduler_preempt c ^^ n) s = s\<lparr>preemption_ticks := of_nat n\<rparr>" if "n < 10" for n
    using that
  proof (induction n)
    case 0
    then show ?case using assms(5) by (cases s) simp
  next
    case (Suc n)
    have "unat (of_nat n + 1 :: u64) = Suc n"
      using Suc.prems by (simp add: unat_word_ariths unat_of_nat)
    then have "of_nat n + 1 < SCHEDULER_TIME_SLICE"
      using Suc.prems by (simp add: SCHEDULER_TIME_SLICE_def word_less_nat_alt)
    then show ?case using Suc assms(1,2,4) by (simp add: scheduler_preempt_def Let_def add.commute)
  qed
  have "preemption_requested (scheduler_preempt c (s\<lparr>preemption_ticks := of_nat 9\<rparr>))"
    using assms(1-4) by (simp add: scheduler_preempt_def SCHEDULER_TIME_SLICE_def)
  then have "preemption_requested ((scheduler_preempt c ^^ Suc 9) s)"
    unfolding funpow.simps(2) comp_def using step [of 9] by simp
  moreover have "Suc 9 = 10" by simp
  ultimately have ten: "preemption_requested ((scheduler_preempt c ^^ 10) s)" by metis
  show ?thesis
  proof (cases "n < 10")
    case True
    then show ?thesis using step [OF True] assms(6) by (simp add: SCHEDULER_TIME_SLICE_def)
  next
    case False
    then have "n = 10" using assms(7) by (simp add: SCHEDULER_TIME_SLICE_def)
    then show ?thesis using ten by (simp add: SCHEDULER_TIME_SLICE_def)
  qed
qed

theorem preemption_after_slice_witness:
  "preemption_requested ((scheduler_preempt 1 ^^ 10) sample_sched)"
  using preemption_after_slice [of sample_sched 1 10] by (simp add: SCHEDULER_TIME_SLICE_def)

end
