(* ===== verification/Mutex.thy ===== *)
theory Mutex
  imports Scheduling
begin

text \<open>
  The locks of \<open>sync/\<close>: spinlocks (\<open>spinlock.c\<close>), spinlocks that turn interrupts off
  (\<open>irq_spinlock.c\<close>) and blocking mutexes with a queue of waiting tasks (\<open>mutex.c\<close>). The kernel runs on one
  processor, so a spin on a lock that is held never ends and is the value \<open>None\<close>. As in the scheduler, a
  call that switches to another task ends at the switch: a task that waits for a mutex continues at the
  head of the loop of \<open>mutex_lock\<close> when it is resumed. The null tests on the lock pointers are left out:
  a lock is passed as a value.
\<close>

section \<open>Locks\<close>

record spinlock =
  lk_locked :: u64

record irq_spinlock =
  irq_lock :: spinlock
  irq_was_enabled :: bool

definition atomic_xchg_u64 :: "u64 \<Rightarrow> u64 \<Rightarrow> u64 \<times> u64" where
  "atomic_xchg_u64 old v = (old, v)"

definition spinlock_init :: "spinlock \<Rightarrow> spinlock" where
  "spinlock_init l = l\<lparr>lk_locked := 0\<rparr>"

partial_function (option) spin_wait :: "spinlock \<Rightarrow> spinlock option" where
  "spin_wait l = (if lk_locked l \<noteq> 0 then spin_wait l else Some l)"

partial_function (option) spin_lock :: "spinlock \<Rightarrow> spinlock option" where
  "spin_lock l =
     (case atomic_xchg_u64 (lk_locked l) 1 of (old, new) \<Rightarrow>
        let l = l\<lparr>lk_locked := new\<rparr> in
        if old \<noteq> 0 then do { l \<leftarrow> spin_wait l; spin_lock l } else Some l)"

definition spin_unlock :: "spinlock \<Rightarrow> spinlock" where
  "spin_unlock l = l\<lparr>lk_locked := 0\<rparr>"

definition irq_spinlock_init :: "irq_spinlock \<Rightarrow> irq_spinlock" where
  "irq_spinlock_init l = l\<lparr>irq_lock := spinlock_init (irq_lock l), irq_was_enabled := False\<rparr>"

definition irq_spin_lock :: "irq_spinlock \<Rightarrow> sched_state \<Rightarrow> (irq_spinlock \<times> sched_state) option" where
  "irq_spin_lock l s =
     (let l = l\<lparr>irq_was_enabled := int_enabled s\<rparr>;
          s = s\<lparr>int_enabled := False\<rparr> in do {
        k \<leftarrow> spin_lock (irq_lock l);
        Some (l\<lparr>irq_lock := k\<rparr>, s)
      })"

definition irq_spin_unlock :: "irq_spinlock \<Rightarrow> sched_state \<Rightarrow> irq_spinlock \<times> sched_state" where
  "irq_spin_unlock l s =
     (let l = l\<lparr>irq_lock := spin_unlock (irq_lock l)\<rparr>
      in (l, if irq_was_enabled l then s\<lparr>int_enabled := True\<rparr> else s))"

section \<open>Mutexes\<close>

record mutex =
  mx_guard :: irq_spinlock
  mx_locked :: bool
  mx_owner :: u64
  mx_wait_queue :: u64

definition mutex_init :: "mutex \<Rightarrow> mutex" where
  "mutex_init m = m\<lparr>mx_guard := irq_spinlock_init (mx_guard m), mx_locked := False, mx_owner := 0, mx_wait_queue := 0\<rparr>"

definition mutex_release_guard :: "mutex \<Rightarrow> sched_state \<Rightarrow> mutex \<times> sched_state" where
  "mutex_release_guard m s =
     (case irq_spin_unlock (mx_guard m) s of (g, s) \<Rightarrow> (m\<lparr>mx_guard := g\<rparr>, s))"

text \<open>How one turn of the loop of \<open>mutex_lock\<close> ends.\<close>

datatype lock_outcome = Acquired | Switched_Away | Retry

definition mutex_lock_attempt :: "u64 \<Rightarrow> mutex \<Rightarrow> sched_state \<Rightarrow> (lock_outcome \<times> mutex \<times> sched_state) option" where
  "mutex_lock_attempt current m s = do {
     (g, s) \<leftarrow> irq_spin_lock (mx_guard m) s;
     let m = m\<lparr>mx_guard := g\<rparr>;
     if mx_owner m = current then Some (Acquired, mutex_release_guard m s)
     else if \<not> mx_locked m
     then Some (Acquired, mutex_release_guard (m\<lparr>mx_locked := True, mx_owner := current\<rparr>) s)
     else do {
       let s = set_task current (\<lambda>k. k\<lparr>task_state := TASK_BLOCKED\<rparr>) s;
       (q, ts) \<leftarrow> task_queue_push (mx_wait_queue m) current (sc_tasks s);
       case mutex_release_guard (m\<lparr>mx_wait_queue := q\<rparr>) (s\<lparr>sc_tasks := ts\<rparr>) of (m, s) \<Rightarrow> do {
         (switched, s) \<leftarrow> scheduler_yield s;
         Some (if switched then Switched_Away else Retry, m, s)
       }
     }
   }"

partial_function (option) mutex_lock_loop :: "u64 \<Rightarrow> mutex \<Rightarrow> sched_state \<Rightarrow> (bool \<times> mutex \<times> sched_state) option" where
  "mutex_lock_loop current m s = do {
     (outcome, m, s) \<leftarrow> mutex_lock_attempt current m s;
     case outcome of
       Acquired \<Rightarrow> Some (False, m, s)
     | Switched_Away \<Rightarrow> Some (True, m, s)
     | Retry \<Rightarrow> mutex_lock_loop current m s
   }"

definition mutex_lock :: "mutex \<Rightarrow> sched_state \<Rightarrow> (bool \<times> mutex \<times> sched_state) option" where
  "mutex_lock m s =
     (let current = scheduler_current_task s in
      if current = 0 then Some (False, m, s)
      else if mx_owner m = current then Some (False, m, s)
      else mutex_lock_loop current m s)"

definition mutex_unlock :: "mutex \<Rightarrow> sched_state \<Rightarrow> (mutex \<times> sched_state) option" where
  "mutex_unlock m s =
     (let current = scheduler_current_task s in
      if current = 0 then Some (m, s)
      else do {
        (g, s) \<leftarrow> irq_spin_lock (mx_guard m) s;
        let m = m\<lparr>mx_guard := g\<rparr>;
        if mx_owner m \<noteq> current then Some (mutex_release_guard m s)
        else if mx_wait_queue m = 0
        then Some (mutex_release_guard (m\<lparr>mx_locked := False, mx_owner := 0\<rparr>) s)
        else do {
          let next = mx_wait_queue m;
          (q, ts) \<leftarrow> task_queue_remove (mx_wait_queue m) next (sc_tasks s);
          s \<leftarrow> scheduler_unblock next (s\<lparr>sc_tasks := ts\<rparr>);
          Some (mutex_release_guard (m\<lparr>mx_wait_queue := q, mx_owner := next\<rparr>) s)
        }
      })"

section \<open>The guard\<close>

lemma spin_lock_free: "lk_locked l = 0 \<Longrightarrow> spin_lock l = Some (l\<lparr>lk_locked := 1\<rparr>)"
  by (subst spin_lock.simps) (simp add: atomic_xchg_u64_def)

text \<open>On one processor nobody can release a lock while it is spun on.\<close>

lemma spin_wait_held:
  assumes "lk_locked l \<noteq> 0"
  shows "spin_wait l = None"
proof (rule ccontr)
  assume "spin_wait l \<noteq> None"
  then obtain k where k: "spin_wait l = Some k" by auto
  have "lk_locked l = 0"
    by (rule spin_wait.raw_induct [where P = "\<lambda>l k. lk_locked l = 0", OF _ k]) (auto split: if_splits)
  with assms show False ..
qed

lemma spin_lock_held: "lk_locked l \<noteq> 0 \<Longrightarrow> spin_lock l = None"
  by (subst spin_lock.simps) (simp add: atomic_xchg_u64_def spin_wait_held)

lemma irq_spin_lock_free:
  assumes "lk_locked (irq_lock g) = 0"
  shows "irq_spin_lock g s = Some (g\<lparr>irq_was_enabled := int_enabled s, irq_lock := (irq_lock g)\<lparr>lk_locked := 1\<rparr>\<rparr>,
           s\<lparr>int_enabled := False\<rparr>)"
  using assms by (simp add: irq_spin_lock_def spin_lock_free Let_def)

section \<open>The invariant\<close>

text \<open>
  \<open>mutex_ok m s r b z w\<close>: the scheduler is well-formed with queues \<open>r\<close>, \<open>b\<close>, \<open>z\<close>; the tasks that wait for the
  mutex are the list \<open>w\<close>, blocked and in no queue of the scheduler; the guard is free; the mutex is
  locked exactly when it has an owner, who does not wait, and nobody waits for an unlocked mutex.
\<close>

definition mutex_ok :: "mutex \<Rightarrow> sched_state \<Rightarrow> u64 list \<Rightarrow> u64 list \<Rightarrow> u64 list \<Rightarrow> u64 list \<Rightarrow> bool" where
  "mutex_ok m s r b z w \<longleftrightarrow> sched_ok s r b z \<and> queue_rep (sc_tasks s) (mx_wait_queue m) w \<and>
     set w \<inter> set (r @ b @ z) = {} \<and> current_task s \<notin> set w \<and> idle s \<notin> set w \<and>
     (\<forall>t \<in> set w. task_state (sc_tasks s t) = TASK_BLOCKED) \<and> lk_locked (irq_lock (mx_guard m)) = 0 \<and>
     (mx_locked m \<longleftrightarrow> mx_owner m \<noteq> 0) \<and> mx_owner m \<notin> set w \<and> (w \<noteq> [] \<longrightarrow> mx_locked m)"

lemma mutex_ok_sched: "mutex_ok m s r b z w \<Longrightarrow> sched_ok s r b z"
  by (simp add: mutex_ok_def)

lemma sched_ok_int_enabled [simp]: "sched_ok (s\<lparr>int_enabled := e\<rparr>) r b z = sched_ok s r b z"
  by (rule sched_ok_cong) simp_all

lemma release_guard:
  "mutex_release_guard (m\<lparr>mx_guard := g\<lparr>irq_was_enabled := e, irq_lock := l\<rparr>\<rparr>) (s\<lparr>int_enabled := False\<rparr>) =
     (m\<lparr>mx_guard := g\<lparr>irq_was_enabled := e, irq_lock := l\<lparr>lk_locked := 0\<rparr>\<rparr>\<rparr>, s\<lparr>int_enabled := e\<rparr>)"
  by (simp add: mutex_release_guard_def irq_spin_unlock_def spin_unlock_def Let_def)

text \<open>A task that already owns the mutex, or finds it free, has it at the end of the attempt.\<close>

lemma attempt_acquires:
  assumes ok: "mutex_ok m s r b z w" and c: "c \<noteq> 0" "mx_owner m = c \<or> \<not> mx_locked m"
  shows "\<exists>m'. mutex_lock_attempt c m s = Some (Acquired, m', s) \<and> mx_owner m' = c \<and> mx_locked m' \<and>
           mx_wait_queue m' = mx_wait_queue m \<and> lk_locked (irq_lock (mx_guard m')) = 0"
proof -
  have free: "lk_locked (irq_lock (mx_guard m)) = 0" and lo: "mx_locked m \<longleftrightarrow> mx_owner m \<noteq> 0"
    using ok by (auto simp: mutex_ok_def)
  show ?thesis
  proof (cases "mx_owner m = c")
    case True
    then show ?thesis using c lo by (simp add: mutex_lock_attempt_def irq_spin_lock_free [OF free] release_guard)
  next
    case False
    then have "\<not> mx_locked m" using c by simp
    then show ?thesis using False
      by (simp add: mutex_lock_attempt_def irq_spin_lock_free [OF free] mutex_release_guard_def irq_spin_unlock_def
          spin_unlock_def Let_def)
  qed
qed

text \<open>
  A task that has marked itself blocked, without touching the queues of the scheduler, leaves the processor when it
  yields.
\<close>

lemma yield_blocked:
  assumes so: "sched_ok s r b z" and c: "current_task s \<noteq> 0" "current_task s \<noteq> idle s" "idle s \<noteq> 0"
    and st: "\<And>x. task_state (ts x) = (if x = current_task s then TASK_BLOCKED else task_state (sc_tasks s x))"
    and links: "same_links (sc_tasks s) ts (set (r @ b @ z))"
  shows "\<exists>s'. scheduler_yield (s\<lparr>sc_tasks := ts\<rparr>) = Some (True, s') \<and> sched_ok s' (tl r) b z \<and>
           current_task s' = next_task (idle s) r \<and> entered (next_task (idle s) r) (s\<lparr>sc_tasks := ts\<rparr>) s'"
proof -
  let ?s = "s\<lparr>sc_tasks := ts\<rparr>"
  have cq: "current_task s \<notin> set (r @ b @ z)" using c so by (auto simp: sched_ok_def)
  have keep: "queue_rep ts p l" if "queue_rep (sc_tasks s) p l" "set l \<subseteq> set (r @ b @ z)" for p l
    by (rule tq.rep_frame [OF that(1)], rule tq.agree_mono [OF links that(2)])
  have q: "queues ?s r b z" using so unfolding sched_ok_def linked_def by (auto intro!: keep)
  have 1: "states_ok (sc_tasks ?s) r b z" "idle_ok ?s (r @ b @ z)" "pending_task ?s = 0" "next_task (idle ?s) r \<noteq> 0"
    "task_state (sc_tasks ?s (current_task ?s)) \<noteq> TASK_RUNNING"
    using so st cq c next_task_not_null [OF _ c(3)] by (auto simp: sched_ok_def states_ok_def idle_ok_def)
  have "next_task (idle ?s) r \<noteq> current_task ?s" using cq c by (cases r) (auto simp: next_task_def)
  then show ?thesis using scheduler_yield_other [OF q 1(1-4)] 1(5) by auto
qed

lemma attempt_waits:
  assumes ok: "mutex_ok m s r b z w" and locked: "mx_locked m" and other: "mx_owner m \<noteq> current_task s"
    and c: "current_task s \<noteq> 0" "current_task s \<noteq> idle s" "idle s \<noteq> 0"
  shows "\<exists>m' s'. mutex_lock_attempt (current_task s) m s = Some (Switched_Away, m', s') \<and>
           mutex_ok m' s' (tl r) b z (w @ [current_task s]) \<and> mx_owner m' = mx_owner m \<and>
           current_task s' = next_task (idle s) r \<and> idle s' = idle s"
proof -
  define c where "c = current_task s"
  define g where "g = mx_guard m"
  define s0 where "s0 = set_task c (\<lambda>k. k\<lparr>task_state := TASK_BLOCKED\<rparr>) (s\<lparr>int_enabled := False\<rparr>)"
  have so: "sched_ok s r b z" and rep: "queue_rep (sc_tasks s) (mx_wait_queue m) w" and cw: "c \<notin> set w"
    and disj: "set w \<inter> set (r @ b @ z) = {}" and free: "lk_locked (irq_lock g) = 0" and iw: "idle s \<notin> set w"
    and bl: "\<forall>t \<in> set w. task_state (sc_tasks s t) = TASK_BLOCKED" and ow: "mx_owner m \<notin> set w" "mx_owner m \<noteq> 0"
    using ok locked by (auto simp: mutex_ok_def c_def g_def)
  have c0: "c \<noteq> 0" "c \<noteq> idle s" and cq: "c \<notin> set (r @ b @ z)" using assms(4,5) so by (auto simp: c_def sched_ok_def)
  have rep0: "queue_rep (sc_tasks s0) (mx_wait_queue m) w" using rep by (simp add: s0_def upd_task_def)
  obtain q ts where push: "task_queue_push (mx_wait_queue m) c (sc_tasks s0) = Some (q, ts)" "queue_rep ts q (w @ [c])"
    "same_but_next (sc_tasks s0) ts" "\<forall>x. x \<notin> set (w @ [c]) \<longrightarrow> ts x = sc_tasks s0 x"
    using task_queue_push_list [OF rep0 c0(1) cw] by blast
  have st: "task_state (ts x) = (if x = c then TASK_BLOCKED else task_state (sc_tasks s x))" for x
    using same_but_nextD(1) [OF push(3)] by (simp add: s0_def upd_task_apply)
  have "same_links (sc_tasks s) ts (set (r @ b @ z))"
    using push(4) disj cq by (auto simp: same_links_def s0_def upd_task_apply)
  then obtain s2 where s2: "scheduler_yield (s\<lparr>sc_tasks := ts\<rparr>) = Some (True, s2)" "sched_ok s2 (tl r) b z"
    "current_task s2 = next_task (idle s) r" "entered (next_task (idle s) r) (s\<lparr>sc_tasks := ts\<rparr>) s2"
    using yield_blocked [OF so assms(4-6), of ts] st by (auto simp: c_def)
  define m' where "m' = m\<lparr>mx_wait_queue := q, mx_guard := g\<lparr>irq_was_enabled := int_enabled s,
    irq_lock := (irq_lock g)\<lparr>lk_locked := 0\<rparr>\<rparr>\<rparr>"
  have "(if int_enabled s then s0\<lparr>sc_tasks := ts, int_enabled := True\<rparr> else s0\<lparr>sc_tasks := ts\<rparr>) = s\<lparr>sc_tasks := ts\<rparr>"
    by (cases s) (simp add: s0_def set_task_def)
  then have "mutex_release_guard (m\<lparr>mx_guard := g\<lparr>irq_was_enabled := int_enabled s,
      irq_lock := (irq_lock g)\<lparr>lk_locked := 1\<rparr>\<rparr>, mx_wait_queue := q\<rparr>) (s0\<lparr>sc_tasks := ts\<rparr>) = (m', s\<lparr>sc_tasks := ts\<rparr>)"
    by (simp add: mutex_release_guard_def irq_spin_unlock_def spin_unlock_def Let_def m'_def)
  then have att: "mutex_lock_attempt c m s = Some (Switched_Away, m', s2)"
    using locked other push(1) s2(1)
    by (simp add: mutex_lock_attempt_def irq_spin_lock_free free g_def [symmetric] c_def [symmetric] s0_def [symmetric] Let_def
        del: set_task_fields)
  have n: "t \<noteq> next_task (idle s) r" if "t \<in> set (w @ [c])" for t
    using disj iw cq c0 that by (cases r) (auto simp: next_task_def)
  then have "\<forall>t \<in> set (w @ [c]). task_next (sc_tasks s2 t) = task_next (ts t)" using s2(4) by (simp add: entered_def)
  then have "queue_rep (sc_tasks s2) q (w @ [c])" using queue_rep_cong push(2) by blast
  moreover have "set (w @ [c]) \<inter> set (tl r @ b @ z) = {}" using disj cq by (cases r) auto
  moreover have "\<forall>t \<in> set (w @ [c]). task_state (sc_tasks s2 t) = TASK_BLOCKED" "idle s2 = idle s" "current_task s2 \<notin> set (w @ [c])"
    using s2(3,4) st bl n by (auto simp: entered_def same_env_def)
  ultimately have "mutex_ok m' s2 (tl r) b z (w @ [c])"
    using s2(2) ow locked other iw c0 by (simp add: mutex_ok_def m'_def c_def free)
  then show ?thesis using att s2 by (auto simp: c_def m'_def entered_def same_env_def)
qed

text \<open>The owner hands the mutex to the task that has waited longest.\<close>

lemma unlock_hands_over:
  assumes ok: "mutex_ok m s r b z (t # w)" and c: "current_task s \<noteq> 0" "mx_owner m = current_task s"
  shows "\<exists>m' s'. mutex_unlock m s = Some (m', s') \<and> mx_owner m' = t \<and> mutex_ok m' s' (r @ [t]) b z w \<and>
           current_task s' = current_task s \<and> idle s' = idle s"
proof -
  define g where "g = mx_guard m"
  define s0 where "s0 = s\<lparr>int_enabled := False\<rparr>"
  have so: "sched_ok s r b z" and rep: "queue_rep (sc_tasks s) (mx_wait_queue m) (t # w)"
    and disj: "set (t # w) \<inter> set (r @ b @ z) = {}" and free: "lk_locked (irq_lock g) = 0"
    and cw: "current_task s \<notin> set (t # w)" "idle s \<notin> set (t # w)" and lo: "mx_locked m"
    and bl: "\<forall>x \<in> set (t # w). task_state (sc_tasks s x) = TASK_BLOCKED"
    using ok by (auto simp: mutex_ok_def g_def)
  have t: "mx_wait_queue m = t" "t \<noteq> 0" and dw: "distinct (t # w)"
    using rep queue_rep_distinct [OF rep] by auto
  obtain ts where rm: "task_queue_remove t t (sc_tasks s) = Some (task_next (sc_tasks s t), ts)"
    "queue_rep ts (task_next (sc_tasks s t)) w" "same_but_next (sc_tasks s) ts" "\<forall>y. y \<notin> set (t # w) \<longrightarrow> ts y = sc_tasks s y"
    using task_queue_remove_list [OF rep, of t] t by (auto simp: task_queue_remove_def)
  define s1 where "s1 = s0\<lparr>sc_tasks := ts\<rparr>"
  have links: "same_links (sc_tasks s) ts (- set (t # w))" using rm(4) by (simp add: same_links_def)
  have st1: "task_state (ts x) = task_state (sc_tasks s x)" for x by (rule same_but_nextD(1) [OF rm(3)])
  have keep: "queue_rep ts p l" if "queue_rep (sc_tasks s) p l" "set l \<subseteq> set (r @ b @ z)" for p l
    by (rule tq.rep_frame [OF that(1)], rule tq.agree_mono [OF links]) (use that(2) disj in auto)
  have q1: "queues s1 r b z"
    using so unfolding sched_ok_def linked_def s1_def s0_def by (auto intro!: keep)
  have so1: "sched_ok s1 r b z"
    using so q1 st1 by (simp add: sched_ok_def states_ok_def idle_ok_def s1_def s0_def)
  have tq: "t \<notin> set (r @ b @ z)" "t \<noteq> current_task s1" "t \<noteq> idle s1" "task_state (sc_tasks s1 t) = TASK_BLOCKED"
    using disj cw bl st1 by (auto simp: s1_def s0_def)
  obtain s2 where s2: "scheduler_unblock t s1 = Some s2" "sched_ok s2 (r @ [t]) b z" "current_task s2 = current_task s1"
    "same_env s1 s2" "same_links ts (sc_tasks s2) (- insert t (set r \<union> set b))"
    "\<forall>x. x \<noteq> t \<longrightarrow> task_state (sc_tasks s2 x) = task_state (sc_tasks s x)"
    using scheduler_unblock_waiter_ok [OF so1 t(2) tq] st1 by (auto simp: s1_def)
  define g' where "g' = g\<lparr>irq_was_enabled := int_enabled s, irq_lock := (irq_lock g)\<lparr>lk_locked := 0\<rparr>\<rparr>"
  define s3 where "s3 = (if int_enabled s then s2\<lparr>int_enabled := True\<rparr> else s2)"
  have rel: "mutex_release_guard (m\<lparr>mx_guard := g\<lparr>irq_was_enabled := int_enabled s,
        irq_lock := (irq_lock g)\<lparr>lk_locked := 1\<rparr>\<rparr>, mx_wait_queue := task_next (sc_tasks s t), mx_owner := t\<rparr>) s2 =
      (m\<lparr>mx_guard := g', mx_wait_queue := task_next (sc_tasks s t), mx_owner := t\<rparr>, s3)"
    by (simp add: mutex_release_guard_def irq_spin_unlock_def spin_unlock_def Let_def g'_def s3_def)
  have g': "lk_locked (irq_lock g') = 0" and s3: "s3 = s2 \<or> s3 = s2\<lparr>int_enabled := True\<rparr>"
    by (simp_all add: g'_def s3_def)
  have run: "mutex_unlock m s = Some (m\<lparr>mx_guard := g', mx_wait_queue := task_next (sc_tasks s t), mx_owner := t\<rparr>, s3)"
    using c t rm(1) s2(1) rel
    by (simp add: mutex_unlock_def scheduler_current_task_def irq_spin_lock_free free g_def [symmetric] s1_def s0_def Let_def)
  have "same_links ts (sc_tasks s2) (set w)"
    by (rule tq.agree_mono [OF s2(5)]) (use disj dw in auto)
  then have "queue_rep (sc_tasks s2) (task_next (sc_tasks s t)) w" by (rule tq.rep_frame [OF rm(2)])
  moreover have "sched_ok s3 (r @ [t]) b z" "sc_tasks s3 = sc_tasks s2" "current_task s3 = current_task s" "idle s3 = idle s"
    using s3 s2(2-4) by (auto simp: same_env_def s1_def s0_def)
  moreover have "\<forall>x \<in> set w. task_state (sc_tasks s2 x) = TASK_BLOCKED" using s2(6) bl dw by auto
  moreover have "set w \<inter> set ((r @ [t]) @ b @ z) = {}" using disj dw by auto
  ultimately have "mutex_ok (m\<lparr>mx_guard := g', mx_wait_queue := task_next (sc_tasks s t), mx_owner := t\<rparr>) s3 (r @ [t]) b z w"
    using g' lo t dw cw by (simp add: mutex_ok_def)
  then show ?thesis using run \<open>current_task s3 = current_task s\<close> \<open>idle s3 = idle s\<close> by auto
qed

section \<open>Properties\<close>

text \<open>
  C20. \<open>mutex_lock\<close> always ends its loop: the running task obtains a free mutex (and keeps one it
  already owns) without giving up the processor; if another task owns it, the running task joins the
  end of the waiting tasks, blocked and off the ready queue, and the next task runs. When the task is
  resumed as the owner, the loop returns with the mutex.
\<close>

theorem mutex_lock_correct:
  assumes "mutex_ok m s r b z w" and "current_task s \<noteq> 0" and "current_task s \<noteq> idle s" and "idle s \<noteq> 0"
  shows "\<exists>sw m' s'. mutex_lock m s = Some (sw, m', s') \<and>
           (if mx_locked m \<and> mx_owner m \<noteq> current_task s
            then sw \<and> mx_owner m' = mx_owner m \<and> current_task s' = (if r = [] then idle s else hd r) \<and>
                 mutex_ok m' s' (tl r) b z (w @ [current_task s])
            else \<not> sw \<and> mx_owner m' = current_task s \<and> mutex_ok m' s' r b z w \<and>
                 (\<exists>m''. mutex_lock_loop (current_task s) m' s' = Some (False, m'', s') \<and> mx_owner m'' = current_task s))"
proof -
  have n: "next_task (idle s) r = (if r = [] then idle s else hd r)" by (cases r) (simp_all add: next_task_def)
  have loop: "\<exists>m''. mutex_lock_loop (current_task s) k s = Some (False, m'', s) \<and> mx_owner m'' = current_task s \<and>
      mutex_ok m'' s r b z w" if k: "mutex_ok k s r b z w" "mx_owner k = current_task s \<or> \<not> mx_locked k" for k
  proof -
    obtain m' where m': "mutex_lock_attempt (current_task s) k s = Some (Acquired, m', s)" "mx_owner m' = current_task s"
      "mx_locked m'" "mx_wait_queue m' = mx_wait_queue k" "lk_locked (irq_lock (mx_guard m')) = 0"
      using attempt_acquires [OF k(1) assms(2) k(2)] by blast
    then have "mutex_ok m' s r b z w" using k(1) assms(2) by (auto simp: mutex_ok_def)
    then show ?thesis using m' by (subst mutex_lock_loop.simps) auto
  qed
  show ?thesis
  proof (cases "mx_locked m \<and> mx_owner m \<noteq> current_task s")
    case True
    then obtain m' s' where "mutex_lock_attempt (current_task s) m s = Some (Switched_Away, m', s')"
      "mutex_ok m' s' (tl r) b z (w @ [current_task s])" "mx_owner m' = mx_owner m" "current_task s' = next_task (idle s) r"
      using attempt_waits [OF assms(1) _ _ assms(2-4)] by blast
    then show ?thesis using True assms(2) n
      by (intro exI [of _ True] exI [of _ m'] exI [of _ s']) (simp add: mutex_lock_def scheduler_current_task_def mutex_lock_loop.simps [of "current_task s" m s])
  next
    case False
    show ?thesis
    proof (cases "mx_owner m = current_task s")
      case True
      then show ?thesis using False assms(1,2) loop [OF assms(1)]
        by (auto simp: mutex_lock_def scheduler_current_task_def)
    next
      case free: False
      then obtain m' where m': "mutex_lock_loop (current_task s) m s = Some (False, m', s)" "mx_owner m' = current_task s"
        "mutex_ok m' s r b z w" using False loop [OF assms(1)] by blast
      then show ?thesis using False free assms(2) loop [OF m'(3)]
        by (auto simp: mutex_lock_def scheduler_current_task_def)
    qed
  qed
qed

definition sample_mutex :: mutex where
  "sample_mutex = mutex_init \<lparr>mx_guard = \<lparr>irq_lock = \<lparr>lk_locked = 1\<rparr>, irq_was_enabled = True\<rparr>, mx_locked = True,
     mx_owner = 9, mx_wait_queue = 9\<rparr>"

lemma sample_mutex_ok: "mutex_ok sample_mutex sample_sched [0x2000, 0x3000] [] [0x4000] []"
  using sample_sched_ok
  by (simp add: mutex_ok_def sample_mutex_def mutex_init_def irq_spinlock_init_def spinlock_init_def)

theorem mutex_lock_correct_witness:
  "\<exists>m' s'. mutex_lock sample_mutex sample_sched = Some (False, m', s') \<and> mx_owner m' = 0x1000"
proof -
  have "\<not> mx_locked sample_mutex" by (simp add: sample_mutex_def mutex_init_def)
  then show ?thesis using mutex_lock_correct [OF sample_mutex_ok] by auto
qed

text \<open>
  C21. \<open>mutex_unlock\<close> by the owner hands the mutex to the task that has waited longest and makes it
  ready, or frees the mutex when nobody waits; called by any other task it changes nothing but the
  guard, which it leaves free.
\<close>

theorem mutex_unlock_correct:
  assumes "mutex_ok m s r b z w" and "current_task s \<noteq> 0"
  shows "\<exists>m' s'. mutex_unlock m s = Some (m', s') \<and> current_task s' = current_task s \<and>
           (if mx_owner m \<noteq> current_task s then mx_owner m' = mx_owner m \<and> mutex_ok m' s' r b z w
            else if w = [] then \<not> mx_locked m' \<and> mx_owner m' = 0 \<and> mutex_ok m' s' r b z []
            else mx_owner m' = hd w \<and> mutex_ok m' s' (r @ [hd w]) b z (tl w))"
proof -
  define g where "g = mx_guard m"
  have free: "lk_locked (irq_lock g) = 0" and rep: "queue_rep (sc_tasks s) (mx_wait_queue m) w"
    using assms by (auto simp: mutex_ok_def g_def)
  consider "mx_owner m \<noteq> current_task s" | "mx_owner m = current_task s" "w = []"
    | t v where "mx_owner m = current_task s" "w = t # v" by (cases w) auto
  then show ?thesis
  proof cases
    case 1
    define m' where "m' = m\<lparr>mx_guard := g\<lparr>irq_was_enabled := int_enabled s, irq_lock := (irq_lock g)\<lparr>lk_locked := 0\<rparr>\<rparr>\<rparr>"
    have "mutex_unlock m s = Some (m', s)"
      using 1 assms(2)
      by (simp add: mutex_unlock_def scheduler_current_task_def irq_spin_lock_free free g_def [symmetric] release_guard m'_def Let_def)
    then show ?thesis using 1 assms(1) by (auto simp: m'_def mutex_ok_def)
  next
    case 2
    define m' where "m' = m\<lparr>mx_guard := g\<lparr>irq_was_enabled := int_enabled s, irq_lock := (irq_lock g)\<lparr>lk_locked := 0\<rparr>\<rparr>,
      mx_locked := False, mx_owner := 0\<rparr>"
    have "mx_wait_queue m = 0" using rep 2 by simp
    then have "mutex_unlock m s = Some (m', s)"
      using 2 assms(2)
      by (simp add: mutex_unlock_def scheduler_current_task_def irq_spin_lock_free free g_def [symmetric]
          mutex_release_guard_def irq_spin_unlock_def spin_unlock_def m'_def Let_def)
    then show ?thesis using 2 assms by (simp add: m'_def mutex_ok_def)
  next
    case 3
    then show ?thesis using unlock_hands_over [of m s r b z t v] assms by auto
  qed
qed

theorem mutex_unlock_correct_witness:
  "\<exists>m' s'. mutex_unlock (sample_mutex\<lparr>mx_owner := 0x1000, mx_locked := True\<rparr>) sample_sched = Some (m', s') \<and>
     \<not> mx_locked m'"
proof -
  have "mutex_ok (sample_mutex\<lparr>mx_owner := 0x1000, mx_locked := True\<rparr>) sample_sched [0x2000, 0x3000] [] [0x4000] []"
    using sample_mutex_ok by (simp add: mutex_ok_def)
  from mutex_unlock_correct [OF this] show ?thesis by auto
qed

end
