(* ===== verification/Elf.thy ===== *)
theory Elf
  imports Task_Queue Vfs
begin

text \<open>
  The ELF loader of \<open>elf/\<close>: the header and program header structures (\<open>elf_types.h\<close>), their validation
  and access (\<open>elf.c\<close>) and the loading of an image into a kernel buffer (\<open>elf_loader.c\<close>). An image is
  bytes of the kernel heap; a structure is what a cast of its address reads, with the offsets of the
  C layout. The printing functions are left out.
\<close>

section \<open>Structures\<close>

definition EI_NIDENT :: nat where "EI_NIDENT = 16"
definition ELFCLASS64 :: u8 where "ELFCLASS64 = 2"
definition ELFDATA2LSB :: u8 where "ELFDATA2LSB = 1"
definition ET_EXEC :: u16 where "ET_EXEC = 2"
definition EM_X86_64 :: u16 where "EM_X86_64 = 62"
definition EV_CURRENT :: u32 where "EV_CURRENT = 1"
definition PT_LOAD :: u32 where "PT_LOAD = 1"
definition PF_W :: u32 where "PF_W = 0x2"

record elf64_header =
  e_ident :: "u8 list"
  e_type :: u16
  e_machine :: u16
  e_version :: u32
  e_entry :: u64
  e_phoff :: u64
  e_shoff :: u64
  e_flags :: u32
  e_ehsize :: u16
  e_phentsize :: u16
  e_phnum :: u16
  e_shentsize :: u16
  e_shnum :: u16
  e_shstrndx :: u16

record elf64_program_header =
  p_type :: u32
  p_flags :: u32
  p_offset :: u64
  p_vaddr :: u64
  p_paddr :: u64
  p_filesz :: u64
  p_memsz :: u64
  p_align :: u64

definition elf_header_at :: "byte_mem \<Rightarrow> u64 \<Rightarrow> elf64_header" where
  "elf_header_at m a = \<lparr>e_ident = map (\<lambda>i. m (a + of_nat i)) [0..<EI_NIDENT],
     e_type = load_u16 m (a + 16), e_machine = load_u16 m (a + 18), e_version = load_u32 m (a + 20),
     e_entry = load_u64 m (a + 24), e_phoff = load_u64 m (a + 32), e_shoff = load_u64 m (a + 40),
     e_flags = load_u32 m (a + 48), e_ehsize = load_u16 m (a + 52), e_phentsize = load_u16 m (a + 54),
     e_phnum = load_u16 m (a + 56), e_shentsize = load_u16 m (a + 58), e_shnum = load_u16 m (a + 60),
     e_shstrndx = load_u16 m (a + 62)\<rparr>"

definition program_header_at :: "byte_mem \<Rightarrow> u64 \<Rightarrow> elf64_program_header" where
  "program_header_at m a = \<lparr>p_type = load_u32 m a, p_flags = load_u32 m (a + 4), p_offset = load_u64 m (a + 8),
     p_vaddr = load_u64 m (a + 16), p_paddr = load_u64 m (a + 24), p_filesz = load_u64 m (a + 32),
     p_memsz = load_u64 m (a + 40), p_align = load_u64 m (a + 48)\<rparr>"

section \<open>Validation and access\<close>

definition elf_validate :: "byte_mem \<Rightarrow> u64 \<Rightarrow> int" where
  "elf_validate m header =
     (if header = 0 then KERNEL_EINVAL
      else
        let h = elf_header_at m header in
        if e_ident h ! 0 \<noteq> 0x7F \<or> e_ident h ! 1 \<noteq> 0x45 \<or> e_ident h ! 2 \<noteq> 0x4C \<or> e_ident h ! 3 \<noteq> 0x46 then KERNEL_EINVAL
        else if e_ident h ! 4 \<noteq> ELFCLASS64 then KERNEL_EINVAL
        else if e_ident h ! 5 \<noteq> ELFDATA2LSB then KERNEL_EINVAL
        else if e_version h \<noteq> EV_CURRENT then KERNEL_EINVAL
        else if e_type h \<noteq> ET_EXEC then KERNEL_EINVAL
        else if e_machine h \<noteq> EM_X86_64 then KERNEL_EINVAL
        else KERNEL_SUCCESS)"

text \<open>
  The product \<open>index * e_phentsize\<close> is computed in \<open>int\<close>: 32 bits, sign-extended when it is added to the
  pointer.
\<close>

definition elf_program_header :: "byte_mem \<Rightarrow> u64 \<Rightarrow> u16 \<Rightarrow> u64" where
  "elf_program_header m header index =
     (if header = 0 then 0
      else
        let h = elf_header_at m header in
        if index \<ge> e_phnum h then 0
        else header + e_phoff h + scast (ucast index * ucast (e_phentsize h) :: 32 word))"

section \<open>Loading an image\<close>

text \<open>
  The program headers the loops \<open>for (uint16_t i = 0; i < e_phnum; i++)\<close> do not skip: the loadable
  segments in table order.
\<close>

definition load_segments :: "byte_mem \<Rightarrow> u64 \<Rightarrow> elf64_program_header list" where
  "load_segments m header =
     map (program_header_at m)
       (filter (\<lambda>ph. ph \<noteq> 0 \<and> p_type (program_header_at m ph) = PT_LOAD)
          (map (\<lambda>i. elf_program_header m header (of_nat i)) [0..<unat (e_phnum (elf_header_at m header))]))"

definition segment_bounds :: "elf64_program_header list \<Rightarrow> u64 \<times> u64" where
  "segment_bounds segs = fold (\<lambda>ph (lowest, highest).
       (if p_vaddr ph < lowest then p_vaddr ph else lowest,
        if p_vaddr ph + p_memsz ph > highest then p_vaddr ph + p_memsz ph else highest)) segs (- 1, 0)"

definition copy_segment :: "u64 \<Rightarrow> u64 \<Rightarrow> u64 \<Rightarrow> elf64_program_header \<Rightarrow> byte_mem \<Rightarrow> byte_mem" where
  "copy_segment src base lowest ph m =
     (let dest = base + (p_vaddr ph - lowest);
          m = k_memcpy dest (src + p_offset ph) (p_filesz ph) m
      in if p_memsz ph > p_filesz ph then k_memset (dest + p_filesz ph) 0 (p_memsz ph - p_filesz ph) m else m)"

text \<open>The second loop, which reads the headers again from the memory it writes.\<close>

function copy_segments_loop :: "u64 \<Rightarrow> u64 \<Rightarrow> u64 \<Rightarrow> nat \<Rightarrow> byte_mem \<Rightarrow> byte_mem" where
  "copy_segments_loop src base lowest i m =
     (if i < unat (e_phnum (elf_header_at m src))
      then
        let ph = elf_program_header m src (of_nat i);
            m = (if ph = 0 then m
                 else if p_type (program_header_at m ph) \<noteq> PT_LOAD then m
                 else copy_segment src base lowest (program_header_at m ph) m)
        in copy_segments_loop src base lowest (i + 1) m
      else m)"
  by pat_completeness auto
termination
proof (relation "measure (\<lambda>(src, base, lowest, i, m). 65536 - i)")
  fix src base lowest :: u64 and i and m :: byte_mem
  assume "i < unat (e_phnum (elf_header_at m src))"
  moreover have "unat (e_phnum (elf_header_at m src)) < 65536" using unsigned_less [of "e_phnum (elf_header_at m src)"] by simp
  ultimately show "((src, base, lowest, i + 1, m'), (src, base, lowest, i, m)) \<in>
      measure (\<lambda>(src, base, lowest, i, m). 65536 - i)" for m' by simp
qed simp

declare copy_segments_loop.simps [simp del]

definition elf_load_image :: "u64 \<Rightarrow> heap_state \<Rightarrow> (int \<times> elf_image \<times> heap_state) option" where
  "elf_load_image src h =
     (let none = \<lparr>img_base = 0, img_size = 0, img_entry = 0, img_image_base = 0\<rparr> in
      if src = 0 then Some (KERNEL_EINVAL, none, h)
      else if elf_validate (hp_mem h) src \<noteq> KERNEL_SUCCESS then Some (KERNEL_EINVAL, none, h)
      else
        let loaded = none\<lparr>img_entry := e_entry (elf_header_at (hp_mem h) src)\<rparr> in
        case segment_bounds (load_segments (hp_mem h) src) of (lowest, highest) \<Rightarrow> do {
          (ok, loaded, h) \<leftarrow>
            (if lowest \<noteq> - 1
             then do {
               (base, h) \<leftarrow> kmalloc (highest - lowest) h;
               Some (base \<noteq> 0, loaded\<lparr>img_size := highest - lowest, img_image_base := lowest, img_base := base\<rparr>, h)
             }
             else Some (True, loaded, h));
          if \<not> ok then Some (KERNEL_ENOMEM, loaded, h)
          else Some (KERNEL_SUCCESS, loaded,
                 h\<lparr>hp_mem := copy_segments_loop src (img_base loaded) lowest 0 (hp_mem h)\<rparr>)
        })"

end
