(* ===== verification/Process.thy ===== *)
theory Process
  imports Scheduler Elf
begin

text \<open>
  Processes (\<open>process/\<close>) and the file system calls that act on the current one (\<open>fs/sys_file.c\<close>). The
  state joins the scheduler, whose record holds the heap, the address spaces, the tasks and the
  processes, with the file system and the file-level variables of \<open>process.c\<close>. User pages are bytes of
  physical memory reached through the direct map; an executable is copied into them from a buffer of
  the kernel heap. A name of 64 characters or more overruns the name field of a process and has no result.
  Console output is left out.
\<close>

record kernel =
  k_sched :: sched_state
  k_fs :: fs_state
  process_list :: u64
  next_pid :: u64

definition sizeof_process :: u64 where "sizeof_process = 744"

definition USER_HEAP_BASE :: u64 where "USER_HEAP_BASE = 0x0000000000800000"
definition USER_STACK_TOP :: u64 where "USER_STACK_TOP = 0x00007FFFFFFFF000"
definition USER_STACK_SIZE :: u64 where "USER_STACK_SIZE = 1024 * 1024"

abbreviation proc_of :: "kernel \<Rightarrow> u64 \<Rightarrow> process" where
  "proc_of k p \<equiv> sc_procs (k_sched k) p"

definition upd_proc :: "u64 \<Rightarrow> (process \<Rightarrow> process) \<Rightarrow> kernel \<Rightarrow> kernel" where
  "upd_proc p f k = k\<lparr>k_sched := set_proc p f (k_sched k)\<rparr>"

definition k_heap :: "kernel \<Rightarrow> heap_state" where
  "k_heap k = sc_heap (k_sched k)"

definition set_heap :: "heap_state \<Rightarrow> kernel \<Rightarrow> kernel" where
  "set_heap h k = k\<lparr>k_sched := (k_sched k)\<lparr>sc_heap := h\<rparr>\<rparr>"

definition k_vm :: "kernel \<Rightarrow> vm_state" where
  "k_vm k = sc_vm (k_sched k)"

definition upd_vm :: "vm_state \<Rightarrow> kernel \<Rightarrow> kernel" where
  "upd_vm v k = k\<lparr>k_sched := set_vm v (k_sched k)\<rparr>"

section \<open>User memory\<close>

text \<open>The common core of the functions below: a fresh page is mapped for the user, or given back.\<close>

definition map_fresh_page :: "u64 \<Rightarrow> u64 \<Rightarrow> bool \<Rightarrow> kernel \<Rightarrow> u64 \<times> kernel" where
  "map_fresh_page pml4 va writable k =
     (case pmm_alloc_page (vm_pmm (k_vm k)) of (page, pmm) \<Rightarrow>
        let v = (k_vm k)\<lparr>vm_pmm := pmm\<rparr> in
        if page = 0 then (0, upd_vm v k)
        else case page_table_map_user pml4 va page writable v of (ok, v) \<Rightarrow>
          if \<not> ok then (0, upd_vm (v\<lparr>vm_pmm := pmm_free_page page (vm_pmm v)\<rparr>) k)
          else (page, upd_vm v k))"

definition process_map_initial_stack :: "u64 \<Rightarrow> kernel \<Rightarrow> int \<times> kernel" where
  "process_map_initial_stack p k =
     (if p = 0 then (KERNEL_EINVAL, k)
      else case map_fresh_page (proc_page_table (proc_of k p)) (proc_user_stack_top (proc_of k p) - PAGE_SIZE) True k of
        (page, k) \<Rightarrow> if page = 0 then (KERNEL_ENOMEM, k) else (KERNEL_SUCCESS, k))"

definition process_heap_expand :: "u64 \<Rightarrow> kernel \<Rightarrow> int \<times> kernel" where
  "process_heap_expand p k =
     (if p = 0 then (KERNEL_EINVAL, k)
      else case map_fresh_page (proc_page_table (proc_of k p)) (proc_user_heap_end (proc_of k p)) True k of
        (page, k) \<Rightarrow>
          if page = 0 then (KERNEL_ENOMEM, k)
          else (KERNEL_SUCCESS, upd_proc p (\<lambda>r. r\<lparr>proc_user_heap_end := proc_user_heap_end r + PAGE_SIZE,
                 proc_user_heap_current := proc_user_heap_end r + PAGE_SIZE\<rparr>) k))"

text \<open>\<open>k_memcpy\<close> from a heap buffer to a page of physical memory.\<close>

definition copy_to_page :: "u64 \<Rightarrow> u64 \<Rightarrow> u64 \<Rightarrow> byte_mem \<Rightarrow> byte_mem \<Rightarrow> byte_mem" where
  "copy_to_page d s n source m = for_u64 0 n (\<lambda>i m. m(d + i := source (s + i))) m"

definition segment_page_bytes :: "u64 \<Rightarrow> u64 \<Rightarrow> u64" where
  "segment_page_bytes page_offset seg_size =
     (if page_offset < seg_size
      then if seg_size - page_offset > PAGE_SIZE then PAGE_SIZE else seg_size - page_offset
      else 0)"

definition load_segment_page :: "elf64_program_header \<Rightarrow> u64 \<Rightarrow> u64 \<Rightarrow> u64 \<Rightarrow> kernel \<Rightarrow> kernel" where
  "load_segment_page ph elf_base page_offset page k =
     (let page_va = page_table_physical_to_virtual (k_vm k) page;
          bytes_to_copy = segment_page_bytes page_offset (p_filesz ph);
          src = elf_base + p_offset ph + page_offset;
          m = vm_mem (k_vm k);
          m = (if bytes_to_copy > 0 then copy_to_page page_va src bytes_to_copy (hp_mem (k_heap k)) m else m);
          bytes_in_memory = segment_page_bytes page_offset (p_memsz ph);
          m = (if bytes_in_memory > bytes_to_copy
               then k_memset (page_va + bytes_to_copy) 0 (bytes_in_memory - bytes_to_copy) m else m)
      in upd_vm ((k_vm k)\<lparr>vm_mem := m\<rparr>) k)"

primrec map_segment_pages ::
  "u64 \<Rightarrow> elf64_program_header \<Rightarrow> u64 \<Rightarrow> u64 list \<Rightarrow> kernel \<Rightarrow> int \<times> kernel" where
  "map_segment_pages p ph elf_base [] k = (KERNEL_SUCCESS, k)"
| "map_segment_pages p ph elf_base (i # is) k =
     (case map_fresh_page (proc_page_table (proc_of k p)) (p_vaddr ph + i * PAGE_SIZE) (p_flags ph AND PF_W \<noteq> 0) k of
        (page, k) \<Rightarrow>
          if page = 0 then (KERNEL_ENOMEM, k)
          else map_segment_pages p ph elf_base is (load_segment_page ph elf_base (i * PAGE_SIZE) page k))"

definition process_map_segment :: "u64 \<Rightarrow> elf64_program_header \<Rightarrow> u64 \<Rightarrow> kernel \<Rightarrow> int \<times> kernel" where
  "process_map_segment p ph elf_base k =
     (if p = 0 then (KERNEL_EINVAL, k)
      else if elf_base = 0 then (KERNEL_EINVAL, k)
      else
        let page_count = (p_memsz ph + PAGE_SIZE - 1) div PAGE_SIZE
        in map_segment_pages p ph elf_base (u64_range 0 page_count) k)"

section \<open>Processes\<close>

definition process_allocate_pid :: "kernel \<Rightarrow> u64 \<times> kernel" where
  "process_allocate_pid k = (next_pid k, k\<lparr>next_pid := next_pid k + 1\<rparr>)"

text \<open>
  \<open>process_create\<close> in the three parts of the code: the cleared structure, the address space with the first
  pages of the stack and the heap, and the list and the main thread. The failures of the second part
  free the structure except when there is no page table.
\<close>

definition process_init :: "u64 \<Rightarrow> kernel \<Rightarrow> kernel" where
  "process_init p k =
     (case process_allocate_pid k of (pid, k) \<Rightarrow>
        upd_proc p (\<lambda>_. process_zero\<lparr>proc_fd_table := fd_init (proc_fd_table process_zero), proc_pid := pid,
          proc_state := PROCESS_READY, proc_is_user_process := False, proc_user_started := False,
          proc_exit_code := 0, proc_parent := 0\<rparr>) k)"

definition process_setup_space :: "u64 \<Rightarrow> kernel \<Rightarrow> bool \<times> kernel" where
  "process_setup_space p k =
     (case page_table_create (k_vm k) of (pt, physical, v) \<Rightarrow>
        let k = upd_proc p (\<lambda>r. r\<lparr>proc_page_table := pt,
                  proc_page_table_physical := (case physical of Some a \<Rightarrow> a | None \<Rightarrow> proc_page_table_physical r)\<rparr>)
                  (upd_vm v k) in
        if pt = 0 then (False, k)
        else
          let k = upd_proc p (\<lambda>r. r\<lparr>proc_user_stack_top := USER_STACK_TOP,
                    proc_user_stack_bottom := USER_STACK_TOP - USER_STACK_SIZE\<rparr>) k in
          case process_map_initial_stack p k of (rc, k) \<Rightarrow>
          if rc \<noteq> KERNEL_SUCCESS then (False, set_heap (kfree p (k_heap k)) k)
          else
            let k = upd_proc p (\<lambda>r. r\<lparr>proc_user_heap_start := USER_HEAP_BASE, proc_user_heap_end := USER_HEAP_BASE,
                      proc_user_heap_current := USER_HEAP_BASE\<rparr>) k in
            case process_heap_expand p k of (rc, k) \<Rightarrow>
            if rc \<noteq> KERNEL_SUCCESS then (False, set_heap (kfree p (k_heap k)) k)
            else (True, k))"

definition process_start :: "u64 \<Rightarrow> string \<Rightarrow> u64 \<Rightarrow> kernel \<Rightarrow> (u64 \<times> kernel) option" where
  "process_start p name entry k =
     (if length name \<ge> 64 then None
      else
        let k = upd_proc p (\<lambda>r. r\<lparr>proc_next := process_list k\<rparr>) k;
            k = k\<lparr>process_list := p\<rparr>;
            k = upd_proc p (\<lambda>r. r\<lparr>proc_name := name\<rparr>) k in do {
          (t, s) \<leftarrow> task_create entry (k_sched k);
          let k = k\<lparr>k_sched := s\<rparr>;
          if t = 0 then Some (0, set_heap (kfree p (k_heap k)) k)
          else
            let k = k\<lparr>k_sched := set_task t (\<lambda>q. q\<lparr>task_process := p\<rparr>) (k_sched k)\<rparr>;
                k = upd_proc p (\<lambda>r. r\<lparr>proc_main_thread := t, proc_thread_list := t\<rparr>) k in do {
              s \<leftarrow> scheduler_add_task t (k_sched k);
              Some (p, k\<lparr>k_sched := s\<rparr>)
            }
        })"

definition process_create :: "string \<Rightarrow> u64 \<Rightarrow> kernel \<Rightarrow> (u64 \<times> kernel) option" where
  "process_create name entry k =
     (if entry = 0 then Some (0, k)
      else do {
        (p, h) \<leftarrow> kmalloc sizeof_process (k_heap k);
        let k = set_heap h k;
        if p = 0 then Some (0, k)
        else
          case process_setup_space p (process_init p k) of (ok, k) \<Rightarrow>
          if \<not> ok then Some (0, k) else process_start p name entry k
      })"

partial_function (option) process_lookup_loop :: "process_store \<Rightarrow> u64 \<Rightarrow> u64 \<Rightarrow> u64 option" where
  "process_lookup_loop ps pid p =
     (if p = 0 then Some 0
      else if proc_pid (ps p) = pid then Some p
      else process_lookup_loop ps pid (proc_next (ps p)))"

definition process_lookup :: "u64 \<Rightarrow> kernel \<Rightarrow> u64 option" where
  "process_lookup pid k = process_lookup_loop (sc_procs (k_sched k)) pid (process_list k)"

definition process_current :: "kernel \<Rightarrow> u64" where
  "process_current k =
     (let t = scheduler_current_task (k_sched k)
      in if t = 0 then 0 else task_process (sc_tasks (k_sched k) t))"

partial_function (option) process_predecessor :: "process_store \<Rightarrow> u64 \<Rightarrow> u64 \<Rightarrow> u64 option" where
  "process_predecessor ps p current =
     (if current \<noteq> 0 \<and> proc_next (ps current) \<noteq> p then process_predecessor ps p (proc_next (ps current))
      else Some current)"

definition process_destroy :: "u64 \<Rightarrow> kernel \<Rightarrow> kernel option" where
  "process_destroy p k =
     (if p = 0 then Some k
      else do {
        k \<leftarrow> (if process_list k = p then Some (k\<lparr>process_list := proc_next (proc_of k p)\<rparr>)
              else do {
                current \<leftarrow> process_predecessor (sc_procs (k_sched k)) p (process_list k);
                Some (if current \<noteq> 0 then upd_proc current (\<lambda>r. r\<lparr>proc_next := proc_next (proc_of k p)\<rparr>) k else k)
              });
        Some (set_heap (kfree p (k_heap k)) k)
      })"

definition process_exit :: "32 word \<Rightarrow> kernel \<Rightarrow> kernel option" where
  "process_exit exit_code k =
     (let p = process_current k in
      if p = 0 then Some k
      else
        let k = upd_proc p (\<lambda>r. r\<lparr>proc_state := PROCESS_EXITED, proc_exit_code := exit_code\<rparr>) k in do {
          s \<leftarrow> task_exit (k_sched k);
          Some (k\<lparr>k_sched := s\<rparr>)
        })"

definition process_load_image :: "u64 \<Rightarrow> elf_image option \<Rightarrow> kernel \<Rightarrow> int \<times> kernel" where
  "process_load_image p img k =
     (if p = 0 then (KERNEL_EINVAL, k)
      else case img of
        None \<Rightarrow> (KERNEL_EINVAL, k)
      | Some i \<Rightarrow> (KERNEL_SUCCESS, upd_proc p (\<lambda>r. r\<lparr>proc_image := i\<rparr>) k))"

section \<open>Executing an image\<close>

primrec map_segments :: "u64 \<Rightarrow> u64 \<Rightarrow> elf64_program_header list \<Rightarrow> kernel \<Rightarrow> int \<times> kernel" where
  "map_segments p elf_base [] k = (KERNEL_SUCCESS, k)"
| "map_segments p elf_base (ph # phs) k =
     (case process_map_segment p ph elf_base k of (rc, k) \<Rightarrow>
        if rc \<noteq> KERNEL_SUCCESS then (rc, k) else map_segments p elf_base phs k)"

definition process_exec :: "u64 \<Rightarrow> u64 \<Rightarrow> kernel \<Rightarrow> (int \<times> kernel) option" where
  "process_exec p elf_base k =
     (if p = 0 \<or> elf_base = 0 then Some (KERNEL_EINVAL, k)
      else do {
        (status, img, h) \<leftarrow> elf_load_image elf_base (k_heap k);
        let k = set_heap h k;
        if status \<noteq> KERNEL_SUCCESS then Some (status, k)
        else case map_segments p elf_base (load_segments (hp_mem (k_heap k)) elf_base) k of (rc, k) \<Rightarrow>
          if rc \<noteq> KERNEL_SUCCESS then Some (rc, k)
          else
            let k = upd_proc p (\<lambda>r. r\<lparr>proc_image := img, proc_user_rip := img_entry img\<rparr>) k in
            case page_walk (proc_page_table (proc_of k p)) (proc_user_rip (proc_of k p)) False (k_vm k) of (pe, v) \<Rightarrow>
              let k = upd_vm v k in
              if pe = 0 then Some (KERNEL_EINVAL, k)
              else Some (KERNEL_SUCCESS, upd_proc p (\<lambda>r. r\<lparr>proc_user_rsp := proc_user_stack_top r - 8,
                     proc_user_rflags := 0x202, proc_is_user_process := True\<rparr>) k)
      })"

definition EXEC_BUFFER_SIZE :: u64 where "EXEC_BUFFER_SIZE = 65536"

definition process_exec_file :: "u64 \<Rightarrow> string option \<Rightarrow> kernel \<Rightarrow> (int \<times> kernel) option" where
  "process_exec_file p path k =
     (if p = 0 \<or> path = None then Some (KERNEL_EINVAL, k)
      else do {
        (open_status, f, fs, h) \<leftarrow> vfs_open path (k_fs k) (k_heap k);
        let k = (set_heap h k)\<lparr>k_fs := fs\<rparr>;
        if open_status \<noteq> KERNEL_SUCCESS then Some (open_status, k)
        else do {
          (buffer, h) \<leftarrow> kmalloc EXEC_BUFFER_SIZE (k_heap k);
          if buffer = 0 then Some (KERNEL_ENOMEM, set_heap (file_close f h) k)
          else
            let h = h\<lparr>hp_mem := k_memset buffer 0 EXEC_BUFFER_SIZE (hp_mem h)\<rparr> in
            case vfs_read f buffer EXEC_BUFFER_SIZE (k_fs k) h of (bytes, fs, h) \<Rightarrow>
              let k = (set_heap h k)\<lparr>k_fs := fs\<rparr> in
              if bytes < 0 then Some (bytes, set_heap (file_close f (kfree buffer (k_heap k))) k)
              else do {
                (status, k) \<leftarrow> process_exec p buffer k;
                Some (if status \<noteq> KERNEL_SUCCESS
                      then (status, set_heap (file_close f (kfree buffer (k_heap k))) k)
                      else (KERNEL_SUCCESS, set_heap (kfree buffer (file_close f (k_heap k))) k))
              }
        }
      })"

section \<open>File system calls\<close>

definition sys_open :: "string option \<Rightarrow> kernel \<Rightarrow> (int \<times> kernel) option" where
  "sys_open path k =
     (if path = None then Some (KERNEL_EINVAL, k)
      else
        let p = process_current k in
        if p = 0 then Some (KERNEL_EINVAL, k)
        else do {
          (status, f, fs, h) \<leftarrow> vfs_open path (k_fs k) (k_heap k);
          let k = (set_heap h k)\<lparr>k_fs := fs\<rparr>;
          if status \<noteq> KERNEL_SUCCESS then Some (status, k)
          else case fd_allocate (proc_fd_table (proc_of k p)) f of (fd, table) \<Rightarrow>
            Some (fd, upd_proc p (\<lambda>r. r\<lparr>proc_fd_table := table\<rparr>) k)
        })"

definition sys_read :: "int \<Rightarrow> u64 \<Rightarrow> u64 \<Rightarrow> kernel \<Rightarrow> int \<times> kernel" where
  "sys_read fd buffer sz k =
     (let p = process_current k in
      if p = 0 then (KERNEL_EINVAL, k)
      else
        let f = fd_get (proc_fd_table (proc_of k p)) fd in
        if f = 0 then (KERNEL_ENOENT, k)
        else case vfs_read f buffer sz (k_fs k) (k_heap k) of (rc, fs, h) \<Rightarrow> (rc, (set_heap h k)\<lparr>k_fs := fs\<rparr>))"

definition sys_write :: "int \<Rightarrow> u64 \<Rightarrow> u64 \<Rightarrow> kernel \<Rightarrow> (int \<times> kernel) option" where
  "sys_write fd buffer sz k =
     (let p = process_current k in
      if p = 0 then Some (KERNEL_EINVAL, k)
      else
        let f = fd_get (proc_fd_table (proc_of k p)) fd in
        if f = 0 then Some (KERNEL_ENOENT, k)
        else do {
          (rc, fs, h) \<leftarrow> vfs_write f buffer sz (k_fs k) (k_heap k);
          Some (rc, (set_heap h k)\<lparr>k_fs := fs\<rparr>)
        })"

definition sys_close :: "int \<Rightarrow> kernel \<Rightarrow> int \<times> kernel" where
  "sys_close fd k =
     (let p = process_current k in
      if p = 0 then (KERNEL_EINVAL, k)
      else case fd_close (proc_fd_table (proc_of k p)) fd of (rc, table) \<Rightarrow>
        (rc, upd_proc p (\<lambda>r. r\<lparr>proc_fd_table := table\<rparr>) k))"

end
