(* ===== verification/User_Memory.thy ===== *)
theory User_Memory
  imports Process Scheduling Ramfs_Tree
begin

text \<open>
  Loading a program into user memory. A fresh page is mapped into the address space of the process and
  filled through the direct map; the lemmas follow the bytes of a segment from the file to the frames
  that its virtual addresses translate to, and show that nothing else of the address space changes.
\<close>

section \<open>Access to the state\<close>

lemma k_vm_upd [simp]: "k_vm (upd_vm v k) = v"
  by (simp add: k_vm_def upd_vm_def sc_vm_def set_vm_def)

lemma upd_vm_twice [simp]: "upd_vm v (upd_vm v' k) = upd_vm v k"
  by (simp add: upd_vm_def set_vm_def)

lemma upd_vm_same [simp]: "upd_vm (k_vm k) k = k"
  by (simp add: k_vm_def upd_vm_def sc_vm_def set_vm_def)

lemma upd_vm_keeps [simp]:
  "sc_procs (k_sched (upd_vm v k)) = sc_procs (k_sched k)" "hp_mem (k_heap (upd_vm v k)) = hp_mem (k_heap k)"
  "k_fs (upd_vm v k) = k_fs k" "process_list (upd_vm v k) = process_list k"
  by (simp_all add: k_heap_def upd_vm_def set_vm_def)

section \<open>Writing a data page\<close>

lemma write_data_page:
  assumes ok: "vm_ok s root" and u: "data_page s root u"
    and m: "\<And>x. \<not> x - u < PAGE_SIZE \<Longrightarrow> m x = vm_mem s x"
  shows "vm_ok (s\<lparr>vm_mem := m\<rparr>) root" "pte (s\<lparr>vm_mem := m\<rparr>) root = pte s root"
    "data_page (s\<lparr>vm_mem := m\<rparr>) root u' \<longleftrightarrow> data_page s root u'"
    "data_page s root u' \<Longrightarrow> u' \<noteq> u \<Longrightarrow> same_bytes u' s (s\<lparr>vm_mem := m\<rparr>)"
proof -
  let ?s = "s\<lparr>vm_mem := m\<rparr>"
  have al: "aligned 4096 u" using u by (simp add: data_page_def)
  have load: "load_u64 (vm_mem ?s) (entry_addr t j) = load_u64 (vm_mem s) (entry_addr t j)"
    if q: "table_path q" "descend s root q = Some t" "j < 512" for q t j
  proof (rule load_u64_cong)
    fix i :: nat assume i: "i < 8"
    have ne: "t \<noteq> u" using u q by (auto simp: data_page_def)
    have "unat (of_nat i :: u64) < 8" using i by (simp add: unat_of_nat_u64)
    then have "entry_addr t j + of_nat i - entry_addr t j < 8" by (simp add: word_less_nat_alt)
    then have "entry_addr t j + of_nat i - t < PAGE_SIZE"
      by (rule entry_in_page [OF vm_ok_table(2) [OF ok q(1,2)] q(3)])
    then have "\<not> entry_addr t j + of_nat i - u < PAGE_SIZE"
      using pages_disjoint [OF vm_ok_table(2) [OF ok q(1,2)] al] ne by blast
    then show "vm_mem ?s (entry_addr t j + of_nat i) = vm_mem s (entry_addr t j + of_nat i)" by (simp add: m)
  qed
  have off: "hhdm_offset ?s = hhdm_offset s" "vm_pmm ?s = vm_pmm s" by simp_all
  have d: "descend ?s root q = descend s root q" if "table_path q" for q
    by (rule tables_unchanged(1) [OF off(1) load that]) assumption+
  show p: "pte ?s root = pte s root" by (rule tables_unchanged(2) [OF off(1) load])
  show "vm_ok ?s root"
    by (rule vm_ok_cong [OF ok]) (use ok d p off vm_ok_top [OF ok] in \<open>auto simp: vm_ok_def\<close>)
  show "data_page ?s root u' \<longleftrightarrow> data_page s root u'"
    using d by (auto simp: data_page_def table_frame_def)
  show "same_bytes u' s ?s" if u': "data_page s root u'" "u' \<noteq> u"
    using m pages_disjoint [of u' u] u' al by (auto simp: same_bytes_def data_page_def)
qed

section \<open>Mapping a fresh page\<close>

text \<open>Where the direct map shows the page of a frame.\<close>

abbreviation frame_view :: "vm_state \<Rightarrow> u64 \<Rightarrow> u64" where
  "frame_view s f \<equiv> f * PMM_PAGE_SIZE + hhdm_offset s"

lemma fresh_data_page:
  assumes ok: "vm_ok s root" and f: "f \<in> free_set (vm_pmm s)" "unat f < 1048576"
    and pmm: "pmm_inv pmm" "free_set pmm = free_set (vm_pmm s) - {f}"
  shows "data_page (s\<lparr>vm_pmm := pmm\<rparr>) root (frame_view s f)"
proof -
  have al: "aligned 4096 (frame_view s f)"
    using ok f(2) by (intro aligned_add) (simp_all add: vm_ok_def aligned_frame)
  have fr: "table_frame s (frame_view s f) = f" by (rule table_frame_new [OF f(2)])
  have no: "descend s root p \<noteq> Some (frame_view s f)" if "table_path p" for p
    using vm_ok_table(3) [OF ok that, of "frame_view s f"] fr f(1) by auto
  have d: "descend (s\<lparr>vm_pmm := pmm\<rparr>) t q = descend s t q" for t q
    by (induction q arbitrary: t) (simp_all add: Let_def page_table_physical_to_virtual_def)
  show ?thesis using al fr no pmm(2) by (auto simp: data_page_def d table_frame_def)
qed

lemma aligned_page_div:
  assumes "aligned 4096 t" "aligned 4096 h"
  shows "4096 * ((t - h) div 4096) = t - (h :: u64)"
proof -
  have "4096 dvd unat (t - h)" using assms by (auto simp: aligned_dvd u64_sub_cases intro: dvd_diff_nat dvd_add)
  then have "unat ((t - h) div 4096) * 4096 = unat (t - h)" by (simp add: unat_div_u64)
  then have "unat (4096 * ((t - h) div 4096)) = unat (t - h)"
    using unat_mult_no_wrap [of 4096 "(t - h) div 4096"] unat_lt_2p64 [of "t - h"] by (simp add: mult.commute)
  then show ?thesis by (simp add: u64_eq_iff_unat)
qed

lemma free_data_page:
  assumes ok: "vm_ok s root" and u: "data_page s root (frame_view s f)" and f: "unat f < 1048576"
    and pmm: "pmm_inv pmm" "free_set pmm = insert f (free_set (vm_pmm s))"
  shows "vm_ok (s\<lparr>vm_pmm := pmm\<rparr>) root" "pte (s\<lparr>vm_pmm := pmm\<rparr>) root = pte s root"
    "data_page s root u' \<Longrightarrow> table_frame s u' \<noteq> f \<Longrightarrow> data_page (s\<lparr>vm_pmm := pmm\<rparr>) root u'"
proof -
  have d: "descend (s\<lparr>vm_pmm := pmm\<rparr>) t q = descend s t q" for t q
    by (induction q arbitrary: t) (simp_all add: Let_def page_table_physical_to_virtual_def)
  show p: "pte (s\<lparr>vm_pmm := pmm\<rparr>) root = pte s root"
    by (rule ext) (simp add: pte_def d split: option.split)
  have "table_frame s t \<noteq> f" if q: "table_path q" "descend s root q = Some t" for q t
  proof
    assume "table_frame s t = f"
    moreover have "4096 * ((t - hhdm_offset s) div 4096) = t - hhdm_offset s"
      by (rule aligned_page_div) (use vm_ok_table(2) [OF ok q] ok in \<open>simp add: vm_ok_def\<close>)+
    ultimately have "t = frame_view s f" by (simp add: table_frame_def PMM_PAGE_SIZE_def algebra_simps)
    then show False using u q by (auto simp: data_page_def)
  qed
  then show "vm_ok (s\<lparr>vm_pmm := pmm\<rparr>) root"
    using ok pmm by (auto simp: vm_ok_def d p table_frame_def)
  show "data_page s root u' \<Longrightarrow> table_frame s u' \<noteq> f \<Longrightarrow> data_page (s\<lparr>vm_pmm := pmm\<rparr>) root u'"
    using pmm(2) by (auto simp: data_page_def d table_frame_def)
qed

text \<open>
  The outcome of \<open>map_fresh_page\<close>: a null result leaves the translations as they were; otherwise the page
  is a frame that was free, is mapped for the user at the address, and is the only new translation.
\<close>

definition keeps_space :: "u64 \<Rightarrow> vm_state \<Rightarrow> vm_state \<Rightarrow> bool" where
  "keeps_space root s s' \<longleftrightarrow> vm_ok s' root \<and> keeps_data root s s' \<and> same_regs s s' \<and>
     (\<forall>va. blocked (pte s' root) va \<longleftrightarrow> blocked (pte s root) va) \<and>
     (\<forall>va. user_access (pte s root) va \<longrightarrow> user_access (pte s' root) va)"

definition frame_mapped :: "u64 \<Rightarrow> u64 \<Rightarrow> u64 \<Rightarrow> vm_state \<Rightarrow> vm_state \<Rightarrow> bool" where
  "frame_mapped root va f s s' \<longleftrightarrow> f \<in> free_set (vm_pmm s) \<and> unat f < 1048576 \<and>
     data_page s' root (frame_view s f) \<and> free_set (vm_pmm s') \<subseteq> free_set (vm_pmm s) - {f} \<and>
     card (free_set (vm_pmm s)) \<le> card (free_set (vm_pmm s')) + 4 \<and>
     user_access (pte s' root) va \<and>
     (\<forall>va'. resolve (pte s' root) va' =
        (if same_page va' va then Some ((f * PMM_PAGE_SIZE AND PAGE_TABLE_ADDRESS_MASK) OR (va' AND 0xFFF))
         else resolve (pte s root) va'))"

lemma fresh_page_mapped:
  assumes ok: "vm_ok s root" and f: "f \<in> free_set (vm_pmm s)" "unat f < 1048576"
    and pmm: "pmm_inv pmm" "free_set pmm = free_set (vm_pmm s) - {f}"
    and m: "page_table_map_user root va (f * PMM_PAGE_SIZE) w (s\<lparr>vm_pmm := pmm\<rparr>) = (True, v)"
  shows "keeps_space root s v" "frame_mapped root va f s v"
proof -
  let ?t = "s\<lparr>vm_pmm := pmm\<rparr>"
  have sub: "free_set pmm \<subseteq> free_set (vm_pmm s)" using pmm(2) by auto
  note p = vm_ok_pmm [OF ok pmm(1) sub]
  note e = page_table_map_user_effect [OF p(1) m] and fr = page_table_map_user_frame [OF p(1) m]
    and ua = page_table_map_user_access [OF p(1) m]
  have regs: "same_regs s v" using fr(2) by (simp add: same_regs_def)
  show "keeps_space root s v" unfolding keeps_space_def
    using e(1) keeps_data_trans [OF p(3) fr(1)] regs fr(6) ua(1) by (simp add: p(2))
  have "data_page v root (frame_view s f)"
    using fr(1) fresh_data_page [OF ok f pmm] by (simp add: keeps_data_def)
  moreover have "free_set (vm_pmm v) \<subseteq> free_set (vm_pmm s) - {f}" using fr(3) pmm(2) by simp
  moreover have "card (free_set (vm_pmm s)) \<le> card (free_set (vm_pmm v)) + 4"
    using fr(5) taken_frame_card [OF f(1) pmm(2)] by simp
  moreover have "user_access (pte v root) va" using ua(2) by simp
  moreover have "resolve (pte v root) va' =
      (if same_page va' va then Some ((f * PMM_PAGE_SIZE AND PAGE_TABLE_ADDRESS_MASK) OR (va' AND 0xFFF))
       else resolve (pte s root) va')" for va'
    using e(2) by (simp add: va_path_eq_iff PAGE_SIZE_def p(2))
  ultimately show "frame_mapped root va f s v" unfolding frame_mapped_def using f by blast
qed

lemma fresh_page_failed:
  assumes ok: "vm_ok s root" and f: "f \<in> free_set (vm_pmm s)" "unat f < 1048576" "f \<noteq> 0"
    and pmm: "pmm_inv pmm" "free_set pmm = free_set (vm_pmm s) - {f}" "total_pages pmm = total_pages (vm_pmm s)"
    and m: "page_table_map_user root va (f * PMM_PAGE_SIZE) w (s\<lparr>vm_pmm := pmm\<rparr>) = (False, v)"
    and s': "s' = v\<lparr>vm_pmm := pmm_free_page (f * PMM_PAGE_SIZE) (vm_pmm v)\<rparr>"
  shows "keeps_space root s s'" "resolve (pte s' root) va' = resolve (pte s root) va'"
    "blocked (pte s root) va \<or> card (free_set (vm_pmm s)) < 4 \<or> null_frame s"
proof -
  let ?t = "s\<lparr>vm_pmm := pmm\<rparr>" and ?u = "frame_view s f"
  have sub: "free_set pmm \<subseteq> free_set (vm_pmm s)" using pmm(2) by auto
  note p = vm_ok_pmm [OF ok pmm(1) sub]
  note e = page_table_map_user_effect [OF p(1) m] and fr = page_table_map_user_frame [OF p(1) m]
    and ua = page_table_map_user_access [OF p(1) m]
  have off: "hhdm_offset v = hhdm_offset s" using fr(2) by (simp add: same_regs_def)
  have inv': "pmm_inv (vm_pmm v)" using e(1) by (simp add: vm_ok_def)
  have uf: "unat (f * PMM_PAGE_SIZE) = unat f * 4096" using f(2) by (simp add: PMM_PAGE_SIZE_def unat_mult_no_wrap)
  have "f < total_pages (vm_pmm v)" using f(1) pmm(3) fr(4) by (simp add: free_set_iff)
  then have pf: "pmm_inv (pmm_free_page (f * PMM_PAGE_SIZE) (vm_pmm v))"
    "free_set (pmm_free_page (f * PMM_PAGE_SIZE) (vm_pmm v)) = insert f (free_set (vm_pmm v))"
    using pa.free_frame [OF inv' uf f(3)] by auto
  have dv: "data_page v root (frame_view v f)"
    using fr(1) fresh_data_page [OF ok f(1,2) pmm(1,2)] off by (simp add: keeps_data_def)
  note fd = free_data_page [OF e(1) dv f(2) pf]
  have kd: "keeps_data root s v" by (rule keeps_data_trans [OF p(3) fr(1)])
  have "keeps_data root s s'"
    unfolding keeps_data_def
  proof (intro allI impI)
    fix u' assume u': "data_page s root u'"
    have "table_frame v u' \<noteq> f" using u' f(1) off by (auto simp: data_page_def table_frame_def)
    moreover have "data_page v root u'" "same_bytes u' s v" using kd u' by (auto simp: keeps_data_def)
    ultimately show "data_page s' root u' \<and> same_bytes u' s s'" using fd(3) by (simp add: same_bytes_def s')
  qed
  moreover have "same_regs s s'" using fr(2) by (simp add: same_regs_def s')
  moreover have "blocked (pte s' root) va' \<longleftrightarrow> blocked (pte s root) va'" for va' using fr(6) by (simp add: s' fd(2) p(2))
  moreover have "user_access (pte s root) va' \<Longrightarrow> user_access (pte s' root) va'" for va' using ua(1) by (simp add: s' fd(2) p(2))
  ultimately show "keeps_space root s s'" using fd(1) by (simp add: keeps_space_def s')
  show "resolve (pte s' root) va' = resolve (pte s root) va'" using e(2) by (simp add: s' fd(2) p(2))
  have "null_frame ?t \<Longrightarrow> null_frame s" using sub by (auto simp: null_frame_def)
  then show "blocked (pte s root) va \<or> card (free_set (vm_pmm s)) < 4 \<or> null_frame s"
    using fr(7) p(2) taken_frame_card [OF f(1) pmm(2)] by auto
qed

lemma map_fresh_page_cases:
  assumes ok: "vm_ok (k_vm k) root" and r: "map_fresh_page root va w k = (page, k')"
  obtains (failed) s' where "page = 0" "k' = upd_vm s' k" "keeps_space root (k_vm k) s'"
      "\<And>va'. resolve (pte s' root) va' = resolve (pte (k_vm k) root) va'"
      "blocked (pte (k_vm k) root) va \<or> card (free_set (vm_pmm (k_vm k))) < 4 \<or> null_frame (k_vm k)"
    | (mapped) s' f where "page \<noteq> 0" "page = f * PMM_PAGE_SIZE" "k' = upd_vm s' k" "keeps_space root (k_vm k) s'"
      "frame_mapped root va f (k_vm k) s'"
proof -
  obtain a pmm where al: "pmm_alloc_page (vm_pmm (k_vm k)) = (a, pmm)" by (cases "pmm_alloc_page (vm_pmm (k_vm k))")
  have inv: "pmm_inv (vm_pmm (k_vm k))" using ok by (simp add: vm_ok_def)
  show thesis
  proof (cases "a = 0")
    case True
    then have n: "free_set (vm_pmm (k_vm k)) = {}" "pmm = vm_pmm (k_vm k)" using alloc_null [OF inv] al by auto
    then have "page = 0" "k' = upd_vm (k_vm k) k" using r al True by (simp_all add: map_fresh_page_def Let_def)
    moreover have "keeps_space root (k_vm k) (k_vm k)" using ok keeps_data_refl by (simp add: keeps_space_def same_regs_def)
    ultimately show thesis using n(1) by (intro failed [of "k_vm k"]) simp_all
  next
    case False
    obtain f where f: "f \<in> free_set (vm_pmm (k_vm k))" "unat f < 1048576" "a = f * PMM_PAGE_SIZE"
      "pmm_inv pmm" "free_set pmm = free_set (vm_pmm (k_vm k)) - {f}"
      "total_pages pmm = total_pages (vm_pmm (k_vm k))" "f \<noteq> 0"
      by (rule alloc_frame_address [OF inv al False])
    obtain b v where m: "page_table_map_user root va a w ((k_vm k)\<lparr>vm_pmm := pmm\<rparr>) = (b, v)"
      by (cases "page_table_map_user root va a w ((k_vm k)\<lparr>vm_pmm := pmm\<rparr>)")
    show thesis
    proof (cases b)
      case True
      then have "page = a" "k' = upd_vm v k" using r al False m by (simp_all add: map_fresh_page_def Let_def)
      with fresh_page_mapped [OF ok f(1,2,4,5), of va w v] m True f(3) False show thesis by (intro mapped) simp_all
    next
      case b: False
      then have "page = 0" "k' = upd_vm (v\<lparr>vm_pmm := pmm_free_page a (vm_pmm v)\<rparr>) k"
        using r al False m by (simp_all add: map_fresh_page_def Let_def)
      with fresh_page_failed [OF ok f(1,2,7,4,5,6), of va w v, OF _ refl] m b f(3) show thesis
        by (intro failed [of "v\<lparr>vm_pmm := pmm_free_page a (vm_pmm v)\<rparr>"]) simp_all
    qed
  qed
qed

section \<open>Filling a page\<close>

lemma copy_prefix:
  assumes "k \<le> unat (n :: u64)"
  shows "fold (\<lambda>i m. m(d + i := source (a + i))) (map (of_nat :: nat \<Rightarrow> u64) [0..<k]) m x =
           (if unat (x - d) < k then source (a + (x - d)) else m x)"
  using assms
proof (induction k)
  case (Suc k)
  have u: "unat (of_nat k :: u64) = k" using Suc.prems by (intro unat_of_nat_lt [of k n]) simp
  have "x = d + of_nat k \<longleftrightarrow> unat (x - d) = k"
    using u u64_diff_eq_iff [of x d "of_nat k"] by (simp add: u64_eq_iff_unat [of "x - d"])
  moreover have "d + of_nat k - d = of_nat k" by simp
  ultimately show ?case using Suc by (auto simp: less_Suc_eq)
qed simp

lemma copy_to_page_apply: "copy_to_page d a n source m x = (if x - d < n then source (a + (x - d)) else m x)"
  using copy_prefix [of "unat n" n d source a m x] by (simp add: copy_to_page_def for_u64_nat word_less_nat_alt)

lemma segment_page_bytes_le: "segment_page_bytes po n \<le> PAGE_SIZE"
  by (auto simp: segment_page_bytes_def not_less)

lemma load_segment_page_mem:
  assumes "load_segment_page ph elf_base po page k = k'" and u: "u = page + hhdm_offset (k_vm k)"
  shows "\<exists>m. k' = upd_vm ((k_vm k)\<lparr>vm_mem := m\<rparr>) k \<and>
    (\<forall>x. m x = (if x - u < segment_page_bytes po (p_filesz ph) then hp_mem (k_heap k) (elf_base + p_offset ph + po + (x - u))
                else if x - u < segment_page_bytes po (p_memsz ph) then 0 else vm_mem (k_vm k) x))"
proof -
  let ?n = "segment_page_bytes po (p_filesz ph)" and ?n' = "segment_page_bytes po (p_memsz ph)"
  let ?a = "elf_base + p_offset ph + po"
  let ?m1 = "copy_to_page u ?a ?n (hp_mem (k_heap k)) (vm_mem (k_vm k))"
  define m where "m = (if ?n' > ?n then k_memset (u + ?n) 0 (?n' - ?n) ?m1 else ?m1)"
  have none: "copy_to_page d a n source m0 = m0" if "\<not> 0 < n" for d a n source m0
    using that word_neq_0_conv [of n] by (intro ext) (auto simp: copy_to_page_apply)
  have "k' = upd_vm ((k_vm k)\<lparr>vm_mem := m\<rparr>) k"
    using assms by (auto simp: load_segment_page_def Let_def m_def page_table_physical_to_virtual_def none)
  moreover have "m x = (if x - u < ?n then hp_mem (k_heap k) (?a + (x - u))
      else if x - u < ?n' then 0 else vm_mem (k_vm k) x)" for x
  proof (cases "?n' > ?n")
    case True
    have "x - (u + ?n) < ?n' - ?n \<longleftrightarrow> ?n \<le> x - u \<and> x - u < ?n'"
      using sub_range [of ?n ?n' "x - u"] True by (simp add: diff_diff_eq)
    then show ?thesis using True by (auto simp: m_def k_memset_apply copy_to_page_apply)
  next
    case False
    then have "x - u < ?n" if "x - u < ?n'" using that by simp
    then show ?thesis using False by (auto simp: m_def copy_to_page_apply)
  qed
  ultimately show ?thesis by blast
qed

section \<open>A segment in user memory\<close>

text \<open>
  A page of a segment is loaded when its addresses translate to a data page that holds the bytes of the
  file, then zeros up to the size in memory.
\<close>

definition page_loaded ::
  "u64 \<Rightarrow> elf64_program_header \<Rightarrow> u64 \<Rightarrow> byte_mem \<Rightarrow> u64 \<Rightarrow> vm_state \<Rightarrow> bool" where
  "page_loaded root ph elf_base source i s \<longleftrightarrow>
     (\<exists>f. unat f < 1048576 \<and> data_page s root (frame_view s f) \<and> user_access (pte s root) (p_vaddr ph + i * PAGE_SIZE) \<and>
        (\<forall>va. same_page va (p_vaddr ph + i * PAGE_SIZE) \<longrightarrow>
           resolve (pte s root) va = Some ((f * PMM_PAGE_SIZE AND PAGE_TABLE_ADDRESS_MASK) OR (va AND 0xFFF))) \<and>
        (\<forall>d < segment_page_bytes (i * PAGE_SIZE) (p_filesz ph).
           vm_mem s (frame_view s f + d) = source (elf_base + p_offset ph + i * PAGE_SIZE + d)) \<and>
        (\<forall>d < segment_page_bytes (i * PAGE_SIZE) (p_memsz ph). \<not> d < segment_page_bytes (i * PAGE_SIZE) (p_filesz ph) \<longrightarrow>
           vm_mem s (frame_view s f + d) = 0))"

lemma keeps_space_trans: "keeps_space root s s' \<Longrightarrow> keeps_space root s' s'' \<Longrightarrow> keeps_space root s s''"
  unfolding keeps_space_def using keeps_data_trans by (auto simp: same_regs_def)

lemma page_loaded_kept:
  assumes k: "keeps_space root s s'" and l: "page_loaded root ph elf_base source i s"
    and r: "\<And>va. same_page va (p_vaddr ph + i * PAGE_SIZE) \<Longrightarrow> resolve (pte s' root) va = resolve (pte s root) va"
  shows "page_loaded root ph elf_base source i s'"
proof -
  have off: "hhdm_offset s' = hhdm_offset s" using k by (simp add: keeps_space_def same_regs_def)
  obtain f where f: "unat f < 1048576" "data_page s root (frame_view s f)" "user_access (pte s root) (p_vaddr ph + i * PAGE_SIZE)"
    "\<forall>va. same_page va (p_vaddr ph + i * PAGE_SIZE) \<longrightarrow>
       resolve (pte s root) va = Some ((f * PMM_PAGE_SIZE AND PAGE_TABLE_ADDRESS_MASK) OR (va AND 0xFFF))"
    "\<forall>d < segment_page_bytes (i * PAGE_SIZE) (p_filesz ph).
       vm_mem s (frame_view s f + d) = source (elf_base + p_offset ph + i * PAGE_SIZE + d)"
    "\<forall>d < segment_page_bytes (i * PAGE_SIZE) (p_memsz ph). \<not> d < segment_page_bytes (i * PAGE_SIZE) (p_filesz ph) \<longrightarrow>
       vm_mem s (frame_view s f + d) = 0"
    using l unfolding page_loaded_def by blast
  have d: "data_page s' root (frame_view s f)" and b: "same_bytes (frame_view s f) s s'"
    using k f(2) by (auto simp: keeps_space_def keeps_data_def)
  have same: "vm_mem s' (frame_view s f + d) = vm_mem s (frame_view s f + d)" if "d < segment_page_bytes po n" for d po n
    using b segment_page_bytes_le [of po n] that by (simp add: same_bytes_def)
  show ?thesis unfolding page_loaded_def off
    using f d k r same by (intro exI [of _ f]) (auto simp: keeps_space_def)
qed

lemma load_page_effect:
  assumes ok: "vm_ok (k_vm k) root" and r: "map_fresh_page root va w k = (page, k1)" "page \<noteq> 0"
    and va: "va = p_vaddr ph + i * PAGE_SIZE"
    and l: "load_segment_page ph elf_base (i * PAGE_SIZE) page k1 = k'"
  shows "\<exists>s'. k' = upd_vm s' k \<and> keeps_space root (k_vm k) s' \<and>
     page_loaded root ph elf_base (hp_mem (k_heap k)) i s' \<and>
     (\<forall>va'. \<not> same_page va' va \<longrightarrow> resolve (pte s' root) va' = resolve (pte (k_vm k) root) va') \<and>
     card (free_set (vm_pmm (k_vm k))) \<le> card (free_set (vm_pmm s')) + 4 \<and>
     free_set (vm_pmm s') \<subseteq> free_set (vm_pmm (k_vm k))"
  using ok r(1)
proof (cases rule: map_fresh_page_cases)
  case (mapped s1 f)
  let ?u = "frame_view (k_vm k) f"
  have off: "hhdm_offset s1 = hhdm_offset (k_vm k)" using mapped(4) by (simp add: keeps_space_def same_regs_def)
  have u: "?u = page + hhdm_offset (k_vm k1)" by (simp add: mapped(2,3) off)
  obtain m where m: "k' = upd_vm (s1\<lparr>vm_mem := m\<rparr>) k"
    "\<And>x. m x = (if x - ?u < segment_page_bytes (i * PAGE_SIZE) (p_filesz ph)
           then hp_mem (k_heap k) (elf_base + p_offset ph + i * PAGE_SIZE + (x - ?u))
         else if x - ?u < segment_page_bytes (i * PAGE_SIZE) (p_memsz ph) then 0 else vm_mem s1 x)"
    using load_segment_page_mem [OF l u] by (auto simp: mapped(3))
  have fm: "f \<in> free_set (vm_pmm (k_vm k))" "unat f < 1048576" "data_page s1 root ?u"
    "free_set (vm_pmm s1) \<subseteq> free_set (vm_pmm (k_vm k)) - {f}" "user_access (pte s1 root) va"
    "card (free_set (vm_pmm (k_vm k))) \<le> card (free_set (vm_pmm s1)) + 4"
    "\<And>va'. resolve (pte s1 root) va' =
        (if same_page va' va then Some ((f * PMM_PAGE_SIZE AND PAGE_TABLE_ADDRESS_MASK) OR (va' AND 0xFFF))
         else resolve (pte (k_vm k) root) va')"
    using mapped(5) unfolding frame_mapped_def by blast+
  have outside: "m x = vm_mem s1 x" if "\<not> x - ?u < PAGE_SIZE" for x
    using that segment_page_bytes_le [of "i * PAGE_SIZE" "p_filesz ph"] segment_page_bytes_le [of "i * PAGE_SIZE" "p_memsz ph"]
    by (auto simp: m(2) not_less)
  have ok1: "vm_ok s1 root" using mapped(4) by (simp add: keeps_space_def)
  note w = write_data_page [OF ok1 fm(3) outside]
  let ?s = "s1\<lparr>vm_mem := m\<rparr>"
  have kd: "keeps_data root (k_vm k) ?s"
    unfolding keeps_data_def
  proof (intro allI impI)
    fix u' assume u': "data_page (k_vm k) root u'"
    have "u' \<noteq> ?u" using u' fm(1) table_frame_new [OF fm(2), of "k_vm k"] by (auto simp: data_page_def)
    moreover have "data_page s1 root u'" "same_bytes u' (k_vm k) s1" using mapped(4) u' by (auto simp: keeps_space_def keeps_data_def)
    ultimately show "data_page ?s root u' \<and> same_bytes u' (k_vm k) ?s" using w(3,4) by (auto simp: same_bytes_def)
  qed
  have bytes: "d < segment_page_bytes (i * PAGE_SIZE) (p_filesz ph) \<Longrightarrow>
      m (?u + d) = hp_mem (k_heap k) (elf_base + p_offset ph + i * PAGE_SIZE + d)"
    "d < segment_page_bytes (i * PAGE_SIZE) (p_memsz ph) \<Longrightarrow> \<not> d < segment_page_bytes (i * PAGE_SIZE) (p_filesz ph) \<Longrightarrow>
      m (?u + d) = 0" for d
    unfolding m(2) by simp_all
  have "keeps_space root (k_vm k) ?s"
    using mapped(4) kd w(1,2) by (auto simp: keeps_space_def same_regs_def)
  moreover have "page_loaded root ph elf_base (hp_mem (k_heap k)) i ?s"
    unfolding page_loaded_def using fm(2,3,5,7) bytes by (intro exI [of _ f]) (simp add: off va w(2,3))
  moreover have "\<forall>va'. \<not> same_page va' va \<longrightarrow> resolve (pte ?s root) va' = resolve (pte (k_vm k) root) va'"
    using fm(7) by (simp add: w(2))
  ultimately show ?thesis using m(1) fm(4,6) by (intro exI [of _ ?s]) auto
qed (use r(2) in auto)

text \<open>The whole loop of \<open>process_map_segment\<close>, by induction on the pages it still has to map.\<close>

abbreviation seg_page :: "elf64_program_header \<Rightarrow> u64 \<Rightarrow> u64" where
  "seg_page ph i \<equiv> p_vaddr ph + i * PAGE_SIZE"

lemma null_frame_mono:
  "null_frame s' \<Longrightarrow> free_set (vm_pmm s') \<subseteq> free_set (vm_pmm s) \<Longrightarrow> hhdm_offset s' = hhdm_offset s \<Longrightarrow> null_frame s"
  by (auto simp: null_frame_def)

lemma map_segment_pages_effect:
  assumes "vm_ok (k_vm k) root" and "proc_page_table (proc_of k p) = root" and "distinct is"
    and "\<And>i j. i \<in> set is \<Longrightarrow> j \<in> set is \<Longrightarrow> i \<noteq> j \<Longrightarrow> \<not> same_page (seg_page ph i) (seg_page ph j)"
    and "map_segment_pages p ph elf_base is k = (rc, k')"
  shows "\<exists>s'. k' = upd_vm s' k \<and> keeps_space root (k_vm k) s' \<and>
     (\<forall>va. (\<forall>i \<in> set is. \<not> same_page va (seg_page ph i)) \<longrightarrow> resolve (pte s' root) va = resolve (pte (k_vm k) root) va) \<and>
     (if rc = KERNEL_SUCCESS then (\<forall>i \<in> set is. page_loaded root ph elf_base (hp_mem (k_heap k)) i s') \<and>
         free_set (vm_pmm s') \<subseteq> free_set (vm_pmm (k_vm k)) \<and>
         card (free_set (vm_pmm (k_vm k))) \<le> card (free_set (vm_pmm s')) + 4 * length is
      else rc = KERNEL_ENOMEM \<and> ((\<exists>i \<in> set is. blocked (pte (k_vm k) root) (seg_page ph i)) \<or>
             card (free_set (vm_pmm (k_vm k))) < 4 * length is \<or> null_frame (k_vm k)))"
  using assms
proof (induction "is" arbitrary: k)
  case Nil
  then show ?case using keeps_data_refl
    by (intro exI [of _ "k_vm k"]) (simp add: keeps_space_def same_regs_def)
next
  case (Cons i xs)
  note ok = Cons.prems(1) and root = Cons.prems(2)
  obtain page k1 where m: "map_fresh_page root (seg_page ph i) (p_flags ph AND PF_W \<noteq> 0) k = (page, k1)"
    by (cases "map_fresh_page root (seg_page ph i) (p_flags ph AND PF_W \<noteq> 0) k")
  show ?case
  proof (cases "page = 0")
    case True
    then have "rc = KERNEL_ENOMEM" "k' = k1" using Cons.prems(5) m root by (simp_all add: add.commute)
    with ok m True show ?thesis
      by (cases rule: map_fresh_page_cases) (auto simp: errno_defs)
  next
    case False
    define k2 where "k2 = load_segment_page ph elf_base (i * PAGE_SIZE) page k1"
    obtain s1 where s1: "k2 = upd_vm s1 k" "keeps_space root (k_vm k) s1"
      "page_loaded root ph elf_base (hp_mem (k_heap k)) i s1"
      "\<And>va'. \<not> same_page va' (seg_page ph i) \<Longrightarrow> resolve (pte s1 root) va' = resolve (pte (k_vm k) root) va'"
      "card (free_set (vm_pmm (k_vm k))) \<le> card (free_set (vm_pmm s1)) + 4" "free_set (vm_pmm s1) \<subseteq> free_set (vm_pmm (k_vm k))"
      using load_page_effect [OF ok m False refl k2_def [symmetric]] by blast
    have ok1: "vm_ok (k_vm k2) root" using s1(1,2) by (simp add: keeps_space_def)
    have rest: "map_segment_pages p ph elf_base xs k2 = (rc, k')"
      using Cons.prems(5) m root False by (simp add: k2_def)
    have k2: "k_vm k2 = s1" "hp_mem (k_heap k2) = hp_mem (k_heap k)" "proc_page_table (proc_of k2 p) = root"
      using root by (simp_all add: s1(1))
    have xs: "distinct xs" "\<And>i j. i \<in> set xs \<Longrightarrow> j \<in> set xs \<Longrightarrow> i \<noteq> j \<Longrightarrow> \<not> same_page (seg_page ph i) (seg_page ph j)"
      using Cons.prems(3,4) by simp_all
    obtain s' where s': "k' = upd_vm s' k2" "keeps_space root s1 s'"
      "\<forall>va. (\<forall>i \<in> set xs. \<not> same_page va (seg_page ph i)) \<longrightarrow> resolve (pte s' root) va = resolve (pte s1 root) va"
      "if rc = KERNEL_SUCCESS then (\<forall>i \<in> set xs. page_loaded root ph elf_base (hp_mem (k_heap k)) i s') \<and>
         free_set (vm_pmm s') \<subseteq> free_set (vm_pmm s1) \<and> card (free_set (vm_pmm s1)) \<le> card (free_set (vm_pmm s')) + 4 * length xs
       else rc = KERNEL_ENOMEM \<and> ((\<exists>i \<in> set xs. blocked (pte s1 root) (seg_page ph i)) \<or>
         card (free_set (vm_pmm s1)) < 4 * length xs \<or> null_frame s1)"
      using Cons.IH [OF ok1 k2(3) xs rest] unfolding k2(1,2) by blast
    have kept: "resolve (pte s' root) va = resolve (pte s1 root) va" if "same_page va (seg_page ph i)" for va
    proof -
      have "\<not> same_page va (seg_page ph j)" if "j \<in> set xs" for j
        using Cons.prems(3) Cons.prems(4) [of i j] that \<open>same_page va (seg_page ph i)\<close> by (auto simp: same_page_def)
      then show ?thesis using s'(3) by blast
    qed
    have "page_loaded root ph elf_base (hp_mem (k_heap k)) i s'" by (rule page_loaded_kept [OF s'(2) s1(3) kept])
    moreover have "keeps_space root (k_vm k) s'" by (rule keeps_space_trans [OF s1(2) s'(2)])
    moreover have "null_frame s1 \<Longrightarrow> null_frame (k_vm k)"
      using null_frame_mono [OF _ s1(6)] s1(2) by (simp add: keeps_space_def same_regs_def)
    moreover have "blocked (pte s1 root) va \<longleftrightarrow> blocked (pte (k_vm k) root) va" for va
      using s1(2) by (simp add: keeps_space_def)
    ultimately show ?thesis using s'(1,3,4) s1(1,4,5,6)
      by (intro exI [of _ s']) (auto split: if_splits)
  qed
qed

section \<open>Bytes seen by the user\<close>

text \<open>The byte a user program reads at a virtual address: the address is translated and the frame read.\<close>

definition user_byte :: "vm_state \<Rightarrow> u64 \<Rightarrow> u64 \<Rightarrow> u8 option" where
  "user_byte s root va = map_option (\<lambda>pa. vm_mem s (pa + hhdm_offset s)) (resolve (pte s root) va)"

definition user_segment :: "elf64_program_header \<Rightarrow> bool" where
  "user_segment ph \<longleftrightarrow> aligned 4096 (p_vaddr ph) \<and> unat (p_vaddr ph) + unat (p_memsz ph) \<le> 2 ^ 47 \<and> p_filesz ph \<le> p_memsz ph"

definition segment_loaded :: "u64 \<Rightarrow> elf64_program_header \<Rightarrow> u64 \<Rightarrow> byte_mem \<Rightarrow> vm_state \<Rightarrow> bool" where
  "segment_loaded root ph elf_base source s \<longleftrightarrow>
     (\<forall>j < p_memsz ph. user_access (pte s root) (p_vaddr ph + j) \<and>
        user_byte s root (p_vaddr ph + j) = Some (if j < p_filesz ph then source (elf_base + p_offset ph + j) else 0))"

lemma same_page_unat:
  assumes "unat x < 2 ^ 48" "unat y < 2 ^ 48"
  shows "same_page x y \<longleftrightarrow> unat x div 4096 = unat y div 4096"
proof -
  have "unat (take_bit 36 (drop_bit 12 z) :: u64) = unat z div 4096" if z: "unat z < 2 ^ 48" for z :: u64
  proof -
    have "unat z div 4096 < 2 ^ 36" using z by simp
    then show ?thesis by (simp add: unsigned_take_bit_eq drop_bit_eq_div unat_div_u64 take_bit_nat_eq_self)
  qed
  then show ?thesis using assms by (simp add: same_page_def u64_eq_iff_unat)
qed

lemma low_bits: "unat (va AND 0xFFF :: u64) = unat va mod 4096"
proof -
  have m: "(0xFFF :: u64) = mask 12" by (simp add: mask_eq_exp_minus_1)
  show ?thesis unfolding m by (simp add: unsigned_and_eq unsigned_take_bit_eq take_bit_nat_def flip: take_bit_eq_mask)
qed

lemma frame_address:
  assumes "unat f < 1048576"
  shows "(f * PMM_PAGE_SIZE AND PAGE_TABLE_ADDRESS_MASK) OR (va AND 0xFFF) = f * PMM_PAGE_SIZE + (va AND 0xFFF)"
proof -
  have m: "(0xFFF :: u64) = mask 12" by (simp add: mask_eq_exp_minus_1)
  have "f * PMM_PAGE_SIZE AND PAGE_TABLE_ADDRESS_MASK = f * PMM_PAGE_SIZE"
    by (rule bit_eqI) (use bit_small_page [OF assms] in \<open>auto simp: bit_and_iff\<close>)
  moreover have "\<not> bit (f * PMM_PAGE_SIZE) n \<or> \<not> n < 12" for n using bit_small_page [OF assms, of n] by auto
  then have "f * PMM_PAGE_SIZE AND (va AND 0xFFF) = 0"
    unfolding m by (intro bit_eqI) (auto simp: bit_and_iff bit_mask_iff)
  ultimately show ?thesis by (simp add: disjunctive_add_eq_or)
qed

text \<open>The arithmetic of the pages of a segment.\<close>

abbreviation segment_pages :: "elf64_program_header \<Rightarrow> u64" where
  "segment_pages ph \<equiv> (p_memsz ph + PAGE_SIZE - 1) div PAGE_SIZE"

lemma segment_page_count:
  assumes "user_segment ph" shows "unat (segment_pages ph) = (unat (p_memsz ph) + 4095) div 4096"
proof -
  have "unat (p_memsz ph) + 4095 < 18446744073709551616" using assms by (simp add: user_segment_def)
  then have "unat (p_memsz ph + 4095) = unat (p_memsz ph) + 4095" by (simp add: unat_plus_no_wrap)
  moreover have "p_memsz ph + PAGE_SIZE - 1 = p_memsz ph + 4095" by (simp add: PAGE_SIZE_def)
  ultimately show ?thesis by (simp only: unat_div_u64) (simp add: PAGE_SIZE_def)
qed

lemma seg_page_unat:
  assumes "user_segment ph" "i < segment_pages ph"
  shows "unat (i * PAGE_SIZE) = unat i * 4096" "unat i * 4096 < unat (p_memsz ph)"
    "unat (seg_page ph i) = unat (p_vaddr ph) + unat i * 4096" "unat (seg_page ph i) < 2 ^ 47"
proof -
  have "unat i < (unat (p_memsz ph) + 4095) div 4096"
    using assms segment_page_count by (simp add: word_less_nat_alt)
  then show lt: "unat i * 4096 < unat (p_memsz ph)" by (simp add: less_eq_div_iff_mult_less_eq Suc_le_eq [symmetric])
  have b: "unat (p_vaddr ph) + unat (p_memsz ph) \<le> 2 ^ 47" using assms(1) by (simp add: user_segment_def)
  show m: "unat (i * PAGE_SIZE) = unat i * 4096" using lt b by (simp add: PAGE_SIZE_def unat_mult_no_wrap)
  show "unat (seg_page ph i) = unat (p_vaddr ph) + unat i * 4096" using lt b m by (simp add: unat_plus_no_wrap)
  then show "unat (seg_page ph i) < 2 ^ 47" using lt b by simp
qed

lemma seg_pages_distinct:
  assumes "user_segment ph" "i < segment_pages ph" "j < segment_pages ph" "i \<noteq> j"
  shows "\<not> same_page (seg_page ph i) (seg_page ph j)"
proof -
  have "4096 dvd unat (p_vaddr ph)" using assms(1) by (simp add: user_segment_def aligned_dvd)
  then have "(unat (p_vaddr ph) + unat k * 4096) div 4096 = unat (p_vaddr ph) div 4096 + unat k" for k :: u64 by simp
  moreover have "unat i \<noteq> unat j" using assms(4) by (simp add: u64_eq_iff_unat)
  ultimately show ?thesis
    using seg_page_unat(3,4) [OF assms(1,2)] seg_page_unat(3,4) [OF assms(1,3)] by (simp add: same_page_unat)
qed

lemma byte_page:
  assumes ph: "user_segment ph" and j: "j < p_memsz ph"
  shows "j div PAGE_SIZE < segment_pages ph" "same_page (p_vaddr ph + j) (seg_page ph (j div PAGE_SIZE))"
    "(p_vaddr ph + j) AND 0xFFF = j mod PAGE_SIZE"
    "j mod PAGE_SIZE < segment_page_bytes (j div PAGE_SIZE * PAGE_SIZE) n \<longleftrightarrow> j < n"
    "j div PAGE_SIZE * PAGE_SIZE + j mod PAGE_SIZE = j"
proof -
  let ?i = "j div PAGE_SIZE"
  have b: "unat (p_vaddr ph) + unat (p_memsz ph) \<le> 2 ^ 47" "unat j < unat (p_memsz ph)" "4096 dvd unat (p_vaddr ph)"
    using ph j by (simp_all add: user_segment_def aligned_dvd word_less_nat_alt)
  have u: "unat ?i = unat j div 4096" "unat (j mod PAGE_SIZE) = unat j mod 4096"
    by (simp_all add: unat_div_u64 unat_mod_u64) (simp_all add: PAGE_SIZE_def)
  have i: "?i < segment_pages ph"
    using b(2) u(1) segment_page_count [OF ph] by (simp add: word_less_nat_alt)
  then show "?i < segment_pages ph" .
  note pg = seg_page_unat [OF ph i]
  have v: "unat (p_vaddr ph + j) = unat (p_vaddr ph) + unat j" using b by (simp add: unat_plus_no_wrap)
  have "(unat (p_vaddr ph) + unat j) div 4096 = (unat (p_vaddr ph) + unat j div 4096 * 4096) div 4096"
    using b(3) by (auto simp: dvd_def)
  then show "same_page (p_vaddr ph + j) (seg_page ph ?i)" using v b pg u by (simp add: same_page_unat)
  have "(unat (p_vaddr ph) + unat j) mod 4096 = unat j mod 4096" using b(3) by (auto simp: dvd_def)
  then show "(p_vaddr ph + j) AND 0xFFF = j mod PAGE_SIZE" by (simp add: u64_eq_iff_unat low_bits v u)
  show "?i * PAGE_SIZE + j mod PAGE_SIZE = j" by (rule div_mult_mod_eq)
  have p: "unat PAGE_SIZE = 4096" by (simp add: PAGE_SIZE_def)
  show "j mod PAGE_SIZE < segment_page_bytes (?i * PAGE_SIZE) n \<longleftrightarrow> j < n"
  proof (cases "?i * PAGE_SIZE < n")
    case True
    have d: "unat (n - ?i * PAGE_SIZE) = unat n - unat j div 4096 * 4096"
      using True pg(1) u(1) by (simp add: unat_minus_le)
    have s: "unat (segment_page_bytes (?i * PAGE_SIZE) n) = min 4096 (unat n - unat j div 4096 * 4096)"
      using True d p by (auto simp: segment_page_bytes_def word_less_nat_alt)
    have "unat j = unat j div 4096 * 4096 + unat j mod 4096" by simp
    then show ?thesis unfolding word_less_nat_alt s u(2) by (simp only: min_less_iff_conj) linarith
  next
    case False
    then have "unat n \<le> unat j div 4096 * 4096" using pg(1) u(1) by (simp add: word_less_nat_alt not_less)
    then have "\<not> j < n" by (simp add: word_less_nat_alt not_less)
    then show ?thesis using False by (simp add: segment_page_bytes_def)
  qed
qed

lemma pages_loaded_segment:
  assumes ph: "user_segment ph" and l: "\<And>i. i < segment_pages ph \<Longrightarrow> page_loaded root ph elf_base source i s"
  shows "segment_loaded root ph elf_base source s"
  unfolding segment_loaded_def
proof (intro allI impI)
  fix j assume j: "j < p_memsz ph"
  let ?i = "j div PAGE_SIZE" and ?d = "j mod PAGE_SIZE"
  note b = byte_page [OF ph j]
  obtain f where f: "unat f < 1048576" "user_access (pte s root) (seg_page ph ?i)"
    "resolve (pte s root) (p_vaddr ph + j) = Some ((f * PMM_PAGE_SIZE AND PAGE_TABLE_ADDRESS_MASK) OR ((p_vaddr ph + j) AND 0xFFF))"
    "?d < segment_page_bytes (?i * PAGE_SIZE) (p_filesz ph) \<Longrightarrow>
       vm_mem s (frame_view s f + ?d) = source (elf_base + p_offset ph + ?i * PAGE_SIZE + ?d)"
    "?d < segment_page_bytes (?i * PAGE_SIZE) (p_memsz ph) \<Longrightarrow> \<not> ?d < segment_page_bytes (?i * PAGE_SIZE) (p_filesz ph) \<Longrightarrow>
       vm_mem s (frame_view s f + ?d) = 0"
    using l [OF b(1)] b(2) unfolding page_loaded_def by blast
  have "va_path (p_vaddr ph + j) = va_path (seg_page ph ?i)" using b(2) by (simp add: va_path_eq_iff)
  then have "user_access (pte s root) (p_vaddr ph + j)" using f(2) by (simp add: user_access_def)
  moreover have "resolve (pte s root) (p_vaddr ph + j) = Some (f * PMM_PAGE_SIZE + ?d)"
    by (simp only: f(3) b(3) frame_address [OF f(1), of "p_vaddr ph + j", unfolded b(3)])
  then have "user_byte s root (p_vaddr ph + j) = Some (vm_mem s (frame_view s f + ?d))"
    by (simp add: user_byte_def) (simp add: ac_simps)
  moreover have "source (elf_base + p_offset ph + ?i * PAGE_SIZE + ?d) = source (elf_base + p_offset ph + j)"
    using b(5) by (simp only: add.assoc)
  ultimately show "user_access (pte s root) (p_vaddr ph + j) \<and>
      user_byte s root (p_vaddr ph + j) = Some (if j < p_filesz ph then source (elf_base + p_offset ph + j) else 0)"
    using f(4,5) b(4) j by simp
qed

lemma process_map_segment_effect:
  assumes ok: "vm_ok (k_vm k) root" and root: "proc_page_table (proc_of k p) = root" and p: "p \<noteq> 0" "elf_base \<noteq> 0"
    and ph: "user_segment ph" and r: "process_map_segment p ph elf_base k = (rc, k')"
  shows "\<exists>s'. k' = upd_vm s' k \<and> keeps_space root (k_vm k) s' \<and>
     (\<forall>va. (\<forall>j < p_memsz ph. \<not> same_page va (p_vaddr ph + j)) \<longrightarrow> resolve (pte s' root) va = resolve (pte (k_vm k) root) va) \<and>
     (if rc = KERNEL_SUCCESS then \<forall>i < segment_pages ph. page_loaded root ph elf_base (hp_mem (k_heap k)) i s'
      else rc = KERNEL_ENOMEM \<and> ((\<exists>j < p_memsz ph. blocked (pte (k_vm k) root) (p_vaddr ph + j)) \<or>
             card (free_set (vm_pmm (k_vm k))) < 4 * unat (segment_pages ph) \<or> null_frame (k_vm k)))"
proof -
  have r': "map_segment_pages p ph elf_base (u64_range 0 (segment_pages ph)) k = (rc, k')"
    using r p by (simp add: process_map_segment_def Let_def)
  have len: "length (u64_range 0 (segment_pages ph)) = unat (segment_pages ph)" by (simp add: u64_range_def)
  have "\<not> same_page (seg_page ph i) (seg_page ph j)" if "i \<in> set (u64_range 0 (segment_pages ph))"
    "j \<in> set (u64_range 0 (segment_pages ph))" "i \<noteq> j" for i j
    using seg_pages_distinct [OF ph] that by simp
  from map_segment_pages_effect [OF ok root distinct_u64_range this r', unfolded len set_u64_range]
  obtain s' where s': "k' = upd_vm s' k" "keeps_space root (k_vm k) s'"
    "\<forall>va. (\<forall>i \<in> {0..<segment_pages ph}. \<not> same_page va (seg_page ph i)) \<longrightarrow>
       resolve (pte s' root) va = resolve (pte (k_vm k) root) va"
    "if rc = KERNEL_SUCCESS then (\<forall>i \<in> {0..<segment_pages ph}. page_loaded root ph elf_base (hp_mem (k_heap k)) i s') \<and>
        free_set (vm_pmm s') \<subseteq> free_set (vm_pmm (k_vm k)) \<and>
        card (free_set (vm_pmm (k_vm k))) \<le> card (free_set (vm_pmm s')) + 4 * unat (segment_pages ph)
     else rc = KERNEL_ENOMEM \<and> ((\<exists>i \<in> {0..<segment_pages ph}. blocked (pte (k_vm k) root) (seg_page ph i)) \<or>
        card (free_set (vm_pmm (k_vm k))) < 4 * unat (segment_pages ph) \<or> null_frame (k_vm k))"
    by auto
  have first: "i * PAGE_SIZE < p_memsz ph" if "i \<in> {0..<segment_pages ph}" for i
    using seg_page_unat(1,2) [OF ph, of i] that by (simp add: word_less_nat_alt)
  show ?thesis
  proof (intro exI [of _ s'] conjI allI impI)
    fix va assume "\<forall>j < p_memsz ph. \<not> same_page va (p_vaddr ph + j)"
    then show "resolve (pte s' root) va = resolve (pte (k_vm k) root) va" using s'(3) first by blast
  next
    show "if rc = KERNEL_SUCCESS then \<forall>i < segment_pages ph. page_loaded root ph elf_base (hp_mem (k_heap k)) i s'
      else rc = KERNEL_ENOMEM \<and> ((\<exists>j < p_memsz ph. blocked (pte (k_vm k) root) (p_vaddr ph + j)) \<or>
             card (free_set (vm_pmm (k_vm k))) < 4 * unat (segment_pages ph) \<or> null_frame (k_vm k))"
    proof (cases "rc = KERNEL_SUCCESS")
      case True
      then have "page_loaded root ph elf_base (hp_mem (k_heap k)) i s'" if "i < segment_pages ph" for i
        using s'(4) that by simp
      then show ?thesis using True by simp
    next
      case False
      then show ?thesis using s'(4) first by auto
    qed
  qed (rule s'(1,2))+
qed

text \<open>
  C26. \<open>process_map_segment\<close> loads a page-aligned segment of the user half: when it succeeds, every byte of
  the segment can be accessed from user mode and reads as the byte of the file, or as zero beyond the
  file size. Addresses outside the pages of the segment translate as before and no other page in use is
  written. It fails, with \<open>KERNEL_ENOMEM\<close>, only when a large page is in the way, when fewer than four
  pages per page of the segment are free, or when the direct map reaches address 0.
\<close>

theorem process_map_segment_correct:
  assumes "vm_ok (k_vm k) root" and "proc_page_table (proc_of k p) = root" and "p \<noteq> 0" and "elf_base \<noteq> 0"
    and "user_segment ph" and "process_map_segment p ph elf_base k = (rc, k')"
  shows "vm_ok (k_vm k') root \<and> keeps_data root (k_vm k) (k_vm k') \<and>
     (\<forall>va. (\<forall>j < p_memsz ph. \<not> same_page va (p_vaddr ph + j)) \<longrightarrow>
        resolve (pte (k_vm k') root) va = resolve (pte (k_vm k) root) va) \<and>
     (if rc = KERNEL_SUCCESS
      then \<forall>j < p_memsz ph. user_access (pte (k_vm k') root) (p_vaddr ph + j) \<and>
             user_byte (k_vm k') root (p_vaddr ph + j) =
               Some (if j < p_filesz ph then hp_mem (k_heap k) (elf_base + p_offset ph + j) else 0)
      else rc = KERNEL_ENOMEM \<and> ((\<exists>j < p_memsz ph. blocked (pte (k_vm k) root) (p_vaddr ph + j)) \<or>
             card (free_set (vm_pmm (k_vm k))) < 4 * ((unat (p_memsz ph) + 4095) div 4096) \<or> null_frame (k_vm k)))"
proof -
  obtain s' where s': "k' = upd_vm s' k" "keeps_space root (k_vm k) s'"
    "\<forall>va. (\<forall>j < p_memsz ph. \<not> same_page va (p_vaddr ph + j)) \<longrightarrow> resolve (pte s' root) va = resolve (pte (k_vm k) root) va"
    "if rc = KERNEL_SUCCESS then \<forall>i < segment_pages ph. page_loaded root ph elf_base (hp_mem (k_heap k)) i s'
      else rc = KERNEL_ENOMEM \<and> ((\<exists>j < p_memsz ph. blocked (pte (k_vm k) root) (p_vaddr ph + j)) \<or>
             card (free_set (vm_pmm (k_vm k))) < 4 * unat (segment_pages ph) \<or> null_frame (k_vm k))"
    using process_map_segment_effect [OF assms] by blast
  have "segment_loaded root ph elf_base (hp_mem (k_heap k)) s'" if "rc = KERNEL_SUCCESS"
    using pages_loaded_segment [OF assms(5)] s'(4) that by simp
  then show ?thesis using s'
    by (simp add: keeps_space_def segment_loaded_def segment_page_count [OF assms(5)] split: if_splits)
qed

section \<open>An instance\<close>

text \<open>A process whose address space is the one of the sample machine, and a segment of two pages.\<close>

definition sample_kernel :: kernel where
  "sample_kernel = \<lparr>k_sched = sample_sched\<lparr>sc_procs := (\<lambda>_. process_zero\<lparr>proc_page_table := kernel_pml4 sample_vm\<rparr>)\<rparr>,
     k_fs = sample_fs, process_list = 0, next_pid = 2\<rparr>"

definition sample_segment :: elf64_program_header where
  "sample_segment = \<lparr>p_type = 1, p_flags = 6, p_offset = 0x1000, p_vaddr = 0x400000, p_paddr = 0, p_filesz = 0x10,
     p_memsz = 0x1800, p_align = 0x1000\<rparr>"

theorem process_map_segment_correct_witness:
  "\<exists>k'. process_map_segment 0x700 sample_segment 0x1000 (upd_vm sample_vm sample_kernel) = (KERNEL_SUCCESS, k') \<and>
     user_byte (k_vm k') (kernel_pml4 sample_vm) 0x400003 = Some (hp_mem (k_heap sample_kernel) 0x2003) \<and>
     user_byte (k_vm k') (kernel_pml4 sample_vm) 0x401000 = Some 0"
proof -
  let ?k = "upd_vm sample_vm sample_kernel" and ?root = "kernel_pml4 sample_vm"
  obtain rc k' where r: "process_map_segment 0x700 sample_segment 0x1000 ?k = (rc, k')"
    by (cases "process_map_segment 0x700 sample_segment 0x1000 ?k")
  have ok: "vm_ok (k_vm ?k) ?root" using sample_vm_ok(1) by (simp add: sample_root) (simp add: sample_vm_def)
  have root: "proc_page_table (proc_of ?k 0x700) = ?root" by (simp add: sample_kernel_def)
  have seg: "user_segment sample_segment" by (simp add: user_segment_def sample_segment_def aligned_def)
  have nb: "\<not> blocked (pte sample_vm ?root) va" for va
    using sample_vm_ok(2) by (simp add: blocked_def sample_root) (simp add: sample_vm_def)
  have "card (free_set (vm_pmm sample_vm)) = 12"
    using sample_free sample_vm_pmm(1) by (simp add: pmm_get_free_pages_def pmm_inv_def)
  moreover have "\<not> null_frame sample_vm" by (rule no_null_frame [OF sample_vm_pmm(1)]) (simp add: sample_vm_def)
  ultimately have rc: "rc = KERNEL_SUCCESS"
    using process_map_segment_correct [OF ok root _ _ seg r] nb by (auto simp: sample_segment_def split: if_splits)
  have b: "j < 0x1800 \<longrightarrow> user_byte (k_vm k') ?root (0x400000 + j) =
      Some (if j < 0x10 then hp_mem (k_heap sample_kernel) (0x2000 + j) else 0)" for j
    using process_map_segment_correct [OF ok root _ _ seg r] rc by (simp add: sample_segment_def)
  show ?thesis using r rc b [of 3] b [of "0x1000"] by (intro exI [of _ k']) simp
qed

end
