(* ===== verification/Elf_Image.thy ===== *)
theory Elf_Image
  imports Elf
begin

text \<open>
  What \<open>elf_load_image\<close> does with a well-formed file: the buffer it allocates holds every loadable segment
  at its offset from the lowest address, the rest of each segment is zero, and the file is untouched.
\<close>

section \<open>Structures depend on their bytes only\<close>

definition agree :: "byte_mem \<Rightarrow> byte_mem \<Rightarrow> u64 \<Rightarrow> u64 \<Rightarrow> bool" where
  "agree m m' a n \<longleftrightarrow> (\<forall>x. x - a < n \<longrightarrow> m' x = m x)"

lemma agree_byte: "agree m m' a n \<Longrightarrow> k < n \<Longrightarrow> m' (a + k) = m (a + k)"
  by (simp add: agree_def)

lemma load_u16_agree: "agree m m' a n \<Longrightarrow> k < n \<Longrightarrow> k + 1 < n \<Longrightarrow> load_u16 m' (a + k) = load_u16 m (a + k)"
  using agree_byte [of m m' a n k] agree_byte [of m m' a n "k + 1"] by (simp add: load_u16_def add.assoc)

lemma load_u32_agree:
  "agree m m' a n \<Longrightarrow> k < n \<Longrightarrow> k + 1 < n \<Longrightarrow> k + 2 < n \<Longrightarrow> k + 3 < n \<Longrightarrow> load_u32 m' (a + k) = load_u32 m (a + k)"
  using load_u16_agree [of m m' a n k] load_u16_agree [of m m' a n "k + 2"] by (simp add: load_u32_def add.assoc)

lemma load_u64_agree:
  assumes "agree m m' a n" "unat k + 8 \<le> unat n"
  shows "load_u64 m' (a + k) = load_u64 m (a + k)"
proof (rule load_u64_cong)
  fix i :: nat assume i: "i < 8"
  have "unat (of_nat i :: u64) = i" using i by (intro unat_of_nat_u64) simp
  moreover have "unat k + i < 18446744073709551616" using assms(2) i unat_lt_2p64 [of n] by linarith
  ultimately have "unat (k + of_nat i) = unat k + i" by (simp add: unat_plus_no_wrap)
  then have "k + of_nat i < n" using assms(2) i by (simp add: word_less_nat_alt)
  then show "m' (a + k + of_nat i) = m (a + k + of_nat i)" using agree_byte [OF assms(1)] by (simp add: add.assoc)
qed

lemma elf_header_agree:
  assumes "agree m m' a n" "64 \<le> n" shows "elf_header_at m' a = elf_header_at m a"
proof -
  have a: "agree m m' a 64" using assms less_le_trans by (auto simp: agree_def)
  have "m' (a + of_nat i) = m (a + of_nat i)" if "i < 16" for i
  proof -
    have "unat (of_nat i :: u64) = i" using that by (intro unat_of_nat_u64) simp
    then show ?thesis using that by (intro agree_byte [OF a]) (simp add: word_less_nat_alt)
  qed
  then show ?thesis
    unfolding elf_header_at_def
    by (simp add: load_u16_agree [OF a] load_u32_agree [OF a] load_u64_agree [OF a] EI_NIDENT_def)
qed

lemma program_header_agree:
  assumes "agree m m' a 56" shows "program_header_at m' a = program_header_at m a"
  using load_u32_agree [OF assms, of 0]
  by (simp add: program_header_at_def load_u32_agree [OF assms] load_u64_agree [OF assms])

section \<open>Regions\<close>

lemma region_iff:
  assumes "unat a + unat n \<le> 18446744073709551616"
  shows "x - a < n \<longleftrightarrow> unat a \<le> unat x \<and> unat x < unat a + unat (n :: u64)"
  using assms unat_lt_2p64 [of x] by (auto simp: word_less_nat_alt u64_sub_cases)

lemma heap_live_region:
  assumes "heap_live h L" "(p, n) \<in> L"
  shows "unat p + unat n < 18446744073709551616" "p \<noteq> 0"
proof -
  obtain segs a where s: "heap_ok h segs" "(a, n, False) \<in> set segs" "p = a + sizeof_heap_block"
    using assms by (auto simp: heap_live_def allocated_def)
  have "unat (heap_committed_end h) < 18446744073709551616" by (rule unat_lt_2p64)
  then show "unat p + unat n < 18446744073709551616" using heap_payload_bounds(1,2) [OF s(1,2)] s(3) by simp
  have "unat p = unat a + 32" using heap_payload_bounds(1) [OF s(1,2)] s(3) by simp
  then show "p \<noteq> 0" by auto
qed

section \<open>Bounds of the image\<close>

definition seg_end :: "elf64_program_header \<Rightarrow> u64" where
  "seg_end ph = p_vaddr ph + p_memsz ph"

lemma Min_Max_accumulate:
  fixes a b :: "'a::linorder"
  assumes "finite S"
  shows "Min (insert (if a < b then a else b) S) = Min (insert b (insert a S))"
    "Max (insert (if a > b then a else b) S) = Max (insert b (insert a S))"
  using assms by (cases "S = {}"; auto simp: Min_insert Max_insert min_def max_def)+

lemma bounds_fold:
  "fold (\<lambda>ph (lowest, highest).
      (if p_vaddr ph < lowest then p_vaddr ph else lowest,
       if p_vaddr ph + p_memsz ph > highest then p_vaddr ph + p_memsz ph else highest)) segs (l, h) =
   (Min (insert l (p_vaddr ` set segs)), Max (insert h (seg_end ` set segs)))"
proof (induction segs arbitrary: l h)
  case (Cons ph segs)
  then show ?case
    by (simp only: fold_simps case_prod_conv list.set image_insert finite_imageI finite_set Min_Max_accumulate
        flip: seg_end_def)
qed simp

lemma segment_bounds_eq:
  assumes "segs \<noteq> []" and "\<And>ph. ph \<in> set segs \<Longrightarrow> unat (p_vaddr ph) < 18446744073709551615"
  shows "segment_bounds segs = (Min (p_vaddr ` set segs), Max (seg_end ` set segs))"
    "Min (p_vaddr ` set segs) \<noteq> - 1"
proof -
  have "unat (- 1 :: u64) = 18446744073709551615" by (simp add: unsigned_minus_1_eq_mask mask_eq_exp_minus_1)
  then have below: "p_vaddr ph < - 1" if "ph \<in> set segs" for ph using assms(2) [OF that] by (simp add: word_less_nat_alt)
  have ne: "p_vaddr ` set segs \<noteq> {}" "seg_end ` set segs \<noteq> {}" "finite (p_vaddr ` set segs)" using assms(1) by simp_all
  have "Min (p_vaddr ` set segs) \<in> p_vaddr ` set segs" using ne by (intro Min_in) auto
  then have m: "Min (p_vaddr ` set segs) < - 1" using below by auto
  then show "Min (p_vaddr ` set segs) \<noteq> - 1" by simp
  have "Min (insert (- 1) (p_vaddr ` set segs)) = Min (p_vaddr ` set segs)"
    by (simp only: Min_insert [OF ne(3,1)] min_absorb2 [OF less_imp_le [OF m]])
  moreover have "Max (insert 0 (seg_end ` set segs)) = Max (seg_end ` set segs)" using ne by simp
  ultimately show "segment_bounds segs = (Min (p_vaddr ` set segs), Max (seg_end ` set segs))"
    by (simp only: segment_bounds_def bounds_fold)
qed

section \<open>Well-formed files\<close>

text \<open>
  A file of \<open>len\<close> bytes at \<open>src\<close>: its headers and the contents of its segments lie inside it, the segments
  fit in the user half of the address space and do not overlap there.
\<close>

definition apart_in_memory :: "elf64_program_header \<Rightarrow> elf64_program_header \<Rightarrow> bool" where
  "apart_in_memory a b \<longleftrightarrow> unat (p_vaddr a) + unat (p_memsz a) \<le> unat (p_vaddr b) \<or>
     unat (p_vaddr b) + unat (p_memsz b) \<le> unat (p_vaddr a)"

definition seg_ok :: "u64 \<Rightarrow> elf64_program_header \<Rightarrow> bool" where
  "seg_ok len ph \<longleftrightarrow> unat (p_offset ph) + unat (p_filesz ph) \<le> unat len \<and> p_filesz ph \<le> p_memsz ph \<and>
     unat (p_vaddr ph) + unat (p_memsz ph) \<le> 2 ^ 47"

definition elf_file :: "byte_mem \<Rightarrow> u64 \<Rightarrow> u64 \<Rightarrow> bool" where
  "elf_file m src len \<longleftrightarrow> elf_validate m src = KERNEL_SUCCESS \<and> 64 \<le> len \<and>
     (\<forall>i < unat (e_phnum (elf_header_at m src)). unat (elf_program_header m src (of_nat i) - src) + 56 \<le> unat len) \<and>
     load_segments m src \<noteq> [] \<and> (\<forall>ph \<in> set (load_segments m src). seg_ok len ph) \<and>
     sorted_wrt apart_in_memory (load_segments m src)"

section \<open>Copying a segment\<close>

abbreviation seg_dest :: "u64 \<Rightarrow> u64 \<Rightarrow> elf64_program_header \<Rightarrow> u64" where
  "seg_dest base lowest ph \<equiv> base + (p_vaddr ph - lowest)"

text \<open>The destination of a segment does not meet the file.\<close>

definition dest_clear :: "u64 \<Rightarrow> u64 \<Rightarrow> u64 \<Rightarrow> u64 \<Rightarrow> elf64_program_header \<Rightarrow> bool" where
  "dest_clear src len base lowest ph \<longleftrightarrow> (\<forall>x. x - seg_dest base lowest ph < p_memsz ph \<longrightarrow> \<not> x - src < len)"

lemma copy_segment_apply:
  assumes ok: "seg_ok len ph" and c: "dest_clear src len base lowest ph"
  shows "copy_segment src base lowest ph m x =
     (if x - seg_dest base lowest ph < p_filesz ph then m (src + p_offset ph + (x - seg_dest base lowest ph))
      else if x - seg_dest base lowest ph < p_memsz ph then 0 else m x)"
proof -
  let ?d = "seg_dest base lowest ph" and ?s = "src + p_offset ph"
  have le: "p_filesz ph \<le> p_memsz ph" and fit: "unat (p_offset ph) + unat (p_filesz ph) \<le> unat len"
    using ok by (simp_all add: seg_ok_def)
  have "forward_safe ?d ?s (p_filesz ph)"
  proof -
    have "\<not> ?d - ?s < p_filesz ph"
    proof
      assume lt: "?d - ?s < p_filesz ph"
      then have "0 < p_memsz ph" using le by (meson le_less_trans less_le_trans word_zero_le)
      then have "\<not> ?d - src < len" using c by (simp add: dest_clear_def)
      moreover have e: "?d - src = p_offset ph + (?d - ?s)" by simp
      moreover have "unat (p_offset ph + (?d - ?s)) < unat len"
        using lt fit unat_lt_2p64 [of len] by (subst unat_plus_no_wrap) (simp_all add: word_less_nat_alt)
      ultimately show False by (simp add: word_less_nat_alt)
    qed
    then show ?thesis by (simp add: forward_safe_def not_less)
  qed
  note copy = k_memcpy_apply [OF this]
  show ?thesis
  proof (cases "p_memsz ph > p_filesz ph")
    case True
    have "x - (?d + p_filesz ph) < p_memsz ph - p_filesz ph \<longleftrightarrow> p_filesz ph \<le> x - ?d \<and> x - ?d < p_memsz ph"
      using sub_range [OF le, of "x - ?d"] by (simp add: diff_diff_eq)
    then show ?thesis using True by (auto simp: copy_segment_def Let_def k_memset_apply copy)
  next
    case False
    then have "p_memsz ph = p_filesz ph" using le by simp
    then show ?thesis by (simp add: copy_segment_def Let_def copy)
  qed
qed

lemma copy_segment_file:
  assumes "seg_ok len ph" "dest_clear src len base lowest ph"
  shows "agree m (copy_segment src base lowest ph m) src len"
proof -
  have "x - seg_dest base lowest ph < p_memsz ph" if "x - seg_dest base lowest ph < p_filesz ph" for x
    using assms(1) that less_le_trans by (auto simp: seg_ok_def)
  then show ?thesis using assms(2) by (auto simp: agree_def copy_segment_apply [OF assms] dest_clear_def)
qed

section \<open>Copying all segments\<close>

definition seg_loaded :: "byte_mem \<Rightarrow> u64 \<Rightarrow> u64 \<Rightarrow> u64 \<Rightarrow> elf64_program_header \<Rightarrow> byte_mem \<Rightarrow> bool" where
  "seg_loaded m0 src base lowest ph m \<longleftrightarrow>
     (\<forall>j < p_memsz ph. m (seg_dest base lowest ph + j) = (if j < p_filesz ph then m0 (src + p_offset ph + j) else 0))"

definition dests_apart :: "u64 \<Rightarrow> u64 \<Rightarrow> elf64_program_header \<Rightarrow> elf64_program_header \<Rightarrow> bool" where
  "dests_apart base lowest a b \<longleftrightarrow>
     (\<forall>x. \<not> (x - seg_dest base lowest a < p_memsz a \<and> x - seg_dest base lowest b < p_memsz b))"

lemma fold_copy_segments:
  assumes "\<And>ph. ph \<in> set segs \<Longrightarrow> seg_ok len ph \<and> dest_clear src len base lowest ph"
    and "sorted_wrt (dests_apart base lowest) segs" and "agree m0 m src len"
  shows "(\<forall>ph \<in> set segs. seg_loaded m0 src base lowest ph (fold (copy_segment src base lowest) segs m)) \<and>
     agree m0 (fold (copy_segment src base lowest) segs m) src len \<and>
     (\<forall>x. (\<forall>ph \<in> set segs. \<not> x - seg_dest base lowest ph < p_memsz ph) \<longrightarrow>
        fold (copy_segment src base lowest) segs m x = m x)"
  using assms
proof (induction segs arbitrary: m)
  case (Cons ph segs)
  define m1 where "m1 = copy_segment src base lowest ph m"
  have ok: "seg_ok len ph" and clear: "dest_clear src len base lowest ph" using Cons.prems(1) by auto
  have at: "m1 x = (if x - seg_dest base lowest ph < p_filesz ph then m (src + p_offset ph + (x - seg_dest base lowest ph))
      else if x - seg_dest base lowest ph < p_memsz ph then 0 else m x)" for x
    unfolding m1_def by (rule copy_segment_apply [OF ok clear])
  have a1: "agree m0 m1 src len"
    using Cons.prems(3) copy_segment_file [OF ok clear, of m] by (simp add: agree_def m1_def)
  have IH: "(\<forall>ph \<in> set segs. seg_loaded m0 src base lowest ph (fold (copy_segment src base lowest) segs m1)) \<and>
     agree m0 (fold (copy_segment src base lowest) segs m1) src len \<and>
     (\<forall>x. (\<forall>ph \<in> set segs. \<not> x - seg_dest base lowest ph < p_memsz ph) \<longrightarrow>
        fold (copy_segment src base lowest) segs m1 x = m1 x)"
    using Cons.IH [OF _ _ a1] Cons.prems(1,2) by simp
  have "seg_loaded m0 src base lowest ph (fold (copy_segment src base lowest) segs m1)"
    unfolding seg_loaded_def
  proof (intro allI impI)
    fix j assume j: "j < p_memsz ph"
    have "\<forall>q \<in> set segs. \<not> seg_dest base lowest ph + j - seg_dest base lowest q < p_memsz q"
    proof
      fix q assume "q \<in> set segs"
      then have "dests_apart base lowest ph q" using Cons.prems(2) by simp
      then show "\<not> seg_dest base lowest ph + j - seg_dest base lowest q < p_memsz q"
        using j unfolding dests_apart_def by (metis add_diff_cancel_left')
    qed
    then have "fold (copy_segment src base lowest) segs m1 (seg_dest base lowest ph + j) = m1 (seg_dest base lowest ph + j)"
      using IH by blast
    also have "\<dots> = (if j < p_filesz ph then m (src + p_offset ph + j) else 0)" using j by (simp add: at)
    also have "m (src + p_offset ph + j) = m0 (src + p_offset ph + j)" if "j < p_filesz ph"
    proof -
      have "unat (p_offset ph + j) < unat len"
        using ok that unat_lt_2p64 [of len] by (subst unat_plus_no_wrap) (simp_all add: seg_ok_def word_less_nat_alt)
      then have "p_offset ph + j < len" by (simp add: word_less_nat_alt)
      then show ?thesis using agree_byte [OF Cons.prems(3)] by (simp add: add.assoc)
    qed
    ultimately show "fold (copy_segment src base lowest) segs m1 (seg_dest base lowest ph + j) =
        (if j < p_filesz ph then m0 (src + p_offset ph + j) else 0)" by auto
  qed
  moreover have "m1 x = m x" if "\<not> x - seg_dest base lowest ph < p_memsz ph" for x
    using that ok less_le_trans by (auto simp: at seg_ok_def)
  ultimately show ?case using IH by (simp flip: m1_def)
qed simp

text \<open>
  The loop of the code reads the headers again from the memory it writes. The file is not written, so
  it runs over the segments the first loop saw.
\<close>

definition segments_from :: "byte_mem \<Rightarrow> u64 \<Rightarrow> nat \<Rightarrow> elf64_program_header list" where
  "segments_from m src i =
     map (program_header_at m) (filter (\<lambda>ph. ph \<noteq> 0 \<and> p_type (program_header_at m ph) = PT_LOAD)
       (map (\<lambda>i. elf_program_header m src (of_nat i)) [i..<unat (e_phnum (elf_header_at m src))]))"

lemma segments_from_0: "segments_from m src 0 = load_segments m src"
  by (simp add: segments_from_def load_segments_def)

lemma segments_from_step:
  "i < unat (e_phnum (elf_header_at m src)) \<Longrightarrow>
   segments_from m src i =
     (let ph = elf_program_header m src (of_nat i) in
      (if ph \<noteq> 0 \<and> p_type (program_header_at m ph) = PT_LOAD then [program_header_at m ph] else []) @ segments_from m src (Suc i))"
  by (simp add: segments_from_def upt_conv_Cons Let_def)

lemma segments_from_end: "\<not> i < unat (e_phnum (elf_header_at m src)) \<Longrightarrow> segments_from m src i = []"
  by (simp add: segments_from_def)

lemma file_headers:
  assumes f: "elf_file m0 src len" and a: "agree m0 m src len"
  shows "elf_header_at m src = elf_header_at m0 src"
    "elf_program_header m src (of_nat i) = elf_program_header m0 src (of_nat i)"
    "i < unat (e_phnum (elf_header_at m0 src)) \<Longrightarrow>
       program_header_at m (elf_program_header m0 src (of_nat i)) = program_header_at m0 (elf_program_header m0 src (of_nat i))"
proof -
  show h: "elf_header_at m src = elf_header_at m0 src" using f by (intro elf_header_agree [OF a]) (simp add: elf_file_def)
  then show "elf_program_header m src (of_nat i) = elf_program_header m0 src (of_nat i)" by (simp add: elf_program_header_def)
  assume i: "i < unat (e_phnum (elf_header_at m0 src))"
  let ?ph = "elf_program_header m0 src (of_nat i)"
  have fit: "unat (?ph - src) + 56 \<le> unat len" using f i by (simp add: elf_file_def)
  show "program_header_at m ?ph = program_header_at m0 ?ph"
  proof (rule program_header_agree)
    show "agree m0 m ?ph 56" unfolding agree_def
    proof (intro allI impI)
      fix x assume x: "x - ?ph < 56"
      have "x - src = (?ph - src) + (x - ?ph)" by simp
      moreover have "unat ((?ph - src) + (x - ?ph)) < unat len"
        using x fit unat_lt_2p64 [of len] by (subst unat_plus_no_wrap) (simp_all add: word_less_nat_alt)
      ultimately have "x - src < len" by (simp add: word_less_nat_alt)
      then show "m x = m0 x" using a by (simp add: agree_def)
    qed
  qed
qed

lemma copy_segments_loop_fold:
  assumes f: "elf_file m0 src len" and c: "\<And>ph. ph \<in> set (load_segments m0 src) \<Longrightarrow> dest_clear src len base lowest ph"
    and "agree m0 m src len"
  shows "copy_segments_loop src base lowest i m = fold (copy_segment src base lowest) (segments_from m0 src i) m"
  using assms(3)
proof (induction "unat (e_phnum (elf_header_at m0 src)) - i" arbitrary: i m)
  case 0
  then have "\<not> i < unat (e_phnum (elf_header_at m0 src))" by simp
  then show ?case using file_headers(1) [OF f 0(2)]
    by (simp add: copy_segments_loop.simps [of src base lowest i m] segments_from_end)
next
  case (Suc n)
  then have i: "i < unat (e_phnum (elf_header_at m0 src))" by simp
  note hd = file_headers [OF f Suc.prems]
  let ?ph = "elf_program_header m0 src (of_nat i)"
  define m1 where "m1 = (if ?ph = 0 then m else if p_type (program_header_at m0 ?ph) \<noteq> PT_LOAD then m
      else copy_segment src base lowest (program_header_at m0 ?ph) m)"
  have step: "copy_segments_loop src base lowest i m = copy_segments_loop src base lowest (Suc i) m1"
    using i by (subst copy_segments_loop.simps) (simp add: hd(1,2) hd(3) [OF i] m1_def Let_def)
  have "agree m0 m1 src len"
  proof (cases "?ph \<noteq> 0 \<and> p_type (program_header_at m0 ?ph) = PT_LOAD")
    case True
    then have seg: "program_header_at m0 ?ph \<in> set (load_segments m0 src)" using i by (auto simp: load_segments_def)
    then have "seg_ok len (program_header_at m0 ?ph)" using f by (simp add: elf_file_def)
    from copy_segment_file [OF this c [OF seg], of m] show ?thesis using True Suc.prems by (simp add: m1_def agree_def)
  next
    case False
    then have "m1 = m" by (auto simp: m1_def)
    then show ?thesis using Suc.prems by simp
  qed
  then have "copy_segments_loop src base lowest (Suc i) m1 = fold (copy_segment src base lowest) (segments_from m0 src (Suc i)) m1"
    using Suc.hyps by (intro Suc.hyps(1)) simp_all
  then show ?case unfolding step by (auto simp: segments_from_step [OF i] Let_def m1_def)
qed

section \<open>The image\<close>

definition image_low :: "byte_mem \<Rightarrow> u64 \<Rightarrow> u64" where
  "image_low m src = Min (p_vaddr ` set (load_segments m src))"

definition image_size :: "byte_mem \<Rightarrow> u64 \<Rightarrow> u64" where
  "image_size m src = Max (seg_end ` set (load_segments m src)) - image_low m src"

lemma image_bounds:
  assumes "elf_file m src len"
  shows "segment_bounds (load_segments m src) = (image_low m src, image_low m src + image_size m src)"
    "image_low m src \<noteq> - 1" "unat (image_size m src) \<le> 2 ^ 47"
    "ph \<in> set (load_segments m src) \<Longrightarrow> unat (p_vaddr ph - image_low m src) = unat (p_vaddr ph) - unat (image_low m src) \<and>
       unat (image_low m src) \<le> unat (p_vaddr ph) \<and>
       unat (p_vaddr ph - image_low m src) + unat (p_memsz ph) \<le> unat (image_size m src)"
proof -
  let ?S = "load_segments m src"
  have ne: "?S \<noteq> []" and b: "\<And>ph. ph \<in> set ?S \<Longrightarrow> unat (p_vaddr ph) + unat (p_memsz ph) \<le> 2 ^ 47"
    using assms by (auto simp: elf_file_def seg_ok_def)
  have v: "unat (p_vaddr ph) < 18446744073709551615" if "ph \<in> set ?S" for ph using b [OF that] by simp
  show "segment_bounds ?S = (image_low m src, image_low m src + image_size m src)" "image_low m src \<noteq> - 1"
    using segment_bounds_eq [OF ne v] by (simp_all add: image_low_def image_size_def)
  have e: "unat (seg_end ph) = unat (p_vaddr ph) + unat (p_memsz ph)" if "ph \<in> set ?S" for ph
    using b [OF that] by (simp add: seg_end_def unat_plus_no_wrap)
  have low: "image_low m src \<le> p_vaddr ph" if "ph \<in> set ?S" for ph using that by (simp add: image_low_def)
  have top: "seg_end ph \<le> Max (seg_end ` set ?S)" if "ph \<in> set ?S" for ph using that by simp
  have "Max (seg_end ` set ?S) \<in> seg_end ` set ?S" using ne by (intro Max_in) auto
  then obtain q where q: "q \<in> set ?S" "Max (seg_end ` set ?S) = seg_end q" by auto
  have "image_low m src \<le> seg_end q" using low [OF q(1)] e [OF q(1)] by (simp add: word_le_nat_alt)
  then have sz: "unat (image_size m src) = unat (seg_end q) - unat (image_low m src)"
    by (simp add: image_size_def q(2) unat_minus_le)
  then show "unat (image_size m src) \<le> 2 ^ 47" using e [OF q(1)] b [OF q(1)] by simp
  assume ph: "ph \<in> set ?S"
  have "unat (p_vaddr ph - image_low m src) = unat (p_vaddr ph) - unat (image_low m src)" by (rule unat_minus_le [OF low [OF ph]])
  moreover have "unat (seg_end ph) \<le> unat (seg_end q)" using top [OF ph] q(2) by (simp add: word_le_nat_alt)
  ultimately show "unat (p_vaddr ph - image_low m src) = unat (p_vaddr ph) - unat (image_low m src) \<and>
       unat (image_low m src) \<le> unat (p_vaddr ph) \<and>
       unat (p_vaddr ph - image_low m src) + unat (p_memsz ph) \<le> unat (image_size m src)"
    using low [OF ph] e [OF ph] sz by (simp add: word_le_nat_alt)
qed

text \<open>The buffer holds all segments side by side, away from the file.\<close>

lemma dest_regions:
  assumes f: "elf_file m src len" and ph: "ph \<in> set (load_segments m src)"
    and base: "unat base + unat (image_size m src) < 18446744073709551616"
  shows "x - seg_dest base (image_low m src) ph < p_memsz ph \<longleftrightarrow>
     unat base + (unat (p_vaddr ph) - unat (image_low m src)) \<le> unat x \<and>
     unat x < unat base + (unat (p_vaddr ph) - unat (image_low m src)) + unat (p_memsz ph)"
proof -
  note b = image_bounds(4) [OF f ph]
  have d: "unat (seg_dest base (image_low m src) ph) = unat base + (unat (p_vaddr ph) - unat (image_low m src))"
    using b base by (subst unat_plus_no_wrap) auto
  then show ?thesis using b base by (subst region_iff) auto
qed

lemma dests_ok:
  assumes f: "elf_file m src len" and base: "unat base + unat (image_size m src) < 18446744073709551616"
    and src: "unat src + unat len \<le> 18446744073709551616"
    and disj: "{unat base..<unat base + unat (image_size m src)} \<inter> {unat src..<unat src + unat len} = {}"
  shows "ph \<in> set (load_segments m src) \<Longrightarrow> dest_clear src len base (image_low m src) ph"
    "sorted_wrt (dests_apart base (image_low m src)) (load_segments m src)"
proof -
  note d = dest_regions [OF f _ base]
  show "dest_clear src len base (image_low m src) ph" if ph: "ph \<in> set (load_segments m src)" for ph
    unfolding dest_clear_def region_iff [OF src] d [OF ph]
  proof (intro allI impI notI)
    fix x assume "unat base + (unat (p_vaddr ph) - unat (image_low m src)) \<le> unat x \<and>
        unat x < unat base + (unat (p_vaddr ph) - unat (image_low m src)) + unat (p_memsz ph)"
      and y: "unat src \<le> unat x \<and> unat x < unat src + unat len"
    then have "unat x \<in> {unat base..<unat base + unat (image_size m src)}" using image_bounds(4) [OF f ph] by auto
    then show False using disj y by auto
  qed
  have "dests_apart base (image_low m src) a b" if "apart_in_memory a b" "a \<in> set (load_segments m src)" "b \<in> set (load_segments m src)" for a b
    using that image_bounds(4) [OF f that(2)] image_bounds(4) [OF f that(3)]
    by (auto simp: dests_apart_def apart_in_memory_def d)
  then show "sorted_wrt (dests_apart base (image_low m src)) (load_segments m src)"
    using f by (auto simp: elf_file_def intro: sorted_wrt_mono_rel)
qed

lemma load_into_buffer:
  assumes f: "elf_file m src len" and base: "unat base + unat (image_size m src) < 18446744073709551616"
    and src: "unat src + unat len \<le> 18446744073709551616"
    and disj: "{unat base..<unat base + unat (image_size m src)} \<inter> {unat src..<unat src + unat len} = {}"
    and m': "m' = copy_segments_loop src base (image_low m src) 0 m"
  shows "\<forall>ph \<in> set (load_segments m src). seg_loaded m src base (image_low m src) ph m'"
    "agree m m' src len" "\<forall>x. \<not> x - base < image_size m src \<longrightarrow> m' x = m x"
proof -
  note d = dests_ok [OF f base src disj]
  have refl: "agree m m src len" by (simp add: agree_def)
  have m'': "m' = fold (copy_segment src base (image_low m src)) (load_segments m src) m"
    unfolding m' by (simp add: copy_segments_loop_fold [OF f d(1) refl] segments_from_0)
  have "\<And>ph. ph \<in> set (load_segments m src) \<Longrightarrow> seg_ok len ph \<and> dest_clear src len base (image_low m src) ph"
    using f d(1) by (simp add: elf_file_def)
  from fold_copy_segments [OF this d(2) refl]
  have r: "\<forall>ph \<in> set (load_segments m src). seg_loaded m src base (image_low m src) ph m'" "agree m m' src len"
    "\<forall>x. (\<forall>ph \<in> set (load_segments m src). \<not> x - seg_dest base (image_low m src) ph < p_memsz ph) \<longrightarrow> m' x = m x"
    unfolding m'' by auto
  show "\<forall>ph \<in> set (load_segments m src). seg_loaded m src base (image_low m src) ph m'" "agree m m' src len" by (fact r)+
  have "\<not> x - seg_dest base (image_low m src) ph < p_memsz ph"
    if "\<not> x - base < image_size m src" and ph: "ph \<in> set (load_segments m src)" for x ph
    using that(1) image_bounds(4) [OF f ph] base
    by (auto simp: dest_regions [OF f ph base] region_iff [of base "image_size m src"])
  then show "\<forall>x. \<not> x - base < image_size m src \<longrightarrow> m' x = m x" using r(3) by blast
qed

lemma elf_load_image_effect:
  assumes live: "heap_live h L" and src: "(src, n) \<in> L" "len \<le> n" and f: "elf_file (hp_mem h) src len"
  shows "\<exists>base h1 m'. kmalloc (image_size (hp_mem h) src) h = Some (base, h1) \<and>
     elf_load_image src h = Some (if base = 0 then KERNEL_ENOMEM else KERNEL_SUCCESS,
       \<lparr>img_base = base, img_size = image_size (hp_mem h) src, img_entry = e_entry (elf_header_at (hp_mem h) src),
        img_image_base = image_low (hp_mem h) src\<rparr>, h1\<lparr>hp_mem := m'\<rparr>) \<and> agree (hp_mem h) m' src len \<and>
     (if base = 0 then m' = hp_mem h
      else (\<forall>ph \<in> set (load_segments (hp_mem h) src). seg_loaded (hp_mem h) src base (image_low (hp_mem h) src) ph m') \<and>
           (\<forall>x. \<not> x - base < image_size (hp_mem h) src \<longrightarrow> m' x = hp_mem h x))"
proof -
  let ?m = "hp_mem h" and ?size = "image_size (hp_mem h) src"
  have small: "unat ?size + 15 < 18446744073709551616" using image_bounds(3) [OF f] by simp
  have s0: "src \<noteq> 0" by (rule heap_live_region(2) [OF live src(1)])
  obtain base h1 where k: "kmalloc ?size h = Some (base, h1)"
    and post: "base \<noteq> 0 \<Longrightarrow> \<exists>c. ?size \<le> c \<and> base \<notin> fst ` L \<and> heap_live h1 (insert (base, c) L)"
  proof (cases "?size = 0")
    case True
    then show thesis using that by (simp add: kmalloc_def)
  next
    case False
    then show thesis using ka.alloc_total [OF live False] small that by (auto split: if_splits)
  qed
  have mem: "hp_mem h1 = ?m" by (rule kmalloc_mem [OF live small k])
  have valid: "elf_validate ?m src = KERNEL_SUCCESS" using f by (simp add: elf_file_def)
  define m' where "m' = (if base = 0 then ?m else copy_segments_loop src base (image_low ?m src) 0 ?m)"
  have "h1\<lparr>hp_mem := ?m\<rparr> = h1" by (simp add: mem [symmetric])
  then have load: "elf_load_image src h = Some (if base = 0 then KERNEL_ENOMEM else KERNEL_SUCCESS,
      \<lparr>img_base = base, img_size = ?size, img_entry = e_entry (elf_header_at ?m src), img_image_base = image_low ?m src\<rparr>,
      h1\<lparr>hp_mem := m'\<rparr>)"
    using s0 valid k by (simp add: elf_load_image_def image_bounds(1,2) [OF f] Let_def mem m'_def)
  have "agree ?m m' src len \<and> (if base = 0 then m' = ?m
      else (\<forall>ph \<in> set (load_segments ?m src). seg_loaded ?m src base (image_low ?m src) ph m') \<and>
           (\<forall>x. \<not> x - base < ?size \<longrightarrow> m' x = ?m x))"
  proof (cases "base = 0")
    case True
    then show ?thesis by (simp add: m'_def agree_def)
  next
    case False
    then obtain c where c: "?size \<le> c" "base \<notin> fst ` L" "heap_live h1 (insert (base, c) L)" using post by blast
    have "base \<noteq> src" using c(2) src(1) by force
    then have disj: "{unat base..<unat base + unat c} \<inter> {unat src..<unat src + unat n} = {}"
      using ka.live_disjoint [OF c(3), of base c src n] src(1) by blast
    have b: "unat base + unat ?size < 18446744073709551616"
      using heap_live_region(1) [OF c(3), of base c] c(1) by (simp add: word_le_nat_alt)
    have l: "unat src + unat len \<le> 18446744073709551616"
      using heap_live_region(1) [OF live src(1)] src(2) by (simp add: word_le_nat_alt)
    have "{unat base..<unat base + unat ?size} \<inter> {unat src..<unat src + unat len} = {}"
      using disj c(1) src(2) by (force simp: word_le_nat_alt)
    from load_into_buffer [OF f b l this] show ?thesis using False by (simp add: m'_def)
  qed
  with k load show ?thesis by blast
qed

text \<open>
  C27. \<open>elf_load_image\<close> on a well-formed executable in a block of the kernel heap returns
  \<open>KERNEL_ENOMEM\<close> when the allocation fails and otherwise succeeds: the buffer spans the segments from the lowest to the
  highest address, and holds every byte of every loadable segment at its offset from the lowest address,
  with zeros from the file size to the memory size. No byte outside the buffer changes.
\<close>

theorem elf_load_image_correct:
  assumes "heap_live h L" and "(src, n) \<in> L" and "len \<le> n" and "elf_file (hp_mem h) src len"
  shows "\<exists>status img h'. elf_load_image src h = Some (status, img, h') \<and>
     img_entry img = e_entry (elf_header_at (hp_mem h) src) \<and>
     img_image_base img = Min (p_vaddr ` set (load_segments (hp_mem h) src)) \<and>
     img_size img = Max ((\<lambda>ph. p_vaddr ph + p_memsz ph) ` set (load_segments (hp_mem h) src)) - img_image_base img \<and>
     (if img_base img = 0 then status = KERNEL_ENOMEM \<and> hp_mem h' = hp_mem h
      else status = KERNEL_SUCCESS \<and>
        (\<forall>ph \<in> set (load_segments (hp_mem h) src). \<forall>j < p_memsz ph.
           hp_mem h' (img_base img + (p_vaddr ph - img_image_base img) + j) =
             (if j < p_filesz ph then hp_mem h (src + p_offset ph + j) else 0)) \<and>
        (\<forall>x. \<not> x - img_base img < img_size img \<longrightarrow> hp_mem h' x = hp_mem h x))"
proof -
  obtain base h1 m' where r: "elf_load_image src h = Some (if base = 0 then KERNEL_ENOMEM else KERNEL_SUCCESS,
       \<lparr>img_base = base, img_size = image_size (hp_mem h) src, img_entry = e_entry (elf_header_at (hp_mem h) src),
        img_image_base = image_low (hp_mem h) src\<rparr>, h1\<lparr>hp_mem := m'\<rparr>)"
    and post: "if base = 0 then m' = hp_mem h
      else (\<forall>ph \<in> set (load_segments (hp_mem h) src). seg_loaded (hp_mem h) src base (image_low (hp_mem h) src) ph m') \<and>
           (\<forall>x. \<not> x - base < image_size (hp_mem h) src \<longrightarrow> m' x = hp_mem h x)"
    using elf_load_image_effect [OF assms] by blast
  have e: "seg_end = (\<lambda>ph. p_vaddr ph + p_memsz ph)" by (rule ext) (simp add: seg_end_def)
  show ?thesis unfolding r using post
    by (cases "base = 0") (simp_all add: image_low_def image_size_def e seg_loaded_def)
qed

text \<open>A small executable: one segment of eight bytes at \<open>0x400000\<close>, sixteen in memory, in the first block of the heap.\<close>

definition sample_elf :: "u8 list" where
  "sample_elf =
     [0x7F, 0x45, 0x4C, 0x46, 2, 1, 1, 0, 0, 0, 0, 0, 0, 0, 0, 0,
      2, 0, 62, 0, 1, 0, 0, 0, 0, 0, 0x40, 0, 0, 0, 0, 0,
      64, 0, 0, 0, 0, 0, 0, 0, 0, 0, 0, 0, 0, 0, 0, 0,
      0, 0, 0, 0, 64, 0, 56, 0, 1, 0, 0, 0, 0, 0, 0, 0,
      1, 0, 0, 0, 5, 0, 0, 0, 120, 0, 0, 0, 0, 0, 0, 0,
      0, 0, 0x40, 0, 0, 0, 0, 0, 0, 0, 0, 0, 0, 0, 0, 0,
      8, 0, 0, 0, 0, 0, 0, 0, 16, 0, 0, 0, 0, 0, 0, 0,
      0, 0x10, 0, 0, 0, 0, 0, 0, 0xEB, 0xFE, 0x90, 0x90, 0x90, 0x90, 0x90, 0x90]"

abbreviation sample_block :: u64 where
  "sample_block \<equiv> HEAP_START_ADDRESS + sizeof_heap_block"

definition sample_elf_mem :: byte_mem where
  "sample_elf_mem x = (if x - sample_block < 128 then sample_elf ! unat (x - sample_block) else 0)"

definition sample_elf_heap :: heap_state where
  "sample_elf_heap = (snd (the (kmalloc 128 sample_heap)))\<lparr>hp_mem := sample_elf_mem\<rparr>"

lemma sample_block_nz: "sample_block \<noteq> 0"
  by (simp add: HEAP_START_ADDRESS_def sizeof_heap_block_def)

lemma sample_elf_live: "\<exists>n. 128 \<le> n \<and> heap_live sample_elf_heap {(sample_block, n)}"
proof -
  have "align_size 128 \<le> 4064" by (simp add: align_size_def HEAP_ALIGNMENT_def)
  then obtain h' where k: "kmalloc 128 sample_heap = Some (sample_block, h')" using sample_kmalloc [of 128] by auto
  then have "\<exists>m. 128 \<le> m \<and> heap_live h' {(sample_block, m)}"
    using ka.alloc_total [OF sample_heap_live, of 128] sample_block_nz by auto
  then show ?thesis by (simp add: sample_elf_heap_def k heap_live_hp_mem)
qed

lemma sample_elf_header:
  "elf_header_at sample_elf_mem sample_block = \<lparr>e_ident = [0x7F, 0x45, 0x4C, 0x46, 2, 1, 1, 0, 0, 0, 0, 0, 0, 0, 0, 0],
     e_type = 2, e_machine = 62, e_version = 1, e_entry = 0x400000, e_phoff = 64, e_shoff = 0, e_flags = 0, e_ehsize = 64,
     e_phentsize = 56, e_phnum = 1, e_shentsize = 0, e_shnum = 0, e_shstrndx = 0\<rparr>"
  by code_simp

lemma sample_elf_segment:
  "program_header_at sample_elf_mem (sample_block + 64) = \<lparr>p_type = 1, p_flags = 5, p_offset = 120, p_vaddr = 0x400000,
     p_paddr = 0, p_filesz = 8, p_memsz = 16, p_align = 0x1000\<rparr>"
  by code_simp

lemma sample_elf_program_header: "elf_program_header sample_elf_mem sample_block 0 = sample_block + 64"
  by (simp add: elf_program_header_def sample_elf_header sample_block_nz Let_def)

lemma sample_load_segments:
  "load_segments sample_elf_mem sample_block = [program_header_at sample_elf_mem (sample_block + 64)]"
proof -
  have "sample_block + 64 \<noteq> 0" by (simp add: HEAP_START_ADDRESS_def sizeof_heap_block_def)
  then show ?thesis
    by (simp add: load_segments_def sample_elf_header sample_elf_program_header sample_elf_segment PT_LOAD_def)
qed

lemma sample_elf_file: "elf_file sample_elf_mem sample_block 128"
  unfolding elf_file_def sample_load_segments
  by (simp add: sample_elf_segment sample_elf_program_header sample_elf_header elf_validate_def sample_block_nz
      seg_ok_def ELFCLASS64_def ELFDATA2LSB_def EV_CURRENT_def ET_EXEC_def EM_X86_64_def)

theorem elf_load_image_correct_witness:
  "\<exists>status img h'. elf_load_image sample_block sample_elf_heap = Some (status, img, h') \<and> img_image_base img = 0x400000 \<and>
     (if img_base img = 0 then status = KERNEL_ENOMEM
      else hp_mem h' (img_base img + 1) = 0xFE \<and> hp_mem h' (img_base img + 9) = 0)"
proof -
  have mem: "hp_mem sample_elf_heap = sample_elf_mem" by (simp add: sample_elf_heap_def)
  obtain n where n: "128 \<le> n" "heap_live sample_elf_heap {(sample_block, n)}" using sample_elf_live by blast
  have "(sample_block, n) \<in> {(sample_block, n)}" by simp
  from elf_load_image_correct [OF n(2) this n(1), unfolded mem, OF sample_elf_file]
  obtain status img h' where r: "elf_load_image sample_block sample_elf_heap = Some (status, img, h')"
    "img_image_base img = Min (p_vaddr ` set (load_segments sample_elf_mem sample_block))"
    and c: "if img_base img = 0 then status = KERNEL_ENOMEM \<and> hp_mem h' = sample_elf_mem
      else status = KERNEL_SUCCESS \<and> (\<forall>ph \<in> set (load_segments sample_elf_mem sample_block). \<forall>j < p_memsz ph.
             hp_mem h' (img_base img + (p_vaddr ph - img_image_base img) + j) =
               (if j < p_filesz ph then sample_elf_mem (sample_block + p_offset ph + j) else 0)) \<and>
           (\<forall>x. \<not> x - img_base img < img_size img \<longrightarrow> hp_mem h' x = sample_elf_mem x)"
    by blast
  have low: "img_image_base img = 0x400000" by (simp add: r(2) sample_load_segments sample_elf_segment)
  have byte: "sample_elf_mem (sample_block + 120 + 1) = 0xFE" by code_simp
  have "if img_base img = 0 then status = KERNEL_ENOMEM
      else hp_mem h' (img_base img + 1) = 0xFE \<and> hp_mem h' (img_base img + 9) = 0"
  proof (cases "img_base img = 0")
    case False
    have "program_header_at sample_elf_mem (sample_block + 64) \<in> set (load_segments sample_elf_mem sample_block)"
      by (simp add: sample_load_segments)
    moreover have "\<forall>ph \<in> set (load_segments sample_elf_mem sample_block). \<forall>j < p_memsz ph.
        hp_mem h' (img_base img + (p_vaddr ph - img_image_base img) + j) =
          (if j < p_filesz ph then sample_elf_mem (sample_block + p_offset ph + j) else 0)"
      using c False by (simp only: if_False) blast
    ultimately have "\<forall>j < p_memsz (program_header_at sample_elf_mem (sample_block + 64)).
        hp_mem h' (img_base img + (p_vaddr (program_header_at sample_elf_mem (sample_block + 64)) - img_image_base img) + j) =
          (if j < p_filesz (program_header_at sample_elf_mem (sample_block + 64))
           then sample_elf_mem (sample_block + p_offset (program_header_at sample_elf_mem (sample_block + 64)) + j) else 0)"
      by (rule bspec [rotated])
    then have j: "j < 16 \<longrightarrow> hp_mem h' (img_base img + j) = (if j < 8 then sample_elf_mem (sample_block + 120 + j) else 0)" for j
      unfolding sample_elf_segment low by simp
    show ?thesis using False j [of 1] j [of 9] byte by simp
  qed (use c in simp)
  then show ?thesis using r(1) low by (intro exI [of _ status] exI [of _ img] exI [of _ h']) simp
qed

end
