(* ===== verification/Shared_Space.thy ===== *)
theory Shared_Space
  imports Heap_Blocks
begin

text \<open>
  Address spaces beside the active one. \<open>page_table_create\<close> copies the top-level table of the kernel, so a
  process shares the lower tables of the kernel with it. What the kernel then does to its own address
  space, in particular the growth of its heap, keeps the tables of such a process well-formed.
\<close>

section \<open>Sharing lower tables\<close>

text \<open>
  Below each top-level entry, \<open>b\<close> either leads to the same table as \<open>a\<close> or only to tables that are not in the
  tree of \<open>a\<close>; the top-level table of \<open>b\<close> is not in that tree.
\<close>

definition own_tables :: "vm_state \<Rightarrow> u64 \<Rightarrow> u64 \<Rightarrow> u64 \<Rightarrow> bool" where
  "own_tables s a b i \<longleftrightarrow>
     (\<forall>p t. table_path (i # p) \<longrightarrow> descend s b (i # p) = Some t \<longrightarrow> data_page s a t)"

definition shares_tables :: "vm_state \<Rightarrow> u64 \<Rightarrow> u64 \<Rightarrow> bool" where
  "shares_tables s a b \<longleftrightarrow> vm_ok s b \<and> data_page s a b \<and>
     (\<forall>i < 512. descend s b [i] = descend s a [i] \<or> own_tables s a b i)"

lemma same_bytes_entry:
  assumes "same_bytes u s s'" "aligned 4096 u" "i < 512"
  shows "load_u64 (vm_mem s') (entry_addr u i) = load_u64 (vm_mem s) (entry_addr u i)"
proof (rule load_u64_cong)
  fix k :: nat assume "k < 8"
  then have "entry_addr u i + of_nat k - entry_addr u i < 8"
    by (simp add: word_less_nat_alt unat_of_nat_u64)
  then have "entry_addr u i + of_nat k - u < PAGE_SIZE" by (rule entry_in_page [OF assms(2,3)])
  then show "vm_mem s' (entry_addr u i + of_nat k) = vm_mem s (entry_addr u i + of_nat k)"
    using assms(1) by (simp add: same_bytes_def)
qed

lemma descend_Cons_via:
  "descend s r (i # p) = Option.bind (descend s r [i]) (\<lambda>t. descend s t p)"
  using descend_append [of s r "[i]" p] by simp

text \<open>A step on the tables of \<open>a\<close>: its pages in use stay what they are, and so do its tables.\<close>

definition table_step :: "u64 \<Rightarrow> vm_state \<Rightarrow> vm_state \<Rightarrow> bool" where
  "table_step a s s' \<longleftrightarrow> vm_ok s' a \<and> keeps_data a s s' \<and> hhdm_offset s' = hhdm_offset s \<and>
     free_set (vm_pmm s') \<subseteq> free_set (vm_pmm s) \<and>
     (\<forall>p t. table_path p \<longrightarrow> descend s a p = Some t \<longrightarrow> descend s' a p = Some t)"

lemma table_step_data:
  assumes "table_step a s s'" "data_page s a u"
  shows "data_page s' a u" "i < 512 \<Longrightarrow> load_u64 (vm_mem s') (entry_addr u i) = load_u64 (vm_mem s) (entry_addr u i)"
  using assms same_bytes_entry [of u s s' i] by (auto simp: table_step_def keeps_data_def data_page_def)

lemma table_step_root:
  assumes "table_step a s s'" "data_page s a b" "i < 512"
  shows "descend s' b [i] = descend s b [i]" "pte s' b [i] = pte s b [i]"
  using table_step_data(2) [OF assms] assms(1,3) pte_snoc [of s b "[]" i] pte_snoc [of s' b "[]" i]
  by (simp_all add: page_table_physical_to_virtual_def table_step_def Let_def)

text \<open>The private tables of \<open>b\<close> are not written.\<close>

lemma own_tables_kept:
  assumes st: "table_step a s s'" and b: "data_page s a b" and own: "own_tables s a b i"
  shows "table_path (i # p) \<Longrightarrow> descend s' b (i # p) = descend s b (i # p)"
proof (induction p rule: rev_induct)
  case Nil
  then show ?case using table_step_root(1) [OF st b] by simp
next
  case (snoc j p)
  have p: "table_path (i # p)" "j < 512" using snoc.prems by (auto simp: table_path_def)
  note IH = snoc.IH [OF p(1)]
  show ?case
  proof (cases "descend s b (i # p)")
    case (Some u)
    then have "data_page s a u" using own p(1) unfolding own_tables_def by blast
    then have "load_u64 (vm_mem s') (entry_addr u j) = load_u64 (vm_mem s) (entry_addr u j)"
      by (rule table_step_data(2) [OF st _ p(2)])
    then have "descend s' u [j] = descend s u [j]"
      using st by (simp add: page_table_physical_to_virtual_def table_step_def Let_def)
    then show ?thesis
      using IH Some descend_append [of s b "i # p" "[j]"] descend_append [of s' b "i # p" "[j]"] by simp
  next
    case None
    then show ?thesis
      using IH descend_append [of s b "i # p" "[j]"] descend_append [of s' b "i # p" "[j]"] by simp
  qed
qed

lemma shared_below:
  assumes st: "table_step a s s'" and b: "data_page s a b" and i: "i < 512" "descend s b [i] = descend s a [i]"
    and p: "table_path (i # p)" "descend s' b (i # p) = Some t"
  shows "descend s' a (i # p) = Some t" "descend s' b [i] = descend s' a [i]"
proof -
  obtain u where u: "descend s' b [i] = Some u" using p(2) descend_Cons_via [of s' b i p] by (cases "descend s' b [i]") auto
  then have "descend s a [i] = Some u" using i table_step_root(1) [OF st b i(1)] by simp
  then have "descend s' a [i] = Some u" using st i(1) unfolding table_step_def by (metis table_path_simps(1,2) list.size(3) zero_less_numeral)
  then show "descend s' a (i # p) = Some t" "descend s' b [i] = descend s' a [i]"
    using u p(2) descend_Cons_via [of s' a i p] descend_Cons_via [of s' b i p] by simp_all
qed

text \<open>A table of \<open>b\<close> after the step: its top-level table, a table of \<open>a\<close> at the same path, or an old private table.\<close>

lemma shared_cases:
  assumes st: "table_step a s s'" and sh: "shares_tables s a b" and p: "table_path p" "descend s' b p = Some t"
  obtains "p = []" "t = b" | "p \<noteq> []" "descend s' a p = Some t"
    | "p \<noteq> []" "descend s b p = Some t" "data_page s a t" "data_page s' a t"
proof (cases p)
  case (Cons i q)
  have b: "data_page s a b" and i: "i < 512" using sh p(1) Cons by (auto simp: shares_tables_def)
  then consider "descend s b [i] = descend s a [i]" | "own_tables s a b i" using sh by (auto simp: shares_tables_def)
  then show thesis
  proof cases
    case 1
    then show thesis using that(2) shared_below(1) [OF st b i 1] p Cons by simp
  next
    case 2
    then have d: "descend s b p = Some t" using own_tables_kept [OF st b 2] p Cons by simp
    then have "data_page s a t" using 2 p(1) Cons unfolding own_tables_def by blast
    then show thesis using that(3) d table_step_data(1) [OF st] Cons by blast
  qed
qed (use that p in simp)

lemma data_not_table: "data_page s a t \<Longrightarrow> table_path p \<Longrightarrow> descend s a p \<noteq> Some t"
  by (simp add: data_page_def)

lemma shares_tables_ok:
  assumes st: "table_step a s s'" and sh: "shares_tables s a b"
  shows "vm_ok s' b"
proof -
  have ok: "vm_ok s b" "data_page s a b" "vm_ok s' a" and h: "hhdm_offset s' = hhdm_offset s"
    and fr: "free_set (vm_pmm s') \<subseteq> free_set (vm_pmm s)" using st sh by (simp_all add: shares_tables_def table_step_def)
  have b': "data_page s' a b" by (rule table_step_data(1) [OF st ok(2)])
  have frame: "table_frame s' u = table_frame s u" for u by (simp add: table_frame_def h)
  show ?thesis
    unfolding vm_ok_def
  proof (intro conjI allI impI)
    fix i :: u64 assume i: "i < 512" "page_is_present (pte s' b [i])"
    then show "links (pte s' b [i])" using vm_ok_top [OF ok(1)] table_step_root(2) [OF st ok(2)] by simp
  next
    fix p t assume p: "table_path p" "descend s' b p = Some t"
    have "t \<noteq> 0 \<and> table_frame s' t \<notin> free_set (vm_pmm s')"
      using st sh p
    proof (cases rule: shared_cases)
      case 1
      then show ?thesis using vm_ok_table(1,3) [OF ok(1), of "[]" b] fr by (auto simp: frame)
    next
      case 2
      then show ?thesis using vm_ok_table [OF ok(3) p(1)] by blast
    next
      case 3
      then show ?thesis using vm_ok_table [OF ok(1) p(1)] fr by (auto simp: frame)
    qed
    then show "t \<noteq> 0" "table_frame s' t \<notin> free_set (vm_pmm s')" by blast+
  next
    fix p q t assume p: "table_path p" "table_path q" "descend s' b p = Some t" "descend s' b q = Some t"
    have "descend s b p = Some t \<and> data_page s' a t \<or> descend s' a p = Some t"
      using st sh p(1,3) by (cases rule: shared_cases) (use b' in auto)
    moreover have "descend s b q = Some t \<and> data_page s' a t \<or> descend s' a q = Some t"
      using st sh p(2,4) by (cases rule: shared_cases) (use b' in auto)
    ultimately show "p = q"
      using vm_ok_tree [OF ok(1) p(1,2)] vm_ok_tree [OF ok(3) p(1,2)] data_not_table p(1,2) by blast
  qed (use ok(1,3) in \<open>simp_all add: vm_ok_def\<close>)
qed

lemma shares_tables_kept:
  assumes st: "table_step a s s'" and sh: "shares_tables s a b"
  shows "shares_tables s' a b"
  unfolding shares_tables_def
proof (intro conjI allI impI)
  have b: "data_page s a b" using sh by (simp add: shares_tables_def)
  show "vm_ok s' b" by (rule shares_tables_ok [OF st sh])
  show "data_page s' a b" by (rule table_step_data(1) [OF st b])
  fix i :: u64 assume i: "i < 512"
  consider "descend s b [i] = descend s a [i]" | "own_tables s a b i" using sh i by (auto simp: shares_tables_def)
  then show "descend s' b [i] = descend s' a [i] \<or> own_tables s' a b i"
  proof cases
    case 1
    show ?thesis
    proof (cases "descend s' b [i]")
      case None
      then have "descend s' b (i # p) = None" for p using descend_Cons_via [of s' b i p] by simp
      then show ?thesis by (simp add: own_tables_def del: descend.simps)
    next
      case (Some t)
      then show ?thesis using shared_below(2) [OF st b i 1, of "[]"] i by simp
    qed
  next
    case 2
    have "own_tables s' a b i"
      unfolding own_tables_def
    proof (intro allI impI)
      fix p t assume p: "table_path (i # p)" "descend s' b (i # p) = Some t"
      then have "descend s b (i # p) = Some t" using own_tables_kept [OF st b 2] by simp
      then have "data_page s a t" using 2 p(1) unfolding own_tables_def by blast
      then show "data_page s' a t" by (rule table_step_data(1) [OF st])
    qed
    then show ?thesis ..
  qed
qed

section \<open>Operations on the active address space\<close>

text \<open>An address space that is active, or shares tables with the active one.\<close>

definition vm_hosts :: "vm_state \<Rightarrow> u64 \<Rightarrow> bool" where
  "vm_hosts s b \<longleftrightarrow> vm_inv s \<and> (b = page_table_active_root s \<or> shares_tables s (page_table_active_root s) b)"

lemma vm_hosts_ok: "vm_hosts s b \<Longrightarrow> vm_ok s b"
  by (auto simp: vm_hosts_def shares_tables_def)

lemma vm_hosts_step:
  assumes "vm_hosts s b" "table_step (page_table_active_root s) s s'" "page_table_active_root s' = page_table_active_root s"
  shows "vm_hosts s' b"
  using assms shares_tables_kept [OF assms(2)] by (auto simp: vm_hosts_def table_step_def)

lemma vm_hosts_pmm:
  assumes "vm_hosts s b" "pmm_inv pmm" "free_set pmm \<subseteq> free_set (vm_pmm s)"
  shows "vm_hosts (s\<lparr>vm_pmm := pmm\<rparr>) b"
proof (rule vm_hosts_step [OF assms(1)])
  have ok: "vm_inv s" using assms(1) by (simp add: vm_hosts_def)
  have "descend (s\<lparr>vm_pmm := pmm\<rparr>) t q = descend s t q" for t q
    by (induction q arbitrary: t) (simp_all add: Let_def page_table_physical_to_virtual_def)
  then show "table_step (page_table_active_root s) s (s\<lparr>vm_pmm := pmm\<rparr>)"
    using vm_ok_pmm(1,3) [OF ok assms(2,3)] assms(3) by (simp add: table_step_def)
qed (rule active_root_pmm)

lemma page_table_map_step:
  assumes ok: "vm_inv s" and r: "page_table_map va pa flags s = (b, s')"
  shows "table_step (page_table_active_root s) s s'"
proof -
  let ?a = "page_table_active_root s"
  have "descend s' ?a p = Some t" if p: "table_path p" "descend s ?a p = Some t" for p t
    using ok r
  proof (cases rule: map_table)
    case (1 s1)
    then show ?thesis using descend_extends [of s ?a s1 p t] p by (simp add: grown_def same_regs_def)
  next
    case (2 s1 pt)
    let ?s2 = "s1\<lparr>vm_mem := store_u64 (entry_addr pt (PT_INDEX va)) (leaf_entry pa flags) (vm_mem s1)\<rparr>"
    have path: "table_path (take 3 (va_path va))" "length (take 3 (va_path va)) = 3" by (simp_all add: va_path_def)
    have ok1: "vm_ok s1 ?a" and d: "descend s1 ?a p = Some t"
      using 2(1) descend_extends [of s ?a s1 p t] p by (simp_all add: grown_def same_regs_def)
    have "touches_only s1 ?s2 ?a (take 3 (va_path va)) (PT_INDEX va)"
      by (rule touches_store [OF ok1 path(1) index_bounds(4) 2(3)])
    from descend_touches_only [OF this p(1) no_deeper [OF p(1) path(2)]] show ?thesis
      using d by (simp add: 2(4) descend_invalidate)
  qed
  then show ?thesis
    using page_table_map_effect(1,2) [OF ok r] page_table_map_keeps_data [OF ok r] page_table_map_free(1,2) [OF ok r]
    by (simp add: table_step_def)
qed

lemma vm_hosts_map:
  assumes "vm_hosts s b" "page_table_map va pa flags s = (c, s')"
  shows "vm_hosts s' b"
proof -
  have ok: "vm_inv s" using assms(1) by (simp add: vm_hosts_def)
  show ?thesis
    by (rule vm_hosts_step [OF assms(1) page_table_map_step [OF ok assms(2)] page_table_map_effect(1) [OF ok assms(2)]])
qed

section \<open>The kernel heap\<close>

abbreviation heap_hosts :: "heap_state \<Rightarrow> u64 \<Rightarrow> bool" where
  "heap_hosts h b \<equiv> vm_hosts (mm_vm (hp_mm h)) b"

lemma heap_commit_hosts:
  assumes H: "heap_hosts h b" and r: "heap_commit_page va h = (p, h')"
  shows "heap_hosts h' b"
proof -
  let ?v = "mm_vm (hp_mm h)"
  have inv: "pmm_inv (vm_pmm ?v)" using H by (simp add: vm_hosts_def vm_ok_def)
  obtain a pmm where al: "pmm_alloc_page (vm_pmm ?v) = (a, pmm)" by (cases "pmm_alloc_page (vm_pmm ?v)")
  show ?thesis
  proof (cases "a = 0")
    case True
    have "pmm = vm_pmm ?v" using alloc_null [OF inv] al True by simp
    then show ?thesis using r al True H by (simp add: heap_commit_page_def)
  next
    case False
    obtain f where f: "pmm_inv pmm" "free_set pmm = free_set (vm_pmm ?v) - {f}"
      by (rule alloc_frame_address [OF inv al False])
    then have H1: "vm_hosts (?v\<lparr>vm_pmm := pmm\<rparr>) b" by (intro vm_hosts_pmm [OF H]) auto
    obtain c v where m: "page_table_map va a PAGE_WRITABLE (?v\<lparr>vm_pmm := pmm\<rparr>) = (c, v)"
      by (cases "page_table_map va a PAGE_WRITABLE (?v\<lparr>vm_pmm := pmm\<rparr>)")
    then show ?thesis
      using vm_hosts_map [OF H1 m] r al False
      by (auto simp: heap_commit_page_def Let_def page_table_map_page_def split: if_splits)
  qed
qed

lemma block_ops_mm [simp]:
  "hp_mm (upd_block p f h) = hp_mm h" "hp_mm (merge_with_next p h) = hp_mm h" "hp_mm (split_block p sz h) = hp_mm h"
  by (simp_all add: upd_block_def merge_with_next_def split_block_def Let_def)

lemma coalesce_mm: "coalesce_loop c h = Some h' \<Longrightarrow> hp_mm h' = hp_mm h"
  by (erule coalesce_loop.raw_induct [rotated, where P = "\<lambda>c h h'. hp_mm h' = hp_mm h"]) (auto split: if_splits)

lemma heap_expand_hosts:
  assumes H: "heap_hosts h b" and r: "heap_expand h = Some (ok, h')"
  shows "heap_hosts h' b"
proof (cases "heap_vma h")
  case (Some i)
  obtain v h1 where c: "heap_commit_page (heap_next_commit_address h) h = (v, h1)"
    by (cases "heap_commit_page (heap_next_commit_address h) h")
  have "heap_hosts h1 b" by (rule heap_commit_hosts [OF H c])
  moreover have "mm_vm (hp_mm h') = mm_vm (hp_mm h1)"
    using r Some c by (auto simp: heap_expand_def Let_def heap_create_block_def bind_eq_Some_conv split: if_splits)
  ultimately show ?thesis by simp
qed (use assms in \<open>simp add: heap_expand_def\<close>)

lemma heap_grow_hosts:
  "heap_grow n h = Some y \<Longrightarrow> heap_hosts h b \<longrightarrow> heap_hosts (snd y) b"
proof (erule heap_grow.raw_induct [rotated, where P = "\<lambda>n h y. heap_hosts h b \<longrightarrow> heap_hosts (snd y) b"])
  fix f n h y
  assume IH: "\<And>n h y. f n h = Some y \<Longrightarrow> heap_hosts h b \<longrightarrow> heap_hosts (snd y) b"
    and step: "(if heap_committed_size h < n
      then do { (ok, h) \<leftarrow> heap_expand h; if \<not> ok then Some (False, h) else f n h }
      else Some (True, h)) = Some y"
  show "heap_hosts h b \<longrightarrow> heap_hosts (snd y) b"
  proof (cases "heap_expand h")
    case (Some r)
    then obtain ok h1 where "heap_expand h = Some (ok, h1)" by (cases r) simp
    then show ?thesis using step IH [of n h1 y] heap_expand_hosts [of h b ok h1] by (auto split: if_splits)
  qed (use step in \<open>auto split: if_splits\<close>)
qed

lemma kmalloc_loop_hosts:
  "kmalloc_loop n h = Some y \<Longrightarrow> heap_hosts h b \<longrightarrow> heap_hosts (snd y) b"
proof (erule kmalloc_loop.raw_induct [rotated, where P = "\<lambda>n h y. heap_hosts h b \<longrightarrow> heap_hosts (snd y) b"])
  fix f n h y
  assume IH: "\<And>n h y. f n h = Some y \<Longrightarrow> heap_hosts h b \<longrightarrow> heap_hosts (snd y) b"
    and step: "do {
     h \<leftarrow> coalesce_free_blocks h;
     block \<leftarrow> find_free_block n h;
     if block \<noteq> 0 then
       let h = split_block block n h;
           h = upd_block block (\<lambda>b. b\<lparr>blk_free := False\<rparr>) h
       in Some (block + sizeof_heap_block, h)
     else do {
       (ok, h) \<leftarrow> heap_grow (heap_committed_size h + HEAP_GROW_SIZE) h;
       if \<not> ok then Some (0, h) else f n h
     }
   } = Some y"
  show "heap_hosts h b \<longrightarrow> heap_hosts (snd y) b"
  proof
    assume H: "heap_hosts h b"
    obtain h1 block where h1: "coalesce_free_blocks h = Some h1" and f: "find_free_block n h1 = Some block"
      using step by (auto simp: bind_eq_Some_conv)
    have H1: "heap_hosts h1 b" using coalesce_mm [of "heap_head h" h h1] h1 H by (simp add: coalesce_free_blocks_def)
    show "heap_hosts (snd y) b"
    proof (cases "block = 0")
      case True
      then obtain ok h2 where g: "heap_grow (heap_committed_size h1 + HEAP_GROW_SIZE) h1 = Some (ok, h2)"
        and y: "(if \<not> ok then Some (0, h2) else f n h2) = Some y"
        using step h1 f by (auto simp: bind_eq_Some_conv)
      have "heap_hosts h2 b" using heap_grow_hosts [OF g] H1 by simp
      then show ?thesis using y IH [of n h2 y] by (auto split: if_splits)
    next
      case False
      then show ?thesis using step h1 f H1 by (auto simp: Let_def)
    qed
  qed
qed

text \<open>An allocation of the kernel keeps the address space of a process well-formed, even when the heap grows.\<close>

lemma kmalloc_hosts:
  assumes "heap_hosts h b" "kmalloc n h = Some (p, h')" shows "heap_hosts h' b"
  using assms kmalloc_loop_hosts [of "align_size n" h "(p, h')" b] by (auto simp: kmalloc_def split: if_splits)

section \<open>A new address space\<close>

text \<open>The table that \<open>page_table_create\<close> returns shares all lower tables of the kernel.\<close>

lemma descend_one:
  assumes "i < 512"
  shows "descend s r [i] = (if links (pte s r [i])
    then Some (page_table_physical_to_virtual s (pte s r [i] AND PAGE_TABLE_ADDRESS_MASK)) else None)"
  using assms pte_snoc [of s r "[]" i] by (simp add: Let_def)

lemma page_table_create_hosts:
  assumes ok: "vm_inv s" and K: "page_table_active_root s = kernel_pml4 s"
    and r: "page_table_create s = (root, phys, s')" and nz: "root \<noteq> 0"
  shows "vm_hosts s' root"
proof -
  let ?K = "kernel_pml4 s"
  have okK: "vm_ok s ?K" using ok K by simp
  have inv: "pmm_inv (vm_pmm s)" using ok by (simp add: vm_ok_def)
  obtain a pmm where al: "pmm_alloc_page (vm_pmm s) = (a, pmm)" by (cases "pmm_alloc_page (vm_pmm s)")
  have a: "a \<noteq> 0" using r nz al by (auto simp: page_table_create_def Let_def)
  obtain f where f: "f \<in> free_set (vm_pmm s)" "unat f < 1048576" "a = f * PMM_PAGE_SIZE" "pmm_inv pmm"
    "free_set pmm = free_set (vm_pmm s) - {f}" by (rule alloc_frame_address [OF inv al a])
  have root: "root = f * PMM_PAGE_SIZE + hhdm_offset s" and s': "s' = with_copied_root f pmm s"
    using r nz al a f(3) vm_ok_table(1) [OF okK, of "[]"]
    by (auto simp: page_table_create_def Let_def page_table_physical_to_virtual_def with_copied_root_def split: if_splits)
  note c = copied_root [OF okK f(1,2,4,5) nz root s']
  have off: "hhdm_offset s' = hhdm_offset s" "vm_pmm s' = pmm" by (simp_all add: s' with_copied_root_def Let_def)
  have act: "page_table_active_root s' = ?K"
    using vm_ok_table(1) [OF okK, of "[]"] by (simp add: s' with_copied_root_def Let_def page_table_active_root_def page_table_current_root_def
        page_table_physical_to_virtual_def)
  have frame: "table_frame s root = f" unfolding root by (rule table_frame_new [OF f(2)])
  have "descend s' ?K p \<noteq> Some root" if p: "table_path p" for p
  proof
    assume "descend s' ?K p = Some root"
    then have "descend s ?K p = Some root" using descend_extends [of s' ?K s p root] c(1) off(1) p by simp
    from vm_ok_table(3) [OF okK p this] show False using frame f(1) by simp
  qed
  then have "data_page s' ?K root"
    using c(4) frame f(5) off by (simp add: data_page_def vm_ok_def table_frame_def)
  moreover have "descend s' root [i] = descend s' ?K [i]" if "i < 512" for i
    using that c(1,2) by (simp only: descend_one)
  ultimately show ?thesis using c(3,4) act by (simp add: vm_hosts_def shares_tables_def)
qed

end
