(* ===== verification/Program_Load.thy ===== *)
theory Program_Load
  imports User_Memory Elf_Image Shared_Space
begin

text \<open>
  Executing a program: \<open>process_exec\<close> composes the ELF loader, which copies the file into a kernel buffer,
  with the mapping of its segments into the address space of the process. The address space of the process
  may share tables with the active one, in which the kernel heap grows while the image is allocated.
\<close>

section \<open>Several segments\<close>

definition pages_apart :: "elf64_program_header \<Rightarrow> elf64_program_header \<Rightarrow> bool" where
  "pages_apart a b \<longleftrightarrow> (\<forall>i < p_memsz a. \<forall>j < p_memsz b. \<not> same_page (p_vaddr a + i) (p_vaddr b + j))"

definition pages_loaded :: "u64 \<Rightarrow> u64 \<Rightarrow> byte_mem \<Rightarrow> vm_state \<Rightarrow> elf64_program_header \<Rightarrow> bool" where
  "pages_loaded root elf_base source s ph \<longleftrightarrow> (\<forall>i < segment_pages ph. page_loaded root ph elf_base source i s)"

lemma page_start:
  assumes "user_segment ph" "i < segment_pages ph" shows "i * PAGE_SIZE < p_memsz ph"
  using seg_page_unat(1,2) [OF assms] by (simp add: word_less_nat_alt)

lemma pages_loaded_kept:
  assumes k: "keeps_space root s s'" and l: "pages_loaded root elf_base source s ph" and ph: "user_segment ph"
    and r: "\<And>va j. j < p_memsz ph \<Longrightarrow> same_page va (p_vaddr ph + j) \<Longrightarrow> resolve (pte s' root) va = resolve (pte s root) va"
  shows "pages_loaded root elf_base source s' ph"
  unfolding pages_loaded_def
proof (intro allI impI)
  fix i assume i: "i < segment_pages ph"
  then have "page_loaded root ph elf_base source i s" using l by (simp add: pages_loaded_def)
  then show "page_loaded root ph elf_base source i s'"
    by (rule page_loaded_kept [OF k]) (rule r [OF page_start [OF ph i]])
qed

lemma map_segments_effect:
  assumes "vm_ok (k_vm k) root" and "proc_page_table (proc_of k p) = root" and "p \<noteq> 0" "elf_base \<noteq> 0"
    and "\<And>ph. ph \<in> set phs \<Longrightarrow> user_segment ph" and "sorted_wrt pages_apart phs"
    and "map_segments p elf_base phs k = (rc, k')"
  shows "\<exists>s'. k' = upd_vm s' k \<and> keeps_space root (k_vm k) s' \<and> rc \<in> {KERNEL_SUCCESS, KERNEL_ENOMEM} \<and>
     (\<forall>va. (\<forall>ph \<in> set phs. \<forall>j < p_memsz ph. \<not> same_page va (p_vaddr ph + j)) \<longrightarrow>
        resolve (pte s' root) va = resolve (pte (k_vm k) root) va) \<and>
     (rc = KERNEL_SUCCESS \<longrightarrow> (\<forall>ph \<in> set phs. pages_loaded root elf_base (hp_mem (k_heap k)) s' ph))"
  using assms
proof (induction phs arbitrary: k)
  case Nil
  then show ?case using keeps_data_refl
    by (intro exI [of _ "k_vm k"]) (simp add: keeps_space_def same_regs_def)
next
  case (Cons ph phs)
  note ok = Cons.prems(1) and root = Cons.prems(2)
  have seg: "user_segment ph" using Cons.prems(5) by simp
  obtain rc1 k1 where m: "process_map_segment p ph elf_base k = (rc1, k1)" by (cases "process_map_segment p ph elf_base k")
  obtain s1 where s1: "k1 = upd_vm s1 k" "keeps_space root (k_vm k) s1"
    "\<forall>va. (\<forall>j < p_memsz ph. \<not> same_page va (p_vaddr ph + j)) \<longrightarrow> resolve (pte s1 root) va = resolve (pte (k_vm k) root) va"
    and post: "if rc1 = KERNEL_SUCCESS then \<forall>i < segment_pages ph. page_loaded root ph elf_base (hp_mem (k_heap k)) i s1
      else rc1 = KERNEL_ENOMEM \<and> ((\<exists>j < p_memsz ph. blocked (pte (k_vm k) root) (p_vaddr ph + j)) \<or>
             card (free_set (vm_pmm (k_vm k))) < 4 * unat (segment_pages ph) \<or> null_frame (k_vm k))"
    using process_map_segment_effect [OF ok root Cons.prems(3,4) seg m] by blast
  show ?case
  proof (cases "rc1 = KERNEL_SUCCESS")
    case False
    then have "rc = KERNEL_ENOMEM" "k' = k1" using Cons.prems(7) m post by auto
    then show ?thesis using s1 by (intro exI [of _ s1]) (auto simp: errno_defs)
  next
    case True
    have loaded: "pages_loaded root elf_base (hp_mem (k_heap k)) s1 ph" using post True by (simp add: pages_loaded_def)
    have ok1: "vm_ok (k_vm k1) root" using s1(1,2) by (simp add: keeps_space_def)
    have k1: "k_vm k1 = s1" "hp_mem (k_heap k1) = hp_mem (k_heap k)" "proc_page_table (proc_of k1 p) = root"
      using root by (simp_all add: s1(1))
    have rest: "map_segments p elf_base phs k1 = (rc, k')" using Cons.prems(7) m True by simp
    have xs: "\<And>ph. ph \<in> set phs \<Longrightarrow> user_segment ph" "sorted_wrt pages_apart phs" using Cons.prems(5,6) by simp_all
    obtain s' where s': "k' = upd_vm s' k1" "keeps_space root s1 s'" "rc \<in> {KERNEL_SUCCESS, KERNEL_ENOMEM}"
      "\<forall>va. (\<forall>ph \<in> set phs. \<forall>j < p_memsz ph. \<not> same_page va (p_vaddr ph + j)) \<longrightarrow>
         resolve (pte s' root) va = resolve (pte s1 root) va"
      "rc = KERNEL_SUCCESS \<longrightarrow> (\<forall>ph \<in> set phs. pages_loaded root elf_base (hp_mem (k_heap k)) s' ph)"
      using Cons.IH [OF ok1 k1(3) Cons.prems(3,4) xs rest] unfolding k1(1,2) by blast
    have "pages_loaded root elf_base (hp_mem (k_heap k)) s' ph"
    proof (rule pages_loaded_kept [OF s'(2) loaded seg])
      fix va j assume j: "j < p_memsz ph" "same_page va (p_vaddr ph + j)"
      have "\<not> same_page va (p_vaddr q + i)" if "q \<in> set phs" "i < p_memsz q" for q i
        using Cons.prems(6) that j unfolding pages_apart_def same_page_def by fastforce
      then show "resolve (pte s' root) va = resolve (pte s1 root) va" using s'(4) by blast
    qed
    moreover have "keeps_space root (k_vm k) s'" by (rule keeps_space_trans [OF s1(2) s'(2)])
    ultimately show ?thesis using s'(1,3,4,5) s1(1,3) by (intro exI [of _ s']) auto
  qed
qed

section \<open>Executing a file\<close>

lemma file_segments_agree:
  assumes f: "elf_file m src len" and a: "agree m m' src len"
  shows "load_segments m' src = load_segments m src"
proof -
  note h = file_headers [OF f a]
  let ?xs = "map (\<lambda>i. elf_program_header m src (of_nat i)) [0..<unat (e_phnum (elf_header_at m src))]"
  have hd: "program_header_at m' x = program_header_at m x" if "x \<in> set ?xs" for x using h(3) that by auto
  have "filter (\<lambda>ph. ph \<noteq> 0 \<and> p_type (program_header_at m' ph) = PT_LOAD) ?xs =
      filter (\<lambda>ph. ph \<noteq> 0 \<and> p_type (program_header_at m ph) = PT_LOAD) ?xs"
    by (rule filter_cong [OF refl]) (simp add: hd)
  moreover have "map (program_header_at m') (filter P ?xs) = map (program_header_at m) (filter P ?xs)" for P
    by (rule map_cong [OF refl]) (use hd in auto)
  ultimately show ?thesis unfolding load_segments_def h(1,2) by (simp only:)
qed

lemma loaded_from_file:
  assumes ok: "seg_ok len ph" and a: "agree m m' src len" and l: "segment_loaded root ph src m' s"
  shows "segment_loaded root ph src m s"
proof -
  have "m' (src + p_offset ph + j) = m (src + p_offset ph + j)" if "j < p_filesz ph" for j
  proof -
    have "unat (p_offset ph + j) < unat len"
      using ok that unat_lt_2p64 [of len] by (subst unat_plus_no_wrap) (simp_all add: seg_ok_def word_less_nat_alt)
    then have "p_offset ph + j < len" by (simp add: word_less_nat_alt)
    then show ?thesis using agree_byte [OF a] by (simp add: add.assoc)
  qed
  then show ?thesis using l by (simp add: segment_loaded_def)
qed

lemma k_vm_set_heap [simp]: "k_vm (set_heap h k) = mm_vm (hp_mm h)" "k_heap (set_heap h k) = h"
  "sc_procs (k_sched (set_heap h k)) = sc_procs (k_sched k)"
  by (simp_all add: k_vm_def set_heap_def k_heap_def sc_vm_def)

lemma k_vm_upd_proc [simp]: "k_vm (upd_proc p f k) = k_vm k" "k_heap (upd_proc p f k) = k_heap k"
  "proc_of (upd_proc p f k) q = (if q = p then f (proc_of k p) else proc_of k q)"
  by (simp_all add: upd_proc_def k_vm_def k_heap_def sc_vm_def set_proc_def)

lemma page_walk_unchanged:
  assumes "vm_ok s root" shows "page_walk root va False s = (fst (walk_spec s root va), s)"
  by (simp add: page_walk_def page_walk_read [OF assms] split: prod.split)

text \<open>The register state of a process ready to enter user mode.\<close>

definition ready_for_user :: "u64 \<Rightarrow> process \<Rightarrow> bool" where
  "ready_for_user entry r \<longleftrightarrow> proc_is_user_process r \<and> proc_user_rip r = entry \<and>
     proc_user_rsp r = proc_user_stack_top r - 8 \<and> proc_user_rflags r = 0x202"

text \<open>What \<open>process_exec\<close> does once the image is loaded: the segments are mapped and the registers prepared.\<close>

lemma exec_loaded_image:
  assumes p: "p \<noteq> 0" and src: "src \<noteq> 0"
    and f: "elf_file (hp_mem (k_heap k)) src len"
    and segs: "\<forall>ph \<in> set (load_segments (hp_mem (k_heap k)) src). aligned 4096 (p_vaddr ph)"
      "sorted_wrt pages_apart (load_segments (hp_mem (k_heap k)) src)"
    and load: "elf_load_image src (k_heap k) = Some (KERNEL_SUCCESS, img, h)"
    and en: "img_entry img = e_entry (elf_header_at (hp_mem (k_heap k)) src)" and a: "agree (hp_mem (k_heap k)) (hp_mem h) src len"
    and ok: "vm_ok (mm_vm (hp_mm h)) root" "proc_page_table (proc_of k p) = root"
  shows "\<exists>rc k'. process_exec p src k = Some (rc, k') \<and> vm_ok (k_vm k') root \<and>
     (\<forall>q. q \<noteq> p \<longrightarrow> proc_of k' q = proc_of k q) \<and>
     (if rc = KERNEL_SUCCESS
      then ready_for_user (e_entry (elf_header_at (hp_mem (k_heap k)) src)) (proc_of k' p) \<and>
        (\<forall>ph \<in> set (load_segments (hp_mem (k_heap k)) src). segment_loaded root ph src (hp_mem (k_heap k)) (k_vm k'))
      else rc \<in> {KERNEL_ENOMEM, KERNEL_EINVAL} \<and> proc_is_user_process (proc_of k' p) = proc_is_user_process (proc_of k p))"
proof -
  let ?m = "hp_mem (k_heap k)" and ?k = "set_heap h k" and ?segs = "load_segments (hp_mem (k_heap k)) src"
  have sg: "load_segments (hp_mem (k_heap ?k)) src = ?segs" by (simp add: file_segments_agree [OF f a])
  have us: "user_segment ph" "seg_ok len ph" if "ph \<in> set ?segs" for ph
    using f segs(1) that by (simp_all add: elf_file_def user_segment_def seg_ok_def)
  obtain rc k1 where m: "map_segments p src ?segs ?k = (rc, k1)" by (cases "map_segments p src ?segs ?k")
  have okk: "vm_ok (k_vm ?k) root" "proc_page_table (proc_of ?k p) = root" using ok by simp_all
  obtain s' where s': "k1 = upd_vm s' ?k" "keeps_space root (k_vm ?k) s'" "rc \<in> {KERNEL_SUCCESS, KERNEL_ENOMEM}"
    and l: "rc = KERNEL_SUCCESS \<longrightarrow> (\<forall>ph \<in> set ?segs. pages_loaded root src (hp_mem h) s' ph)"
    using map_segments_effect [OF okk p src us(1) segs(2) m] by auto
  have ok': "vm_ok s' root" using s'(2) by (simp add: keeps_space_def)
  show ?thesis
  proof (cases "rc = KERNEL_SUCCESS")
    case False
    then have "process_exec p src k = Some (KERNEL_ENOMEM, k1)"
      using p src load m s'(3) sg by (simp add: process_exec_def)
    then show ?thesis using s'(1) ok' by (simp add: errno_defs)
  next
    case rc: True
    have seg: "segment_loaded root ph src ?m s'" if "ph \<in> set ?segs" for ph
      using loaded_from_file [OF us(2) [OF that] a pages_loaded_segment [OF us(1) [OF that]]] l rc that
      by (simp add: pages_loaded_def)
    define k2 where "k2 = upd_proc p (\<lambda>r. r\<lparr>proc_image := img, proc_user_rip := img_entry img\<rparr>) k1"
    have k2: "k_vm k2 = s'" "proc_page_table (proc_of k2 p) = root" "upd_vm s' k2 = k2"
      using ok(2) by (simp_all add: k2_def s'(1)) (simp add: upd_proc_def upd_vm_def set_vm_def set_proc_def)
    have "process_exec p src k = Some (if fst (walk_spec s' root (img_entry img)) = 0 then (KERNEL_EINVAL, k2)
        else (KERNEL_SUCCESS, upd_proc p (\<lambda>r. r\<lparr>proc_user_rsp := proc_user_stack_top r - 8,
                proc_user_rflags := 0x202, proc_is_user_process := True\<rparr>) k2))"
      using p src load m rc sg k2 page_walk_unchanged [OF ok']
      by (simp add: process_exec_def Let_def flip: k2_def) (simp add: k2_def)
    then show ?thesis
      using seg ok' k2(1) s'(1) en by (auto simp: errno_defs ready_for_user_def k2_def)
  qed
qed

text \<open>
  C28. \<open>process_exec\<close> on a well-formed executable in a block of the kernel heap whose segments are page
  aligned and share no page: it returns; on success every loadable segment of the file is in the memory
  of the process, readable from user mode byte for byte and zero beyond its file size, and the process
  will start at the entry point of the file with its stack pointer below the top of its stack and
  interrupts enabled. Otherwise the result is an error code and the process is not made a user process.
  The address space of the process is, when \<open>process_exec\<close> is entered, the active one or one beside it in the
  sense of \<open>vm_hosts\<close>: its top-level table is not a table of the active space, and each of its top-level entries leads to
  the table the active space has there or to tables of its own, as for a space that \<open>page_table_create\<close> has made
  from the kernel's. Its tables are well-formed afterwards, although the heap may have grown in the active space
  to hold the image, and no other process is changed.
\<close>

theorem process_exec_loads_program:
  assumes p: "p \<noteq> 0" and live: "heap_live (k_heap k) L" "(src, n) \<in> L" "len \<le> n"
    and f: "elf_file (hp_mem (k_heap k)) src len"
    and segs: "\<forall>ph \<in> set (load_segments (hp_mem (k_heap k)) src). aligned 4096 (p_vaddr ph)"
      "sorted_wrt pages_apart (load_segments (hp_mem (k_heap k)) src)"
    and hosts: "vm_hosts (k_vm k) root" and root: "proc_page_table (proc_of k p) = root"
  shows "\<exists>rc k'. process_exec p src k = Some (rc, k') \<and> vm_ok (k_vm k') root \<and>
     (\<forall>q. q \<noteq> p \<longrightarrow> proc_of k' q = proc_of k q) \<and>
     (if rc = KERNEL_SUCCESS
      then ready_for_user (e_entry (elf_header_at (hp_mem (k_heap k)) src)) (proc_of k' p) \<and>
        (\<forall>ph \<in> set (load_segments (hp_mem (k_heap k)) src). segment_loaded root ph src (hp_mem (k_heap k)) (k_vm k'))
      else rc \<in> {KERNEL_ENOMEM, KERNEL_EINVAL} \<and> proc_is_user_process (proc_of k' p) = proc_is_user_process (proc_of k p))"
proof -
  let ?m = "hp_mem (k_heap k)"
  have src: "src \<noteq> 0" by (rule heap_live_region(2) [OF live(1,2)])
  obtain base h1 m' img where al: "kmalloc (image_size ?m src) (k_heap k) = Some (base, h1)"
    and load: "elf_load_image src (k_heap k) = Some (if base = 0 then KERNEL_ENOMEM else KERNEL_SUCCESS, img, h1\<lparr>hp_mem := m'\<rparr>)"
    and en: "img_entry img = e_entry (elf_header_at ?m src)" and a: "agree ?m m' src len"
    using elf_load_image_effect [OF live f] by fastforce
  have "vm_hosts (mm_vm (hp_mm h1)) root"
    using kmalloc_hosts [OF _ al] hosts by (simp add: k_vm_def k_heap_def sc_vm_def)
  then have ok: "vm_ok (mm_vm (hp_mm (h1\<lparr>hp_mem := m'\<rparr>))) root" using vm_hosts_ok by simp
  have a': "agree ?m (hp_mem (h1\<lparr>hp_mem := m'\<rparr>)) src len" using a by simp
  show ?thesis
  proof (cases "base = 0")
    case True
    then have "process_exec p src k = Some (KERNEL_ENOMEM, set_heap (h1\<lparr>hp_mem := m'\<rparr>) k)"
      using p src load by (simp add: process_exec_def errno_defs)
    then show ?thesis using ok by (simp add: errno_defs)
  next
    case False
    then have "elf_load_image src (k_heap k) = Some (KERNEL_SUCCESS, img, h1\<lparr>hp_mem := m'\<rparr>)" using load by simp
    from exec_loaded_image [OF p src f segs this en a' ok root] show ?thesis .
  qed
qed

text \<open>The sample executable, run in the active address space.\<close>

definition sample_exec_root :: u64 where
  "sample_exec_root = page_table_active_root (mm_vm (hp_mm sample_elf_heap))"

definition sample_exec_kernel :: kernel where
  "sample_exec_kernel = sample_kernel\<lparr>k_sched := sample_sched\<lparr>sc_heap := sample_elf_heap,
     sc_procs := (\<lambda>_. process_zero\<lparr>proc_page_table := sample_exec_root\<rparr>)\<rparr>\<rparr>"

lemma sample_exec_hosts: "vm_hosts (k_vm sample_exec_kernel) sample_exec_root"
proof -
  obtain n where "heap_live sample_elf_heap {(sample_block, n)}" using sample_elf_live by blast
  then have "vm_inv (mm_vm (hp_mm sample_elf_heap))" by (auto simp: heap_live_def heap_ok_def)
  then show ?thesis by (simp add: vm_hosts_def sample_exec_root_def sample_exec_kernel_def k_vm_def sc_vm_def)
qed

theorem process_exec_loads_program_witness:
  "\<exists>rc k'. process_exec 0x700 sample_block sample_exec_kernel = Some (rc, k') \<and>
     (if rc = KERNEL_SUCCESS
      then proc_user_rip (proc_of k' 0x700) = 0x400000 \<and> user_byte (k_vm k') sample_exec_root 0x400001 = Some 0xFE \<and>
           user_byte (k_vm k') sample_exec_root 0x40000A = Some 0
      else rc \<in> {KERNEL_ENOMEM, KERNEL_EINVAL})"
proof -
  obtain n where n: "128 \<le> n" "heap_live sample_elf_heap {(sample_block, n)}" using sample_elf_live by blast
  have mem: "hp_mem sample_elf_heap = sample_elf_mem" by (simp add: sample_elf_heap_def)
  have kh: "k_heap sample_exec_kernel = sample_elf_heap" by (simp add: k_heap_def sample_exec_kernel_def)
  have al: "\<forall>ph \<in> set (load_segments sample_elf_mem sample_block). aligned 4096 (p_vaddr ph)"
    "sorted_wrt pages_apart (load_segments sample_elf_mem sample_block)"
    by (simp_all add: sample_load_segments sample_elf_segment aligned_def)
  have root: "proc_page_table (proc_of sample_exec_kernel 0x700) = sample_exec_root" by (simp add: sample_exec_kernel_def)
  have seg: "program_header_at sample_elf_mem (sample_block + 64) \<in> set (load_segments sample_elf_mem sample_block)"
    by (simp add: sample_load_segments)
  have byte: "sample_elf_mem (sample_block + 120 + 1) = 0xFE" by code_simp
  have nz: "(0x700 :: u64) \<noteq> 0" by simp
  obtain rc k' where r: "process_exec 0x700 sample_block sample_exec_kernel = Some (rc, k')"
    and c: "if rc = KERNEL_SUCCESS
      then ready_for_user (e_entry (elf_header_at sample_elf_mem sample_block)) (proc_of k' 0x700) \<and>
        (\<forall>ph \<in> set (load_segments sample_elf_mem sample_block). segment_loaded sample_exec_root ph sample_block sample_elf_mem (k_vm k'))
      else rc \<in> {KERNEL_ENOMEM, KERNEL_EINVAL} \<and>
        proc_is_user_process (proc_of k' 0x700) = proc_is_user_process (proc_of sample_exec_kernel 0x700)"
    using process_exec_loads_program [OF nz, of sample_exec_kernel, unfolded kh mem, OF n(2) insertI1 n(1) sample_elf_file al sample_exec_hosts root]
    by blast
  have "proc_user_rip (proc_of k' 0x700) = 0x400000 \<and> user_byte (k_vm k') sample_exec_root 0x400001 = Some 0xFE \<and>
      user_byte (k_vm k') sample_exec_root 0x40000A = Some 0" if s: "rc = KERNEL_SUCCESS"
  proof -
    have "segment_loaded sample_exec_root (program_header_at sample_elf_mem (sample_block + 64)) sample_block sample_elf_mem (k_vm k')"
      "ready_for_user 0x400000 (proc_of k' 0x700)" using c s seg by (auto simp: sample_elf_header)
    then have l: "j < 16 \<longrightarrow> user_byte (k_vm k') sample_exec_root (0x400000 + j) =
        Some (if j < 8 then sample_elf_mem (sample_block + 120 + j) else 0)" and u: "ready_for_user 0x400000 (proc_of k' 0x700)" for j
      unfolding segment_loaded_def sample_elf_segment by simp_all
    show ?thesis using l [of 1] l [of 10] byte u by (simp add: ready_for_user_def)
  qed
  then show ?thesis using r c by (intro exI [of _ rc] exI [of _ k']) (simp split: if_splits)
qed

end
