(* ===== verification/Process_List.thy ===== *)
theory Process_List
  imports Process Scheduling
begin

text \<open>
  The list of processes of \<open>process.c\<close>: \<open>process_chain\<close> relates the chain of \<open>next\<close> fields with the list of
  its processes. Lookup walks it to the end, destruction unlinks exactly one process, and creation puts a
  new process in front of it.
\<close>

section \<open>The chain\<close>

primrec process_chain :: "process_store \<Rightarrow> u64 \<Rightarrow> u64 list \<Rightarrow> bool" where
  "process_chain ps p [] \<longleftrightarrow> p = 0"
| "process_chain ps p (x # xs) \<longleftrightarrow> p = x \<and> x \<noteq> 0 \<and> process_chain ps (proc_next (ps x)) xs"

definition processes :: "kernel \<Rightarrow> u64 list \<Rightarrow> bool" where
  "processes k xs \<longleftrightarrow> distinct xs \<and> process_chain (sc_procs (k_sched k)) (process_list k) xs"

definition first_or_null :: "u64 list \<Rightarrow> u64" where
  "first_or_null xs = (case xs of [] \<Rightarrow> 0 | x # _ \<Rightarrow> x)"

lemma process_chain_nonzero: "process_chain ps p xs \<Longrightarrow> 0 \<notin> set xs"
  by (induction xs arbitrary: p) auto

lemma process_chain_head: "process_chain ps p xs \<Longrightarrow> p = first_or_null xs"
  by (cases xs) (simp_all add: first_or_null_def)

lemma process_chain_cong:
  "process_chain ps p xs \<Longrightarrow> (\<And>x. x \<in> set xs \<Longrightarrow> proc_next (ps' x) = proc_next (ps x)) \<Longrightarrow> process_chain ps' p xs"
  by (induction xs arbitrary: p) auto


section \<open>Lookup\<close>

lemma process_lookup_loop_chain:
  "process_chain ps p xs \<Longrightarrow>
   process_lookup_loop ps pid p = Some (first_or_null (filter (\<lambda>x. proc_pid (ps x) = pid) xs))"
  by (induction xs arbitrary: p) (subst process_lookup_loop.simps; auto simp: first_or_null_def)+

section \<open>Removal\<close>

lemma process_predecessor_chain:
  assumes "process_chain ps c xs" "c \<noteq> p" "distinct xs" "p \<noteq> 0"
  shows "process_predecessor ps p c = Some (if p \<in> set xs then last (takeWhile (\<lambda>x. x \<noteq> p) xs) else 0)"
  using assms
proof (induction xs arbitrary: c)
  case Nil
  then show ?case by (simp add: process_predecessor.simps [of ps p 0])
next
  case (Cons x xs)
  show ?case
  proof (cases "proc_next (ps c) = p")
    case True
    then have "process_chain ps p xs" using Cons.prems(1) by simp
    then have "p \<in> set xs" "takeWhile (\<lambda>x. x \<noteq> p) xs = []" using Cons.prems(4) by (cases xs; simp)+
    then show ?thesis using Cons.prems True process_predecessor.simps [of ps p c] by auto
  next
    case False
    have "process_predecessor ps p c = process_predecessor ps p (proc_next (ps c))"
      using Cons.prems(1) False process_predecessor.simps [of ps p c] by auto
    also have "\<dots> = Some (if p \<in> set xs then last (takeWhile (\<lambda>x. x \<noteq> p) xs) else 0)"
      using Cons.prems False by (intro Cons.IH) auto
    also have "(if p \<in> set xs then last (takeWhile (\<lambda>x. x \<noteq> p) xs) else 0) =
        (if p \<in> set (x # xs) then last (takeWhile (\<lambda>x. x \<noteq> p) (x # xs)) else 0)"
    proof -
      have "takeWhile (\<lambda>x. x \<noteq> p) xs \<noteq> []" if "p \<in> set xs"
        using that False Cons.prems(1) by (cases xs) auto
      then show ?thesis using Cons.prems(1,2) by auto
    qed
    finally show ?thesis .
  qed
qed

lemma process_chain_unlink:
  assumes "process_chain ps h (ys @ y # p # zs)" "distinct (ys @ y # p # zs)"
  shows "process_chain (ps(y := (ps y)\<lparr>proc_next := proc_next (ps p)\<rparr>)) h (ys @ y # zs)"
  using assms
proof (induction ys arbitrary: h)
  case Nil
  then have "process_chain ps (proc_next (ps p)) zs" "y \<noteq> p" "y \<notin> set zs" by auto
  then show ?case using Nil by (auto intro: process_chain_cong)
qed auto

text \<open>Unlinking one process of the list.\<close>

lemma process_destroy_effect:
  assumes c: "processes k xs" and p: "p \<noteq> 0"
  shows "\<exists>k'. process_destroy p k = Some k' \<and> processes k' (remove1 p xs) \<and> k_heap k' = kfree p (k_heap k) \<and>
     (\<forall>q. proc_pid (proc_of k' q) = proc_pid (proc_of k q))"
proof -
  let ?ps = "sc_procs (k_sched k)"
  have ch: "process_chain ?ps (process_list k) xs" "distinct xs" using c by (simp_all add: processes_def)
  have eff: "\<exists>k'. process_destroy p k = Some k' \<and> processes k' (remove1 p xs) \<and> k_heap k' = kfree p (k_heap k) \<and>
      (\<forall>q. proc_pid (proc_of k' q) = proc_pid (proc_of k q))"
    if "process_destroy p k = Some (set_heap (kfree p (k_heap k1)) k1)" "processes k1 (remove1 p xs)" "k_heap k1 = k_heap k"
      "\<And>q. proc_pid (proc_of k1 q) = proc_pid (proc_of k q)" for k1
    using that by (intro exI [of _ "set_heap (kfree p (k_heap k1)) k1"]) (simp add: processes_def set_heap_def k_heap_def)
  show ?thesis
  proof (cases "process_list k = p")
    case True
    then obtain ys where xs: "xs = p # ys" using ch(1) p by (cases xs) auto
    let ?k1 = "k\<lparr>process_list := proc_next (proc_of k p)\<rparr>"
    show ?thesis
      by (rule eff [of ?k1]) (use True p ch xs in \<open>simp_all add: process_destroy_def processes_def k_heap_def\<close>)
  next
    case False
    note pre = process_predecessor_chain [OF ch(1) False ch(2) p]
    show ?thesis
    proof (cases "p \<in> set xs")
      case True
      then obtain us zs where xs: "xs = us @ p # zs" "p \<notin> set us" by (meson split_list_first)
      then have "us \<noteq> []" using ch(1) False by (cases us) auto
      then obtain ys y where us: "us = ys @ [y]" by (meson rev_exhaust)
      have "\<forall>x \<in> set us. x \<noteq> p" using xs(2) by auto
      then have tw: "takeWhile (\<lambda>x. x \<noteq> p) xs = us" by (simp add: xs(1))
      have y: "y \<noteq> 0" "y \<noteq> p" using process_chain_nonzero [OF ch(1)] xs us by auto
      let ?k1 = "upd_proc y (\<lambda>r. r\<lparr>proc_next := proc_next (proc_of k p)\<rparr>) k"
      have "process_predecessor ?ps p (process_list k) = Some y" using pre True tw us by simp
      then have run: "process_destroy p k = Some (set_heap (kfree p (k_heap ?k1)) ?k1)"
        using False p y by (simp add: process_destroy_def)
      have rm: "remove1 p xs = ys @ y # zs" using xs us by (simp add: remove1_append)
      have "process_chain ?ps (process_list k) (ys @ y # p # zs)" "distinct (ys @ y # p # zs)" using ch xs us by simp_all
      from process_chain_unlink [OF this] this(2) have "processes ?k1 (remove1 p xs)"
        by (simp add: processes_def rm upd_proc_def set_proc_def)
      then show ?thesis using run by (intro eff [of ?k1]) (simp_all add: upd_proc_def set_proc_def k_heap_def)
    next
      case notin: False
      then have "process_destroy p k = Some (set_heap (kfree p (k_heap k)) k)"
        using False p pre by (simp add: process_destroy_def)
      then show ?thesis using c notin by (intro eff [of k]) (simp_all add: remove1_idem)
    qed
  qed
qed

section \<open>Creation\<close>

text \<open>The variables of \<open>process.c\<close> and the scheduler's tasks are not touched by operations on memory.\<close>

definition same_list :: "kernel \<Rightarrow> kernel \<Rightarrow> bool" where
  "same_list k k' \<longleftrightarrow> process_list k' = process_list k \<and> next_pid k' = next_pid k \<and>
     sc_tasks (k_sched k') = sc_tasks (k_sched k)"

lemma same_list_trans: "same_list k k' \<Longrightarrow> same_list k' k'' \<Longrightarrow> same_list k k''"
  by (simp add: same_list_def)

lemma same_list_upd [simp]: "same_list k (upd_vm v k)" "same_list k (upd_proc p f k)" "same_list k (set_heap h k)"
  by (simp_all add: same_list_def upd_vm_def set_vm_def upd_proc_def set_proc_def set_heap_def)

lemma procs_upd [simp]:
  "sc_procs (k_sched (upd_vm v k)) = sc_procs (k_sched k)" "sc_procs (k_sched (set_heap h k)) = sc_procs (k_sched k)"
  "sc_procs (k_sched (upd_proc p f k)) = (sc_procs (k_sched k))(p := f (proc_of k p))"
  by (simp_all add: upd_vm_def set_vm_def upd_proc_def set_proc_def set_heap_def)

lemma map_fresh_page_frame:
  assumes "map_fresh_page root va w k = (page, k')"
  shows "sc_procs (k_sched k') = sc_procs (k_sched k) \<and> same_list k k'"
  using assms by (auto simp: map_fresh_page_def Let_def split: prod.splits if_splits)

lemma initial_stack_frame:
  assumes "process_map_initial_stack p k = (rc, k')"
  shows "sc_procs (k_sched k') = sc_procs (k_sched k)" "same_list k k'"
  using assms map_fresh_page_frame
  by (auto simp: process_map_initial_stack_def same_list_def split: prod.splits if_splits)

lemma heap_expand_frame:
  assumes "process_heap_expand p k = (KERNEL_SUCCESS, k')" "p \<noteq> 0"
  shows "sc_procs (k_sched k') = (sc_procs (k_sched k))(p := (proc_of k p)\<lparr>
      proc_user_heap_end := proc_user_heap_end (proc_of k p) + PAGE_SIZE,
      proc_user_heap_current := proc_user_heap_end (proc_of k p) + PAGE_SIZE\<rparr>)" "same_list k k'"
proof -
  obtain page k1 where m: "map_fresh_page (proc_page_table (proc_of k p)) (proc_user_heap_end (proc_of k p)) True k = (page, k1)"
    by (cases "map_fresh_page (proc_page_table (proc_of k p)) (proc_user_heap_end (proc_of k p)) True k")
  note f = map_fresh_page_frame [OF m]
  have "k' = upd_proc p (\<lambda>r. r\<lparr>proc_user_heap_end := proc_user_heap_end r + PAGE_SIZE,
      proc_user_heap_current := proc_user_heap_end r + PAGE_SIZE\<rparr>) k1"
    using assms m by (auto simp: process_heap_expand_def errno_defs split: if_splits)
  then show "sc_procs (k_sched k') = (sc_procs (k_sched k))(p := (proc_of k p)\<lparr>
      proc_user_heap_end := proc_user_heap_end (proc_of k p) + PAGE_SIZE,
      proc_user_heap_current := proc_user_heap_end (proc_of k p) + PAGE_SIZE\<rparr>)" "same_list k k'"
    using f same_list_trans [OF _ same_list_upd(2)] by auto
qed

lemma process_setup_space_effect:
  assumes r: "process_setup_space p k = (True, k')" and p: "p \<noteq> 0"
  shows "\<exists>pt phys. pt \<noteq> 0 \<and> same_list k k' \<and> sc_procs (k_sched k') = (sc_procs (k_sched k))(p := (proc_of k p)\<lparr>
       proc_page_table := pt, proc_page_table_physical := phys,
       proc_user_stack_top := USER_STACK_TOP, proc_user_stack_bottom := USER_STACK_TOP - USER_STACK_SIZE,
       proc_user_heap_start := USER_HEAP_BASE, proc_user_heap_end := USER_HEAP_BASE + PAGE_SIZE,
       proc_user_heap_current := USER_HEAP_BASE + PAGE_SIZE\<rparr>)"
proof -
  obtain pt physical v where c: "page_table_create (k_vm k) = (pt, physical, v)" by (cases "page_table_create (k_vm k)")
  define phys where "phys = (case physical of Some a \<Rightarrow> a | None \<Rightarrow> proc_page_table_physical (proc_of k p))"
  define k1 where "k1 = upd_proc p (\<lambda>r. r\<lparr>proc_page_table := pt,
      proc_page_table_physical := (case physical of Some a \<Rightarrow> a | None \<Rightarrow> proc_page_table_physical r)\<rparr>) (upd_vm v k)"
  define k2 where "k2 = upd_proc p (\<lambda>r. r\<lparr>proc_user_stack_top := USER_STACK_TOP,
      proc_user_stack_bottom := USER_STACK_TOP - USER_STACK_SIZE\<rparr>) k1"
  have pt: "pt \<noteq> 0" using r c by (auto simp: process_setup_space_def Let_def)
  obtain rc k3 where st: "process_map_initial_stack p k2 = (rc, k3)" by (cases "process_map_initial_stack p k2")
  define k4 where "k4 = upd_proc p (\<lambda>r. r\<lparr>proc_user_heap_start := USER_HEAP_BASE, proc_user_heap_end := USER_HEAP_BASE,
      proc_user_heap_current := USER_HEAP_BASE\<rparr>) k3"
  obtain rc' k5 where he: "process_heap_expand p k4 = (rc', k5)" by (cases "process_heap_expand p k4")
  have "rc = KERNEL_SUCCESS \<and> rc' = KERNEL_SUCCESS \<and> k' = k5"
    using r c pt st he by (simp add: process_setup_space_def Let_def flip: k1_def k2_def k4_def split: if_splits)
  then have rc: "process_heap_expand p k4 = (KERNEL_SUCCESS, k')" using he by simp
  have "same_list k k2" unfolding k2_def k1_def by (blast intro: same_list_trans same_list_upd)
  moreover have "same_list k3 k4" unfolding k4_def by simp
  ultimately have sl: "same_list k k'"
    using initial_stack_frame(2) [OF st] heap_expand_frame(2) [OF rc p] by (blast intro: same_list_trans)
  have "sc_procs (k_sched k') = (sc_procs (k_sched k))(p := (proc_of k p)\<lparr>
       proc_page_table := pt, proc_page_table_physical := phys,
       proc_user_stack_top := USER_STACK_TOP, proc_user_stack_bottom := USER_STACK_TOP - USER_STACK_SIZE,
       proc_user_heap_start := USER_HEAP_BASE, proc_user_heap_end := USER_HEAP_BASE + PAGE_SIZE,
       proc_user_heap_current := USER_HEAP_BASE + PAGE_SIZE\<rparr>)"
    unfolding heap_expand_frame(1) [OF rc p] k4_def procs_upd initial_stack_frame(1) [OF st] k2_def k1_def phys_def
    by simp
  then show ?thesis using pt sl by blast
qed

lemma scheduler_add_task_frame:
  assumes "scheduler_add_task t s = Some s'" "t \<noteq> 0"
  shows "sc_procs s' = sc_procs s" "same_but_next (upd_task t (\<lambda>k. k\<lparr>task_state := TASK_READY\<rparr>) (sc_tasks s)) (sc_tasks s')"
proof -
  obtain q ts where push: "task_queue_push (ready_queue s) t (upd_task t (\<lambda>k. k\<lparr>task_state := TASK_READY\<rparr>) (sc_tasks s)) = Some (q, ts)"
    and s': "s' = interrupt_restore (int_enabled s) (s\<lparr>int_enabled := False, ready_queue := q, sc_tasks := ts\<rparr>)"
    using assms by (auto simp: scheduler_add_task_def push_ready_def interrupt_save_def set_task_def bind_eq_Some_conv)
  have "same_but_next (upd_task t (\<lambda>k. k\<lparr>task_state := TASK_READY\<rparr>) (sc_tasks s)) ts"
    using push assms(2)
    by (auto simp: task_queue_push_def Let_def bind_eq_Some_conv split: if_splits
        intro: same_but_next_upd same_but_next_trans [OF same_but_next_upd same_but_next_upd])
  then show "sc_procs s' = sc_procs s" "same_but_next (upd_task t (\<lambda>k. k\<lparr>task_state := TASK_READY\<rparr>) (sc_tasks s)) (sc_tasks s')"
    by (simp_all add: s' interrupt_restore_def)
qed

lemma same_but_next_thread:
  assumes "same_but_next ts ts'"
  shows "task_process (ts' x) = task_process (ts x)" "task_state (ts' x) = task_state (ts x)" "task_entry (ts' x) = task_entry (ts x)"
proof -
  have e: "(ts' x)\<lparr>task_next := 0\<rparr> = (ts x)\<lparr>task_next := 0\<rparr>" using assms by (simp add: same_but_next_def)
  show "task_process (ts' x) = task_process (ts x)" "task_state (ts' x) = task_state (ts x)" "task_entry (ts' x) = task_entry (ts x)"
    using arg_cong [OF e, of task_process] arg_cong [OF e, of task_state] arg_cong [OF e, of task_entry] by simp_all
qed

lemma process_start_effect:
  assumes r: "process_start p name entry k = Some (p', k')" and p': "p' \<noteq> 0"
  shows "\<exists>t. p' = p \<and> t \<noteq> 0 \<and> process_list k' = p \<and> next_pid k' = next_pid k \<and>
     sc_procs (k_sched k') = (sc_procs (k_sched k))(p := (proc_of k p)\<lparr>proc_next := process_list k, proc_name := name,
       proc_main_thread := t, proc_thread_list := t\<rparr>) \<and>
     task_process (sc_tasks (k_sched k') t) = p \<and> task_state (sc_tasks (k_sched k') t) = TASK_READY \<and>
     task_entry (sc_tasks (k_sched k') t) = entry"
proof -
  define k1 where "k1 = upd_proc p (\<lambda>r. r\<lparr>proc_name := name\<rparr>) ((upd_proc p (\<lambda>r. r\<lparr>proc_next := process_list k\<rparr>) k)\<lparr>process_list := p\<rparr>)"
  have k1: "process_list k1 = p" "next_pid k1 = next_pid k"
    "sc_procs (k_sched k1) = (sc_procs (k_sched k))(p := (proc_of k p)\<lparr>proc_next := process_list k, proc_name := name\<rparr>)"
    by (simp_all add: k1_def upd_proc_def set_proc_def)
  obtain t s where c: "task_create entry (k_sched k1) = Some (t, s)"
    using r by (auto simp: process_start_def Let_def bind_eq_Some_conv simp flip: k1_def split: if_splits)
  define k2 where "k2 = upd_proc p (\<lambda>r. r\<lparr>proc_main_thread := t, proc_thread_list := t\<rparr>)
      (k1\<lparr>k_sched := set_task t (\<lambda>q. q\<lparr>task_process := p\<rparr>) s\<rparr>)"
  have t: "t \<noteq> 0"
    using r c p' by (auto simp: process_start_def Let_def simp flip: k1_def split: if_splits)
  obtain s' where a: "scheduler_add_task t (k_sched k2) = Some s'" "p' = p" "k' = k2\<lparr>k_sched := s'\<rparr>"
    using r c t by (auto simp: process_start_def Let_def bind_eq_Some_conv k2_def simp flip: k1_def split: if_splits)
  obtain h u where s: "task_entry u = entry" "s = (k_sched k1)\<lparr>sc_heap := h, next_task_id := next_task_id (k_sched k1) + 1,
      sc_tasks := (sc_tasks (k_sched k1))(t := u)\<rparr>"
    using c t by (cases rule: task_create_effect) auto
  note f = scheduler_add_task_frame [OF a(1) t]
  note th = same_but_next_thread [OF f(2), of t]
  have "sc_tasks (k_sched k2) t = u\<lparr>task_process := p\<rparr>" by (simp add: k2_def upd_proc_def set_proc_def set_task_def upd_task_def s(2))
  then have "task_process (sc_tasks s' t) = p" "task_state (sc_tasks s' t) = TASK_READY" "task_entry (sc_tasks s' t) = entry"
    using th s(1) by (simp_all add: upd_task_def)
  moreover have "sc_procs (k_sched k2) = (sc_procs (k_sched k1))(p := (proc_of k1 p)\<lparr>proc_main_thread := t, proc_thread_list := t\<rparr>)"
    by (simp add: k2_def upd_proc_def set_proc_def set_task_def s(2))
  moreover have "process_list k2 = process_list k1" "next_pid k2 = next_pid k1" by (simp_all add: k2_def upd_proc_def set_proc_def)
  ultimately show ?thesis using a t f(1) k1 by (intro exI [of _ t]) simp
qed

text \<open>
  A created process has the next identifier, a stack and a heap of one page each, no open files and a
  ready main thread; it is the first of the list and no other process is changed.
\<close>

lemma process_create_effect:
  assumes live: "heap_live (k_heap k) L" "set xs \<subseteq> fst ` L" and ps: "processes k xs"
    and r: "process_create name entry k = Some (p, k')" and p: "p \<noteq> 0"
  shows "processes k' (p # xs) \<and> next_pid k' = next_pid k + 1 \<and> (\<forall>q. q \<noteq> p \<longrightarrow> proc_of k' q = proc_of k q) \<and>
     proc_pid (proc_of k' p) = next_pid k \<and> proc_name (proc_of k' p) = name \<and> proc_page_table (proc_of k' p) \<noteq> 0 \<and>
     proc_user_stack_top (proc_of k' p) = USER_STACK_TOP \<and> proc_user_heap_end (proc_of k' p) = USER_HEAP_BASE + PAGE_SIZE \<and>
     proc_fd_table (proc_of k' p) = replicate FD_MAX 0 \<and>
     task_process (sc_tasks (k_sched k') (proc_main_thread (proc_of k' p))) = p \<and>
     task_entry (sc_tasks (k_sched k') (proc_main_thread (proc_of k' p))) = entry"
proof -
  have e: "entry \<noteq> 0" using r p by (auto simp: process_create_def)
  obtain p0 h where km: "kmalloc sizeof_process (k_heap k) = Some (p0, h)"
    using r e by (auto simp: process_create_def bind_eq_Some_conv)
  have p0: "p0 \<noteq> 0" using r p e km by (auto simp: process_create_def)
  define k1 where "k1 = process_init p0 (set_heap h k)"
  obtain ok k2 where sp: "process_setup_space p0 k1 = (ok, k2)" by (cases "process_setup_space p0 k1")
  have "process_start p0 name entry k2 = Some (p, k')" "ok"
    using r p e km p0 sp by (auto simp: process_create_def simp flip: k1_def split: if_splits)
  then obtain t where st: "p = p0" "t \<noteq> 0" "process_list k' = p0" "next_pid k' = next_pid k2"
    "sc_procs (k_sched k') = (sc_procs (k_sched k2))(p0 := (proc_of k2 p0)\<lparr>proc_next := process_list k2, proc_name := name,
       proc_main_thread := t, proc_thread_list := t\<rparr>)"
    "task_process (sc_tasks (k_sched k') t) = p0" "task_entry (sc_tasks (k_sched k') t) = entry"
    using process_start_effect p by blast
  have sp: "process_setup_space p0 k1 = (True, k2)" using sp \<open>ok\<close> by simp
  obtain pt phys where su: "pt \<noteq> 0" "same_list k1 k2" "sc_procs (k_sched k2) = (sc_procs (k_sched k1))(p0 := (proc_of k1 p0)\<lparr>
       proc_page_table := pt, proc_page_table_physical := phys,
       proc_user_stack_top := USER_STACK_TOP, proc_user_stack_bottom := USER_STACK_TOP - USER_STACK_SIZE,
       proc_user_heap_start := USER_HEAP_BASE, proc_user_heap_end := USER_HEAP_BASE + PAGE_SIZE,
       proc_user_heap_current := USER_HEAP_BASE + PAGE_SIZE\<rparr>)"
    using process_setup_space_effect [OF sp p0] by blast
  have k1: "process_list k1 = process_list k" "next_pid k1 = next_pid k + 1"
    "proc_of k1 p0 = process_zero\<lparr>proc_fd_table := replicate FD_MAX 0, proc_pid := next_pid k,
          proc_state := PROCESS_READY, proc_is_user_process := False, proc_user_started := False,
          proc_exit_code := 0, proc_parent := 0\<rparr>"
    "q \<noteq> p0 \<Longrightarrow> proc_of k1 q = proc_of k q" for q
    by (simp_all add: k1_def process_init_def process_allocate_pid_def upd_proc_def set_proc_def set_heap_def fd_init_def)
  have other: "proc_of k' q = proc_of k q" if "q \<noteq> p0" for q using that st(5) su(3) k1(4) by simp
  have size: "sizeof_process \<noteq> 0" "unat sizeof_process + 15 < 2 ^ 64" by (simp_all add: sizeof_process_def)
  have fresh: "p0 \<notin> set xs" using ka.alloc_total [OF live(1) size] km p0 live(2) by auto
  have "proc_next (proc_of k' x) = proc_next (proc_of k x)" if "x \<in> set xs" for x
    using other [of x] that fresh by (cases "x = p0") auto
  then have "process_chain (sc_procs (k_sched k')) (process_list k) xs"
    using ps by (auto simp: processes_def intro: process_chain_cong)
  moreover have new: "proc_of k' p0 = (proc_of k2 p0)\<lparr>proc_next := process_list k, proc_name := name,
       proc_main_thread := t, proc_thread_list := t\<rparr>"
    using st(5) su(2) k1(1) by (simp add: same_list_def)
  ultimately have "processes k' (p0 # xs)" using ps fresh p0 st(3) by (simp add: processes_def)
  then show ?thesis using st su k1 other new by (simp add: same_list_def)
qed

section \<open>Properties\<close>

text \<open>
  C29. The operations on the process list end and do what their names say: \<open>process_lookup\<close> returns the
  first process with the identifier, or null when there is none; \<open>process_destroy\<close> removes exactly the given
  process from the list, keeps the order and the identifiers of the others, and frees its structure.
\<close>

theorem process_list_operations:
  assumes "processes k xs" and "p \<noteq> 0"
  shows "process_lookup pid k = Some (first_or_null (filter (\<lambda>x. proc_pid (proc_of k x) = pid) xs)) \<and>
     (\<exists>k'. process_destroy p k = Some k' \<and> processes k' (remove1 p xs) \<and> k_heap k' = kfree p (k_heap k) \<and>
        process_lookup pid k' = Some (first_or_null (filter (\<lambda>x. proc_pid (proc_of k x) = pid) (remove1 p xs))))"
proof -
  have look: "process_lookup pid k = Some (first_or_null (filter (\<lambda>x. proc_pid (proc_of k x) = pid) xs))"
    if "processes k xs" for k xs
    using that process_lookup_loop_chain by (simp add: process_lookup_def processes_def)
  obtain k' where k': "process_destroy p k = Some k'" "processes k' (remove1 p xs)" "k_heap k' = kfree p (k_heap k)"
    "\<forall>q. proc_pid (proc_of k' q) = proc_pid (proc_of k q)"
    using process_destroy_effect [OF assms] by blast
  then show ?thesis using look [OF assms(1)] look [OF k'(2)] by simp
qed

text \<open>Two processes, numbered 1 and 2.\<close>

definition two_processes :: kernel where
  "two_processes = \<lparr>k_sched = sample_sched\<lparr>sc_procs := (\<lambda>_. process_zero)(
       0x700 := process_zero\<lparr>proc_pid := 2, proc_next := 0x800\<rparr>, 0x800 := process_zero\<lparr>proc_pid := 1\<rparr>)\<rparr>,
     k_fs = \<lparr>fs_nodes = (\<lambda>_. node_zero), fs_files = (\<lambda>_. \<lparr>file_node = 0, file_position = 0, file_flags = 0, file_refcount = 0\<rparr>),
       fs_mounts = (\<lambda>_. \<lparr>mnt_fs = 0, mnt_mountpoint = 0, mnt_root = 0, mnt_flags = 0, mnt_parent = 0, mnt_next = 0\<rparr>),
       fs_systems = (\<lambda>_. \<lparr>fs_name = [], fs_root = 0, fs_ops = No_Fs_Ops\<rparr>), ramfs_root = 0x200, vfs_mount_list = 0, vfs_root_mount = 0\<rparr>,
     process_list = 0x700, next_pid = 3\<rparr>"

theorem process_list_operations_witness:
  "\<exists>k'. process_destroy 0x800 two_processes = Some k' \<and> process_lookup 1 two_processes = Some 0x800 \<and>
     process_lookup 1 k' = Some 0 \<and> processes k' [0x700]"
proof -
  have "processes two_processes [0x700, 0x800]" by (simp add: processes_def two_processes_def process_zero_def)
  from process_list_operations [OF this, of "0x800" 1] show ?thesis
    by (auto simp: two_processes_def process_zero_def first_or_null_def)
qed

end
