(* ===== verification/Convert.thy ===== *)
theory Convert
  imports Kmemory
begin

text \<open>
  Number formatting (\<open>lib/convert.c\<close>) and integer helpers (\<open>lib/math.c\<close>). A buffer is an address in byte
  memory; \<open>int\<close> is a 32-bit word read as signed, and negating the least value wraps to itself. The digits
  are written from the least significant one and the string is then reversed in place.
\<close>

section \<open>Operations\<close>

function decimal_loop :: "int \<Rightarrow> nat \<Rightarrow> u64 \<Rightarrow> byte_mem \<Rightarrow> nat \<times> byte_mem" where
  "decimal_loop value i buffer m =
     (if value > 0
      then decimal_loop (value div 10) (i + 1) buffer (m(buffer + of_nat i := word_of_int (value mod 10) + 48))
      else (i, m))"
  by pat_completeness auto
termination by (relation "measure (\<lambda>(value, _). nat value)") auto

definition hex_digits :: "u8 list" where
  "hex_digits = [48, 49, 50, 51, 52, 53, 54, 55, 56, 57, 65, 66, 67, 68, 69, 70]"

function hex_loop :: "u64 \<Rightarrow> nat \<Rightarrow> u64 \<Rightarrow> byte_mem \<Rightarrow> nat \<times> byte_mem" where
  "hex_loop value i buffer m =
     (if value > 0
      then hex_loop (drop_bit 4 value) (i + 1) buffer (m(buffer + of_nat i := hex_digits ! unat (value AND 0xF)))
      else (i, m))"
  by pat_completeness auto
termination
proof (relation "measure (\<lambda>(v, _). unat v)")
  fix v b :: u64 and i :: nat and m :: byte_mem
  assume "v > 0"
  then have "0 < unat v" by (simp add: word_less_nat_alt)
  then have "unat v div 16 < unat v" by simp
  then show "((drop_bit 4 v, i + 1, b, m(b + of_nat i := hex_digits ! unat (v AND 0xF))), v, i, b, m)
      \<in> measure (\<lambda>(v, _). unat v)"
    by (simp add: drop_bit_eq_div unat_div_u64)
qed simp

function reverse_loop :: "nat \<Rightarrow> nat \<Rightarrow> u64 \<Rightarrow> byte_mem \<Rightarrow> byte_mem" where
  "reverse_loop start end' buffer m =
     (if start < end'
      then
        let temp = m (buffer + of_nat start);
            m = m(buffer + of_nat start := m (buffer + of_nat end'));
            m = m(buffer + of_nat end' := temp)
        in reverse_loop (start + 1) (end' - 1) buffer m
      else m)"
  by pat_completeness auto
termination by (relation "measure (\<lambda>(start, end', _). end' - start)") auto

declare decimal_loop.simps [simp del] hex_loop.simps [simp del] reverse_loop.simps [simp del]

definition zero_string :: "u64 \<Rightarrow> byte_mem \<Rightarrow> byte_mem" where
  "zero_string buffer m = m(buffer := 48, buffer + 1 := 0)"

definition finish_string :: "nat \<Rightarrow> u64 \<Rightarrow> byte_mem \<Rightarrow> byte_mem" where
  "finish_string i buffer m = reverse_loop 0 (i - 1) buffer (m(buffer + of_nat i := 0))"

definition int_to_string :: "32 word \<Rightarrow> u64 \<Rightarrow> byte_mem \<Rightarrow> byte_mem" where
  "int_to_string value buffer m =
     (if value = 0 then zero_string buffer m
      else
        let negative = sint value < 0;
            value = (if negative then - value else value) in
        case decimal_loop (sint value) 0 buffer m of (i, m) \<Rightarrow>
        case (if negative then (i + 1, m(buffer + of_nat i := 45)) else (i, m)) of (i, m) \<Rightarrow>
        finish_string i buffer m)"

definition uint_to_string :: "u32 \<Rightarrow> u64 \<Rightarrow> byte_mem \<Rightarrow> byte_mem" where
  "uint_to_string value buffer m =
     (if value = 0 then zero_string buffer m
      else case decimal_loop (uint value) 0 buffer m of (i, m) \<Rightarrow> finish_string i buffer m)"

definition uint64_to_hex :: "u64 \<Rightarrow> u64 \<Rightarrow> byte_mem \<Rightarrow> byte_mem" where
  "uint64_to_hex value buffer m =
     (if value = 0 then zero_string buffer m
      else case hex_loop value 0 buffer m of (i, m) \<Rightarrow> finish_string i buffer m)"

definition abs_int :: "32 word \<Rightarrow> 32 word" where
  "abs_int value = (if sint value < 0 then - value else value)"

definition min_int :: "32 word \<Rightarrow> 32 word \<Rightarrow> 32 word" where
  "min_int a b = (if sint a < sint b then a else b)"

definition max_int :: "32 word \<Rightarrow> 32 word \<Rightarrow> 32 word" where
  "max_int a b = (if sint a > sint b then a else b)"

section \<open>Strings in memory\<close>

text \<open>The bytes of a buffer, and memory that differs only in the first \<open>n\<close> bytes of it.\<close>

definition holds_bytes :: "byte_mem \<Rightarrow> u64 \<Rightarrow> u8 list \<Rightarrow> bool" where
  "holds_bytes m b xs \<longleftrightarrow> (\<forall>j < length xs. m (b + of_nat j) = xs ! j)"

definition writes_within :: "u64 \<Rightarrow> nat \<Rightarrow> byte_mem \<Rightarrow> byte_mem \<Rightarrow> bool" where
  "writes_within b n m m' \<longleftrightarrow> (\<forall>x. (\<forall>j < n. x \<noteq> b + of_nat j) \<longrightarrow> m' x = m x)"

lemma buffer_inj: "i < 100 \<Longrightarrow> j < 100 \<Longrightarrow> (of_nat i :: u64) = of_nat j \<longleftrightarrow> i = j"
proof -
  assume "i < 100" "j < 100"
  then have "unat (of_nat i :: u64) = i" "unat (of_nat j :: u64) = j" by (simp_all add: unat_of_nat_u64)
  then show ?thesis by metis
qed

lemma holds_append:
  assumes "holds_bytes m b xs" "length xs < 100"
  shows "holds_bytes (m(b + of_nat (length xs) := c)) b (xs @ [c])"
  using assms by (auto simp: holds_bytes_def nth_append less_Suc_eq buffer_inj)

lemma writes_within_mono: "writes_within b n m m' \<Longrightarrow> n \<le> k \<Longrightarrow> writes_within b k m m'"
  by (auto simp: writes_within_def)

lemma writes_within_trans: "writes_within b n m m' \<Longrightarrow> writes_within b n m' m'' \<Longrightarrow> writes_within b n m m''"
  by (auto simp: writes_within_def)

lemma writes_within_upd: "i < n \<Longrightarrow> writes_within b n m (m(b + of_nat i := c))"
  by (auto simp: writes_within_def)

lemma holds_cstr:
  "holds_bytes m b (xs @ [0]) \<Longrightarrow> 0 \<notin> set xs \<Longrightarrow> cstr m b xs"
proof (induction xs arbitrary: b)
  case (Cons x xs)
  have "holds_bytes m (b + 1) (xs @ [0])"
    unfolding holds_bytes_def
  proof (intro allI impI)
    fix j assume "j < length (xs @ [0])"
    then have "m (b + of_nat (Suc j)) = ((x # xs) @ [0]) ! Suc j" using Cons.prems(1) unfolding holds_bytes_def by force
    then show "m (b + 1 + of_nat j) = (xs @ [0]) ! j" by (simp add: add.assoc)
  qed
  moreover have "m (b + of_nat 0) = x" using Cons.prems(1) unfolding holds_bytes_def by force
  ultimately show ?case using Cons by auto
qed (simp add: holds_bytes_def)

section \<open>Reversal\<close>

definition swap_bytes :: "u64 \<Rightarrow> nat \<Rightarrow> nat \<Rightarrow> byte_mem \<Rightarrow> byte_mem" where
  "swap_bytes b s e m = m(b + of_nat s := m (b + of_nat e), b + of_nat e := m (b + of_nat s))"

lemma reverse_loop_step:
  "reverse_loop s e b m = (if s < e then reverse_loop (s + 1) (e - 1) b (swap_bytes b s e m) else m)"
  by (subst reverse_loop.simps) (simp add: swap_bytes_def Let_def)

lemma swap_bytes_apply:
  assumes "i < 100" "s < 100" "e < 100" "s \<noteq> e"
  shows "swap_bytes b s e m (b + of_nat i) = m (b + of_nat (if i = e then s else if i = s then e else i))"
  using assms by (simp add: swap_bytes_def buffer_inj)

lemma reverse_loop_bytes:
  assumes "e < 100" "j < 100"
  shows "reverse_loop s e b m (b + of_nat j) = m (b + of_nat (if s \<le> j \<and> j \<le> e then s + e - j else j))"
  using assms(1)
proof (induction "e - s" arbitrary: s e m rule: less_induct)
  case less
  show ?case
  proof (cases "s < e")
    case True
    define i where "i = (if s + 1 \<le> j \<and> j \<le> e - 1 then s + 1 + (e - 1) - j else j)"
    have "reverse_loop s e b m (b + of_nat j) = swap_bytes b s e m (b + of_nat i)"
      using True less.prems less.hyps [of "e - 1" "s + 1" "swap_bytes b s e m"]
      by (auto simp: reverse_loop_step [of s e] i_def)
    also have "\<dots> = m (b + of_nat (if i = e then s else if i = s then e else i))"
      using True less.prems assms(2) by (intro swap_bytes_apply) (auto simp: i_def)
    also have "(if i = e then s else if i = s then e else i) = (if s \<le> j \<and> j \<le> e then s + e - j else j)"
      using True by (auto simp: i_def)
    finally show ?thesis .
  next
    case False
    then have "(if s \<le> j \<and> j \<le> e then s + e - j else j) = j" by auto
    then show ?thesis using False by (simp only: reverse_loop_step [of s e] if_False)
  qed
qed

lemma reverse_loop_within: "writes_within b (Suc e) m (reverse_loop s e b m)"
proof (induction "e - s" arbitrary: s e m rule: less_induct)
  case less
  show ?case
  proof (cases "s < e")
    case True
    have "writes_within b (Suc (e - 1)) (swap_bytes b s e m) (reverse_loop (s + 1) (e - 1) b (swap_bytes b s e m))"
      using True by (intro less.hyps) simp
    then have "writes_within b (Suc e) (swap_bytes b s e m) (reverse_loop (s + 1) (e - 1) b (swap_bytes b s e m))"
      by (rule writes_within_mono) simp
    moreover have "writes_within b (Suc e) m (swap_bytes b s e m)"
      unfolding swap_bytes_def using True by (intro writes_within_trans [OF writes_within_upd writes_within_upd]) simp_all
    ultimately have "writes_within b (Suc e) m (reverse_loop (s + 1) (e - 1) b (swap_bytes b s e m))"
      by (rule writes_within_trans [rotated])
    then show ?thesis using True by (simp only: reverse_loop_step [of s e] if_True)
  next
    case False
    then show ?thesis by (simp add: reverse_loop_step [of s e] writes_within_def)
  qed
qed

lemma finish_string_cstr:
  assumes h: "holds_bytes m b xs" and n: "xs \<noteq> []" "length xs < 99" and z: "0 \<notin> set xs"
  shows "cstr (finish_string (length xs) b m) b (rev xs)" "writes_within b (Suc (length xs)) m (finish_string (length xs) b m)"
proof -
  let ?n = "length xs" and ?m = "m(b + of_nat (length xs) := 0)"
  have m: "holds_bytes ?m b (xs @ [0])" using h n by (intro holds_append) simp_all
  have "holds_bytes (finish_string ?n b m) b (rev xs @ [0])"
    unfolding holds_bytes_def
  proof (intro allI impI)
    fix j assume j: "j < length (rev xs @ [0])"
    have e: "finish_string ?n b m (b + of_nat j) = ?m (b + of_nat (if j \<le> ?n - 1 then ?n - 1 - j else j))"
      unfolding finish_string_def using n j reverse_loop_bytes [of "?n - 1" j 0 b ?m] by simp
    show "finish_string ?n b m (b + of_nat j) = (rev xs @ [0]) ! j"
    proof (cases "j < ?n")
      case True
      then have "?n - 1 - j < length (xs @ [0])" by simp
      then have "?m (b + of_nat (?n - 1 - j)) = (xs @ [0]) ! (?n - 1 - j)" using m unfolding holds_bytes_def by blast
      moreover have "j \<le> ?n - 1" using True by simp
      then have "finish_string ?n b m (b + of_nat j) = ?m (b + of_nat (?n - 1 - j))" using e by (simp only: if_True)
      moreover have "(xs @ [0]) ! (?n - 1 - j) = (rev xs @ [0]) ! j" 
      proof -
        have "?n - 1 - j < ?n" using True by linarith
        then have "(xs @ [0]) ! (?n - 1 - j) = xs ! (?n - 1 - j)" by (simp only: nth_append if_True)
        moreover have "(rev xs @ [0]) ! j = xs ! (?n - 1 - j)" using True by (simp add: nth_append rev_nth)
        ultimately show ?thesis by simp
      qed
      ultimately show ?thesis by (simp only:)
    next
      case False
      then have "j = ?n" using j by simp
      moreover from this have "\<not> j \<le> ?n - 1" using n(1) by (cases xs) simp_all
      then have "finish_string ?n b m (b + of_nat j) = ?m (b + of_nat j)" using e by (simp only: if_False)
      ultimately show ?thesis by (simp add: nth_append)
    qed
  qed
  then show "cstr (finish_string ?n b m) b (rev xs)" using z by (intro holds_cstr) simp_all
  have "writes_within b (Suc ?n) ?m (finish_string ?n b m)"
    unfolding finish_string_def by (rule writes_within_mono [OF reverse_loop_within]) (use n(1) in simp)
  then show "writes_within b (Suc ?n) m (finish_string ?n b m)" by (rule writes_within_trans [OF writes_within_upd, rotated]) simp
qed

section \<open>Digits\<close>

text \<open>The digits of a number from the least significant one, and the number a string of digits denotes.\<close>

fun low_digits :: "nat \<Rightarrow> u8 list" where
  "low_digits n = (if n = 0 then [] else (of_nat (n mod 10) + 48) # low_digits (n div 10))"

fun low_nibbles :: "nat \<Rightarrow> u8 list" where
  "low_nibbles n = (if n = 0 then [] else hex_digits ! (n mod 16) # low_nibbles (n div 16))"

declare low_digits.simps [simp del] low_nibbles.simps [simp del]

definition parse_decimal :: "u8 list \<Rightarrow> nat" where
  "parse_decimal ds = foldl (\<lambda>n d. 10 * n + (unat d - 48)) 0 ds"

definition parse_int :: "u8 list \<Rightarrow> int" where
  "parse_int ds = (if ds \<noteq> [] \<and> hd ds = 45 then - int (parse_decimal (tl ds)) else int (parse_decimal ds))"

definition hex_value :: "u8 \<Rightarrow> nat" where
  "hex_value d = (if d < 58 then unat d - 48 else unat d - 55)"

definition parse_hex :: "u8 list \<Rightarrow> nat" where
  "parse_hex ds = foldl (\<lambda>n d. 16 * n + hex_value d) 0 ds"

text \<open>The usual notation of a number, most significant digit first.\<close>

fun decimal :: "nat \<Rightarrow> u8 list" where
  "decimal n = (if n < 10 then [of_nat n + 48] else decimal (n div 10) @ [of_nat (n mod 10) + 48])"

fun hexadecimal :: "nat \<Rightarrow> u8 list" where
  "hexadecimal n = (if n < 16 then [hex_digits ! n] else hexadecimal (n div 16) @ [hex_digits ! (n mod 16)])"

definition signed_decimal :: "int \<Rightarrow> u8 list" where
  "signed_decimal i = (if i < 0 then 45 # decimal (nat (- i)) else decimal (nat i))"

declare decimal.simps [simp del] hexadecimal.simps [simp del]

lemma low_digits_0 [simp]: "low_digits 0 = []" "low_nibbles 0 = []"
  by (simp_all add: low_digits.simps low_nibbles.simps)

lemma rev_low_digits: "0 < n \<Longrightarrow> rev (low_digits n) = decimal n"
proof (induction n rule: decimal.induct)
  case (1 n)
  show ?case
  proof (cases "n < 10")
    case True
    then show ?thesis using 1(2) by (simp add: decimal.simps [of n] low_digits.simps [of n])
  next
    case False
    then show ?thesis using 1(1) by (simp add: decimal.simps [of n] low_digits.simps [of n])
  qed
qed

lemma rev_low_nibbles: "0 < n \<Longrightarrow> rev (low_nibbles n) = hexadecimal n"
proof (induction n rule: hexadecimal.induct)
  case (1 n)
  show ?case
  proof (cases "n < 16")
    case True
    then show ?thesis using 1(2) by (simp add: hexadecimal.simps [of n] low_nibbles.simps [of n])
  next
    case False
    then show ?thesis using 1(1) by (simp add: hexadecimal.simps [of n] low_nibbles.simps [of n])
  qed
qed

lemma digit_byte:
  assumes "k < 10" shows "unat (of_nat k + 48 :: u8) = k + 48"
proof -
  have "unat (of_nat k :: u8) = k" using assms by (simp add: unat_of_nat)
  then show ?thesis using assms by (simp add: unat_word_ariths)
qed

lemma low_digits_range: "d \<in> set (low_digits n) \<Longrightarrow> 48 \<le> unat d \<and> unat d < 58"
proof (induction n rule: low_digits.induct)
  case (1 n)
  then show ?case by (cases "n = 0") (auto simp: low_digits.simps [of n] low_digits.simps [of 0] digit_byte)
qed

lemma parse_low_digits: "parse_decimal (rev (low_digits n)) = n"
proof (induction n rule: low_digits.induct)
  case (1 n)
  then show ?case by (cases "n = 0") (simp_all add: parse_decimal_def low_digits.simps [of n] low_digits.simps [of 0] digit_byte)
qed

lemma length_low_digits: "n < 10 ^ k \<Longrightarrow> length (low_digits n) \<le> k"
proof (induction k arbitrary: n)
  case (Suc k)
  then have "n div 10 < 10 ^ k" by (simp add: less_mult_imp_div_less mult.commute)
  then show ?case using Suc.IH [of "n div 10"] by (subst low_digits.simps) simp
qed (simp add: low_digits.simps)

lemma decimal_loop_digits:
  assumes "holds_bytes m b xs" "length xs + length (low_digits (nat v)) < 99" "writes_within b (length xs) m0 m" "0 \<le> v"
  shows "\<exists>m'. decimal_loop v (length xs) b m = (length (xs @ low_digits (nat v)), m') \<and>
     holds_bytes m' b (xs @ low_digits (nat v)) \<and> writes_within b (length (xs @ low_digits (nat v))) m0 m'"
  using assms
proof (induction "nat v" arbitrary: v xs m rule: less_induct)
  case less
  show ?case
  proof (cases "v > 0")
    case False
    then have "nat v = 0" by simp
    then have d: "low_digits (nat v) = []" by simp
    have "decimal_loop v (length xs) b m = (length xs, m)" using False by (subst decimal_loop.simps) (simp only: if_False)
    then show ?thesis using less.prems d by simp
  next
    case True
    define c :: u8 where "c = of_nat (nat v mod 10) + 48"
    have e: "low_digits (nat v) = c # low_digits (nat (v div 10))"
      using True by (subst low_digits.simps) (simp add: c_def nat_div_distrib)
    have "v mod 10 = int (nat v mod 10)" using True by (metis int_nat_eq less_imp_le of_nat_numeral zmod_int)
    then have w: "(word_of_int (v mod 10) + 48 :: u8) = c" by (simp only: c_def of_int_of_nat_eq)
    have n: "nat (v div 10) < nat v" using True by simp
    let ?m = "m(b + of_nat (length xs) := c)"
    have h: "holds_bytes ?m b (xs @ [c])" using less.prems(1,2) by (intro holds_append) simp_all
    have wr: "writes_within b (length (xs @ [c])) m0 ?m"
      by (rule writes_within_trans [OF writes_within_mono [OF less.prems(3)] writes_within_upd]) simp_all
    have l: "length (xs @ [c]) + length (low_digits (nat (v div 10))) < 99" "0 \<le> v div 10"
      using less.prems(2,4) by (simp_all add: e)
    have "decimal_loop v (length xs) b m = decimal_loop (v div 10) (length (xs @ [c])) b ?m"
      using True by (subst decimal_loop.simps) (simp only: w if_True length_append list.size One_nat_def add_0 add_Suc_right add_0_right)
    then show ?thesis using less.hyps [OF n h l(1) wr l(2)] by (simp add: e)
  qed
qed

lemma decimal_string:
  assumes "0 < v" "nat v < 10 ^ 10"
  shows "\<exists>m'. decimal_loop v 0 b m = (length (low_digits (nat v)), m') \<and> holds_bytes m' b (low_digits (nat v)) \<and>
     writes_within b (length (low_digits (nat v))) m m' \<and> low_digits (nat v) \<noteq> [] \<and> length (low_digits (nat v)) \<le> 10"
proof -
  have l: "length (low_digits (nat v)) \<le> 10" by (rule length_low_digits [OF assms(2)])
  have "low_digits (nat v) \<noteq> []" using assms(1) by (simp add: low_digits.simps [of "nat v"])
  moreover have "\<exists>m'. decimal_loop v (length ([] :: u8 list)) b m = (length ([] @ low_digits (nat v)), m') \<and>
     holds_bytes m' b ([] @ low_digits (nat v)) \<and> writes_within b (length ([] @ low_digits (nat v))) m m'"
    by (rule decimal_loop_digits) (use assms l in \<open>auto simp: holds_bytes_def writes_within_def\<close>)
  ultimately show ?thesis using l by auto
qed

lemma zero_string_cstr: "cstr (zero_string b m) b [48]" "writes_within b 2 m (zero_string b m)"
  by (auto simp: zero_string_def writes_within_def less_2_cases_iff)

lemma uint_to_string_digits:
  "\<exists>ds. cstr (uint_to_string v b m) b ds \<and> ds = decimal (unat v) \<and> parse_decimal ds = unat v \<and> length ds \<le> 10 \<and>
     (\<forall>d \<in> set ds. 48 \<le> unat d \<and> unat d < 58) \<and> writes_within b 11 m (uint_to_string v b m)"
proof (cases "v = 0")
  case True
  then show ?thesis using zero_string_cstr writes_within_mono [of b 2 m _ 11]
    by (intro exI [of _ "[48]"]) (simp add: uint_to_string_def parse_decimal_def decimal.simps)
next
  case False
  let ?d = "low_digits (nat (uint v))"
  have "unat v < 2 ^ 32" using unsigned_less [of v] by simp
  moreover have "uint v = int (unat v)" "unat v \<noteq> 0" using False by (simp_all add: unat_eq_0)
  ultimately have v: "0 < uint v" "nat (uint v) < 10 ^ 10" by (simp_all only: of_nat_0_less_iff nat_int) simp_all
  obtain m' where m': "decimal_loop (uint v) 0 b m = (length ?d, m')" "holds_bytes m' b ?d" "writes_within b (length ?d) m m'"
    "?d \<noteq> []" "length ?d \<le> 10" using decimal_string [OF v] by blast
  have r: "uint_to_string v b m = finish_string (length ?d) b m'" using False m'(1) by (simp add: uint_to_string_def)
  have "0 \<notin> set ?d" using low_digits_range by force
  then have f: "cstr (finish_string (length ?d) b m') b (rev ?d)" "writes_within b (Suc (length ?d)) m' (finish_string (length ?d) b m')"
    using finish_string_cstr [OF m'(2,4)] m'(5) by simp_all
  have "writes_within b 11 m (finish_string (length ?d) b m')"
    by (rule writes_within_trans [OF writes_within_mono [OF m'(3)] writes_within_mono [OF f(2)]]) (use m'(5) in simp_all)
  moreover have "rev ?d = decimal (unat v)"
    using rev_low_digits [of "nat (uint v)"] False by (simp add: unat_gt_0)
  moreover have "parse_decimal (rev ?d) = unat v" "length (rev ?d) \<le> 10" "\<forall>d \<in> set (rev ?d). 48 \<le> unat d \<and> unat d < 58"
    using parse_low_digits [of "nat (uint v)"] m'(5) low_digits_range by auto
  ultimately show ?thesis unfolding r using f(1) by (intro exI [of _ "rev ?d"] conjI)
qed

lemma int_to_string_decimal:
  assumes "sint v \<noteq> - 2147483648"
  shows "\<exists>ds. cstr (int_to_string v b m) b ds \<and> ds = signed_decimal (sint v) \<and> parse_int ds = sint v \<and> length ds \<le> 11 \<and> writes_within b 12 m (int_to_string v b m)"
proof (cases "v = 0")
  case True
  then show ?thesis using zero_string_cstr writes_within_mono [of b 2 m _ 12]
    by (intro exI [of _ "[48]"]) (simp add: int_to_string_def parse_int_def parse_decimal_def signed_decimal_def decimal.simps)
next
  case False
  define neg where "neg = (sint v < 0)"
  define w where "w = (if neg then - v else v)"
  have range: "- 2147483648 < sint v" "sint v < 2147483648"
    using sint_greater_eq [of v] sint_less [of v] assms by simp_all
  have nz: "sint v \<noteq> 0" using False by (metis signed_eq_0_iff)
  have w: "sint w = \<bar>sint v\<bar>"
  proof (cases neg)
    case True
    then have "sint v < 0" by (simp add: neg_def)
    have "sint (- v) = signed_take_bit (LENGTH(32) - 1) (- sint v)" by (simp only: sint_word_ariths)
    also have "\<dots> = - sint v" by (rule signed_take_bit_int_eq_self) (use range \<open>sint v < 0\<close> in simp_all)
    finally show ?thesis using True \<open>sint v < 0\<close> by (simp add: w_def)
  next
    case False
    then show ?thesis by (simp add: w_def neg_def)
  qed
  let ?d = "low_digits (nat (sint w))"
  have v: "0 < sint w" "nat (sint w) < 10 ^ 10" using w range nz by auto
  obtain m' where m': "decimal_loop (sint w) 0 b m = (length ?d, m')" "holds_bytes m' b ?d" "writes_within b (length ?d) m m'"
    "?d \<noteq> []" "length ?d \<le> 10" using decimal_string [OF v] by blast
  define xs where "xs = ?d @ (if neg then [45] else [])"
  define m2 where "m2 = (if neg then m'(b + of_nat (length ?d) := 45) else m')"
  have h: "holds_bytes m2 b xs" using m'(2,5) by (auto simp: m2_def xs_def intro: holds_append)
  have wr: "writes_within b 12 m m2"
    using writes_within_mono [OF m'(3), of 12] m'(5)
    by (auto simp: m2_def intro: writes_within_trans [OF _ writes_within_upd])
  have r: "int_to_string v b m = finish_string (length xs) b m2"
    using False m'(1) by (simp add: int_to_string_def Let_def m2_def xs_def flip: neg_def w_def)
  have digits: "\<forall>d \<in> set ?d. 48 \<le> unat d \<and> unat d < 58" using low_digits_range by blast
  have "0 \<notin> set xs" using digits by (force simp: xs_def)
  then have f: "cstr (finish_string (length xs) b m2) b (rev xs)" "writes_within b (Suc (length xs)) m2 (finish_string (length xs) b m2)"
    using finish_string_cstr [OF h] m'(4,5) by (auto simp: xs_def)
  have "writes_within b 12 m (finish_string (length xs) b m2)"
    by (rule writes_within_trans [OF wr writes_within_mono [OF f(2)]]) (use m'(5) in \<open>simp add: xs_def\<close>)
  moreover have "parse_int (rev xs) = sint v"
  proof (cases neg)
    case True
    then show ?thesis using w parse_low_digits [of "nat (sint w)"] v(1) by (simp add: parse_int_def xs_def neg_def)
  next
    case neg: False
    have "hd (rev ?d) \<in> set ?d" using m'(4) by (metis hd_in_set rev_is_Nil_conv set_rev)
    then have "hd (rev ?d) \<noteq> 45" using digits by auto
    then show ?thesis using w neg parse_low_digits [of "nat (sint w)"] v(1) by (auto simp: parse_int_def xs_def neg_def)
  qed
  moreover have "rev xs = signed_decimal (sint v)"
    using w v(1) rev_low_digits [of "nat (sint w)"] by (auto simp: xs_def signed_decimal_def neg_def)
  moreover have "length (rev xs) \<le> 11" using m'(5) by (simp add: xs_def)
  ultimately show ?thesis unfolding r using f(1) by (intro exI [of _ "rev xs"] conjI)
qed

section \<open>Hexadecimal digits\<close>

lemma hex_digit:
  assumes "k < 16" shows "hex_value (hex_digits ! k) = k" "hex_digits ! k \<noteq> 0"
proof -
  have "k \<in> {0, 1, 2, 3, 4, 5, 6, 7, 8, 9, 10, 11, 12, 13, 14, 15}"
    using assms by (simp only: insert_iff empty_iff) presburger
  then show "hex_value (hex_digits ! k) = k" "hex_digits ! k \<noteq> 0" by (auto simp: hex_value_def hex_digits_def)
qed

lemma low_nibbles_nonzero: "0 \<notin> set (low_nibbles n)"
proof (induction n rule: low_nibbles.induct)
  case (1 n)
  then show ?case using hex_digit(2) [of "n mod 16"] by (cases "n = 0") (auto simp: low_nibbles.simps [of n])
qed

lemma parse_low_nibbles: "parse_hex (rev (low_nibbles n)) = n"
proof (induction n rule: low_nibbles.induct)
  case (1 n)
  then show ?case by (cases "n = 0") (simp_all add: parse_hex_def low_nibbles.simps [of n] hex_digit)
qed

lemma length_low_nibbles: "n < 16 ^ k \<Longrightarrow> length (low_nibbles n) \<le> k"
proof (induction k arbitrary: n)
  case (Suc k)
  then have "n div 16 < 16 ^ k" by (simp add: less_mult_imp_div_less mult.commute)
  then show ?case using Suc.IH [of "n div 16"] by (subst low_nibbles.simps) simp
qed simp

lemma low_nibble: "unat (v AND 0xF :: u64) = unat v mod 16"
proof -
  have m: "(0xF :: u64) = mask 4" by (simp add: mask_eq_exp_minus_1)
  show ?thesis unfolding m by (simp add: unsigned_and_eq unsigned_take_bit_eq take_bit_nat_def flip: take_bit_eq_mask)
qed

lemma next_nibbles: "unat (drop_bit 4 v :: u64) = unat v div 16"
  by (simp add: drop_bit_eq_div unat_div_u64)

lemma hex_loop_digits:
  assumes "holds_bytes m b xs" "length xs + length (low_nibbles (unat v)) < 99" "writes_within b (length xs) m0 m"
  shows "\<exists>m'. hex_loop v (length xs) b m = (length (xs @ low_nibbles (unat v)), m') \<and>
     holds_bytes m' b (xs @ low_nibbles (unat v)) \<and> writes_within b (length (xs @ low_nibbles (unat v))) m0 m'"
  using assms
proof (induction "unat v" arbitrary: v xs m rule: less_induct)
  case less
  show ?case
  proof (cases "v > 0")
    case False
    then have d: "low_nibbles (unat v) = []" by (simp add: word_less_nat_alt)
    have "hex_loop v (length xs) b m = (length xs, m)" using False by (subst hex_loop.simps) (simp only: if_False)
    then show ?thesis using less.prems d by simp
  next
    case True
    note u = low_nibble [of v] next_nibbles [of v]
    define c where "c = hex_digits ! unat (v AND 0xF)"
    have v: "0 < unat v" using True by (simp add: word_less_nat_alt)
    have e: "low_nibbles (unat v) = c # low_nibbles (unat (drop_bit 4 v))"
      using v by (subst low_nibbles.simps) (simp add: c_def u)
    have n: "unat (drop_bit 4 v) < unat v" using v u by simp
    let ?m = "m(b + of_nat (length xs) := c)"
    have h: "holds_bytes ?m b (xs @ [c])" using less.prems(1,2) by (intro holds_append) simp_all
    have wr: "writes_within b (length (xs @ [c])) m0 ?m"
      by (rule writes_within_trans [OF writes_within_mono [OF less.prems(3)] writes_within_upd]) simp_all
    have l: "length (xs @ [c]) + length (low_nibbles (unat (drop_bit 4 v))) < 99" using less.prems(2) by (simp add: e)
    have "hex_loop v (length xs) b m = hex_loop (drop_bit 4 v) (length (xs @ [c])) b ?m"
      using True by (subst hex_loop.simps) (simp add: c_def)
    then show ?thesis using less.hyps [OF n h l wr] by (simp add: e)
  qed
qed

lemma uint64_to_hex_digits:
  "\<exists>ds. cstr (uint64_to_hex v b m) b ds \<and> ds = hexadecimal (unat v) \<and> parse_hex ds = unat v \<and> length ds \<le> 16 \<and> writes_within b 17 m (uint64_to_hex v b m)"
proof (cases "v = 0")
  case True
  then show ?thesis using zero_string_cstr writes_within_mono [of b 2 m _ 17]
    by (intro exI [of _ "[48]"]) (simp add: uint64_to_hex_def parse_hex_def hex_value_def hexadecimal.simps hex_digits_def)
next
  case False
  let ?d = "low_nibbles (unat v)"
  have l: "length ?d \<le> 16" by (rule length_low_nibbles) (use unat_lt_2p64 [of v] in simp)
  have "\<exists>m'. hex_loop v (length ([] :: u8 list)) b m = (length ([] @ ?d), m') \<and> holds_bytes m' b ([] @ ?d) \<and>
     writes_within b (length ([] @ ?d)) m m'"
    by (rule hex_loop_digits) (use l in \<open>auto simp: holds_bytes_def writes_within_def\<close>)
  then obtain m' where m': "hex_loop v 0 b m = (length ?d, m')" "holds_bytes m' b ?d" "writes_within b (length ?d) m m'" by auto
  have ne: "?d \<noteq> []" using False by (simp add: low_nibbles.simps [of "unat v"] unat_eq_0)
  have r: "uint64_to_hex v b m = finish_string (length ?d) b m'" using False m'(1) by (simp add: uint64_to_hex_def)
  have f: "cstr (finish_string (length ?d) b m') b (rev ?d)" "writes_within b (Suc (length ?d)) m' (finish_string (length ?d) b m')"
    using finish_string_cstr [OF m'(2) ne _ low_nibbles_nonzero] l by simp_all
  have "writes_within b 17 m (finish_string (length ?d) b m')"
    by (rule writes_within_trans [OF writes_within_mono [OF m'(3)] writes_within_mono [OF f(2)]]) (use l in simp_all)
  moreover have "rev ?d = hexadecimal (unat v)" using False by (intro rev_low_nibbles) (simp add: unat_gt_0)
  moreover have "length (rev ?d) \<le> 16" using l by simp
  ultimately show ?thesis unfolding r using f(1) parse_low_nibbles by (intro exI [of _ "rev ?d"] conjI)
qed

section \<open>Properties\<close>

text \<open>
  C30. The number formatters print what they are given: for every \<open>int\<close> but the least,
  \<open>int_to_string\<close> leaves a terminated string that denotes the value in decimal; \<open>uint_to_string\<close> does for every unsigned
  32-bit value and \<open>uint64_to_hex\<close> in hexadecimal for every 64-bit value. They write at most 12, 11 and 17
  bytes, which the buffers of 16, 16 and 17 bytes of their callers hold.
\<close>

theorem number_formatting_roundtrip:
  assumes "sint i \<noteq> - 2147483648"
  shows "(\<exists>ds. cstr (int_to_string i b m) b ds \<and> parse_int ds = sint i \<and> writes_within b 12 m (int_to_string i b m)) \<and>
     (\<exists>ds. cstr (uint_to_string u b m) b ds \<and> parse_decimal ds = unat u \<and> writes_within b 11 m (uint_to_string u b m)) \<and>
     (\<exists>ds. cstr (uint64_to_hex x b m) b ds \<and> parse_hex ds = unat x \<and> writes_within b 17 m (uint64_to_hex x b m))"
  using int_to_string_decimal [OF assms] uint_to_string_digits uint64_to_hex_digits by blast

theorem number_formatting_roundtrip_witness:
  "(\<exists>ds. cstr (int_to_string (- 42) 0x1000 (\<lambda>_. 0)) 0x1000 ds \<and> parse_int ds = - 42) \<and>
   (\<exists>ds. cstr (uint64_to_hex 0xBEEF 0x1000 (\<lambda>_. 0)) 0x1000 ds \<and> parse_hex ds = 0xBEEF)"
proof -
  have "sint (- 42 :: 32 word) = - 42" by simp
  then show ?thesis using number_formatting_roundtrip [of "- 42" "0x1000" "\<lambda>_. 0" 0 "0xBEEF"] by auto
qed

text \<open>The least \<open>int\<close> prints as a lone minus sign: its negation is negative again and no digit is written.\<close>

theorem int_to_string_least: "cstr (int_to_string 0x80000000 b m) b [45]"
proof -
  have s: "sint (0x80000000 :: 32 word) = - 2147483648" "- (0x80000000 :: 32 word) = 0x80000000" by simp_all
  have "decimal_loop (- 2147483648) 0 b m = (0, m)" by (subst decimal_loop.simps) simp
  then have r: "int_to_string 0x80000000 b m = finish_string (length [45 :: u8]) b (m(b + of_nat 0 := 45))"
    by (simp add: int_to_string_def s Let_def)
  have "cstr (finish_string (length [45 :: u8]) b (m(b + of_nat 0 := 45))) b (rev [45])"
    by (rule finish_string_cstr(1)) (simp_all add: holds_bytes_def)
  then show ?thesis unfolding r by simp
qed

end
