(* ===== verification/Graphics.thy ===== *)
theory Graphics
  imports Convert
begin

text \<open>
  Drawing: the framebuffer (\<open>framebuffer/framebuffer.c\<close>), the drawing primitives (\<open>graphics/graphics.c\<close>)
  and the bitmap font (\<open>font/font.c\<close>, \<open>font/font8x8_data.h\<close>). The state \<open>display\<close> holds the file-level
  variables of the three files and the byte memory the framebuffer lies in; a pixel is a 32-bit
  little-endian store. Coordinates keep their C types: \<open>size_t\<close> is a 64-bit word, \<open>int\<close> a 32-bit word
  read as signed, so that an \<open>int\<close> passed as a \<open>size_t\<close> is sign-extended, a \<open>size_t\<close> passed as an \<open>int\<close>
  is truncated, and the sum of an \<open>int\<close> and a \<open>uint32_t\<close> is unsigned. A constant string is the list of its
  bytes before the terminator. The loop of \<open>draw_line\<close> has no counter, so it is a partial function:
  \<open>None\<close> is a line that never ends.
\<close>

section \<open>Framebuffer\<close>

record display =
  fb :: u64
  fb_width :: u64
  fb_height :: u64
  fb_pitch :: u64
  fb_address :: u64
  fb_mem :: byte_mem
  font_scale :: u32
  letter_spacing :: u32

definition framebuffer_init :: "u64 \<Rightarrow> u64 \<Rightarrow> u64 \<Rightarrow> u64 \<Rightarrow> display \<Rightarrow> display" where
  "framebuffer_init address width height pitch d =
     d\<lparr>fb := address, fb_address := address, fb_width := width, fb_height := height, fb_pitch := pitch div 4\<rparr>"

text \<open>The address of \<open>fb[index]\<close>.\<close>

definition pixel_address :: "display \<Rightarrow> u64 \<Rightarrow> u64" where
  "pixel_address d index = fb d + 4 * index"

definition framebuffer_putpixel :: "u64 \<Rightarrow> u64 \<Rightarrow> u32 \<Rightarrow> display \<Rightarrow> display" where
  "framebuffer_putpixel x y color d =
     (if x \<ge> fb_width d \<or> y \<ge> fb_height d then d
      else d\<lparr>fb_mem := store_u32 (pixel_address d (y * fb_pitch d + x)) color (fb_mem d)\<rparr>)"

definition framebuffer_clear :: "u32 \<Rightarrow> display \<Rightarrow> display" where
  "framebuffer_clear color d =
     for_u64 0 (fb_height d) (\<lambda>y. for_u64 0 (fb_width d) (\<lambda>x. framebuffer_putpixel x y color)) d"

definition framebuffer_scroll :: "u64 \<Rightarrow> u32 \<Rightarrow> display \<Rightarrow> display" where
  "framebuffer_scroll pixels clear_color d =
     (if pixels \<ge> fb_height d then framebuffer_clear clear_color d
      else
        let row_size = fb_pitch d * 4;
            d = d\<lparr>fb_mem := k_memmove (fb d) (pixel_address d (pixels * fb_pitch d))
                    ((fb_height d - pixels) * row_size) (fb_mem d)\<rparr>;
            bottom = pixel_address d ((fb_height d - pixels) * fb_pitch d)
        in for_u64 0 pixels (\<lambda>y. for_u64 0 (fb_width d) (\<lambda>x d.
             d\<lparr>fb_mem := store_u32 (bottom + 4 * (y * fb_pitch d + x)) clear_color (fb_mem d)\<rparr>)) d)"

definition framebuffer_width :: "display \<Rightarrow> u64" where "framebuffer_width d = fb_width d"

definition framebuffer_height :: "display \<Rightarrow> u64" where "framebuffer_height d = fb_height d"

definition framebuffer_pitch :: "display \<Rightarrow> u64" where "framebuffer_pitch d = fb_pitch d"

definition framebuffer_address :: "display \<Rightarrow> u64" where "framebuffer_address d = fb_address d"

section \<open>Drawing primitives\<close>

definition draw_pixel :: "u64 \<Rightarrow> u64 \<Rightarrow> u32 \<Rightarrow> display \<Rightarrow> display" where
  "draw_pixel x y color d =
     (let width = framebuffer_width d; height = framebuffer_height d in
      if x \<ge> width \<or> y \<ge> height then d else framebuffer_putpixel x y color d)"

definition draw_rect :: "u64 \<Rightarrow> u64 \<Rightarrow> u64 \<Rightarrow> u64 \<Rightarrow> u32 \<Rightarrow> display \<Rightarrow> display" where
  "draw_rect x y width height color d =
     for_u64 y (y + height) (\<lambda>yy. for_u64 x (x + width) (\<lambda>xx. draw_pixel xx yy color)) d"

definition fill_rect :: "u64 \<Rightarrow> u64 \<Rightarrow> u64 \<Rightarrow> u64 \<Rightarrow> u32 \<Rightarrow> display \<Rightarrow> display" where
  "fill_rect x y width height color d =
     for_u64 y (y + height) (\<lambda>py. for_u64 x (x + width) (\<lambda>px. draw_pixel px py color)) d"

text \<open>One turn of the loop of \<open>draw_line\<close> after the pixel is drawn: the new error and point.\<close>

definition line_step :: "u32 \<Rightarrow> u32 \<Rightarrow> u32 \<Rightarrow> u32 \<Rightarrow> u32 \<Rightarrow> u32 \<Rightarrow> u32 \<Rightarrow> u32 \<times> u32 \<times> u32" where
  "line_step dx dy sx sy err x0 y0 =
     (let e2 = 2 * err;
          (err, x0) = (if sint e2 \<ge> sint dy then (err + dy, x0 + sx) else (err, x0));
          (err, y0) = (if sint e2 \<le> sint dx then (err + dx, y0 + sy) else (err, y0))
      in (err, x0, y0))"

partial_function (option) draw_line_loop ::
  "u32 \<Rightarrow> u32 \<Rightarrow> u32 \<Rightarrow> u32 \<Rightarrow> u32 \<Rightarrow> u32 \<Rightarrow> u32 \<Rightarrow> u32 \<Rightarrow> u32 \<Rightarrow> u32 \<Rightarrow> display \<Rightarrow> display option" where
  "draw_line_loop dx dy sx sy x1 y1 color err x0 y0 d =
     (let d = draw_pixel (scast x0) (scast y0) color d in
      if x0 = x1 \<and> y0 = y1 then Some d
      else case line_step dx dy sx sy err x0 y0 of (err, x0, y0) \<Rightarrow>
        draw_line_loop dx dy sx sy x1 y1 color err x0 y0 d)"

definition draw_line :: "u32 \<Rightarrow> u32 \<Rightarrow> u32 \<Rightarrow> u32 \<Rightarrow> u32 \<Rightarrow> display \<Rightarrow> display option" where
  "draw_line x0 y0 x1 y1 color d =
     (let dx = abs_int (x1 - x0);
          sx = (if sint x0 < sint x1 then 1 else - 1);
          dy = - abs_int (y1 - y0);
          sy = (if sint y0 < sint y1 then 1 else - 1);
          err = dx + dy
      in draw_line_loop dx dy sx sy x1 y1 color err x0 y0 d)"

section \<open>Font\<close>

definition font8x8_basic :: "u8 list list" where
  "font8x8_basic = [
    [0, 0, 0, 0, 0, 0, 0, 0], [0, 0, 0, 0, 0, 0, 0, 0],
    [0, 0, 0, 0, 0, 0, 0, 0], [0, 0, 0, 0, 0, 0, 0, 0],
    [0, 0, 0, 0, 0, 0, 0, 0], [0, 0, 0, 0, 0, 0, 0, 0],
    [0, 0, 0, 0, 0, 0, 0, 0], [0, 0, 0, 0, 0, 0, 0, 0],
    [0, 0, 0, 0, 0, 0, 0, 0], [0, 0, 0, 0, 0, 0, 0, 0],
    [0, 0, 0, 0, 0, 0, 0, 0], [0, 0, 0, 0, 0, 0, 0, 0],
    [0, 0, 0, 0, 0, 0, 0, 0], [0, 0, 0, 0, 0, 0, 0, 0],
    [0, 0, 0, 0, 0, 0, 0, 0], [0, 0, 0, 0, 0, 0, 0, 0],
    [0, 0, 0, 0, 0, 0, 0, 0], [0, 0, 0, 0, 0, 0, 0, 0],
    [0, 0, 0, 0, 0, 0, 0, 0], [0, 0, 0, 0, 0, 0, 0, 0],
    [0, 0, 0, 0, 0, 0, 0, 0], [0, 0, 0, 0, 0, 0, 0, 0],
    [0, 0, 0, 0, 0, 0, 0, 0], [0, 0, 0, 0, 0, 0, 0, 0],
    [0, 0, 0, 0, 0, 0, 0, 0], [0, 0, 0, 0, 0, 0, 0, 0],
    [0, 0, 0, 0, 0, 0, 0, 0], [0, 0, 0, 0, 0, 0, 0, 0],
    [0, 0, 0, 0, 0, 0, 0, 0], [0, 0, 0, 0, 0, 0, 0, 0],
    [0, 0, 0, 0, 0, 0, 0, 0], [0, 0, 0, 0, 0, 0, 0, 0],
    [0, 0, 0, 0, 0, 0, 0, 0], [0x18, 0x3C, 0x3C, 0x18, 0x18, 0, 0x18, 0],
    [0x36, 0x36, 0, 0, 0, 0, 0, 0], [0x36, 0x36, 0x7F, 0x36, 0x7F, 0x36, 0x36, 0],
    [0x0C, 0x3E, 0x03, 0x1E, 0x30, 0x1F, 0x0C, 0], [0, 0x63, 0x33, 0x18, 0x0C, 0x66, 0x63, 0],
    [0x1C, 0x36, 0x1C, 0x6E, 0x3B, 0x33, 0x6E, 0], [0x06, 0x06, 0x03, 0, 0, 0, 0, 0],
    [0x18, 0x0C, 0x06, 0x06, 0x06, 0x0C, 0x18, 0], [0x06, 0x0C, 0x18, 0x18, 0x18, 0x0C, 0x06, 0],
    [0, 0x66, 0x3C, 0xFF, 0x3C, 0x66, 0, 0], [0, 0x0C, 0x0C, 0x3F, 0x0C, 0x0C, 0, 0],
    [0, 0, 0, 0, 0, 0x0C, 0x0C, 0x06], [0, 0, 0, 0x3F, 0, 0, 0, 0],
    [0, 0, 0, 0, 0, 0x0C, 0x0C, 0], [0x60, 0x30, 0x18, 0x0C, 0x06, 0x03, 0x01, 0],
    [0x3E, 0x63, 0x73, 0x7B, 0x6F, 0x67, 0x3E, 0], [0x0C, 0x0E, 0x0C, 0x0C, 0x0C, 0x0C, 0x3F, 0],
    [0x1E, 0x33, 0x30, 0x1C, 0x06, 0x33, 0x3F, 0], [0x1E, 0x33, 0x30, 0x1C, 0x30, 0x33, 0x1E, 0],
    [0x38, 0x3C, 0x36, 0x33, 0x7F, 0x30, 0x78, 0], [0x3F, 0x03, 0x1F, 0x30, 0x30, 0x33, 0x1E, 0],
    [0x1C, 0x06, 0x03, 0x1F, 0x33, 0x33, 0x1E, 0], [0x3F, 0x33, 0x30, 0x18, 0x0C, 0x0C, 0x0C, 0],
    [0x1E, 0x33, 0x33, 0x1E, 0x33, 0x33, 0x1E, 0], [0x1E, 0x33, 0x33, 0x3E, 0x30, 0x18, 0x0E, 0],
    [0, 0x0C, 0x0C, 0, 0, 0x0C, 0x0C, 0], [0, 0x0C, 0x0C, 0, 0, 0x0C, 0x0C, 0x06],
    [0x18, 0x0C, 0x06, 0x03, 0x06, 0x0C, 0x18, 0], [0, 0, 0x3F, 0, 0, 0x3F, 0, 0],
    [0x06, 0x0C, 0x18, 0x30, 0x18, 0x0C, 0x06, 0], [0x1E, 0x33, 0x30, 0x18, 0x0C, 0, 0x0C, 0],
    [0x3E, 0x63, 0x7B, 0x7B, 0x7B, 0x03, 0x1E, 0], [0x0C, 0x1E, 0x33, 0x33, 0x3F, 0x33, 0x33, 0],
    [0x3F, 0x66, 0x66, 0x3E, 0x66, 0x66, 0x3F, 0], [0x3C, 0x66, 0x03, 0x03, 0x03, 0x66, 0x3C, 0],
    [0x1F, 0x36, 0x66, 0x66, 0x66, 0x36, 0x1F, 0], [0x7F, 0x46, 0x16, 0x1E, 0x16, 0x46, 0x7F, 0],
    [0x7F, 0x46, 0x16, 0x1E, 0x16, 0x06, 0x0F, 0], [0x3C, 0x66, 0x03, 0x03, 0x73, 0x66, 0x7C, 0],
    [0x33, 0x33, 0x33, 0x3F, 0x33, 0x33, 0x33, 0], [0x1E, 0x0C, 0x0C, 0x0C, 0x0C, 0x0C, 0x1E, 0],
    [0x78, 0x30, 0x30, 0x30, 0x33, 0x33, 0x1E, 0], [0x67, 0x66, 0x36, 0x1E, 0x36, 0x66, 0x67, 0],
    [0x0F, 0x06, 0x06, 0x06, 0x46, 0x66, 0x7F, 0], [0x63, 0x77, 0x7F, 0x7F, 0x6B, 0x63, 0x63, 0],
    [0x63, 0x67, 0x6F, 0x7B, 0x73, 0x63, 0x63, 0], [0x1C, 0x36, 0x63, 0x63, 0x63, 0x36, 0x1C, 0],
    [0x3F, 0x66, 0x66, 0x3E, 0x06, 0x06, 0x0F, 0], [0x1E, 0x33, 0x33, 0x33, 0x3B, 0x1E, 0x38, 0],
    [0x3F, 0x66, 0x66, 0x3E, 0x36, 0x66, 0x67, 0], [0x1E, 0x33, 0x07, 0x0E, 0x38, 0x33, 0x1E, 0],
    [0x3F, 0x2D, 0x0C, 0x0C, 0x0C, 0x0C, 0x1E, 0], [0x33, 0x33, 0x33, 0x33, 0x33, 0x33, 0x3F, 0],
    [0x33, 0x33, 0x33, 0x33, 0x33, 0x1E, 0x0C, 0], [0x63, 0x63, 0x63, 0x6B, 0x7F, 0x77, 0x63, 0],
    [0x63, 0x63, 0x36, 0x1C, 0x1C, 0x36, 0x63, 0], [0x33, 0x33, 0x33, 0x1E, 0x0C, 0x0C, 0x1E, 0],
    [0x7F, 0x63, 0x31, 0x18, 0x4C, 0x66, 0x7F, 0], [0x1E, 0x06, 0x06, 0x06, 0x06, 0x06, 0x1E, 0],
    [0x03, 0x06, 0x0C, 0x18, 0x30, 0x60, 0x40, 0], [0x1E, 0x18, 0x18, 0x18, 0x18, 0x18, 0x1E, 0],
    [0x08, 0x1C, 0x36, 0x63, 0, 0, 0, 0], [0, 0, 0, 0, 0, 0, 0, 0xFF],
    [0x0C, 0x0C, 0x18, 0, 0, 0, 0, 0], [0, 0, 0x1E, 0x30, 0x3E, 0x33, 0x6E, 0],
    [0x07, 0x06, 0x06, 0x3E, 0x66, 0x66, 0x3B, 0], [0, 0, 0x1E, 0x33, 0x03, 0x33, 0x1E, 0],
    [0x38, 0x30, 0x30, 0x3E, 0x33, 0x33, 0x6E, 0], [0, 0, 0x1E, 0x33, 0x3F, 0x03, 0x1E, 0],
    [0x1C, 0x36, 0x06, 0x0F, 0x06, 0x06, 0x0F, 0], [0, 0, 0x6E, 0x33, 0x33, 0x3E, 0x30, 0x1F],
    [0x07, 0x06, 0x36, 0x6E, 0x66, 0x66, 0x67, 0], [0x0C, 0, 0x0E, 0x0C, 0x0C, 0x0C, 0x1E, 0],
    [0x30, 0, 0x30, 0x30, 0x30, 0x33, 0x33, 0x1E], [0x07, 0x06, 0x66, 0x36, 0x1E, 0x36, 0x67, 0],
    [0x0E, 0x0C, 0x0C, 0x0C, 0x0C, 0x0C, 0x1E, 0], [0, 0, 0x33, 0x7F, 0x7F, 0x6B, 0x63, 0],
    [0, 0, 0x1F, 0x33, 0x33, 0x33, 0x33, 0], [0, 0, 0x1E, 0x33, 0x33, 0x33, 0x1E, 0],
    [0, 0, 0x3B, 0x66, 0x66, 0x3E, 0x06, 0x0F], [0, 0, 0x6E, 0x33, 0x33, 0x3E, 0x30, 0x78],
    [0, 0, 0x3B, 0x6E, 0x66, 0x06, 0x0F, 0], [0, 0, 0x3E, 0x03, 0x1E, 0x30, 0x1F, 0],
    [0x08, 0x0C, 0x3E, 0x0C, 0x0C, 0x2C, 0x18, 0], [0, 0, 0x33, 0x33, 0x33, 0x33, 0x6E, 0],
    [0, 0, 0x33, 0x33, 0x33, 0x1E, 0x0C, 0], [0, 0, 0x63, 0x6B, 0x7F, 0x7F, 0x36, 0],
    [0, 0, 0x63, 0x36, 0x1C, 0x36, 0x63, 0], [0, 0, 0x33, 0x33, 0x33, 0x3E, 0x30, 0x1F],
    [0, 0, 0x3F, 0x19, 0x0C, 0x26, 0x3F, 0], [0x38, 0x0C, 0x0C, 0x07, 0x0C, 0x0C, 0x38, 0],
    [0x18, 0x18, 0x18, 0, 0x18, 0x18, 0x18, 0], [0x07, 0x0C, 0x0C, 0x38, 0x0C, 0x0C, 0x07, 0],
    [0x6E, 0x3B, 0, 0, 0, 0, 0, 0], [0, 0, 0, 0, 0, 0, 0, 0]]"

definition font_set_scale :: "u32 \<Rightarrow> display \<Rightarrow> display" where
  "font_set_scale scale d = (let scale = (if scale = 0 then 1 else scale) in d\<lparr>font_scale := scale\<rparr>)"

definition font_get_scale :: "display \<Rightarrow> u32" where "font_get_scale d = font_scale d"

definition draw_char_scaled :: "u32 \<Rightarrow> u32 \<Rightarrow> u8 \<Rightarrow> u32 \<Rightarrow> u32 \<Rightarrow> display \<Rightarrow> display" where
  "draw_char_scaled x y c color scale d =
     (if sint c < 0 \<or> sint c > 127 then d
      else fold (\<lambda>row d.
             let bits = font8x8_basic ! unat c ! row in
             fold (\<lambda>col d.
               if bits AND push_bit col 1 \<noteq> 0
               then draw_rect (ucast (x + of_nat col * scale)) (ucast (y + of_nat row * scale))
                      (ucast scale) (ucast scale) color d
               else d) [0..<8] d) [0..<8] d)"

definition draw_char :: "u32 \<Rightarrow> u32 \<Rightarrow> u8 \<Rightarrow> u32 \<Rightarrow> display \<Rightarrow> display" where
  "draw_char x y c color d = draw_char_scaled x y c color (font_scale d) d"

fun draw_text_scaled :: "u32 \<Rightarrow> u32 \<Rightarrow> u8 list \<Rightarrow> u32 \<Rightarrow> u32 \<Rightarrow> u32 \<Rightarrow> display \<Rightarrow> display" where
  "draw_text_scaled x y [] color scale spacing d = d"
| "draw_text_scaled x y (c # text) color scale spacing d =
     draw_text_scaled (x + (8 * scale + spacing)) y text color scale spacing (draw_char_scaled x y c color scale d)"

definition draw_string :: "u32 \<Rightarrow> u32 \<Rightarrow> u8 list \<Rightarrow> u32 \<Rightarrow> display \<Rightarrow> display" where
  "draw_string x y str color d = draw_text_scaled x y str color (font_scale d) (letter_spacing d) d"

text \<open>The loop of \<open>draw_text\<close>, whose \<open>size_t\<close> position is truncated to the \<open>int\<close> parameters of \<open>draw_char_scaled\<close>.\<close>

fun draw_text_loop :: "u64 \<Rightarrow> u64 \<Rightarrow> u8 list \<Rightarrow> u32 \<Rightarrow> u32 \<Rightarrow> display \<Rightarrow> display" where
  "draw_text_loop x y [] color scale d = d"
| "draw_text_loop x y (c # text) color scale d =
     (if c = 10 then draw_text_loop 0 (y + ucast (8 * scale)) text color scale d
      else draw_text_loop (x + ucast (8 * scale)) y text color scale (draw_char_scaled (ucast x) (ucast y) c color scale d))"

definition draw_text :: "u64 \<Rightarrow> u64 \<Rightarrow> u8 list option \<Rightarrow> u32 \<Rightarrow> display \<Rightarrow> display" where
  "draw_text x y text color d =
     (case text of None \<Rightarrow> d | Some text \<Rightarrow> draw_text_loop x y text color (font_get_scale d) d)"

definition font_text_width_scaled :: "u8 list \<Rightarrow> u32 \<Rightarrow> u32 \<Rightarrow> u64" where
  "font_text_width_scaled text scale spacing =
     (let len = of_nat (length text) :: u64 in
      if len = 0 then 0 else len * ucast (8 * scale) + (len - 1) * ucast spacing)"

definition font_text_width :: "u8 list \<Rightarrow> display \<Rightarrow> u64" where
  "font_text_width text d = font_text_width_scaled text (font_scale d) 0"

end
