(* ===== verification/Drawing.thy ===== *)
theory Drawing
  imports Graphics
begin

text \<open>
  What the drawing primitives paint. The interface is a canvas of points that can be set and read;
  over it, a sequence of points drawn in one colour paints exactly those of them that are visible and
  leaves everything else alone. The framebuffer is a canvas: its visible pixels are disjoint words of
  memory when the rows fit the pitch and the buffer does not wrap around the address space.
  Rectangles, cleared screens and lines are such sequences; for lines this includes that the loop of
  \<open>draw_line\<close> ends.
\<close>

section \<open>Canvas\<close>

locale canvas =
  fixes put :: "'p \<Rightarrow> 'c \<Rightarrow> 's \<Rightarrow> 's"
    and get :: "'s \<Rightarrow> 'p \<Rightarrow> 'c"
    and vis :: "'s \<Rightarrow> 'p \<Rightarrow> bool"
    and ok :: "'s \<Rightarrow> bool"
    and rest :: "'s \<Rightarrow> 'r"
  assumes ok_put: "ok s \<Longrightarrow> ok (put p c s)"
    and vis_put: "vis (put p c s) q \<longleftrightarrow> vis s q"
    and get_put: "ok s \<Longrightarrow> vis s q \<Longrightarrow> get (put p c s) q = (if p = q then c else get s q)"
    and rest_put: "ok s \<Longrightarrow> rest (put p c s) = rest s"
begin

text \<open>The relation between a state and the state in which the points of \<open>A\<close> are painted in the colour \<open>c\<close>.\<close>

definition painted :: "'p set \<Rightarrow> 'c \<Rightarrow> 's \<Rightarrow> 's \<Rightarrow> bool" where
  "painted A c s s' \<longleftrightarrow> ok s' \<and> vis s' = vis s \<and> rest s' = rest s \<and>
     (\<forall>q. vis s q \<longrightarrow> get s' q = (if q \<in> A then c else get s q))"

lemma painted_empty: "ok s \<Longrightarrow> painted {} c s s"
  by (simp add: painted_def)

lemma painted_put: "ok s \<Longrightarrow> painted {p} c s (put p c s)"
  by (auto simp: painted_def ok_put get_put rest_put fun_eq_iff vis_put)

lemma painted_trans: "painted A c s t \<Longrightarrow> painted B c t u \<Longrightarrow> painted (A \<union> B) c s u"
  by (auto simp: painted_def)

lemma painted_fold:
  assumes "ok s" "\<And>x s. x \<in> set xs \<Longrightarrow> ok s \<Longrightarrow> painted (F x) c s (f x s)"
  shows "painted (\<Union>x \<in> set xs. F x) c s (fold f xs s)"
  using assms
proof (induction xs arbitrary: s)
  case (Cons x xs)
  have 1: "painted (F x) c s (f x s)" using Cons.prems by simp
  then have "ok (f x s)" by (simp add: painted_def)
  then have "painted (\<Union>x \<in> set xs. F x) c (f x s) (fold f xs (f x s))" using Cons by simp
  from painted_trans [OF 1 this] show ?case by simp
qed (simp add: painted_empty)

lemma painted_points: "ok s \<Longrightarrow> painted (set ps) c s (fold (\<lambda>p. put p c) ps s)"
  using painted_fold [of s ps "\<lambda>p. {p}" c "\<lambda>p. put p c"] by (simp add: painted_put)

end

section \<open>The framebuffer as a canvas\<close>

type_synonym point = "u64 \<times> u64"

definition put_point :: "point \<Rightarrow> u32 \<Rightarrow> display \<Rightarrow> display" where
  "put_point p color d = framebuffer_putpixel (fst p) (snd p) color d"

definition point_address :: "display \<Rightarrow> point \<Rightarrow> u64" where
  "point_address d p = pixel_address d (snd p * fb_pitch d + fst p)"

definition get_point :: "display \<Rightarrow> point \<Rightarrow> u32" where
  "get_point d p = load_u32 (fb_mem d) (point_address d p)"

definition on_screen :: "display \<Rightarrow> point \<Rightarrow> bool" where
  "on_screen d p \<longleftrightarrow> fst p < fb_width d \<and> snd p < fb_height d"

definition display_ok :: "display \<Rightarrow> bool" where
  "display_ok d \<longleftrightarrow> fb_width d \<le> fb_pitch d \<and>
     unat (fb d) + 4 * (unat (fb_pitch d) * unat (fb_height d)) \<le> 18446744073709551616"

text \<open>What drawing must leave alone: the geometry, the font settings and the bytes of no visible pixel.\<close>

definition off_screen :: "display \<Rightarrow> display" where
  "off_screen d = d\<lparr>fb_mem := (\<lambda>a. if \<exists>p. on_screen d p \<and> a - point_address d p < 4 then 0 else fb_mem d a)\<rparr>"

lemma pixel_index_bounds:
  fixes f i n :: nat
  assumes "i + 1 \<le> n" "f + 4 * n \<le> 18446744073709551616"
  shows "f + 4 * i + 4 \<le> 18446744073709551616"
  using assms by linarith

lemma index_parts:
  fixes f a x :: nat
  assumes "f + 4 * (a + x) + 4 \<le> 18446744073709551616"
  shows "a < 18446744073709551616" "a + x < 18446744073709551616" "4 * (a + x) < 18446744073709551616"
    "f + 4 * (a + x) < 18446744073709551616"
  using assms by simp_all

lemma index_apart:
  fixes i j :: nat shows "i \<noteq> j \<Longrightarrow> f + 4 * i + 4 \<le> f + 4 * j \<or> f + 4 * j + 4 \<le> f + 4 * i"
  by linarith

lemma point_index:
  assumes "display_ok d" "on_screen d p"
  shows "unat (point_address d p) = unat (fb d) + 4 * (unat (snd p) * unat (fb_pitch d) + unat (fst p))"
    and "unat (point_address d p) + 4 \<le> 18446744073709551616"
proof -
  let ?w = "unat (fb_pitch d)" and ?h = "unat (fb_height d)" and ?x = "unat (fst p)" and ?y = "unat (snd p)"
  have x: "?x < ?w" using assms by (auto simp: display_ok_def on_screen_def word_less_nat_alt word_le_nat_alt)
  have y: "Suc ?y \<le> ?h" using assms by (simp add: on_screen_def word_less_nat_alt Suc_le_eq)
  have "?y * ?w + ?x + 1 \<le> Suc ?y * ?w" using x by simp
  also have "\<dots> \<le> ?h * ?w" using y by (rule mult_le_mono1)
  finally have i: "?y * ?w + ?x + 1 \<le> ?w * ?h" by (simp add: mult.commute)
  have f: "unat (fb d) + 4 * (?w * ?h) \<le> 18446744073709551616" using assms(1) by (simp add: display_ok_def)
  have b: "unat (fb d) + 4 * (?y * ?w + ?x) + 4 \<le> 18446744073709551616" by (rule pixel_index_bounds [OF i f])
  note parts = index_parts [OF b]
  have 1: "unat (snd p * fb_pitch d) = ?y * ?w" by (rule unat_mult_no_wrap [OF parts(1)])
  have 2: "unat (snd p * fb_pitch d + fst p) = ?y * ?w + ?x"
    using unat_plus_no_wrap [of "snd p * fb_pitch d" "fst p"] parts(2) by (simp only: 1)
  have 3: "unat (4 * (snd p * fb_pitch d + fst p)) = 4 * (?y * ?w + ?x)"
    using unat_mult_no_wrap [of 4 "snd p * fb_pitch d + fst p"] parts(3) by (simp add: 2)
  show 4: "unat (point_address d p) = unat (fb d) + 4 * (?y * ?w + ?x)"
    unfolding point_address_def pixel_address_def using unat_plus_no_wrap [of "fb d"] parts(4) by (simp only: 3)
  show "unat (point_address d p) + 4 \<le> 18446744073709551616" unfolding 4 by (rule b)
qed

lemma points_apart:
  assumes "display_ok d" "on_screen d p" "on_screen d q" "p \<noteq> q"
  shows "unat (point_address d p) + 4 \<le> unat (point_address d q) \<or> unat (point_address d q) + 4 \<le> unat (point_address d p)"
proof -
  let ?w = "unat (fb_pitch d)" and ?i = "\<lambda>p :: point. unat (snd p) * unat (fb_pitch d) + unat (fst p)"
  have w: "unat (fst p) < ?w" "unat (fst q) < ?w"
    using assms by (auto simp: display_ok_def on_screen_def word_less_nat_alt word_le_nat_alt)
  have "?i r div ?w = unat (snd r)" "?i r mod ?w = unat (fst r)" if "unat (fst r) < ?w" for r :: point
    using that by simp_all
  then have "?i p \<noteq> ?i q"
    using assms(4) w by (metis prod_eq_iff word_unat_eq_iff)
  then show ?thesis unfolding point_index(1) [OF assms(1,2)] point_index(1) [OF assms(1,3)] by (rule index_apart)
qed

lemma put_point_frame [simp]:
  "fb (put_point p c d) = fb d" "fb_width (put_point p c d) = fb_width d" "fb_height (put_point p c d) = fb_height d"
  "fb_pitch (put_point p c d) = fb_pitch d" "on_screen (put_point p c d) q \<longleftrightarrow> on_screen d q"
  "point_address (put_point p c d) q = point_address d q" "display_ok (put_point p c d) \<longleftrightarrow> display_ok d"
  by (simp_all add: put_point_def framebuffer_putpixel_def on_screen_def point_address_def pixel_address_def display_ok_def)

lemma put_point_mem:
  "fb_mem (put_point p c d) = (if on_screen d p then store_u32 (point_address d p) c (fb_mem d) else fb_mem d)"
  by (auto simp: put_point_def framebuffer_putpixel_def on_screen_def point_address_def not_le)

lemma put_point_upd: "(put_point p c d)\<lparr>fb_mem := m\<rparr> = d\<lparr>fb_mem := m\<rparr>"
  by (simp add: put_point_def framebuffer_putpixel_def)

interpretation fbc: canvas put_point get_point on_screen display_ok off_screen
proof unfold_locales
  fix d :: display and p q :: point and c :: u32
  assume ok: "display_ok d"
  show "get_point (put_point p c d) q = (if p = q then c else get_point d q)" if "on_screen d q"
    using load_store_u32_apart [OF points_apart [OF ok]] point_index(2) [OF ok] that
    by (auto simp: get_point_def put_point_mem load_store_u32_same)
  have "fb_mem (put_point p c d) a = fb_mem d a" if "\<not> (\<exists>q. on_screen d q \<and> a - point_address d q < 4)" for a
    using that [unfolded not_ex, rule_format, of p] by (auto simp: put_point_mem store_u32_def)
  then have "(\<lambda>a. if \<exists>q. on_screen d q \<and> a - point_address d q < 4 then 0 else fb_mem (put_point p c d) a) =
      (\<lambda>a. if \<exists>q. on_screen d q \<and> a - point_address d q < 4 then 0 else fb_mem d a)"
    by (intro ext if_cong refl) blast
  then show "off_screen (put_point p c d) = off_screen d"
    unfolding off_screen_def put_point_frame put_point_upd by simp
qed simp_all

text \<open>The relation of the canvas written out for the framebuffer.\<close>

definition paints :: "point set \<Rightarrow> u32 \<Rightarrow> display \<Rightarrow> display \<Rightarrow> bool" where
  "paints A color d d' \<longleftrightarrow> display_ok d' \<and> on_screen d' = on_screen d \<and> off_screen d' = off_screen d \<and>
     (\<forall>q. on_screen d q \<longrightarrow> get_point d' q = (if q \<in> A then color else get_point d q))"

lemma paints_painted: "paints = fbc.painted"
  by (intro ext) (simp add: paints_def fbc.painted_def)

lemmas paints_intros = fbc.painted_fold [folded paints_painted] fbc.painted_put [folded paints_painted]
  fbc.painted_empty [folded paints_painted] fbc.painted_points [folded paints_painted]

section \<open>Rectangles and glyphs\<close>

lemma draw_pixel_put: "draw_pixel x y color d = put_point (x, y) color d"
  by (simp add: draw_pixel_def put_point_def framebuffer_putpixel_def framebuffer_width_def framebuffer_height_def)

lemma paints_loop:
  assumes "display_ok d" "\<And>i d. a \<le> i \<Longrightarrow> i < b \<Longrightarrow> display_ok d \<Longrightarrow> paints (F i) color d (body i d)"
  shows "paints (\<Union>i \<in> {a..<b}. F i) color d (for_u64 a b body d)"
  unfolding for_u64_def using paints_intros(1) [of d "u64_range a b" F color body] assms by auto

lemma paints_block:
  assumes "display_ok d"
  shows "paints ({x..<x'} \<times> {y..<y'}) color d (for_u64 y y' (\<lambda>py. for_u64 x x' (\<lambda>px. put_point (px, py) color)) d)"
proof -
  have r: "paints (\<Union>px \<in> {x..<x'}. {(px, py)}) color d (for_u64 x x' (\<lambda>px. put_point (px, py) color) d)"
    if "display_ok d" for py d using that by (intro paints_loop paints_intros(2))
  have "paints (\<Union>py \<in> {y..<y'}. \<Union>px \<in> {x..<x'}. {(px, py)}) color d
      (for_u64 y y' (\<lambda>py. for_u64 x x' (\<lambda>px. put_point (px, py) color)) d)"
    by (intro paints_loop r assms)
  moreover have "(\<Union>py \<in> {y..<y'}. \<Union>px \<in> {x..<x'}. {(px, py)}) = {x..<x'} \<times> {y..<y'}" by auto
  ultimately show ?thesis by simp
qed

lemma draw_rect_paints:
  "display_ok d \<Longrightarrow> paints ({x..<x + width} \<times> {y..<y + height}) color d (draw_rect x y width height color d)"
  unfolding draw_rect_def draw_pixel_put by (rule paints_block)

lemma clear_put: "framebuffer_clear color d =
    for_u64 0 (fb_height d) (\<lambda>y. for_u64 0 (fb_width d) (\<lambda>x. put_point (x, y) color)) d"
  by (simp add: framebuffer_clear_def put_point_def [abs_def])

text \<open>The pixels of a character: the squares of the set bits of its glyph.\<close>

definition glyph :: "u32 \<Rightarrow> u32 \<Rightarrow> u8 \<Rightarrow> u32 \<Rightarrow> point set" where
  "glyph x y c scale =
     (\<Union>row \<in> {0..<8}. \<Union>col \<in> {0..<8}.
        if bit (font8x8_basic ! unat c ! row) col
        then {ucast (x + of_nat col * scale)..<ucast (x + of_nat col * scale) + ucast scale} \<times>
             {ucast (y + of_nat row * scale)..<ucast (y + of_nat row * scale) + ucast scale}
        else {})"

lemma draw_char_paints:
  assumes "display_ok d" "0 \<le> sint c"
  shows "paints (glyph x y c scale) color d (draw_char_scaled x y c color scale d)"
proof -
  have l: "\<not> (sint c < 0 \<or> sint c > 127)" using assms(2) sint_lt [of c] by simp
  have b: "(v AND push_bit col 1 \<noteq> 0) = bit v col" for v :: u8 and col by (simp add: bit_iff_and_push_bit_not_eq_0)
  let ?S = "\<lambda>row col. {ucast (x + of_nat col * scale) :: u64..<ucast (x + of_nat col * scale) + ucast scale} \<times>
        {ucast (y + of_nat row * scale) :: u64..<ucast (y + of_nat row * scale) + ucast scale}"
  let ?B = "\<lambda>row col. if bit (font8x8_basic ! unat c ! row) col then ?S row col else {}"
  let ?F = "\<lambda>row d. fold (\<lambda>col d. if bit (font8x8_basic ! unat c ! row) col
      then draw_rect (ucast (x + of_nat col * scale)) (ucast (y + of_nat row * scale)) (ucast scale) (ucast scale) color d
      else d) [0..<8] d"
  have row: "paints (\<Union>col \<in> set [0..<8]. ?B row col) color d (?F row d)" if "display_ok d" for row d
    using that by (intro paints_intros(1)) (auto intro: draw_rect_paints paints_intros(3))
  have "paints (\<Union>row \<in> set [0..<8]. \<Union>col \<in> set [0..<8]. ?B row col) color d (fold ?F [0..<8] d)"
    by (intro paints_intros(1) row assms(1))
  moreover have "(\<Union>row \<in> set [0..<8]. \<Union>col \<in> set [0..<8]. ?B row col) = glyph x y c scale"
    unfolding glyph_def set_upt ..
  ultimately show ?thesis unfolding draw_char_scaled_def Let_def b if_not_P [OF l] by (simp only:)
qed

section \<open>Lines\<close>

lemma sint_u32_eq:
  assumes "- 2147483648 \<le> i" "i < 2147483648"
  shows "signed_take_bit 31 i = (i :: int)"
  using assms by (intro signed_take_bit_int_eq_self) simp_all

lemma sint_add_u32:
  assumes "- 2147483648 \<le> sint a + sint b" "sint a + sint b < 2147483648"
  shows "sint (a + b :: u32) = sint a + sint b"
  using sint_u32_eq [OF assms] by (simp add: sint_word_ariths(1))

lemma sint_sub_u32:
  assumes "- 2147483648 \<le> sint a - sint b" "sint a - sint b < 2147483648"
  shows "sint (a - b :: u32) = sint a - sint b"
  using sint_u32_eq [OF assms] by (simp add: sint_word_ariths(2))

lemma sint_neg_u32:
  assumes "- 2147483648 < sint (a :: u32)"
  shows "sint (- a) = - sint a"
  using sint_u32_eq [of "- sint a"] assms sint_lt [of a] sint_ge [of a] by (simp add: sint_word_ariths(4))

lemma sint_abs_u32:
  assumes "- 2147483648 < sint (a :: u32)"
  shows "sint (abs_int a) = \<bar>sint a\<bar>"
  using sint_neg_u32 [OF assms] by (simp add: abs_int_def)

text \<open>
  The loop in integers: after \<open>a\<close> steps along x and \<open>b\<close> steps along y towards an end point \<open>D\<close> and \<open>E\<close>
  steps away, the error is \<open>(b + 1) D - (a + 1) E\<close>.
\<close>

definition line_err :: "int \<Rightarrow> int \<Rightarrow> int \<Rightarrow> int \<Rightarrow> int" where
  "line_err D E a b = (b + 1) * D - (a + 1) * E"

definition line_ok :: "int \<Rightarrow> int \<Rightarrow> int \<Rightarrow> int \<Rightarrow> bool" where
  "line_ok D E a b \<longleftrightarrow> 0 \<le> a \<and> a \<le> D \<and> 0 \<le> b \<and> b \<le> E \<and>
     - 3 * E \<le> 2 * line_err D E a b \<and> 2 * line_err D E a b \<le> 3 * D"

definition moves_x :: "int \<Rightarrow> int \<Rightarrow> int \<Rightarrow> int \<Rightarrow> int" where
  "moves_x D E a b = (if 2 * line_err D E a b \<ge> - E then 1 else 0)"

definition moves_y :: "int \<Rightarrow> int \<Rightarrow> int \<Rightarrow> int \<Rightarrow> int" where
  "moves_y D E a b = (if 2 * line_err D E a b \<le> D then 1 else 0)"

lemma line_err_move: "line_err D E (a + i) (b + j) = line_err D E a b - i * E + j * D"
  by (simp add: line_err_def algebra_simps)

lemma line_no_overshoot:
  assumes "line_ok D E a b" "a \<noteq> D \<or> b \<noteq> E"
  shows "a + moves_x D E a b \<le> D" "b + moves_y D E a b \<le> E"
proof -
  have 1: "\<not> 2 * line_err D E a b \<ge> - E" if "a = D"
  proof -
    have "b + 1 \<le> E" "0 \<le> D" "0 < E" using assms that by (auto simp: line_ok_def)
    then have "(b + 1) * D \<le> E * D" by (intro mult_right_mono) simp_all
    then show ?thesis using that \<open>0 < E\<close> by (simp add: line_err_def algebra_simps)
  qed
  have 2: "\<not> 2 * line_err D E a b \<le> D" if "b = E"
  proof -
    have "a + 1 \<le> D" "0 \<le> E" "0 < D" using assms that by (auto simp: line_ok_def)
    then have "(a + 1) * E \<le> D * E" by (intro mult_right_mono) simp_all
    then show ?thesis using that \<open>0 < D\<close> by (simp add: line_err_def algebra_simps)
  qed
  show "a + moves_x D E a b \<le> D" using 1 assms by (cases "a = D") (auto simp: moves_x_def line_ok_def)
  show "b + moves_y D E a b \<le> E" using 2 assms by (cases "b = E") (auto simp: moves_y_def line_ok_def)
qed

lemma line_moves: "0 \<le> D \<Longrightarrow> 0 \<le> E \<Longrightarrow> moves_x D E a b = 1 \<or> moves_y D E a b = 1"
  by (auto simp: moves_x_def moves_y_def)

lemma line_ok_step:
  assumes "line_ok D E a b" "a \<noteq> D \<or> b \<noteq> E"
  shows "line_ok D E (a + moves_x D E a b) (b + moves_y D E a b)"
  using assms line_no_overshoot [OF assms]
  unfolding line_ok_def line_err_move by (auto simp: moves_x_def moves_y_def)

text \<open>The words of the loop after \<open>a\<close> and \<open>b\<close> steps from \<open>(X, Y)\<close>.\<close>

definition line_at :: "int \<Rightarrow> int \<Rightarrow> u32 \<Rightarrow> u32 \<Rightarrow> int \<Rightarrow> int \<Rightarrow> int \<Rightarrow> int \<Rightarrow> u32 \<times> u32 \<times> u32 \<Rightarrow> bool" where
  "line_at X Y sx sy D E a b = (\<lambda>(err, x, y).
     sint err = line_err D E a b \<and> sint x = X + sint sx * a \<and> sint y = Y + sint sy * b)"

definition small_line :: "int \<Rightarrow> int \<Rightarrow> u32 \<Rightarrow> u32 \<Rightarrow> int \<Rightarrow> int \<Rightarrow> bool" where
  "small_line X Y sx sy D E \<longleftrightarrow> \<bar>X\<bar> \<le> 268435456 \<and> \<bar>Y\<bar> \<le> 268435456 \<and> D \<le> 536870912 \<and> E \<le> 536870912 \<and>
     (sint sx = 1 \<or> sint sx = - 1) \<and> (sint sy = 1 \<or> sint sy = - 1)"

lemma line_step_at:
  assumes ok: "line_ok D E a b" "a \<noteq> D \<or> b \<noteq> E" and small: "small_line X Y sx sy D E"
    and d: "sint dx = D" "sint dy = - E" and at: "line_at X Y sx sy D E a b (err, x, y)"
  shows "line_at X Y sx sy D E (a + moves_x D E a b) (b + moves_y D E a b) (line_step dx dy sx sy err x y)"
proof -
  let ?e = "line_err D E a b"
  have r: "0 \<le> a" "a \<le> D" "0 \<le> b" "b \<le> E" "- 3 * E \<le> 2 * ?e" "2 * ?e \<le> 3 * D" "D \<le> 536870912" "E \<le> 536870912"
    using ok(1) small by (auto simp: line_ok_def small_line_def)
  have e: "sint err = ?e" "sint x = X + sint sx * a" "sint y = Y + sint sy * b" using at by (simp_all add: line_at_def)
  have e2: "sint (2 * err) = 2 * ?e" unfolding mult_2 [of err] using r e by (subst sint_add_u32) simp_all
  have x1: "sint (x + sx) = X + sint sx * (a + 1)"
    using small r e by (subst sint_add_u32) (auto simp: small_line_def)
  have y1: "sint (y + sy) = Y + sint sy * (b + 1)"
    using small r e by (subst sint_add_u32) (auto simp: small_line_def)
  have ex: "sint (err + dy) = ?e - E" using r e d by (subst sint_add_u32) simp_all
  have ey: "sint (err + dx) = ?e + D" using r e d by (subst sint_add_u32) simp_all
  have exy: "sint (err + dy + dx) = ?e - E + D" using r e d ex by (subst sint_add_u32) simp_all
  show ?thesis
    using e ex ey exy x1 y1
    by (simp add: line_step_def line_at_def line_err_move moves_x_def moves_y_def e2 d Let_def)
qed

text \<open>The pixels of a line, in the order they are drawn.\<close>

definition neighbour :: "u32 \<times> u32 \<Rightarrow> u32 \<times> u32 \<Rightarrow> bool" where
  "neighbour p q \<longleftrightarrow> p \<noteq> q \<and> \<bar>sint (fst q) - sint (fst p)\<bar> \<le> 1 \<and> \<bar>sint (snd q) - sint (snd p)\<bar> \<le> 1"

definition draw_points :: "u32 \<Rightarrow> (u32 \<times> u32) list \<Rightarrow> display \<Rightarrow> display" where
  "draw_points color ps d = fold (\<lambda>(x, y). draw_pixel (scast x) (scast y) color) ps d"

lemma sint_eq_u32: "sint x = sint y \<Longrightarrow> x = (y :: u32)"
  by (rule signed_word_eqI)

lemma line_end:
  assumes "small_line X Y sx sy D E" "line_at X Y sx sy D E a b (err, x, y)" "sint x1 = X + sint sx * D" "sint y1 = Y + sint sy * E"
  shows "x = x1 \<and> y = y1 \<longleftrightarrow> a = D \<and> b = E"
proof -
  have "x = x1 \<longleftrightarrow> sint x = sint x1" "y = y1 \<longleftrightarrow> sint y = sint y1" by (auto dest: sint_eq_u32)
  then show ?thesis using assms by (auto simp: small_line_def line_at_def)
qed

lemma draw_line_loop_path:
  assumes "line_ok D E a b" "small_line X Y sx sy D E" "sint dx = D" "sint dy = - E"
    "line_at X Y sx sy D E a b (err, x, y)" "sint x1 = X + sint sx * D" "sint y1 = Y + sint sy * E"
  shows "\<exists>ps. ps \<noteq> [] \<and> hd ps = (x, y) \<and> last ps = (x1, y1) \<and> successively neighbour ps \<and>
     (\<forall>p \<in> set ps. \<exists>a b. line_ok D E a b \<and> sint (fst p) = X + sint sx * a \<and> sint (snd p) = Y + sint sy * b) \<and>
     draw_line_loop dx dy sx sy x1 y1 color err x y d = Some (draw_points color ps d)"
  using assms
proof (induction "nat ((D - a) + (E - b))" arbitrary: a b err x y d rule: less_induct)
  case less
  have fin: "x = x1 \<and> y = y1 \<longleftrightarrow> a = D \<and> b = E" by (rule line_end [OF less.prems(2,5-7)])
  have here: "sint x = X + sint sx * a" "sint y = Y + sint sy * b" using less.prems(5) by (simp_all add: line_at_def)
  show ?case
  proof (cases "a = D \<and> b = E")
    case True
    then show ?thesis
      using fin here less.prems(1) by (intro exI [of _ "[(x, y)]"]) (auto simp: draw_line_loop.simps draw_points_def)
  next
    case False
    obtain err' x' y' where st: "line_step dx dy sx sy err x y = (err', x', y')" by (cases "line_step dx dy sx sy err x y")
    let ?a = "a + moves_x D E a b" and ?b = "b + moves_y D E a b"
    have ne: "a \<noteq> D \<or> b \<noteq> E" using False by blast
    have nn: "0 \<le> D" "0 \<le> E" "a \<le> D" "b \<le> E" using less.prems(1) by (auto simp: line_ok_def)
    have at: "line_at X Y sx sy D E ?a ?b (err', x', y')" using line_step_at [OF less.prems(1) ne less.prems(2-5)] by (simp add: st)
    have ok: "line_ok D E ?a ?b" by (rule line_ok_step [OF less.prems(1) ne])
    have m: "nat ((D - ?a) + (E - ?b)) < nat ((D - a) + (E - b))"
      using line_moves [OF nn(1,2), of a b] nn ne by (auto simp: moves_x_def moves_y_def)
    let ?d = "draw_pixel (scast x) (scast y) color d"
    from less.hyps [OF m ok less.prems(2-4) at less.prems(6,7), of ?d] obtain ps where
      ps: "ps \<noteq> []" "hd ps = (x', y')" "last ps = (x1, y1)" "successively neighbour ps"
        "\<forall>p \<in> set ps. \<exists>a b. line_ok D E a b \<and> sint (fst p) = X + sint sx * a \<and> sint (snd p) = Y + sint sy * b"
        "draw_line_loop dx dy sx sy x1 y1 color err' x' y' ?d = Some (draw_points color ps ?d)" by blast
    have there: "sint x' = X + sint sx * ?a" "sint y' = Y + sint sy * ?b" using at by (simp_all add: line_at_def)
    have "sint x' - sint x = sint sx * moves_x D E a b" "sint y' - sint y = sint sy * moves_y D E a b"
      using here there by (simp_all add: algebra_simps)
    moreover have "sint sx = 1 \<or> sint sx = - 1" "sint sy = 1 \<or> sint sy = - 1" using less.prems(2) by (auto simp: small_line_def)
    ultimately have nb: "neighbour (x, y) (x', y')"
      using line_moves [OF nn(1,2), of a b] by (auto simp: neighbour_def moves_x_def moves_y_def split: if_splits)
    have "draw_line_loop dx dy sx sy x1 y1 color err x y d = draw_line_loop dx dy sx sy x1 y1 color err' x' y' ?d"
      using False fin by (subst draw_line_loop.simps) (auto simp: st Let_def)
    then show ?thesis
      using ps nb here less.prems(1)
      by (intro exI [of _ "(x, y) # ps"]) (auto simp: successively_Cons draw_points_def)
  qed
qed

definition near_line :: "int \<Rightarrow> int \<Rightarrow> int \<Rightarrow> int \<Rightarrow> int \<Rightarrow> int \<Rightarrow> bool" where
  "near_line x0 y0 x1 y1 x y \<longleftrightarrow>
     min x0 x1 \<le> x \<and> x \<le> max x0 x1 \<and> min y0 y1 \<le> y \<and> y \<le> max y0 y1 \<and>
     2 * \<bar>(y - y0) * (x1 - x0) - (x - x0) * (y1 - y0)\<bar> \<le> \<bar>x1 - x0\<bar> + \<bar>y1 - y0\<bar> + max \<bar>x1 - x0\<bar> \<bar>y1 - y0\<bar>"

lemma line_ok_near:
  assumes "line_ok D E a b" "sx = 1 \<or> sx = - 1" "sy = 1 \<or> sy = - (1 :: int)"
  shows "near_line X Y (X + sx * D) (Y + sy * E) (X + sx * a) (Y + sy * b)"
proof -
  have r: "0 \<le> a" "a \<le> D" "0 \<le> b" "b \<le> E" "- E - 2 * D \<le> 2 * (b * D - a * E)" "2 * (b * D - a * E) \<le> D + 2 * E"
    using assms(1) by (auto simp: line_ok_def line_err_def algebra_simps)
  have "\<bar>sy * b * (sx * D) - sx * a * (sy * E)\<bar> = \<bar>b * D - a * E\<bar>" using assms(2,3) by auto
  moreover have "2 * \<bar>b * D - a * E\<bar> \<le> D + E + max D E" using r by linarith
  moreover have "\<bar>sx * D\<bar> = D" "\<bar>sy * E\<bar> = E" using r assms(2,3) by auto
  moreover have "min X (X + sx * D) \<le> X + sx * a" "X + sx * a \<le> max X (X + sx * D)" using r assms(2) by auto
  moreover have "min Y (Y + sy * E) \<le> Y + sy * b" "Y + sy * b \<le> max Y (Y + sy * E)" using r assms(3) by auto
  ultimately show ?thesis by (simp add: near_line_def)
qed

lemma draw_line_path:
  assumes b: "\<bar>sint x0\<bar> \<le> 268435456" "\<bar>sint y0\<bar> \<le> 268435456" "\<bar>sint x1\<bar> \<le> 268435456" "\<bar>sint y1\<bar> \<le> 268435456"
  shows "\<exists>ps. ps \<noteq> [] \<and> hd ps = (x0, y0) \<and> last ps = (x1, y1) \<and> successively neighbour ps \<and>
     (\<forall>p \<in> set ps. near_line (sint x0) (sint y0) (sint x1) (sint y1) (sint (fst p)) (sint (snd p))) \<and>
     draw_line x0 y0 x1 y1 color d = Some (draw_points color ps d)"
proof -
  define sx sy :: u32 where s: "sx = (if sint x0 < sint x1 then 1 else - 1)" "sy = (if sint y0 < sint y1 then 1 else - 1)"
  define D E where DE: "D = \<bar>sint x1 - sint x0\<bar>" "E = \<bar>sint y1 - sint y0\<bar>"
  have sx: "sint sx = (if sint x0 < sint x1 then 1 else - 1)" "sint sy = (if sint y0 < sint y1 then 1 else - 1)"
    by (simp_all add: s)
  have nn: "0 \<le> D" "0 \<le> E" by (simp_all add: DE)
  have le: "D \<le> 536870912" using b(1,3) unfolding DE by linarith
  have le': "E \<le> 536870912" using b(2,4) unfolding DE by linarith
  have xs: "sint (x1 - x0) = sint x1 - sint x0" by (rule sint_sub_u32) (use b(1,3) in linarith)+
  have ys: "sint (y1 - y0) = sint y1 - sint y0" by (rule sint_sub_u32) (use b(2,4) in linarith)+
  have dx: "sint (abs_int (x1 - x0)) = D" unfolding DE xs [symmetric] by (rule sint_abs_u32) (use b(1,3) xs in linarith)
  have ay: "sint (abs_int (y1 - y0)) = E" unfolding DE ys [symmetric] by (rule sint_abs_u32) (use b(2,4) ys in linarith)
  have dy: "sint (- abs_int (y1 - y0)) = - E" using nn by (simp add: sint_neg_u32 ay)
  have err: "sint (abs_int (x1 - x0) + - abs_int (y1 - y0)) = line_err D E 0 0"
    unfolding line_err_def using sint_add_u32 [of "abs_int (x1 - x0)" "- abs_int (y1 - y0)", unfolded dx dy] nn le le' by simp
  have ok: "line_ok D E 0 0" using nn by (simp add: line_ok_def line_err_def)
  have small: "small_line (sint x0) (sint y0) sx sy D E" unfolding small_line_def sx using b(1,2) le le' by simp
  have ends: "sint x1 = sint x0 + sint sx * D" "sint y1 = sint y0 + sint sy * E" unfolding sx DE by simp_all
  have at: "line_at (sint x0) (sint y0) sx sy D E 0 0 (abs_int (x1 - x0) + - abs_int (y1 - y0), x0, y0)"
    using err by (simp add: line_at_def)
  from draw_line_loop_path [OF ok small dx dy at ends, of color d] obtain ps where
    ps: "ps \<noteq> []" "hd ps = (x0, y0)" "last ps = (x1, y1)" "successively neighbour ps"
      "\<forall>p \<in> set ps. \<exists>a b. line_ok D E a b \<and> sint (fst p) = sint x0 + sint sx * a \<and> sint (snd p) = sint y0 + sint sy * b"
      "draw_line_loop (abs_int (x1 - x0)) (- abs_int (y1 - y0)) sx sy x1 y1 color
         (abs_int (x1 - x0) + - abs_int (y1 - y0)) x0 y0 d = Some (draw_points color ps d)" by blast
  have "near_line (sint x0) (sint y0) (sint x1) (sint y1) (sint (fst p)) (sint (snd p))" if "p \<in> set ps" for p
  proof -
    from bspec [OF ps(5) that] obtain i j where
      ij: "line_ok D E i j" "sint (fst p) = sint x0 + sint sx * i" "sint (snd p) = sint y0 + sint sy * j"
      by (elim exE conjE)
    have "near_line (sint x0) (sint y0) (sint x0 + sint sx * D) (sint y0 + sint sy * E)
        (sint x0 + sint sx * i) (sint y0 + sint sy * j)"
      by (rule line_ok_near [OF ij(1)]) (simp_all add: sx)
    then show ?thesis unfolding ends ij .
  qed
  moreover have "draw_line x0 y0 x1 y1 color d = Some (draw_points color ps d)"
    unfolding draw_line_def Let_def s [symmetric] by (rule ps(6))
  ultimately show ?thesis using ps(1-4) by (intro exI [of _ ps] conjI ballI)
qed

lemma draw_points_paints:
  assumes "display_ok d"
  shows "paints ((\<lambda>(x, y). (scast x, scast y)) ` set ps) color d (draw_points color ps d)"
proof -
  have "draw_points color ps d = fold (\<lambda>p. put_point p color) (map (\<lambda>(x, y). (scast x, scast y)) ps) d"
    unfolding draw_points_def fold_map by (rule fold_cong) (auto simp: draw_pixel_put fun_eq_iff)
  then show ?thesis using paints_intros(4) [OF assms, of "map (\<lambda>(x, y). (scast x, scast y)) ps"] by (simp only: set_map)
qed

section \<open>Properties\<close>

text \<open>A 16 by 8 screen, for the witnesses.\<close>

definition sample_display :: display where
  "sample_display = \<lparr>fb = 0x1000, fb_width = 16, fb_height = 8, fb_pitch = 16, fb_address = 0x1000,
     fb_mem = (\<lambda>_. 0), font_scale = 2, letter_spacing = 2\<rparr>"

lemma sample_display_ok: "display_ok sample_display"
  by (simp add: display_ok_def sample_display_def)

text \<open>
  C31. Rectangles are painted as the picture they describe: \<open>fill_rect\<close> and \<open>draw_rect\<close> give the colour to
  exactly the visible pixels of the rectangle, with the sums of the corner and the size taken modulo
  the word size as in the source, \<open>framebuffer_clear\<close> to every visible pixel, and \<open>draw_char_scaled\<close> to the
  visible pixels of the glyph of an ASCII character. Nothing is written outside the visible pixels.
\<close>

theorem drawing_matches_picture:
  assumes "display_ok d"
  shows "paints ({x..<x + width} \<times> {y..<y + height}) color d (fill_rect x y width height color d) \<and>
    draw_rect x y width height color d = fill_rect x y width height color d \<and>
    paints UNIV color d (framebuffer_clear color d) \<and>
    (0 \<le> sint c \<longrightarrow> paints (glyph u v c scale) color d (draw_char_scaled u v c color scale d))"
proof (intro conjI impI)
  show "paints ({x..<x + width} \<times> {y..<y + height}) color d (fill_rect x y width height color d)"
    unfolding fill_rect_def draw_pixel_put by (rule paints_block [OF assms])
  show "draw_rect x y width height color d = fill_rect x y width height color d"
    by (simp add: draw_rect_def fill_rect_def)
  have "paints ({0..<fb_width d} \<times> {0..<fb_height d}) color d (framebuffer_clear color d)"
    unfolding clear_put by (rule paints_block [OF assms])
  then show "paints UNIV color d (framebuffer_clear color d)"
    by (auto simp: paints_def on_screen_def)
  show "paints (glyph u v c scale) color d (draw_char_scaled u v c color scale d)" if "0 \<le> sint c"
    using assms that by (rule draw_char_paints)
qed

theorem drawing_matches_picture_witness:
  "get_point (fill_rect 2 3 4 2 0xFF0000 sample_display) (5, 4) = 0xFF0000 \<and>
   get_point (fill_rect 2 3 4 2 0xFF0000 sample_display) (6, 4) = get_point sample_display (6, 4)"
proof -
  have "paints ({2..<2 + 4} \<times> {3..<3 + 2}) 0xFF0000 sample_display (fill_rect 2 3 4 2 0xFF0000 sample_display)"
    using drawing_matches_picture [OF sample_display_ok] by blast
  then show ?thesis by (simp add: paints_def on_screen_def sample_display_def)
qed

text \<open>
  C32. \<open>draw_line\<close> ends, for end points within \<open>2 ^ 28\<close> of the origin: it draws a chain of neighbouring
  pixels from the first point to the last, each inside the box the two points span and within one and
  a half pixels of the ideal line along the shorter axis, and paints exactly the visible ones.
\<close>

theorem draw_line_ends:
  assumes "display_ok d"
    "\<bar>sint x0\<bar> \<le> 268435456" "\<bar>sint y0\<bar> \<le> 268435456" "\<bar>sint x1\<bar> \<le> 268435456" "\<bar>sint y1\<bar> \<le> 268435456"
  shows "\<exists>ps d'. draw_line x0 y0 x1 y1 color d = Some d' \<and> ps \<noteq> [] \<and> hd ps = (x0, y0) \<and> last ps = (x1, y1) \<and>
     successively neighbour ps \<and>
     (\<forall>p \<in> set ps. near_line (sint x0) (sint y0) (sint x1) (sint y1) (sint (fst p)) (sint (snd p))) \<and>
     paints ((\<lambda>(x, y). (scast x, scast y)) ` set ps) color d d'"
  using draw_line_path [OF assms(2-5), of color d] draw_points_paints [OF assms(1)] by blast

theorem draw_line_ends_witness:
  "\<exists>ps d'. draw_line 1 1 9 4 0xFFFFFF sample_display = Some d' \<and> ps \<noteq> [] \<and> hd ps = (1 :: u32, 1 :: u32) \<and> last ps = (9, 4) \<and>
     get_point d' (9, 4) = 0xFFFFFF"
proof -
  obtain ps d' where p: "draw_line 1 1 9 4 0xFFFFFF sample_display = Some d'" "ps \<noteq> []" "hd ps = (1 :: u32, 1 :: u32)" "last ps = (9, 4)"
    "paints ((\<lambda>(x, y). (scast x, scast y)) ` set ps) 0xFFFFFF sample_display d'"
    using draw_line_ends [OF sample_display_ok, of 1 1 9 4 "0xFFFFFF"] by auto
  have "(\<lambda>(x, y). (scast x, scast y)) (9 :: u32, 4 :: u32) \<in> (\<lambda>(x, y). (scast x, scast y)) ` set ps"
    using last_in_set [OF p(2)] p(4) by (intro imageI) simp
  then have "(9 :: u64, 4 :: u64) \<in> (\<lambda>(x, y). (scast x, scast y)) ` set ps" by simp
  then have "get_point d' (9, 4) = 0xFFFFFF"
    using p(5) by (simp add: paints_def on_screen_def sample_display_def)
  then show ?thesis using p by blast
qed

end
