(* ===== verification/Terminal.thy ===== *)
theory Terminal
  imports Drawing
begin

text \<open>
  The text terminal of \<open>terminal/terminal.c\<close>. The record \<open>terminal\<close> holds its file-level variables: the
  50 by 80 cells, the cursor, the colour, the origin on the screen and the line of typed input. A
  \<open>console\<close> joins it with the display it is rendered on. The cursor and the input length stay below 256
  and are natural numbers; the loops are the loops of the source. The theorems show that the cursor
  and the input line stay inside their arrays, and that what the screen shows is the end of the text
  written to it, wrapped at the width of the terminal.
\<close>

section \<open>State\<close>

definition TERM_COLS :: nat where "TERM_COLS = 80"
definition TERM_ROWS :: nat where "TERM_ROWS = 50"
definition INPUT_BUFFER_SIZE :: nat where "INPUT_BUFFER_SIZE = 256"

record terminal_cell =
  character :: u8
  foreground :: u32
  background :: u32

record terminal =
  cursor_row :: nat
  cursor_col :: nat
  input_buffer :: "u8 list"
  input_length :: nat
  terminal_buffer :: "terminal_cell list list"
  terminal_color :: u32
  terminal_origin_x :: u32
  terminal_origin_y :: u32

record console =
  con_term :: terminal
  con_disp :: display

definition blank_cell :: terminal_cell where
  "blank_cell = \<lparr>character = 32, foreground = 0xFFFFFF, background = 0\<rparr>"

definition set_cell :: "nat \<Rightarrow> nat \<Rightarrow> terminal_cell \<Rightarrow> terminal \<Rightarrow> terminal" where
  "set_cell row col cell t =
     t\<lparr>terminal_buffer := (terminal_buffer t)[row := (terminal_buffer t ! row)[col := cell]]\<rparr>"

section \<open>Operations on the text\<close>

definition terminal_scroll :: "terminal \<Rightarrow> terminal" where
  "terminal_scroll t =
     (let t = fold (\<lambda>row. fold (\<lambda>col t. set_cell (row - 1) col (terminal_buffer t ! row ! col) t) [0..<TERM_COLS])
                [1..<TERM_ROWS] t;
          t = fold (\<lambda>col. set_cell (TERM_ROWS - 1) col blank_cell) [0..<TERM_COLS] t
      in t\<lparr>cursor_row := TERM_ROWS - 1, cursor_col := 0\<rparr>)"

definition terminal_set_origin :: "u32 \<Rightarrow> u32 \<Rightarrow> terminal \<Rightarrow> terminal" where
  "terminal_set_origin x y t = t\<lparr>terminal_origin_x := x, terminal_origin_y := y\<rparr>"

definition terminal_init :: "terminal \<Rightarrow> terminal" where
  "terminal_init t =
     (let t = t\<lparr>cursor_row := 0, cursor_col := 0, terminal_color := 0xFFFFFF\<rparr>
      in fold (\<lambda>r. fold (\<lambda>c. set_cell r c blank_cell) [0..<TERM_COLS]) [0..<TERM_ROWS] t)"

text \<open>The end of a line, shared by the two places of \<open>terminal_putchar\<close> that start a new row.\<close>

definition next_row :: "terminal \<Rightarrow> terminal" where
  "next_row t =
     (let t = t\<lparr>cursor_col := 0, cursor_row := cursor_row t + 1\<rparr>
      in if cursor_row t \<ge> TERM_ROWS then terminal_scroll t else t)"

definition terminal_putchar :: "u8 \<Rightarrow> terminal \<Rightarrow> terminal" where
  "terminal_putchar c t =
     (if c = 10 then next_row t
      else if cursor_row t \<ge> TERM_ROWS then terminal_scroll t
      else
        let t = set_cell (cursor_row t) (cursor_col t)
                  \<lparr>character = c, foreground = terminal_color t, background = 0\<rparr> t;
            t = t\<lparr>cursor_col := cursor_col t + 1\<rparr>
        in if cursor_col t \<ge> TERM_COLS then next_row t else t)"

definition terminal_set_color :: "u32 \<Rightarrow> terminal \<Rightarrow> terminal" where
  "terminal_set_color color t = t\<lparr>terminal_color := color\<rparr>"

definition terminal_get_input :: "terminal \<Rightarrow> u8 list" where
  "terminal_get_input t = input_buffer t"

section \<open>Operations that render\<close>

definition upd_term :: "(terminal \<Rightarrow> terminal) \<Rightarrow> console \<Rightarrow> console" where
  "upd_term f s = s\<lparr>con_term := f (con_term s)\<rparr>"

definition terminal_render :: "console \<Rightarrow> console" where
  "terminal_render s =
     (let t = con_term s;
          d = fill_rect (scast (terminal_origin_x t)) (scast (terminal_origin_y t))
                (of_nat (TERM_COLS * 16)) (of_nat (TERM_ROWS * 16)) 0 (con_disp s)
      in s\<lparr>con_disp :=
           fold (\<lambda>row. fold (\<lambda>col d.
             let cell = terminal_buffer t ! row ! col in
             if character cell = 32 then d
             else draw_char (ucast (scast (terminal_origin_x t) + of_nat col * 16 :: u64))
                    (ucast (scast (terminal_origin_y t) + of_nat row * 16 :: u64)) (character cell) (foreground cell) d)
             [0..<TERM_COLS]) [0..<TERM_ROWS] d\<rparr>)"

text \<open>The cursor is a pair of unsigned 64-bit numbers: counting down from 0 wraps around.\<close>

definition size_dec :: "nat \<Rightarrow> nat" where
  "size_dec n = (if n = 0 then 2 ^ 64 - 1 else n - 1)"

definition erase_before_cursor :: "terminal \<Rightarrow> terminal" where
  "erase_before_cursor t =
     (let t = (if cursor_col t = 0 then t\<lparr>cursor_row := size_dec (cursor_row t), cursor_col := TERM_COLS\<rparr> else t);
          t = t\<lparr>cursor_col := size_dec (cursor_col t)\<rparr>
      in set_cell (cursor_row t) (cursor_col t) blank_cell t)"

definition terminal_backspace :: "console \<Rightarrow> console" where
  "terminal_backspace s =
     (if cursor_row (con_term s) = 0 \<and> cursor_col (con_term s) = 0 then s
      else terminal_render (upd_term erase_before_cursor s))"

definition terminal_write :: "u8 list \<Rightarrow> console \<Rightarrow> console" where
  "terminal_write str s = terminal_render (upd_term (fold terminal_putchar str) s)"

definition record_key :: "u8 \<Rightarrow> terminal \<Rightarrow> terminal" where
  "record_key c t =
     (let t = t\<lparr>input_buffer := (input_buffer t)[input_length t := c], input_length := input_length t + 1\<rparr>
      in t\<lparr>input_buffer := (input_buffer t)[input_length t := 0]\<rparr>)"

definition terminal_handle_key :: "u8 \<Rightarrow> console \<Rightarrow> console" where
  "terminal_handle_key c s =
     (if input_length (con_term s) \<ge> INPUT_BUFFER_SIZE - 1 then s
      else terminal_render (upd_term (terminal_putchar c) (upd_term (record_key c) s)))"

section \<open>The cells\<close>

definition blank_row :: "terminal_cell list" where
  "blank_row = replicate TERM_COLS blank_cell"

definition grid_ok :: "terminal_cell list list \<Rightarrow> bool" where
  "grid_ok g \<longleftrightarrow> length g = TERM_ROWS \<and> (\<forall>r \<in> set g. length r = TERM_COLS)"

lemma grid_ok_row: "grid_ok g \<Longrightarrow> i < TERM_ROWS \<Longrightarrow> length (g ! i) = TERM_COLS"
  by (auto simp: grid_ok_def)

text \<open>A loop that stores into the cells of one row.\<close>

lemma row_loop:
  assumes "n \<le> length (terminal_buffer t ! row)" "row < length (terminal_buffer t)"
  shows "fold (\<lambda>col. set_cell row col (f col)) [0..<n] t =
    t\<lparr>terminal_buffer := (terminal_buffer t)[row := map f [0..<n] @ drop n (terminal_buffer t ! row)]\<rparr>"
  using assms(1)
proof (induction n)
  case (Suc n)
  have "map f [0..<n] @ drop n (terminal_buffer t ! row) = map f [0..<n] @ (terminal_buffer t ! row ! n) # drop (Suc n) (terminal_buffer t ! row)"
    using Suc.prems by (simp add: Cons_nth_drop_Suc)
  then show ?case using Suc assms(2) by (simp add: set_cell_def list_update_append)
qed simp

lemma copy_row:
  assumes "row' \<noteq> row" "row' < length (terminal_buffer t)" "n \<le> length (terminal_buffer t ! row')"
  shows "fold (\<lambda>col t. set_cell row' col (terminal_buffer t ! row ! col) t) [0..<n] t =
    t\<lparr>terminal_buffer := (terminal_buffer t)[row' := map ((!) (terminal_buffer t ! row)) [0..<n] @ drop n (terminal_buffer t ! row')]\<rparr>"
  using assms(3)
proof (induction n)
  case (Suc n)
  have "drop n (terminal_buffer t ! row') = (terminal_buffer t ! row' ! n) # drop (Suc n) (terminal_buffer t ! row')"
    using Suc.prems by (simp add: Cons_nth_drop_Suc)
  then show ?case using Suc assms(1,2) by (simp add: set_cell_def list_update_append)
qed simp

lemma map_nth_row: "length r = n \<Longrightarrow> map ((!) r) [0..<n] = r"
  by (metis map_nth)

lemma shift_rows:
  assumes "grid_ok (terminal_buffer t)" "m < TERM_ROWS"
  shows "fold (\<lambda>row. fold (\<lambda>col t. set_cell (row - 1) col (terminal_buffer t ! row ! col) t) [0..<TERM_COLS]) [1..<Suc m] t =
    t\<lparr>terminal_buffer := map (\<lambda>i. terminal_buffer t ! Suc i) [0..<m] @ drop m (terminal_buffer t)\<rparr>"
  using assms(2)
proof (induction m)
  case (Suc m)
  let ?g = "terminal_buffer t" and ?h = "map (\<lambda>i. terminal_buffer t ! Suc i) [0..<m] @ drop m (terminal_buffer t)"
  have l: "length ?g = TERM_ROWS" "m < length ?g" "Suc m < length ?g" using assms(1) Suc.prems by (simp_all add: grid_ok_def)
  have r: "length (?g ! m) = TERM_COLS" "length (?g ! Suc m) = TERM_COLS" using grid_ok_row [OF assms(1)] Suc.prems by simp_all
  have h: "?h ! m = ?g ! m" "?h ! Suc m = ?g ! Suc m" "m < length ?h" using l by (simp_all add: nth_append)
  have "fold (\<lambda>col t. set_cell m col (terminal_buffer t ! Suc m ! col) t) [0..<TERM_COLS] (t\<lparr>terminal_buffer := ?h\<rparr>) =
      t\<lparr>terminal_buffer := ?h[m := ?g ! Suc m]\<rparr>"
    using copy_row [of m "Suc m" "t\<lparr>terminal_buffer := ?h\<rparr>" TERM_COLS] h r by (simp add: map_nth_row)
  moreover have "?h[m := ?g ! Suc m] = map (\<lambda>i. ?g ! Suc i) [0..<Suc m] @ drop (Suc m) ?g"
    using l by (simp add: list_update_append Cons_nth_drop_Suc [symmetric])
  ultimately show ?case using Suc by simp
qed simp

lemma set_row_loop:
  assumes "grid_ok (terminal_buffer t)" "row < TERM_ROWS"
  shows "fold (\<lambda>col. set_cell row col blank_cell) [0..<TERM_COLS] t = t\<lparr>terminal_buffer := (terminal_buffer t)[row := blank_row]\<rparr>"
proof -
  have l: "length (terminal_buffer t) = TERM_ROWS" using assms(1) by (simp add: grid_ok_def)
  have "map (\<lambda>_. blank_cell) [0..<TERM_COLS] = blank_row" by (simp add: blank_row_def map_replicate_const)
  then show ?thesis using row_loop [of TERM_COLS t row "\<lambda>_. blank_cell"] assms l grid_ok_row [OF assms] by simp
qed

lemma terminal_scroll_eq:
  assumes "grid_ok (terminal_buffer t)"
  shows "terminal_scroll t = t\<lparr>terminal_buffer := tl (terminal_buffer t) @ [blank_row],
     cursor_row := TERM_ROWS - 1, cursor_col := 0\<rparr>"
proof -
  let ?g = "terminal_buffer t" and ?h = "map (\<lambda>i. terminal_buffer t ! Suc i) [0..<TERM_ROWS - 1] @ drop (TERM_ROWS - 1) (terminal_buffer t)"
  have l: "length ?g = TERM_ROWS" using assms by (simp add: grid_ok_def)
  have s: "Suc (TERM_ROWS - 1) = TERM_ROWS" by (simp add: TERM_ROWS_def)
  have m: "map (\<lambda>i. ?g ! Suc i) [0..<TERM_ROWS - 1] = tl ?g" using l by (intro nth_equalityI) (simp_all add: nth_tl)
  have 1: "fold (\<lambda>row. fold (\<lambda>col t. set_cell (row - 1) col (terminal_buffer t ! row ! col) t) [0..<TERM_COLS]) [1..<TERM_ROWS] t =
      t\<lparr>terminal_buffer := ?h\<rparr>"
    using shift_rows [OF assms, of "TERM_ROWS - 1"] unfolding s by (simp add: TERM_ROWS_def)
  have "drop (TERM_ROWS - 1) ?g = [?g ! (TERM_ROWS - 1)]"
    using l Cons_nth_drop_Suc [of "TERM_ROWS - 1" ?g] by (simp add: TERM_ROWS_def)
  then have h: "?h = tl ?g @ [?g ! (TERM_ROWS - 1)]" by (simp only: m)
  have "length r = TERM_COLS" if "r \<in> set (tl ?g)" for r
    using that assms list.set_sel(2) [of ?g r] l by (cases ?g) (auto simp: grid_ok_def)
  then have g: "grid_ok ?h" unfolding h using grid_ok_row [OF assms, of "TERM_ROWS - 1"] l by (auto simp: grid_ok_def TERM_ROWS_def)
  have "fold (\<lambda>col. set_cell (TERM_ROWS - 1) col blank_cell) [0..<TERM_COLS] (t\<lparr>terminal_buffer := ?h\<rparr>) =
      t\<lparr>terminal_buffer := tl ?g @ [blank_row]\<rparr>"
    using set_row_loop [of "t\<lparr>terminal_buffer := ?h\<rparr>" "TERM_ROWS - 1"] g l unfolding h by (simp add: list_update_append TERM_ROWS_def)
  then show ?thesis unfolding terminal_scroll_def Let_def 1 by simp
qed

lemma clear_rows:
  assumes "grid_ok (terminal_buffer t)" "m \<le> TERM_ROWS"
  shows "fold (\<lambda>r. fold (\<lambda>c. set_cell r c blank_cell) [0..<TERM_COLS]) [0..<m] t =
    t\<lparr>terminal_buffer := replicate m blank_row @ drop m (terminal_buffer t)\<rparr>"
  using assms(2)
proof (induction m)
  case (Suc m)
  let ?h = "replicate m blank_row @ drop m (terminal_buffer t)"
  have l: "length (terminal_buffer t) = TERM_ROWS" using assms(1) by (simp add: grid_ok_def)
  have "set ?h \<subseteq> insert blank_row (set (terminal_buffer t))" using set_drop_subset [of m "terminal_buffer t"] by auto
  then have g: "grid_ok ?h" using assms(1) l Suc.prems by (auto simp: grid_ok_def blank_row_def)
  have "?h[m := blank_row] = replicate (Suc m) blank_row @ drop (Suc m) (terminal_buffer t)"
    using l Suc.prems by (simp add: list_update_append Cons_nth_drop_Suc [symmetric] replicate_append_same)
  then show ?case using Suc set_row_loop [of "t\<lparr>terminal_buffer := ?h\<rparr>" m] g by simp
qed simp

lemma terminal_init_eq:
  assumes "grid_ok (terminal_buffer t)"
  shows "terminal_init t = t\<lparr>cursor_row := 0, cursor_col := 0, terminal_color := 0xFFFFFF,
     terminal_buffer := replicate TERM_ROWS blank_row\<rparr>"
  using clear_rows [of "t\<lparr>cursor_row := 0, cursor_col := 0, terminal_color := 0xFFFFFF\<rparr>" TERM_ROWS] assms
  by (simp add: terminal_init_def grid_ok_def)

section \<open>The state stays inside its arrays\<close>

definition arrays_ok :: "terminal \<Rightarrow> bool" where
  "arrays_ok t \<longleftrightarrow> grid_ok (terminal_buffer t) \<and> cursor_row t < TERM_ROWS \<and>
     length (input_buffer t) = INPUT_BUFFER_SIZE \<and> input_length t < INPUT_BUFFER_SIZE \<and>
     input_buffer t ! input_length t = 0"

definition term_ok :: "terminal \<Rightarrow> bool" where
  "term_ok t \<longleftrightarrow> arrays_ok t \<and> cursor_col t < TERM_COLS"

lemma arrays_ok_col [simp]: "arrays_ok (t\<lparr>cursor_col := n\<rparr>) \<longleftrightarrow> arrays_ok t"
  by (simp add: arrays_ok_def)

lemma grid_ok_iff: "grid_ok g \<longleftrightarrow> length g = TERM_ROWS \<and> (\<forall>i < TERM_ROWS. length (g ! i) = TERM_COLS)"
  by (auto simp: grid_ok_def all_set_conv_all_nth)

lemma grid_ok_update: "grid_ok g \<Longrightarrow> grid_ok (g[row := (g ! row)[col := cell]])"
  by (cases "row < length g") (auto simp: grid_ok_iff nth_list_update)

lemma set_cell_frame [simp]:
  "cursor_row (set_cell row col cell t) = cursor_row t" "cursor_col (set_cell row col cell t) = cursor_col t"
  "terminal_color (set_cell row col cell t) = terminal_color t"
  by (simp_all add: set_cell_def)

lemma set_cell_arrays_ok: "arrays_ok t \<Longrightarrow> arrays_ok (set_cell row col cell t)"
  by (simp add: arrays_ok_def set_cell_def grid_ok_update)

lemma set_cell_ok: "term_ok t \<Longrightarrow> term_ok (set_cell row col cell t)"
  by (simp add: term_ok_def set_cell_arrays_ok)

lemma grid_ok_scrolled: "grid_ok g \<Longrightarrow> grid_ok (tl g @ [blank_row])"
  by (cases g) (auto simp: grid_ok_def blank_row_def TERM_ROWS_def)

lemma next_row_eq:
  assumes "grid_ok (terminal_buffer t)" "cursor_row t < TERM_ROWS"
  shows "next_row t = (if Suc (cursor_row t) = TERM_ROWS
      then t\<lparr>terminal_buffer := tl (terminal_buffer t) @ [blank_row], cursor_col := 0\<rparr>
      else t\<lparr>cursor_row := Suc (cursor_row t), cursor_col := 0\<rparr>)"
  using assms by (auto simp: next_row_def Let_def terminal_scroll_eq TERM_ROWS_def)

lemma next_row_ok: "arrays_ok t \<Longrightarrow> term_ok (next_row t)"
  by (auto simp: arrays_ok_def next_row_eq term_ok_def grid_ok_scrolled TERM_COLS_def)

lemma terminal_putchar_ok:
  assumes "term_ok t" shows "term_ok (terminal_putchar c t)"
proof -
  have a: "arrays_ok t" "cursor_row t < TERM_ROWS" using assms by (simp_all add: term_ok_def arrays_ok_def)
  have "arrays_ok (set_cell row col cell t)" for row col cell by (rule set_cell_arrays_ok [OF a(1)])
  then show ?thesis using a next_row_ok by (simp add: terminal_putchar_def Let_def term_ok_def)
qed

lemma putchars_ok: "term_ok t \<Longrightarrow> term_ok (fold terminal_putchar str t)"
  by (rule fold_invariant [where I = term_ok]) (simp_all add: terminal_putchar_ok)

lemma erase_ok: "term_ok t \<Longrightarrow> \<not> (cursor_row t = 0 \<and> cursor_col t = 0) \<Longrightarrow> term_ok (erase_before_cursor t)"
  unfolding erase_before_cursor_def Let_def
  by (intro set_cell_ok) (auto simp: term_ok_def arrays_ok_def TERM_COLS_def size_dec_def)

lemma record_key_ok: "term_ok t \<Longrightarrow> input_length t < INPUT_BUFFER_SIZE - 1 \<Longrightarrow> term_ok (record_key c t)"
  by (auto simp: term_ok_def arrays_ok_def record_key_def Let_def)

text \<open>The states the terminal can reach, from static memory, by any sequence of the calls other code makes.\<close>

inductive console_reachable :: "console \<Rightarrow> bool" where
  init: "grid_ok (terminal_buffer (con_term s)) \<Longrightarrow> input_buffer (con_term s) = replicate INPUT_BUFFER_SIZE 0 \<Longrightarrow>
    input_length (con_term s) = 0 \<Longrightarrow> console_reachable (upd_term terminal_init s)"
| reinit: "console_reachable s \<Longrightarrow> console_reachable (upd_term terminal_init s)"
| putchar: "console_reachable s \<Longrightarrow> console_reachable (upd_term (terminal_putchar c) s)"
| set_color: "console_reachable s \<Longrightarrow> console_reachable (upd_term (terminal_set_color color) s)"
| set_origin: "console_reachable s \<Longrightarrow> console_reachable (upd_term (terminal_set_origin x y) s)"
| render: "console_reachable s \<Longrightarrow> console_reachable (terminal_render s)"
| write_str: "console_reachable s \<Longrightarrow> console_reachable (terminal_write str s)"
| backspace: "console_reachable s \<Longrightarrow> console_reachable (terminal_backspace s)"
| handle_key: "console_reachable s \<Longrightarrow> console_reachable (terminal_handle_key c s)"

lemma con_term_render [simp]: "con_term (terminal_render s) = con_term s"
  by (simp add: terminal_render_def Let_def)

lemma con_term_upd [simp]: "con_term (upd_term f s) = f (con_term s)" "con_disp (upd_term f s) = con_disp s"
  by (simp_all add: upd_term_def)

lemma terminal_init_ok: "grid_ok (terminal_buffer t) \<Longrightarrow> length (input_buffer t) = INPUT_BUFFER_SIZE \<Longrightarrow>
    input_length t < INPUT_BUFFER_SIZE \<Longrightarrow> input_buffer t ! input_length t = 0 \<Longrightarrow> term_ok (terminal_init t)"
  by (auto simp: terminal_init_eq term_ok_def arrays_ok_def grid_ok_def blank_row_def TERM_ROWS_def TERM_COLS_def)

lemma reachable_term_ok: "console_reachable s \<Longrightarrow> term_ok (con_term s)"
proof (induction rule: console_reachable.induct)
  case (init s)
  then show ?case by (auto intro!: terminal_init_ok simp: INPUT_BUFFER_SIZE_def)
next
  case (reinit s)
  then show ?case using terminal_init_ok [of "con_term s"] by (simp add: term_ok_def arrays_ok_def)
next
  case (set_color s color)
  then show ?case by (simp add: terminal_set_color_def term_ok_def arrays_ok_def)
next
  case (set_origin s x y)
  then show ?case by (simp add: terminal_set_origin_def term_ok_def arrays_ok_def)
next
  case (handle_key s c)
  then show ?case by (simp add: terminal_handle_key_def terminal_putchar_ok record_key_ok)
qed (simp_all add: terminal_putchar_ok putchars_ok terminal_write_def terminal_backspace_def erase_ok)

section \<open>What the screen shows\<close>

text \<open>
  The rows a text fills, wrapped at \<open>TERM_COLS\<close>, given what is already in the current row; a full row is
  followed by a new one at once. The screen shows the last \<open>TERM_ROWS\<close> of them.
\<close>

fun layout :: "u8 list \<Rightarrow> u8 list \<Rightarrow> u8 list list" where
  "layout current [] = [current]"
| "layout current (c # text) =
     (if c = 10 then current # layout [] text
      else if length current + 1 = TERM_COLS then (current @ [c]) # layout [] text
      else layout (current @ [c]) text)"

definition show_row :: "u32 \<Rightarrow> u8 list \<Rightarrow> terminal_cell list" where
  "show_row color cs =
     map (\<lambda>c. \<lparr>character = c, foreground = color, background = 0\<rparr>) cs @ replicate (TERM_COLS - length cs) blank_cell"

definition visible_rows :: "terminal_cell list list \<Rightarrow> terminal_cell list list" where
  "visible_rows rows = drop (length rows - TERM_ROWS) rows @ replicate (TERM_ROWS - length rows) blank_row"

definition displays :: "terminal_cell list list \<Rightarrow> nat \<Rightarrow> terminal \<Rightarrow> bool" where
  "displays rows col t \<longleftrightarrow> rows \<noteq> [] \<and> terminal_buffer t = visible_rows rows \<and>
     cursor_row t = min (length rows) TERM_ROWS - 1 \<and> cursor_col t = col \<and> (\<forall>r \<in> set rows. length r = TERM_COLS)"

lemma visible_grid_ok:
  assumes "\<forall>r \<in> set rows. length r = TERM_COLS" shows "grid_ok (visible_rows rows)"
proof -
  have "length r = TERM_COLS" if "r \<in> set (visible_rows rows)" for r
    using that assms by (auto simp: visible_rows_def blank_row_def dest: in_set_dropD)
  then show ?thesis by (auto simp: grid_ok_def visible_rows_def)
qed

lemma length_blank_row [simp]: "length blank_row = TERM_COLS"
  by (simp add: blank_row_def)

lemma visible_snoc:
  "visible_rows (rows @ [blank_row]) =
     (if length rows < TERM_ROWS then visible_rows rows else tl (visible_rows rows) @ [blank_row])"
proof (cases "length rows < TERM_ROWS")
  case True
  then have "replicate (TERM_ROWS - length rows) blank_row = blank_row # replicate (TERM_ROWS - Suc (length rows)) blank_row"
    by (metis Suc_diff_Suc replicate_Suc)
  then show ?thesis using True by (simp add: visible_rows_def)
next
  case False
  then have "drop (Suc (length rows) - TERM_ROWS) rows = tl (drop (length rows - TERM_ROWS) rows)"
    by (simp add: drop_Suc tl_drop Suc_diff_le not_less)
  moreover have "drop (length rows - TERM_ROWS) rows \<noteq> []" using False by (simp add: TERM_ROWS_def)
  ultimately show ?thesis using False by (simp add: visible_rows_def)
qed

lemma visible_last:
  assumes "rows = before @ [r]"
  shows "(visible_rows rows)[min (length rows) TERM_ROWS - 1 := r'] = visible_rows (before @ [r'])"
    and "visible_rows rows ! (min (length rows) TERM_ROWS - 1) = r"
proof -
  have "visible_rows (before @ [x]) = drop (length rows - TERM_ROWS) before @ x # replicate (TERM_ROWS - length rows) blank_row" for x
    using assms by (auto simp: visible_rows_def TERM_ROWS_def)
  moreover have "length (drop (length rows - TERM_ROWS) before) = min (length rows) TERM_ROWS - 1"
    using assms by (auto simp: TERM_ROWS_def)
  ultimately show "(visible_rows rows)[min (length rows) TERM_ROWS - 1 := r'] = visible_rows (before @ [r'])"
    "visible_rows rows ! (min (length rows) TERM_ROWS - 1) = r"
    using assms by (simp_all add: list_update_append nth_append)
qed

lemma next_row_shows:
  assumes "displays rows col t" shows "displays (rows @ [blank_row]) 0 (next_row t)"
proof -
  have r: "rows \<noteq> []" "terminal_buffer t = visible_rows rows" "cursor_row t = min (length rows) TERM_ROWS - 1"
    "\<forall>r \<in> set rows. length r = TERM_COLS" using assms by (simp_all add: displays_def)
  have g: "grid_ok (terminal_buffer t)" "cursor_row t < TERM_ROWS"
    using visible_grid_ok [OF r(4)] r by (auto simp: TERM_ROWS_def min_def)
  have "Suc (cursor_row t) = TERM_ROWS \<longleftrightarrow> \<not> length rows < TERM_ROWS"
    using r by (cases rows) (auto simp: TERM_ROWS_def min_def)
  then show ?thesis
    unfolding next_row_eq [OF g] using r by (auto simp: displays_def visible_snoc min_def Suc_le_eq)
qed

lemma show_row_snoc:
  assumes "length cs < TERM_COLS"
  shows "(show_row color cs)[length cs := \<lparr>character = c, foreground = color, background = 0\<rparr>] = show_row color (cs @ [c])"
proof -
  have "TERM_COLS - length cs = Suc (TERM_COLS - Suc (length cs))" using assms by simp
  then show ?thesis by (simp add: show_row_def list_update_append)
qed

lemma show_row_Nil: "show_row color [] = blank_row"
  by (simp add: show_row_def blank_row_def)

lemma putchar_shows:
  assumes "displays (before @ [show_row (terminal_color t) cs]) (length cs) t" "length cs < TERM_COLS" "c \<noteq> 10"
  shows "terminal_putchar c t =
     (let t' = t\<lparr>terminal_buffer := visible_rows (before @ [show_row (terminal_color t) (cs @ [c])]), cursor_col := length cs + 1\<rparr>
      in if length cs + 1 = TERM_COLS then next_row t' else t')"
    and "displays (before @ [show_row (terminal_color t) (cs @ [c])]) (length cs + 1)
      (t\<lparr>terminal_buffer := visible_rows (before @ [show_row (terminal_color t) (cs @ [c])]), cursor_col := length cs + 1\<rparr>)"
proof -
  let ?rows = "before @ [show_row (terminal_color t) cs]"
  have r: "terminal_buffer t = visible_rows ?rows" "cursor_row t = min (length ?rows) TERM_ROWS - 1" "cursor_col t = length cs"
    "\<forall>r \<in> set before. length r = TERM_COLS" using assms(1) by (simp_all add: displays_def)
  have c: "\<not> cursor_row t \<ge> TERM_ROWS" using r by (simp add: TERM_ROWS_def)
  have "(visible_rows ?rows)[cursor_row t := (visible_rows ?rows ! cursor_row t)[length cs := \<lparr>character = c, foreground = terminal_color t, background = 0\<rparr>]]
      = visible_rows (before @ [show_row (terminal_color t) (cs @ [c])])"
    unfolding r(2) visible_last(2) [OF refl] show_row_snoc [OF assms(2)] by (rule visible_last(1) [OF refl])
  then show "terminal_putchar c t =
     (let t' = t\<lparr>terminal_buffer := visible_rows (before @ [show_row (terminal_color t) (cs @ [c])]), cursor_col := length cs + 1\<rparr>
      in if length cs + 1 = TERM_COLS then next_row t' else t')"
    using c assms(2,3) r(1,3) by (auto simp: terminal_putchar_def set_cell_def Let_def)
  show "displays (before @ [show_row (terminal_color t) (cs @ [c])]) (length cs + 1)
      (t\<lparr>terminal_buffer := visible_rows (before @ [show_row (terminal_color t) (cs @ [c])]), cursor_col := length cs + 1\<rparr>)"
    using r assms(2) by (auto simp: displays_def show_row_def)
qed

lemma terminal_color_next_row: "grid_ok (terminal_buffer t) \<Longrightarrow> cursor_row t < TERM_ROWS \<Longrightarrow> terminal_color (next_row t) = terminal_color t"
  by (simp add: next_row_eq)

lemma shows_inside: "displays rows col t \<Longrightarrow> grid_ok (terminal_buffer t) \<and> cursor_row t < TERM_ROWS"
  using visible_grid_ok [of rows] by (auto simp: displays_def TERM_ROWS_def min_def)

lemma putchars_layout:
  assumes "displays (before @ [show_row color cs]) (length cs) t" "length cs < TERM_COLS" "terminal_color t = color"
  shows "displays (before @ map (show_row color) (layout cs str)) (length (last (layout cs str))) (fold terminal_putchar str t)"
  using assms
proof (induction str arbitrary: before cs t)
  case (Cons c str)
  have in_t: "grid_ok (terminal_buffer t)" "cursor_row t < TERM_ROWS" using shows_inside [OF Cons.prems(1)] by simp_all
  have new: "displays ((before @ [r]) @ map (show_row color) (layout [] str)) (length (last (layout [] str)))
      (fold terminal_putchar str (next_row u))"
    if "displays (before @ [r]) col u" "terminal_color u = color" for r col u
  proof (rule Cons.IH)
    show "displays ((before @ [r]) @ [show_row color []]) (length []) (next_row u)"
      using next_row_shows [OF that(1)] by (simp add: show_row_Nil)
    show "terminal_color (next_row u) = color" using terminal_color_next_row shows_inside [OF that(1)] that(2) by simp
  qed (simp add: TERM_COLS_def)
  have ne: "layout cs str \<noteq> []" for cs str by (induction cs str rule: layout.induct) auto
  show ?case
  proof (cases "c = 10")
    case True
    then have "terminal_putchar c t = next_row t" by (simp add: terminal_putchar_def)
    then show ?thesis using new [OF Cons.prems(1,3)] True by (simp add: ne)
  next
    case False
    let ?t = "t\<lparr>terminal_buffer := visible_rows (before @ [show_row color (cs @ [c])]), cursor_col := length cs + 1\<rparr>"
    note put = putchar_shows [OF _ Cons.prems(2) False, of before t, unfolded Cons.prems(3), OF Cons.prems(1)]
    show ?thesis
    proof (cases "length cs + 1 = TERM_COLS")
      case True
      then show ?thesis using new [OF put(2)] put(1) False Cons.prems(3) by (simp add: ne Let_def)
    next
      case less: False
      have "displays (before @ map (show_row color) (layout (cs @ [c]) str)) (length (last (layout (cs @ [c]) str))) (fold terminal_putchar str ?t)"
        by (rule Cons.IH) (use put(2) less Cons.prems in auto)
      then show ?thesis using put(1) less False by (simp add: Let_def)
    qed
  qed
qed simp

section \<open>Properties\<close>

text \<open>The state of static memory, on the display of the drawing witnesses.\<close>

definition boot_terminal :: terminal where
  "boot_terminal = \<lparr>cursor_row = 0, cursor_col = 0, input_buffer = replicate INPUT_BUFFER_SIZE 0, input_length = 0,
     terminal_buffer = replicate TERM_ROWS (replicate TERM_COLS \<lparr>character = 0, foreground = 0, background = 0\<rparr>),
     terminal_color = 0xFFFFFF, terminal_origin_x = 0, terminal_origin_y = 0\<rparr>"

definition sample_console :: console where
  "sample_console = \<lparr>con_term = boot_terminal, con_disp = sample_display\<rparr>"

lemma boot_terminal_grid: "grid_ok (terminal_buffer boot_terminal)"
  by (simp add: boot_terminal_def grid_ok_def)

text \<open>
  C33. In every state that initialisation and any sequence of terminal calls can reach, the buffer has 50
  rows of 80 cells, the cursor is on one of them, and the input line is a terminated string inside its
  256 bytes: no call indexes the arrays of the terminal out of range.
\<close>

theorem terminal_stays_inside:
  assumes "console_reachable s"
  shows "length (terminal_buffer (con_term s)) = 50 \<and> (\<forall>r \<in> set (terminal_buffer (con_term s)). length r = 80) \<and>
    cursor_row (con_term s) < 50 \<and> cursor_col (con_term s) < 80 \<and>
    length (input_buffer (con_term s)) = 256 \<and> input_length (con_term s) < 256 \<and>
    input_buffer (con_term s) ! input_length (con_term s) = 0"
  using reachable_term_ok [OF assms]
  by (simp add: term_ok_def arrays_ok_def grid_ok_def TERM_ROWS_def TERM_COLS_def INPUT_BUFFER_SIZE_def)

theorem terminal_stays_inside_witness:
  "cursor_row (con_term (terminal_backspace (terminal_backspace (terminal_handle_key 104 (upd_term terminal_init sample_console))))) < 50"
proof -
  have "console_reachable (upd_term terminal_init sample_console)"
    by (rule console_reachable.init)
      (simp_all add: sample_console_def boot_terminal_def grid_ok_def)
  then have "console_reachable (terminal_handle_key 104 (upd_term terminal_init sample_console))"
    by (rule console_reachable.handle_key)
  then have "console_reachable (terminal_backspace (terminal_backspace (terminal_handle_key 104 (upd_term terminal_init sample_console))))"
    by (intro console_reachable.backspace)
  from terminal_stays_inside [OF this] show ?thesis by simp
qed

text \<open>
  C34. A text written to a freshly initialised terminal is displayed as its layout: the lines of the text,
  wrapped at 80 columns, each in a row of its own; when there are more than 50 rows the screen holds the
  last 50. The cursor is after the last character.
\<close>

theorem terminal_displays_layout:
  assumes "grid_ok (terminal_buffer (con_term s))"
  shows "let t = con_term (terminal_write str (upd_term terminal_init s)); rows = layout [] str in
    terminal_buffer t = visible_rows (map (show_row 0xFFFFFF) rows) \<and>
    cursor_row t = min (length rows) 50 - 1 \<and> cursor_col t = length (last rows)"
proof -
  let ?t = "terminal_init (con_term s)"
  have "displays ([] @ [show_row 0xFFFFFF []]) (length ([] :: u8 list)) ?t"
    by (simp add: terminal_init_eq [OF assms] displays_def show_row_Nil visible_rows_def TERM_ROWS_def numeral_eq_Suc)
  from putchars_layout [OF this] have "displays (map (show_row 0xFFFFFF) (layout [] str)) (length (last (layout [] str))) (fold terminal_putchar str ?t)"
    by (simp add: terminal_init_eq [OF assms] TERM_COLS_def)
  then show ?thesis by (simp add: terminal_write_def displays_def Let_def TERM_ROWS_def)
qed

theorem terminal_displays_layout_witness:
  "let t = con_term (terminal_write [111, 107, 10, 62] (upd_term terminal_init sample_console)) in
   terminal_buffer t = visible_rows [show_row 0xFFFFFF [111, 107], show_row 0xFFFFFF [62]] \<and>
   cursor_row t = 1 \<and> cursor_col t = 1"
proof -
  have "layout [] [111, 107, 10, 62] = [[111, 107], [62]]" by (simp add: TERM_COLS_def)
  then show ?thesis
    using terminal_displays_layout [of sample_console "[111, 107, 10, 62]"] boot_terminal_grid
    by (simp add: sample_console_def Let_def)
qed

end
