(* ===== verification/Printf.thy ===== *)
theory Printf
  imports Terminal
begin

text \<open>
  Port input and output (\<open>hal/io.c\<close>) and formatted printing (\<open>stdio/printf.c\<close>). The devices behind the
  ports are not part of the kernel: what the n-th read would find at a port is the function \<open>io_in\<close>, and
  the bytes written are recorded in order. \<open>kprintf\<close> sends every character to the terminal and to the
  debug port. A format string is the list of its bytes before the terminator; an argument is a word or
  a string. Reading an argument that is missing or of the other kind, and running past the end of a
  format that stops after a percent sign, have no result (\<open>None\<close>). The theorem compares the characters
  printed with the ordinary meaning of a format.
\<close>

section \<open>Ports\<close>

record io =
  io_in :: "nat \<Rightarrow> u16 \<Rightarrow> u8"
  io_reads :: nat
  io_out :: "(u16 \<times> u8) list"

definition inb :: "u16 \<Rightarrow> io \<Rightarrow> u8 \<times> io" where
  "inb port s = (io_in s (io_reads s) port, s\<lparr>io_reads := io_reads s + 1\<rparr>)"

definition outb :: "u16 \<Rightarrow> u8 \<Rightarrow> io \<Rightarrow> io" where
  "outb port value s = s\<lparr>io_out := io_out s @ [(port, value)]\<rparr>"

definition io_wait :: "io \<Rightarrow> io" where
  "io_wait s = outb 0x80 0 s"

text \<open>Ports of 16 and 32 bits, in the same way; no driver uses them.\<close>

record 'w wide_io =
  wide_in :: "nat \<Rightarrow> u16 \<Rightarrow> 'w"
  wide_reads :: nat
  wide_out :: "(u16 \<times> 'w) list"

definition inw :: "u16 \<Rightarrow> u16 wide_io \<Rightarrow> u16 \<times> u16 wide_io" where
  "inw port s = (wide_in s (wide_reads s) port, s\<lparr>wide_reads := wide_reads s + 1\<rparr>)"

definition outw :: "u16 \<Rightarrow> u16 \<Rightarrow> u16 wide_io \<Rightarrow> u16 wide_io" where
  "outw port value s = s\<lparr>wide_out := wide_out s @ [(port, value)]\<rparr>"

definition inl :: "u16 \<Rightarrow> u32 wide_io \<Rightarrow> u32 \<times> u32 wide_io" where
  "inl port s = (wide_in s (wide_reads s) port, s\<lparr>wide_reads := wide_reads s + 1\<rparr>)"

definition outl :: "u16 \<Rightarrow> u32 \<Rightarrow> u32 wide_io \<Rightarrow> u32 wide_io" where
  "outl port value s = s\<lparr>wide_out := wide_out s @ [(port, value)]\<rparr>"

section \<open>Printing\<close>

record devices =
  dev_con :: console
  dev_io :: io

datatype karg = Arg_word u64 | Arg_string "u8 list"

definition kprintf_putc :: "u8 \<Rightarrow> devices \<Rightarrow> devices" where
  "kprintf_putc ch s =
     (let s = s\<lparr>dev_con := upd_term (terminal_putchar ch) (dev_con s)\<rparr>
      in s\<lparr>dev_io := outb 0xE9 ch (dev_io s)\<rparr>)"

definition kprintf_puts :: "u8 list \<Rightarrow> devices \<Rightarrow> devices" where
  "kprintf_puts str s = fold kprintf_putc str s"

text \<open>
  The string in a local buffer of \<open>n\<close> bytes at address 0. The buffer is overwritten by the formatting
  functions up to the terminator, whatever it held before.
\<close>

definition buffer_text :: "nat \<Rightarrow> byte_mem \<Rightarrow> u8 list" where
  "buffer_text n m = takeWhile (\<lambda>c. c \<noteq> 0) (map (\<lambda>i. m (of_nat i)) [0..<n])"

definition local_buffer :: byte_mem where "local_buffer = (\<lambda>_. 0)"

definition va_word :: "karg list \<Rightarrow> (u64 \<times> karg list) option" where
  "va_word args = (case args of Arg_word w # args \<Rightarrow> Some (w, args) | _ \<Rightarrow> None)"

definition va_string :: "karg list \<Rightarrow> (u8 list \<times> karg list) option" where
  "va_string args = (case args of Arg_string str # args \<Rightarrow> Some (str, args) | _ \<Rightarrow> None)"

text \<open>
  What follows a percent sign: a conversion prints a text and goes on behind it, anything else goes
  on as an ordinary character at the given place.
\<close>

datatype directive = Converted "u8 list" "u8 list" "karg list" | Plain "u8 list" | Undefined

definition convert :: "u8 list \<Rightarrow> (('a \<times> karg list) option) \<Rightarrow> ('a \<Rightarrow> u8 list) \<Rightarrow> directive" where
  "convert fmt arg f = (case arg of None \<Rightarrow> Undefined | Some (value, args) \<Rightarrow> Converted (f value) fmt args)"

text \<open>The tests for \<open>x\<close>, \<open>u\<close> and \<open>p\<close>, reached also after one or two \<open>l\<close>.\<close>

definition unsigned_directive :: "u8 list \<Rightarrow> karg list \<Rightarrow> directive" where
  "unsigned_directive fmt args =
     (case fmt of
        [] \<Rightarrow> Plain []
      | c # rest \<Rightarrow>
          if c = 120 then convert rest (va_word args) (\<lambda>v. buffer_text 17 (uint64_to_hex (ucast (ucast v :: u32)) 0 local_buffer))
          else if c = 117 then convert rest (va_word args) (\<lambda>v. buffer_text 16 (uint_to_string (ucast v) 0 local_buffer))
          else if c = 112 then convert rest (va_word args) (\<lambda>v. [48, 120] @ buffer_text 17 (uint64_to_hex v 0 local_buffer))
          else Plain fmt)"

definition long_directive :: "u8 list \<Rightarrow> karg list \<Rightarrow> directive" where
  "long_directive fmt args =
     (let fmt = (case fmt of c # rest \<Rightarrow> if c = 108 then rest else fmt | [] \<Rightarrow> fmt) in
      case fmt of
        c # rest \<Rightarrow>
          if c = 120 then convert rest (va_word args) (\<lambda>v. buffer_text 17 (uint64_to_hex v 0 local_buffer))
          else unsigned_directive fmt args
      | [] \<Rightarrow> unsigned_directive fmt args)"

definition kprintf_directive :: "u8 list \<Rightarrow> karg list \<Rightarrow> directive" where
  "kprintf_directive fmt args =
     (case fmt of
        [] \<Rightarrow> Plain []
      | c # rest \<Rightarrow>
          if c = 99 then convert rest (va_word args) (\<lambda>v. [ucast v])
          else if c = 100 then convert rest (va_word args) (\<lambda>v. buffer_text 16 (int_to_string (ucast v) 0 local_buffer))
          else if c = 115 then convert rest (va_string args) (\<lambda>str. str)
          else if c = 108 then long_directive rest args
          else unsigned_directive fmt args)"

lemma convert_length: "convert fmt arg f = Converted str fmt' args' \<Longrightarrow> fmt' = fmt"
  by (auto simp: convert_def split: option.splits)

lemma convert_not_plain [simp]: "convert fmt arg f \<noteq> Plain fmt'"
  by (auto simp: convert_def split: option.splits)

lemma unsigned_directive_length:
  "unsigned_directive fmt args = Converted str fmt' args' \<Longrightarrow> length fmt' \<le> length fmt"
  "unsigned_directive fmt args = Plain fmt' \<Longrightarrow> length fmt' \<le> length fmt"
  by (auto simp: unsigned_directive_def dest: convert_length split: list.splits if_splits)

lemma long_directive_length:
  "long_directive fmt args = Converted str fmt' args' \<Longrightarrow> length fmt' \<le> length fmt"
  "long_directive fmt args = Plain fmt' \<Longrightarrow> length fmt' \<le> length fmt"
  by (auto simp: long_directive_def Let_def dest!: convert_length unsigned_directive_length split: list.splits if_splits)

lemma kprintf_directive_length:
  "kprintf_directive fmt args = Converted str fmt' args' \<Longrightarrow> length fmt' \<le> length fmt"
  "kprintf_directive fmt args = Plain fmt' \<Longrightarrow> length fmt' \<le> length fmt"
  by (auto simp: kprintf_directive_def dest: convert_length unsigned_directive_length long_directive_length
      split: list.splits if_splits)

function kprintf_loop :: "u8 list \<Rightarrow> karg list \<Rightarrow> devices \<Rightarrow> devices option" where
  "kprintf_loop [] args s = Some s"
| "kprintf_loop (ch # fmt) args s =
     (if ch = 37
      then case kprintf_directive fmt args of
             Undefined \<Rightarrow> None
           | Converted str fmt args \<Rightarrow> kprintf_loop fmt args (kprintf_puts str s)
           | Plain [] \<Rightarrow> None
           | Plain (c # fmt) \<Rightarrow> kprintf_loop fmt args (kprintf_putc c s)
      else kprintf_loop fmt args (kprintf_putc ch s))"
  by pat_completeness auto
termination
  by (relation "measure (\<lambda>(fmt, _). length fmt)") (auto dest: kprintf_directive_length)

definition kprintf :: "u8 list \<Rightarrow> karg list \<Rightarrow> devices \<Rightarrow> devices option" where
  "kprintf fmt args s =
     (case kprintf_loop fmt args s of
        None \<Rightarrow> None
      | Some s \<Rightarrow> Some (s\<lparr>dev_con := terminal_render (dev_con s)\<rparr>))"

section \<open>The characters printed\<close>

function printed :: "u8 list \<Rightarrow> karg list \<Rightarrow> u8 list option" where
  "printed [] args = Some []"
| "printed (ch # fmt) args =
     (if ch = 37
      then case kprintf_directive fmt args of
             Undefined \<Rightarrow> None
           | Converted str fmt args \<Rightarrow> map_option ((@) str) (printed fmt args)
           | Plain [] \<Rightarrow> None
           | Plain (c # fmt) \<Rightarrow> map_option ((#) c) (printed fmt args)
      else map_option ((#) ch) (printed fmt args))"
  by pat_completeness auto
termination
  by (relation "measure (\<lambda>(fmt, _). length fmt)") (auto dest: kprintf_directive_length)

lemma kprintf_puts_append: "kprintf_puts (xs @ ys) s = kprintf_puts ys (kprintf_puts xs s)"
  by (simp add: kprintf_puts_def)

lemma kprintf_puts_Cons: "kprintf_puts (x # xs) s = kprintf_puts xs (kprintf_putc x s)"
  by (simp add: kprintf_puts_def)

lemma kprintf_loop_printed: "kprintf_loop fmt args s = map_option (\<lambda>str. kprintf_puts str s) (printed fmt args)"
proof (induction fmt args s rule: kprintf_loop.induct)
  case (2 ch fmt args s)
  then show ?case
    by (auto simp: option.map_comp comp_def kprintf_puts_append kprintf_puts_Cons split: directive.split list.split)
qed (simp add: kprintf_puts_def)

section \<open>The meaning of a format\<close>

text \<open>The pieces of a format with the arguments they take, their notation, and what they stand for.\<close>

datatype piece =
    Literal "u8 list"
  | Char_of u8
  | Int_of u32
  | Unsigned_of u32
  | Hex_of u32
  | Long_hex_of bool u64
  | Pointer_of u64
  | String_of "u8 list"

fun piece_ok :: "piece \<Rightarrow> bool" where
  "piece_ok (Literal str) \<longleftrightarrow> 37 \<notin> set str"
| "piece_ok (Int_of v) \<longleftrightarrow> sint v \<noteq> - 2147483648"
| "piece_ok _ \<longleftrightarrow> True"

fun piece_format :: "piece \<Rightarrow> u8 list" where
  "piece_format (Literal str) = str"
| "piece_format (Char_of _) = [37, 99]"
| "piece_format (Int_of _) = [37, 100]"
| "piece_format (Unsigned_of _) = [37, 117]"
| "piece_format (Hex_of _) = [37, 120]"
| "piece_format (Long_hex_of twice _) = (if twice then [37, 108, 108, 120] else [37, 108, 120])"
| "piece_format (Pointer_of _) = [37, 112]"
| "piece_format (String_of _) = [37, 115]"

fun piece_args :: "piece \<Rightarrow> karg list" where
  "piece_args (Literal _) = []"
| "piece_args (Char_of c) = [Arg_word (ucast c)]"
| "piece_args (Int_of v) = [Arg_word (ucast v)]"
| "piece_args (Unsigned_of v) = [Arg_word (ucast v)]"
| "piece_args (Hex_of v) = [Arg_word (ucast v)]"
| "piece_args (Long_hex_of _ v) = [Arg_word v]"
| "piece_args (Pointer_of v) = [Arg_word v]"
| "piece_args (String_of str) = [Arg_string str]"

fun piece_text :: "piece \<Rightarrow> u8 list" where
  "piece_text (Literal str) = str"
| "piece_text (Char_of c) = [c]"
| "piece_text (Int_of v) = signed_decimal (sint v)"
| "piece_text (Unsigned_of v) = decimal (unat v)"
| "piece_text (Hex_of v) = hexadecimal (unat v)"
| "piece_text (Long_hex_of _ v) = hexadecimal (unat v)"
| "piece_text (Pointer_of v) = [48, 120] @ hexadecimal (unat v)"
| "piece_text (String_of str) = str"

lemma cstr_nth: "cstr m p xs \<Longrightarrow> i < length xs \<Longrightarrow> m (p + of_nat i) = xs ! i \<and> xs ! i \<noteq> 0"
proof (induction xs arbitrary: p i)
  case (Cons x xs)
  then show ?case using Cons.IH [of "p + 1" "i - 1"] by (cases i) (auto simp: algebra_simps)
qed simp

lemma cstr_end: "cstr m p xs \<Longrightarrow> m (p + of_nat (length xs)) = 0"
proof (induction xs arbitrary: p)
  case (Cons x xs)
  then show ?case using Cons.IH [of "p + 1"] by (simp add: algebra_simps)
qed simp

lemma buffer_text_cstr:
  assumes "cstr m 0 xs" "length xs < n"
  shows "buffer_text n m = xs"
proof -
  have 1: "map (\<lambda>i. m (of_nat i)) [0..<length xs] = xs"
    using cstr_nth [OF assms(1)] by (intro nth_equalityI) simp_all
  have "[0..<n] = [0..<length xs] @ length xs # [Suc (length xs)..<n]"
    using assms(2) upt_add_eq_append [of 0 "length xs" "n - length xs"] by (simp add: upt_conv_Cons)
  then have "map (\<lambda>i. m (of_nat i)) [0..<n] = xs @ 0 # map (\<lambda>i. m (of_nat i)) [Suc (length xs)..<n]"
    using 1 cstr_end [OF assms(1)] by simp
  moreover have "\<forall>c \<in> set xs. c \<noteq> 0" using cstr_nth [OF assms(1)] by (auto simp: in_set_conv_nth)
  ultimately show ?thesis by (simp add: buffer_text_def takeWhile_append2)
qed

lemma number_texts:
  "buffer_text 16 (uint_to_string u 0 local_buffer) = decimal (unat u)"
  "buffer_text 17 (uint64_to_hex x 0 local_buffer) = hexadecimal (unat x)"
  "sint i \<noteq> - 2147483648 \<Longrightarrow> buffer_text 16 (int_to_string i 0 local_buffer) = signed_decimal (sint i)"
proof -
  show "buffer_text 16 (uint_to_string u 0 local_buffer) = decimal (unat u)"
    using uint_to_string_digits [of u 0 local_buffer] by (intro buffer_text_cstr) auto
  show "buffer_text 17 (uint64_to_hex x 0 local_buffer) = hexadecimal (unat x)"
    using uint64_to_hex_digits [of x 0 local_buffer] by (intro buffer_text_cstr) auto
  show "buffer_text 16 (int_to_string i 0 local_buffer) = signed_decimal (sint i)" if "sint i \<noteq> - 2147483648"
    using int_to_string_decimal [OF that, of 0 local_buffer] by (intro buffer_text_cstr) auto
qed

lemma literal_prints:
  "37 \<notin> set str \<Longrightarrow> kprintf_loop (str @ fmt) args s = kprintf_loop fmt args (kprintf_puts str s)"
  by (induction str arbitrary: s) (auto simp: kprintf_puts_def)

lemma ucast_back: "ucast (ucast (v :: u32) :: u64) = v" "ucast (ucast (c :: u8) :: u64) = c"
  by (rule bit_word_eqI; simp add: bit_ucast_iff)+

lemma unat_ucast_up: "unat (ucast (v :: u32) :: u64) = unat v"
proof -
  have "unat v < 4294967296" using unsigned_less [of v] by simp
  then show ?thesis by (simp add: unsigned_ucast_eq take_bit_nat_eq_self)
qed

lemma piece_prints:
  assumes "piece_ok p"
  shows "kprintf_loop (piece_format p @ fmt) (piece_args p @ args) s = kprintf_loop fmt args (kprintf_puts (piece_text p) s)"
proof (cases p)
  case (Literal str)
  then show ?thesis using assms literal_prints by simp
qed (use assms number_texts in \<open>simp_all add: kprintf_directive_def unsigned_directive_def long_directive_def convert_def
    va_word_def va_string_def ucast_back unat_ucast_up\<close>)

lemma pieces_print:
  "\<forall>p \<in> set ps. piece_ok p \<Longrightarrow>
   kprintf_loop (concat (map piece_format ps) @ fmt) (concat (map piece_args ps) @ args) s =
   kprintf_loop fmt args (kprintf_puts (concat (map piece_text ps)) s)"
proof (induction ps arbitrary: s)
  case (Cons p ps)
  then show ?case using piece_prints [of p] by (simp add: kprintf_puts_append)
qed (simp add: kprintf_puts_def)

lemma puts_io: "io_out (dev_io (kprintf_puts str s)) = io_out (dev_io s) @ map (Pair 0xE9) str"
proof (induction str arbitrary: s)
  case (Cons c str)
  show ?case using Cons [of "kprintf_putc c s"]
    by (simp add: kprintf_puts_def kprintf_putc_def outb_def Let_def)
qed (simp add: kprintf_puts_def)

lemma puts_term: "con_term (dev_con (kprintf_puts str s)) = fold terminal_putchar str (con_term (dev_con s))"
proof (induction str arbitrary: s)
  case (Cons c str)
  show ?case using Cons [of "kprintf_putc c s"] by (simp add: kprintf_puts_def kprintf_putc_def Let_def)
qed (simp add: kprintf_puts_def)

section \<open>Properties\<close>

text \<open>
  C35. \<open>kprintf\<close> prints what its format means: for a format made of text without percent signs and the
  conversions c, d, u, x, lx, llx, p and s, with the arguments they ask for (and no \<open>%d\<close> of the least \<open>int\<close>),
  it returns, and the characters written to the terminal and to the debug port are the text with each
  conversion replaced by its argument in the usual notation.
\<close>

theorem kprintf_prints_format:
  assumes "\<forall>p \<in> set ps. piece_ok p"
  shows "\<exists>s'. kprintf (concat (map piece_format ps)) (concat (map piece_args ps)) s = Some s' \<and>
     con_term (dev_con s') = fold terminal_putchar (concat (map piece_text ps)) (con_term (dev_con s)) \<and>
     io_out (dev_io s') = io_out (dev_io s) @ map (Pair 0xE9) (concat (map piece_text ps))"
  using pieces_print [OF assms, of "[]" "[]" s] by (simp add: kprintf_def puts_term puts_io)

definition sample_devices :: devices where
  "sample_devices = \<lparr>dev_con = sample_console, dev_io = \<lparr>io_in = (\<lambda>_ _. 0), io_reads = 0, io_out = []\<rparr>\<rparr>"

text \<open>The call \<open>kprintf("A=%d,%x\n", -7, 255)\<close>.\<close>

theorem kprintf_prints_format_witness:
  "\<exists>s'. kprintf [65, 61, 37, 100, 44, 37, 120, 10] [Arg_word 0xFFFFFFF9, Arg_word 255] sample_devices = Some s' \<and>
     io_out (dev_io s') = map (Pair 0xE9) [65, 61, 45, 55, 44, 70, 70, 10]"
  using kprintf_prints_format [of "[Literal [65, 61], Int_of (- 7), Literal [44], Hex_of 255, Literal [10]]" sample_devices]
  by (auto simp: sample_devices_def signed_decimal_def decimal.simps hexadecimal.simps hex_digits_def)

text \<open>
  What the panic screen asks for with \<open>%016llx\<close> is not a conversion: the zero after the percent sign and the
  rest of it are printed as they stand, and the argument is left for the next conversion.
\<close>

theorem kprintf_no_width:
  "kprintf_loop ([37, 48, 49, 54, 108, 108, 120] @ fmt) args s = kprintf_loop fmt args (kprintf_puts [48, 49, 54, 108, 108, 120] s)"
  by (simp add: kprintf_directive_def unsigned_directive_def kprintf_puts_def)

end
