(* ===== verification/Devices.thy ===== *)
theory Devices
  imports Printf "HOL-Library.Monad_Syntax"
begin

text \<open>
  The interrupt controllers and the timer (\<open>hal/pic.c\<close>, \<open>hal/pit.c\<close>, \<open>hal/apic.c\<close>), the table of interrupt
  handlers (\<open>cpu/irq.c\<close>), and the keyboard and mouse drivers (\<open>drivers/\<close>). The devices answer through the
  ports; a loop that waits for one may never end and is a partial function. A handler is a value of
  \<open>irq_handler\<close>, one for each function the kernel registers. The mouse state keeps the types of the
  source: \<open>int\<close> coordinates are 32-bit words read as signed, compared with the \<open>size_t\<close> size of the screen
  after sign extension.
\<close>

text \<open>The bytes of a string literal.\<close>

definition str :: "string \<Rightarrow> u8 list" where "str s = map of_char s"

section \<open>Interrupt controllers and timer\<close>

definition PIC1_COMMAND :: u16 where "PIC1_COMMAND = 0x20"
definition PIC1_DATA :: u16 where "PIC1_DATA = 0x21"
definition PIC2_COMMAND :: u16 where "PIC2_COMMAND = 0xA0"
definition PIC2_DATA :: u16 where "PIC2_DATA = 0xA1"
definition PIT_CHANNEL0 :: u16 where "PIT_CHANNEL0 = 0x40"
definition PIT_COMMAND :: u16 where "PIT_COMMAND = 0x43"
definition KEYBOARD_DATA :: u16 where "KEYBOARD_DATA = 0x60"
definition KEYBOARD_STATUS :: u16 where "KEYBOARD_STATUS = 0x64"
definition KEYBOARD_COMMAND :: u16 where "KEYBOARD_COMMAND = 0x64"
definition PIC_PRIMARY_VECTOR :: u8 where "PIC_PRIMARY_VECTOR = 32"
definition PIC_SECONDARY_VECTOR :: u8 where "PIC_SECONDARY_VECTOR = 40"
definition PIC_ICW1_ICW4 :: u8 where "PIC_ICW1_ICW4 = 0x01"
definition PIC_ICW1_INIT :: u8 where "PIC_ICW1_INIT = 0x10"
definition PIC_ICW4_8086 :: u8 where "PIC_ICW4_8086 = 0x01"
definition PIC_EOI :: u8 where "PIC_EOI = 0x20"
definition PIT_DEFAULT_FREQUENCY_HZ :: u32 where "PIT_DEFAULT_FREQUENCY_HZ = 100"
definition PIT_MODE_SQUARE :: u8 where "PIT_MODE_SQUARE = 0x36"

definition pic_set_irq_mask :: "u8 \<Rightarrow> bool \<Rightarrow> io \<Rightarrow> io" where
  "pic_set_irq_mask irq_line masked s =
     (let (data_port, irq_bit) = (if irq_line < 8 then (PIC1_DATA, irq_line) else (PIC2_DATA, irq_line - 8)) in
      case inb data_port s of (bits, s) \<Rightarrow>
        let bits = (if masked then bits OR ucast (push_bit (unat irq_bit) (1 :: u32))
                    else bits AND ucast (NOT (push_bit (unat irq_bit) (1 :: u32))))
        in outb data_port bits s)"

definition pic_remap :: "u8 \<Rightarrow> u8 \<Rightarrow> io \<Rightarrow> io" where
  "pic_remap master_offset slave_offset s =
     (case inb PIC1_DATA s of (master_mask, s) \<Rightarrow>
      case inb PIC2_DATA s of (slave_mask, s) \<Rightarrow>
        let s = io_wait (outb PIC1_COMMAND (PIC_ICW1_INIT OR PIC_ICW1_ICW4) s);
            s = io_wait (outb PIC2_COMMAND (PIC_ICW1_INIT OR PIC_ICW1_ICW4) s);
            s = io_wait (outb PIC1_DATA master_offset s);
            s = io_wait (outb PIC2_DATA slave_offset s);
            s = io_wait (outb PIC1_DATA 0x04 s);
            s = io_wait (outb PIC2_DATA 0x02 s);
            s = io_wait (outb PIC1_DATA PIC_ICW4_8086 s);
            s = io_wait (outb PIC2_DATA PIC_ICW4_8086 s);
            s = outb PIC1_DATA master_mask s
        in outb PIC2_DATA slave_mask s)"

definition pic_mask_all :: "io \<Rightarrow> io" where
  "pic_mask_all s = outb PIC2_DATA 0xFF (outb PIC1_DATA 0xFF s)"

definition pic_mask_irq :: "u8 \<Rightarrow> io \<Rightarrow> io" where
  "pic_mask_irq irq_line s = pic_set_irq_mask irq_line True s"

definition pic_unmask_irq :: "u8 \<Rightarrow> io \<Rightarrow> io" where
  "pic_unmask_irq irq_line s = pic_set_irq_mask irq_line False s"

definition pic_send_eoi :: "u8 \<Rightarrow> io \<Rightarrow> io" where
  "pic_send_eoi irq_line s =
     (let s = (if irq_line \<ge> 8 then outb PIC2_COMMAND PIC_EOI s else s)
      in outb PIC1_COMMAND PIC_EOI s)"

definition pic_init :: "io \<Rightarrow> io" where
  "pic_init s = pic_mask_all (pic_remap PIC_PRIMARY_VECTOR PIC_SECONDARY_VECTOR s)"

definition pit_program :: "u32 \<Rightarrow> io \<Rightarrow> io" where
  "pit_program frequency_hz s =
     (let frequency_hz = (if frequency_hz = 0 then PIT_DEFAULT_FREQUENCY_HZ else frequency_hz);
          divisor = 1193182 div frequency_hz;
          divisor = (if divisor = 0 then 1 else divisor);
          s = outb PIT_COMMAND PIT_MODE_SQUARE s;
          s = outb PIT_CHANNEL0 (ucast (divisor AND 0xFF)) s
      in outb PIT_CHANNEL0 (ucast (drop_bit 8 divisor AND 0xFF)) s)"

text \<open>Model-specific registers, read and written as two 32-bit halves.\<close>

definition apic_read_msr :: "u32 \<Rightarrow> (u32 \<Rightarrow> u64) \<Rightarrow> u64" where
  "apic_read_msr msr regs =
     (let low = ucast (regs msr) :: u32; high = ucast (drop_bit 32 (regs msr)) :: u32
      in push_bit 32 (ucast high) OR ucast low)"

definition apic_write_msr :: "u32 \<Rightarrow> u64 \<Rightarrow> (u32 \<Rightarrow> u64) \<Rightarrow> (u32 \<Rightarrow> u64)" where
  "apic_write_msr msr value regs =
     (let low = ucast (value AND 0xFFFFFFFF) :: u32; high = ucast (drop_bit 32 value) :: u32
      in regs(msr := push_bit 32 (ucast high) OR ucast low))"

definition apic_disable :: "(u32 \<Rightarrow> u64) \<Rightarrow> (u32 \<Rightarrow> u64)" where
  "apic_disable regs =
     (let apic_base = apic_read_msr 0x1B regs;
          apic_base = apic_base AND NOT (push_bit 11 1 OR push_bit 10 1)
      in apic_write_msr 0x1B apic_base regs)"

section \<open>Interrupt handlers\<close>

datatype irq_handler = Pit_irq_handler | Keyboard_irq_handler | Mouse_irq_handler

definition IRQ_BASE_VECTOR :: u64 where "IRQ_BASE_VECTOR = 32"
definition IRQ_COUNT :: nat where "IRQ_COUNT = 16"
definition IRQ_TIMER_LINE :: u8 where "IRQ_TIMER_LINE = 0"
definition IRQ_KEYBOARD_LINE :: u8 where "IRQ_KEYBOARD_LINE = 1"
definition IRQ_MOUSE_LINE :: u8 where "IRQ_MOUSE_LINE = 12"

definition irq_init :: "irq_handler option list \<Rightarrow> irq_handler option list" where
  "irq_init handlers = fold (\<lambda>line h. h[line := None]) [0..<IRQ_COUNT] handlers"

definition irq_register_handler ::
  "u8 \<Rightarrow> irq_handler \<Rightarrow> irq_handler option list \<Rightarrow> bool \<times> irq_handler option list" where
  "irq_register_handler irq_line handler handlers =
     (if unat irq_line \<ge> IRQ_COUNT then (False, handlers)
      else (True, handlers[unat irq_line := Some handler]))"

text \<open>The devices that interrupt: the ports and the table of handlers.\<close>

record irq_state =
  irq_io :: io
  irq_handlers :: "irq_handler option list"

definition install_irq :: "u8 \<Rightarrow> irq_handler \<Rightarrow> irq_state \<Rightarrow> irq_state" where
  "install_irq line handler s =
     (let s = s\<lparr>irq_handlers := snd (irq_register_handler line handler (irq_handlers s))\<rparr>
      in s\<lparr>irq_io := pic_unmask_irq line (irq_io s)\<rparr>)"

definition pit_init :: "u32 \<Rightarrow> irq_state \<Rightarrow> irq_state" where
  "pit_init frequency_hz s =
     install_irq IRQ_TIMER_LINE Pit_irq_handler (s\<lparr>irq_io := pit_program frequency_hz (irq_io s)\<rparr>)"

definition keyboard_init :: "irq_state \<Rightarrow> irq_state" where
  "keyboard_init s = install_irq IRQ_KEYBOARD_LINE Keyboard_irq_handler s"

section \<open>Keyboard\<close>

definition scancode_table :: "(nat \<times> u8) list" where
  "scancode_table = [
     (0x02, 49), (0x03, 50), (0x04, 51), (0x05, 52), (0x06, 53), (0x07, 54), (0x08, 55), (0x09, 56), (0x0A, 57),
     (0x0B, 48), (0x10, 113), (0x11, 119), (0x12, 101), (0x13, 114), (0x14, 116), (0x15, 121), (0x16, 117), (0x17,
     105), (0x18, 111), (0x19, 112), (0x1E, 97), (0x1F, 115), (0x20, 100), (0x21, 102), (0x22, 103), (0x23, 104),
     (0x24, 106), (0x25, 107), (0x26, 108), (0x2C, 122), (0x2D, 120), (0x2E, 99), (0x2F, 118), (0x30, 98), (0x31,
     110), (0x32, 109), (0x39, 32), (0x1C, 10), (0x0E, 8)]"

definition scancode_to_ascii :: "u8 \<Rightarrow> u8" where
  "scancode_to_ascii scancode =
     (if scancode \<ge> 128 then 0
      else case map_of scancode_table (unat scancode) of Some c \<Rightarrow> c | None \<Rightarrow> 0)"

definition keyboard_handler :: "devices \<Rightarrow> devices" where
  "keyboard_handler s =
     (case inb KEYBOARD_DATA (dev_io s) of (scancode, io) \<Rightarrow>
        let s = s\<lparr>dev_io := io\<rparr> in
        if scancode AND 0x80 \<noteq> 0 then s
        else
          let c = scancode_to_ascii scancode in
          if c = 8 then s\<lparr>dev_con := terminal_backspace (dev_con s)\<rparr>
          else if c \<noteq> 0 then s\<lparr>dev_con := terminal_handle_key c (dev_con s)\<rparr>
          else s)"

section \<open>Mouse\<close>

record mouse =
  mouse_x :: u32
  mouse_y :: u32
  mouse_left :: bool
  mouse_right :: bool
  mouse_middle :: bool
  mouse_packet :: "u8 list"
  packet_index :: u8
  mouse_skip :: u8
  gui_needs_redraw :: bool

partial_function (option) mouse_wait_write :: "io \<Rightarrow> io option" where
  "mouse_wait_write s =
     (case inb KEYBOARD_STATUS s of (status, s) \<Rightarrow>
        if status AND 0x02 \<noteq> 0 then mouse_wait_write s else Some s)"

partial_function (option) mouse_wait_read :: "io \<Rightarrow> io option" where
  "mouse_wait_read s =
     (case inb KEYBOARD_STATUS s of (status, s) \<Rightarrow>
        if status AND 0x01 = 0 then mouse_wait_read s else Some s)"

definition mouse_write :: "u8 \<Rightarrow> io \<Rightarrow> io option" where
  "mouse_write data s = do {
     s \<leftarrow> mouse_wait_write s;
     s \<leftarrow> mouse_wait_write (outb KEYBOARD_COMMAND 0xD4 s);
     Some (outb KEYBOARD_DATA data s)
   }"

definition mouse_read :: "io \<Rightarrow> (u8 \<times> io) option" where
  "mouse_read s = do { s \<leftarrow> mouse_wait_read s; Some (inb KEYBOARD_DATA s) }"

text \<open>The commands of \<open>mouse_init\<close> after the handler is installed.\<close>

definition mouse_setup :: "io \<Rightarrow> io option" where
  "mouse_setup s = do {
     s \<leftarrow> mouse_wait_write s;
     s \<leftarrow> mouse_wait_write (outb KEYBOARD_COMMAND 0xA8 s);
     (status, s) \<leftarrow> mouse_read (outb KEYBOARD_COMMAND 0x20 s);
     let status = status OR 0x02;
     s \<leftarrow> mouse_wait_write s;
     s \<leftarrow> mouse_wait_write (outb KEYBOARD_COMMAND 0x60 s);
     s \<leftarrow> mouse_write 0xF6 (outb KEYBOARD_DATA status s);
     (reply, s) \<leftarrow> mouse_read s;
     if reply \<noteq> 0xFA then Some s
     else do {
       s \<leftarrow> mouse_write 0xF4 s;
       (reply, s) \<leftarrow> mouse_read s;
       Some s
     }
   }"

definition mouse_init :: "irq_state \<Rightarrow> irq_state option" where
  "mouse_init s = do {
     let s = install_irq IRQ_MOUSE_LINE Mouse_irq_handler s;
     io \<leftarrow> mouse_setup (pic_unmask_irq 2 (irq_io s));
     Some (s\<lparr>irq_io := io\<rparr>)
   }"

text \<open>The movement of a complete packet, kept on the screen of the given size.\<close>

definition mouse_move :: "u64 \<Rightarrow> u64 \<Rightarrow> u8 \<Rightarrow> u8 \<Rightarrow> mouse \<Rightarrow> mouse" where
  "mouse_move width height mx my s =
     (let dx = scast mx; dy = scast my;
          s = s\<lparr>mouse_x := mouse_x s + dx\<rparr>;
          s = s\<lparr>mouse_y := mouse_y s - dy\<rparr>;
          s = (if sint (mouse_x s) < 0 then s\<lparr>mouse_x := 0\<rparr> else s);
          s = (if sint (mouse_y s) < 0 then s\<lparr>mouse_y := 0\<rparr> else s);
          s = (if (scast (mouse_x s) :: u64) \<ge> width then s\<lparr>mouse_x := ucast (width - 1)\<rparr> else s);
          s = (if (scast (mouse_y s) :: u64) \<ge> height then s\<lparr>mouse_y := ucast (height - 1)\<rparr> else s);
          s = s\<lparr>mouse_skip := mouse_skip s + 1\<rparr>
      in if mouse_skip s \<ge> 3 then s\<lparr>mouse_skip := 0, gui_needs_redraw := True\<rparr> else s)"

definition mouse_handler :: "display \<Rightarrow> io \<Rightarrow> mouse \<Rightarrow> io \<times> mouse" where
  "mouse_handler d io s =
     (case inb KEYBOARD_STATUS io of (status, io) \<Rightarrow>
        if status AND 0x21 \<noteq> 0x21 then (io, s)
        else case inb KEYBOARD_DATA io of (data, io) \<Rightarrow>
          let s = s\<lparr>mouse_packet := (mouse_packet s)[unat (packet_index s) := data], packet_index := packet_index s + 1\<rparr> in
          if packet_index s < 3 then (io, s)
          else
            let s = s\<lparr>packet_index := 0\<rparr>;
                flags = mouse_packet s ! 0;
                s = s\<lparr>mouse_left := (flags AND 0x01 \<noteq> 0), mouse_right := (flags AND 0x02 \<noteq> 0),
                      mouse_middle := (flags AND 0x04 \<noteq> 0)\<rparr> in
            if flags AND 0x08 = 0 then (io, s)
            else (io, mouse_move (framebuffer_width d) (framebuffer_height d) (mouse_packet s ! 1) (mouse_packet s ! 2) s))"

section \<open>The mouse stays on the screen\<close>

definition mouse_ok :: "display \<Rightarrow> mouse \<Rightarrow> bool" where
  "mouse_ok d s \<longleftrightarrow> length (mouse_packet s) = 3 \<and> packet_index s < 3 \<and> mouse_skip s < 3 \<and>
     0 \<le> sint (mouse_x s) \<and> sint (mouse_x s) < int (unat (fb_width d)) \<and>
     0 \<le> sint (mouse_y s) \<and> sint (mouse_y s) < int (unat (fb_height d))"

definition screen_fits :: "display \<Rightarrow> bool" where
  "screen_fits d \<longleftrightarrow> 0 < unat (fb_width d) \<and> unat (fb_width d) \<le> 1073741824 \<and>
     0 < unat (fb_height d) \<and> unat (fb_height d) \<le> 1073741824"

text \<open>One coordinate: moved, raised to 0, lowered to the last pixel.\<close>

definition clamp :: "u64 \<Rightarrow> u32 \<Rightarrow> u32" where
  "clamp n v = (let v = (if sint v < 0 then 0 else v) in if (scast v :: u64) \<ge> n then ucast (n - 1) else v)"

lemma mouse_move_clamp:
  "mouse_x (mouse_move w h mx my s) = clamp w (mouse_x s + scast mx)"
  "mouse_y (mouse_move w h mx my s) = clamp h (mouse_y s - scast my)"
  "mouse_packet (mouse_move w h mx my s) = mouse_packet s" "packet_index (mouse_move w h mx my s) = packet_index s"
  "mouse_skip (mouse_move w h mx my s) = (if mouse_skip s + 1 \<ge> 3 then 0 else mouse_skip s + 1)"
  by (simp_all add: mouse_move_def clamp_def Let_def)

lemma scast_u32_nonneg:
  assumes "0 \<le> sint (v :: u32)" shows "unat (scast v :: u64) = nat (sint v)"
proof -
  have r: "sint v < 2147483648" using sint_lt [of v] by simp
  have "uint (scast v :: u64) = sint v mod 18446744073709551616" unfolding scast_eq uint_word_of_int by simp
  also have "\<dots> = sint v" by (rule mod_pos_pos_trivial) (use assms r in simp_all)
  finally show ?thesis unfolding unat_eq_nat_uint by (rule arg_cong)
qed

lemma mouse_clamp_range:
  assumes "0 < unat n" "unat n \<le> 1073741824"
  shows "0 \<le> sint (clamp n v)" "sint (clamp n v) < int (unat n)"
proof -
  define u where "u = (if sint v < 0 then 0 else v)"
  have u: "0 \<le> sint u" by (simp add: u_def)
  have n1: "unat (n - 1) = unat n - 1" using assms(1) by (simp add: unat_minus_le word_le_nat_alt)
  have l: "sint (ucast (n - 1) :: u32) = int (unat n - 1)" using sint_ucast_small [of "n - 1"] assms n1 by simp
  have c: "clamp n v = (if (scast u :: u64) \<ge> n then ucast (n - 1) else u)" by (simp add: clamp_def u_def Let_def)
  have lo: "sint u < int (unat n)" if "\<not> (scast u :: u64) \<ge> n"
  proof -
    have "nat (sint u) < unat n" using that scast_u32_nonneg [OF u] by (simp add: word_le_nat_alt not_le)
    then show ?thesis using u by linarith
  qed
  show "0 \<le> sint (clamp n v)" unfolding c by (simp only: l u of_nat_0_le_iff split: if_split) blast
  have "int (unat n - 1) < int (unat n)" using assms(1) by linarith
  then show "sint (clamp n v) < int (unat n)" unfolding c using lo by (simp only: l split: if_split) blast
qed

lemma mouse_move_ok:
  assumes "screen_fits d" "length (mouse_packet s) = 3" "packet_index s < 3" "mouse_skip s < 3"
  shows "mouse_ok d (mouse_move (fb_width d) (fb_height d) mx my s)"
proof -
  have "mouse_skip s + 1 < 3 \<or> mouse_skip s + 1 \<ge> 3" by auto
  then show ?thesis
    using assms mouse_clamp_range [of "fb_width d"] mouse_clamp_range [of "fb_height d"]
    by (auto simp: mouse_ok_def mouse_move_clamp screen_fits_def)
qed

text \<open>
  C36. The mouse stays on the screen: on a screen of 1 to \<open>2 ^ 30\<close> pixels in each direction, whatever the
  device sends, an interrupt keeps the pointer on a visible pixel and the packet counter inside the
  packet of three bytes.
\<close>

theorem mouse_stays_on_screen:
  assumes "screen_fits d" "mouse_ok d s"
  shows "mouse_ok d (snd (mouse_handler d io s))"
proof -
  let ?p = "(mouse_packet s)[unat (packet_index s) := io_in io (Suc (io_reads io)) KEYBOARD_DATA]"
  let ?s = "s\<lparr>mouse_packet := ?p, packet_index := 0, mouse_left := (?p ! 0 AND 0x01 \<noteq> 0),
    mouse_right := (?p ! 0 AND 0x02 \<noteq> 0), mouse_middle := (?p ! 0 AND 0x04 \<noteq> 0)\<rparr>"
  have "mouse_ok d (mouse_move (fb_width d) (fb_height d) (?p ! 1) (?p ! 2) ?s)"
    by (rule mouse_move_ok [OF assms(1)]) (use assms(2) in \<open>simp_all add: mouse_ok_def\<close>)
  moreover have "mouse_ok d ?s" using assms(2) by (simp add: mouse_ok_def)
  ultimately show ?thesis using assms(2)
    by (simp add: mouse_handler_def inb_def Let_def framebuffer_width_def framebuffer_height_def) (simp add: mouse_ok_def not_less)
qed

definition sample_mouse :: mouse where
  "sample_mouse = \<lparr>mouse_x = 0, mouse_y = 0, mouse_left = False, mouse_right = False, mouse_middle = False,
     mouse_packet = [0x09, 100, 0], packet_index = 2, mouse_skip = 0, gui_needs_redraw = True\<rparr>"

text \<open>The last byte of a packet that moves by 100 to the right, past the edge of the screen of 16 by 8 pixels.\<close>

theorem mouse_stays_on_screen_witness:
  "mouse_ok sample_display (snd (mouse_handler sample_display
     \<lparr>io_in = (\<lambda>_ port. if port = 0x64 then 0x21 else 0), io_reads = 0, io_out = []\<rparr> sample_mouse))"
proof (rule mouse_stays_on_screen)
  show "screen_fits sample_display" by (simp add: screen_fits_def sample_display_def)
  show "mouse_ok sample_display sample_mouse" by (simp add: mouse_ok_def sample_display_def sample_mouse_def)
qed

end
