(* ===== verification/Gui.thy ===== *)
theory Gui
  imports Devices
begin

text \<open>
  The desktop: windows and their title bars (\<open>gui/windows.c\<close>), the window manager
  (\<open>gui/window_manager.c\<close>), the cursor, the background and the redrawing of the screen (\<open>gui/cursor.c\<close>,
  \<open>gui/desktop.c\<close>, \<open>gui/renderer.c\<close>, \<open>gui/gui.c\<close>), and the terminal window (\<open>apps/terminal_app.c\<close>). Windows are
  structures reached by their address in \<open>win_store\<close>; the array of the window manager holds addresses,
  the later ones drawn over the earlier ones. Coordinates are 32-bit words read as signed; sums that
  overflow an \<open>int\<close> wrap around. A search that finds no window returns the string literal
  \<open>"NULL"\<close>, a pointer to five bytes that is not null: it is a value of its own, and reading a window
  through it has no result (\<open>None\<close>).
\<close>

section \<open>Windows\<close>

definition GUI_TOPBAR :: u32 where "GUI_TOPBAR = 0x1E293B"
definition GUI_TEXT :: u32 where "GUI_TEXT = 0xFFFFFF"
definition GUI_SECONDARY :: u32 where "GUI_SECONDARY = 0xCBD5E1"
definition GUI_BORDER :: u32 where "GUI_BORDER = 0x334155"
definition TOPBAR_HEIGHT :: u64 where "TOPBAR_HEIGHT = 40"
definition DOCK_WIDTH :: u64 where "DOCK_WIDTH = 72"
definition MAX_WINDOWS :: nat where "MAX_WINDOWS = 32"
definition TITLEBAR_HEIGHT :: u32 where "TITLEBAR_HEIGHT = 24"

text \<open>The functions that draw the contents of a window: there is one.\<close>

datatype draw_content = Terminal_app_draw

record window =
  win_x :: u32
  win_y :: u32
  win_width :: u32
  win_height :: u32
  win_visible :: bool
  win_focused :: bool
  win_minimised :: bool
  win_maximised :: bool
  win_dragging :: bool
  win_resizing :: bool
  drag_offset_x :: u32
  drag_offset_y :: u32
  win_title :: "u8 list"
  win_draw_content :: "draw_content option"

record gui =
  gui_windows :: "u64 list"
  window_count :: nat
  drag_window :: u64
  win_store :: "u64 \<Rightarrow> window"
  gui_con :: console

text \<open>\<open>fill_rect\<close> called with \<open>int\<close> arguments.\<close>

definition fill_box :: "u32 \<Rightarrow> u32 \<Rightarrow> u32 \<Rightarrow> u32 \<Rightarrow> u32 \<Rightarrow> display \<Rightarrow> display" where
  "fill_box x y width height color d = fill_rect (scast x) (scast y) (scast width) (scast height) color d"

definition window_draw :: "window \<Rightarrow> display \<Rightarrow> display" where
  "window_draw window d =
     (let x = win_x window; y = win_y window; width = win_width window; height = win_height window;
          title = win_title window;
          d = fill_box (x + 4) (y + 4) width height 0x111827 d;
          d = fill_box x y width height 0x1E293B d;
          d = fill_box x y width 32 0x334155 d;
          d = fill_box x y width 1 0x64748B d;
          d = fill_box x (y + height - 1) width 1 0x64748B d;
          d = fill_box x y 1 height 0x64748B d;
          d = fill_box (x + width - 1) y 1 height 0x64748B d;
          d = fill_box (x + 10) (y + 10) 10 10 0xEF4444 d;
          d = fill_box (x + 26) (y + 10) 10 10 0xFACC15 d;
          d = fill_box (x + 42) (y + 10) 10 10 0x22C55E d
      in draw_string (x + 80) (y + 12) title 0xFFFFFF d)"

definition window_in_titlebar :: "window \<Rightarrow> u32 \<Rightarrow> u32 \<Rightarrow> bool" where
  "window_in_titlebar window x y \<longleftrightarrow>
     sint x \<ge> sint (win_x window) \<and> sint x < sint (win_x window + win_width window) \<and>
     sint y \<ge> sint (win_y window) \<and> sint y < sint (win_y window + TITLEBAR_HEIGHT)"

section \<open>The terminal window\<close>

definition terminal_app_draw :: "window \<Rightarrow> console \<Rightarrow> console" where
  "terminal_app_draw window s =
     terminal_render (upd_term (terminal_set_origin (win_x window + 20) (win_y window + 40)) s)"

definition call_draw_content :: "draw_content \<Rightarrow> window \<Rightarrow> console \<Rightarrow> console" where
  "call_draw_content f window s = (case f of Terminal_app_draw \<Rightarrow> terminal_app_draw window s)"

section \<open>Window manager\<close>

definition window_manager_init :: "gui \<Rightarrow> gui" where
  "window_manager_init g = g\<lparr>window_count := 0\<rparr>"

definition window_manager_add :: "u64 \<Rightarrow> gui \<Rightarrow> gui" where
  "window_manager_add window g =
     (if window_count g \<ge> MAX_WINDOWS then g
      else g\<lparr>gui_windows := (gui_windows g)[window_count g := window], window_count := window_count g + 1\<rparr>)"

definition window_manager_draw :: "gui \<Rightarrow> gui" where
  "window_manager_draw g =
     fold (\<lambda>i g.
       let window = win_store g (gui_windows g ! i) in
       if win_visible window then
         let g = g\<lparr>gui_con := (gui_con g)\<lparr>con_disp := window_draw window (con_disp (gui_con g))\<rparr>\<rparr> in
         (case win_draw_content window of None \<Rightarrow> g
          | Some f \<Rightarrow> g\<lparr>gui_con := call_draw_content f window (gui_con g)\<rparr>)
       else g) [0..<window_count g] g"

datatype hit = Window_at u64 | NULL_literal

fun get_window_loop :: "nat \<Rightarrow> u32 \<Rightarrow> u32 \<Rightarrow> gui \<Rightarrow> hit" where
  "get_window_loop 0 x y g = NULL_literal"
| "get_window_loop (Suc i) x y g =
     (let window = gui_windows g ! i; w = win_store g window in
      if \<not> win_visible w then get_window_loop i x y g
      else if sint x \<ge> sint (win_x w) \<and> sint x < sint (win_x w + win_width w) \<and>
              sint y \<ge> sint (win_y w) \<and> sint y < sint (win_y w + win_height w)
      then Window_at window
      else get_window_loop i x y g)"

definition window_manager_get_window_at :: "u32 \<Rightarrow> u32 \<Rightarrow> gui \<Rightarrow> hit" where
  "window_manager_get_window_at x y g = get_window_loop (window_count g) x y g"

definition window_manager_mouse_down :: "u32 \<Rightarrow> u32 \<Rightarrow> gui \<Rightarrow> gui option" where
  "window_manager_mouse_down x y g =
     (case window_manager_get_window_at x y g of
        NULL_literal \<Rightarrow> None
      | Window_at window \<Rightarrow>
          if window = 0 then Some g
          else if \<not> window_in_titlebar (win_store g window) x y then Some g
          else
            let g = g\<lparr>drag_window := window\<rparr>;
                w = (win_store g window)\<lparr>win_dragging := True\<rparr>;
                w = w\<lparr>drag_offset_x := x - win_x w, drag_offset_y := y - win_y w\<rparr>
            in Some (g\<lparr>win_store := (win_store g)(window := w)\<rparr>))"

definition window_manager_mouse_move :: "u32 \<Rightarrow> u32 \<Rightarrow> gui \<Rightarrow> gui" where
  "window_manager_mouse_move x y g =
     (if drag_window g = 0 then g
      else
        let w = win_store g (drag_window g);
            w = w\<lparr>win_x := x - drag_offset_x w, win_y := y - drag_offset_y w\<rparr>
        in g\<lparr>win_store := (win_store g)(drag_window g := w)\<rparr>)"

definition window_manager_mouse_up :: "gui \<Rightarrow> gui" where
  "window_manager_mouse_up g =
     (if drag_window g = 0 then g
      else g\<lparr>win_store := (win_store g)(drag_window g := (win_store g (drag_window g))\<lparr>win_dragging := False\<rparr>),
             drag_window := 0\<rparr>)"

definition gui_init :: "gui \<Rightarrow> gui" where
  "gui_init g = window_manager_init g"

section \<open>Desktop\<close>

definition renderer_clear :: "u32 \<Rightarrow> display \<Rightarrow> display" where
  "renderer_clear color d = framebuffer_clear color d"

definition cursor_draw :: "u32 \<Rightarrow> u32 \<Rightarrow> display \<Rightarrow> display" where
  "cursor_draw x y d =
     (let d = fold (\<lambda>i. framebuffer_putpixel (scast x) (scast (y + word_of_int i)) 0xFFFFFF) [- 5..4] d
      in fold (\<lambda>i. framebuffer_putpixel (scast (x + word_of_int i)) (scast y) 0xFFFFFF) [- 5..4] d)"

definition desktop_draw_background :: "display \<Rightarrow> display" where
  "desktop_draw_background d =
     (let d = for_u64 TOPBAR_HEIGHT (framebuffer_height d) (\<lambda>y d.
            let color = ucast (0x2D2D2D + y div 20) :: u32
            in fill_rect DOCK_WIDTH y (framebuffer_width d - DOCK_WIDTH) 1 color d) d;
          d = fill_rect 0 0 (framebuffer_width d) TOPBAR_HEIGHT GUI_TOPBAR d;
          d = draw_text_scaled 20 14 (str ''Zenith OS'') GUI_TEXT 2 0 d;
          text_width = font_text_width_scaled (str ''Development Build'') 2 0;
          d = draw_text_scaled (ucast (framebuffer_width d - text_width - 20)) 14 (str ''Development Build'')
                GUI_SECONDARY 2 0 d;
          d = fill_rect 0 (TOPBAR_HEIGHT - 1) (framebuffer_width d) 1 GUI_BORDER d;
          d = fill_rect 0 TOPBAR_HEIGHT DOCK_WIDTH (framebuffer_height d - TOPBAR_HEIGHT) 0x1E293B d;
          d = fill_rect 17 69 38 38 0x64748B d;
          d = fill_rect 18 70 36 36 0x475569 d;
          d = fill_rect 17 119 38 38 0x64748B d;
          d = fill_rect 18 120 36 36 0x475569 d;
          d = fill_rect 17 169 38 38 0x64748B d;
          d = fill_rect 18 170 36 36 0x475569 d;
          d = fill_rect 17 219 38 38 0x64748B d;
          d = fill_rect 18 220 36 36 0x475569 d
      in d)"

definition upd_disp :: "(display \<Rightarrow> display) \<Rightarrow> gui \<Rightarrow> gui" where
  "upd_disp f g = g\<lparr>gui_con := (gui_con g)\<lparr>con_disp := f (con_disp (gui_con g))\<rparr>\<rparr>"

definition desktop_init :: "gui \<Rightarrow> gui" where
  "desktop_init g = upd_disp desktop_draw_background g"

definition desktop_draw :: "mouse \<Rightarrow> gui \<Rightarrow> gui" where
  "desktop_draw mouse_state g =
     (let g = upd_disp desktop_draw_background g;
          g = window_manager_draw g
      in upd_disp (cursor_draw (mouse_x mouse_state) (mouse_y mouse_state)) g)"

text \<open>
  The terminal window before it is first drawn; members without an initialiser are zero. Its address is
  a parameter of \<open>terminal_app_init\<close>.
\<close>

definition terminal_window :: window where
  "terminal_window = \<lparr>win_x = 150, win_y = 80, win_width = 900, win_height = 600, win_visible = True, win_focused = True,
     win_minimised = False, win_maximised = False, win_dragging = False, win_resizing = False,
     drag_offset_x = 0, drag_offset_y = 0, win_title = str ''Terminal'', win_draw_content = Some Terminal_app_draw\<rparr>"

definition terminal_app_init :: "u64 \<Rightarrow> gui \<Rightarrow> gui" where
  "terminal_app_init terminal_window_addr g =
     (let s = upd_term terminal_init (gui_con g);
          s = terminal_write (str ''ZenithOS Terminal v0.1'' @ [10, 10]) s;
          s = terminal_write (str ''Type '' @ [34] @ str ''help'' @ [34] @ str '' to begin'' @ [10, 10]) s;
          s = upd_term (terminal_set_color 0x22C55E) s;
          s = terminal_write (str ''$'') s;
          s = upd_term (terminal_set_color 0xFFFFFF) s
      in window_manager_add terminal_window_addr (g\<lparr>gui_con := s\<rparr>))"

section \<open>Only visible pixels are written\<close>

text \<open>Two displays that differ in visible pixels only.\<close>

definition draws :: "display \<Rightarrow> display \<Rightarrow> bool" where
  "draws d d' \<longleftrightarrow> display_ok d' \<and> on_screen d' = on_screen d \<and> off_screen d' = off_screen d"

lemma draws_refl: "display_ok d \<Longrightarrow> draws d d"
  by (simp add: draws_def)

lemma draws_trans: "draws d d' \<Longrightarrow> draws d' d'' \<Longrightarrow> draws d d''"
  by (simp add: draws_def)

lemma draws_ok: "draws d d' \<Longrightarrow> display_ok d'"
  by (simp add: draws_def)

lemma paints_draws: "paints A color d d' \<Longrightarrow> draws d d'"
  by (simp add: paints_def draws_def)

text \<open>An operation that draws wherever the display is one.\<close>

definition drawing :: "(display \<Rightarrow> display) \<Rightarrow> bool" where
  "drawing f \<longleftrightarrow> (\<forall>d. display_ok d \<longrightarrow> draws d (f d))"

lemma drawing_then: "drawing f \<Longrightarrow> drawing g \<Longrightarrow> drawing (\<lambda>d. g (f d))"
  unfolding drawing_def by (meson draws_trans draws_ok)

lemma drawing_id: "drawing (\<lambda>d. d)"
  by (simp add: drawing_def draws_refl)

lemma drawing_fold: "(\<And>x. x \<in> set xs \<Longrightarrow> drawing (f x)) \<Longrightarrow> drawing (fold f xs)"
proof (induction xs)
  case (Cons x xs)
  have "drawing (\<lambda>d. fold f xs (f x d))"
    by (rule drawing_then [of "f x" "fold f xs"]) (use Cons in simp_all)
  then show ?case by (simp add: comp_def)
qed (simp add: drawing_id id_def)

lemma drawing_dep: "(\<And>d. drawing (f d)) \<Longrightarrow> drawing (\<lambda>d. f d d)"
  by (simp add: drawing_def)

lemma drawing_fill_rect: "drawing (fill_rect x y width height color)"
  unfolding drawing_def fill_rect_def draw_pixel_put by (intro allI impI) (rule paints_draws, erule paints_block)

lemma drawing_putpixel: "drawing (framebuffer_putpixel x y color)"
  unfolding drawing_def
proof (intro allI impI)
  fix d assume "display_ok d"
  then have "paints {(x, y)} color d (put_point (x, y) color d)" by (rule paints_intros(2))
  then show "draws d (framebuffer_putpixel x y color d)" using paints_draws by (simp add: put_point_def)
qed

lemma drawing_char: "drawing (draw_char_scaled x y c color scale)"
  unfolding drawing_def
proof (intro allI impI)
  fix d assume "display_ok d"
  then show "draws d (draw_char_scaled x y c color scale d)"
  proof (cases "0 \<le> sint c")
    case False
    then have "draw_char_scaled x y c color scale d = d" unfolding draw_char_scaled_def by simp
    then show ?thesis using \<open>display_ok d\<close> by (simp add: draws_refl)
  qed (rule paints_draws, rule draw_char_paints)
qed

lemma drawing_text: "drawing (draw_text_scaled x y cs color scale spacing)"
proof (induction cs arbitrary: x)
  case (Cons c cs)
  show ?case using drawing_then [OF drawing_char Cons] by simp
qed (simp add: drawing_def draws_refl)

lemma drawing_string: "drawing (draw_string x y cs color)"
  unfolding draw_string_def by (rule drawing_dep) (rule drawing_text)

lemma drawing_for: "(\<And>i. drawing (f i)) \<Longrightarrow> drawing (for_u64 a b f)"
  unfolding for_u64_def by (rule drawing_fold)

lemma draws_step: "drawing f \<Longrightarrow> draws d e \<Longrightarrow> draws d (f e)"
  unfolding drawing_def by (meson draws_trans draws_ok)

lemmas draws_intros = draws_step [OF drawing_fill_rect] draws_step [OF drawing_putpixel] draws_step [OF drawing_char]
  draws_step [OF drawing_text] draws_step [OF drawing_string]

lemma drawing_box: "drawing (fill_box x y width height color)"
  unfolding fill_box_def by (rule drawing_fill_rect)

lemma drawing_window: "drawing (window_draw window)"
  unfolding drawing_def window_draw_def Let_def
  by (intro allI impI draws_intros draws_step [OF drawing_box] draws_refl)

lemma drawing_background: "drawing desktop_draw_background"
proof -
  have 1: "drawing (for_u64 TOPBAR_HEIGHT (framebuffer_height d) (\<lambda>y d. fill_rect DOCK_WIDTH y
      (framebuffer_width d - DOCK_WIDTH) 1 (ucast (0x2D2D2D + y div 20)) d))" for d
    by (intro drawing_for) (rule drawing_dep, rule drawing_fill_rect)
  show ?thesis
    unfolding drawing_def desktop_draw_background_def Let_def
    by (intro allI impI draws_intros draws_step [OF 1] draws_refl)
qed

lemma drawing_cursor: "drawing (cursor_draw x y)"
  unfolding drawing_def cursor_draw_def Let_def
  by (intro allI impI draws_step [OF drawing_fold] drawing_putpixel draws_refl)

lemma drawing_fold2: "(\<And>i j. drawing (f i j)) \<Longrightarrow> drawing (fold (\<lambda>i. fold (f i) ys) xs)"
  by (intro drawing_fold)

lemma render_draws:
  assumes "display_ok (con_disp s)"
  shows "draws (con_disp s) (con_disp (terminal_render s))" "con_term (terminal_render s) = con_term s"
proof -
  define f where "f = (\<lambda>row col d. let cell = terminal_buffer (con_term s) ! row ! col in
     if character cell = 32 then d
     else draw_char (ucast (scast (terminal_origin_x (con_term s)) + of_nat col * 16 :: u64))
            (ucast (scast (terminal_origin_y (con_term s)) + of_nat row * 16 :: u64)) (character cell) (foreground cell) d)"
  have c: "drawing (draw_char x y c color)" for x y c color
    unfolding draw_char_def by (rule drawing_dep) (rule drawing_char)
  have "drawing (f row col)" for row col
    unfolding f_def Let_def by (cases "character (terminal_buffer (con_term s) ! row ! col) = 32") (simp_all add: c drawing_id)
  then have "drawing (fold (\<lambda>row. fold (f row) [0..<TERM_COLS]) [0..<TERM_ROWS])" by (rule drawing_fold2)
  from draws_step [OF this draws_intros(1) [OF draws_refl [OF assms]]]
  show "draws (con_disp s) (con_disp (terminal_render s))"
    unfolding terminal_render_def Let_def f_def by simp
qed (simp add: terminal_render_def Let_def)

text \<open>A step of the desktop that changes nothing but visible pixels and the state of the terminal.\<close>

definition redraws :: "gui \<Rightarrow> gui \<Rightarrow> bool" where
  "redraws g g' \<longleftrightarrow> (\<exists>s x y. g' = g\<lparr>gui_con := s\<rparr> \<and> draws (con_disp (gui_con g)) (con_disp s) \<and>
     con_term s = terminal_set_origin x y (con_term (gui_con g)))"

lemma same_origin: "terminal_set_origin (terminal_origin_x t) (terminal_origin_y t) t = t"
  by (simp add: terminal_set_origin_def)

lemma redraws_same_term:
  assumes "draws (con_disp (gui_con g)) (con_disp s)" "con_term s = con_term (gui_con g)"
  shows "redraws g (g\<lparr>gui_con := s\<rparr>)"
  using assms same_origin [of "con_term (gui_con g)"] unfolding redraws_def by metis

lemma redraws_refl: "display_ok (con_disp (gui_con g)) \<Longrightarrow> redraws g g"
  using redraws_same_term [of g "gui_con g"] by (simp add: draws_refl)

lemma redraws_trans: "redraws g g' \<Longrightarrow> redraws g' g'' \<Longrightarrow> redraws g g''"
  unfolding redraws_def by (force simp: terminal_set_origin_def intro: draws_trans)

lemma redraws_ok: "redraws g g' \<Longrightarrow> display_ok (con_disp (gui_con g'))"
  by (auto simp: redraws_def dest: draws_ok)

lemma upd_disp_redraws:
  assumes "drawing f" "display_ok (con_disp (gui_con g))"
  shows "redraws g (upd_disp f g)"
  using assms redraws_same_term [of g] unfolding upd_disp_def drawing_def by simp

lemma content_redraws:
  assumes "display_ok (con_disp (gui_con g))"
  shows "redraws g (g\<lparr>gui_con := call_draw_content f window (gui_con g)\<rparr>)"
proof (cases f)
  case Terminal_app_draw
  let ?s = "upd_term (terminal_set_origin (win_x window + 20) (win_y window + 40)) (gui_con g)"
  have "con_disp ?s = con_disp (gui_con g)" by (simp add: upd_term_def)
  then show ?thesis
    using render_draws [of ?s] assms Terminal_app_draw unfolding redraws_def
    by (intro exI [of _ "terminal_render ?s"] exI [of _ "win_x window + 20"] exI [of _ "win_y window + 40"])
      (simp add: call_draw_content_def terminal_app_draw_def upd_term_def)
qed

lemma window_manager_redraws:
  assumes "display_ok (con_disp (gui_con g))"
  shows "redraws g (window_manager_draw g)"
proof -
  have s: "redraws g (let window = win_store g (gui_windows g ! i) in
       if win_visible window then
         let g = g\<lparr>gui_con := (gui_con g)\<lparr>con_disp := window_draw window (con_disp (gui_con g))\<rparr>\<rparr> in
         (case win_draw_content window of None \<Rightarrow> g
          | Some f \<Rightarrow> g\<lparr>gui_con := call_draw_content f window (gui_con g)\<rparr>)
       else g)" if "display_ok (con_disp (gui_con g))" for i g
  proof -
    have 1: "redraws g (upd_disp (window_draw w) g)" for w by (rule upd_disp_redraws [OF drawing_window that])
    show ?thesis
      using redraws_refl [OF that] 1 redraws_trans [OF 1 content_redraws [OF redraws_ok [OF 1]]]
      by (simp add: Let_def upd_disp_def split: option.split)
  qed
  show ?thesis
    unfolding window_manager_draw_def
    by (rule fold_invariant [where I = "redraws g"])
      (use redraws_refl [OF assms] s redraws_ok redraws_trans in \<open>blast+\<close>)
qed

text \<open>A state of the desktop for the examples below: two windows, the second over the first.\<close>

definition sample_window :: "u32 \<Rightarrow> u32 \<Rightarrow> window" where
  "sample_window x y = terminal_window\<lparr>win_x := x, win_y := y, win_width := 200, win_height := 100\<rparr>"

definition sample_gui :: gui where
  "sample_gui = \<lparr>gui_windows = [1000, 2000] @ replicate 30 0, window_count = 2, drag_window = 0,
     win_store = (\<lambda>p. if p = 1000 then sample_window 10 20 else sample_window 60 70),
     gui_con = \<lparr>con_term = boot_terminal, con_disp = sample_display\<rparr>\<rparr>"

text \<open>
  C40. Redrawing the desktop writes nothing but visible pixels: the background, every visible window with its
  contents and the cursor, wherever the windows and the mouse are, off the screen included. Apart from
  those pixels \<open>desktop_draw\<close> changes only the origin of the terminal; the text, the windows and their order
  are as before.
\<close>

theorem desktop_draw_safe:
  assumes "display_ok (con_disp (gui_con g))"
  shows "\<exists>s x y. desktop_draw mouse_state g = g\<lparr>gui_con := s\<rparr> \<and> con_term s = terminal_set_origin x y (con_term (gui_con g)) \<and>
    display_ok (con_disp s) \<and> off_screen (con_disp s) = off_screen (con_disp (gui_con g))"
proof -
  let ?g = "upd_disp desktop_draw_background g"
  have 1: "redraws g ?g" by (rule upd_disp_redraws [OF drawing_background assms])
  have 2: "redraws ?g (window_manager_draw ?g)" by (rule window_manager_redraws [OF redraws_ok [OF 1]])
  have "redraws g (desktop_draw mouse_state g)"
    unfolding desktop_draw_def Let_def
    using redraws_trans [OF redraws_trans [OF 1 2]] upd_disp_redraws [OF drawing_cursor redraws_ok [OF 2]] by blast
  then show ?thesis unfolding redraws_def draws_def by blast
qed

theorem desktop_draw_safe_witness:
  "\<exists>s x y. desktop_draw sample_mouse sample_gui = sample_gui\<lparr>gui_con := s\<rparr> \<and> con_term s = terminal_set_origin x y boot_terminal \<and>
    display_ok (con_disp s) \<and> off_screen (con_disp s) = off_screen sample_display"
  using desktop_draw_safe [of sample_gui sample_mouse] by (simp add: sample_gui_def sample_display_ok)

section \<open>Dragging windows\<close>

text \<open>The windows of the manager from the topmost down, and the rectangle of a window in integers.\<close>

definition shown_windows :: "gui \<Rightarrow> u64 list" where
  "shown_windows g = rev (filter (\<lambda>p. win_visible (win_store g p)) (take (window_count g) (gui_windows g)))"

definition covers :: "window \<Rightarrow> int \<Rightarrow> int \<Rightarrow> bool" where
  "covers w x y \<longleftrightarrow> sint (win_x w) \<le> x \<and> x < sint (win_x w) + sint (win_width w) \<and>
     sint (win_y w) \<le> y \<and> y < sint (win_y w) + sint (win_height w)"

text \<open>
  The array is used up to its count with distinct windows, no window address is null, and no window
  reaches over the range of an \<open>int\<close>.
\<close>

definition window_fits :: "window \<Rightarrow> bool" where
  "window_fits w \<longleftrightarrow> 0 \<le> sint (win_width w) \<and> 24 \<le> sint (win_height w) \<and>
     sint (win_x w) + sint (win_width w) < 2147483648 \<and> sint (win_y w) + sint (win_height w) < 2147483648"

definition gui_ok :: "gui \<Rightarrow> bool" where
  "gui_ok g \<longleftrightarrow> length (gui_windows g) = MAX_WINDOWS \<and> window_count g \<le> MAX_WINDOWS \<and>
     (\<forall>p \<in> set (take (window_count g) (gui_windows g)). p \<noteq> 0 \<and> window_fits (win_store g p))"

lemma window_edges:
  assumes "window_fits w"
  shows "sint (win_x w + win_width w) = sint (win_x w) + sint (win_width w)"
    "sint (win_y w + win_height w) = sint (win_y w) + sint (win_height w)"
    "sint (win_y w + TITLEBAR_HEIGHT) = sint (win_y w) + 24"
  using assms sint_ge [of "win_x w"] sint_ge [of "win_y w"] sint_add_u32 [of "win_x w" "win_width w"]
    sint_add_u32 [of "win_y w" "win_height w"] sint_add_u32 [of "win_y w" TITLEBAR_HEIGHT]
  by (simp_all add: window_fits_def TITLEBAR_HEIGHT_def)

lemma in_window:
  assumes "window_fits w"
  shows "sint x \<ge> sint (win_x w) \<and> sint x < sint (win_x w + win_width w) \<and>
      sint y \<ge> sint (win_y w) \<and> sint y < sint (win_y w + win_height w) \<longleftrightarrow> covers w (sint x) (sint y)"
    and "window_in_titlebar w x y \<longleftrightarrow> covers w (sint x) (sint y) \<and> sint y < sint (win_y w) + 24"
  using assms unfolding window_in_titlebar_def window_edges [OF assms] by (auto simp: covers_def window_fits_def)

lemma get_window_loop_find:
  assumes "n \<le> length (gui_windows g)" "\<forall>p \<in> set (take n (gui_windows g)). window_fits (win_store g p)"
  shows "get_window_loop n x y g =
    (case find (\<lambda>p. covers (win_store g p) (sint x) (sint y)) (rev (filter (\<lambda>p. win_visible (win_store g p)) (take n (gui_windows g)))) of
       None \<Rightarrow> NULL_literal | Some p \<Rightarrow> Window_at p)"
  using assms
proof (induction n)
  case (Suc n)
  have t: "take (Suc n) (gui_windows g) = take n (gui_windows g) @ [gui_windows g ! n]"
    using Suc.prems(1) by (simp add: take_Suc_conv_app_nth)
  then have "window_fits (win_store g (gui_windows g ! n))" using Suc.prems(2) by simp
  moreover have "\<forall>p \<in> set (take n (gui_windows g)). window_fits (win_store g p)" using Suc.prems(2) t by simp
  ultimately show ?case using Suc t by (simp add: in_window(1) Let_def)
qed simp

lemma get_window_at_topmost:
  assumes "gui_ok g"
  shows "window_manager_get_window_at x y g =
    (case find (\<lambda>p. covers (win_store g p) (sint x) (sint y)) (shown_windows g) of None \<Rightarrow> NULL_literal | Some p \<Rightarrow> Window_at p)"
  unfolding window_manager_get_window_at_def shown_windows_def
  by (rule get_window_loop_find) (use assms in \<open>simp_all add: gui_ok_def\<close>)

text \<open>The state while the window \<open>p\<close> is dragged, and the moves of the mouse on it.\<close>

lemma drag_moves:
  assumes "drag_window g = p" "p \<noteq> 0"
  shows "fold (\<lambda>(x, y). window_manager_mouse_move x y) ms g =
    (if ms = [] then g else g\<lparr>win_store := (win_store g)(p := (win_store g p)\<lparr>win_x := fst (last ms) - drag_offset_x (win_store g p),
       win_y := snd (last ms) - drag_offset_y (win_store g p)\<rparr>)\<rparr>)"
proof (induction ms rule: rev_induct)
  case (snoc m ms)
  show ?case using snoc assms by (cases m) (simp add: window_manager_mouse_move_def Let_def)
qed simp

text \<open>
  C39. What the mouse does to the windows. The window found under a point is the topmost visible one that
  covers it. A press on its title bar, any movements and a release move that window by the distance
  from the press to the last position, and change nothing else but its record of the drag; a press
  on the rest of a window changes nothing; a press outside every window reads through the pointer to
  the literal \<open>"NULL"\<close>, which has no defined result.
\<close>

theorem window_drag_follows_mouse:
  assumes "gui_ok g"
  shows "case find (\<lambda>p. covers (win_store g p) (sint x) (sint y)) (shown_windows g) of
    None \<Rightarrow> window_manager_get_window_at x y g = NULL_literal \<and> window_manager_mouse_down x y g = None
  | Some p \<Rightarrow> window_manager_get_window_at x y g = Window_at p \<and>
      (if sint y < sint (win_y (win_store g p)) + 24
       then \<exists>g'. window_manager_mouse_down x y g = Some g' \<and>
         window_manager_mouse_up (fold (\<lambda>(x, y). window_manager_mouse_move x y) ms g') =
           g\<lparr>drag_window := 0, win_store := (win_store g)(p := (win_store g p)\<lparr>
             win_x := win_x (win_store g p) + (fst (last ((x, y) # ms)) - x),
             win_y := win_y (win_store g p) + (snd (last ((x, y) # ms)) - y),
             win_dragging := False,
             drag_offset_x := x - win_x (win_store g p), drag_offset_y := y - win_y (win_store g p)\<rparr>)\<rparr>
       else window_manager_mouse_down x y g = Some g)"
proof (cases "find (\<lambda>p. covers (win_store g p) (sint x) (sint y)) (shown_windows g)")
  case None
  then show ?thesis using get_window_at_topmost [OF assms] by (simp add: window_manager_mouse_down_def)
next
  case (Some p)
  let ?w = "win_store g p"
  have c: "covers ?w (sint x) (sint y)" and "p \<in> set (take (window_count g) (gui_windows g))"
    using find_Some_mem [OF Some] by (auto simp: shown_windows_def)
  then have p: "p \<noteq> 0" "window_fits ?w" using assms by (auto simp: gui_ok_def)
  have h: "window_manager_get_window_at x y g = Window_at p" using get_window_at_topmost [OF assms] Some by simp
  define g' where "g' = g\<lparr>drag_window := p, win_store := (win_store g)(p := ?w\<lparr>win_dragging := True,
      drag_offset_x := x - win_x ?w, drag_offset_y := y - win_y ?w\<rparr>)\<rparr>"
  have d: "drag_window g' = p" by (simp add: g'_def)
  have "window_manager_mouse_down x y g = Some (if sint y < sint (win_y ?w) + 24 then g' else g)"
    using c p by (simp add: window_manager_mouse_down_def h in_window(2) g'_def Let_def)
  moreover have "window_manager_mouse_up (fold (\<lambda>(x, y). window_manager_mouse_move x y) ms g') =
      g\<lparr>drag_window := 0, win_store := (win_store g)(p := ?w\<lparr>win_x := win_x ?w + (fst (last ((x, y) # ms)) - x),
        win_y := win_y ?w + (snd (last ((x, y) # ms)) - y), win_dragging := False,
        drag_offset_x := x - win_x ?w, drag_offset_y := y - win_y ?w\<rparr>)\<rparr>"
    unfolding drag_moves [OF d p(1)] using p(1)
    by (auto simp: window_manager_mouse_up_def g'_def fun_eq_iff intro!: gui.equality window.equality)
  ultimately show ?thesis using Some h by simp
qed

theorem window_drag_follows_mouse_witness:
  "(\<exists>g'. window_manager_mouse_down 70 75 sample_gui = Some g' \<and>
     win_x (win_store (window_manager_mouse_up (fold (\<lambda>(x, y). window_manager_mouse_move x y) [(90, 80), (100, 65)] g')) 2000) = 90) \<and>
   window_manager_mouse_down 500 500 sample_gui = None"
proof -
  have ok: "gui_ok sample_gui"
    by (simp add: gui_ok_def sample_gui_def MAX_WINDOWS_def window_fits_def sample_window_def terminal_window_def)
  have s: "shown_windows sample_gui = [2000, 1000]" by (simp add: shown_windows_def sample_gui_def sample_window_def terminal_window_def)
  show ?thesis
    using window_drag_follows_mouse [OF ok, of 70 75 "[(90, 80), (100, 65)]"] window_drag_follows_mouse [OF ok, of 500 500 "[]"]
    unfolding s by (simp add: covers_def sample_gui_def sample_window_def terminal_window_def) force
qed

end
