(* ===== verification/Interrupts.thy ===== *)
theory Interrupts
  imports Devices Process "HOL-Library.Monad_Syntax"
begin

text \<open>
  Descriptor tables (\<open>cpu/gdt.c\<close>, \<open>cpu/idt.c\<close>, \<open>cpu/tss.c\<close>) and the handling of interrupts and exceptions
  (\<open>cpu/isr.c\<close>, \<open>cpu/irq.c\<close>, \<open>cpu/exceptions.c\<close>, \<open>cpu/exceptions/\<close>). The addresses of the tables and of the
  entry stubs of the assembly are parameters. An interrupt is handled on the \<open>machine\<close>: the kernel, the
  console and ports, the mouse and the table of handlers, with the fault address register CR2. A handler
  that stops the machine for good halts in a state; no result (\<open>None\<close>) stands for a run that never gets
  that far or is undefined. Exception handlers print through \<open>kprintf\<close>, which is modelled with its output; the messages of the
  initialisation and of the demand pager, and the instructions that load the tables, are left out.
\<close>

section \<open>Descriptor tables\<close>

record gdt_entry =
  limit_low :: u16
  base_low :: u16
  base_middle :: u8
  gdt_access :: u8
  granularity :: u8
  base_high :: u8

record table_register =
  tr_limit :: u16
  tr_base :: u64

record idt_entry =
  offset_low :: u16
  idt_selector :: u16
  idt_ist :: u8
  type_attributes :: u8
  offset_middle :: u16
  offset_high :: u32
  idt_zero :: u32

record tss =
  tss_reserved0 :: u32
  tss_rsp :: "u64 list"
  tss_reserved1 :: u64
  tss_ist :: "u64 list"
  tss_reserved2 :: u64
  tss_reserved3 :: u16
  iomap_base :: u16

definition sizeof_tss :: u64 where "sizeof_tss = 104"

definition tss_init :: "tss \<Rightarrow> tss" where
  "tss_init t = \<lparr>tss_reserved0 = 0, tss_rsp = replicate 3 0, tss_reserved1 = 0, tss_ist = replicate 7 0,
     tss_reserved2 = 0, tss_reserved3 = 0, iomap_base = ucast sizeof_tss\<rparr>"

definition gdt_set_entry :: "nat \<Rightarrow> u32 \<Rightarrow> u32 \<Rightarrow> u8 \<Rightarrow> u8 \<Rightarrow> gdt_entry list \<Rightarrow> gdt_entry list" where
  "gdt_set_entry index base limit access gran gdt =
     gdt[index := \<lparr>limit_low = ucast (limit AND 0xFFFF), base_low = ucast (base AND 0xFFFF),
       base_middle = ucast (drop_bit 16 base AND 0xFF), gdt_access = access,
       granularity = ucast (drop_bit 16 limit AND 0x0F) OR (gran AND 0xF0),
       base_high = ucast (drop_bit 24 base AND 0xFF)\<rparr>]"

text \<open>The entry whose eight bytes are those of a 64-bit word.\<close>

definition entry_of_word :: "u64 \<Rightarrow> gdt_entry" where
  "entry_of_word w = \<lparr>limit_low = ucast w, base_low = ucast (drop_bit 16 w), base_middle = ucast (drop_bit 32 w),
     gdt_access = ucast (drop_bit 40 w), granularity = ucast (drop_bit 48 w), base_high = ucast (drop_bit 56 w)\<rparr>"

definition gdt_set_tss_descriptor :: "nat \<Rightarrow> u64 \<Rightarrow> u32 \<Rightarrow> gdt_entry list \<Rightarrow> gdt_entry list" where
  "gdt_set_tss_descriptor index base limit gdt =
     (let descriptor_low = (ucast limit AND 0xFFFF) OR push_bit 16 (base AND 0xFFFFFF) OR push_bit 40 0x89 OR
            push_bit 48 (ucast (drop_bit 16 limit) AND 0xF) OR push_bit 56 (drop_bit 24 base AND 0xFF);
          descriptor_high = drop_bit 32 base
      in gdt[index := entry_of_word descriptor_low, index + 1 := entry_of_word descriptor_high])"

definition gdt_init :: "u64 \<Rightarrow> u64 \<Rightarrow> gdt_entry list \<Rightarrow> gdt_entry list \<times> table_register" where
  "gdt_init gdt_addr tss_addr gdt =
     (let gdt = gdt_set_entry 0 0 0 0 0 gdt;
          gdt = gdt_set_entry 1 0 0xFFFFF 0x9A 0xA0 gdt;
          gdt = gdt_set_entry 2 0 0xFFFFF 0x92 0xA0 gdt;
          gdt = gdt_set_entry 3 0 0xFFFFF 0xFA 0xA0 gdt;
          gdt = gdt_set_entry 4 0 0xFFFFF 0xF2 0xA0 gdt;
          gdt = gdt_set_tss_descriptor 5 tss_addr (ucast (sizeof_tss - 1)) gdt
      in (gdt, \<lparr>tr_limit = 8 * 7 - 1, tr_base = gdt_addr\<rparr>))"

definition ISR_VECTOR_COUNT :: nat where "ISR_VECTOR_COUNT = 48"

definition idt_set_gate :: "nat \<Rightarrow> u64 \<Rightarrow> u16 \<Rightarrow> u8 \<Rightarrow> idt_entry list \<Rightarrow> idt_entry list" where
  "idt_set_gate vector address selector attributes idt =
     idt[vector := \<lparr>offset_low = ucast (address AND 0xFFFF), idt_selector = selector, idt_ist = 0,
       type_attributes = attributes, offset_middle = ucast (drop_bit 16 address AND 0xFFFF),
       offset_high = ucast (drop_bit 32 address AND 0xFFFFFFFF), idt_zero = 0\<rparr>]"

text \<open>The table of the entry stubs, whose addresses the linker gives.\<close>

definition isr_table :: "(nat \<Rightarrow> u64) \<Rightarrow> u64 list" where
  "isr_table isr = [isr 0, isr 1, isr 2, isr 3, isr 4, isr 5, isr 6, isr 7, isr 8, isr 9, isr 10, isr 11, isr 12, isr
     13, isr 14, isr 15, isr 16, isr 17, isr 18, isr 19, isr 20, isr 21, isr 22, isr 23, isr 24, isr 25,
     isr 26, isr 27, isr 28, isr 29, isr 30, isr 31, isr 32, isr 33, isr 34, isr 35, isr 36, isr 37, isr
     38, isr 39, isr 40, isr 41, isr 42, isr 43, isr 44, isr 45, isr 46, isr 47]"

definition idt_init :: "u64 \<Rightarrow> u64 list \<Rightarrow> idt_entry list \<Rightarrow> idt_entry list \<times> table_register" where
  "idt_init idt_addr table idt =
     (fold (\<lambda>vector. idt_set_gate vector (table ! vector) 0x08 0x8E) [0..<ISR_VECTOR_COUNT] idt,
      \<lparr>tr_limit = 16 * 256 - 1, tr_base = idt_addr\<rparr>)"

section \<open>The machine\<close>

record registers =
  r15 :: u64 r14 :: u64 r13 :: u64 r12 :: u64 r11 :: u64 r10 :: u64 r9 :: u64 r8 :: u64
  rdi :: u64 rsi :: u64 rbp :: u64 rdx :: u64 rcx :: u64 rbx :: u64 rax :: u64

record interrupt_frame =
  rip :: u64
  cs :: u64
  rflags :: u64
  rsp :: u64
  ss :: u64

record interrupt_context =
  regs :: registers
  interrupt_number :: u64
  error_code :: u64
  frame :: interrupt_frame

record machine =
  m_kernel :: kernel
  m_dev :: devices
  m_mouse :: mouse
  m_handlers :: "irq_handler option list"
  m_cr2 :: u64

datatype outcome = Returns machine | Halts machine

definition m_mm :: "machine \<Rightarrow> mm_state" where
  "m_mm m = hp_mm (k_heap (m_kernel m))"

definition set_mm :: "mm_state \<Rightarrow> machine \<Rightarrow> machine" where
  "set_mm mm m = m\<lparr>m_kernel := set_heap ((k_heap (m_kernel m))\<lparr>hp_mm := mm\<rparr>) (m_kernel m)\<rparr>"

definition print :: "string \<Rightarrow> karg list \<Rightarrow> machine \<Rightarrow> machine option" where
  "print fmt args m =
     (case kprintf (str fmt) args (m_dev m) of None \<Rightarrow> None | Some d \<Rightarrow> Some (m\<lparr>m_dev := d\<rparr>))"

text \<open>A line of output ends with a line feed.\<close>

definition println :: "string \<Rightarrow> karg list \<Rightarrow> machine \<Rightarrow> machine option" where
  "println fmt args m = print (fmt @ [CHR 0x0A]) args m"

section \<open>Exceptions\<close>

definition EXCEPTION_PAGE_FAULT :: u64 where "EXCEPTION_PAGE_FAULT = 14"

definition exception_names :: "string list" where
  "exception_names = [
     ''Divide Error'', ''Debug'', ''Non-Maskable Interrupt'', ''Breakpoint'',
     ''Overflow'', ''BOUND Range Exceeded'', ''Invalid Opcode'', ''Device Not Available'',
     ''Double Fault'', ''Coprocessor Segment Overrun'', ''Invalid TSS'', ''Segment Not Present'',
     ''Stack-Segment Fault'', ''General Protection Fault'', ''Page Fault'', ''Reserved'',
     ''x87 Floating-Point Exception'', ''Alignment Check'', ''Machine Check'', ''SIMD Floating-Point Exception'',
     ''Virtualization Exception'', ''Control Protection Exception'', ''Reserved'', ''Reserved'',
     ''Reserved'', ''Reserved'', ''Reserved'', ''Reserved'',
     ''Hypervisor Injection Exception'', ''VMM Communication Exception'', ''Security Exception'', ''Reserved'']"

definition kernel_panic :: "string \<Rightarrow> interrupt_context \<Rightarrow> machine \<Rightarrow> outcome option" where
  "kernel_panic reason c m = do {
     m \<leftarrow> println '''' [] m;
     m \<leftarrow> println ''========================================'' [] m;
     m \<leftarrow> println ''              KERNEL PANIC'' [] m;
     m \<leftarrow> println ''========================================'' [] m;
     m \<leftarrow> println ([CHR 0x0A] @ ''Exception : %s'') [Arg_string (str reason)] m;
     m \<leftarrow> println ''Interrupt : %llu'' [Arg_word (interrupt_number c)] m;
     m \<leftarrow> println ''Error Code: 0x%016llx'' [Arg_word (error_code c)] m;
     m \<leftarrow> println ([CHR 0x0A] @ ''CPU State'') [] m;
     m \<leftarrow> println ''----------------------------------------'' [] m;
     m \<leftarrow> println ''RIP    : %p'' [Arg_word (rip (frame c))] m;
     m \<leftarrow> println ''CS     : 0x%llx'' [Arg_word (cs (frame c))] m;
     m \<leftarrow> println ''RFLAGS : 0x%llx'' [Arg_word (rflags (frame c))] m;
     m \<leftarrow> println ''RSP    : %p'' [Arg_word (rsp (frame c))] m;
     m \<leftarrow> println ''SS     : 0x%llx'' [Arg_word (ss (frame c))] m;
     m \<leftarrow> println ([CHR 0x0A] @ ''General Registers'') [] m;
     m \<leftarrow> println ''----------------------------------------'' [] m;
     m \<leftarrow> println ''RAX : %016llx'' [Arg_word (rax (regs c))] m;
     m \<leftarrow> println ''RBX : %016llx'' [Arg_word (rbx (regs c))] m;
     m \<leftarrow> println ''RCX : %016llx'' [Arg_word (rcx (regs c))] m;
     m \<leftarrow> println ''RDX : %016llx'' [Arg_word (rdx (regs c))] m;
     m \<leftarrow> println ''RSI : %016llx'' [Arg_word (rsi (regs c))] m;
     m \<leftarrow> println ''RDI : %016llx'' [Arg_word (rdi (regs c))] m;
     m \<leftarrow> println ''RBP : %016llx'' [Arg_word (rbp (regs c))] m;
     m \<leftarrow> println ''R8  : %016llx'' [Arg_word (r8 (regs c))] m;
     m \<leftarrow> println ''R9  : %016llx'' [Arg_word (r9 (regs c))] m;
     m \<leftarrow> println ''R10 : %016llx'' [Arg_word (r10 (regs c))] m;
     m \<leftarrow> println ''R11 : %016llx'' [Arg_word (r11 (regs c))] m;
     m \<leftarrow> println ''R12 : %016llx'' [Arg_word (r12 (regs c))] m;
     m \<leftarrow> println ''R13 : %016llx'' [Arg_word (r13 (regs c))] m;
     m \<leftarrow> println ''R14 : %016llx'' [Arg_word (r14 (regs c))] m;
     m \<leftarrow> println ''R15 : %016llx'' [Arg_word (r15 (regs c))] m;
     Some (Halts m)
   }"

definition yes_no :: "bool \<Rightarrow> karg list" where
  "yes_no b = [Arg_string (str (if b then ''Yes'' else ''No''))]"

definition page_fault_handler :: "interrupt_context \<Rightarrow> machine \<Rightarrow> outcome option" where
  "page_fault_handler c m = do {
     let fault_address = m_cr2 m;
     let error = error_code c;
     m \<leftarrow> println ''Page Fault!'' [] m;
     m \<leftarrow> println ''Fault Address = %p'' [Arg_word fault_address] m;
     m \<leftarrow> println ''========================='' [] m;
     m \<leftarrow> println ''Present        :%s'' (yes_no (error AND 1 \<noteq> 0)) m;
     m \<leftarrow> println ''Write          :%s'' (yes_no (error AND 2 \<noteq> 0)) m;
     m \<leftarrow> println ''User Mode      :%s'' (yes_no (error AND 4 \<noteq> 0)) m;
     m \<leftarrow> println ''Reserved Bit   :%s'' (yes_no (error AND 8 \<noteq> 0)) m;
     m \<leftarrow> println ''Instruction    :%s'' (yes_no (error AND 16 \<noteq> 0)) m;
     m \<leftarrow> println ''========================='' [] m;
     case vmm_handle_page_fault fault_address error (m_mm m) of (resolved, mm) \<Rightarrow>
       let m = set_mm mm m in
       if resolved then Some (Returns m) else kernel_panic ''PAGE FAULT'' c m
   }"

definition exception_dispatch :: "interrupt_context \<Rightarrow> machine \<Rightarrow> outcome option" where
  "exception_dispatch c m =
     (if interrupt_number c = EXCEPTION_PAGE_FAULT then page_fault_handler c m
      else kernel_panic (exception_names ! unat (interrupt_number c)) c m)"

section \<open>Interrupt requests\<close>

text \<open>A call through a handler pointer; the timer gets the address of the context.\<close>

definition call_handler :: "irq_handler \<Rightarrow> u64 \<Rightarrow> machine \<Rightarrow> machine option" where
  "call_handler handler context m =
     (case handler of
        Pit_irq_handler \<Rightarrow> do {
          s \<leftarrow> pit_irq_handler context (k_sched (m_kernel m));
          Some (m\<lparr>m_kernel := (m_kernel m)\<lparr>k_sched := s\<rparr>\<rparr>)
        }
      | Keyboard_irq_handler \<Rightarrow> Some (m\<lparr>m_dev := keyboard_handler (m_dev m)\<rparr>)
      | Mouse_irq_handler \<Rightarrow>
          (case mouse_handler (con_disp (dev_con (m_dev m))) (dev_io (m_dev m)) (m_mouse m) of (io, mouse) \<Rightarrow>
             Some (m\<lparr>m_dev := (m_dev m)\<lparr>dev_io := io\<rparr>, m_mouse := mouse\<rparr>)))"

definition irq_dispatch :: "u64 \<Rightarrow> interrupt_context \<Rightarrow> machine \<Rightarrow> machine option" where
  "irq_dispatch context c m =
     (if interrupt_number c < IRQ_BASE_VECTOR \<or> interrupt_number c \<ge> IRQ_BASE_VECTOR + of_nat IRQ_COUNT then Some m
      else
        let irq_line = ucast (interrupt_number c - IRQ_BASE_VECTOR) :: u8 in do {
          m \<leftarrow> (case m_handlers m ! unat irq_line of None \<Rightarrow> Some m | Some handler \<Rightarrow> call_handler handler context m);
          Some (m\<lparr>m_dev := (m_dev m)\<lparr>dev_io := pic_send_eoi irq_line (dev_io (m_dev m))\<rparr>\<rparr>)
        })"

definition isr_dispatch :: "u64 \<Rightarrow> interrupt_context \<Rightarrow> machine \<Rightarrow> outcome option" where
  "isr_dispatch context c m =
     (if interrupt_number c < 32 then exception_dispatch c m
      else map_option Returns (irq_dispatch context c m))"

section \<open>Output only\<close>

text \<open>A machine that differs from another only in what has been printed.\<close>

definition printed_more :: "machine \<Rightarrow> machine \<Rightarrow> bool" where
  "printed_more m m' \<longleftrightarrow> (\<exists>d out. m' = m\<lparr>m_dev := d\<rparr> \<and> dev_io d = (dev_io (m_dev m))\<lparr>io_out := io_out (dev_io (m_dev m)) @ map (Pair 0xE9) out\<rparr> \<and>
     con_term (dev_con d) = fold terminal_putchar out (con_term (dev_con (m_dev m))))"

lemma printed_more_refl: "printed_more m m"
  unfolding printed_more_def by (intro exI [of _ "m_dev m"] exI [of _ "[]"]) simp

lemma printed_more_trans: "printed_more m m' \<Longrightarrow> printed_more m' m'' \<Longrightarrow> printed_more m m''"
  unfolding printed_more_def
proof (elim exE conjE)
  fix d out d' out'
  assume a: "m' = m\<lparr>m_dev := d\<rparr>" "dev_io d = (dev_io (m_dev m))\<lparr>io_out := io_out (dev_io (m_dev m)) @ map (Pair 0xE9) out\<rparr>"
    "con_term (dev_con d) = fold terminal_putchar out (con_term (dev_con (m_dev m)))"
    "m'' = m'\<lparr>m_dev := d'\<rparr>" "dev_io d' = (dev_io (m_dev m'))\<lparr>io_out := io_out (dev_io (m_dev m')) @ map (Pair 0xE9) out'\<rparr>"
    "con_term (dev_con d') = fold terminal_putchar out' (con_term (dev_con (m_dev m')))"
  show "\<exists>d out. m'' = m\<lparr>m_dev := d\<rparr> \<and> dev_io d = (dev_io (m_dev m))\<lparr>io_out := io_out (dev_io (m_dev m)) @ map (Pair 0xE9) out\<rparr> \<and>
     con_term (dev_con d) = fold terminal_putchar out (con_term (dev_con (m_dev m)))"
    using a by (intro exI [of _ d'] exI [of _ "out @ out'"]) simp
qed

lemma puts_dev_io: "dev_io (kprintf_puts out s) = (dev_io s)\<lparr>io_out := io_out (dev_io s) @ map (Pair 0xE9) out\<rparr>"
proof (induction out arbitrary: s)
  case (Cons c out)
  show ?case using Cons [of "kprintf_putc c s"] by (simp add: kprintf_puts_def kprintf_putc_def outb_def Let_def)
qed (simp add: kprintf_puts_def)

lemma println_prints:
  assumes "printed (str (fmt @ [CHR 0x0A])) args \<noteq> None"
  shows "\<exists>m'. println fmt args m = Some m' \<and> printed_more m m'"
proof -
  from assms obtain out where "printed (str (fmt @ [CHR 0x0A])) args = Some out" by blast
  moreover define d where "d = (kprintf_puts out (m_dev m))\<lparr>dev_con := terminal_render (dev_con (kprintf_puts out (m_dev m)))\<rparr>"
  ultimately have "println fmt args m = Some (m\<lparr>m_dev := d\<rparr>)"
    by (simp add: println_def print_def kprintf_def kprintf_loop_printed)
  moreover have "printed_more m (m\<lparr>m_dev := d\<rparr>)"
    unfolding printed_more_def by (intro exI [of _ d] exI [of _ out]) (simp add: d_def puts_dev_io puts_term)
  ultimately show ?thesis by blast
qed

text \<open>A run that prints and then ends as the outcome \<open>f\<close> says.\<close>

definition ends_as :: "(machine \<Rightarrow> outcome) \<Rightarrow> machine \<Rightarrow> outcome option \<Rightarrow> bool" where
  "ends_as f m r \<longleftrightarrow> (\<exists>m'. r = Some (f m') \<and> printed_more m m')"

lemma ends_as_println:
  assumes "printed (str (fmt @ [CHR 0x0A])) args \<noteq> None" "\<And>m'. ends_as f m' (k m')"
  shows "ends_as f m (println fmt args m \<bind> k)"
  using println_prints [OF assms(1), of m] assms(2) printed_more_trans unfolding ends_as_def by fastforce

lemma ends_as_done: "ends_as f m (Some (f m))"
  using printed_more_refl by (auto simp: ends_as_def)

lemmas format_simps = str_def kprintf_directive_def unsigned_directive_def long_directive_def convert_def va_word_def va_string_def

lemma kernel_panic_halts: "ends_as Halts m (kernel_panic reason c m)"
  unfolding kernel_panic_def
  by (intro ends_as_println ends_as_done) (simp_all add: format_simps)

lemma set_mm_dev [simp]: "m_dev (set_mm mm m) = m_dev m" "set_mm mm (m\<lparr>m_dev := d\<rparr>) = (set_mm mm m)\<lparr>m_dev := d\<rparr>"
  by (simp_all add: set_mm_def)

lemma printed_more_mm: "printed_more m m' \<Longrightarrow> m_mm m' = m_mm m \<and> printed_more (set_mm mm m) (set_mm mm m')"
  by (auto simp: printed_more_def m_mm_def)

text \<open>The nine lines a page fault prints before it is handled.\<close>

definition fault_report :: "interrupt_context \<Rightarrow> u64 \<Rightarrow> machine \<Rightarrow> machine option" where
  "fault_report c fault_address m = do {
     m \<leftarrow> println ''Page Fault!'' [] m;
     m \<leftarrow> println ''Fault Address = %p'' [Arg_word fault_address] m;
     m \<leftarrow> println ''========================='' [] m;
     m \<leftarrow> println ''Present        :%s'' (yes_no (error_code c AND 1 \<noteq> 0)) m;
     m \<leftarrow> println ''Write          :%s'' (yes_no (error_code c AND 2 \<noteq> 0)) m;
     m \<leftarrow> println ''User Mode      :%s'' (yes_no (error_code c AND 4 \<noteq> 0)) m;
     m \<leftarrow> println ''Reserved Bit   :%s'' (yes_no (error_code c AND 8 \<noteq> 0)) m;
     m \<leftarrow> println ''Instruction    :%s'' (yes_no (error_code c AND 16 \<noteq> 0)) m;
     println ''========================='' [] m
   }"

definition reports :: "machine \<Rightarrow> machine option \<Rightarrow> bool" where
  "reports m r \<longleftrightarrow> (\<exists>m'. r = Some m' \<and> printed_more m m')"

lemma reports_println:
  assumes "printed (str (fmt @ [CHR 0x0A])) args \<noteq> None" "\<And>m'. reports m' (k m')"
  shows "reports m (println fmt args m \<bind> k)"
  using println_prints [OF assms(1), of m] assms(2) printed_more_trans unfolding reports_def by fastforce

lemma fault_report_reports: "reports m (fault_report c a m)"
  unfolding fault_report_def
  by (intro reports_println println_prints [folded reports_def]) (simp_all add: format_simps yes_no_def)

lemma page_fault_handler_report:
  "page_fault_handler c m = do {
     m \<leftarrow> fault_report c (m_cr2 m) m;
     case vmm_handle_page_fault (m_cr2 m) (error_code c) (m_mm m) of (resolved, mm) \<Rightarrow>
       if resolved then Some (Returns (set_mm mm m)) else kernel_panic ''PAGE FAULT'' c (set_mm mm m)
   }" if "m_cr2 m = a" for a
proof -
  have keep: "m_cr2 m' = m_cr2 m" if "fault_report c (m_cr2 m) m = Some m'" for m'
    using fault_report_reports [of m c "m_cr2 m"] that by (auto simp: reports_def printed_more_def)
  show ?thesis
  proof (cases "fault_report c (m_cr2 m) m")
    case None
    then show ?thesis using fault_report_reports [of m c "m_cr2 m"] by (simp add: reports_def)
  next
    case (Some m')
    then have "page_fault_handler c m =
      (case vmm_handle_page_fault (m_cr2 m) (error_code c) (m_mm m') of (resolved, mm) \<Rightarrow>
         if resolved then Some (Returns (set_mm mm m')) else kernel_panic ''PAGE FAULT'' c (set_mm mm m'))"
      unfolding page_fault_handler_def fault_report_def Let_def by (auto simp: bind_eq_Some_conv)
    then show ?thesis using Some keep [OF Some] by simp
  qed
qed

lemma page_fault_outcome:
  assumes "vmm_handle_page_fault (m_cr2 m) (error_code c) (m_mm m) = (resolved, mm)"
  shows "ends_as (if resolved then Returns else Halts) (set_mm mm m) (page_fault_handler c m)"
proof -
  obtain m' where r: "fault_report c (m_cr2 m) m = Some m'" "printed_more m m'"
    using fault_report_reports [of m c "m_cr2 m"] by (auto simp: reports_def)
  have "m_cr2 m' = m_cr2 m" "m_mm m' = m_mm m" using r(2) by (auto simp: printed_more_def m_mm_def)
  then have e: "page_fault_handler c m =
      (if resolved then Some (Returns (set_mm mm m')) else kernel_panic ''PAGE FAULT'' c (set_mm mm m'))"
    using assms r(1) by (simp add: page_fault_handler_report [OF refl])
  have p: "printed_more (set_mm mm m) (set_mm mm m')" using printed_more_mm [OF r(2)] by blast
  show ?thesis
    unfolding e using p kernel_panic_halts [of "set_mm mm m'" "''PAGE FAULT''" c] printed_more_trans
    by (fastforce simp: ends_as_def)
qed

definition end_of_interrupt :: "u64 \<Rightarrow> machine \<Rightarrow> machine" where
  "end_of_interrupt vector m =
     m\<lparr>m_dev := (m_dev m)\<lparr>dev_io := (dev_io (m_dev m))\<lparr>io_out := io_out (dev_io (m_dev m)) @
       (if vector \<ge> 40 then [(0xA0, 0x20), (0x20, 0x20)] else [(0x20, 0x20)])\<rparr>\<rparr>\<rparr>"

lemma irq_line_number:
  assumes "32 \<le> v" "v < (48 :: u64)"
  shows "unat (ucast (v - 32) :: u8) = unat v - 32" "(ucast (v - 32) :: u8) \<ge> 8 \<longleftrightarrow> v \<ge> 40"
proof -
  have u: "unat (v - 32) = unat v - 32" using assms(1) by (simp add: unat_minus_le)
  have "unat v < 48" using assms(2) by (simp add: word_less_nat_alt)
  then have "unat (v - 32) < 256" using u by simp
  then have e: "unat (ucast (v - 32) :: u8) = unat (v - 32)" by (simp add: unsigned_ucast_eq take_bit_nat_eq_self)
  then show "unat (ucast (v - 32) :: u8) = unat v - 32" using u by simp
  show "(ucast (v - 32) :: u8) \<ge> 8 \<longleftrightarrow> v \<ge> 40" using e u by (auto simp: word_le_nat_alt)
qed

lemma send_eoi:
  assumes "32 \<le> v" "v < (48 :: u64)"
  shows "m\<lparr>m_dev := (m_dev m)\<lparr>dev_io := pic_send_eoi (ucast (v - 32)) (dev_io (m_dev m))\<rparr>\<rparr> = end_of_interrupt v m"
  using irq_line_number(2) [OF assms]
  by (simp add: end_of_interrupt_def pic_send_eoi_def outb_def PIC1_COMMAND_def PIC2_COMMAND_def PIC_EOI_def Let_def)

lemma irq_dispatch_line:
  assumes "32 \<le> interrupt_number c" "interrupt_number c < 48"
  shows "irq_dispatch p c m =
    map_option (end_of_interrupt (interrupt_number c))
      (case m_handlers m ! (unat (interrupt_number c) - 32) of None \<Rightarrow> Some m | Some h \<Rightarrow> call_handler h p m)"
proof -
  have "\<not> (interrupt_number c < IRQ_BASE_VECTOR \<or> interrupt_number c \<ge> IRQ_BASE_VECTOR + of_nat IRQ_COUNT)"
    using assms by (auto simp: IRQ_BASE_VECTOR_def IRQ_COUNT_def not_less not_le)
  then have "irq_dispatch p c m = (case m_handlers m ! (unat (interrupt_number c) - 32) of None \<Rightarrow> Some m | Some h \<Rightarrow> call_handler h p m) \<bind>
      (\<lambda>m. Some (m\<lparr>m_dev := (m_dev m)\<lparr>dev_io := pic_send_eoi (ucast (interrupt_number c - 32)) (dev_io (m_dev m))\<rparr>\<rparr>))"
    using irq_line_number(1) [OF assms] by (simp add: irq_dispatch_def Let_def IRQ_BASE_VECTOR_def cong: option.case_cong)
  then show ?thesis unfolding send_eoi [OF assms] by (simp add: map_conv_bind_option comp_def)
qed

section \<open>Properties\<close>

text \<open>
  C37. Every interrupt vector ends as the kernel intends. A page fault that the demand pager resolves
  returns with the new mapping, and one it does not resolve stops the machine; every other exception
  stops the machine with the kernel unchanged; both only add output to the console and the debug
  port. An interrupt request runs the handler registered for its line, if there is one, and then
  acknowledges it to the controllers of that line; a vector above those is ignored.
\<close>

theorem isr_dispatch_outcomes:
  "(interrupt_number c < 32 \<and> interrupt_number c \<noteq> 14 \<longrightarrow> ends_as Halts m (isr_dispatch p c m)) \<and>
   (interrupt_number c = 14 \<longrightarrow>
      (let (resolved, mm) = vmm_handle_page_fault (m_cr2 m) (error_code c) (m_mm m)
       in ends_as (if resolved then Returns else Halts) (set_mm mm m) (isr_dispatch p c m))) \<and>
   (32 \<le> interrupt_number c \<and> interrupt_number c < 48 \<longrightarrow>
      isr_dispatch p c m = map_option (\<lambda>m. Returns (end_of_interrupt (interrupt_number c) m))
        (case m_handlers m ! (unat (interrupt_number c) - 32) of None \<Rightarrow> Some m | Some h \<Rightarrow> call_handler h p m)) \<and>
   (48 \<le> interrupt_number c \<longrightarrow> isr_dispatch p c m = Some (Returns m))"
proof (intro conjI impI)
  assume "interrupt_number c < 32 \<and> interrupt_number c \<noteq> 14"
  then show "ends_as Halts m (isr_dispatch p c m)"
    using kernel_panic_halts by (simp add: isr_dispatch_def exception_dispatch_def EXCEPTION_PAGE_FAULT_def)
next
  assume "interrupt_number c = 14"
  then have "isr_dispatch p c m = page_fault_handler c m"
    by (simp add: isr_dispatch_def exception_dispatch_def EXCEPTION_PAGE_FAULT_def)
  then show "let (resolved, mm) = vmm_handle_page_fault (m_cr2 m) (error_code c) (m_mm m)
       in ends_as (if resolved then Returns else Halts) (set_mm mm m) (isr_dispatch p c m)"
    using page_fault_outcome [of m c] by (cases "vmm_handle_page_fault (m_cr2 m) (error_code c) (m_mm m)") (simp only: Let_def prod.case)
next
  assume v: "32 \<le> interrupt_number c \<and> interrupt_number c < 48"
  then have "\<not> interrupt_number c < 32" by (simp add: not_less)
  then show "isr_dispatch p c m = map_option (\<lambda>m. Returns (end_of_interrupt (interrupt_number c) m))
        (case m_handlers m ! (unat (interrupt_number c) - 32) of None \<Rightarrow> Some m | Some h \<Rightarrow> call_handler h p m)"
    using irq_dispatch_line [of c p m] v by (simp add: isr_dispatch_def option.map_comp comp_def)
next
  assume v: "48 \<le> interrupt_number c"
  then have "\<not> interrupt_number c < 32" by (auto simp: word_le_nat_alt word_less_nat_alt)
  then show "isr_dispatch p c m = Some (Returns m)"
    using v by (simp add: isr_dispatch_def irq_dispatch_def IRQ_BASE_VECTOR_def IRQ_COUNT_def)
qed

definition sample_context :: "u64 \<Rightarrow> interrupt_context" where
  "sample_context vector = \<lparr>regs = \<lparr>r15 = 0, r14 = 0, r13 = 0, r12 = 0, r11 = 0, r10 = 0, r9 = 0, r8 = 0, rdi = 0, rsi = 0,
     rbp = 0, rdx = 0, rcx = 0, rbx = 0, rax = 0\<rparr>, interrupt_number = vector, error_code = 0,
     frame = \<lparr>rip = 0x400000, cs = 0x18, rflags = 0x202, rsp = 0x7FFFFFFFF000, ss = 0x20\<rparr>\<rparr>"

theorem isr_dispatch_outcomes_witness:
  "\<forall>m. ends_as Halts m (isr_dispatch 0x8000 (sample_context 13) m) \<and>
     (let (resolved, mm) = vmm_handle_page_fault (m_cr2 m) 0 (m_mm m)
      in ends_as (if resolved then Returns else Halts) (set_mm mm m) (isr_dispatch 0x8000 (sample_context 14) m)) \<and>
     isr_dispatch 0x8000 (sample_context 33) m = map_option (\<lambda>m. Returns (end_of_interrupt 33 m))
       (case m_handlers m ! 1 of None \<Rightarrow> Some m | Some h \<Rightarrow> call_handler h 0x8000 m) \<and>
     isr_dispatch 0x8000 (sample_context 200) m = Some (Returns m)"
proof (intro allI conjI)
  fix m
  show "ends_as Halts m (isr_dispatch 0x8000 (sample_context 13) m)"
    using isr_dispatch_outcomes [of "sample_context 13" m "0x8000"] by (simp add: sample_context_def)
  show "let (resolved, mm) = vmm_handle_page_fault (m_cr2 m) 0 (m_mm m)
      in ends_as (if resolved then Returns else Halts) (set_mm mm m) (isr_dispatch 0x8000 (sample_context 14) m)"
    using isr_dispatch_outcomes [of "sample_context 14" m "0x8000"] by (simp add: sample_context_def)
  show "isr_dispatch 0x8000 (sample_context 33) m = map_option (\<lambda>m. Returns (end_of_interrupt 33 m))
       (case m_handlers m ! 1 of None \<Rightarrow> Some m | Some h \<Rightarrow> call_handler h 0x8000 m)"
    using isr_dispatch_outcomes [of "sample_context 33" m "0x8000"] by (simp add: sample_context_def)
  show "isr_dispatch 0x8000 (sample_context 200) m = Some (Returns m)"
    using isr_dispatch_outcomes [of "sample_context 200" m "0x8000"] by (simp add: sample_context_def)
qed

text \<open>What the processor reads from a gate, a segment descriptor and the two halves of the task state descriptor.\<close>

definition gate_offset :: "idt_entry \<Rightarrow> u64" where
  "gate_offset e = ucast (offset_low e) OR push_bit 16 (ucast (offset_middle e)) OR push_bit 32 (ucast (offset_high e))"

definition segment_base :: "gdt_entry \<Rightarrow> u32" where
  "segment_base e = ucast (base_low e) OR push_bit 16 (ucast (base_middle e)) OR push_bit 24 (ucast (base_high e))"

definition segment_limit :: "gdt_entry \<Rightarrow> u32" where
  "segment_limit e = ucast (limit_low e) OR push_bit 16 (ucast (granularity e AND 0x0F))"

definition segment_bytes :: "gdt_entry \<Rightarrow> nat" where
  "segment_bytes e = (unat (segment_limit e) + 1) * (if bit (granularity e) 7 then 4096 else 1)"

definition long_mode_segment :: "gdt_entry \<Rightarrow> bool" where
  "long_mode_segment e \<longleftrightarrow> bit (granularity e) 5 \<and> \<not> bit (granularity e) 6"

definition tss_base :: "gdt_entry \<Rightarrow> gdt_entry \<Rightarrow> u64" where
  "tss_base low high = ucast (segment_base low) OR push_bit 32 (ucast (limit_low high) OR push_bit 16 (ucast (base_low high)))"

lemma and_take_bit:
  "x AND 0xF = take_bit 4 (x :: 'a :: len word)" "x AND 0xFF = take_bit 8 x" "x AND 0xFFFF = take_bit 16 x"
  "x AND 0xFFFFFF = take_bit 24 x" "x AND 0xFFFFFFFF = take_bit 32 x"
  by (simp_all add: take_bit_eq_mask mask_eq_exp_minus_1)

lemmas bit_field_simps = and_take_bit bit_or_iff bit_push_bit_iff bit_ucast_iff bit_drop_bit_eq bit_take_bit_iff

lemma idt_gate_decodes:
  assumes "vector < length idt"
  shows "gate_offset (idt_set_gate vector a sel attr idt ! vector) = a"
proof (rule bit_word_eqI)
  fix n assume "n < LENGTH(64)"
  then consider "n < 16" | "16 \<le> n" "n < 32" | "32 \<le> n" "n < 64" by fastforce
  then show "bit (gate_offset (idt_set_gate vector a sel attr idt ! vector)) n = bit a n"
    using assms unfolding gate_offset_def idt_set_gate_def by cases (auto simp: bit_field_simps)
qed

text \<open>The first word of the task state descriptor, from its limit, base and access byte.\<close>

definition tss_word :: "u64 \<Rightarrow> u64 \<Rightarrow> u64 \<Rightarrow> u64 \<Rightarrow> u64" where
  "tss_word l h a base = take_bit 16 l OR push_bit 16 (take_bit 24 base) OR push_bit 40 (take_bit 8 a) OR
     push_bit 48 (take_bit 4 h) OR push_bit 56 (take_bit 8 (drop_bit 24 base))"

lemma tss_word_fields:
  "limit_low (entry_of_word (tss_word l h a base)) = ucast l" (is ?L)
  "gdt_access (entry_of_word (tss_word l h a base)) = ucast a" (is ?A)
  "granularity (entry_of_word (tss_word l h a base)) = ucast (take_bit 4 h)" (is ?G)
proof -
  show ?L unfolding entry_of_word_def tss_word_def by (rule bit_word_eqI) (auto simp: bit_field_simps)
  show ?A unfolding entry_of_word_def tss_word_def by (rule bit_word_eqI) (auto simp: bit_field_simps)
  show ?G unfolding entry_of_word_def tss_word_def by (rule bit_word_eqI) (auto simp: bit_field_simps)
qed

lemma tss_base_decodes: "tss_base (entry_of_word (tss_word l h a base)) (entry_of_word (drop_bit 32 base)) = base"
proof (rule bit_word_eqI)
  fix n assume "n < LENGTH(64)"
  then consider "n < 16" | "16 \<le> n" "n < 24" | "24 \<le> n" "n < 32" | "32 \<le> n" "n < 48" | "48 \<le> n" "n < 64" by fastforce
  then show "bit (tss_base (entry_of_word (tss_word l h a base)) (entry_of_word (drop_bit 32 base))) n = bit base n"
    unfolding tss_base_def segment_base_def entry_of_word_def tss_word_def by cases (auto simp: bit_field_simps)
qed

lemma gdt_tss_entries:
  assumes "length gdt = 7"
  shows "gdt_set_tss_descriptor 5 base limit gdt =
     gdt[5 := entry_of_word (tss_word (ucast limit) (ucast (drop_bit 16 limit)) 0x89 base), 6 := entry_of_word (drop_bit 32 base)]"
proof -
  have "(0x89 :: u64) = take_bit 8 0x89" by simp
  then have "push_bit 40 (0x89 :: u64) = push_bit 40 (take_bit 8 0x89)" by (rule arg_cong)
  then show ?thesis unfolding gdt_set_tss_descriptor_def Let_def tss_word_def and_take_bit by simp
qed

lemma idt_loop:
  assumes "n \<le> length idt"
  shows "length (fold (\<lambda>v. idt_set_gate v (f v) sel attr) [0..<n] idt) = length idt \<and>
     (\<forall>v < length idt. fold (\<lambda>v. idt_set_gate v (f v) sel attr) [0..<n] idt ! v =
        (if v < n then idt_set_gate v (f v) sel attr idt ! v else idt ! v))"
  using assms
proof (induction n)
  case (Suc n)
  then show ?case by (auto simp: idt_set_gate_def nth_list_update less_Suc_eq)
qed simp

lemma isr_table_nth: "v < 48 \<Longrightarrow> isr_table isr ! v = isr v"
proof -
  have "[0..<48] = [0, 1, 2, 3, 4, 5, 6, 7, 8, 9, 10, 11, 12, 13, 14, 15, 16, 17, 18, 19, 20, 21, 22, 23, 24, 25, 26, 27, 28, 29, 30, 31, 32, 33, 34, 35, 36, 37, 38, 39, 40, 41, 42, 43, 44, 45, 46, 47]" by code_simp
  then have "isr_table isr = map isr [0..<48]" by (simp add: isr_table_def)
  then show "v < 48 \<Longrightarrow> isr_table isr ! v = isr v" by simp
qed

lemma tss_high_zero:
  "base_middle (entry_of_word (drop_bit 32 base)) = 0" "gdt_access (entry_of_word (drop_bit 32 base)) = 0"
  "granularity (entry_of_word (drop_bit 32 base)) = 0" "base_high (entry_of_word (drop_bit 32 base)) = 0"
  unfolding entry_of_word_def by (auto intro!: bit_word_eqI simp: bit_field_simps)

text \<open>
  C38. The descriptor tables tell the processor what the source says. After \<open>idt_init\<close> each of the 48 gates
  points to its entry stub, in the kernel code segment, as an interrupt gate, without a stack of its own, the other entries
  are untouched and the table register covers the 256 entries of the table. After \<open>gdt_init\<close> the first entry is null; the code and data
  segments of the kernel and of user mode are 64-bit segments of 4 GiB from base 0 with their access rights;
  the task state descriptor has the address and the 104 bytes of the task state; and the table register
  covers the seven entries of the table.
\<close>

theorem descriptor_tables_decode:
  assumes "length idt = 256" "length gdt = 7"
  shows "(\<forall>v < 256. let e = fst (idt_init ia (isr_table isr) idt) ! v in
       if v < 48 then gate_offset e = isr v \<and> idt_selector e = 0x08 \<and> type_attributes e = 0x8E \<and> idt_ist e = 0 \<and> idt_zero e = 0
       else e = idt ! v) \<and>
     snd (idt_init ia (isr_table isr) idt) = \<lparr>tr_limit = 4095, tr_base = ia\<rparr> \<and>
     (let g = fst (gdt_init ga ta gdt) in
       length g = 7 \<and> g ! 0 = \<lparr>limit_low = 0, base_low = 0, base_middle = 0, gdt_access = 0, granularity = 0, base_high = 0\<rparr> \<and>
       (\<forall>(i, access) \<in> set [(1, 0x9A), (2, 0x92), (3, 0xFA), (4, 0xF2)].
          segment_base (g ! i) = 0 \<and> segment_bytes (g ! i) = 2 ^ 32 \<and> long_mode_segment (g ! i) \<and> gdt_access (g ! i) = access) \<and>
       tss_base (g ! 5) (g ! 6) = ta \<and> segment_bytes (g ! 5) = 104 \<and> gdt_access (g ! 5) = 0x89 \<and>
       base_middle (g ! 6) = 0 \<and> gdt_access (g ! 6) = 0 \<and> granularity (g ! 6) = 0 \<and> base_high (g ! 6) = 0) \<and>
     snd (gdt_init ga ta gdt) = \<lparr>tr_limit = 55, tr_base = ga\<rparr>"
proof (intro conjI)
  have i: "fst (idt_init ia (isr_table isr) idt) ! v = (if v < 48 then idt_set_gate v (isr v) 0x08 0x8E idt ! v else idt ! v)" if "v < 256" for v
    unfolding idt_init_def using idt_loop [of 48 idt "\<lambda>v. isr_table isr ! v" "0x08" "0x8E"] assms(1) that
    by (simp add: ISR_VECTOR_COUNT_def isr_table_nth)
  show "\<forall>v < 256. let e = fst (idt_init ia (isr_table isr) idt) ! v in
       if v < 48 then gate_offset e = isr v \<and> idt_selector e = 0x08 \<and> type_attributes e = 0x8E \<and> idt_ist e = 0 \<and> idt_zero e = 0
       else e = idt ! v"
    using assms(1) idt_gate_decodes [of _ idt] by (auto simp: Let_def i) (auto simp: idt_set_gate_def)
  show "snd (idt_init ia (isr_table isr) idt) = \<lparr>tr_limit = 4095, tr_base = ia\<rparr>" by (simp add: idt_init_def)
  show "snd (gdt_init ga ta gdt) = \<lparr>tr_limit = 55, tr_base = ga\<rparr>" by (simp add: gdt_init_def Let_def)
  define g0 where "g0 = gdt_set_entry 4 0 0xFFFFF 0xF2 0xA0 (gdt_set_entry 3 0 0xFFFFF 0xFA 0xA0
    (gdt_set_entry 2 0 0xFFFFF 0x92 0xA0 (gdt_set_entry 1 0 0xFFFFF 0x9A 0xA0 (gdt_set_entry 0 0 0 0 0 gdt))))"
  have l: "length g0 = 7" using assms(2) by (simp add: g0_def gdt_set_entry_def)
  have g: "fst (gdt_init ga ta gdt) = g0[5 := entry_of_word (tss_word 103 0 0x89 ta), 6 := entry_of_word (drop_bit 32 ta)]"
    unfolding gdt_init_def Let_def fst_conv g0_def [symmetric] gdt_tss_entries [OF l] by (simp add: sizeof_tss_def)
  have "segment_base (g0 ! i) = 0 \<and> segment_bytes (g0 ! i) = 2 ^ 32 \<and> long_mode_segment (g0 ! i) \<and> gdt_access (g0 ! i) = access"
    if "(i, access) \<in> set [(1, 0x9A), (2, 0x92), (3, 0xFA), (4, 0xF2)]" for i access
    using that assms(2)
    by (auto simp: g0_def gdt_set_entry_def segment_base_def segment_limit_def segment_bytes_def long_mode_segment_def)
  moreover have "g0[5 := x, 6 := y] ! i = g0 ! i" if "(i, access :: u8) \<in> set [(1, 0x9A), (2, 0x92), (3, 0xFA), (4, 0xF2)]" for i access x y
    using that by auto
  moreover have "g0[5 := x, 6 := y] ! 5 = x" "g0[5 := x, 6 := y] ! 6 = y" "g0[5 := x, 6 := y] ! 0 = g0 ! 0" for x y using l by simp_all
  moreover have "g0 ! 0 = \<lparr>limit_low = 0, base_low = 0, base_middle = 0, gdt_access = 0, granularity = 0, base_high = 0\<rparr>"
    using assms(2) by (simp add: g0_def gdt_set_entry_def)
  ultimately show "let g = fst (gdt_init ga ta gdt) in
       length g = 7 \<and> g ! 0 = \<lparr>limit_low = 0, base_low = 0, base_middle = 0, gdt_access = 0, granularity = 0, base_high = 0\<rparr> \<and>
       (\<forall>(i, access) \<in> set [(1, 0x9A), (2, 0x92), (3, 0xFA), (4, 0xF2)].
          segment_base (g ! i) = 0 \<and> segment_bytes (g ! i) = 2 ^ 32 \<and> long_mode_segment (g ! i) \<and> gdt_access (g ! i) = access) \<and>
       tss_base (g ! 5) (g ! 6) = ta \<and> segment_bytes (g ! 5) = 104 \<and> gdt_access (g ! 5) = 0x89 \<and>
       base_middle (g ! 6) = 0 \<and> gdt_access (g ! 6) = 0 \<and> granularity (g ! 6) = 0 \<and> base_high (g ! 6) = 0"
    unfolding g Let_def using tss_word_fields [of 103 0 "0x89" ta] l
    by (simp add: tss_base_decodes segment_limit_def segment_bytes_def tss_high_zero)
qed

theorem descriptor_tables_decode_witness:
  "gate_offset (fst (idt_init 0x5000 (isr_table (\<lambda>v. 0xFFFFFFFF80001000 + 16 * of_nat v))
      (replicate 256 \<lparr>offset_low = 0, idt_selector = 0, idt_ist = 0, type_attributes = 0, offset_middle = 0, offset_high = 0, idt_zero = 0\<rparr>)) ! 14) = 0xFFFFFFFF800010E0 \<and>
   (let g = fst (gdt_init 0x6000 0xFFFFFFFF80200000
      (replicate 7 \<lparr>limit_low = 0, base_low = 0, base_middle = 0, gdt_access = 0, granularity = 0, base_high = 0\<rparr>))
    in tss_base (g ! 5) (g ! 6) = 0xFFFFFFFF80200000)"
proof -
  let ?i = "replicate 256 \<lparr>offset_low = 0, idt_selector = 0, idt_ist = 0, type_attributes = 0, offset_middle = 0, offset_high = 0, idt_zero = 0\<rparr> :: idt_entry list"
  let ?g = "replicate 7 \<lparr>limit_low = 0, base_low = 0, base_middle = 0, gdt_access = 0, granularity = 0, base_high = 0\<rparr> :: gdt_entry list"
  have l: "length ?i = 256" "length ?g = 7" by (simp_all only: length_replicate)
  note d = descriptor_tables_decode [OF l, of "0x5000" "\<lambda>v. 0xFFFFFFFF80001000 + 16 * of_nat v" "0x6000" "0xFFFFFFFF80200000"]
  have "gate_offset (fst (idt_init 0x5000 (isr_table (\<lambda>v. 0xFFFFFFFF80001000 + 16 * of_nat v)) ?i) ! 14) = 0xFFFFFFFF80001000 + 16 * of_nat 14"
    using conjunct1 [OF d, rule_format, of 14] by (simp add: Let_def)
  moreover have "let g = fst (gdt_init 0x6000 0xFFFFFFFF80200000 ?g) in tss_base (g ! 5) (g ! 6) = 0xFFFFFFFF80200000"
    using conjunct2 [OF conjunct2 [OF d]] unfolding Let_def by blast
  ultimately show ?thesis by simp
qed

end
