(* ===== verification/Boot.thy ===== *)
theory Boot
  imports Interrupts Scheduling
begin

text \<open>
  The start of the kernel: \<open>kmain\<close> of \<open>main.c\<close> from the checks of the loader's answers to the start of
  the scheduler, and the memory map listing of \<open>mm/memory_map.c\<close>. What the loader (Limine) answers is a
  parameter, as are the numbers it gives to the types of memory, and the addresses the linker gives to
  the tables and functions of the kernel. The self-tests that \<open>kmain\<close> runs afterwards are left out, as are
  the messages of the subsystems; the messages of \<open>kmain\<close> itself and the listing are part of the model. A run
  without a result (\<open>None\<close>) waits for ever for the mouse. The theorem shows that the boot establishes the
  invariants that the theorems on the memory managers, the heap and the scheduler assume.
\<close>

section \<open>Answers of the loader\<close>

record limine_framebuffer =
  lfb_address :: u64
  lfb_width :: u64
  lfb_height :: u64
  lfb_pitch :: u64

record limine =
  base_revision_supported :: bool
  framebuffer_response :: "limine_framebuffer list option"
  memmap_response :: "memmap_entry list option"
  executable_address_response :: "u64 option"
  hhdm_response :: "u64 option"
  memmap_type_number :: "memmap_type \<Rightarrow> u32"

record kernel_image =
  kernel_start_addr :: u64
  kernel_end_addr :: u64
  gdt_address :: u64
  kernel_tss_address :: u64
  idt_address :: u64
  isr_stub :: "nat \<Rightarrow> u64"
  idle_task_address :: u64

record computer =
  cp_machine :: machine
  cp_memmap :: "memmap_entry list"
  cp_gdt :: "gdt_entry list"
  cp_gdtr :: table_register
  cp_idt :: "idt_entry list"
  cp_idtr :: table_register
  cp_msr :: "u32 \<Rightarrow> u64"

datatype boot = Halted computer | Booted computer

definition on_machine :: "(machine \<Rightarrow> machine) \<Rightarrow> computer \<Rightarrow> computer" where
  "on_machine f c = c\<lparr>cp_machine := f (cp_machine c)\<rparr>"

definition on_machine_opt :: "(machine \<Rightarrow> machine option) \<Rightarrow> computer \<Rightarrow> computer option" where
  "on_machine_opt f c = map_option (\<lambda>m. c\<lparr>cp_machine := m\<rparr>) (f (cp_machine c))"

definition on_console :: "(console \<Rightarrow> console) \<Rightarrow> machine \<Rightarrow> machine" where
  "on_console f m = m\<lparr>m_dev := (m_dev m)\<lparr>dev_con := f (dev_con (m_dev m))\<rparr>\<rparr>"

definition on_sched :: "(sched_state \<Rightarrow> sched_state) \<Rightarrow> machine \<Rightarrow> machine" where
  "on_sched f m = m\<lparr>m_kernel := (m_kernel m)\<lparr>k_sched := f (k_sched (m_kernel m))\<rparr>\<rparr>"

definition on_heap :: "(heap_state \<Rightarrow> heap_state) \<Rightarrow> machine \<Rightarrow> machine" where
  "on_heap f m = on_sched (\<lambda>s. s\<lparr>sc_heap := f (sc_heap s)\<rparr>) m"

text \<open>\<open>terminal_write\<close> of a line.\<close>

definition write_line :: "string \<Rightarrow> machine \<Rightarrow> machine" where
  "write_line text m = on_console (terminal_write (str (text @ [CHR 0x0A]))) m"

section \<open>Memory map\<close>

definition memory_map_init :: "memmap_entry list \<Rightarrow> computer \<Rightarrow> computer" where
  "memory_map_init response c = c\<lparr>cp_memmap := response\<rparr>"

primrec memory_map_dump_entries ::
  "(memmap_type \<Rightarrow> u32) \<Rightarrow> nat \<Rightarrow> memmap_entry list \<Rightarrow> machine \<Rightarrow> machine option" where
  "memory_map_dump_entries type_number i [] m = Some m"
| "memory_map_dump_entries type_number i (entry # es) m = do {
     m \<leftarrow> println ''[%u] Base = %p Length = %u KB Type = %u ''
           [Arg_word (ucast (of_nat i :: u32)), Arg_word (entry_base entry),
            Arg_word (ucast (ucast (entry_length entry div 1024) :: u32)), Arg_word (ucast (type_number (entry_type entry)))] m;
     memory_map_dump_entries type_number (i + 1) es m
   }"

definition memory_map_dump :: "(memmap_type \<Rightarrow> u32) \<Rightarrow> memmap_entry list \<Rightarrow> machine \<Rightarrow> machine option" where
  "memory_map_dump type_number memmap m = do {
     m \<leftarrow> println '''' [] m;
     m \<leftarrow> println ''========== Memory Map =========='' [] m;
     m \<leftarrow> memory_map_dump_entries type_number 0 memmap m;
     println ''===================================='' [] m
   }"

section \<open>Kernel entry\<close>

definition boot_display :: "limine_framebuffer \<Rightarrow> machine \<Rightarrow> machine" where
  "boot_display framebuffer m =
     (let m = on_console (\<lambda>s. s\<lparr>con_disp := framebuffer_init (lfb_address framebuffer) (lfb_width framebuffer)
                (lfb_height framebuffer) (lfb_pitch framebuffer) (con_disp s)\<rparr>) m;
          m = on_console (\<lambda>s. s\<lparr>con_disp := framebuffer_clear 0 (con_disp s)\<rparr>) m;
          m = on_console (upd_term terminal_init) m;
          m = write_line ''========================================'' m;
          m = write_line ''              ZenithOS'' m
      in write_line (''========================================'' @ [CHR 0x0A]) m)"

text \<open>The initialisation of the memory managers, on the state of the heap, which contains them all.\<close>

definition on_vm :: "(vm_state \<Rightarrow> vm_state) \<Rightarrow> heap_state \<Rightarrow> heap_state" where
  "on_vm f h = h\<lparr>hp_mm := (hp_mm h)\<lparr>mm_vm := f (mm_vm (hp_mm h))\<rparr>\<rparr>"

definition on_vma :: "(vma_state \<Rightarrow> vma_state) \<Rightarrow> heap_state \<Rightarrow> heap_state" where
  "on_vma f h = h\<lparr>hp_mm := (hp_mm h)\<lparr>mm_vma := f (mm_vma (hp_mm h))\<rparr>\<rparr>"

definition boot_memory :: "kernel_image \<Rightarrow> memmap_entry list \<Rightarrow> u64 \<Rightarrow> u64 \<Rightarrow> heap_state \<Rightarrow> heap_state" where
  "boot_memory im memmap executable_address hhdm h =
     (let h = on_vm (\<lambda>v. v\<lparr>vm_pmm := pmm_init memmap (Some executable_address) (kernel_start_addr im)
                (kernel_end_addr im) (vm_pmm v)\<rparr>) h;
          h = on_vm (page_table_set_hhdm_offset hhdm) h;
          h = on_vm paging_init h;
          h = on_vma vma_init h;
          h = on_vma (\<lambda>v. snd (vma_create HEAP_START_ADDRESS HEAP_INITIAL_SIZE
                (VMA_READ OR VMA_WRITE OR VMA_DEMAND_PAGED) v)) h
      in heap_init h)"

definition boot_cpu :: "kernel_image \<Rightarrow> computer \<Rightarrow> computer" where
  "boot_cpu im c =
     (case gdt_init (gdt_address im) (kernel_tss_address im) (cp_gdt c) of (gdt, gdtr) \<Rightarrow>
      case idt_init (idt_address im) (isr_table (isr_stub im)) (cp_idt c) of (idt, idtr) \<Rightarrow>
        let c = c\<lparr>cp_gdt := gdt, cp_gdtr := gdtr, cp_idt := idt, cp_idtr := idtr\<rparr>;
            c = on_machine (\<lambda>m. m\<lparr>m_handlers := irq_init (m_handlers m)\<rparr>) c
        in on_machine (write_line ''CPU Initialization Complete'') c)"

definition on_irq :: "(irq_state \<Rightarrow> irq_state option) \<Rightarrow> machine \<Rightarrow> machine option" where
  "on_irq f m =
     (case f \<lparr>irq_io = dev_io (m_dev m), irq_handlers = m_handlers m\<rparr> of
        None \<Rightarrow> None
      | Some s \<Rightarrow> Some (m\<lparr>m_dev := (m_dev m)\<lparr>dev_io := irq_io s\<rparr>, m_handlers := irq_handlers s\<rparr>))"

definition boot_drivers :: "computer \<Rightarrow> computer option" where
  "boot_drivers c = do {
     let c = c\<lparr>cp_msr := apic_disable (cp_msr c)\<rparr>;
     c \<leftarrow> on_machine_opt (on_irq (\<lambda>s.
            let s = s\<lparr>irq_io := pic_init (irq_io s)\<rparr>;
                s = pit_init 100 s;
                s = keyboard_init s
            in mouse_init s)) c;
     Some (on_machine (write_line ''Driver Initialization Complete'') c)
   }"

definition boot_start :: "kernel_image \<Rightarrow> machine \<Rightarrow> machine option" where
  "boot_start im m = do {
     let m = on_heap (on_vm page_table_activate) m;
     let m = on_sched (\<lambda>s. s\<lparr>int_enabled := True\<rparr>) m;
     let m = write_line ([CHR 0x0A] @ ''Interrupts Enabled'') m;
     let m = write_line ''ZenithOS Ready.'' m;
     m \<leftarrow> println ''[TRACE] scheduler_init()'' [] m;
     s \<leftarrow> scheduler_init (idle_task_address im) (k_sched (m_kernel m));
     println ''[TRACE] scheduler_init() done current_task=%p'' [Arg_word (current_task s)] (on_sched (\<lambda>_. s) m)
   }"

definition kmain :: "kernel_image \<Rightarrow> limine \<Rightarrow> computer \<Rightarrow> boot option" where
  "kmain im lim c = do {
     let c = on_machine (on_sched (\<lambda>s. s\<lparr>int_enabled := False\<rparr>)) c;
     c \<leftarrow> on_machine_opt (println ''[TRACE] kmain entry'' []) c;
     if \<not> base_revision_supported lim then Some (Halted c)
     else case framebuffer_response lim of None \<Rightarrow> Some (Halted c) | Some framebuffers \<Rightarrow>
     if length framebuffers < 1 then Some (Halted c)
     else case memmap_response lim of None \<Rightarrow> Some (Halted c) | Some memmap \<Rightarrow>
     case executable_address_response lim of None \<Rightarrow> Some (Halted c) | Some executable_address \<Rightarrow>
     case hhdm_response lim of None \<Rightarrow> Some (Halted c) | Some hhdm \<Rightarrow> do {
       let c = on_machine (boot_display (framebuffers ! 0)) c;
       let c = memory_map_init memmap c;
       c \<leftarrow> on_machine_opt (memory_map_dump (memmap_type_number lim) (cp_memmap c)) c;
       let c = on_machine (on_heap (boot_memory im memmap executable_address hhdm)) c;
       let c = on_machine (write_line ''Memory Initialization Complete'') c;
       let c = boot_cpu im c;
       c \<leftarrow> boot_drivers c;
       c \<leftarrow> on_machine_opt (boot_start im) c;
       Some (Booted c)
     }
   }"

section \<open>Memory after the boot\<close>

text \<open>
  What the loader documents of the page tables it leaves in CR3: seen through the direct map, they form
  a tree of page tables in memory of the type bootloader-reclaimable, and top-level entries lead to tables.
\<close>

definition loader_tables :: "memmap_entry list \<Rightarrow> vm_state \<Rightarrow> bool" where
  "loader_tables memmap s \<longleftrightarrow>
     (let root = page_table_physical_to_virtual s (cr3 s AND PAGE_TABLE_ADDRESS_MASK) in
      aligned 4096 (hhdm_offset s) \<and>
      (\<forall>i < 512. page_is_present (pte s root [i]) \<longrightarrow> links (pte s root [i])) \<and>
      (\<forall>p t. table_path p \<longrightarrow> descend s root p = Some t \<longrightarrow>
         t \<noteq> 0 \<and> table_frame s t \<in> memmap_pages (- 1) MEMMAP_BOOTLOADER_RECLAIMABLE memmap) \<and>
      (\<forall>p q t. table_path p \<longrightarrow> table_path q \<longrightarrow> descend s root p = Some t \<longrightarrow> descend s root q = Some t \<longrightarrow> p = q))"

text \<open>The state in which \<open>pmm_init\<close> and \<open>page_table_set_hhdm_offset\<close> leave the address spaces.\<close>

definition before_paging :: "kernel_image \<Rightarrow> memmap_entry list \<Rightarrow> u64 \<Rightarrow> u64 \<Rightarrow> vm_state \<Rightarrow> vm_state" where
  "before_paging im memmap executable_address hhdm v = page_table_set_hhdm_offset hhdm
     (v\<lparr>vm_pmm := pmm_init memmap (Some executable_address) (kernel_start_addr im) (kernel_end_addr im) (vm_pmm v)\<rparr>)"

lemma reclaimable_not_free:
  assumes "pmm_total_pages_of memmap \<le> PMM_BITMAP_MAX_BITS"
    "f \<in> memmap_pages (- 1) MEMMAP_BOOTLOADER_RECLAIMABLE memmap"
  shows "f \<notin> free_set (pmm_init memmap ex ks ke s0)"
proof
  assume f: "f \<in> free_set (pmm_init memmap ex ks ke s0)"
  then have "f < pmm_total_pages_of memmap" "f \<notin> memmap_pages (pmm_total_pages_of memmap) MEMMAP_BOOTLOADER_RECLAIMABLE memmap"
    using pmm_init_fits [OF assms(1), of ex ks ke s0] by (auto simp: free_set_iff reserved_pages_def)
  then show False using assms(2) by (auto simp: memmap_pages_def region_pages_def)
qed

lemma before_paging_ok:
  assumes fits: "pmm_total_pages_of memmap \<le> PMM_BITMAP_MAX_BITS"
    and l: "loader_tables memmap (before_paging im memmap ex hhdm v)"
  defines "s \<equiv> before_paging im memmap ex hhdm v"
  shows "vm_ok s (page_table_current_root s)"
proof -
  have r: "page_table_current_root s = page_table_physical_to_virtual s (cr3 s AND PAGE_TABLE_ADDRESS_MASK)"
    by (simp add: page_table_current_root_def s_def before_paging_def page_table_set_hhdm_offset_def)
  have p: "vm_pmm s = pmm_init memmap (Some ex) (kernel_start_addr im) (kernel_end_addr im) (vm_pmm v)"
    by (simp add: s_def before_paging_def page_table_set_hhdm_offset_def)
  note l' = l [folded s_def, unfolded loader_tables_def Let_def, folded r]
  have "aligned 4096 (page_table_current_root s)"
    unfolding r page_table_physical_to_virtual_def by (intro aligned_add aligned_page_address) (use l' in simp_all)
  moreover have "table_frame s t \<notin> free_set (vm_pmm s)" if "table_path q" "descend s (page_table_current_root s) q = Some t" for q t
    unfolding p by (rule reclaimable_not_free [OF fits]) (use l' that in blast)
  ultimately show ?thesis
    unfolding vm_ok_def using l' pmm_init_fits(1) [OF fits] by (auto simp: p)
qed

lemma heap_area:
  assumes "length (vma_table v) = VMA_MAX_COUNT"
  defines "v' \<equiv> snd (vma_create HEAP_START_ADDRESS HEAP_INITIAL_SIZE (VMA_READ OR VMA_WRITE OR VMA_DEMAND_PAGED) (vma_init v))"
  shows "vma_find HEAP_START_ADDRESS v' = Some 0" "vma_reachable v'"
proof -
  have i: "vma_reachable (vma_init v)" by (rule vma_reachable.intros) (use assms(1) in simp)
  have "length (fold (\<lambda>i t. t[i := vma_zero]) xs t) = length t" for xs :: "nat list" and t by (induction xs arbitrary: t) simp_all
  then show "vma_find HEAP_START_ADDRESS v' = Some 0"
    using assms(1) unfolding v'_def vma_create_def vma_init_def vma_find_def
    by (simp add: VMA_MAX_COUNT_def HEAP_START_ADDRESS_def HEAP_INITIAL_SIZE_def Let_def)
  show "vma_reachable v'" unfolding v'_def by (rule vma_reachable.step [OF i vma_step.create]) (rule surjective_pairing)
qed

text \<open>
  What the kernel needs of the machine it is started on: the memory map fits the bitmap and leaves five
  pages to start with, the direct map does not wrap around, the address of the heap is not part of a
  large page, and the static variables are as the loader puts them.
\<close>

definition memory_ready :: "kernel_image \<Rightarrow> memmap_entry list \<Rightarrow> u64 \<Rightarrow> u64 \<Rightarrow> heap_state \<Rightarrow> bool" where
  "memory_ready im memmap executable_address hhdm h \<longleftrightarrow>
     (let s = before_paging im memmap executable_address hhdm (mm_vm (hp_mm h)) in
      pmm_total_pages_of memmap \<le> PMM_BITMAP_MAX_BITS \<and>
      5 \<le> card (memmap_pages (pmm_total_pages_of memmap) MEMMAP_USABLE memmap -
        reserved_pages memmap (Some executable_address) (kernel_start_addr im) (kernel_end_addr im) (pmm_total_pages_of memmap)) \<and>
      unat hhdm + 2 ^ 32 \<le> 2 ^ 64 \<and>
      loader_tables memmap s \<and> \<not> blocked (pte s (page_table_current_root s)) HEAP_START_ADDRESS \<and>
      kernel_pml4 s = 0 \<and> length (vma_table (mm_vma (hp_mm h))) = VMA_MAX_COUNT)"

text \<open>Memory for the idle task: the heap can grow by six pages after the boot, which its structure and its stack need.\<close>

definition memory_ample :: "kernel_image \<Rightarrow> memmap_entry list \<Rightarrow> u64 \<Rightarrow> u64 \<Rightarrow> heap_state \<Rightarrow> bool" where
  "memory_ample im memmap executable_address hhdm h \<longleftrightarrow>
     (let s = before_paging im memmap executable_address hhdm (mm_vm (hp_mm h)) in
      29 \<le> card (memmap_pages (pmm_total_pages_of memmap) MEMMAP_USABLE memmap -
        reserved_pages memmap (Some executable_address) (kernel_start_addr im) (kernel_end_addr im) (pmm_total_pages_of memmap)) \<and>
      (\<forall>i < 6. \<not> blocked (pte s (page_table_current_root s)) (HEAP_START_ADDRESS + HEAP_INITIAL_SIZE + of_nat i * PAGE_SIZE)))"

lemma boot_memory_ok:
  assumes r: "memory_ready im memmap ex hhdm h"
  defines "s \<equiv> before_paging im memmap ex hhdm (mm_vm (hp_mm h))" and "h' \<equiv> boot_memory im memmap ex hhdm h"
  shows "heap_ok h' [(HEAP_START_ADDRESS, 4064, True)]" "vma_reachable (mm_vma (hp_mm h'))"
    "kernel_pml4 (mm_vm (hp_mm h')) \<noteq> 0" "kernel_pml4_physical (mm_vm (hp_mm h')) \<noteq> 0"
    "va_path va \<noteq> va_path HEAP_START_ADDRESS \<Longrightarrow>
      resolve (pte (mm_vm (hp_mm h')) (page_table_active_root (mm_vm (hp_mm h')))) va =
      resolve (pte s (page_table_current_root s)) va"
    "memory_ample im memmap ex hhdm h \<Longrightarrow> can_grow 6 h'"
proof -
  have fits: "pmm_total_pages_of memmap \<le> PMM_BITMAP_MAX_BITS" and room: "unat hhdm + 2 ^ 32 \<le> 2 ^ 64"
    and nb: "\<not> blocked (pte s (page_table_current_root s)) HEAP_START_ADDRESS" and k: "kernel_pml4 s = 0"
    and len: "length (vma_table (mm_vma (hp_mm h))) = VMA_MAX_COUNT" and l: "loader_tables memmap s"
    using r by (simp_all add: memory_ready_def s_def Let_def)
  have off: "hhdm_offset s = hhdm" "hhdm_ready s" by (simp_all add: s_def before_paging_def page_table_set_hhdm_offset_def)
  have "vm_pmm s = pmm_init memmap (Some ex) (kernel_start_addr im) (kernel_end_addr im) (vm_pmm (mm_vm (hp_mm h)))"
    by (simp add: s_def before_paging_def page_table_set_hhdm_offset_def)
  then have fs: "free_set (vm_pmm s) = memmap_pages (pmm_total_pages_of memmap) MEMMAP_USABLE memmap -
      reserved_pages memmap (Some ex) (kernel_start_addr im) (kernel_end_addr im) (pmm_total_pages_of memmap)"
    using pmm_init_fits(3) [OF fits] by simp
  then have card: "5 \<le> card (free_set (vm_pmm s))" using r by (simp add: memory_ready_def Let_def)
  have ok: "vm_ok s (page_table_current_root s)" unfolding s_def by (rule before_paging_ok [OF fits]) (use l in \<open>simp add: s_def\<close>)
  have inv: "pmm_inv (vm_pmm s)" using ok by (simp add: vm_ok_def)
  have "free_set (vm_pmm s) \<noteq> {}" using card by auto
  moreover have "\<not> null_frame s" by (rule no_null_frame [OF inv]) (use room off in simp)
  ultimately obtain f where f: "f \<in> free_set (vm_pmm s)" "free_set (vm_pmm (paging_init s)) = free_set (vm_pmm s) - {f}"
    "vm_inv (paging_init s)" "pte (paging_init s) (page_table_active_root (paging_init s)) = pte s (page_table_current_root s)"
    "hhdm_offset (paging_init s) = hhdm_offset s" "kernel_pml4 (paging_init s) \<noteq> 0"
    "kernel_pml4_physical (paging_init s) = f * PMM_PAGE_SIZE" "f * PMM_PAGE_SIZE \<noteq> 0"
    by (rule paging_init_effect [OF ok off(2) k])
  have "4 \<le> card (free_set (vm_pmm (paging_init s)))" using card f(1,2) by simp
  then have fr: "4 \<le> unat (pmm_get_free_pages (vm_pmm (paging_init s)))"
    using f(3) by (simp add: vm_ok_def pmm_inv_def pmm_get_free_pages_def)
  define h1 where "h1 = h\<lparr>hp_mm := (hp_mm h)\<lparr>mm_vm := paging_init s, mm_vma := snd (vma_create HEAP_START_ADDRESS HEAP_INITIAL_SIZE
      (VMA_READ OR VMA_WRITE OR VMA_DEMAND_PAGED) (vma_init (mm_vma (hp_mm h))))\<rparr>\<rparr>"
  have h': "h' = heap_init h1"
    by (simp add: h'_def boot_memory_def on_vm_def on_vma_def Let_def h1_def s_def before_paging_def)
  note v = heap_area [OF len]
  have e: "mm_vm (hp_mm h1) = paging_init s" "mm_vma (hp_mm h1) = snd (vma_create HEAP_START_ADDRESS HEAP_INITIAL_SIZE
      (VMA_READ OR VMA_WRITE OR VMA_DEMAND_PAGED) (vma_init (mm_vma (hp_mm h))))" by (simp_all add: h1_def)
  have "vm_inv (mm_vm (hp_mm h1))"
    "\<not> blocked (pte (mm_vm (hp_mm h1)) (page_table_active_root (mm_vm (hp_mm h1)))) HEAP_START_ADDRESS"
    "4 \<le> unat (pmm_get_free_pages (vm_pmm (mm_vm (hp_mm h1))))" "unat (hhdm_offset (mm_vm (hp_mm h1))) + 2 ^ 32 \<le> 2 ^ 64"
    "vma_find HEAP_START_ADDRESS (mm_vma (hp_mm h1)) = Some 0" "kernel_pml4 (mm_vm (hp_mm h1)) \<noteq> 0"
    unfolding e f(4,5) off using f(3,6) nb fr room v(1) by simp_all
  note i = heap_init_ok [OF this, folded h', unfolded e f(4)]
  show "heap_ok h' [(HEAP_START_ADDRESS, 4064, True)]" by (rule i(1))
  show "vma_reachable (mm_vma (hp_mm h'))" unfolding i(2) by (rule v(2))
  show "kernel_pml4 (mm_vm (hp_mm h')) \<noteq> 0" "kernel_pml4_physical (mm_vm (hp_mm h')) \<noteq> 0"
    unfolding i(3,4) f(7) by (fact f(6,8))+
  show "resolve (pte (mm_vm (hp_mm h')) (page_table_active_root (mm_vm (hp_mm h')))) va =
      resolve (pte s (page_table_current_root s)) va" if "va_path va \<noteq> va_path HEAP_START_ADDRESS"
    using that by (rule i(5))
  show "can_grow 6 h'" if a: "memory_ample im memmap ex hhdm h"
  proof (rule i(6))
    have "29 \<le> card (free_set (vm_pmm s))" using a unfolding fs memory_ample_def Let_def by blast
    then have "28 \<le> card (free_set (vm_pmm (paging_init s)))" using f(1,2) by simp
    then show "4 * (6 + 1) \<le> unat (pmm_get_free_pages (vm_pmm (paging_init s)))"
      using f(3) by (simp add: vm_ok_def pmm_inv_def pmm_get_free_pages_def)
    show "\<not> blocked (pte s (page_table_current_root s)) (HEAP_START_ADDRESS + HEAP_INITIAL_SIZE + of_nat j * PAGE_SIZE)" if "j < 6" for j
      using a that by (simp add: memory_ample_def Let_def s_def)
  qed
qed

section \<open>Output, drivers and scheduler\<close>

text \<open>Printing and drawing leave the kernel, the handlers and what the devices will answer alone.\<close>

definition same_core :: "machine \<Rightarrow> machine \<Rightarrow> bool" where
  "same_core m m' \<longleftrightarrow> m_kernel m' = m_kernel m \<and> m_handlers m' = m_handlers m \<and>
     io_in (dev_io (m_dev m')) = io_in (dev_io (m_dev m))"

lemma same_core_trans: "same_core m m' \<Longrightarrow> same_core m' m'' \<Longrightarrow> same_core m m''"
  by (simp add: same_core_def)

text \<open>A run that ends in a machine with the same core.\<close>

definition core_ends :: "machine \<Rightarrow> machine option \<Rightarrow> bool" where
  "core_ends m r \<longleftrightarrow> (\<exists>m'. r = Some m' \<and> same_core m m')"

lemma core_ends_bind:
  assumes "core_ends m r" "\<And>m'. core_ends m' (k m')"
  shows "core_ends m (r \<bind> k)"
  using assms unfolding core_ends_def by (metis bind.bind_lunit same_core_trans)

lemma core_ends_println: "printed (str (fmt @ [CHR 0x0A])) args \<noteq> None \<Longrightarrow> core_ends m (println fmt args m)"
  using println_prints [of fmt args m] by (auto simp: printed_more_def same_core_def core_ends_def)

lemma same_core_console: "same_core m (on_console f m)"
  by (simp add: same_core_def on_console_def)

lemma same_core_display: "same_core m (boot_display framebuffer m)"
  unfolding boot_display_def Let_def write_line_def
  by (intro same_core_trans [OF _ same_core_console] same_core_console)

lemma core_ends_dump: "core_ends m (memory_map_dump tn memmap m)"
proof -
  have es: "core_ends m (memory_map_dump_entries tn i es m)" for i es m
  proof (induction es arbitrary: i m)
    case (Cons entry es)
    show ?case unfolding memory_map_dump_entries.simps
      by (intro core_ends_bind core_ends_println Cons) (simp add: format_simps)
  qed (simp add: core_ends_def same_core_def)
  show ?thesis unfolding memory_map_dump_def
    by (intro core_ends_bind core_ends_println es) (simp_all add: format_simps)
qed

text \<open>
  The controller of the mouse answers: again and again it takes a command and has a byte to read. The
  answers to come are a function; a wait uses some of them up.
\<close>

definition answers :: "(nat \<Rightarrow> u16 \<Rightarrow> u8) \<Rightarrow> bool" where
  "answers a \<longleftrightarrow> (\<forall>n. \<exists>k \<ge> n. a k KEYBOARD_STATUS AND 0x02 = 0) \<and> (\<forall>n. \<exists>k \<ge> n. a k KEYBOARD_STATUS AND 0x01 \<noteq> 0)"

definition io_ends :: "(nat \<Rightarrow> u16 \<Rightarrow> u8) \<Rightarrow> io option \<Rightarrow> bool" where
  "io_ends a r \<longleftrightarrow> (\<exists>s'. r = Some s' \<and> io_in s' = a)"

lemma wait_ends:
  assumes step: "\<And>s. f s = (case inb KEYBOARD_STATUS s of (status, s) \<Rightarrow> if P status then f s else Some s)"
    and k: "io_in s = a" "io_reads s \<le> k" "\<not> P (a k KEYBOARD_STATUS)"
  shows "io_ends a (f s)"
  using k(1,2)
proof (induction "k - io_reads s" arbitrary: s)
  case 0
  then show ?case using step [of s] k(3) by (simp add: inb_def io_ends_def)
next
  case (Suc n)
  have "io_ends a (f (s\<lparr>io_reads := io_reads s + 1\<rparr>))" by (rule Suc.hyps(1)) (use Suc.hyps(2) Suc.prems in auto)
  then show ?case using step [of s] Suc.prems by (auto simp: inb_def io_ends_def)
qed

lemma mouse_wait_ends:
  assumes "answers a" "io_in s = a"
  shows "io_ends a (mouse_wait_write s)" "io_ends a (mouse_wait_read s)"
proof -
  obtain k where "io_reads s \<le> k" "\<not> a k KEYBOARD_STATUS AND 0x02 \<noteq> 0" using assms(1) by (auto simp: answers_def)
  from wait_ends [of mouse_wait_write "\<lambda>v. v AND 0x02 \<noteq> 0", OF mouse_wait_write.simps assms(2) this]
  show "io_ends a (mouse_wait_write s)" .
  obtain k where "io_reads s \<le> k" "\<not> a k KEYBOARD_STATUS AND 0x01 = 0" using assms(1) by (auto simp: answers_def)
  from wait_ends [of mouse_wait_read "\<lambda>v. v AND 0x01 = 0", OF mouse_wait_read.simps assms(2) this]
  show "io_ends a (mouse_wait_read s)" .
qed

lemma io_ends_bind:
  assumes "io_ends a r" "\<And>s. io_in s = a \<Longrightarrow> io_ends a (f s)"
  shows "io_ends a (r \<bind> f)"
  using assms by (auto simp: io_ends_def)

lemma io_in_ports [simp]: "io_in (outb port v s) = io_in s" "io_in (snd (inb port s)) = io_in s"
  by (simp_all add: outb_def inb_def)

lemma mouse_write_ends:
  assumes "answers a" "io_in s = a"
  shows "io_ends a (mouse_write v s)"
  unfolding mouse_write_def
  by (intro io_ends_bind mouse_wait_ends(1) assms) (simp_all add: io_ends_def)

lemma mouse_read_ends:
  assumes "answers a" "io_in s = a" "\<And>v s. io_in s = a \<Longrightarrow> io_ends a (f v s)"
  shows "io_ends a (mouse_read s \<bind> (\<lambda>(v, s). f v s))"
proof -
  have "mouse_read s \<bind> (\<lambda>(v, s). f v s) =
      mouse_wait_read s \<bind> (\<lambda>s. f (fst (inb KEYBOARD_DATA s)) (snd (inb KEYBOARD_DATA s)))"
    by (simp add: mouse_read_def split_def)
  then show ?thesis using io_ends_bind [OF mouse_wait_ends(2) [OF assms(1,2)]] assms(3) by simp
qed

lemma io_ends_cases:
  "io_in s = a \<Longrightarrow> io_ends a (Some s)" "io_ends a r \<Longrightarrow> io_ends a r' \<Longrightarrow> io_ends a (if c then r else r')"
  by (simp_all add: io_ends_def)

lemma mouse_setup_ends:
  assumes "answers a" "io_in s = a"
  shows "io_ends a (mouse_setup s)"
  unfolding mouse_setup_def Let_def
  by (intro io_ends_bind mouse_wait_ends(1) mouse_write_ends mouse_read_ends io_ends_cases assms(1)) (use assms in simp_all)

text \<open>The interrupt handlers the drivers install.\<close>

definition boot_handlers :: "irq_handler option list" where
  "boot_handlers = (replicate IRQ_COUNT None)[0 := Some Pit_irq_handler, 1 := Some Keyboard_irq_handler, 12 := Some Mouse_irq_handler]"

lemma irq_init_empty:
  assumes "length h = IRQ_COUNT"
  shows "irq_init h = replicate IRQ_COUNT None"
proof -
  have "fold (\<lambda>line h. h[line := None]) [0..<n] h = replicate n None @ drop n h" if "n \<le> length h" for n
    using that
  proof (induction n)
    case (Suc n)
    then show ?case by (simp add: list_update_append Cons_nth_drop_Suc [symmetric] replicate_append_same)
  qed simp
  from this [of IRQ_COUNT] show ?thesis using assms by (simp add: irq_init_def)
qed

lemma io_in_controllers [simp]:
  "io_in (pic_set_irq_mask line b s) = io_in s" "io_in (pic_init s) = io_in s" "io_in (pit_program hz s) = io_in s"
  by (simp_all add: pic_set_irq_mask_def inb_def pic_init_def pic_mask_all_def pic_remap_def io_wait_def pit_program_def Let_def)

lemma boot_drivers_ends:
  assumes "answers (io_in (dev_io (m_dev (cp_machine c))))" "m_handlers (cp_machine c) = replicate IRQ_COUNT None"
  shows "\<exists>c'. boot_drivers c = Some c' \<and> m_kernel (cp_machine c') = m_kernel (cp_machine c) \<and>
    m_handlers (cp_machine c') = boot_handlers"
proof -
  let ?m = "cp_machine c"
  define s where "s = (let s = \<lparr>irq_io = pic_init (dev_io (m_dev ?m)), irq_handlers = m_handlers ?m\<rparr> in keyboard_init (pit_init 100 s))"
  have a: "io_in (irq_io s) = io_in (dev_io (m_dev ?m))"
    by (simp add: s_def keyboard_init_def pit_init_def install_irq_def pic_unmask_irq_def Let_def)
  have h: "irq_handlers s = (replicate IRQ_COUNT None)[0 := Some Pit_irq_handler, 1 := Some Keyboard_irq_handler]"
    using assms(2) by (simp add: s_def keyboard_init_def pit_init_def install_irq_def irq_register_handler_def
        IRQ_TIMER_LINE_def IRQ_KEYBOARD_LINE_def IRQ_COUNT_def)
  let ?i = "install_irq IRQ_MOUSE_LINE Mouse_irq_handler s"
  have "io_ends (io_in (dev_io (m_dev ?m))) (mouse_setup (pic_unmask_irq 2 (irq_io ?i)))"
    by (rule mouse_setup_ends [OF assms(1)]) (simp add: install_irq_def pic_unmask_irq_def Let_def a)
  then obtain io where "mouse_setup (pic_unmask_irq 2 (irq_io ?i)) = Some io" by (auto simp: io_ends_def)
  then have "mouse_init s = Some (?i\<lparr>irq_io := io\<rparr>)" by (simp add: mouse_init_def)
  moreover have "irq_handlers ?i = boot_handlers"
    using h by (simp add: install_irq_def irq_register_handler_def IRQ_MOUSE_LINE_def IRQ_COUNT_def boot_handlers_def Let_def)
  ultimately show ?thesis
    by (simp add: boot_drivers_def on_machine_opt_def on_irq_def s_def Let_def on_machine_def write_line_def on_console_def)
qed

text \<open>A new task takes two blocks of the heap, its structure and its stack, or leaves the live blocks as they are.\<close>

lemma task_create_live:
  assumes live: "heap_live (sc_heap s) L"
  shows "\<exists>t s' L'. task_create f s = Some (t, s') \<and> heap_live (sc_heap s') L' \<and>
    (if t = 0 then L' = L
     else \<exists>m k. L' = insert (task_kernel_stack (sc_tasks s' t), k) (insert (t, m) L) \<and> t \<notin> fst ` L \<and>
       task_kernel_stack (sc_tasks s' t) \<notin> insert t (fst ` L))"
proof (cases "f = 0")
  case True
  then show ?thesis using live by (auto simp: task_create_def)
next
  case False
  obtain t h where 1: "kmalloc sizeof_task (sc_heap s) = Some (t, h)"
    "if t = 0 then heap_live h L else \<exists>m. sizeof_task \<le> m \<and> t \<notin> fst ` L \<and> heap_live h (insert (t, m) L)"
    using ka.alloc_total [OF live, of sizeof_task] by (auto simp: sizeof_task_def)
  show ?thesis
  proof (cases "t = 0")
    case True
    then show ?thesis using False 1 by (auto simp: task_create_def)
  next
    case t: False
    then obtain m where m: "t \<notin> fst ` L" "heap_live h (insert (t, m) L)" using 1(2) by auto
    obtain st h2 where 2: "kmalloc KERNEL_STACK_SIZE h = Some (st, h2)" "if st = 0 then heap_live h2 (insert (t, m) L)
        else \<exists>k. KERNEL_STACK_SIZE \<le> k \<and> st \<notin> fst ` insert (t, m) L \<and> heap_live h2 (insert (st, k) (insert (t, m) L))"
      using ka.alloc_total [OF m(2), of KERNEL_STACK_SIZE] by (auto simp: KERNEL_STACK_SIZE_def)
    show ?thesis
    proof (cases "st = 0")
      case True
      have "insert (t, m) L - {(t, m)} = L" using m(1) by force
      then have "heap_live (kfree t h2) L" using ka.release_live [of h2 "insert (t, m) L" t m] 2(2) True by simp
      then show ?thesis using False t 1(1) 2(1) True by (auto simp: task_create_def)
    next
      case st: False
      then show ?thesis using False t 1(1) 2 m(1) by (auto simp: task_create_def context_init_def Let_def heap_live_hp_mem)
    qed
  qed
qed

text \<open>It succeeds when the heap can grow by six pages.\<close>

lemma task_create_serves:
  assumes live: "heap_live (sc_heap s) L" and g: "can_grow 6 (sc_heap s)" and f: "f \<noteq> 0" and r: "task_create f s = Some (t, s')"
  shows "t \<noteq> 0"
proof -
  obtain segs where ok: "heap_ok (sc_heap s) segs" using live by (auto simp: heap_live_def)
  have "\<exists>p h. kmalloc sizeof_task (sc_heap s) = Some (p, h) \<and> p \<noteq> 0 \<and> can_grow 5 h"
    by (rule kmalloc_serves [OF ok, where i = 1]) (use g in \<open>simp_all add: sizeof_task_def\<close>)
  then obtain p h where 1: "kmalloc sizeof_task (sc_heap s) = Some (p, h)" "p \<noteq> 0" "can_grow 5 h" by blast
  obtain segs1 where ok1: "heap_ok h segs1"
    using kmalloc_ok [OF ok, of sizeof_task] 1(1) by (auto simp: sizeof_task_def alloc_post_def)
  have "\<exists>p h'. kmalloc KERNEL_STACK_SIZE h = Some (p, h') \<and> p \<noteq> 0 \<and> can_grow 0 h'"
    by (rule kmalloc_serves [OF ok1, where i = 5]) (use 1(3) in \<open>simp_all add: KERNEL_STACK_SIZE_def\<close>)
  then show ?thesis using r f 1(1,2) by (auto simp: task_create_def Let_def split: prod.splits)
qed

text \<open>The structure and the stack of a task are two live blocks.\<close>

definition task_memory :: "task_store \<Rightarrow> u64 \<Rightarrow> (u64 \<times> u64) set \<Rightarrow> bool" where
  "task_memory ts t L \<longleftrightarrow> t \<in> fst ` L \<and> task_kernel_stack (ts t) \<in> fst ` L \<and> task_kernel_stack (ts t) \<noteq> t"

text \<open>\<open>scheduler_init\<close> ends and keeps the heap well-formed.\<close>

lemma scheduler_init_ends:
  assumes live: "heap_live (sc_heap s) L"
  shows "\<exists>s' L. scheduler_init f s = Some s' \<and> heap_live (sc_heap s') L \<and>
    (idle s' \<noteq> 0 \<longrightarrow> task_memory (sc_tasks s') (idle s') L) \<and> int_enabled s' = int_enabled s \<and> current_task s' = 0 \<and>
    (can_grow 6 (sc_heap s) \<and> f \<noteq> 0 \<longrightarrow> idle s' \<noteq> 0)"
proof -
  define s0 where "s0 = s\<lparr>ready_queue := 0, current_task := 0, blocked_queue := 0, sleep_queue := 0,
    pending_task := 0, preemption_ticks := 0, preemption_requested := False\<rparr>"
  have l0: "heap_live (sc_heap s0) L" using live by (simp add: s0_def)
  from task_create_live [OF this, of f] obtain t s1 L1 where c: "task_create f s0 = Some (t, s1)" "heap_live (sc_heap s1) L1"
    "t \<noteq> 0 \<Longrightarrow> task_memory (sc_tasks s1) t L1" unfolding task_memory_def by (auto split: if_splits)
  have "int_enabled s1 = int_enabled s \<and> current_task s1 = 0" using c(1) by (cases rule: task_create_effect) (simp_all add: s0_def)
  moreover have "t \<noteq> 0" if "can_grow 6 (sc_heap s)" "f \<noteq> 0" by (rule task_create_serves [OF l0 _ _ c(1)]) (use that in \<open>simp_all add: s0_def\<close>)
  ultimately show ?thesis using c
    by (auto simp: scheduler_init_def s0_def set_task_def Let_def task_memory_def upd_task_def)
qed

section \<open>The boot\<close>

text \<open>Once the kernel has its own tables, the heap does not depend on the address space that is active.\<close>

lemma registers_pte: "pte (v\<lparr>cr3 := c, active_pml4_physical := a\<rparr>) = pte v"
  "descend (v\<lparr>cr3 := c, active_pml4_physical := a\<rparr>) t p = descend v t p"
proof -
  show d: "descend (v\<lparr>cr3 := c, active_pml4_physical := a\<rparr>) t p = descend v t p" for t p
    by (induction p arbitrary: t) (simp_all add: Let_def page_table_physical_to_virtual_def)
  show "pte (v\<lparr>cr3 := c, active_pml4_physical := a\<rparr>) = pte v" by (intro ext) (simp add: pte_def d split: option.split)
qed

lemma heap_ok_registers:
  "heap_ok (on_vm (\<lambda>v. v\<lparr>cr3 := c, active_pml4_physical := a\<rparr>) h) segs = heap_ok h segs"
proof -
  let ?v = "mm_vm (hp_mm h)" and ?w = "(mm_vm (hp_mm h))\<lparr>cr3 := c, active_pml4_physical := a\<rparr>"
  have "vm_inv ?w = vm_inv ?v" if "kernel_pml4 ?v \<noteq> 0"
    using that unfolding vm_ok_def registers_pte by (simp add: page_table_active_root_def table_frame_def)
  then show ?thesis by (auto simp: heap_ok_def on_vm_def rep_def heap_room_def)
qed

lemma can_grow_registers:
  assumes "heap_ok h segs"
  shows "can_grow n (on_vm (\<lambda>v. v\<lparr>cr3 := c, active_pml4_physical := a\<rparr>) h) = can_grow n h"
proof -
  have "kernel_pml4 (mm_vm (hp_mm h)) \<noteq> 0" using assms by (simp add: heap_ok_def)
  then show ?thesis by (simp add: can_grow_def on_vm_def registers_pte page_table_active_root_def null_frame_def)
qed

lemma activate_registers: "\<exists>c a. on_vm page_table_activate h = on_vm (\<lambda>v. v\<lparr>cr3 := c, active_pml4_physical := a\<rparr>) h"
proof -
  let ?v = "mm_vm (hp_mm h)"
  have "page_table_activate ?v = ?v\<lparr>cr3 := cr3 (page_table_activate ?v), active_pml4_physical := active_pml4_physical (page_table_activate ?v)\<rparr>"
    by (simp add: page_table_activate_def write_cr3_def Let_def)
  then show ?thesis unfolding on_vm_def by metis
qed

lemma activate_heap:
  "heap_ok (on_vm page_table_activate h) segs = heap_ok h segs"
  "heap_ok h segs \<Longrightarrow> can_grow n (on_vm page_table_activate h) = can_grow n h"
  using activate_registers [of h] by (auto simp: heap_ok_registers can_grow_registers)

text \<open>What the loader must answer for the kernel to go on: the first framebuffer, the memory map, the kernel address and the direct map.\<close>

definition loader_answers :: "limine \<Rightarrow> (limine_framebuffer \<times> memmap_entry list \<times> u64 \<times> u64) option" where
  "loader_answers lim = do {
     fbs \<leftarrow> framebuffer_response lim;
     memmap \<leftarrow> memmap_response lim;
     ex \<leftarrow> executable_address_response lim;
     hhdm \<leftarrow> hhdm_response lim;
     if base_revision_supported lim \<and> fbs \<noteq> [] then Some (hd fbs, memmap, ex, hhdm) else None
   }"

definition boot_rest :: "kernel_image \<Rightarrow> limine \<Rightarrow> limine_framebuffer \<times> memmap_entry list \<times> u64 \<times> u64 \<Rightarrow> computer \<Rightarrow> boot option" where
  "boot_rest im lim = (\<lambda>(fbuf, memmap, ex, hhdm) c. do {
       let c = on_machine (boot_display fbuf) c;
       let c = memory_map_init memmap c;
       c \<leftarrow> on_machine_opt (memory_map_dump (memmap_type_number lim) (cp_memmap c)) c;
       let c = on_machine (on_heap (boot_memory im memmap ex hhdm)) c;
       let c = on_machine (write_line ''Memory Initialization Complete'') c;
       let c = boot_cpu im c;
       c \<leftarrow> boot_drivers c;
       c \<leftarrow> on_machine_opt (boot_start im) c;
       Some (Booted c)
     })"

lemma kmain_start:
  obtains c' where "kmain im lim c = (case loader_answers lim of None \<Rightarrow> Some (Halted c') | Some a \<Rightarrow> boot_rest im lim a c')"
    "same_core (on_sched (\<lambda>s. s\<lparr>int_enabled := False\<rparr>) (cp_machine c)) (cp_machine c')"
proof -
  have "core_ends m (println ''[TRACE] kmain entry'' [] m)" for m by (rule core_ends_println) (simp add: format_simps)
  then obtain m where m: "println ''[TRACE] kmain entry'' [] (on_sched (\<lambda>s. s\<lparr>int_enabled := False\<rparr>) (cp_machine c)) = Some m"
    "same_core (on_sched (\<lambda>s. s\<lparr>int_enabled := False\<rparr>) (cp_machine c)) m" unfolding core_ends_def by blast
  then have "kmain im lim c = (case loader_answers lim of None \<Rightarrow> Some (Halted (c\<lparr>cp_machine := m\<rparr>)) |
      Some a \<Rightarrow> boot_rest im lim a (c\<lparr>cp_machine := m\<rparr>))"
    by (simp add: kmain_def loader_answers_def boot_rest_def on_machine_def on_machine_opt_def hd_conv_nth Let_def
        split: option.split list.split bind_split)
  then show thesis using m(2) by (intro that [of "c\<lparr>cp_machine := m\<rparr>"]) simp_all
qed

lemma boot_start_ends:
  assumes "heap_ok (sc_heap (k_sched (m_kernel m))) segs"
  shows "\<exists>m' s. boot_start im m = Some m' \<and> m_handlers m' = m_handlers m \<and> k_sched (m_kernel m') = s \<and>
    (\<exists>L. heap_live (sc_heap s) L \<and> (idle s \<noteq> 0 \<longrightarrow> task_memory (sc_tasks s) (idle s) L)) \<and>
    int_enabled s \<and> current_task s = 0 \<and> (idle s \<noteq> 0 \<longrightarrow> sched_start s) \<and>
    (can_grow 6 (sc_heap (k_sched (m_kernel m))) \<and> idle_task_address im \<noteq> 0 \<longrightarrow> idle s \<noteq> 0)"
proof -
  let ?m = "write_line ''ZenithOS Ready.'' (write_line ([CHR 0x0A] @ ''Interrupts Enabled'')
    (on_sched (\<lambda>s. s\<lparr>int_enabled := True\<rparr>) (on_heap (on_vm page_table_activate) m)))"
  have "core_ends ?m (println ''[TRACE] scheduler_init()'' [] ?m)" by (rule core_ends_println) (simp add: format_simps)
  then obtain m1 where m1: "println ''[TRACE] scheduler_init()'' [] ?m = Some m1" "same_core ?m m1"
    unfolding core_ends_def by blast
  let ?s = "k_sched (m_kernel m1)"
  have e: "?s = (k_sched (m_kernel m))\<lparr>sc_heap := on_vm page_table_activate (sc_heap (k_sched (m_kernel m))), int_enabled := True\<rparr>"
    "m_handlers m1 = m_handlers m"
    using m1(2) by (simp_all add: same_core_def write_line_def on_console_def on_sched_def on_heap_def)
  have cg: "can_grow 6 (sc_heap ?s) = can_grow 6 (sc_heap (k_sched (m_kernel m)))" using assms activate_heap(2) by (simp add: e)
  have "heap_ok (sc_heap ?s) segs" using assms activate_heap(1) by (simp add: e)
  then have "heap_live (sc_heap ?s) ((\<lambda>(a, n). (a + sizeof_heap_block, n)) ` allocated segs)" by (auto simp: heap_live_def)
  from scheduler_init_ends [OF this, of "idle_task_address im"]
  obtain s L where s: "scheduler_init (idle_task_address im) ?s = Some s" "heap_live (sc_heap s) L"
    "idle s \<noteq> 0 \<longrightarrow> task_memory (sc_tasks s) (idle s) L" "int_enabled s" "current_task s = 0"
    "can_grow 6 (sc_heap ?s) \<and> idle_task_address im \<noteq> 0 \<longrightarrow> idle s \<noteq> 0"
    by (auto simp: e)
  let ?m2 = "on_sched (\<lambda>_. s) m1"
  have "core_ends ?m2 (println ''[TRACE] scheduler_init() done current_task=%p'' [Arg_word (current_task s)] ?m2)"
    by (rule core_ends_println) (simp add: format_simps)
  then obtain m3 where m3: "println ''[TRACE] scheduler_init() done current_task=%p'' [Arg_word (current_task s)] ?m2 = Some m3"
    "same_core ?m2 m3" unfolding core_ends_def by blast
  have "boot_start im m = Some m3" using m1(1) s(1) m3(1) by (simp add: boot_start_def Let_def)
  moreover have "k_sched (m_kernel m3) = s" "m_handlers m3 = m_handlers m" using m3(2) e(2) by (simp_all add: same_core_def on_sched_def)
  moreover have "sched_start s" if "idle s \<noteq> 0" using scheduler_init_start [OF s(1) that] .
  ultimately show ?thesis using s cg by blast
qed

text \<open>The state that the memory initialisation leaves, as the theorems on the single managers assume it.\<close>

definition memory_booted :: "vm_state \<Rightarrow> heap_state \<Rightarrow> bool" where
  "memory_booted s h \<longleftrightarrow> heap_ok h [(HEAP_START_ADDRESS, 4064, True)] \<and> vma_reachable (mm_vma (hp_mm h)) \<and>
     (\<forall>va. va_path va \<noteq> va_path HEAP_START_ADDRESS \<longrightarrow>
        resolve (pte (mm_vm (hp_mm h)) (page_table_active_root (mm_vm (hp_mm h)))) va =
        resolve (pte s (page_table_current_root s)) va)"

definition scheduler_booted :: "machine \<Rightarrow> bool" where
  "scheduler_booted m \<longleftrightarrow> m_handlers m = boot_handlers \<and>
     (let s = k_sched (m_kernel m) in
        (\<exists>L. heap_live (sc_heap s) L \<and> (idle s \<noteq> 0 \<longrightarrow> task_memory (sc_tasks s) (idle s) L)) \<and>
        int_enabled s \<and> current_task s = 0 \<and> (idle s \<noteq> 0 \<longrightarrow> sched_start s))"

lemma boot_rest_boots:
  assumes r: "memory_ready im memmap ex hhdm (k_heap (m_kernel (cp_machine c)))"
    and a: "answers (io_in (dev_io (m_dev (cp_machine c))))" and h: "length (m_handlers (cp_machine c)) = IRQ_COUNT"
  shows "\<exists>c'. boot_rest im lim (fbuf, memmap, ex, hhdm) c = Some (Booted c') \<and> scheduler_booted (cp_machine c') \<and>
    (memory_ample im memmap ex hhdm (k_heap (m_kernel (cp_machine c))) \<and> idle_task_address im \<noteq> 0 \<longrightarrow> idle (k_sched (m_kernel (cp_machine c'))) \<noteq> 0)"
proof -
  let ?m = "cp_machine c" and ?h = "boot_memory im memmap ex hhdm (k_heap (m_kernel (cp_machine c)))"
  obtain m1 where m1: "memory_map_dump (memmap_type_number lim) memmap (boot_display fbuf ?m) = Some m1" "same_core (boot_display fbuf ?m) m1"
    using core_ends_dump unfolding core_ends_def by blast
  have s1: "same_core ?m m1" by (rule same_core_trans [OF same_core_display m1(2)])
  define m2 where "m2 = write_line ''Memory Initialization Complete'' (on_heap (boot_memory im memmap ex hhdm) m1)"
  define c2 where "c2 = boot_cpu im (c\<lparr>cp_memmap := memmap, cp_machine := m2\<rparr>)"
  have k2: "sc_heap (k_sched (m_kernel m2)) = ?h" "m_handlers m2 = m_handlers ?m" "io_in (dev_io (m_dev m2)) = io_in (dev_io (m_dev ?m))"
    using s1 by (simp_all add: m2_def write_line_def on_console_def on_heap_def on_sched_def same_core_def k_heap_def)
  have c2: "m_kernel (cp_machine c2) = m_kernel m2" "m_handlers (cp_machine c2) = irq_init (m_handlers m2)"
    "io_in (dev_io (m_dev (cp_machine c2))) = io_in (dev_io (m_dev m2))"
    by (simp_all add: c2_def boot_cpu_def on_machine_def write_line_def on_console_def Let_def split: prod.split)
  have "\<exists>c'. boot_drivers c2 = Some c' \<and> m_kernel (cp_machine c') = m_kernel (cp_machine c2) \<and> m_handlers (cp_machine c') = boot_handlers"
    by (rule boot_drivers_ends) (use a h in \<open>simp_all add: c2 k2 irq_init_empty\<close>)
  then obtain c3 where c3: "boot_drivers c2 = Some c3" "sc_heap (k_sched (m_kernel (cp_machine c3))) = ?h" "m_handlers (cp_machine c3) = boot_handlers"
    using c2(1) k2(1) by auto
  obtain m4 where m4: "boot_start im (cp_machine c3) = Some m4" "scheduler_booted m4"
    "can_grow 6 ?h \<and> idle_task_address im \<noteq> 0 \<longrightarrow> idle (k_sched (m_kernel m4)) \<noteq> 0"
    using boot_start_ends [of "cp_machine c3" "[(HEAP_START_ADDRESS, 4064, True)]" im] boot_memory_ok(1) [OF r] c3
    by (auto simp: scheduler_booted_def Let_def)
  have "boot_rest im lim (fbuf, memmap, ex, hhdm) c = Some (Booted (c3\<lparr>cp_machine := m4\<rparr>))"
    using m1(1) c3(1) m4(1)
    by (simp add: boot_rest_def on_machine_def on_machine_opt_def memory_map_init_def Let_def c2_def m2_def)
  then show ?thesis using m4(2,3) boot_memory_ok(6) [OF r] by auto
qed

text \<open>
  C5. The boot. When an answer of the loader is missing \<open>kmain\<close> halts with the kernel state untouched but
  for the interrupt flag. Otherwise, on a machine whose memory is as the loader documents and whose
  mouse controller answers, it ends: the memory initialisation leaves a well-formed heap of one free
  block, a reachable table of areas and an address space that translates everything but the heap page as
  the loader's did; in the end the heap is well-formed, interrupts are enabled, the timer, keyboard
  and mouse have their handlers and no task runs; with memory for the idle task the scheduler is in its
  start state and the idle task and its stack are live blocks of the heap.
\<close>

theorem kmain_boots:
  assumes "answers (io_in (dev_io (m_dev (cp_machine c))))" "length (m_handlers (cp_machine c)) = IRQ_COUNT"
  shows "case loader_answers lim of
    None \<Rightarrow> \<exists>c'. kmain im lim c = Some (Halted c') \<and>
      m_kernel (cp_machine c') = (m_kernel (cp_machine c))\<lparr>k_sched := (k_sched (m_kernel (cp_machine c)))\<lparr>int_enabled := False\<rparr>\<rparr>
  | Some (fbuf, memmap, ex, hhdm) \<Rightarrow> memory_ready im memmap ex hhdm (k_heap (m_kernel (cp_machine c))) \<longrightarrow>
      memory_booted (before_paging im memmap ex hhdm (mm_vm (hp_mm (k_heap (m_kernel (cp_machine c))))))
        (boot_memory im memmap ex hhdm (k_heap (m_kernel (cp_machine c)))) \<and>
      (\<exists>c'. kmain im lim c = Some (Booted c') \<and> scheduler_booted (cp_machine c') \<and>
         (memory_ample im memmap ex hhdm (k_heap (m_kernel (cp_machine c))) \<and> idle_task_address im \<noteq> 0 \<longrightarrow>
            idle (k_sched (m_kernel (cp_machine c'))) \<noteq> 0))"
proof -
  obtain c1 where c1: "kmain im lim c = (case loader_answers lim of None \<Rightarrow> Some (Halted c1) | Some a \<Rightarrow> boot_rest im lim a c1)"
    "same_core (on_sched (\<lambda>s. s\<lparr>int_enabled := False\<rparr>) (cp_machine c)) (cp_machine c1)"
    by (rule kmain_start)
  have k: "m_kernel (cp_machine c1) = (m_kernel (cp_machine c))\<lparr>k_sched := (k_sched (m_kernel (cp_machine c)))\<lparr>int_enabled := False\<rparr>\<rparr>"
    "answers (io_in (dev_io (m_dev (cp_machine c1))))" "length (m_handlers (cp_machine c1)) = IRQ_COUNT"
    using c1(2) assms by (simp_all add: same_core_def on_sched_def)
  have h: "k_heap (m_kernel (cp_machine c1)) = k_heap (m_kernel (cp_machine c))" by (simp add: k(1) k_heap_def)
  show ?thesis
    using c1(1) k(1) boot_memory_ok(1,2,5) boot_rest_boots [OF _ k(2,3), of im _ _ _ lim, unfolded h]
    by (auto simp: memory_booted_def split: option.split)
qed

text \<open>A small computer: forty pages of memory, empty page tables of the loader above them.\<close>

definition boot_map :: "memmap_entry list" where
  "boot_map = [\<lparr>entry_base = 0, entry_length = 0x4000, entry_type = MEMMAP_USABLE\<rparr>,
     \<lparr>entry_base = 0x4000, entry_length = 0x2000, entry_type = MEMMAP_EXECUTABLE_AND_MODULES\<rparr>,
     \<lparr>entry_base = 0x6000, entry_length = 0x22000, entry_type = MEMMAP_USABLE\<rparr>,
     \<lparr>entry_base = 0x28000, entry_length = 0x1000, entry_type = MEMMAP_BOOTLOADER_RECLAIMABLE\<rparr>]"

definition sample_image :: kernel_image where
  "sample_image = \<lparr>kernel_start_addr = 0, kernel_end_addr = 0x1800, gdt_address = 0xFFFFFFFF80006000,
     kernel_tss_address = 0xFFFFFFFF80007000, idt_address = 0xFFFFFFFF80005000,
     isr_stub = (\<lambda>v. 0xFFFFFFFF80001000 + 16 * of_nat v), idle_task_address = 0xFFFFFFFF80002000\<rparr>"

definition sample_limine :: limine where
  "sample_limine = \<lparr>base_revision_supported = True,
     framebuffer_response = Some [\<lparr>lfb_address = 0xFFFF8000FD000000, lfb_width = 1024, lfb_height = 768, lfb_pitch = 4096\<rparr>],
     memmap_response = Some boot_map, executable_address_response = Some 0x4000, hhdm_response = Some 0xFFFF800000000000,
     memmap_type_number = (\<lambda>_. 0)\<rparr>"

definition unused_heap :: heap_state where
  "unused_heap = \<lparr>hp_mm = \<lparr>mm_vm = \<lparr>vm_pmm = pmm_boot, vm_mem = (\<lambda>_. 0), hhdm_offset = 0, hhdm_ready = False,
       active_pml4_physical = 0, kernel_pml4 = 0, kernel_pml4_physical = 0, cr3 = 0x28000, invalidated = []\<rparr>,
       mm_vma = \<lparr>vma_table = replicate VMA_MAX_COUNT vma_zero, vma_count = 0\<rparr>\<rparr>,
     hp_blocks = (\<lambda>_. \<lparr>blk_size = 0, blk_free = False, blk_next = 0, blk_prev = 0\<rparr>), hp_mem = (\<lambda>_. 0),
     heap_head = 0, heap_start = 0, heap_size = 0, heap_virtual_start = 0, heap_virtual_end = 0,
     heap_committed_end = 0, heap_vma = None\<rparr>"

definition sample_computer :: "fs_state \<Rightarrow> computer" where
  "sample_computer fs = \<lparr>cp_machine = \<lparr>m_kernel = \<lparr>k_sched = sample_sched\<lparr>sc_heap := unused_heap\<rparr>, k_fs = fs, process_list = 0, next_pid = 1\<rparr>,
       m_dev = sample_devices\<lparr>dev_io := \<lparr>io_in = (\<lambda>_ _. 1), io_reads = 0, io_out = []\<rparr>\<rparr>, m_mouse = sample_mouse,
       m_handlers = replicate IRQ_COUNT None, m_cr2 = 0\<rparr>,
     cp_memmap = [], cp_gdt = [], cp_gdtr = \<lparr>tr_limit = 0, tr_base = 0\<rparr>, cp_idt = [], cp_idtr = \<lparr>tr_limit = 0, tr_base = 0\<rparr>, cp_msr = (\<lambda>_. 0)\<rparr>"

lemma boot_map_fits: "pmm_total_pages_of boot_map \<le> PMM_BITMAP_MAX_BITS"
  by (simp add: pmm_total_pages_of_def boot_map_def pmm_scan_entry_def pmm_boot_def Let_def
      PMM_PAGE_SIZE_def PMM_BITMAP_MAX_BITS_def PMM_BITMAP_MAX_SIZE_def)

lemma boot_map_card: "card (memmap_pages (pmm_total_pages_of boot_map) MEMMAP_USABLE boot_map -
    reserved_pages boot_map (Some 0x4000) 0 0x1800 (pmm_total_pages_of boot_map)) = 37"
proof -
  let ?p = "pmm_init boot_map (Some 0x4000) 0 0x1800 pmm_boot"
  have "free_pages ?p = 37" by code_simp
  then have "card (free_set ?p) = 37" using pmm_init_fits(1) [OF boot_map_fits, of "Some 0x4000" 0 "0x1800" pmm_boot] by (simp add: pmm_inv_def)
  then show ?thesis unfolding pmm_init_fits(3) [OF boot_map_fits] .
qed

lemma sample_memory_ready:
  "memory_ready sample_image boot_map 0x4000 0xFFFF800000000000 unused_heap"
  "memory_ample sample_image boot_map 0x4000 0xFFFF800000000000 unused_heap"
proof -
  define s where "s = before_paging sample_image boot_map 0x4000 0xFFFF800000000000 (mm_vm (hp_mm unused_heap))"
  have e: "vm_mem s = (\<lambda>_. 0)" "hhdm_offset s = 0xFFFF800000000000" "cr3 s = 0x28000" "kernel_pml4 s = 0" "hhdm_ready s"
    by (simp_all add: s_def before_paging_def page_table_set_hhdm_offset_def unused_heap_def)
  have root: "page_table_physical_to_virtual s (cr3 s AND PAGE_TABLE_ADDRESS_MASK) = 0xFFFF800000028000"
    by (simp add: page_table_physical_to_virtual_def e PAGE_TABLE_ADDRESS_MASK_def)
  have zero: "load_u64 (vm_mem s) a = 0" for a by (rule bit_eqI) (simp add: bit_load_u64 e)
  have d: "descend s t p = (if p = [] then Some t else None)" for t p by (cases p) (simp_all add: zero links_def page_is_present_def)
  have p: "pte s t p = 0" for t p by (simp add: pte_def d zero)
  have "table_frame s 0xFFFF800000028000 = 40" by (simp add: table_frame_def e)
  moreover have "40 \<in> memmap_pages (- 1) MEMMAP_BOOTLOADER_RECLAIMABLE boot_map"
    by (simp add: boot_map_def region_pages_def pmm_region_page_count_def PMM_PAGE_SIZE_def)
  ultimately have "loader_tables boot_map s"
    unfolding loader_tables_def root Let_def by (auto simp: d p e aligned_def page_is_present_def split: if_splits)
  moreover have nb: "\<not> blocked (pte s (page_table_current_root s)) va" for va by (simp add: blocked_def large_page_def page_is_present_def p)
  ultimately show "memory_ready sample_image boot_map 0x4000 0xFFFF800000000000 unused_heap"
    unfolding memory_ready_def s_def [symmetric] Let_def using boot_map_fits boot_map_card
    by (simp add: e sample_image_def unused_heap_def)
  show "memory_ample sample_image boot_map 0x4000 0xFFFF800000000000 unused_heap"
    unfolding memory_ample_def s_def [symmetric] Let_def using boot_map_card nb by (simp add: sample_image_def)
qed

theorem kmain_boots_witness:
  "\<forall>fs. memory_booted (before_paging sample_image boot_map 0x4000 0xFFFF800000000000 (mm_vm (hp_mm unused_heap)))
      (boot_memory sample_image boot_map 0x4000 0xFFFF800000000000 unused_heap) \<and>
    (\<exists>c'. kmain sample_image sample_limine (sample_computer fs) = Some (Booted c') \<and> scheduler_booted (cp_machine c') \<and> idle (k_sched (m_kernel (cp_machine c'))) \<noteq> 0) \<and>
    (\<exists>c'. kmain sample_image (sample_limine\<lparr>hhdm_response := None\<rparr>) (sample_computer fs) = Some (Halted c'))"
proof (intro allI)
  fix fs
  let ?c = "sample_computer fs"
  have a: "answers (io_in (dev_io (m_dev (cp_machine ?c))))" by (auto simp: sample_computer_def answers_def)
  have h: "length (m_handlers (cp_machine ?c)) = IRQ_COUNT" by (simp add: sample_computer_def)
  have k: "k_heap (m_kernel (cp_machine ?c)) = unused_heap" by (simp add: sample_computer_def k_heap_def)
  have l: "loader_answers sample_limine = Some (\<lparr>lfb_address = 0xFFFF8000FD000000, lfb_width = 1024, lfb_height = 768, lfb_pitch = 4096\<rparr>,
      boot_map, 0x4000, 0xFFFF800000000000)" "loader_answers (sample_limine\<lparr>hhdm_response := None\<rparr>) = None"
    by (simp_all add: loader_answers_def sample_limine_def)
  show "memory_booted (before_paging sample_image boot_map 0x4000 0xFFFF800000000000 (mm_vm (hp_mm unused_heap)))
      (boot_memory sample_image boot_map 0x4000 0xFFFF800000000000 unused_heap) \<and>
    (\<exists>c'. kmain sample_image sample_limine ?c = Some (Booted c') \<and> scheduler_booted (cp_machine c') \<and> idle (k_sched (m_kernel (cp_machine c'))) \<noteq> 0) \<and>
    (\<exists>c'. kmain sample_image (sample_limine\<lparr>hhdm_response := None\<rparr>) ?c = Some (Halted c'))"
    using kmain_boots [OF a h, of sample_image sample_limine] kmain_boots [OF a h, of sample_image "sample_limine\<lparr>hhdm_response := None\<rparr>"]
      sample_memory_ready by (auto simp: l k sample_image_def)
qed

end
