(* ===== verification/System.thy ===== *)
theory System
  imports Boot User_Memory
begin

text \<open>
  The running kernel: the components together, from the state that \<open>kmain\<close> leaves, under any sequence of
  interrupts and of the calls that kernel tasks make. An interrupt goes through the entry code of
  \<open>cpu/isr.asm\<close>, the dispatchers of \<open>cpu/isr.c\<close> and the return path of the scheduler. Beside the
  machine, a state keeps the set of blocks that clients have allocated and not freed, which is what
  they may free. The invariant joins those of the components: the heap is well-formed, the structure
  and the stack of every task are live blocks that belong to no client and to no other task, the queues are
  well-formed and the interrupt handlers are the ones the drivers installed. Every event that is allowed in a
  state with the invariant has a result, and unless an exception stops the machine the invariant holds again.
\<close>

section \<open>What the scheduler leaves alone\<close>

text \<open>The operations of the scheduler may switch the address space and write to kernel stacks.\<close>

definition same_heap :: "heap_state \<Rightarrow> heap_state \<Rightarrow> bool" where
  "same_heap h h' \<longleftrightarrow> (\<exists>m c a. h' = (on_vm (\<lambda>v. v\<lparr>cr3 := c, active_pml4_physical := a\<rparr>) h)\<lparr>hp_mem := m\<rparr>)"

lemma same_heap_refl: "same_heap h h"
  unfolding same_heap_def
  by (intro exI [of _ "hp_mem h"] exI [of _ "cr3 (mm_vm (hp_mm h))"] exI [of _ "active_pml4_physical (mm_vm (hp_mm h))"])
     (simp add: on_vm_def)

lemma same_heap_trans: "same_heap h h' \<Longrightarrow> same_heap h' h'' \<Longrightarrow> same_heap h h''"
  unfolding same_heap_def on_vm_def by (elim exE) (intro exI, simp)

lemma same_heap_mem: "same_heap h (h\<lparr>hp_mem := m\<rparr>)"
  unfolding same_heap_def
  by (intro exI [of _ m] exI [of _ "cr3 (mm_vm (hp_mm h))"] exI [of _ "active_pml4_physical (mm_vm (hp_mm h))"])
     (simp add: on_vm_def)

lemma same_heap_live:
  assumes "same_heap h h'"
  shows "heap_live h' L = heap_live h L"
  using assms by (auto simp: same_heap_def heap_live_hp_mem) (auto simp: heap_live_def heap_ok_registers)

text \<open>A step that leaves the heap, the processes' links to tasks and the stacks of the tasks alone.\<close>

definition stacks_kept :: "sched_state \<Rightarrow> sched_state \<Rightarrow> bool" where
  "stacks_kept s s' \<longleftrightarrow> same_heap (sc_heap s) (sc_heap s') \<and>
     (\<forall>x. task_kernel_stack (sc_tasks s' x) = task_kernel_stack (sc_tasks s x))"

lemma stacks_kept_refl [simp]: "stacks_kept s s"
  by (simp add: stacks_kept_def same_heap_refl)

lemma stacks_kept_trans: "stacks_kept s s' \<Longrightarrow> stacks_kept s' s'' \<Longrightarrow> stacks_kept s s''"
  using same_heap_trans by (auto simp: stacks_kept_def)

lemma stacks_kept_eq:
  "sc_heap s' = sc_heap s \<Longrightarrow> sc_tasks s' = sc_tasks s \<Longrightarrow> stacks_kept s s'"
  by (simp add: stacks_kept_def same_heap_refl)

lemma stacks_kept_fields [simp]:
  "stacks_kept s (s'\<lparr>int_enabled := e\<rparr>) = stacks_kept s s'" "stacks_kept (s\<lparr>int_enabled := e\<rparr>) s' = stacks_kept s s'"
  "stacks_kept s (interrupt_restore e s') = stacks_kept s s'" "stacks_kept (s\<lparr>system_ticks := n\<rparr>) s' = stacks_kept s s'"
  "stacks_kept s (scheduler_preempt c s') = stacks_kept s s'" "stacks_kept s (s'\<lparr>preemption_requested := b\<rparr>) = stacks_kept s s'"
  "stacks_kept s (s'\<lparr>pending_task := t\<rparr>) = stacks_kept s s'"
  by (simp_all add: stacks_kept_def interrupt_restore_def scheduler_preempt_def Let_def)

lemma stacks_kept_task:
  "(\<And>k. task_kernel_stack (f k) = task_kernel_stack k) \<Longrightarrow> stacks_kept s (set_task t f s)"
  by (simp add: stacks_kept_def same_heap_refl upd_task_apply)

lemma stacks_kept_mem: "stacks_kept s (set_mem f s)"
  by (simp add: stacks_kept_def set_mem_def same_heap_mem)

lemma stacks_kept_queue:
  assumes "same_but_next (sc_tasks s) ts" "sc_heap s' = sc_heap s" "sc_tasks s' = ts"
  shows "stacks_kept s s'"
  using assms by (simp add: stacks_kept_def same_heap_refl same_but_nextD)

lemma task_queue_push_same: "task_queue_push q t ts = Some (q', ts') \<Longrightarrow> same_but_next ts ts'"
  by (auto simp: task_queue_push_def Let_def bind_eq_Some_conv split: if_splits
      intro: same_but_next_upd same_but_next_trans)

lemma queue_unlink_same: "queue_unlink t c ts = Some ts' \<Longrightarrow> same_but_next ts ts'"
proof (erule queue_unlink.raw_induct [rotated, where P = "\<lambda>t c ts ts'. same_but_next ts ts'"])
  fix rec t c ts ts'
  assume ih: "\<And>t c ts ts'. rec t c ts = Some ts' \<Longrightarrow> same_but_next ts ts'"
    and r: "(if task_next (ts c) \<noteq> 0 then if task_next (ts c) = t
       then let ts = upd_task c (\<lambda>k. k\<lparr>task_next := task_next (ts t)\<rparr>) ts in Some (upd_task t (\<lambda>k. k\<lparr>task_next := 0\<rparr>) ts)
       else rec t (task_next (ts c)) ts else Some ts) = Some ts'"
  show "same_but_next ts ts'"
    using r ih by (auto simp: Let_def split: if_splits intro: same_but_next_trans [OF same_but_next_upd same_but_next_upd])
qed

lemma task_queue_remove_same: "task_queue_remove q t ts = Some (q', ts') \<Longrightarrow> same_but_next ts ts'"
  by (auto simp: task_queue_remove_def bind_eq_Some_conv split: if_splits intro: same_but_next_upd queue_unlink_same)

lemma stacks_kept_switch: "stacks_kept s (set_vm (page_table_switch p (sc_vm s)) s)"
proof -
  have "\<exists>c a. page_table_switch p v = v\<lparr>cr3 := c, active_pml4_physical := a\<rparr>" for v
  proof (cases "p = 0 \<or> active_pml4_physical v = p")
    case True
    then have "page_table_switch p v = v\<lparr>cr3 := cr3 v, active_pml4_physical := active_pml4_physical v\<rparr>"
      by (auto simp: page_table_switch_def)
    then show ?thesis by blast
  next
    case False
    then have "page_table_switch p v = v\<lparr>cr3 := p, active_pml4_physical := p\<rparr>"
      by (simp add: page_table_switch_def write_cr3_def)
    then show ?thesis by blast
  qed
  then obtain c a where "page_table_switch p (sc_vm s) = (sc_vm s)\<lparr>cr3 := c, active_pml4_physical := a\<rparr>" by blast
  then have "sc_heap (set_vm (page_table_switch p (sc_vm s)) s) =
      (on_vm (\<lambda>v. v\<lparr>cr3 := c, active_pml4_physical := a\<rparr>) (sc_heap s))\<lparr>hp_mem := hp_mem (sc_heap s)\<rparr>"
    by (simp add: set_vm_def on_vm_def sc_vm_def)
  then show ?thesis unfolding stacks_kept_def same_heap_def by (auto simp: set_vm_fields)
qed

lemma switch_to_kept: "stacks_kept s (snd (scheduler_switch_to n s))"
  using stacks_kept_switch [of s]
  by (auto simp: scheduler_switch_to_def Let_def tss_set_rsp0_def stacks_kept_def same_heap_refl upd_task_apply)

lemma pop_kept: "stacks_kept s (snd (scheduler_ready_queue_pop s))"
  by (auto simp: scheduler_ready_queue_pop_def Let_def stacks_kept_def same_heap_refl upd_task_apply)

lemma schedule_kept: "stacks_kept s (snd (scheduler_schedule s))"
  unfolding scheduler_schedule_def Let_def
  using switch_to_kept [of s] stacks_kept_trans [OF pop_kept switch_to_kept] by (simp split: if_split)

lemma push_ready_kept: "push_ready t s = Some s' \<Longrightarrow> stacks_kept s s'"
  by (auto simp: push_ready_def bind_eq_Some_conv intro!: stacks_kept_queue dest: task_queue_push_same)

lemma reset_kept: "stacks_kept s (scheduler_reset_resume_state t s)"
  by (simp add: scheduler_reset_resume_state_def stacks_kept_task)

text \<open>A task whose other fields change and that is put on the ready queue.\<close>

lemma push_changed_kept:
  assumes "push_ready t (scheduler_reset_resume_state t (set_task t f s)) = Some s'"
    "\<And>k. task_kernel_stack (f k) = task_kernel_stack k"
  shows "stacks_kept s s'"
  by (rule stacks_kept_trans [OF stacks_kept_trans [OF stacks_kept_task reset_kept] push_ready_kept [OF assms(1)]])
     (fact assms(2))

lemma requeue_kept: "requeue_previous s = Some s' \<Longrightarrow> stacks_kept s s'"
  by (auto simp: requeue_previous_def Let_def split: if_splits elim!: push_changed_kept)

lemma enter_next_kept: "stacks_kept s (snd (enter_next e c n s))"
  by (auto simp: enter_next_def Let_def interrupt_restore_def switch_to_interrupt_def switch_context_def intro: stacks_kept_eq)

lemma yield_kept:
  assumes "scheduler_yield s = Some (w, s')"
  shows "stacks_kept s s'"
proof -
  obtain s1 where 1: "requeue_previous (s\<lparr>int_enabled := False\<rparr>) = Some s1"
    and s': "s' = snd (enter_next (int_enabled s) (current_task s) (fst (scheduler_schedule s1)) (snd (scheduler_schedule s1)))"
    using assms by (auto simp: scheduler_yield_def interrupt_save_def bind_eq_Some_conv Let_def split_def)
  have "stacks_kept s s1" using requeue_kept [OF 1] by simp
  then show ?thesis using stacks_kept_trans [OF schedule_kept enter_next_kept] s' by (auto intro: stacks_kept_trans)
qed

lemma yield_then_restore_kept: "yield_then_restore e s = Some (w, s') \<Longrightarrow> stacks_kept s s'"
  by (auto simp: yield_then_restore_def bind_eq_Some_conv dest!: yield_kept)

lemma add_task_kept:
  assumes "scheduler_add_task t s = Some s'"
  shows "stacks_kept s s'"
proof (cases "t = 0")
  case False
  let ?s = "set_task t (\<lambda>k. k\<lparr>task_state := TASK_READY\<rparr>) (s\<lparr>int_enabled := False\<rparr>)"
  obtain s1 where "push_ready t ?s = Some s1" "s' = interrupt_restore (int_enabled s) s1"
    using assms False by (auto simp: scheduler_add_task_def interrupt_save_def bind_eq_Some_conv)
  moreover have "stacks_kept s ?s" by (simp add: stacks_kept_def same_heap_refl upd_task_apply)
  ultimately show ?thesis using stacks_kept_trans [OF _ push_ready_kept] by simp
qed (use assms in \<open>simp add: scheduler_add_task_def\<close>)

lemma block_kept:
  assumes "scheduler_block_current s = Some (w, s')"
  shows "stacks_kept s s'"
proof (cases "current_task s = 0 \<or> current_task s = idle s")
  case True
  then show ?thesis using assms
    by (auto simp: scheduler_block_current_def scheduler_block_current_locked_def interrupt_save_def)
next
  case False
  let ?s = "set_task (current_task s) (\<lambda>k. k\<lparr>task_state := TASK_BLOCKED\<rparr>) (s\<lparr>int_enabled := False\<rparr>)"
  obtain q ts s1 where q: "task_queue_push (blocked_queue s) (current_task s) (sc_tasks ?s) = Some (q, ts)"
    and y: "scheduler_yield (?s\<lparr>blocked_queue := q, sc_tasks := ts\<rparr>) = Some (w, s1)"
    and s': "s' = (if w then s1 else interrupt_restore (int_enabled s) s1)"
    using assms False
    by (auto simp: scheduler_block_current_def scheduler_block_current_locked_def interrupt_save_def Let_def bind_eq_Some_conv)
  have "stacks_kept s ?s" by (simp add: stacks_kept_def same_heap_refl upd_task_apply)
  moreover have "stacks_kept ?s (?s\<lparr>blocked_queue := q, sc_tasks := ts\<rparr>)"
    by (rule stacks_kept_queue [OF task_queue_push_same [OF q]]) simp_all
  ultimately have "stacks_kept s s1" using yield_kept [OF y] by (blast intro: stacks_kept_trans)
  then show ?thesis by (simp add: s')
qed

lemma sleep_kept:
  assumes "scheduler_sleep d s = Some (w, s')"
  shows "stacks_kept s s'"
proof (cases "current_task s = 0 \<or> current_task s = idle s")
  case True
  then show ?thesis using assms by (auto simp: scheduler_sleep_def)
next
  case False
  let ?s = "set_task (current_task s) (\<lambda>k. k\<lparr>task_wake_tick := system_ticks s + d, task_state := TASK_SLEEPING\<rparr>) (s\<lparr>int_enabled := False\<rparr>)"
  obtain q ts where q: "task_queue_push (sleep_queue s) (current_task s) (sc_tasks ?s) = Some (q, ts)"
    and y: "yield_then_restore (int_enabled s) (?s\<lparr>sleep_queue := q, sc_tasks := ts\<rparr>) = Some (w, s')"
    using assms False
    by (auto simp: scheduler_sleep_def scheduler_sleep_queue_add_def interrupt_save_def pit_ticks_def Let_def bind_eq_Some_conv)
  have "stacks_kept s ?s" by (simp add: stacks_kept_def same_heap_refl upd_task_apply)
  moreover have "stacks_kept ?s (?s\<lparr>sleep_queue := q, sc_tasks := ts\<rparr>)"
    by (rule stacks_kept_queue [OF task_queue_push_same [OF q]]) simp_all
  ultimately show ?thesis using yield_then_restore_kept [OF y] by (blast intro: stacks_kept_trans)
qed

lemma unblock_kept:
  assumes "scheduler_unblock t s = Some s'"
  shows "stacks_kept s s'"
proof (cases "t = 0 \<or> task_state (sc_tasks s t) \<noteq> TASK_BLOCKED")
  case True
  then show ?thesis using assms by (auto simp: scheduler_unblock_def split: if_splits)
next
  case False
  obtain q ts s1 where q: "task_queue_remove (blocked_queue s) t (sc_tasks s) = Some (q, ts)"
    and p: "push_ready t (scheduler_reset_resume_state t (set_task t (\<lambda>k. k\<lparr>task_state := TASK_READY\<rparr>)
      (s\<lparr>int_enabled := False, blocked_queue := q, sc_tasks := ts\<rparr>))) = Some s1" and s': "s' = interrupt_restore (int_enabled s) s1"
    using assms False by (auto simp: scheduler_unblock_def interrupt_save_def Let_def bind_eq_Some_conv)
  have "stacks_kept s (s\<lparr>int_enabled := False, blocked_queue := q, sc_tasks := ts\<rparr>)"
    by (rule stacks_kept_queue [OF task_queue_remove_same [OF q]]) simp_all
  then show ?thesis using push_changed_kept [OF p] s' by (auto intro: stacks_kept_trans)
qed

lemma exit_kept:
  assumes "task_exit s = Some s'"
  shows "stacks_kept s s'"
proof -
  obtain w where "scheduler_yield (set_task (current_task s) (\<lambda>k. k\<lparr>task_state := TASK_TERMINATED\<rparr>) s) = Some (w, s')"
    using assms by (auto simp: task_exit_def bind_eq_Some_conv split: if_splits)
  from yield_kept [OF this] show ?thesis by (rule stacks_kept_trans [OF stacks_kept_task, rotated]) simp
qed

lemma wake_kept:
  assumes "wake_task t s = Some s'"
  shows "stacks_kept s s'"
proof -
  obtain q ts where q: "task_queue_remove (sleep_queue s) t (sc_tasks s) = Some (q, ts)"
    and p: "push_ready t (scheduler_reset_resume_state t (set_task t (\<lambda>k. k\<lparr>task_state := TASK_READY\<rparr>)
      (s\<lparr>sleep_queue := q, sc_tasks := ts\<rparr>))) = Some s'"
    using assms by (auto simp: wake_task_def Let_def bind_eq_Some_conv)
  have "stacks_kept s (s\<lparr>sleep_queue := q, sc_tasks := ts\<rparr>)"
    by (rule stacks_kept_queue [OF task_queue_remove_same [OF q]]) simp_all
  then show ?thesis using push_changed_kept [OF p] by (auto intro: stacks_kept_trans)
qed

lemma check_sleeping_kept: "check_sleeping_loop t s = Some s' \<Longrightarrow> stacks_kept s s'"
proof (erule check_sleeping_loop.raw_induct [rotated, where P = "\<lambda>t s s'. stacks_kept s s'"])
  fix rec t s s'
  assume ih: "\<And>t s s'. rec t s = Some s' \<Longrightarrow> stacks_kept s s'"
    and r: "(if t = 0 then Some s else let next = task_next (sc_tasks s t) in do {
          s \<leftarrow> (if pit_ticks s \<ge> task_wake_tick (sc_tasks s t) then wake_task t s else Some s);
          rec next s }) = Some s'"
  show "stacks_kept s s'"
    using r by (auto simp: Let_def bind_eq_Some_conv split: if_splits dest: ih wake_kept intro: stacks_kept_trans)
qed

lemma pit_kept: "pit_irq_handler c s = Some s' \<Longrightarrow> stacks_kept s s'"
  by (auto simp: pit_irq_handler_def scheduler_tick_def scheduler_check_sleeping_tasks_def bind_eq_Some_conv
      dest!: check_sleeping_kept)

lemma build_frame_kept: "stacks_kept s (snd (scheduler_build_context_interrupt_rsp resume t s))"
proof -
  have *: "stacks_kept s0 s \<Longrightarrow> stacks_kept s0 (set_mem f s)" for s0 s f
    by (rule stacks_kept_trans [OF _ stacks_kept_mem])
  show ?thesis by (simp add: scheduler_build_context_interrupt_rsp_def Let_def *)
qed

lemma next_frame_kept: "stacks_kept s (snd (next_interrupt_frame resume t s))"
proof -
  have "stacks_kept s (set_proc p f s)" for p f by (rule stacks_kept_eq) (simp_all add: set_proc_def)
  then show ?thesis using stacks_kept_trans [OF _ build_frame_kept] build_frame_kept
    by (simp add: next_interrupt_frame_def Let_def)
qed

lemma requeue_preempted_kept: "requeue_preempted s = Some s' \<Longrightarrow> stacks_kept s s'"
  by (auto simp: requeue_preempted_def Let_def split: if_splits
      dest!: push_ready_kept elim!: stacks_kept_trans [OF stacks_kept_task, rotated])

lemma get_next_kept:
  assumes "scheduler_get_next_interrupt_rsp resume s = Some (f, s')"
  shows "stacks_kept s s'"
proof -
  let ?s1 = "snd (next_interrupt_frame resume (scheduler_get_next_task s) s)"
  have "stacks_kept s s2" if "requeue_preempted (snd (scheduler_ready_queue_pop ?s1)) = Some s2" for s2
    using stacks_kept_trans [OF next_frame_kept stacks_kept_trans [OF pop_kept requeue_preempted_kept [OF that]]] .
  then show ?thesis using assms next_frame_kept [of s resume "scheduler_get_next_task s"]
    by (auto simp: scheduler_get_next_interrupt_rsp_def Let_def bind_eq_Some_conv split_def split: if_splits)
qed

lemma commit_kept: "stacks_kept s (scheduler_commit_pending_task s)"
  by (simp add: scheduler_commit_pending_task_def Let_def stacks_kept_def same_heap_refl upd_task_apply)

lemma isr_return_kept:
  assumes "isr_return resume sp s = Some (f, s')"
  shows "stacks_kept s s'"
proof -
  let ?s = "scheduler_save_interrupt_context sp s"
  obtain g s1 where "scheduler_get_next_interrupt_rsp resume ?s = Some (g, s1)"
    "s' = (if g = 0 then s1 else scheduler_commit_pending_task s1)"
    using assms by (auto simp: isr_return_def bind_eq_Some_conv split: if_splits)
  moreover have "stacks_kept s ?s" by (simp add: scheduler_save_interrupt_context_def stacks_kept_task)
  ultimately show ?thesis using get_next_kept commit_kept stacks_kept_trans by (auto split: if_splits) blast+
qed

section \<open>The tasks of the scheduler\<close>

text \<open>The tasks the scheduler knows: the idle task, the running task and those in a queue.\<close>

definition members :: "sched_state \<Rightarrow> u64 set" where
  "members s = {t. t \<noteq> 0 \<and> (t = idle s \<or> t = current_task s \<or> (\<exists>r b z. queues s r b z \<and> t \<in> set (r @ b @ z)))}"

lemma queues_unique:
  assumes "queues s r b z" "queues s r' b' z'"
  shows "r' = r" "b' = b" "z' = z"
  using assms queue_rep_unique by (auto simp: linked_def)

lemma members_ok:
  assumes "sched_ok s r b z"
  shows "members s = {idle s, current_task s} \<union> set (r @ b @ z) - {0}"
proof -
  have q: "queues s r b z" using assms by (simp add: sched_ok_def)
  have "(\<exists>r b z. queues s r b z \<and> t \<in> set (r @ b @ z)) \<longleftrightarrow> t \<in> set (r @ b @ z)" for t
    using q queues_unique [OF q] by blast
  then show ?thesis unfolding members_def by auto
qed

text \<open>A step after which the scheduler is well-formed, has no new task and the stacks are the same.\<close>

definition keeps :: "sched_state \<Rightarrow> sched_state \<Rightarrow> bool" where
  "keeps s s' \<longleftrightarrow> sched_inv s' \<and> members s' \<subseteq> members s \<and> stacks_kept s s'"

lemma keeps_trans: "keeps s s' \<Longrightarrow> keeps s' s'' \<Longrightarrow> keeps s s''"
  using stacks_kept_trans by (auto simp: keeps_def)

lemma keepsI:
  assumes "sched_ok s r b z" "idle s \<noteq> 0" "sched_ok s' r' b' z'" "idle s' = idle s"
    "set (current_task s' # r' @ b' @ z') \<subseteq> {0, idle s, current_task s} \<union> set (r @ b @ z)" "stacks_kept s s'"
  shows "keeps s s'"
proof -
  have "members s' \<subseteq> members s"
    unfolding members_ok [OF assms(1)] members_ok [OF assms(3)] using assms(4,5) by auto
  then show ?thesis using assms by (auto simp: keeps_def sched_inv_def)
qed

lemma sched_invE:
  assumes "sched_inv s"
  obtains r b z where "sched_ok s r b z" "idle s \<noteq> 0" "next_task (idle s) r \<noteq> 0"
    "next_task (idle s) r \<in> insert (idle s) (set r)" "set (tl r) \<subseteq> set r"
proof -
  obtain r b z where ok: "sched_ok s r b z" "idle s \<noteq> 0" using assms by (auto simp: sched_inv_def)
  then have "next_task (idle s) r \<noteq> 0" by (intro next_task_not_null) (auto simp: sched_ok_def)
  with ok show thesis by (rule that) (cases r; auto simp: next_task_def)+
qed

lemma yield_total:
  assumes "sched_inv s"
  shows "\<exists>w s'. scheduler_yield s = Some (w, s') \<and> keeps s s'"
  using assms
proof (rule sched_invE)
  fix r b z
  assume ok: "sched_ok s r b z" and i: "idle s \<noteq> 0" and n: "next_task (idle s) r \<noteq> 0"
    and s: "next_task (idle s) r \<in> insert (idle s) (set r)" "set (tl r) \<subseteq> set r"
  show ?thesis
  proof (cases "current_task s \<noteq> 0 \<and> current_task s \<noteq> idle s")
    case True
    then obtain s' where y: "scheduler_yield s = Some (r \<noteq> [], s')" "sched_ok s' (tl (r @ [current_task s])) b z"
      "current_task s' = hd (r @ [current_task s])" "same_env s s'" using scheduler_yield_running [OF ok] by blast
    have "keeps s s'" by (rule keepsI [OF ok i y(2) _ _ yield_kept [OF y(1)]])
        (use y(3,4) s in \<open>cases r; auto simp: same_env_def\<close>)+
    then show ?thesis using y(1) by blast
  next
    case False
    then obtain s' where y: "scheduler_yield s = Some (next_task (idle s) r \<noteq> current_task s, s')" "sched_ok s' (tl r) b z"
      "current_task s' = next_task (idle s) r" "same_env s s'"
      using scheduler_yield_other [of s r b z] ok n by (auto simp: sched_ok_def)
    have "keeps s s'" by (rule keepsI [OF ok i y(2) _ _ yield_kept [OF y(1)]]) (use y(3,4) s in \<open>auto simp: same_env_def\<close>)
    then show ?thesis using y(1) by blast
  qed
qed

lemma block_total:
  assumes inv: "sched_inv s"
  shows "\<exists>w s'. scheduler_block_current s = Some (w, s') \<and> keeps s s'"
  using inv
proof (rule sched_invE)
  fix r b z
  assume ok: "sched_ok s r b z" and i: "idle s \<noteq> 0" and n: "next_task (idle s) r \<noteq> 0"
    and s: "next_task (idle s) r \<in> insert (idle s) (set r)" "set (tl r) \<subseteq> set r"
  show ?thesis
  proof (cases "current_task s \<noteq> 0 \<and> current_task s \<noteq> idle s")
    case True
    then obtain s' where y: "scheduler_block_current s = Some (True, s')" "sched_ok s' (tl r) (b @ [current_task s]) z"
      "current_task s' = next_task (idle s) r" "same_env s s'" using scheduler_block_current_ok [OF ok _ _ n] by blast
    have "keeps s s'" by (rule keepsI [OF ok i y(2) _ _ block_kept [OF y(1)]]) (use y(3,4) s in \<open>auto simp: same_env_def\<close>)
    then show ?thesis using y(1) by blast
  next
    case False
    then have y: "scheduler_block_current s = Some (False, s\<lparr>int_enabled := int_enabled s\<rparr>)"
      by (auto simp: scheduler_block_current_def scheduler_block_current_locked_def interrupt_save_def interrupt_restore_def)
    then show ?thesis using inv by (auto simp: keeps_def)
  qed
qed

lemma sleep_total:
  assumes inv: "sched_inv s"
  shows "\<exists>w s'. scheduler_sleep d s = Some (w, s') \<and> keeps s s'"
  using inv
proof (rule sched_invE)
  fix r b z
  assume ok: "sched_ok s r b z" and i: "idle s \<noteq> 0" and n: "next_task (idle s) r \<noteq> 0"
    and s: "next_task (idle s) r \<in> insert (idle s) (set r)" "set (tl r) \<subseteq> set r"
  show ?thesis
  proof (cases "current_task s \<noteq> 0 \<and> current_task s \<noteq> idle s")
    case True
    then obtain s' where y: "scheduler_sleep d s = Some (True, s')" "sched_ok s' (tl r) b (z @ [current_task s])"
      "current_task s' = next_task (idle s) r" "idle s' = idle s" using scheduler_sleep_ok [OF ok _ _ n, of d] by blast
    have "keeps s s'" by (rule keepsI [OF ok i y(2) _ _ sleep_kept [OF y(1)]]) (use y(3,4) s in auto)
    then show ?thesis using y(1) by blast
  next
    case False
    then have "scheduler_sleep d s = Some (False, s)" by (auto simp: scheduler_sleep_def)
    moreover have "keeps s s" using inv by (simp add: keeps_def)
    ultimately show ?thesis by blast
  qed
qed

text \<open>Waking a task that the scheduler knows; a blocked one is on the blocked queue.\<close>

lemma unblock_total:
  assumes inv: "sched_inv s" and t: "t = 0 \<or> t \<in> members s"
  shows "\<exists>s'. scheduler_unblock t s = Some s' \<and> keeps s s'"
  using inv
proof (rule sched_invE)
  fix r b z
  assume ok: "sched_ok s r b z" and i: "idle s \<noteq> 0"
  show ?thesis
  proof (cases "t = 0 \<or> task_state (sc_tasks s t) \<noteq> TASK_BLOCKED")
    case True
    then have "scheduler_unblock t s = Some s" by (auto simp: scheduler_unblock_def)
    then show ?thesis using inv by (auto simp: keeps_def)
  next
    case False
    then have "t \<in> set b" using t ok unfolding members_ok [OF ok] by (auto simp: sched_ok_def states_ok_def idle_ok_def)
    then obtain s' where y: "scheduler_unblock t s = Some s'" "sched_ok s' (r @ [t]) (remove1 t b) z"
      "current_task s' = current_task s" "same_env s s'" using scheduler_unblock_ok [OF ok] by blast
    have "keeps s s'" by (rule keepsI [OF ok i y(2) _ _ unblock_kept [OF y(1)]])
        (use y(3,4) \<open>t \<in> set b\<close> set_remove1_subset [of t b] in \<open>auto simp: same_env_def\<close>)
    then show ?thesis using y(1) by blast
  qed
qed

lemma exit_total:
  assumes "sched_inv s" and c: "current_task s \<noteq> 0" "current_task s \<noteq> idle s"
  shows "\<exists>s'. task_exit s = Some s' \<and> keeps s s'"
  using assms(1)
proof (rule sched_invE)
  fix r b z
  assume ok: "sched_ok s r b z" and i: "idle s \<noteq> 0"
    and s: "next_task (idle s) r \<in> insert (idle s) (set r)" "set (tl r) \<subseteq> set r"
  obtain s' where y: "task_exit s = Some s'" "sched_ok s' (tl r) b z" "current_task s' = next_task (idle s) r" "idle s' = idle s"
    using task_exit_ok [OF ok i c] by blast
  have "keeps s s'" by (rule keepsI [OF ok i y(2) _ _ exit_kept [OF y(1)]]) (use y(3,4) s in auto)
  then show ?thesis using y(1) by blast
qed

lemma pit_total:
  assumes "sched_inv s"
  shows "\<exists>s'. pit_irq_handler c s = Some s' \<and> keeps s s'"
  using assms
proof (rule sched_invE)
  fix r b z
  assume ok: "sched_ok s r b z" and i: "idle s \<noteq> 0"
  obtain s' d where y: "pit_irq_handler c s = Some s'" "sched_ok s' (r @ filter d z) b (filter (\<lambda>t. \<not> d t) z)"
    "current_task s' = current_task s" "idle s' = idle s" using pit_irq_handler_ok [OF ok, of c] by blast
  have "keeps s s'" by (rule keepsI [OF ok i y(2) _ _ pit_kept [OF y(1)]]) (use y(3,4) in auto)
  then show ?thesis using y(1) by blast
qed

lemma isr_return_total:
  assumes "sched_inv s"
  shows "\<exists>f s'. isr_return resume sp s = Some (f, s') \<and> keeps s s'"
  using assms
proof (rule sched_invE)
  fix r b z
  assume ok: "sched_ok s r b z" and i: "idle s \<noteq> 0" and s: "set (tl r) \<subseteq> set r"
  obtain f s' where y: "isr_return resume sp s = Some (f, s')" "idle s' = idle s"
    and c: "if switch_due s r then current_task s' = hd r \<and> sched_ok s' (tl r @ requeued s) b z
            else f = sp \<and> current_task s' = current_task s \<and> sched_ok s' r b z"
    using isr_return_ok [OF ok, of resume sp] by (auto split: if_splits)
  have "keeps s s'"
  proof (cases "switch_due s r")
    case True
    then have "r \<noteq> []" by (simp add: switch_due_def)
    then show ?thesis using True c y(2) s isr_return_kept [OF y(1)]
      by (intro keepsI [OF ok i, of s' "tl r @ requeued s" b z]) (auto simp: requeued_def)
  next
    case False
    then show ?thesis using c y(2) isr_return_kept [OF y(1)] by (intro keepsI [OF ok i, of s' r b z]) auto
  qed
  then show ?thesis using y(1) by blast
qed

section \<open>Memory of tasks and clients\<close>

definition stack_of :: "sched_state \<Rightarrow> u64 \<Rightarrow> u64" where
  "stack_of s t = task_kernel_stack (sc_tasks s t)"

lemma stacks_kept_stack: "stacks_kept s s' \<Longrightarrow> stack_of s' = stack_of s"
  by (intro ext) (simp add: stack_of_def stacks_kept_def)

text \<open>
  The structures and stacks of the tasks and the blocks of the clients are live blocks of the heap, all
  different from each other.
\<close>

definition blocks_ok :: "sched_state \<Rightarrow> (u64 \<times> u64) set \<Rightarrow> u64 set \<Rightarrow> bool" where
  "blocks_ok s L clients \<longleftrightarrow> members s \<union> stack_of s ` members s \<union> clients \<subseteq> fst ` L \<and>
     inj_on (stack_of s) (members s) \<and> members s \<inter> stack_of s ` members s = {} \<and>
     clients \<inter> (members s \<union> stack_of s ` members s) = {}"

definition memory_inv :: "sched_state \<Rightarrow> u64 set \<Rightarrow> bool" where
  "memory_inv s clients \<longleftrightarrow> (\<exists>L. heap_live (sc_heap s) L \<and> blocks_ok s L clients)"

lemma separate_mono:
  assumes "M' \<subseteq> M" "S' \<subseteq> S" "M \<union> S \<union> C \<subseteq> A" "M \<inter> S = {}" "C \<inter> (M \<union> S) = {}"
  shows "M' \<union> S' \<union> C \<subseteq> A" "M' \<inter> S' = {}" "C \<inter> (M' \<union> S') = {}"
  using assms by auto

lemma blocks_ok_keeps:
  assumes "keeps s s'" "blocks_ok s L clients"
  shows "blocks_ok s' L clients"
proof -
  have m: "members s' \<subseteq> members s" and st: "stack_of s' = stack_of s"
    using assms(1) stacks_kept_stack by (auto simp: keeps_def)
  have "inj_on (stack_of s) (members s')" by (rule inj_on_subset [OF _ m]) (use assms(2) in \<open>simp add: blocks_ok_def\<close>)
  moreover have "members s \<union> stack_of s ` members s \<union> clients \<subseteq> fst ` L" "members s \<inter> stack_of s ` members s = {}"
    "clients \<inter> (members s \<union> stack_of s ` members s) = {}" using assms(2) by (simp_all add: blocks_ok_def)
  note separate_mono [OF m image_mono [OF m, of "stack_of s"] this]
  ultimately show ?thesis unfolding blocks_ok_def st by simp
qed

lemma memory_inv_keeps: "keeps s s' \<Longrightarrow> memory_inv s clients \<Longrightarrow> memory_inv s' clients"
proof -
  assume k: "keeps s s'" and m: "memory_inv s clients"
  have "heap_live (sc_heap s') L = heap_live (sc_heap s) L" for L
    using k same_heap_live by (simp add: keeps_def stacks_kept_def)
  then show ?thesis using m blocks_ok_keeps [OF k] by (auto simp: memory_inv_def)
qed

text \<open>Creating a task and adding it to the scheduler, as every user of the scheduler does.\<close>

definition spawn :: "u64 \<Rightarrow> sched_state \<Rightarrow> sched_state option" where
  "spawn entry s = do { (t, s) \<leftarrow> task_create entry s; scheduler_add_task t s }"

lemma members_heap: "members (s\<lparr>sc_heap := h\<rparr>) = members s" "sched_inv (s\<lparr>sc_heap := h\<rparr>) = sched_inv s"
  by (simp_all add: members_def sched_inv_def sched_ok_def idle_ok_def)

lemma task_create_members:
  assumes c: "task_create e s = Some (t, s')" and inv: "sched_inv s" and t: "t \<noteq> 0" "t \<notin> members s"
  shows "sched_inv s'" "members s' = members s" "\<And>x. x \<noteq> t \<Longrightarrow> stack_of s' x = stack_of s x"
proof -
  obtain r b z where ok: "sched_ok s r b z" "idle s \<noteq> 0" using inv by (auto simp: sched_inv_def)
  have f: "t \<notin> set (r @ b @ z)" "t \<noteq> idle s" "t \<noteq> current_task s" using t unfolding members_ok [OF ok(1)] by auto
  from c show e: "stack_of s' x = stack_of s x" if "x \<noteq> t" for x
    by (cases rule: task_create_effect) (use that in \<open>auto simp: stack_of_def\<close>)
  have ok': "sched_ok s' r b z" using c
    by (cases rule: task_create_effect) (use ok(1) f in \<open>auto simp: sched_ok_def idle_ok_def linked_def states_ok_def\<close>)
  have fl: "idle s' = idle s" "current_task s' = current_task s" using c by (cases rule: task_create_effect; simp)+
  show "members s' = members s" unfolding members_ok [OF ok'] members_ok [OF ok(1)] fl ..
  show "sched_inv s'" using ok' ok(2) fl by (auto simp: sched_inv_def)
qed

lemma add_task_total:
  assumes "sched_inv s" and t: "t \<noteq> 0" "t \<notin> members s"
  shows "\<exists>s'. scheduler_add_task t s = Some s' \<and> sched_inv s' \<and> members s' = insert t (members s) \<and> stacks_kept s s'"
  using assms(1)
proof (rule sched_invE)
  fix r b z
  assume ok: "sched_ok s r b z" and i: "idle s \<noteq> 0"
  have f: "t \<notin> set (r @ b @ z)" "t \<noteq> idle s" "t \<noteq> current_task s" using t unfolding members_ok [OF ok] by auto
  obtain s' where y: "scheduler_add_task t s = Some s'" "sched_ok s' (r @ [t]) b z" "current_task s' = current_task s"
    "same_env s s'" using scheduler_add_task_ok [OF ok t(1) f] by blast
  have "idle s' = idle s" using y(4) by (simp add: same_env_def)
  then have "members s' = insert t (members s)"
    unfolding members_ok [OF ok] members_ok [OF y(2)] y(3) using t(1) by auto
  then show ?thesis using y add_task_kept [OF y(1)] i \<open>idle s' = idle s\<close> by (auto simp: sched_inv_def)
qed

lemma separate_insert:
  assumes "M \<union> S \<union> C \<subseteq> A" "M \<inter> S = {}" "C \<inter> (M \<union> S) = {}" "t \<notin> A" "u \<notin> insert t A"
  shows "insert t M \<union> insert u S \<union> C \<subseteq> insert u (insert t A)" "u \<notin> S"
    "insert t M \<inter> insert u S = {}" "C \<inter> (insert t M \<union> insert u S) = {}"
  using assms by auto

lemma spawn_total:
  assumes inv: "sched_inv s" "memory_inv s clients"
  shows "\<exists>s'. spawn entry s = Some s' \<and> sched_inv s' \<and> memory_inv s' clients"
proof -
  obtain L where L: "heap_live (sc_heap s) L" "blocks_ok s L clients" using inv(2) by (auto simp: memory_inv_def)
  obtain t s1 L1 where c: "task_create entry s = Some (t, s1)" "heap_live (sc_heap s1) L1"
    and d: "if t = 0 then L1 = L else \<exists>m k. L1 = insert (stack_of s1 t, k) (insert (t, m) L) \<and> t \<notin> fst ` L \<and>
       stack_of s1 t \<notin> insert t (fst ` L)"
    using task_create_live [OF L(1), of entry] unfolding stack_of_def by blast
  show ?thesis
  proof (cases "t = 0")
    case True
    have "\<exists>h. s1 = s\<lparr>sc_heap := h\<rparr>" using c(1) by (cases rule: task_create_effect) (use True in auto)
    then obtain h where h: "s1 = s\<lparr>sc_heap := h\<rparr>" by blast
    have "stack_of s1 = stack_of s" by (intro ext) (simp add: h stack_of_def)
    then have "blocks_ok s1 L clients" using L(2) by (simp add: h blocks_ok_def members_heap)
    moreover have "sched_inv s1" using inv(1) by (simp add: h members_heap)
    moreover have "spawn entry s = Some s1" using c(1) True by (simp add: spawn_def scheduler_add_task_def)
    ultimately show ?thesis using c(2) d True by (auto simp: memory_inv_def)
  next
    case False
    then obtain m k where L1: "L1 = insert (stack_of s1 t, k) (insert (t, m) L)" "t \<notin> fst ` L"
      "stack_of s1 t \<notin> insert t (fst ` L)" using d by auto
    have t: "t \<notin> members s" using L(2) L1(2) by (auto simp: blocks_ok_def)
    note c1 = task_create_members [OF c(1) inv(1) False t]
    obtain s2 where a: "scheduler_add_task t s1 = Some s2" "sched_inv s2" "members s2 = insert t (members s)" "stacks_kept s1 s2"
      using add_task_total [OF c1(1) False] t c1(2) by auto
    have st: "stack_of s2 = stack_of s1" by (rule stacks_kept_stack [OF a(4)])
    have old: "stack_of s1 x = stack_of s x" if "x \<in> members s" for x
      by (rule c1(3)) (use that t in auto)
    have im: "stack_of s1 ` members s = stack_of s ` members s" by (rule image_cong [OF refl old])
    have "fst ` L1 = insert (stack_of s1 t) (insert t (fst ` L))" by (simp add: L1(1))
    note sep = separate_insert [of "members s" "stack_of s ` members s" clients "fst ` L" t "stack_of s1 t", folded this]
    have "inj_on (stack_of s1) (members s)" using L(2) inj_on_cong [OF old, of "members s"] by (simp add: blocks_ok_def)
    then have "inj_on (stack_of s1) (insert t (members s))"
      using sep(2) L(2) L1(2,3) t by (simp add: blocks_ok_def im)
    then have "blocks_ok s2 L1 clients"
      using sep(1,3,4) L(2) L1(2,3) unfolding blocks_ok_def a(3) st image_insert im by simp
    moreover have "heap_live (sc_heap s2) L1" using a(4) same_heap_live [of "sc_heap s1" "sc_heap s2"] c(2) by (simp add: stacks_kept_def)
    moreover have "spawn entry s = Some s2" using c(1) a(1) by (simp add: spawn_def)
    ultimately show ?thesis using a(2) by (auto simp: memory_inv_def)
  qed
qed

lemma members_with_heap: "blocks_ok (s\<lparr>sc_heap := h\<rparr>) L clients = blocks_ok s L clients"
proof -
  have "stack_of (s\<lparr>sc_heap := h\<rparr>) = stack_of s" by (intro ext) (simp add: stack_of_def)
  then show ?thesis by (simp add: blocks_ok_def members_heap)
qed

lemma kmalloc_total:
  assumes inv: "memory_inv s clients"
  shows "\<exists>p h. kmalloc n (sc_heap s) = Some (p, h) \<and> memory_inv (s\<lparr>sc_heap := h\<rparr>) (clients \<union> {p} - {0})"
proof -
  obtain L where L: "heap_live (sc_heap s) L" "blocks_ok s L clients" using inv by (auto simp: memory_inv_def)
  have z: "blocks_ok s L (clients - {0})" using L(2) by (auto simp: blocks_ok_def)
  obtain p h where k: "kmalloc n (sc_heap s) = Some (p, h)"
    "if p = 0 then heap_live h L else \<exists>m. granted n \<le> m \<and> p \<notin> fst ` L \<and> heap_live h (insert (p, m) L)"
    using ka.alloc_returns [OF L(1)] by blast
  show ?thesis
  proof (cases "p = 0")
    case True
    then show ?thesis using k z by (auto simp: memory_inv_def members_with_heap)
  next
    case p: False
    then obtain m where m: "p \<notin> fst ` L" "heap_live h (insert (p, m) L)" using k(2) by auto
    have "blocks_ok s (insert (p, m) L) (clients \<union> {p} - {0})"
      using z m(1) p by (simp add: blocks_ok_def) blast
    then show ?thesis using k(1) m(2) by (auto simp: memory_inv_def members_with_heap)
  qed
qed

lemma kfree_total:
  assumes inv: "memory_inv s clients" and p: "p = 0 \<or> p \<in> clients"
  shows "memory_inv (s\<lparr>sc_heap := kfree p (sc_heap s)\<rparr>) (clients - {p})"
proof -
  obtain L where L: "heap_live (sc_heap s) L" "blocks_ok s L clients" using inv by (auto simp: memory_inv_def)
  show ?thesis
  proof (cases "p = 0")
    case True
    then have "kfree p (sc_heap s) = sc_heap s" by (simp add: kfree_def)
    moreover have "blocks_ok s L (clients - {p})" using L(2) by (auto simp: blocks_ok_def)
    ultimately show ?thesis using L(1) by (auto simp: memory_inv_def)
  next
    case False
    then have c: "p \<in> clients" using p by simp
    then obtain m where m: "(p, m) \<in> L" using L(2) by (auto simp: blocks_ok_def)
    have "fst ` L - {p} \<subseteq> fst ` (L - {(p, m)})" by force
    moreover have "members s \<union> stack_of s ` members s \<union> (clients - {p}) \<subseteq> fst ` L - {p}"
      using L(2) c by (auto simp: blocks_ok_def)
    ultimately have "members s \<union> stack_of s ` members s \<union> (clients - {p}) \<subseteq> fst ` (L - {(p, m)})" by (rule order_trans [rotated])
    moreover have "(clients - {p}) \<inter> (members s \<union> stack_of s ` members s) = {}" using L(2) by (auto simp: blocks_ok_def)
    ultimately have "blocks_ok s (L - {(p, m)}) (clients - {p})" using L(2) by (simp add: blocks_ok_def)
    then show ?thesis using ka.release_live [OF L(1) m] by (auto simp: memory_inv_def members_with_heap)
  qed
qed

text \<open>The demand pager takes frames; it leaves the blocks of the heap alone.\<close>

lemma handler_keeps:
  assumes v: "vm_inv (mm_vm s)" and kp: "kernel_pml4 (mm_vm s) \<noteq> 0" and r: "vmm_handle_page_fault fa err s = (b, s')"
  shows "vm_inv (mm_vm s') \<and> kernel_pml4 (mm_vm s') \<noteq> 0 \<and> free_set (vm_pmm (mm_vm s')) \<subseteq> free_set (vm_pmm (mm_vm s))"
  using v r
proof (cases rule: handler_cases)
  case (filled f pmm w)
  let ?s1 = "with_cleared_page f pmm (mm_vm s)" and ?root = "kernel_pml4 (mm_vm s)"
  note c = cleared_page [OF v filled(3,4,5,7) refl refl]
  have ok1: "vm_inv ?s1" using c(1) by (simp add: active_root_cleared)
  note m = page_table_map_regs(1) [OF ok1 filled(9)] vm.map_inv [OF ok1 filled(9)] page_table_map_free [OF ok1 filled(9)]
    page_table_map_keeps_data [OF ok1 filled(9)]
  have s1: "kernel_pml4 ?s1 = ?root" "free_set (vm_pmm ?s1) = free_set (vm_pmm (mm_vm s)) - {f}"
    "hhdm_offset ?s1 = hhdm_offset (mm_vm s)" "total_pages (vm_pmm ?s1) = total_pages (vm_pmm (mm_vm s))"
    using filled(7,8) by (simp_all add: with_cleared_page_def)
  have root: "page_table_active_root ?s1 = ?root" "page_table_active_root w = ?root" "page_table_active_root (mm_vm s) = ?root"
    using kp m(1) s1(1) by (simp_all add: page_table_active_root_def)
  have w: "vm_ok w ?root" "data_page w ?root (frame_view w f)" using m c(3) by (simp_all add: root s1(3) keeps_data_def)
  have "f < total_pages (vm_pmm w)" using filled(3) m(5) s1(4) by (simp add: free_set_iff)
  moreover have "unat (f * PMM_PAGE_SIZE) = unat f * 4096" using filled(4) by (simp add: PMM_PAGE_SIZE_def unat_mult_no_wrap)
  moreover have "pmm_inv (vm_pmm w)" using w(1) by (simp add: vm_ok_def)
  ultimately have pf: "pmm_inv (pmm_free_page (f * PMM_PAGE_SIZE) (vm_pmm w))"
    "free_set (pmm_free_page (f * PMM_PAGE_SIZE) (vm_pmm w)) = insert f (free_set (vm_pmm w))"
    using pa.free_frame filled(6) by blast+
  note fd = free_data_page(1) [OF w filled(4) pf]
  have "page_table_active_root (mm_vm s') = ?root" "kernel_pml4 (mm_vm s') = ?root"
    using root(2) m(1) s1(1) by (simp_all add: filled(10) active_root_pmm)
  then show ?thesis using fd w(1) kp m(3) s1(2) filled(3) pf(2) by (auto simp: filled(10))
qed (use v kp in auto)

lemma page_fault_live:
  assumes live: "heap_live h L" and r: "vmm_handle_page_fault fa err (hp_mm h) = (b, mm)"
  shows "heap_live (h\<lparr>hp_mm := mm\<rparr>) L"
proof -
  obtain segs where ok: "heap_ok h segs" and L: "L = (\<lambda>(a, n). (a + sizeof_heap_block, n)) ` allocated segs"
    using live by (auto simp: heap_live_def)
  have v: "vm_inv (mm_vm (hp_mm h))" and kp: "kernel_pml4 (mm_vm (hp_mm h)) \<noteq> 0" using ok by (simp_all add: heap_ok_def)
  note k = handler_keeps [OF v kp r]
  have "card (free_set (vm_pmm (mm_vm mm))) \<le> card (free_set (vm_pmm (mm_vm (hp_mm h))))" by (rule card_mono) (use k in simp_all)
  then have "heap_ok (h\<lparr>hp_mm := mm\<rparr>) segs" using ok k by (simp add: heap_ok_def rep_def heap_room_def)
  then show ?thesis using L by (auto simp: heap_live_def)
qed

section \<open>Devices\<close>

text \<open>The arrays of the terminal and of the mouse are only accessed inside.\<close>

definition dev_ok :: "machine \<Rightarrow> bool" where
  "dev_ok m \<longleftrightarrow> term_ok (con_term (dev_con (m_dev m))) \<and> length (mouse_packet (m_mouse m)) = 3 \<and> packet_index (m_mouse m) < 3"

lemma printed_more_dev: "printed_more m m' \<Longrightarrow> dev_ok m \<Longrightarrow> dev_ok m'"
  by (auto simp: printed_more_def dev_ok_def intro: putchars_ok)

lemma keyboard_dev: "dev_ok m \<Longrightarrow> dev_ok (m\<lparr>m_dev := keyboard_handler (m_dev m)\<rparr>)"
  by (simp add: dev_ok_def keyboard_handler_def inb_def Let_def terminal_backspace_def terminal_handle_key_def erase_ok
      terminal_putchar_ok record_key_ok)

lemma mouse_packet_ok:
  assumes "length (mouse_packet s) = 3" "packet_index s < 3"
  shows "length (mouse_packet (snd (mouse_handler d io s))) = 3 \<and> packet_index (snd (mouse_handler d io s)) < 3"
  using assms by (simp add: mouse_handler_def inb_def mouse_move_def Let_def not_less)

section \<open>Interrupts\<close>

text \<open>\<open>common_isr_entry\<close>: dispatch the interrupt, then return to the interrupted task or to the next one.\<close>

definition common_isr_entry :: "u64 \<Rightarrow> u64 \<Rightarrow> interrupt_context \<Rightarrow> machine \<Rightarrow> outcome option" where
  "common_isr_entry resume context c m = do {
     r \<leftarrow> isr_dispatch context c m;
     (case r of
        Halts m \<Rightarrow> Some (Halts m)
      | Returns m \<Rightarrow> do {
          (return_rsp, s) \<leftarrow> isr_return resume context (k_sched (m_kernel m));
          Some (Returns (on_sched (\<lambda>_. s) m))
        })
   }"

definition machine_inv :: "machine \<Rightarrow> u64 set \<Rightarrow> bool" where
  "machine_inv m clients \<longleftrightarrow> sched_inv (k_sched (m_kernel m)) \<and> memory_inv (k_sched (m_kernel m)) clients \<and>
     m_handlers m = boot_handlers \<and> dev_ok m"

lemma machine_inv_sched:
  assumes "machine_inv m clients" "sched_inv s" "memory_inv s clients'"
  shows "machine_inv (on_sched (\<lambda>_. s) m) clients'"
  using assms by (simp add: machine_inv_def on_sched_def dev_ok_def)

lemma machine_inv_keeps:
  assumes "machine_inv m clients" "keeps (k_sched (m_kernel m)) s"
  shows "machine_inv (on_sched (\<lambda>_. s) m) clients"
proof (rule machine_inv_sched [OF assms(1)])
  show "sched_inv s" using assms(2) by (simp add: keeps_def)
  show "memory_inv s clients" by (rule memory_inv_keeps [OF assms(2)]) (use assms(1) in \<open>simp add: machine_inv_def\<close>)
qed

lemma machine_inv_printed: "machine_inv m clients \<Longrightarrow> printed_more m m' \<Longrightarrow> machine_inv m' clients"
  using printed_more_dev by (auto simp: machine_inv_def) (auto simp: printed_more_def)

lemma machine_inv_fault:
  assumes inv: "machine_inv m clients" and r: "vmm_handle_page_fault fa err (m_mm m) = (b, mm)"
  shows "machine_inv (set_mm mm m) clients"
proof -
  let ?s = "k_sched (m_kernel m)"
  have e: "set_mm mm m = on_sched (\<lambda>_. ?s\<lparr>sc_heap := (sc_heap ?s)\<lparr>hp_mm := mm\<rparr>\<rparr>) m"
    by (simp add: set_mm_def on_sched_def set_heap_def k_heap_def)
  obtain L where L: "heap_live (sc_heap ?s) L" "blocks_ok ?s L clients" using inv by (auto simp: machine_inv_def memory_inv_def)
  have "heap_live ((sc_heap ?s)\<lparr>hp_mm := mm\<rparr>) L"
    by (rule page_fault_live [OF L(1)]) (use r in \<open>simp add: m_mm_def k_heap_def\<close>)
  then have "memory_inv (?s\<lparr>sc_heap := (sc_heap ?s)\<lparr>hp_mm := mm\<rparr>\<rparr>) clients"
    using L(2) by (auto simp: memory_inv_def members_with_heap)
  then show ?thesis unfolding e
    using inv by (intro machine_inv_sched [OF inv]) (simp_all add: machine_inv_def members_heap)
qed

lemma call_handler_total:
  assumes "machine_inv m clients"
  shows "\<exists>m'. call_handler h p m = Some m' \<and> machine_inv m' clients"
proof (cases h)
  case Pit_irq_handler
  have "sched_inv (k_sched (m_kernel m))" using assms by (simp add: machine_inv_def)
  then obtain s where s: "pit_irq_handler p (k_sched (m_kernel m)) = Some s" "keeps (k_sched (m_kernel m)) s"
    using pit_total by blast
  show ?thesis using Pit_irq_handler s(1) machine_inv_keeps [OF assms s(2)] by (simp add: call_handler_def on_sched_def)
next
  case Keyboard_irq_handler
  then show ?thesis using assms keyboard_dev by (simp add: call_handler_def machine_inv_def)
next
  case Mouse_irq_handler
  obtain io mouse where r: "mouse_handler (con_disp (dev_con (m_dev m))) (dev_io (m_dev m)) (m_mouse m) = (io, mouse)"
    by (cases "mouse_handler (con_disp (dev_con (m_dev m))) (dev_io (m_dev m)) (m_mouse m)")
  have "dev_ok (m\<lparr>m_dev := (m_dev m)\<lparr>dev_io := io\<rparr>, m_mouse := mouse\<rparr>)"
    using assms mouse_packet_ok [of "m_mouse m" "con_disp (dev_con (m_dev m))" "dev_io (m_dev m)"]
    by (simp add: dev_ok_def machine_inv_def r)
  then show ?thesis using Mouse_irq_handler assms r by (simp add: call_handler_def machine_inv_def)
qed

lemma end_of_interrupt_inv: "machine_inv m clients \<Longrightarrow> machine_inv (end_of_interrupt v m) clients"
  by (simp add: machine_inv_def end_of_interrupt_def dev_ok_def)

text \<open>An exception may stop the machine; every other interrupt returns.\<close>

lemma isr_dispatch_total:
  assumes inv: "machine_inv m clients"
  shows "\<exists>r. isr_dispatch p c m = Some r \<and>
    (case r of Returns m' \<Rightarrow> machine_inv m' clients | Halts m' \<Rightarrow> interrupt_number c < 32)"
proof -
  consider "interrupt_number c < 32" "interrupt_number c \<noteq> 14" | "interrupt_number c = 14"
    | "32 \<le> interrupt_number c" "interrupt_number c < 48" | "48 \<le> interrupt_number c" by fastforce
  then show ?thesis
  proof cases
    case 1
    then show ?thesis using kernel_panic_halts [of m "exception_names ! unat (interrupt_number c)" c]
      by (auto simp: isr_dispatch_def exception_dispatch_def EXCEPTION_PAGE_FAULT_def ends_as_def)
  next
    case 2
    obtain b mm where r: "vmm_handle_page_fault (m_cr2 m) (error_code c) (m_mm m) = (b, mm)"
      by (cases "vmm_handle_page_fault (m_cr2 m) (error_code c) (m_mm m)")
    obtain m' where "page_fault_handler c m = Some ((if b then Returns else Halts) m')" "printed_more (set_mm mm m) m'"
      using page_fault_outcome [OF r] by (auto simp: ends_as_def)
    moreover from this(2) have "machine_inv m' clients" by (rule machine_inv_printed [OF machine_inv_fault [OF inv r]])
    ultimately show ?thesis using 2 by (auto simp: isr_dispatch_def exception_dispatch_def EXCEPTION_PAGE_FAULT_def)
  next
    case 3
    obtain m' where m': "(case m_handlers m ! (unat (interrupt_number c) - 32) of None \<Rightarrow> Some m | Some h \<Rightarrow> call_handler h p m) = Some m'"
      "machine_inv m' clients" using call_handler_total [OF inv] inv by (cases "m_handlers m ! (unat (interrupt_number c) - 32)") auto
    then have "irq_dispatch p c m = Some (end_of_interrupt (interrupt_number c) m')" using irq_dispatch_line [OF 3, of p m] by simp
    moreover have "\<not> interrupt_number c < 32" using 3 by (simp add: not_less)
    ultimately show ?thesis using end_of_interrupt_inv [OF m'(2)] by (simp add: isr_dispatch_def)
  next
    case 4
    then have "\<not> interrupt_number c < 32" by (auto simp: word_le_nat_alt word_less_nat_alt)
    then show ?thesis using 4 inv by (simp add: isr_dispatch_def irq_dispatch_def IRQ_BASE_VECTOR_def IRQ_COUNT_def)
  qed
qed

lemma interrupt_total:
  assumes inv: "machine_inv m clients"
  shows "\<exists>r. common_isr_entry resume p c m = Some r \<and>
    (case r of Returns m' \<Rightarrow> machine_inv m' clients | Halts m' \<Rightarrow> interrupt_number c < 32)"
proof -
  obtain r where r: "isr_dispatch p c m = Some r"
    "case r of Returns m' \<Rightarrow> machine_inv m' clients | Halts m' \<Rightarrow> interrupt_number c < 32"
    using isr_dispatch_total [OF inv] by blast
  show ?thesis
  proof (cases r)
    case (Returns m1)
    then have m1: "machine_inv m1 clients" using r(2) by simp
    then have "sched_inv (k_sched (m_kernel m1))" by (simp add: machine_inv_def)
    then obtain f s where s: "isr_return resume p (k_sched (m_kernel m1)) = Some (f, s)" "keeps (k_sched (m_kernel m1)) s"
      using isr_return_total by blast
    then show ?thesis using machine_inv_keeps [OF m1 s(2)] r(1) Returns by (simp add: common_isr_entry_def)
  next
    case (Halts m1)
    then show ?thesis using r by (simp add: common_isr_entry_def)
  qed
qed

section \<open>The system\<close>

text \<open>
  The events of a running kernel: an interrupt with the address and contents of its frame and the fault
  address register, and the calls of the scheduler and the heap. A client frees what it has allocated.
\<close>

record system =
  sys_machine :: machine
  sys_clients :: "u64 set"

datatype event =
    Interrupt u64 interrupt_context u64
  | Spawn u64
  | Yield
  | Block
  | Unblock u64
  | Sleep u64
  | Exit
  | Malloc u64
  | Free u64

datatype progress = Running system | Stopped machine

abbreviation sys_sched :: "system \<Rightarrow> sched_state" where
  "sys_sched sys \<equiv> k_sched (m_kernel (sys_machine sys))"

definition set_sched :: "sched_state \<Rightarrow> system \<Rightarrow> system" where
  "set_sched s sys = sys\<lparr>sys_machine := on_sched (\<lambda>_. s) (sys_machine sys)\<rparr>"

fun run_event :: "u64 \<Rightarrow> event \<Rightarrow> system \<Rightarrow> progress option" where
  "run_event resume (Interrupt context c address) sys = do {
     r \<leftarrow> common_isr_entry resume context c ((sys_machine sys)\<lparr>m_cr2 := address\<rparr>);
     Some (case r of Returns m \<Rightarrow> Running (sys\<lparr>sys_machine := m\<rparr>) | Halts m \<Rightarrow> Stopped m)
   }"
| "run_event resume (Spawn entry) sys = do {
     s \<leftarrow> spawn entry (sys_sched sys);
     Some (Running (set_sched s sys))
   }"
| "run_event resume Yield sys = do {
     (switched, s) \<leftarrow> scheduler_yield (sys_sched sys);
     Some (Running (set_sched s sys))
   }"
| "run_event resume Block sys = do {
     (switched, s) \<leftarrow> scheduler_block_current (sys_sched sys);
     Some (Running (set_sched s sys))
   }"
| "run_event resume (Unblock t) sys = do {
     s \<leftarrow> scheduler_unblock t (sys_sched sys);
     Some (Running (set_sched s sys))
   }"
| "run_event resume (Sleep ticks) sys = do {
     (switched, s) \<leftarrow> scheduler_sleep ticks (sys_sched sys);
     Some (Running (set_sched s sys))
   }"
| "run_event resume Exit sys = do {
     s \<leftarrow> task_exit (sys_sched sys);
     Some (Running (set_sched s sys))
   }"
| "run_event resume (Malloc n) sys = do {
     (p, h) \<leftarrow> kmalloc n (sc_heap (sys_sched sys));
     Some (Running ((set_sched ((sys_sched sys)\<lparr>sc_heap := h\<rparr>) sys)\<lparr>sys_clients := sys_clients sys \<union> {p} - {0}\<rparr>))
   }"
| "run_event resume (Free p) sys =
     Some (Running ((set_sched ((sys_sched sys)\<lparr>sc_heap := kfree p (sc_heap (sys_sched sys))\<rparr>) sys)
       \<lparr>sys_clients := sys_clients sys - {p}\<rparr>))"

text \<open>
  What the callers guarantee: only tasks of the scheduler are woken, only a task other than the idle task
  ends, and only an allocated block is freed.
\<close>

fun allowed :: "event \<Rightarrow> system \<Rightarrow> bool" where
  "allowed (Unblock t) sys \<longleftrightarrow> t = 0 \<or> t \<in> members (sys_sched sys)"
| "allowed Exit sys \<longleftrightarrow> current_task (sys_sched sys) \<noteq> 0 \<and> current_task (sys_sched sys) \<noteq> idle (sys_sched sys)"
| "allowed (Free p) sys \<longleftrightarrow> p = 0 \<or> p \<in> sys_clients sys"
| "allowed _ sys \<longleftrightarrow> True"

definition is_exception :: "event \<Rightarrow> bool" where
  "is_exception e \<longleftrightarrow> (case e of Interrupt context c address \<Rightarrow> interrupt_number c < 32 | _ \<Rightarrow> False)"

inductive system_reachable :: "u64 \<Rightarrow> system \<Rightarrow> system \<Rightarrow> bool" for resume start where
  start: "system_reachable resume start start"
| step: "system_reachable resume start sys \<Longrightarrow> allowed e sys \<Longrightarrow> run_event resume e sys = Some (Running sys') \<Longrightarrow>
    system_reachable resume start sys'"

definition system_inv :: "system \<Rightarrow> bool" where
  "system_inv sys \<longleftrightarrow> machine_inv (sys_machine sys) (sys_clients sys)"

text \<open>The event has a result: the system runs on with the invariant, or an exception stops it.\<close>

definition goes_on :: "u64 \<Rightarrow> event \<Rightarrow> system \<Rightarrow> bool" where
  "goes_on resume e sys \<longleftrightarrow>
     (case run_event resume e sys of
        None \<Rightarrow> False
      | Some (Running sys') \<Rightarrow> system_inv sys'
      | Some (Stopped m) \<Rightarrow> is_exception e)"

lemma goes_on_keeps:
  assumes "system_inv sys" "keeps (sys_sched sys) s" "run_event resume e sys = Some (Running (set_sched s sys))"
  shows "goes_on resume e sys"
  using assms machine_inv_keeps by (simp add: goes_on_def system_inv_def set_sched_def)

lemma goes_on_heap:
  assumes "system_inv sys" "memory_inv ((sys_sched sys)\<lparr>sc_heap := h\<rparr>) clients"
    "run_event resume e sys = Some (Running ((set_sched ((sys_sched sys)\<lparr>sc_heap := h\<rparr>) sys)\<lparr>sys_clients := clients\<rparr>))"
  shows "goes_on resume e sys"
proof -
  have "sched_inv ((sys_sched sys)\<lparr>sc_heap := h\<rparr>)" using assms(1) by (simp add: system_inv_def machine_inv_def members_heap)
  then show ?thesis using assms machine_inv_sched by (simp add: goes_on_def system_inv_def set_sched_def)
qed

lemma allowed_goes_on:
  assumes inv: "system_inv sys" and al: "allowed e sys"
  shows "goes_on resume e sys"
proof -
  let ?s = "sys_sched sys"
  have s: "sched_inv ?s" and m: "memory_inv ?s (sys_clients sys)" using inv by (simp_all add: system_inv_def machine_inv_def)
  note keep = goes_on_keeps [OF inv] and heap = goes_on_heap [OF inv]
  show ?thesis
  proof (cases e)
    case (Interrupt p c address)
    let ?m = "(sys_machine sys)\<lparr>m_cr2 := address\<rparr>"
    have "machine_inv ?m (sys_clients sys)" using inv by (simp add: system_inv_def machine_inv_def dev_ok_def)
    from interrupt_total [OF this, of resume p c] obtain r where "common_isr_entry resume p c ?m = Some r"
      "case r of Returns m' \<Rightarrow> machine_inv m' (sys_clients sys) | Halts m' \<Rightarrow> interrupt_number c < 32" by blast
    then show ?thesis by (cases r) (simp_all add: Interrupt goes_on_def system_inv_def is_exception_def)
  next
    case (Spawn entry)
    from spawn_total [OF s m, of entry] show ?thesis using inv machine_inv_sched
      by (auto simp: Spawn goes_on_def system_inv_def set_sched_def)
  next
    case Yield
    from yield_total [OF s] show ?thesis by (auto simp: Yield intro: keep)
  next
    case Block
    from block_total [OF s] show ?thesis by (auto simp: Block intro: keep)
  next
    case (Unblock t)
    from unblock_total [OF s, of t] al show ?thesis by (auto simp: Unblock intro: keep)
  next
    case (Sleep ticks)
    from sleep_total [OF s, of ticks] show ?thesis by (auto simp: Sleep intro: keep)
  next
    case Exit
    from exit_total [OF s] al show ?thesis by (auto simp: Exit intro: keep)
  next
    case (Malloc n)
    from kmalloc_total [OF m, of n] al show ?thesis by (auto simp: Malloc intro: heap)
  next
    case (Free p)
    from kfree_total [OF m, of p] al show ?thesis by (auto simp: Free intro: heap)
  qed
qed

lemma reachable_inv:
  assumes "system_reachable resume start sys" "system_inv start"
  shows "system_inv sys"
  using assms
proof (induction rule: system_reachable.induct)
  case (step sys e sys')
  then show ?case using allowed_goes_on [of sys e resume] by (simp add: goes_on_def)
qed

section \<open>The booted system\<close>

text \<open>The screen and the mouse after the boot: every message keeps the terminal inside its arrays.\<close>

lemma println_dev:
  assumes "println fmt args m = Some m'" "dev_ok m"
  shows "dev_ok m'"
proof -
  have "printed (str (fmt @ [CHR 0x0A])) args \<noteq> None"
    using assms(1) by (auto simp: println_def print_def kprintf_def kprintf_loop_printed split: option.splits)
  from println_prints [OF this, of m] show ?thesis using assms printed_more_dev by auto
qed

lemma write_line_dev: "dev_ok m \<Longrightarrow> dev_ok (write_line text m)"
  by (simp add: dev_ok_def write_line_def on_console_def terminal_write_def putchars_ok)

lemma sched_dev:
  "dev_ok (on_sched f m) = dev_ok m" "dev_ok (on_heap g m) = dev_ok m" "dev_ok (m\<lparr>m_handlers := h\<rparr>) = dev_ok m"
  by (simp_all add: dev_ok_def on_sched_def on_heap_def)

lemma memory_map_dump_dev:
  assumes "memory_map_dump tn memmap m = Some m'" "dev_ok m"
  shows "dev_ok m'"
proof -
  have "memory_map_dump_entries tn i es m = Some m' \<Longrightarrow> dev_ok m \<Longrightarrow> dev_ok m'" for i es m m'
    by (induction es arbitrary: i m) (auto simp: bind_eq_Some_conv dest: println_dev)
  then show ?thesis using assms println_dev unfolding memory_map_dump_def bind_eq_Some_conv by blast
qed

lemma boot_drivers_dev: "boot_drivers c = Some c' \<Longrightarrow> dev_ok (cp_machine c) \<Longrightarrow> dev_ok (cp_machine c')"
  by (auto simp: boot_drivers_def on_machine_opt_def on_machine_def on_irq_def bind_eq_Some_conv Let_def
      split: option.splits intro!: write_line_dev) (simp add: dev_ok_def)

lemma boot_start_dev:
  assumes "boot_start im m = Some m'" "dev_ok m"
  shows "dev_ok m'"
  using assms by (auto simp: boot_start_def bind_eq_Some_conv Let_def dest!: println_dev intro!: write_line_dev simp: sched_dev)

lemma boot_display_dev: "dev_ok m \<Longrightarrow> dev_ok (boot_display framebuffer m)"
proof -
  have "term_ok t \<Longrightarrow> term_ok (terminal_init t)" for t
    using terminal_init_ok [of t] by (simp add: term_ok_def arrays_ok_def)
  then show "dev_ok m \<Longrightarrow> dev_ok (boot_display framebuffer m)"
    unfolding boot_display_def Let_def by (intro write_line_dev) (simp add: dev_ok_def on_console_def)
qed

lemma boot_rest_dev:
  assumes "boot_rest im lim (fbuf, memmap, ex, hhdm) c = Some (Booted c')" "dev_ok (cp_machine c)"
  shows "dev_ok (cp_machine c')"
proof -
  obtain c1 c2 m where 1: "memory_map_dump (memmap_type_number lim) memmap (boot_display fbuf (cp_machine c)) = Some m"
    and 2: "boot_drivers (boot_cpu im c1) = Some c2" "cp_machine c1 = write_line ''Memory Initialization Complete'' (on_heap (boot_memory im memmap ex hhdm) m)"
    and 3: "boot_start im (cp_machine c2) = Some (cp_machine c')"
    using assms(1) by (auto simp: boot_rest_def on_machine_def on_machine_opt_def memory_map_init_def Let_def bind_eq_Some_conv)
  have "dev_ok m" by (rule memory_map_dump_dev [OF 1 boot_display_dev [OF assms(2)]])
  then have "dev_ok (cp_machine (boot_cpu im c1))"
    by (simp add: boot_cpu_def on_machine_def Let_def 2(2) split: prod.split) (simp add: write_line_dev sched_dev)
  then show ?thesis using boot_drivers_dev [OF 2(1)] boot_start_dev [OF 3] by blast
qed

text \<open>The system after the boot, before the first event; no client has memory yet.\<close>

definition booted_system :: "computer \<Rightarrow> system" where
  "booted_system c = \<lparr>sys_machine = cp_machine c, sys_clients = {}\<rparr>"

lemma booted_inv:
  assumes b: "scheduler_booted (cp_machine c)" and i: "idle (k_sched (m_kernel (cp_machine c))) \<noteq> 0"
    and d: "dev_ok (cp_machine c)"
  shows "system_inv (booted_system c)"
proof -
  let ?s = "k_sched (m_kernel (cp_machine c))"
  obtain L where L: "heap_live (sc_heap ?s) L" "task_memory (sc_tasks ?s) (idle ?s) L" and st: "sched_start ?s"
    and h: "m_handlers (cp_machine c) = boot_handlers" using b i by (auto simp: scheduler_booted_def Let_def)
  have ok: "sched_ok ?s [] [] []" using st by (auto simp: sched_start_def sched_ok_def linked_def states_ok_def idle_ok_def)
  have "members ?s = {idle ?s}" unfolding members_ok [OF ok] using st i by (auto simp: sched_start_def)
  then have "blocks_ok ?s L {}" using L(2) by (auto simp: blocks_ok_def task_memory_def stack_of_def)
  then show ?thesis using L(1) sched_start_inv [OF st] h d
    by (auto simp: system_inv_def booted_system_def machine_inv_def memory_inv_def)
qed

lemma kmain_system_inv:
  assumes l: "loader_answers lim = Some (fbuf, memmap, ex, hhdm)"
    and r: "memory_ready im memmap ex hhdm (k_heap (m_kernel (cp_machine c)))"
      "memory_ample im memmap ex hhdm (k_heap (m_kernel (cp_machine c)))" "idle_task_address im \<noteq> 0"
    and a: "answers (io_in (dev_io (m_dev (cp_machine c))))" "length (m_handlers (cp_machine c)) = IRQ_COUNT"
    and d: "dev_ok (cp_machine c)"
  shows "\<exists>c'. kmain im lim c = Some (Booted c') \<and> system_inv (booted_system c')"
proof -
  let ?m0 = "on_sched (\<lambda>s. s\<lparr>int_enabled := False\<rparr>) (cp_machine c)"
  obtain m1 where m1: "println ''[TRACE] kmain entry'' [] ?m0 = Some m1" "printed_more ?m0 m1"
    using println_prints [of "''[TRACE] kmain entry''" "[]" ?m0] by (auto simp: format_simps)
  let ?c1 = "c\<lparr>cp_machine := m1\<rparr>"
  have k: "kmain im lim c = boot_rest im lim (fbuf, memmap, ex, hhdm) ?c1"
    using m1(1) l
    by (auto simp: kmain_def loader_answers_def boot_rest_def on_machine_def on_machine_opt_def hd_conv_nth Let_def bind_eq_Some_conv
        split: if_splits)
  have e: "k_heap (m_kernel m1) = k_heap (m_kernel (cp_machine c))" "answers (io_in (dev_io (m_dev m1)))" "length (m_handlers m1) = IRQ_COUNT"
    using m1(2) a by (auto simp: printed_more_def on_sched_def k_heap_def)
  have "dev_ok m1" by (rule printed_more_dev [OF m1(2)]) (use d in \<open>simp add: sched_dev\<close>)
  then show ?thesis
    using boot_rest_boots [of im memmap ex hhdm ?c1 lim fbuf] r e boot_rest_dev [of im lim fbuf memmap ex hhdm ?c1] booted_inv k by force
qed

text \<open>
  C1. The kernel stays sound. On a machine whose memory is as the loader documents, with enough of it for the
  idle task, a mouse controller that answers and the static variables in place, \<open>kmain\<close> boots; and in every
  state that is reached from there by interrupts and by calls of the scheduler and the heap, in any
  order, every event has a result: the kernel runs on unless an exception stops it. In all these
  states the heap is well-formed; the structures and the stacks of all tasks are live blocks, different from
  each other and from what clients have allocated; the queues hold each task at most once and in the state
  they stand for; and the arrays of the terminal and of the mouse are only used inside.
\<close>

theorem kernel_stays_sound:
  assumes "loader_answers lim = Some (fbuf, memmap, ex, hhdm)"
    and "memory_ready im memmap ex hhdm (k_heap (m_kernel (cp_machine c)))"
    and "memory_ample im memmap ex hhdm (k_heap (m_kernel (cp_machine c)))" and "idle_task_address im \<noteq> 0"
    and "answers (io_in (dev_io (m_dev (cp_machine c))))" and "length (m_handlers (cp_machine c)) = IRQ_COUNT"
    and "dev_ok (cp_machine c)"
  shows "\<exists>c'. kmain im lim c = Some (Booted c') \<and>
    (\<forall>sys. system_reachable resume (booted_system c') sys \<longrightarrow>
       system_inv sys \<and>
       (\<forall>e. allowed e sys \<longrightarrow>
          (case run_event resume e sys of
             None \<Rightarrow> False
           | Some (Running sys') \<Rightarrow> system_reachable resume (booted_system c') sys'
           | Some (Stopped m) \<Rightarrow> is_exception e)))"
proof -
  obtain c' where c': "kmain im lim c = Some (Booted c')" "system_inv (booted_system c')"
    using kmain_system_inv [OF assms] by blast
  have "case run_event resume e sys of None \<Rightarrow> False
      | Some (Running sys') \<Rightarrow> system_reachable resume (booted_system c') sys' | Some (Stopped m) \<Rightarrow> is_exception e"
    if r: "system_reachable resume (booted_system c') sys" and al: "allowed e sys" for sys e
    using allowed_goes_on [OF reachable_inv [OF r c'(2)] al, of resume] system_reachable.step [OF r al]
    by (auto simp: goes_on_def split: option.splits progress.splits)
  then show ?thesis using c' reachable_inv by blast
qed

text \<open>The small computer of the boot: a first allocation and a first yield are served.\<close>

lemma sample_computer_dev: "dev_ok (cp_machine (sample_computer fs))"
  using boot_terminal_grid
  by (simp add: dev_ok_def sample_computer_def sample_devices_def sample_console_def term_ok_def arrays_ok_def sample_mouse_def
      boot_terminal_def TERM_ROWS_def TERM_COLS_def INPUT_BUFFER_SIZE_def)

theorem kernel_stays_sound_witness:
  "\<forall>fs. \<exists>c' sys1 sys2. kmain sample_image sample_limine (sample_computer fs) = Some (Booted c') \<and>
     run_event 0x8000 (Malloc 100) (booted_system c') = Some (Running sys1) \<and>
     run_event 0x8000 Yield sys1 = Some (Running sys2) \<and> system_inv sys2"
proof
  fix fs
  let ?c = "sample_computer fs"
  have l: "loader_answers sample_limine = Some (\<lparr>lfb_address = 0xFFFF8000FD000000, lfb_width = 1024, lfb_height = 768, lfb_pitch = 4096\<rparr>,
      boot_map, 0x4000, 0xFFFF800000000000)" by (simp add: loader_answers_def sample_limine_def)
  have k: "k_heap (m_kernel (cp_machine ?c)) = unused_heap" by (simp add: sample_computer_def k_heap_def)
  have "idle_task_address sample_image \<noteq> 0" "answers (io_in (dev_io (m_dev (cp_machine ?c))))"
    "length (m_handlers (cp_machine ?c)) = IRQ_COUNT" by (auto simp: sample_image_def sample_computer_def answers_def)
  from kernel_stays_sound [OF l _ _ this sample_computer_dev, unfolded k, OF sample_memory_ready, of "0x8000"]
  obtain c' where c': "kmain sample_image sample_limine ?c = Some (Booted c')"
    and sound: "\<And>sys. system_reachable 0x8000 (booted_system c') sys \<Longrightarrow> system_inv sys \<and>
       (\<forall>e. allowed e sys \<longrightarrow> (case run_event 0x8000 e sys of None \<Rightarrow> False
           | Some (Running sys') \<Rightarrow> system_reachable 0x8000 (booted_system c') sys' | Some (Stopped m) \<Rightarrow> is_exception e))" by blast
  have step: "\<exists>sys'. run_event 0x8000 e sys = Some (Running sys') \<and> system_reachable 0x8000 (booted_system c') sys'"
    if "system_reachable 0x8000 (booted_system c') sys" "allowed e sys" "\<not> is_exception e" for e sys
    using sound [OF that(1), THEN conjunct2, rule_format, OF that(2)] that(3)
    by (cases "run_event 0x8000 e sys") (auto split: progress.splits)
  obtain sys1 where 1: "run_event 0x8000 (Malloc 100) (booted_system c') = Some (Running sys1)"
    "system_reachable 0x8000 (booted_system c') sys1"
    using step [OF system_reachable.start, of "Malloc 100"] by (auto simp: is_exception_def)
  obtain sys2 where 2: "run_event 0x8000 Yield sys1 = Some (Running sys2)" "system_reachable 0x8000 (booted_system c') sys2"
    using step [OF 1(2), of Yield] by (auto simp: is_exception_def)
  show "\<exists>c' sys1 sys2. kmain sample_image sample_limine ?c = Some (Booted c') \<and>
     run_event 0x8000 (Malloc 100) (booted_system c') = Some (Running sys1) \<and>
     run_event 0x8000 Yield sys1 = Some (Running sys2) \<and> system_inv sys2"
    using c' 1(1) 2 sound by blast
qed

end
