(* ===== verification/Diagnostics.thy ===== *)
theory Diagnostics
  imports Interrupts Address_Space
begin

text \<open>
  The functions that print the state of the kernel: \<open>page_table_dump\<close>, \<open>vma_dump\<close>, the listings of an
  executable (\<open>elf/elf.c\<close>, \<open>elf/elf_loader.c\<close>), the names of task states (\<open>scheduler/scheduler.c\<close>) and the general exception report of \<open>cpu/exceptions.c\<close>, with
  the tables of names they use. They are modelled with their output on the \<open>machine\<close> of Interrupts, and
  shown to end and to change nothing but the output. The self-test of the page allocator, \<open>pmm_run_tests\<close>
  (\<open>main.c\<close>), is here too.
\<close>

section \<open>Page tables\<close>

definition page_walk_level_name :: "page_walk_level \<Rightarrow> string" where
  "page_walk_level_name level =
     (case level of
        PAGE_WALK_LEVEL_PT \<Rightarrow> ''PT (4 KiB)''
      | PAGE_WALK_LEVEL_PD \<Rightarrow> ''PD (2 MiB)''
      | PAGE_WALK_LEVEL_PDPT \<Rightarrow> ''PDPT (1 GiB)''
      | _ \<Rightarrow> ''Unknown'')"

definition page_walk_status_name :: "page_walk_status \<Rightarrow> string" where
  "page_walk_status_name status =
     (case status of
        PAGE_WALK_OK \<Rightarrow> ''OK''
      | PAGE_WALK_INVALID_ROOT \<Rightarrow> ''Invalid root page table''
      | PAGE_WALK_MISSING_PML4_ENTRY \<Rightarrow> ''PML4 entry not present''
      | PAGE_WALK_MISSING_PDPT_ENTRY \<Rightarrow> ''PDPT entry not present''
      | PAGE_WALK_MISSING_PD_ENTRY \<Rightarrow> ''PD entry not present''
      | PAGE_WALK_MISSING_PT_ENTRY \<Rightarrow> ''PT entry not present''
      | PAGE_WALK_HUGE_PAGE_PDPT \<Rightarrow> ''Hit 1 GiB large page''
      | PAGE_WALK_HUGE_PAGE_PD \<Rightarrow> ''Hit 2 MiB large page''
      | PAGE_WALK_ALLOCATION_FAILED \<Rightarrow> ''Failed to allocate a page table''
      | PAGE_WALK_HHDM_UNCONFIGURED \<Rightarrow> ''HHDM is not configured'')"

definition YES_NO :: "bool \<Rightarrow> karg list" where
  "YES_NO b = [Arg_string (str (if b then ''YES'' else ''NO''))]"

text \<open>An \<open>unsigned\<close> argument.\<close>

definition unsigned_arg :: "u64 \<Rightarrow> karg list" where
  "unsigned_arg v = [Arg_word (ucast (ucast v :: u32))]"

definition page_table_dump :: "u64 \<Rightarrow> machine \<Rightarrow> machine option" where
  "page_table_dump va m = do {
     let v = mm_vm (m_mm m);
     let (entry, level, status, v) = page_walk_internal (page_table_get_pml4 v) va False v;
     let m = set_mm ((m_mm m)\<lparr>mm_vm := v\<rparr>) m;
     m \<leftarrow> println ([CHR 0x0A] @ ''===== Page Table Dump ====='') [] m;
     m \<leftarrow> println ''Virtual Address : %p'' [Arg_word va] m;
     m \<leftarrow> println ''PML4 Index      : %u'' (unsigned_arg (PML4_INDEX va)) m;
     m \<leftarrow> println ''PDPT Index      : %u'' (unsigned_arg (PDPT_INDEX va)) m;
     m \<leftarrow> println ''PD Index        : %u'' (unsigned_arg (PD_INDEX va)) m;
     m \<leftarrow> println ''PT Index        : %u'' (unsigned_arg (PT_INDEX va)) m;
     if entry = 0 then do {
       m \<leftarrow> println ''Walk Status     : %s'' [Arg_string (str (page_walk_status_name status))] m;
       println ''============================'' [] m
     } else do {
       let value = load_u64 (vm_mem v) entry;
       m \<leftarrow> println ''Leaf Level      : %s'' [Arg_string (str (page_walk_level_name level))] m;
       m \<leftarrow> println ''Entry Pointer   : %p'' [Arg_word entry] m;
       m \<leftarrow> println ''Entry Value     : %016llx'' [Arg_word value] m;
       m \<leftarrow> println ''Present         : %s'' (YES_NO (page_is_present value)) m;
       m \<leftarrow> println ''Writable        : %s'' (YES_NO (page_is_writable value)) m;
       m \<leftarrow> println ''User            : %s'' (YES_NO (page_is_user value)) m;
       m \<leftarrow> println ''Executable      : %s'' (YES_NO (page_is_executable value)) m;
       println ''============================'' [] m
     }
   }"

section \<open>Virtual memory areas\<close>

text \<open>A loop that may fail in its body.\<close>

primrec for_each :: "('a \<Rightarrow> machine \<Rightarrow> machine option) \<Rightarrow> 'a list \<Rightarrow> machine \<Rightarrow> machine option" where
  "for_each f [] m = Some m"
| "for_each f (x # xs) m = f x m \<bind> for_each f xs"

definition print_if :: "bool \<Rightarrow> string \<Rightarrow> machine \<Rightarrow> machine option" where
  "print_if b text m = (if b then print text [] m else Some m)"

definition vma_dump_entry :: "nat \<Rightarrow> vma \<Rightarrow> machine \<Rightarrow> machine option" where
  "vma_dump_entry i a m = do {
     m \<leftarrow> println ''VMA %u'' [Arg_word (of_nat i)] m;
     m \<leftarrow> println ''Start : %p'' [Arg_word (vma_start a)] m;
     m \<leftarrow> println ''End : %p'' [Arg_word (vma_end a)] m;
     m \<leftarrow> print ''Flags : '' [] m;
     m \<leftarrow> print_if (vma_flags a AND VMA_READ \<noteq> 0) ''READ'' m;
     m \<leftarrow> print_if (vma_flags a AND VMA_WRITE \<noteq> 0) ''WRITE'' m;
     m \<leftarrow> print_if (vma_flags a AND VMA_EXECUTE \<noteq> 0) ''EXECUTE'' m;
     m \<leftarrow> print_if (vma_flags a AND VMA_DEMAND_PAGED \<noteq> 0) ''DEMAND'' m;
     println '''' [] m
   }"

definition vma_dump :: "machine \<Rightarrow> machine option" where
  "vma_dump m = do {
     let v = mm_vma (m_mm m);
     m \<leftarrow> println '''' [] m;
     m \<leftarrow> println ''============== VMA TABLE ================'' [] m;
     if vma_count v = 0 then do {
       m \<leftarrow> println (''NO VMA'' @ [CHR 39] @ ''s'') [] m;
       println ''==============================='' [] m
     } else do {
       m \<leftarrow> for_each (\<lambda>i. vma_dump_entry i (vma_table v ! i)) [0..<vma_count v] m;
       println ''===================================='' [] m
     }
   }"

section \<open>Executables\<close>

definition elf_print_header :: "elf64_header \<Rightarrow> machine \<Rightarrow> machine option" where
  "elf_print_header header m = do {
     m \<leftarrow> println ''========== ELF =========='' [] m;
     m \<leftarrow> println ''Entry          : 0x%llx'' [Arg_word (e_entry header)] m;
     m \<leftarrow> println ''PH Offset      : %llu'' [Arg_word (e_phoff header)] m;
     m \<leftarrow> println ''PH Count       : %u'' [Arg_word (ucast (e_phnum header))] m;
     m \<leftarrow> println ''SH Offset      : %llu'' [Arg_word (e_shoff header)] m;
     m \<leftarrow> println ''SH Count       : %u'' [Arg_word (ucast (e_shnum header))] m;
     println ''========================='' [] m
   }"

text \<open>A second copy of \<open>elf_program_header\<close> in the source, under the name of the type.\<close>

definition elf_program_header_t :: "byte_mem \<Rightarrow> u64 \<Rightarrow> u16 \<Rightarrow> u64" where
  "elf_program_header_t m header index =
     (if header = 0 then 0
      else
        let h = elf_header_at m header in
        if index \<ge> e_phnum h then 0
        else header + e_phoff h + scast (ucast index * ucast (e_phentsize h) :: 32 word))"

definition elf_print_program_header :: "elf64_program_header \<Rightarrow> machine \<Rightarrow> machine option" where
  "elf_print_program_header ph m =
     println ''Type=%uOffset=%lluVAddr=0x%llxFile=%lluMem=%llu''
       [Arg_word (ucast (p_type ph)), Arg_word (p_offset ph), Arg_word (p_vaddr ph), Arg_word (p_filesz ph),
        Arg_word (p_memsz ph)] m"

definition elf_dump_segment :: "byte_mem \<Rightarrow> u64 \<Rightarrow> nat \<Rightarrow> machine \<Rightarrow> machine option" where
  "elf_dump_segment mem header i m =
     (let a = elf_program_header mem header (of_nat i) in
      if a = 0 then Some m
      else do {
        let ph = program_header_at mem a;
        m \<leftarrow> println ([CHR 0x0A] @ ''Segment %u'') [Arg_word (of_nat i)] m;
        m \<leftarrow> println ''Type    : %u'' [Arg_word (ucast (p_type ph))] m;
        m \<leftarrow> println ''Offset  : %llu'' [Arg_word (p_offset ph)] m;
        m \<leftarrow> println ''VAddr   : 0x%llx'' [Arg_word (p_vaddr ph)] m;
        m \<leftarrow> println ''FileSz  : %llu'' [Arg_word (p_filesz ph)] m;
        m \<leftarrow> println ''MemSz  : %llu'' [Arg_word (p_memsz ph)] m;
        println ''Flags   : 0x%x'' [Arg_word (ucast (p_flags ph))] m
      })"

definition elf_dump_segments :: "u64 \<Rightarrow> machine \<Rightarrow> (int \<times> machine) option" where
  "elf_dump_segments header m =
     (let mem = hp_mem (k_heap (m_kernel m)) in
      if elf_validate mem header \<noteq> KERNEL_SUCCESS then Some (KERNEL_EINVAL, m)
      else do {
        m \<leftarrow> println ([CHR 0x0A] @ ''====== PROGRAM HEADERS ======'') [] m;
        m \<leftarrow> for_each (elf_dump_segment mem header) [0..<unat (e_phnum (elf_header_at mem header))] m;
        Some (KERNEL_SUCCESS, m)
      })"

section \<open>Exceptions\<close>

definition print_register :: "string \<Rightarrow> u64 \<Rightarrow> machine \<Rightarrow> machine option" where
  "print_register name v m = println ''%s = %p'' [Arg_string (str name), Arg_word v] m"

definition generic_exception_handler :: "interrupt_context \<Rightarrow> machine \<Rightarrow> outcome option" where
  "generic_exception_handler c m = do {
     let name = (if interrupt_number c < 32 then exception_names ! unat (interrupt_number c) else ''Unknown Exception'');
     m \<leftarrow> println '''' [] m;
     m \<leftarrow> println ''================================'' [] m;
     m \<leftarrow> println ''CPU EXCEPTION'' [] m;
     m \<leftarrow> println ''================================'' [] m;
     m \<leftarrow> println ''Vector      = %u'' (unsigned_arg (interrupt_number c)) m;
     m \<leftarrow> println ''Name        = %s'' [Arg_string (str name)] m;
     m \<leftarrow> println ''Error Code  = %p'' [Arg_word (error_code c)] m;
     m \<leftarrow> println ''RIP         = %p'' [Arg_word (rip (frame c))] m;
     m \<leftarrow> println ''CS          = %p'' [Arg_word (cs (frame c))] m;
     m \<leftarrow> println ''RFLAGS      = %p'' [Arg_word (rflags (frame c))] m;
     m \<leftarrow> println '''' [] m;
     m \<leftarrow> print_register ''RAX'' (rax (regs c)) m;
     m \<leftarrow> print_register ''RBX'' (rbx (regs c)) m;
     m \<leftarrow> print_register ''RCX'' (rcx (regs c)) m;
     m \<leftarrow> print_register ''RDX'' (rdx (regs c)) m;
     m \<leftarrow> print_register ''RBP'' (rbp (regs c)) m;
     m \<leftarrow> print_register ''RSI'' (rsi (regs c)) m;
     m \<leftarrow> print_register ''RDI'' (rdi (regs c)) m;
     m \<leftarrow> print_register ''R8'' (r8 (regs c)) m;
     m \<leftarrow> print_register ''R9'' (r9 (regs c)) m;
     m \<leftarrow> print_register ''R10'' (r10 (regs c)) m;
     m \<leftarrow> print_register ''R11'' (r11 (regs c)) m;
     m \<leftarrow> print_register ''R12'' (r12 (regs c)) m;
     m \<leftarrow> print_register ''R13'' (r13 (regs c)) m;
     m \<leftarrow> print_register ''R14'' (r14 (regs c)) m;
     m \<leftarrow> print_register ''R15'' (r15 (regs c)) m;
     m \<leftarrow> println ([CHR 0x0A] @ ''System halted.'') [] m;
     Some (Halts m)
   }"

section \<open>Tasks\<close>

definition scheduler_task_state_name :: "task_state \<Rightarrow> string" where
  "scheduler_task_state_name st =
     (case st of
        TASK_READY \<Rightarrow> ''READY''
      | TASK_RUNNING \<Rightarrow> ''RUNNING''
      | TASK_BLOCKED \<Rightarrow> ''BLOCKED''
      | TASK_SLEEPING \<Rightarrow> ''SLEEPING''
      | TASK_TERMINATED \<Rightarrow> ''TERMINATED''
      | TASK_IDLE \<Rightarrow> ''IDLE'')"

definition scheduler_resume_mode_name :: "task_resume_mode \<Rightarrow> string" where
  "scheduler_resume_mode_name mode =
     (case mode of TASK_RESUME_CONTEXT \<Rightarrow> ''CONTEXT'' | TASK_RESUME_INTERRUPT \<Rightarrow> ''INTERRUPT'')"

section \<open>The self-test of the page allocator\<close>

text \<open>
  \<open>pmm_run_tests\<close> (\<open>main.c\<close>) calls the allocator and prints what it answers. No code calls it.
\<close>

definition upd_pmm :: "(pmm_state \<Rightarrow> pmm_state) \<Rightarrow> machine \<Rightarrow> machine" where
  "upd_pmm f m =
     (let v = mm_vm (m_mm m) in set_mm ((m_mm m)\<lparr>mm_vm := v\<lparr>vm_pmm := f (vm_pmm v)\<rparr>\<rparr>) m)"

definition m_pmm :: "machine \<Rightarrow> pmm_state" where
  "m_pmm m = vm_pmm (mm_vm (m_mm m))"

definition terminal_line :: "string \<Rightarrow> machine \<Rightarrow> machine" where
  "terminal_line s m = m\<lparr>m_dev := (m_dev m)\<lparr>dev_con := terminal_write (str (s @ [CHR 0x0A])) (dev_con (m_dev m))\<rparr>\<rparr>"

definition pmm_run_tests :: "machine \<Rightarrow> machine option" where
  "pmm_run_tests m =
     (let m = terminal_line ([CHR 0x0A] @ ''===== PMM Allocation Test ====='') m;
          (page1, s) = pmm_alloc_page (m_pmm m);
          (page2, s) = pmm_alloc_page s;
          (page3, s) = pmm_alloc_page s;
          m = upd_pmm (\<lambda>_. s) m in do {
        m \<leftarrow> println ''Page1 : %p'' [Arg_word page1] m;
        m \<leftarrow> println ''Page2 : %p'' [Arg_word page2] m;
        m \<leftarrow> println ''Page3 : %p'' [Arg_word page3] m;
        let m = upd_pmm (pmm_free_page page2) m;
        let m = terminal_line ''Freed Page2'' m;
        let (page4, s) = pmm_alloc_page (m_pmm m);
        let m = upd_pmm (\<lambda>_. s) m;
        m \<leftarrow> println ''Page4 : %p'' [Arg_word page4] m;
        m \<leftarrow> println ''Free Pages : %u'' (unsigned_arg (pmm_get_free_pages (m_pmm m))) m;
        m \<leftarrow> println ''Used Pages : %u'' (unsigned_arg (pmm_get_used_pages (m_pmm m))) m;
        m \<leftarrow> println [] [] m;
        m \<leftarrow> println ''===== Lock Test ====='' [] m;
        m \<leftarrow> println ''Free Pages : %u'' (unsigned_arg (pmm_get_free_pages (m_pmm m))) m;
        let m = upd_pmm (pmm_lock_page 0x1000) m;
        m \<leftarrow> println ''After Lock : %u'' (unsigned_arg (pmm_get_free_pages (m_pmm m))) m;
        let m = upd_pmm (pmm_unlock_page 0x1000) m;
        println ''After Unlock : %u'' (unsigned_arg (pmm_get_free_pages (m_pmm m))) m
      })"

section \<open>Printing only\<close>

lemma reports_done: "reports m (Some m)"
  using printed_more_refl by (auto simp: reports_def)

lemma reports_bind:
  assumes "reports m r" "\<And>m'. reports m' (k m')"
  shows "reports m (r \<bind> k)"
  using assms printed_more_trans unfolding reports_def by fastforce

lemma reports_print:
  assumes "printed (str fmt) args \<noteq> None"
  shows "reports m (print fmt args m)"
proof -
  from assms obtain out where "printed (str fmt) args = Some out" by blast
  moreover define d where "d = (kprintf_puts out (m_dev m))\<lparr>dev_con := terminal_render (dev_con (kprintf_puts out (m_dev m)))\<rparr>"
  ultimately have "print fmt args m = Some (m\<lparr>m_dev := d\<rparr>)" by (simp add: print_def kprintf_def kprintf_loop_printed)
  moreover have "printed_more m (m\<lparr>m_dev := d\<rparr>)"
    unfolding printed_more_def by (intro exI [of _ d] exI [of _ out]) (simp add: d_def puts_dev_io puts_term)
  ultimately show ?thesis by (auto simp: reports_def)
qed

lemma reports_println': "printed (str (fmt @ [CHR 0x0A])) args \<noteq> None \<Longrightarrow> reports m (println fmt args m)"
  unfolding println_def by (rule reports_print)

lemma reports_each: "(\<And>x m. reports m (f x m)) \<Longrightarrow> reports m (for_each f xs m)"
  by (induction xs arbitrary: m) (auto intro: reports_done reports_bind)

lemma reports_if: "reports m r \<Longrightarrow> reports m r' \<Longrightarrow> reports m (if b then r else r')"
  by simp

lemma reports_print_if: "printed (str text) [] \<noteq> None \<Longrightarrow> reports m (print_if b text m)"
  by (simp add: print_if_def reports_print reports_done)

lemma walk_reads: "page_walk_internal root va False s = (e, l, st, s') \<Longrightarrow> s' = s"
  by (auto simp: page_walk_internal_def ensure_next_table_def Let_def split: prod.splits if_splits)

lemmas reports_intros = reports_bind reports_if reports_println' reports_print_if reports_each reports_done

lemma page_table_dump_reports: "reports m (page_table_dump va m)"
proof -
  obtain e l st s' where w: "page_walk_internal (page_table_get_pml4 (mm_vm (m_mm m))) va False (mm_vm (m_mm m)) = (e, l, st, s')"
    by (metis prod_cases4)
  have "set_mm ((m_mm m)\<lparr>mm_vm := s'\<rparr>) m = m" by (simp add: walk_reads [OF w] set_mm_def m_mm_def set_heap_def k_heap_def)
  then show ?thesis
    unfolding page_table_dump_def Let_def w prod.case
    by (simp only:) (intro reports_intros; simp add: format_simps YES_NO_def unsigned_arg_def)
qed

lemma vma_dump_reports: "reports m (vma_dump m)"
proof -
  have "reports m (vma_dump_entry i a m)" for i a m
    unfolding vma_dump_entry_def by (intro reports_intros reports_print) (simp_all add: format_simps)
  then show ?thesis unfolding vma_dump_def Let_def by (intro reports_intros) (simp_all add: format_simps)
qed

text \<open>
  The diagnostic listings end and change nothing but the output, whatever the state; in particular the walk
  of \<open>page_table_dump\<close> creates no tables.
\<close>

theorem diagnostics_only_print:
  "reports m (page_table_dump va m) \<and> reports m (vma_dump m) \<and> reports m (elf_print_header header m) \<and>
   reports m (elf_print_program_header ph m) \<and>
   (\<exists>rc. reports m (map_option snd (elf_dump_segments a m)) \<and> map_option fst (elf_dump_segments a m) = Some rc) \<and>
   ends_as Halts m (generic_exception_handler c m)"
proof (intro conjI)
  show "reports m (page_table_dump va m)" "reports m (vma_dump m)" by (fact page_table_dump_reports vma_dump_reports)+
  show "reports m (elf_print_header header m)" "reports m (elf_print_program_header ph m)"
    unfolding elf_print_header_def elf_print_program_header_def by (intro reports_intros; simp add: format_simps)+
  have s: "reports m (elf_dump_segment mem header i m)" for mem header i m
    unfolding elf_dump_segment_def Let_def by (intro reports_intros) (simp_all add: format_simps)
  let ?mem = "hp_mem (k_heap (m_kernel m))"
  have "reports m (println ([CHR 0x0A] @ ''====== PROGRAM HEADERS ======'') [] m \<bind>
      for_each (elf_dump_segment ?mem a) [0..<unat (e_phnum (elf_header_at ?mem a))])"
    by (intro reports_intros s) (simp add: format_simps)
  then show "\<exists>rc. reports m (map_option snd (elf_dump_segments a m)) \<and> map_option fst (elf_dump_segments a m) = Some rc"
    using reports_done [of m] by (auto simp: elf_dump_segments_def Let_def reports_def bind_eq_Some_conv)
  show "ends_as Halts m (generic_exception_handler c m)"
    unfolding generic_exception_handler_def print_register_def Let_def
    by (intro ends_as_println ends_as_done) (simp_all add: format_simps unsigned_arg_def)
qed

text \<open>The changes of the self-test to the allocator.\<close>

definition test_pages :: "pmm_state \<Rightarrow> pmm_state" where
  "test_pages s =
     (let (page1, s) = pmm_alloc_page s;
          (page2, s) = pmm_alloc_page s;
          (page3, s) = pmm_alloc_page s;
          (page4, s) = pmm_alloc_page (pmm_free_page page2 s)
      in pmm_unlock_page 0x1000 (pmm_lock_page 0x1000 s))"

lemma reports_pmm:
  assumes "printed (str (fmt @ [CHR 0x0A])) args \<noteq> None"
    and "\<And>m'. m_pmm m' = m_pmm m \<Longrightarrow> \<exists>m''. k m' = Some m'' \<and> P (m_pmm m'')"
  shows "\<exists>m''. (println fmt args m \<bind> k) = Some m'' \<and> P (m_pmm m'')"
proof -
  obtain m' where "println fmt args m = Some m'" "printed_more m m'"
    using reports_println' [OF assms(1)] by (auto simp: reports_def)
  then show ?thesis using assms(2) [of m'] by (auto simp: printed_more_def m_pmm_def m_mm_def)
qed

lemma m_pmm_simps [simp]: "m_pmm (upd_pmm f m) = f (m_pmm m)" "m_pmm (terminal_line s m) = m_pmm m"
  by (simp_all add: m_pmm_def upd_pmm_def terminal_line_def m_mm_def set_mm_def set_heap_def k_heap_def Let_def)

lemma pmm_run_tests_pages: "\<exists>m'. pmm_run_tests m = Some m' \<and> m_pmm m' = test_pages (m_pmm m)"
proof -
  obtain p1 s1 p2 s2 p3 s3 where a: "pmm_alloc_page (m_pmm m) = (p1, s1)" "pmm_alloc_page s1 = (p2, s2)" "pmm_alloc_page s2 = (p3, s3)"
    by (metis surj_pair)
  obtain p4 s4 where a4: "pmm_alloc_page (pmm_free_page p2 s3) = (p4, s4)" by (metis surj_pair)
  have last: "\<exists>m''. println fmt args m = Some m'' \<and> P (m_pmm m'')"
    if "printed (str (fmt @ [CHR 0x0A])) args \<noteq> None" "P (m_pmm m)" for fmt args m P
    using reports_pmm [of fmt args m Some P] that by simp
  show ?thesis
    unfolding pmm_run_tests_def test_pages_def Let_def
    by (simp add: a split del: if_split) (rule reports_pmm last; simp add: format_simps unsigned_arg_def a4)+
qed

lemma alloc_keeps: "pmm_inv s \<Longrightarrow> pmm_inv (snd (pmm_alloc_page s)) \<and> total_pages (snd (pmm_alloc_page s)) = total_pages s"
  using pmm_alloc_None [of s] pmm_alloc_Some [of s] pmm_take_page [of s] by (metis snd_conv)

text \<open>
  The self-test ends and keeps the invariant of the allocator, but it has an effect: the last unlock leaves
  page 1 free even when it was reserved or in use before.
\<close>

lemma pmm_run_tests_effect:
  assumes inv: "pmm_inv (m_pmm m)"
  shows "\<exists>m'. pmm_run_tests m = Some m' \<and> pmm_inv (m_pmm m') \<and> total_pages (m_pmm m') = total_pages (m_pmm m) \<and>
     (1 < total_pages (m_pmm m) \<longrightarrow> 1 \<in> free_set (m_pmm m'))"
proof -
  define s1 where "s1 = snd (pmm_alloc_page (m_pmm m))"
  define s2 where "s2 = snd (pmm_alloc_page s1)"
  define s3 where "s3 = pmm_free_page (fst (pmm_alloc_page s1)) (snd (pmm_alloc_page s2))"
  define s4 where "s4 = pmm_lock_page 0x1000 (snd (pmm_alloc_page s3))"
  have "pmm_inv s3 \<and> total_pages s3 = total_pages (m_pmm m)"
    using inv alloc_keeps pmm_free_page by (simp add: s1_def s2_def s3_def)
  then have s4: "pmm_inv s4" "total_pages s4 = total_pages (m_pmm m)"
    using alloc_keeps by (simp_all add: s4_def pmm_lock_page_def pmm_inv_mark_used mark_used_total)
  have "test_pages (m_pmm m) = pmm_unlock_page 0x1000 s4"
    by (simp add: test_pages_def s1_def s2_def s3_def s4_def split: prod.split)
  moreover have "pmm_address_to_page 0x1000 = 1" by (simp add: pmm_address_to_page_def PMM_PAGE_SIZE_def)
  ultimately show ?thesis
    using pmm_run_tests_pages [of m] s4
    by (auto simp: pmm_unlock_page_def pmm_inv_mark_free mark_free_total free_set_mark_free)
qed

end
