(* ===== verification/Spec2Isabelle.thy ===== *)
theory Spec2Isabelle
  imports Ramfs_Tree Mutex Program_Load Process_List Gui System Diagnostics
begin

text \<open>
  A verification of the ZenithOS kernel, an x86-64 kernel in C under \<open>src/kernel/src\<close>. The theories are named
  below with the files they model; each opens with a text on its own state and conventions. The mapped
  definitions keep the names of the source, and a definition models the whole function unless its text says
  which part.

  \<^bold>\<open>The program.\<close> \<open>kmain\<close> (\<open>main.c\<close>) checks the answers of the Limine loader, starts the display, and then
  the memory managers in the order in which they build on each other: the physical memory manager hands out
  4 KiB frames, the page tables map them, the table of virtual memory areas says which addresses may be
  mapped on demand, and the kernel heap takes pages from both. The descriptor tables, the interrupt
  controllers and the drivers follow, then the scheduler. Interrupts enter through the stubs of \<open>cpu/isr.asm\<close>
  and are dispatched by \<open>cpu/isr.c\<close>: page faults go to the demand pager, the timer to the scheduler, the
  keyboard to the terminal. Processes own an address space, a descriptor table and a main task; their code
  comes from ELF files of the RAM file system.

  \<^bold>\<open>Conventions.\<close> Machine integers are words of their width and wrap around; where the source relies on
  their not wrapping, that is a hypothesis or is proved. Pointers are 64-bit words and 0 is the null pointer.
  Memory read and written as bytes (page tables, user pages, buffers, kernel stacks, the framebuffer) is a
  function from addresses to bytes; structures that are only reached through typed pointers (tasks, heap
  headers, inodes, windows) are stores from addresses to records. Every function takes and returns the state
  it touches. Error codes are integers as in \<open>kernel_err/errno.h\<close>. A loop that need not end is a partial
  function into \<open>option\<close> and \<open>None\<close> is a run that never returns or whose C meaning is undefined; the
  theorems then prove that there is a result, so no bound or fuel occurs in the development. The console
  output of the memory managers, the scheduler, the processes and the file system is left out; that of
  \<open>kmain\<close>, of the exception handlers and of the diagnostic listings is modelled.

  \<^bold>\<open>Prelude.\<close> The theory \<open>Prelude\<close> holds the counting loops over words and the lemmas on words and folds.

  \<^bold>\<open>Memory.\<close>

  \<^item> \<open>Bitmap\<close> (\<open>mm/bitmap.c\<close>) and \<open>Pmm\<close> (\<open>mm/pmm.c\<close>): the set of free frames behind the bitmap, the
    counters and the search hint. After \<open>pmm_init\<close>, for a memory map whose usable part ends below
    4 GiB, exactly the usable frames that are not reserved are free, the extents being stated in numbers without
    wrap-around; over any sequence of requests no frame is handed out twice. The locale \<open>page_allocator\<close> is
    the contract the clients use.
  \<^item> \<open>Kmemory\<close> (\<open>lib/memory.c\<close>, \<open>lib/string.c\<close>): copying, clearing and comparing bytes, C strings,
    little-endian loads and stores.
  \<^item> \<open>Page_Table\<close> and \<open>Address_Space\<close> (\<open>vmm/page_table.c\<close>, \<open>vmm/paging.c\<close>): the four-level tables in
    memory and the abstract address space they represent. Translation refines the abstract one; mapping,
    unmapping and mapping for user mode change one page and keep the tables a tree of allocated frames; a new
    address space is a copy of the kernel's. The locale \<open>virtual_memory\<close> is the contract.
  \<^item> \<open>Vma\<close> (\<open>vmm/vma/vma.c\<close>) and \<open>Demand_Paging\<close> (\<open>vmm/demand_paging.c\<close>): areas are disjoint in every
    reachable table, and a fault in a demand-paged area maps a fresh zeroed page, taking no other frames
    than tables and writing to no other page in use.
  \<^item> \<open>Kheap\<close> and \<open>Heap_Blocks\<close> (\<open>mm/heap.c\<close>): the linked block list tiles the committed range; allocation
    ends and returns fresh aligned memory or null, and not null when the free end of the heap can grow to hold the
    request; freeing gives back exactly the block. The locale
    \<open>memory_allocator\<close> carries the safety of arbitrary client sequences, with requests of any size: \<open>granted\<close> says
    that a size within 15 bytes of the largest one, which wraps around in \<open>align_size\<close>, may get an empty region.
  \<^item> \<open>Shared_Space\<close>: an address space that shares tables with the active one, as \<open>page_table_create\<close> makes it, stays
    well-formed when the heap grows.

  \<^bold>\<open>Tasks.\<close>

  \<^item> \<open>Task_Queue\<close> (\<open>scheduler/queue.c\<close>), \<open>Scheduler\<close> and \<open>Scheduling\<close> (\<open>scheduler/scheduler.c\<close>,
    \<open>scheduler/task.c\<close>, \<open>scheduler/context.c\<close>, the tick of \<open>hal/pit.c\<close> and the hand-over of \<open>cpu/isr.asm\<close>):
    the invariant of the queues over the step relation \<open>sched_step\<close>, round robin, sleeping, preemption and
    the interrupt frames: the task that goes on gets its saved frame or a frame with the registers of its first
    entry. An operation ends where it leaves the processor; what follows in the C function
    happens when the task is resumed.
  \<^item> \<open>Mutex\<close> (\<open>sync/\<close>): spin locks as partial functions, the mutex with its queue of waiters.

  \<^bold>\<open>Files and processes.\<close>

  \<^item> \<open>Vfs\<close> and \<open>Ramfs_Tree\<close> (\<open>fs/\<close>): inodes, mounts, open files and descriptors; lookup refines the abstract
    tree of names, creation adds one entry or fails with the code of its reason, a read returns what was
    written.
  \<^item> \<open>Elf\<close> and \<open>Elf_Image\<close> (\<open>elf/\<close>), \<open>Process\<close>, \<open>User_Memory\<close>, \<open>Program_Load\<close> and \<open>Process_List\<close>
    (\<open>process/\<close>, \<open>fs/sys_file.c\<close>): loading an executable into an image and into user pages byte for byte, where
    the address space of the process is the active one or shares its tables, and the list of processes.

  \<^bold>\<open>Display and devices.\<close>

  \<^item> \<open>Convert\<close> (\<open>lib/convert.c\<close>, \<open>lib/math.c\<close>) and \<open>Printf\<close> (\<open>stdio/printf.c\<close>, \<open>hal/io.c\<close>): the strings written
    are the usual notations, and \<open>kprintf\<close> prints a format as it reads.
  \<^item> \<open>Graphics\<close> and \<open>Drawing\<close> (\<open>framebuffer/\<close>, \<open>graphics/\<close>, \<open>font/\<close>): the locale \<open>canvas\<close>, interpreted
    by the framebuffer, says what a sequence of points paints; rectangles, glyphs and lines are pictures, and
    the loop of \<open>draw_line\<close> ends.
  \<^item> \<open>Terminal\<close> (\<open>terminal/terminal.c\<close>): the cursor stays inside, and the screen shows the wrapped text.
  \<^item> \<open>Devices\<close> (\<open>hal/\<close>, \<open>drivers/\<close>, the table of \<open>cpu/irq.c\<close>): what the devices answer is a function of the
    number of reads; the pointer of the mouse stays on the screen.
  \<^item> \<open>Gui\<close> (\<open>gui/\<close>, \<open>apps/terminal_app.c\<close>): hit testing and dragging of windows, and redrawing that writes
    only visible pixels.
  \<^item> \<open>Interrupts\<close> (\<open>cpu/\<close>): the descriptor tables decode to the intended handlers and segments, and every
    vector ends as intended. \<open>Diagnostics\<close>: the listings end and only print; the self-test of the page
    allocator in \<open>main.c\<close>.

  \<^bold>\<open>Boot.\<close> \<open>Boot\<close> (\<open>main.c\<close>, \<open>mm/memory_map.c\<close>) composes the components: from what the loader documents
  of its answers and its page tables, and from a mouse controller that answers, \<open>kmain\<close> reaches a state with
  the invariants that the theorems above assume, and with enough memory (\<open>memory_ample\<close>) the idle task exists.

  \<^bold>\<open>The running system.\<close> \<open>System\<close> joins all of this. Its state is the machine that \<open>kmain\<close> leaves and the set of
  heap blocks that clients hold; its events are interrupts with any vector and frame, which go through
  \<open>common_isr_entry\<close> (\<open>cpu/isr.asm\<close>), the dispatchers and the hand-over to the next task, and the calls of the
  scheduler and the heap (creating a task, yielding, blocking, waking, sleeping, exit, \<open>kmalloc\<close>, \<open>kfree\<close>). The
  invariant \<open>system_inv\<close> joins those of the heap, the queues, the terminal and the mouse with what only holds
  of them together: the structures and the stacks of all tasks are live heap blocks, apart from each other and
  from the blocks of the clients. It holds in every state reachable from the boot, and no event gets stuck
  there.

  \<^bold>\<open>Not modelled.\<close> The assembly beyond the hand-over in \<open>Scheduler\<close> and the common
  entry in \<open>System\<close> (loading of descriptor tables, pushing of registers, loading the stack pointer from the frame
  that the dispatcher returns, saving the context of a task that is switched away, which is an event only, atomic instructions, which are
  steps of \<open>Mutex\<close>); the self-tests that \<open>kmain\<close> runs after the start of the scheduler and
  the test files; the loader itself and its header, which are not part of the source; the code of the tasks, the idle
  task included, whose calls are the events of \<open>System\<close>; memory ordering, and interrupts in the middle of
  an operation: operations are atomic steps. The kernel runs on one processor and turns interrupts off around the
  operations on the queues, but not everywhere: between the release of the guard and the yield of
  \<open>mutex_lock\<close>, and between the enabling of interrupts and \<open>scheduler_init\<close> in
  \<open>kmain\<close>, a timer interrupt is possible that the model does not have.

  \<^bold>\<open>Hypotheses on the outside.\<close> The loader's tables form a tree in bootloader-reclaimable memory and the direct map
  does not wrap around (\<open>loader_tables\<close>, \<open>memory_ready\<close>); the framebuffer lies in one piece (\<open>display_ok\<close>); the
  controller of the mouse answers again and again (\<open>answers\<close>).
\<close>

end
